(* ===== verification/Prelude.thy ===== *)
theory Prelude
  imports Main "HOL-Library.Word"
begin

text \<open>
  Shared vocabulary of the development: the machine types of the C++ sources, the
  little-endian object representation of an unsigned integer, and the generic facts on
  words, bits and lists that the component theories use.

  \<^item> \<open>byte\<close> is C's \<open>unsigned char\<close>; \<open>u32\<close> and \<open>u64\<close> are \<open>uint32_t\<close> and \<open>uint64_t\<close> (and
    \<open>size_t\<close> on the supported 64-bit platforms, where its arithmetic can wrap).
  \<^item> \<open>bytes\<close> is a run of memory: the value a \<open>Slice\<close> or a \<open>std::string\<close> denotes.
  \<^item> \<open>word_simps\<close> collects the equations that read words as natural numbers, and
    \<open>byte_simps\<close> the equations on byte lists.
\<close>

unbundle bit_operations_syntax

named_theorems word_simps \<open>reading machine words as natural numbers\<close>
named_theorems byte_simps \<open>byte lists and their representation\<close>

type_synonym byte = "8 word"
type_synonym u32 = "32 word"
type_synonym u64 = "64 word"
type_synonym bytes = "byte list"

subsection \<open>Object representation\<close>

text \<open>
  The bytes of an unsigned integer, least significant byte first, and the value such
  bytes denote. On a little-endian host this is what \<open>memcpy\<close> from or to the object
  copies; on a big-endian host it is the reverse.
\<close>

definition le_bytes :: "nat \<Rightarrow> 'a::len word \<Rightarrow> bytes" where
  "le_bytes n v = map (\<lambda>i. ucast (drop_bit (8 * i) v)) [0..<n]"

fun le_word :: "bytes \<Rightarrow> 'a::len word" where
  "le_word [] = 0"
| "le_word (b # bs) = ucast b OR push_bit 8 (le_word bs)"

definition host_bytes :: "bool \<Rightarrow> nat \<Rightarrow> 'a::len word \<Rightarrow> bytes" where
  "host_bytes little n v = (if little then le_bytes n v else rev (le_bytes n v))"

definition host_word :: "bool \<Rightarrow> bytes \<Rightarrow> 'a::len word" where
  "host_word little bs = le_word (if little then bs else rev bs)"

lemma length_le_bytes [simp]: "length (le_bytes n v) = n"
  by (simp add: le_bytes_def)

lemma le_bytes_0 [simp]: "le_bytes 0 v = []"
  by (simp add: le_bytes_def)

lemma le_bytes_Suc: "le_bytes (Suc n) v = ucast v # le_bytes n (drop_bit 8 v)"
  by (simp add: le_bytes_def upt_conv_Cons map_Suc_upt [symmetric] ac_simps
      del: upt_Suc)

lemma le_bytes_4:
  "le_bytes 4 v = [ucast v, ucast (drop_bit 8 v), ucast (drop_bit 16 v), ucast (drop_bit 24 v)]"
  by (simp add: le_bytes_def upt_conv_Cons)

lemma le_bytes_8:
  "le_bytes 8 v = [ucast v, ucast (drop_bit 8 v), ucast (drop_bit 16 v), ucast (drop_bit 24 v),
     ucast (drop_bit 32 v), ucast (drop_bit 40 v), ucast (drop_bit 48 v), ucast (drop_bit 56 v)]"
  by (simp add: le_bytes_def upt_conv_Cons)

lemma length_host_bytes [simp]: "length (host_bytes little n v) = n"
  by (simp add: host_bytes_def)

subsection \<open>Bits of words\<close>

lemma bit_word_out: "LENGTH('a) \<le> i \<Longrightarrow> \<not> bit (w :: 'a::len word) i"
  by (simp add: bit_imp_le_length leD impossible_bit)

lemma bit_ucast_byte: "bit (ucast (b :: byte) :: 'a::len word) i \<longleftrightarrow> i < LENGTH('a) \<and> bit b i"
  by (simp add: bit_simps)

lemma bit_128:
  "bit (128 :: 'a::semiring_bit_operations) i \<longleftrightarrow> i = 7 \<and> possible_bit TYPE('a) 7"
proof -
  have "bit (2 ^ 7 :: 'a) i \<longleftrightarrow> i = 7 \<and> possible_bit TYPE('a) 7"
    by (auto simp only: bit_exp_iff)
  then show ?thesis by simp
qed

lemma and_127: "w AND 127 = take_bit 7 w" for w :: "'a::len word"
  by (simp add: take_bit_eq_mask mask_eq_exp_minus_1)

lemma and_255: "w AND 255 = take_bit 8 w" for w :: "'a::len word"
  by (simp add: take_bit_eq_mask mask_eq_exp_minus_1)

lemma le_word_bit:
  "bit (le_word bs :: 'a::len word) i \<longleftrightarrow>
     i < LENGTH('a) \<and> i div 8 < length bs \<and> bit (bs ! (i div 8)) (i mod 8)"
proof (induction bs arbitrary: i)
  case Nil
  then show ?case by simp
next
  case (Cons b bs)
  show ?case
  proof (cases "i < 8")
    case True
    then show ?thesis by (auto simp: bit_simps)
  next
    case False
    then obtain j where "i = 8 + j"
      by (metis le_Suc_ex linorder_not_less)
    then have "i div 8 = Suc (j div 8)" and "i mod 8 = j mod 8"
      by simp_all
    then show ?thesis
      using \<open>i = 8 + j\<close> Cons.IH [of j]
      by (auto simp: bit_simps bit_word_out dest: bit_imp_le_length)
  qed
qed

lemma le_word_le_bytes [byte_simps]:
  fixes v :: "'a::len word"
  assumes "LENGTH('a) \<le> 8 * n"
  shows "le_word (le_bytes n v) = v"
proof (rule bit_word_eqI)
  fix i
  assume i: "i < LENGTH('a)"
  with assms have "i div 8 < n" by linarith
  then show "bit (le_word (le_bytes n v) :: 'a word) i = bit v i"
    using i by (simp add: le_word_bit le_bytes_def bit_simps)
qed

lemma le_bytes_le_word [byte_simps]:
  assumes "8 * length bs \<le> LENGTH('a::len)"
  shows "le_bytes (length bs) (le_word bs :: 'a word) = bs"
proof (rule nth_equalityI)
  show "length (le_bytes (length bs) (le_word bs :: 'a word)) = length bs" by simp
next
  fix i
  assume "i < length (le_bytes (length bs) (le_word bs :: 'a word))"
  then have i: "i < length bs" by simp
  show "le_bytes (length bs) (le_word bs :: 'a word) ! i = bs ! i"
  proof (rule bit_word_eqI)
    fix j
    assume "j < LENGTH(8)"
    then have j: "j < 8" by simp
    with i assms have "8 * i + j < LENGTH('a)" by linarith
    with i j show "bit (le_bytes (length bs) (le_word bs :: 'a word) ! i) j = bit (bs ! i) j"
      by (simp add: le_bytes_def bit_simps le_word_bit)
  qed
qed

lemma host_word_host_bytes [byte_simps]:
  fixes v :: "'a::len word"
  shows "LENGTH('a) \<le> 8 * n \<Longrightarrow> host_word little (host_bytes little n v) = v"
  by (simp add: host_word_def host_bytes_def le_word_le_bytes)

subsection \<open>Words as natural numbers\<close>

lemma uint_eq_conv [simp]: "uint a = uint b \<longleftrightarrow> a = b"
  by (simp add: word_uint_eq_iff)

lemma uint_less_conv: "uint a < uint b \<longleftrightarrow> a < b"
  by (simp add: word_less_def)

lemma unat_of_nat_small [word_simps]:
  "n < 2 ^ LENGTH('a) \<Longrightarrow> unat (of_nat n :: 'a::len word) = n"
  by (simp add: unat_of_nat take_bit_nat_eq_self)

lemma unat_add_small [word_simps]:
  fixes a b :: "'a::len word"
  shows "unat a + unat b < 2 ^ LENGTH('a) \<Longrightarrow> unat (a + b) = unat a + unat b"
  by (simp add: unat_word_ariths)

lemma unat_sub_le [word_simps]:
  fixes a b :: "'a::len word"
  shows "b \<le> a \<Longrightarrow> unat (a - b) = unat a - unat b"
  by (simp add: unat_sub)

lemma unat_drop_bit_div [word_simps]: "unat (drop_bit k (w :: 'a::len word)) = unat w div 2 ^ k"
  by (simp only: unat_drop_bit_eq drop_bit_nat_def)

lemma unat_ucast_up [word_simps]:
  fixes w :: "'a::len word"
  assumes "LENGTH('a) \<le> LENGTH('b::len)"
  shows "unat (ucast w :: 'b word) = unat w"
proof -
  have "unat w < 2 ^ LENGTH('a)" by (rule unsigned_less)
  also have "\<dots> \<le> 2 ^ LENGTH('b)" using assms by (simp add: power_increasing)
  finally show ?thesis by (simp add: unsigned_ucast_eq take_bit_nat_eq_self)
qed

subsection \<open>Lists\<close>

lemma take_drop_append_exact [byte_simps]:
  "length xs = n \<Longrightarrow> take n (xs @ ys) = xs"
  "length xs = n \<Longrightarrow> drop n (xs @ ys) = ys"
  by simp_all

lemma distinct_concat_map:
  assumes "\<And>i. i < n \<Longrightarrow> distinct (f i)"
    and "\<And>i j. i < n \<Longrightarrow> j < n \<Longrightarrow> i \<noteq> j \<Longrightarrow> set (f i) \<inter> set (f j) = {}"
  shows "distinct (concat (map f [0..<n]))"
  using assms
proof (induction n)
  case (Suc n)
  then have "set (f i) \<inter> set (f n) = {}" if "i < n" for i using that by auto
  with Suc show ?case by (auto simp: disjoint_iff)
qed simp

subsection \<open>Decimal numbers\<close>

text \<open>What the conversion \<open>%u\<close> of the C library prints.\<close>

fun decimal :: "nat \<Rightarrow> string" where
  "decimal n =
     (if n < 10 then [char_of (48 + n)] else decimal (n div 10) @ [char_of (48 + n mod 10)])"

declare decimal.simps [simp del]

subsection \<open>Step relations\<close>

text \<open>An invariant of a step relation holds in all states that can be reached.\<close>

locale step_system =
  fixes start :: 's
    and step :: "'s \<Rightarrow> 's \<Rightarrow> bool"
    and invariant :: "'s \<Rightarrow> bool"
  assumes start_invariant: "invariant start"
    and step_invariant: "invariant s \<Longrightarrow> step s s' \<Longrightarrow> invariant s'"
begin

lemma run_invariant: "step\<^sup>*\<^sup>* s s' \<Longrightarrow> invariant s \<Longrightarrow> invariant s'"
  by (induction rule: rtranclp_induct) (auto intro: step_invariant)

lemma reachable_invariant: "step\<^sup>*\<^sup>* start s \<Longrightarrow> invariant s"
  using run_invariant start_invariant by blast

end

end
