(* ===== verification/Slice.thy ===== *)
theory Slice
  imports Prelude
begin

text \<open>
  \<open>include/rocksutil/slice.h\<close>: a \<open>Slice\<close> is a pointer and a length into memory that
  somebody else owns. The model is the run of bytes it refers to (a \<open>bytes\<close> value);
  \<open>remove_prefix\<close> and \<open>remove_suffix\<close> narrow it. Operations whose \<open>assert\<close> can fail
  return \<open>None\<close> there. Sizes are those of objects in memory, so they are natural
  numbers that do not wrap.

  Shown: \<open>compare\<close> is the lexicographic order on unsigned bytes, the three-way
  comparison contract of the header, and the prefix and suffix tests.
\<close>

type_synonym slice = bytes

subsection \<open>Operations\<close>

definition Slice_size :: "slice \<Rightarrow> nat" where
  "Slice_size s = length s"

definition Slice_empty :: "slice \<Rightarrow> bool" where
  "Slice_empty s \<longleftrightarrow> Slice_size s = 0"

definition Slice_index :: "slice \<Rightarrow> nat \<Rightarrow> byte option" where
  "Slice_index s n = (if n < Slice_size s then Some (s ! n) else None)"

definition Slice_clear :: "slice \<Rightarrow> slice" where
  "Slice_clear s = []"

definition remove_prefix :: "slice \<Rightarrow> nat \<Rightarrow> slice option" where
  "remove_prefix s n = (if n \<le> Slice_size s then Some (drop n s) else None)"

definition remove_suffix :: "slice \<Rightarrow> nat \<Rightarrow> slice option" where
  "remove_suffix s n = (if n \<le> Slice_size s then Some (take (Slice_size s - n) s) else None)"

text \<open>
  \<open>memcmp\<close> of the C library on \<open>n\<close> bytes: zero when they agree, otherwise a value with
  the sign of the first difference of unsigned bytes. The callers pass an \<open>n\<close> that both
  sides have.
\<close>

fun memcmp :: "bytes \<Rightarrow> bytes \<Rightarrow> nat \<Rightarrow> int" where
  "memcmp (x # xs) (y # ys) (Suc n) =
     (if x = y then memcmp xs ys n else uint x - uint y)"
| "memcmp _ _ _ = 0"

definition starts_with :: "slice \<Rightarrow> slice \<Rightarrow> bool" where
  "starts_with s x \<longleftrightarrow> Slice_size s \<ge> Slice_size x \<and> memcmp s x (Slice_size x) = 0"

definition ends_with :: "slice \<Rightarrow> slice \<Rightarrow> bool" where
  "ends_with s x \<longleftrightarrow>
     Slice_size s \<ge> Slice_size x \<and>
     memcmp (drop (Slice_size s - Slice_size x) s) x (Slice_size x) = 0"

definition Slice_eq :: "slice \<Rightarrow> slice \<Rightarrow> bool" where
  "Slice_eq x y \<longleftrightarrow> Slice_size x = Slice_size y \<and> memcmp x y (Slice_size x) = 0"

definition Slice_neq :: "slice \<Rightarrow> slice \<Rightarrow> bool" where
  "Slice_neq x y \<longleftrightarrow> \<not> Slice_eq x y"

definition Slice_compare :: "slice \<Rightarrow> slice \<Rightarrow> int" where
  "Slice_compare a b =
     (let min_len = (if Slice_size a < Slice_size b then Slice_size a else Slice_size b);
          r = memcmp a b min_len
      in if r = 0 then
           if Slice_size a < Slice_size b then -1
           else if Slice_size a > Slice_size b then 1
           else r
         else r)"

function difference_offset_loop :: "slice \<Rightarrow> slice \<Rightarrow> nat \<Rightarrow> nat \<Rightarrow> nat" where
  "difference_offset_loop a b len off =
     (if off < len then
        if a ! off \<noteq> b ! off then off else difference_offset_loop a b len (Suc off)
      else off)"
  by pat_completeness auto
termination
  by (relation "measure (\<lambda>(a, b, len, off). len - off)") auto

declare difference_offset_loop.simps [simp del]

definition difference_offset :: "slice \<Rightarrow> slice \<Rightarrow> nat" where
  "difference_offset a b =
     difference_offset_loop a b
       (if Slice_size a < Slice_size b then Slice_size a else Slice_size b) 0"

lemmas slice_defs =
  Slice_size_def Slice_empty_def Slice_index_def Slice_clear_def remove_prefix_def
  remove_suffix_def

subsection \<open>Facts\<close>

lemma memcmp_zero_iff:
  "n \<le> length xs \<Longrightarrow> n \<le> length ys \<Longrightarrow> memcmp xs ys n = 0 \<longleftrightarrow> take n xs = take n ys"
  by (induction xs ys n rule: memcmp.induct) (auto simp: take_Cons')

lemma Slice_eq_iff: "Slice_eq x y \<longleftrightarrow> x = y"
  by (auto simp: Slice_eq_def Slice_size_def memcmp_zero_iff)

lemma Slice_neq_iff: "Slice_neq x y \<longleftrightarrow> x \<noteq> y"
  by (simp add: Slice_neq_def Slice_eq_iff)

lemma Slice_compare_Nil [simp]:
  "Slice_compare [] b = (if b = [] then 0 else -1)"
  "Slice_compare a [] = (if a = [] then 0 else 1)"
  by (cases b; cases a; simp add: Slice_compare_def Slice_size_def)+

lemma Slice_compare_Cons [simp]:
  "Slice_compare (x # a) (y # b) = (if x = y then Slice_compare a b else uint x - uint y)"
  by (auto simp: Slice_compare_def Slice_size_def Let_def)

lemma Slice_compare_less: "Slice_compare a b < 0 \<longleftrightarrow> ord_class.lexordp a b"
proof (induction a arbitrary: b)
  case Nil
  then show ?case by (cases b) auto
next
  case IH: (Cons x a)
  show ?case
  proof (cases b)
    case (Cons y ys)
    then show ?thesis
      using IH.IH [of ys] by (auto simp: uint_less_conv)
  qed simp
qed

lemma Slice_compare_zero: "Slice_compare a b = 0 \<longleftrightarrow> a = b"
proof (induction a arbitrary: b)
  case Nil
  then show ?case by (cases b) auto
next
  case IH: (Cons x a)
  show ?case
  proof (cases b)
    case (Cons y ys)
    then show ?thesis using IH.IH [of ys] by simp
  qed simp
qed

lemma Slice_compare_sgn: "sgn (Slice_compare b a) = - sgn (Slice_compare a b)"
proof (induction a arbitrary: b)
  case Nil
  then show ?case by (cases b) auto
next
  case IH: (Cons x a)
  show ?case
  proof (cases b)
    case (Cons y ys)
    then show ?thesis using IH.IH [of ys] by (cases "x = y") (simp_all add: sgn_if)
  qed simp
qed

lemma starts_with_iff: "starts_with s x \<longleftrightarrow> (\<exists>r. s = x @ r)"
proof
  assume "starts_with s x"
  then have "take (length x) s = x"
    by (auto simp: starts_with_def Slice_size_def memcmp_zero_iff)
  then show "\<exists>r. s = x @ r" by (metis append_take_drop_id)
qed (auto simp: starts_with_def Slice_size_def memcmp_zero_iff)

lemma ends_with_iff: "ends_with s x \<longleftrightarrow> (\<exists>r. s = r @ x)"
proof
  assume "ends_with s x"
  then have "drop (length s - length x) s = x"
    by (auto simp: ends_with_def Slice_size_def memcmp_zero_iff)
  then show "\<exists>r. s = r @ x" by (metis append_take_drop_id)
qed (auto simp: ends_with_def Slice_size_def memcmp_zero_iff)

lemma difference_offset_loop_spec:
  assumes "off \<le> len" "len \<le> length a" "len \<le> length b"
    and "take off a = take off b"
  shows "let d = difference_offset_loop a b len off
         in off \<le> d \<and> d \<le> len \<and> take d a = take d b \<and> (d < len \<longrightarrow> a ! d \<noteq> b ! d)"
  using assms
proof (induction a b len off rule: difference_offset_loop.induct)
  case (1 a b len off)
  show ?case
  proof (cases "off < len \<and> a ! off = b ! off")
    case True
    with "1.prems" have "take (Suc off) a = take (Suc off) b"
      by (simp add: take_Suc_conv_app_nth)
    with True "1.IH" "1.prems" show ?thesis
      by (simp add: difference_offset_loop.simps [of a b len off] Let_def)
  next
    case False
    with "1.prems" show ?thesis
      by (auto simp: difference_offset_loop.simps [of a b len off] Let_def)
  qed
qed

text \<open>
  A three-way comparison with the sign laws of the header's contract orders its
  arguments: the laws every user of \<open>Slice::compare\<close> as a comparator relies on.
\<close>

locale three_way =
  fixes cmp :: "'a \<Rightarrow> 'a \<Rightarrow> int"
    and less_than :: "'a \<Rightarrow> 'a \<Rightarrow> bool"
  assumes cmp_less: "cmp a b < 0 \<longleftrightarrow> less_than a b"
    and cmp_eq: "cmp a b = 0 \<longleftrightarrow> a = b"
    and cmp_swap: "sgn (cmp b a) = - sgn (cmp a b)"
    and less_trans: "less_than a b \<Longrightarrow> less_than b c \<Longrightarrow> less_than a c"
begin

lemma cmp_greater: "cmp a b > 0 \<longleftrightarrow> less_than b a"
  using cmp_less [of b a] cmp_swap [of a b] by (simp add: sgn_if split: if_splits)

lemma cmp_total: "cmp a b < 0 \<or> a = b \<or> cmp b a < 0"
  using cmp_less cmp_eq cmp_greater by (metis linorder_neqE_linordered_idom)

lemma cmp_trans: "cmp a b \<le> 0 \<Longrightarrow> cmp b c \<le> 0 \<Longrightarrow> cmp a c \<le> 0"
  using cmp_less cmp_eq less_trans by (metis order_le_less)

end

interpretation slice_order: three_way Slice_compare ord_class.lexordp
proof unfold_locales
  fix a b c :: slice
  show "(Slice_compare a b < 0) = ord_class.lexordp a b" by (rule Slice_compare_less)
  show "(Slice_compare a b = 0) = (a = b)" by (rule Slice_compare_zero)
  show "sgn (Slice_compare b a) = - sgn (Slice_compare a b)" by (rule Slice_compare_sgn)
  show "ord_class.lexordp a b \<Longrightarrow> ord_class.lexordp b c \<Longrightarrow> ord_class.lexordp a c" by (rule lexordp_trans)
qed

subsection \<open>Properties\<close>

text \<open>
  \<open>Slice::compare\<close> is the lexicographic order on unsigned bytes (a proper prefix is
  smaller): negative exactly when the left side comes first, zero exactly when both sides
  hold the same bytes, and with the sign reversed when the arguments are swapped.
\<close>

lemma Slice_compare_order:
  "(Slice_compare a b < 0 \<longleftrightarrow> ord_class.lexordp a b) \<and> (Slice_compare a b = 0 \<longleftrightarrow> a = b) \<and>
   (Slice_compare a b > 0 \<longleftrightarrow> ord_class.lexordp b a) \<and> (Slice_compare a b = 0 \<longleftrightarrow> Slice_eq a b)"
  by (simp add: slice_order.cmp_less slice_order.cmp_eq slice_order.cmp_greater Slice_eq_iff)

text \<open>
  \<open>difference_offset\<close> is the length of the longest common prefix: the two slices agree
  before it, and where both go on behind it they differ in the next byte.
\<close>

lemma difference_offset_common_prefix:
  "difference_offset a b \<le> min (length a) (length b) \<and>
   take (difference_offset a b) a = take (difference_offset a b) b \<and>
   \<not> (difference_offset a b < min (length a) (length b) \<and>
      a ! difference_offset a b = b ! difference_offset a b)"
proof -
  have "(if Slice_size a < Slice_size b then Slice_size a else Slice_size b)
        = min (length a) (length b)"
    by (simp add: Slice_size_def)
  then show ?thesis
    using difference_offset_loop_spec [of 0 "min (length a) (length b)" a b]
    by (auto simp: difference_offset_def Let_def)
qed

end
