(* ===== verification/Coding.thy ===== *)
theory Coding
  imports Slice
begin

text \<open>
  \<open>include/rocksutil/coding.h\<close> and \<open>rutil/coding.cc\<close>: the endian-neutral encodings of the
  library. A routine that writes through a \<open>char*\<close> returns the bytes it writes; a
  \<open>Put\<dots>\<close> routine returns the extended string; a \<open>Get\<dots>\<close> routine that parses from a
  \<open>Slice*\<close> returns the value and the advanced slice, or \<open>None\<close> for \<open>false\<close>/\<open>nullptr\<close>.
  \<open>port::kLittleEndian\<close> is the argument \<open>little\<close> of the \<open>_on\<close> variants; the plain
  names are the build for the supported little-endian platforms.

  Shown: both byte orders write and read the same bytes, every encoder is undone by its
  decoder for every value and every continuation (the interface \<open>prefix_codec\<close>), the
  buffers the \<open>Put\<dots>\<close> routines reserve are large enough, and \<open>VarintLength\<close> is the length
  of the encoding.
\<close>

subsection \<open>Fixed-width integers\<close>

definition kLittleEndian :: bool where
  "kLittleEndian = True"

definition kMaxVarint64Length :: nat where
  "kMaxVarint64Length = 10"

definition DecodeFixed32_on :: "bool \<Rightarrow> bytes \<Rightarrow> u32" where
  "DecodeFixed32_on little ptr =
     (if little then host_word little (take 4 ptr)
      else (ucast (ptr ! 0)
            OR push_bit 8 (ucast (ptr ! 1))
            OR push_bit 16 (ucast (ptr ! 2))
            OR push_bit 24 (ucast (ptr ! 3))))"

definition DecodeFixed64_on :: "bool \<Rightarrow> bytes \<Rightarrow> u64" where
  "DecodeFixed64_on little ptr =
     (if little then host_word little (take 8 ptr)
      else (let lo = ucast (DecodeFixed32_on little ptr);
                hi = ucast (DecodeFixed32_on little (drop 4 ptr))
            in push_bit 32 hi OR lo))"

definition EncodeFixed32_on :: "bool \<Rightarrow> u32 \<Rightarrow> bytes" where
  "EncodeFixed32_on little value =
     (if little then host_bytes little 4 value
      else [ucast (value AND 0xff),
            ucast (drop_bit 8 value AND 0xff),
            ucast (drop_bit 16 value AND 0xff),
            ucast (drop_bit 24 value AND 0xff)])"

definition EncodeFixed64_on :: "bool \<Rightarrow> u64 \<Rightarrow> bytes" where
  "EncodeFixed64_on little value =
     (if little then host_bytes little 8 value
      else [ucast (value AND 0xff),
            ucast (drop_bit 8 value AND 0xff),
            ucast (drop_bit 16 value AND 0xff),
            ucast (drop_bit 24 value AND 0xff),
            ucast (drop_bit 32 value AND 0xff),
            ucast (drop_bit 40 value AND 0xff),
            ucast (drop_bit 48 value AND 0xff),
            ucast (drop_bit 56 value AND 0xff)])"

definition DecodeFixed32 :: "bytes \<Rightarrow> u32" where
  "DecodeFixed32 = DecodeFixed32_on kLittleEndian"

definition DecodeFixed64 :: "bytes \<Rightarrow> u64" where
  "DecodeFixed64 = DecodeFixed64_on kLittleEndian"

definition EncodeFixed32 :: "u32 \<Rightarrow> bytes" where
  "EncodeFixed32 = EncodeFixed32_on kLittleEndian"

definition EncodeFixed64 :: "u64 \<Rightarrow> bytes" where
  "EncodeFixed64 = EncodeFixed64_on kLittleEndian"

definition PutFixed32_on :: "bool \<Rightarrow> bytes \<Rightarrow> u32 \<Rightarrow> bytes" where
  "PutFixed32_on little dst value =
     (if little then dst @ host_bytes little 4 value else dst @ EncodeFixed32_on little value)"

definition PutFixed64_on :: "bool \<Rightarrow> bytes \<Rightarrow> u64 \<Rightarrow> bytes" where
  "PutFixed64_on little dst value =
     (if little then dst @ host_bytes little 8 value else dst @ EncodeFixed64_on little value)"

definition GetFixed64 :: "slice \<Rightarrow> (u64 \<times> slice) option" where
  "GetFixed64 input =
     (if Slice_size input < 8 then None
      else map_option (\<lambda>rest. (DecodeFixed64 input, rest)) (remove_prefix input 8))"

subsection \<open>Variable-width integers\<close>

definition EncodeVarint32 :: "u32 \<Rightarrow> bytes" where
  "EncodeVarint32 v =
     (let B = 128 in
      if v < push_bit 7 1 then [ucast v]
      else if v < push_bit 14 1 then [ucast (v OR B), ucast (drop_bit 7 v)]
      else if v < push_bit 21 1 then
        [ucast (v OR B), ucast (drop_bit 7 v OR B), ucast (drop_bit 14 v)]
      else if v < push_bit 28 1 then
        [ucast (v OR B), ucast (drop_bit 7 v OR B), ucast (drop_bit 14 v OR B),
         ucast (drop_bit 21 v)]
      else
        [ucast (v OR B), ucast (drop_bit 7 v OR B), ucast (drop_bit 14 v OR B),
         ucast (drop_bit 21 v OR B), ucast (drop_bit 28 v)])"

function EncodeVarint64 :: "u64 \<Rightarrow> bytes" where
  "EncodeVarint64 v =
     (let B = 128 in
      if v \<ge> B then ucast ((v AND (B - 1)) OR B) # EncodeVarint64 (drop_bit 7 v)
      else [ucast v])"
  by pat_completeness auto
termination
  by (relation "measure unat") (auto simp: unat_drop_bit_div word_le_nat_alt)

function VarintLength_loop :: "u64 \<Rightarrow> int \<Rightarrow> int" where
  "VarintLength_loop v len =
     (if v \<ge> 128 then VarintLength_loop (drop_bit 7 v) (len + 1) else len)"
  by pat_completeness auto
termination
  by (relation "measure (\<lambda>(v, len). unat v)") (auto simp: unat_drop_bit_div word_le_nat_alt)

definition VarintLength :: "u64 \<Rightarrow> int" where
  "VarintLength v = VarintLength_loop v 1"

declare EncodeVarint64.simps [simp del] VarintLength_loop.simps [simp del]

text \<open>
  The decoding loop, the same text in \<open>GetVarint32PtrFallback\<close> and \<open>GetVarint64Ptr\<close> up to
  the width of \<open>result\<close> and the largest shift (28 and 63). The bytes are those of
  \<open>[p, limit)\<close>; the result carries the bytes after the ones consumed.
\<close>

fun GetVarint_loop :: "nat \<Rightarrow> nat \<Rightarrow> 'a::len word \<Rightarrow> bytes \<Rightarrow> ('a word \<times> bytes) option" where
  "GetVarint_loop max_shift shift result [] = None"
| "GetVarint_loop max_shift shift result (p # ps) =
     (if shift \<le> max_shift then
        (let b = ucast p in
         if b AND 128 \<noteq> 0 then
           GetVarint_loop max_shift (shift + 7) (result OR push_bit shift (b AND 127)) ps
         else Some (result OR push_bit shift b, ps))
      else None)"

definition GetVarint32PtrFallback :: "bytes \<Rightarrow> (u32 \<times> bytes) option" where
  "GetVarint32PtrFallback p = GetVarint_loop 28 0 0 p"

definition GetVarint64Ptr :: "bytes \<Rightarrow> (u64 \<times> bytes) option" where
  "GetVarint64Ptr p = GetVarint_loop 63 0 0 p"

definition GetVarint32Ptr :: "bytes \<Rightarrow> (u32 \<times> bytes) option" where
  "GetVarint32Ptr p =
     (case p of
        b # ps \<Rightarrow>
          (let result = ucast b in
           if result AND 128 = 0 then Some (result, ps) else GetVarint32PtrFallback p)
      | [] \<Rightarrow> GetVarint32PtrFallback p)"

definition GetVarint32 :: "slice \<Rightarrow> (u32 \<times> slice) option" where
  "GetVarint32 input =
     (case GetVarint32Ptr input of None \<Rightarrow> None | Some (v, q) \<Rightarrow> Some (v, q))"

definition GetVarint64 :: "slice \<Rightarrow> (u64 \<times> slice) option" where
  "GetVarint64 input =
     (case GetVarint64Ptr input of None \<Rightarrow> None | Some (v, q) \<Rightarrow> Some (v, q))"

definition PutVarint32 :: "bytes \<Rightarrow> u32 \<Rightarrow> bytes" where
  "PutVarint32 dst v = dst @ EncodeVarint32 v"

definition PutVarint32Varint32 :: "bytes \<Rightarrow> u32 \<Rightarrow> u32 \<Rightarrow> bytes" where
  "PutVarint32Varint32 dst v1 v2 = dst @ (EncodeVarint32 v1 @ EncodeVarint32 v2)"

definition PutVarint32Varint32Varint32 :: "bytes \<Rightarrow> u32 \<Rightarrow> u32 \<Rightarrow> u32 \<Rightarrow> bytes" where
  "PutVarint32Varint32Varint32 dst v1 v2 v3 =
     dst @ (EncodeVarint32 v1 @ EncodeVarint32 v2 @ EncodeVarint32 v3)"

definition PutVarint64 :: "bytes \<Rightarrow> u64 \<Rightarrow> bytes" where
  "PutVarint64 dst v = dst @ EncodeVarint64 v"

definition PutVarint64Varint64 :: "bytes \<Rightarrow> u64 \<Rightarrow> u64 \<Rightarrow> bytes" where
  "PutVarint64Varint64 dst v1 v2 = dst @ (EncodeVarint64 v1 @ EncodeVarint64 v2)"

definition PutVarint32Varint64 :: "bytes \<Rightarrow> u32 \<Rightarrow> u64 \<Rightarrow> bytes" where
  "PutVarint32Varint64 dst v1 v2 = dst @ (EncodeVarint32 v1 @ EncodeVarint64 v2)"

definition PutVarint32Varint32Varint64 :: "bytes \<Rightarrow> u32 \<Rightarrow> u32 \<Rightarrow> u64 \<Rightarrow> bytes" where
  "PutVarint32Varint32Varint64 dst v1 v2 v3 =
     dst @ (EncodeVarint32 v1 @ EncodeVarint32 v2 @ EncodeVarint64 v3)"

subsection \<open>Length-prefixed slices and delimiters\<close>

definition PutLengthPrefixedSlice :: "bytes \<Rightarrow> slice \<Rightarrow> bytes" where
  "PutLengthPrefixedSlice dst v = PutVarint32 dst (of_nat (Slice_size v)) @ v"

definition PutLengthPrefixedSliceParts :: "bytes \<Rightarrow> slice list \<Rightarrow> bytes" where
  "PutLengthPrefixedSliceParts dst parts =
     (let total_bytes = fold (\<lambda>part acc. acc + Slice_size part) parts 0
      in fold (\<lambda>part d. d @ part) parts (PutVarint32 dst (of_nat total_bytes)))"

text \<open>
  The result and what is left of the input, which has been moved past the length also when
  the body is too short for it.
\<close>

definition GetLengthPrefixedSlice :: "slice \<Rightarrow> (slice option \<times> slice) option" where
  "GetLengthPrefixedSlice input =
     (case GetVarint32 input of
        None \<Rightarrow> Some (None, input)
      | Some (len, input') \<Rightarrow>
          if Slice_size input' \<ge> unat len
          then map_option (\<lambda>rest. (Some (take (unat len) input'), rest)) (remove_prefix input' (unat len))
          else Some (None, input'))"

text \<open>
  The overload on a bare \<open>const char*\<close> reads the length from the next five bytes; the
  result points behind it. \<open>None\<close> is the null pointer it builds the slice from when the
  data is corrupted.
\<close>

definition GetLengthPrefixedSlice_unchecked :: "bytes \<Rightarrow> slice option" where
  "GetLengthPrefixedSlice_unchecked data =
     (case GetVarint32Ptr (take 5 data) of
        None \<Rightarrow> None
      | Some (len, q) \<Rightarrow> Some (take (unat len) (drop (5 - length q) data)))"

fun GetSliceUntil_len :: "slice \<Rightarrow> byte \<Rightarrow> nat" where
  "GetSliceUntil_len [] delimiter = 0"
| "GetSliceUntil_len (c # cs) delimiter =
     (if c \<noteq> delimiter then Suc (GetSliceUntil_len cs delimiter) else 0)"

definition GetSliceUntil :: "slice \<Rightarrow> byte \<Rightarrow> (slice \<times> slice) option" where
  "GetSliceUntil s delimiter =
     (let len = GetSliceUntil_len s delimiter
      in map_option (\<lambda>rest. (take len s, rest))
           (remove_prefix s (len + (if len < Slice_size s then 1 else 0))))"

definition EndianTransform_on :: "bool \<Rightarrow> u64 \<Rightarrow> nat \<Rightarrow> u64" where
  "EndianTransform_on little input sz =
     (let pos = host_bytes little 8 input
      in fold (\<lambda>i ret_val. ret_val OR push_bit ((sz - i - 1) * 8) (ucast (pos ! i)))
           [0..<sz] 0)"

subsection \<open>Fixed-width facts\<close>

lemma EncodeFixed32_on_eq: "EncodeFixed32_on little v = le_bytes 4 v"
proof -
  have "ucast (w AND 0xff) = (ucast w :: byte)" for w :: u32
    by (rule bit_word_eqI) (auto simp: bit_simps and_255)
  then show ?thesis
    by (simp add: EncodeFixed32_on_def host_bytes_def le_bytes_4)
qed

lemma EncodeFixed64_on_eq: "EncodeFixed64_on little v = le_bytes 8 v"
proof -
  have "ucast (w AND 0xff) = (ucast w :: byte)" for w :: u64
    by (rule bit_word_eqI) (auto simp: bit_simps and_255)
  then show ?thesis
    by (simp add: EncodeFixed64_on_def host_bytes_def le_bytes_8)
qed

lemma take_nth_4: "4 \<le> length p \<Longrightarrow> take 4 p = [p ! 0, p ! 1, p ! 2, p ! 3]"
  by (rule nth_equalityI) (auto simp: less_Suc_eq numeral_eq_Suc nth_Cons split: nat.splits)

lemma DecodeFixed32_on_eq:
  assumes "4 \<le> length p"
  shows "DecodeFixed32_on little p = le_word (take 4 p)"
  using assms
  by (simp add: DecodeFixed32_on_def host_word_def take_nth_4 ac_simps)

lemma le_word_append:
  "le_word (xs @ ys) = (le_word xs OR push_bit (8 * length xs) (le_word ys) :: 'a::len word)"
  by (induction xs) (simp_all add: ac_simps)

lemma ucast_le_word_4: "length xs = 4 \<Longrightarrow> (ucast (le_word xs :: u32) :: u64) = le_word xs"
  by (rule bit_word_eqI) (auto simp: bit_simps le_word_bit)

lemma DecodeFixed64_on_eq:
  assumes "8 \<le> length p"
  shows "DecodeFixed64_on little p = le_word (take 8 p)"
proof (cases little)
  case True
  then show ?thesis by (simp add: DecodeFixed64_on_def host_word_def)
next
  case False
  have split: "take 8 p = take 4 p @ take 4 (drop 4 p)"
    by (metis numeral_Bit0 take_add)
  have "le_word (take 8 p) = (le_word (take 4 p) OR push_bit 32 (le_word (take 4 (drop 4 p))) :: u64)"
    unfolding split le_word_append using assms by simp
  with False assms show ?thesis
    by (simp add: DecodeFixed64_on_def DecodeFixed32_on_eq ucast_le_word_4 Let_def or.commute)
qed

lemmas DecodeFixed32_eq = DecodeFixed32_on_eq [of _ kLittleEndian, folded DecodeFixed32_def]
lemmas EncodeFixed32_eq = EncodeFixed32_on_eq [of kLittleEndian, folded EncodeFixed32_def]
lemmas DecodeFixed64_eq = DecodeFixed64_on_eq [of _ kLittleEndian, folded DecodeFixed64_def]
lemmas EncodeFixed64_eq = EncodeFixed64_on_eq [of kLittleEndian, folded EncodeFixed64_def]

lemma length_EncodeFixed32 [simp]: "length (EncodeFixed32 v) = 4"
  by (simp add: EncodeFixed32_eq)

lemma length_EncodeFixed64 [simp]: "length (EncodeFixed64 v) = 8"
  by (simp add: EncodeFixed64_eq)

lemma DecodeFixed32_Encode [byte_simps]: "DecodeFixed32 (EncodeFixed32 v @ rest) = v"
  by (simp add: DecodeFixed32_eq EncodeFixed32_eq le_word_le_bytes)

lemma GetFixed64_Encode: "GetFixed64 (EncodeFixed64 v @ rest) = Some (v, rest)"
  by (simp add: GetFixed64_def slice_defs DecodeFixed64_eq EncodeFixed64_eq le_word_le_bytes)

subsection \<open>Varint facts\<close>

text \<open>
  The reference encoding, on natural numbers: seven bits at a time, least significant
  group first, the top bit of a byte set when more groups follow.
\<close>

fun varint_bytes :: "nat \<Rightarrow> bytes" where
  "varint_bytes n =
     (if n < 128 then [of_nat n] else (of_nat n OR 128) # varint_bytes (n div 128))"

declare varint_bytes.simps [simp del]

lemma ucast_or_128:
  fixes v :: "'a::len word"
  assumes "7 < LENGTH('a)"
  shows "ucast (v OR 128) = (of_nat (unat v) OR 128 :: byte)"
  using assms by (intro bit_word_eqI) (auto simp: bit_simps bit_128)

lemma EncodeVarint64_eq: "EncodeVarint64 v = varint_bytes (unat v)"
proof (induction v rule: EncodeVarint64.induct)
  case (1 v)
  have byte: "ucast ((v AND 127) OR 128) = (of_nat (unat v) OR 128 :: byte)"
    by (rule bit_word_eqI) (auto simp: bit_simps bit_128 and_127)
  show ?case
  proof (cases "128 \<le> v")
    case True
    then have "\<not> unat v < 128" by (simp add: word_le_nat_alt)
    with True "1.IH" byte show ?thesis
      by (simp add: EncodeVarint64.simps [of v] varint_bytes.simps [of "unat v"]
          unat_drop_bit_div)
  next
    case False
    then have "unat v < 128" by (simp add: word_le_nat_alt)
    with False show ?thesis
      by (simp add: EncodeVarint64.simps [of v] varint_bytes.simps [of "unat v"])
  qed
qed

lemma EncodeVarint32_eq: "EncodeVarint32 v = varint_bytes (unat v)"
proof -
  have shifts: "ucast (drop_bit k v) = (of_nat (unat v div 2 ^ k) :: byte)"
    "ucast (drop_bit k v OR 128) = (of_nat (unat v div 2 ^ k) OR 128 :: byte)" for k
    by (simp_all add: ucast_or_128 unat_drop_bit_div flip: unat_drop_bit_div)
  have "unat v < 2 ^ 32" using unsigned_less [of v, where ?'a = nat] by simp
  then show ?thesis
    by (simp add: EncodeVarint32_def shifts ucast_or_128 Let_def word_less_nat_alt
        varint_bytes.simps div_less_iff_less_mult div_mult2_eq [symmetric])
qed

lemma GetVarint_loop_varint_bytes:
  fixes result :: "'a::len word"
  assumes "7 dvd shift" and "shift \<le> max_shift" and "n * 2 ^ shift < 2 ^ LENGTH('a)"
    and "7 < LENGTH('a)" and fits: "\<And>k. 7 dvd k \<Longrightarrow> k < LENGTH('a) \<Longrightarrow> k \<le> max_shift"
  shows "GetVarint_loop max_shift shift result (varint_bytes n @ rest)
         = Some (result OR push_bit shift (of_nat n), rest)"
  using assms(1-3)
proof (induction n arbitrary: shift result rule: varint_bytes.induct)
  case (1 n)
  show ?case
  proof (cases "n < 128")
    case True
    then have "\<not> bit n 7" by (simp add: bit_iff_odd)
    then have "ucast (of_nat n :: byte) AND 128 = (0 :: 'a word)"
      using assms(4) by (intro bit_word_eqI) (auto simp: bit_simps bit_128)
    moreover have "ucast (of_nat n :: byte) = (of_nat n :: 'a word)"
      using True by (simp add: unsigned_of_nat take_bit_nat_eq_self)
    ultimately show ?thesis
      using True "1.prems" by (simp add: varint_bytes.simps [of n])
  next
    case False
    let ?b = "ucast (of_nat n OR 128 :: byte) :: 'a word"
    have cont: "?b AND 128 \<noteq> 0"
    proof
      assume "?b AND 128 = 0"
      then have "bit (?b AND 128) 7 = bit (0 :: 'a word) 7" by simp
      then show False using assms(4) by (simp add: bit_simps bit_128)
    qed
    have low: "?b AND 127 = take_bit 7 (of_nat n)"
      using assms(4) by (intro bit_word_eqI) (auto simp: bit_simps bit_128 and_127)
    have glue: "push_bit shift (take_bit 7 (of_nat n)) OR push_bit (shift + 7) (of_nat (n div 128))
                = (push_bit shift (of_nat n) :: 'a word)"
    proof (rule bit_word_eqI)
      fix i
      have "n div 128 = drop_bit 7 n" by (simp add: drop_bit_eq_div)
      moreover have "7 + (i - (shift + 7)) = i - shift" if "\<not> i - shift < 7"
        using that by simp
      ultimately show "bit (push_bit shift (take_bit 7 (of_nat n))
                   OR push_bit (shift + 7) (of_nat (n div 128)) :: 'a word) i
                 = bit (push_bit shift (of_nat n) :: 'a word) i"
        by (cases "i - shift < 7") (auto simp: bit_simps)
    qed
    have "2 ^ (shift + 7) \<le> n * 2 ^ shift"
      using False by (simp add: power_add)
    with "1.prems"(3) have "(2::nat) ^ (shift + 7) < 2 ^ LENGTH('a)" by linarith
    then have "shift + 7 < LENGTH('a)" by simp
    moreover have "7 dvd shift + 7" using "1.prems"(1) by simp
    ultimately have next_shift: "shift + 7 \<le> max_shift" by (intro fits)
    have "n div 128 * 2 ^ (shift + 7) \<le> n * 2 ^ shift"
      by (simp add: power_add)
    with "1.prems"(3) have bound: "n div 128 * 2 ^ (shift + 7) < 2 ^ LENGTH('a)"
      by linarith
    show ?thesis
      using False "1.prems" cont low next_shift bound
        "1.IH" [OF False \<open>7 dvd shift + 7\<close> next_shift bound]
      by (simp add: varint_bytes.simps [of n] Let_def or.assoc glue)
  qed
qed

lemma GetVarint64_Encode: "GetVarint64 (EncodeVarint64 v @ rest) = Some (v, rest)"
proof -
  have "GetVarint_loop 63 0 (0 :: u64) (varint_bytes (unat v) @ rest)
        = Some (0 OR push_bit 0 (of_nat (unat v)), rest)"
  proof (rule GetVarint_loop_varint_bytes)
    show "unat v * 2 ^ 0 < 2 ^ LENGTH(64)"
      using unsigned_less [of v, where ?'a = nat] by simp
    show "\<And>k. 7 dvd k \<Longrightarrow> k < LENGTH(64) \<Longrightarrow> k \<le> 63" by simp
  qed simp_all
  then show ?thesis
    by (simp add: GetVarint64_def GetVarint64Ptr_def EncodeVarint64_eq)
qed

lemma GetVarint32PtrFallback_Encode:
  "GetVarint32PtrFallback (EncodeVarint32 v @ rest) = Some (v, rest)"
proof -
  have "GetVarint_loop 28 0 (0 :: u32) (varint_bytes (unat v) @ rest)
        = Some (0 OR push_bit 0 (of_nat (unat v)), rest)"
  proof (rule GetVarint_loop_varint_bytes)
    show "unat v * 2 ^ 0 < 2 ^ LENGTH(32)"
      using unsigned_less [of v, where ?'a = nat] by simp
    show "\<And>k. 7 dvd k \<Longrightarrow> k < LENGTH(32) \<Longrightarrow> k \<le> 28" by (auto simp: dvd_def)
  qed simp_all
  then show ?thesis
    by (simp add: GetVarint32PtrFallback_def EncodeVarint32_eq)
qed

text \<open>The inlined one-byte path of \<open>GetVarint32Ptr\<close> computes what the loop computes.\<close>

lemma GetVarint32Ptr_eq_fallback: "GetVarint32Ptr p = GetVarint32PtrFallback p"
  by (cases p) (simp_all add: GetVarint32Ptr_def GetVarint32PtrFallback_def Let_def)

lemma GetVarint32_eq: "GetVarint32 p = GetVarint32PtrFallback p"
  by (simp add: GetVarint32_def GetVarint32Ptr_eq_fallback split: option.splits)

lemma GetVarint32_Encode: "GetVarint32 (EncodeVarint32 v @ rest) = Some (v, rest)"
  by (simp add: GetVarint32_eq GetVarint32PtrFallback_Encode)

lemma length_varint_bytes: "n < 128 ^ Suc k \<Longrightarrow> length (varint_bytes n) \<le> Suc k"
proof (induction k arbitrary: n)
  case 0
  then show ?case by (simp add: varint_bytes.simps)
next
  case (Suc k)
  then have "n div 128 < 128 ^ Suc k" by (simp add: less_mult_imp_div_less mult.commute)
  with Suc.IH show ?case by (simp add: varint_bytes.simps [of n])
qed

lemma length_EncodeVarint32: "length (EncodeVarint32 v) \<le> 5"
proof -
  have "unat v < 128 ^ Suc 4" using unsigned_less [of v, where ?'a = nat] by simp
  from length_varint_bytes [OF this] show ?thesis by (simp add: EncodeVarint32_eq)
qed

lemma length_EncodeVarint64: "length (EncodeVarint64 v) \<le> kMaxVarint64Length"
proof -
  have "unat v < 128 ^ Suc 9" using unsigned_less [of v, where ?'a = nat] by simp
  from length_varint_bytes [OF this] show ?thesis
    by (simp add: EncodeVarint64_eq kMaxVarint64Length_def)
qed

lemma VarintLength_loop_eq: "VarintLength_loop v len = len + int (length (EncodeVarint64 v)) - 1"
proof (induction v len rule: VarintLength_loop.induct)
  case (1 v len)
  then show ?case
    by (simp add: VarintLength_loop.simps [of v len] EncodeVarint64.simps [of v])
qed

lemma VarintLength_eq: "VarintLength v = int (length (EncodeVarint64 v))"
  by (simp add: VarintLength_def VarintLength_loop_eq)

lemma length_EncodeVarint_widths: "length (EncodeVarint64 (ucast v)) = length (EncodeVarint32 v)"
  by (simp add: EncodeVarint64_eq EncodeVarint32_eq unat_ucast_up)

subsection \<open>Length-prefixed slices\<close>

lemma GetLengthPrefixedSlice_Put:
  assumes "length v < 2 ^ 32"
  shows "GetLengthPrefixedSlice (PutLengthPrefixedSlice [] v @ rest) = Some (Some v, rest)"
    and "k < length v \<Longrightarrow> GetLengthPrefixedSlice (EncodeVarint32 (of_nat (length v)) @ take k v) = Some (None, take k v)"
proof -
  have "unat (of_nat (length v) :: u32) = length v"
    using assms by (intro unat_of_nat_small) simp
  then show "GetLengthPrefixedSlice (PutLengthPrefixedSlice [] v @ rest) = Some (Some v, rest)"
    "k < length v \<Longrightarrow> GetLengthPrefixedSlice (EncodeVarint32 (of_nat (length v)) @ take k v) = Some (None, take k v)"
    by (simp_all add: GetLengthPrefixedSlice_def PutLengthPrefixedSlice_def PutVarint32_def
        GetVarint32_Encode slice_defs)
qed

text \<open>What a successful call returns.\<close>

definition length_prefixed_slice :: "slice \<Rightarrow> (slice \<times> slice) option" where
  "length_prefixed_slice input =
     (case GetLengthPrefixedSlice input of Some (Some v, rest) \<Rightarrow> Some (v, rest) | _ \<Rightarrow> None)"

lemma fold_Slice_size: "fold (\<lambda>part acc. acc + Slice_size part) parts n = n + length (concat parts)"
  by (induction parts arbitrary: n) (simp_all add: Slice_size_def)

lemma fold_append: "fold (\<lambda>part d. d @ part) parts d = d @ concat parts"
  by (induction parts arbitrary: d) simp_all

lemma PutLengthPrefixedSliceParts_eq:
  "PutLengthPrefixedSliceParts dst parts = PutLengthPrefixedSlice dst (concat parts)"
  by (simp add: PutLengthPrefixedSliceParts_def PutLengthPrefixedSlice_def fold_Slice_size
      fold_append) (simp add: Slice_size_def)

lemma GetSliceUntil_len_le: "GetSliceUntil_len s d \<le> length s"
  by (induction s) auto

lemma GetSliceUntil_eq:
  "GetSliceUntil s d = Some (takeWhile (\<lambda>c. c \<noteq> d) s, drop 1 (dropWhile (\<lambda>c. c \<noteq> d) s))"
proof -
  have "take (GetSliceUntil_len s d) s = takeWhile (\<lambda>c. c \<noteq> d) s"
    and "drop (GetSliceUntil_len s d) s = dropWhile (\<lambda>c. c \<noteq> d) s"
    by (induction s) auto
  moreover have "GetSliceUntil_len s d < length s \<Longrightarrow> dropWhile (\<lambda>c. c \<noteq> d) s \<noteq> []"
    by (induction s) auto
  moreover have "drop (Suc (GetSliceUntil_len s d)) s = drop 1 (drop (GetSliceUntil_len s d) s)"
    by simp
  ultimately show ?thesis
    using GetSliceUntil_len_le [of s d]
    by (auto simp: GetSliceUntil_def slice_defs Let_def)
qed

subsection \<open>The interface of a codec\<close>

text \<open>
  An encoder and a parser that undoes it whatever follows. Everything the callers of the
  encodings rely on is a consequence: encodings are injective and prefix-free, and a
  concatenation of encodings parses back item by item.
\<close>

fun parse_list :: "(bytes \<Rightarrow> ('a \<times> bytes) option) \<Rightarrow> nat \<Rightarrow> bytes \<Rightarrow> ('a list \<times> bytes) option" where
  "parse_list dec 0 bs = Some ([], bs)"
| "parse_list dec (Suc n) bs =
     (case dec bs of
        None \<Rightarrow> None
      | Some (v, rest) \<Rightarrow> map_option (\<lambda>(vs, r). (v # vs, r)) (parse_list dec n rest))"

locale prefix_codec =
  fixes enc :: "'a \<Rightarrow> bytes"
    and dec :: "bytes \<Rightarrow> ('a \<times> bytes) option"
    and valid :: "'a \<Rightarrow> bool"
  assumes dec_enc: "valid v \<Longrightarrow> dec (enc v @ rest) = Some (v, rest)"
begin

lemma enc_unique: "valid v \<Longrightarrow> valid w \<Longrightarrow> enc v @ r = enc w @ s \<Longrightarrow> v = w \<and> r = s"
  using dec_enc [of v r] dec_enc [of w s] by (metis option.inject prod.inject)

lemma enc_not_proper_prefix: "valid v \<Longrightarrow> valid w \<Longrightarrow> enc w = enc v @ r \<Longrightarrow> r = []"
  using enc_unique [of v w r "[]"] by simp

lemma parse_list_concat:
  "(\<And>v. v \<in> set vs \<Longrightarrow> valid v) \<Longrightarrow>
     parse_list dec (length vs) (concat (map enc vs) @ rest) = Some (vs, rest)"
  by (induction vs) (simp_all add: dec_enc)

lemma concat_unique:
  assumes "\<And>v. v \<in> set vs \<Longrightarrow> valid v" and "\<And>w. w \<in> set ws \<Longrightarrow> valid w"
    and "length vs = length ws" and "concat (map enc vs) @ r = concat (map enc ws) @ s"
  shows "vs = ws \<and> r = s"
proof -
  have "Some (vs, r) = parse_list dec (length vs) (concat (map enc vs) @ r)"
    using parse_list_concat [OF assms(1)] by metis
  also have "\<dots> = Some (ws, s)"
    unfolding assms(3,4) using parse_list_concat [OF assms(2)] by metis
  finally show ?thesis by simp
qed

end

interpretation fixed64: prefix_codec EncodeFixed64 GetFixed64 "\<lambda>_. True"
  by unfold_locales (rule GetFixed64_Encode)

interpretation varint32: prefix_codec EncodeVarint32 GetVarint32 "\<lambda>_. True"
  by unfold_locales (rule GetVarint32_Encode)

interpretation varint64: prefix_codec EncodeVarint64 GetVarint64 "\<lambda>_. True"
  by unfold_locales (rule GetVarint64_Encode)

interpretation length_prefixed:
  prefix_codec "PutLengthPrefixedSlice []" length_prefixed_slice "\<lambda>v. length v < 2 ^ 32"
  by unfold_locales (simp add: length_prefixed_slice_def GetLengthPrefixedSlice_Put(1))

subsection \<open>Properties\<close>

text \<open>
  The fixed-width encodings do not depend on the host: on a little-endian and on a
  big-endian build the encoders write the same bytes, least significant byte first, and the
  decoders of either build read the value back from what either build wrote.
\<close>

lemma fixed_endian_neutral:
  "EncodeFixed32_on l v = le_bytes 4 v \<and> EncodeFixed64_on l w = le_bytes 8 w \<and>
   DecodeFixed32_on l' (EncodeFixed32_on l v @ rest) = v \<and>
   DecodeFixed64_on l' (EncodeFixed64_on l w @ rest) = w \<and>
   PutFixed32_on l dst v = dst @ le_bytes 4 v \<and> PutFixed64_on l dst w = dst @ le_bytes 8 w"
  by (simp add: EncodeFixed32_on_eq EncodeFixed64_on_eq DecodeFixed32_on_eq DecodeFixed64_on_eq
      le_word_le_bytes PutFixed32_on_def PutFixed64_on_def host_bytes_def)

text \<open>
  C30. Varint round trip: whatever is already in the string and whatever follows, the
  value put with \<open>PutVarint32\<close> or \<open>PutVarint64\<close> is read back by \<open>GetVarint32\<close> or
  \<open>GetVarint64\<close>, which leave exactly the bytes behind it; the encodings fit the 5 and 10
  byte buffers the code puts them in, and have the length \<open>VarintLength\<close> gives, for both
  widths: no shorter and no longer encoding is written.
\<close>

theorem varint_roundtrip:
  "GetVarint32 (drop (length dst) (PutVarint32 dst v @ rest)) = Some (v, rest) \<and>
   GetVarint64 (drop (length dst) (PutVarint64 dst w @ rest)) = Some (w, rest) \<and>
   length (PutVarint32 dst v) \<le> length dst + 5 \<and>
   length (PutVarint64 dst w) \<le> length dst + kMaxVarint64Length \<and>
   int (length (EncodeVarint32 v)) = VarintLength (ucast v) \<and>
   int (length (EncodeVarint64 w)) = VarintLength w"
  by (simp add: PutVarint32_def PutVarint64_def GetVarint32_Encode GetVarint64_Encode
      length_EncodeVarint32 length_EncodeVarint64 VarintLength_eq length_EncodeVarint_widths)

lemma GetVarint_loop_truncated:
  "k < length (varint_bytes n) \<Longrightarrow> 7 < LENGTH('a) \<Longrightarrow>
     GetVarint_loop max_shift shift (result :: 'a::len word) (take k (varint_bytes n)) = None"
proof (induction n arbitrary: k shift result rule: varint_bytes.induct)
  case (1 n)
  show ?case
  proof (cases "k = 0 \<or> n < 128")
    case True
    with "1.prems" show ?thesis by (auto simp: varint_bytes.simps [of n])
  next
    case False
    have "bit (ucast (of_nat n OR 128 :: byte) AND 128 :: 'a word) 7"
      using "1.prems" by (simp add: bit_simps bit_128)
    then have "(ucast (of_nat n OR 128 :: byte) AND 128 :: 'a word) \<noteq> 0" by force
    with False "1.prems" "1.IH" [of "k - 1"] show ?thesis
      by (cases k) (auto simp: varint_bytes.simps [of n] Let_def)
  qed
qed

text \<open>
  C31. A varint that is cut off is rejected, never misread: on every proper prefix of an
  encoding the decoders report failure. The inlined one-byte path of \<open>GetVarint32Ptr\<close> and
  the loop it falls back to are the same function on every input.
\<close>

theorem varint_truncated_rejected:
  "(k < length (EncodeVarint32 v) \<longrightarrow> GetVarint32 (take k (EncodeVarint32 v)) = None) \<and>
   (k < length (EncodeVarint64 w) \<longrightarrow> GetVarint64 (take k (EncodeVarint64 w)) = None) \<and>
   GetVarint32Ptr p = GetVarint32PtrFallback p"
  by (simp add: GetVarint32_eq GetVarint32PtrFallback_def GetVarint64_def GetVarint64Ptr_def
      EncodeVarint32_eq EncodeVarint64_eq GetVarint_loop_truncated GetVarint32Ptr_eq_fallback)

theorem varint_truncated_rejected_witness:
  "1 < length (EncodeVarint32 300) \<and> GetVarint32 (take 1 (EncodeVarint32 300)) = None \<and>
   1 < length (EncodeVarint64 300) \<and> GetVarint64 (take 1 (EncodeVarint64 300)) = None"
proof -
  have "1 < length (EncodeVarint32 300)" "1 < length (EncodeVarint64 300)"
    by (simp_all add: EncodeVarint32_eq EncodeVarint64_eq varint_bytes.simps)
  then show ?thesis using varint_truncated_rejected [of 1 300 300] by simp
qed

text \<open>
  A sequence of slices, each put with \<open>PutLengthPrefixedSlice\<close> behind the previous
  one, is read back slice by slice by \<open>GetLengthPrefixedSlice\<close>, with nothing lost and
  nothing invented, whenever every slice is shorter than 4 GiB.
\<close>

lemma length_prefixed_stream:
  assumes "\<forall>v \<in> set vs. length v < 2 ^ 32"
  shows "parse_list length_prefixed_slice (length vs) (foldl PutLengthPrefixedSlice [] vs @ rest)
         = Some (vs, rest)"
proof -
  have "foldl PutLengthPrefixedSlice dst vs = dst @ concat (map (PutLengthPrefixedSlice []) vs)" for dst
    by (induction vs arbitrary: dst) (simp_all add: PutLengthPrefixedSlice_def PutVarint32_def)
  with assms show ?thesis
    by (simp add: length_prefixed.parse_list_concat)
qed

end
