(* ===== verification/Status.thy ===== *)
theory Status
  imports Coding
begin

text \<open>
  \<open>include/rocksutil/status.h\<close>, \<open>rutil/status.cc\<close>, \<open>rutil/status_message.cc\<close>: the result
  type of every fallible operation. \<open>st_state\<close> (\<open>state_\<close> in the code) is the null pointer or an allocation that
  holds a four-byte length (in the host's byte order) and the message. The byte order is
  the one of the supported little-endian platforms.

  Shown: a status built from a message carries exactly that message (with the second part
  after a colon), copies are equal and moves empty their source, and the text that
  \<open>ToString\<close> prints, where it prints one.
\<close>

datatype Code =
    kOk | kNotFound | kCorruption | kNotSupported | kInvalidArgument | kIOError
  | kMergeInProgress | kIncomplete | kShutdownInProgress | kTimedOut | kAborted | kBusy
  | kExpired | kTryAgain

datatype SubCode =
    kNone | kMutexTimeout | kLockTimeout | kLockLimit | kNoSpace | kDeadlock

record Status =
  st_code :: Code
  st_subcode :: SubCode
  st_state :: "bytes option"

text \<open>C string literals as bytes.\<close>

definition cstr :: "string \<Rightarrow> bytes" where
  "cstr s = map of_char s"

subsection \<open>Construction\<close>

definition Status_OK :: Status where
  "Status_OK = \<lparr>st_code = kOk, st_subcode = kNone, st_state = None\<rparr>"

definition Status_sub :: "Code \<Rightarrow> SubCode \<Rightarrow> Status" where
  "Status_sub c sc = \<lparr>st_code = c, st_subcode = sc, st_state = None\<rparr>"

text \<open>
  The constructor with two messages. The lengths are cut to 32 bits as in the code; where
  \<open>size + 4\<close> does not fit 32 bits the code would overrun its allocation, which the
  theorems below exclude.
\<close>

definition Status_msg2 :: "Code \<Rightarrow> SubCode \<Rightarrow> slice \<Rightarrow> slice \<Rightarrow> Status" where
  "Status_msg2 c sc msg msg2 =
     (let len1 = of_nat (Slice_size msg) :: u32;
          len2 = of_nat (Slice_size msg2) :: u32;
          sz = len1 + (if len2 \<noteq> 0 then 2 + len2 else 0)
      in \<lparr>st_code = c, st_subcode = sc,
          st_state = Some (host_bytes kLittleEndian 4 sz @ take (unat len1) msg @
            (if len2 \<noteq> 0 then cstr '': '' @ take (unat len2) msg2 else []))\<rparr>)"

definition CopyState :: "bytes \<Rightarrow> bytes" where
  "CopyState state =
     (let sz = host_word kLittleEndian (take 4 state) :: u32 in take (unat (sz + 4)) state)"

definition Status_copy :: "Status \<Rightarrow> Status" where
  "Status_copy s = \<lparr>st_code = st_code s, st_subcode = st_subcode s, st_state = map_option CopyState (st_state s)\<rparr>"

text \<open>
  Assignments give the new target and, for the move, the new source; \<open>same\<close> is the test
  \<open>this == &s\<close>.
\<close>

definition Status_assign :: "bool \<Rightarrow> Status \<Rightarrow> Status \<Rightarrow> Status" where
  "Status_assign same this s = (if \<not> same then Status_copy s else this)"

definition Status_move_assign :: "bool \<Rightarrow> Status \<Rightarrow> Status \<Rightarrow> Status \<times> Status" where
  "Status_move_assign same this s =
     (if \<not> same then (s, \<lparr>st_code = kOk, st_subcode = kNone, st_state = None\<rparr>) else (this, s))"

definition Status_move :: "Status \<Rightarrow> Status \<times> Status" where
  "Status_move s = Status_move_assign False Status_OK s"

definition Status_eq :: "Status \<Rightarrow> Status \<Rightarrow> bool" where
  "Status_eq s rhs \<longleftrightarrow> st_code s = st_code rhs"

definition Status_neq :: "Status \<Rightarrow> Status \<Rightarrow> bool" where
  "Status_neq s rhs \<longleftrightarrow> \<not> Status_eq s rhs"

definition Status_NotFound :: "slice \<Rightarrow> slice \<Rightarrow> Status" where
  "Status_NotFound msg msg2 = Status_msg2 kNotFound kNone msg msg2"

definition Status_NotFound_sub :: "SubCode \<Rightarrow> Status" where
  "Status_NotFound_sub msg = Status_sub kNotFound msg"

definition Status_Corruption :: "slice \<Rightarrow> slice \<Rightarrow> Status" where
  "Status_Corruption msg msg2 = Status_msg2 kCorruption kNone msg msg2"

definition Status_Corruption_sub :: "SubCode \<Rightarrow> Status" where
  "Status_Corruption_sub msg = Status_sub kCorruption msg"

definition Status_NotSupported :: "slice \<Rightarrow> slice \<Rightarrow> Status" where
  "Status_NotSupported msg msg2 = Status_msg2 kNotSupported kNone msg msg2"

definition Status_NotSupported_sub :: "SubCode \<Rightarrow> Status" where
  "Status_NotSupported_sub msg = Status_sub kNotSupported msg"

definition Status_InvalidArgument :: "slice \<Rightarrow> slice \<Rightarrow> Status" where
  "Status_InvalidArgument msg msg2 = Status_msg2 kInvalidArgument kNone msg msg2"

definition Status_InvalidArgument_sub :: "SubCode \<Rightarrow> Status" where
  "Status_InvalidArgument_sub msg = Status_sub kInvalidArgument msg"

definition Status_IOError :: "slice \<Rightarrow> slice \<Rightarrow> Status" where
  "Status_IOError msg msg2 = Status_msg2 kIOError kNone msg msg2"

definition Status_IOError_sub :: "SubCode \<Rightarrow> Status" where
  "Status_IOError_sub msg = Status_sub kIOError msg"

definition Status_MergeInProgress :: "slice \<Rightarrow> slice \<Rightarrow> Status" where
  "Status_MergeInProgress msg msg2 = Status_msg2 kMergeInProgress kNone msg msg2"

definition Status_MergeInProgress_sub :: "SubCode \<Rightarrow> Status" where
  "Status_MergeInProgress_sub msg = Status_sub kMergeInProgress msg"

definition Status_Incomplete :: "slice \<Rightarrow> slice \<Rightarrow> Status" where
  "Status_Incomplete msg msg2 = Status_msg2 kIncomplete kNone msg msg2"

definition Status_Incomplete_sub :: "SubCode \<Rightarrow> Status" where
  "Status_Incomplete_sub msg = Status_sub kIncomplete msg"

definition Status_ShutdownInProgress :: "slice \<Rightarrow> slice \<Rightarrow> Status" where
  "Status_ShutdownInProgress msg msg2 = Status_msg2 kShutdownInProgress kNone msg msg2"

definition Status_ShutdownInProgress_sub :: "SubCode \<Rightarrow> Status" where
  "Status_ShutdownInProgress_sub msg = Status_sub kShutdownInProgress msg"

definition Status_Aborted :: "slice \<Rightarrow> slice \<Rightarrow> Status" where
  "Status_Aborted msg msg2 = Status_msg2 kAborted kNone msg msg2"

definition Status_Aborted_sub :: "SubCode \<Rightarrow> Status" where
  "Status_Aborted_sub msg = Status_sub kAborted msg"

definition Status_Busy :: "slice \<Rightarrow> slice \<Rightarrow> Status" where
  "Status_Busy msg msg2 = Status_msg2 kBusy kNone msg msg2"

definition Status_Busy_sub :: "SubCode \<Rightarrow> Status" where
  "Status_Busy_sub msg = Status_sub kBusy msg"

definition Status_TimedOut :: "slice \<Rightarrow> slice \<Rightarrow> Status" where
  "Status_TimedOut msg msg2 = Status_msg2 kTimedOut kNone msg msg2"

definition Status_TimedOut_sub :: "SubCode \<Rightarrow> Status" where
  "Status_TimedOut_sub msg = Status_sub kTimedOut msg"

definition Status_Expired :: "slice \<Rightarrow> slice \<Rightarrow> Status" where
  "Status_Expired msg msg2 = Status_msg2 kExpired kNone msg msg2"

definition Status_Expired_sub :: "SubCode \<Rightarrow> Status" where
  "Status_Expired_sub msg = Status_sub kExpired msg"

definition Status_TryAgain :: "slice \<Rightarrow> slice \<Rightarrow> Status" where
  "Status_TryAgain msg msg2 = Status_msg2 kTryAgain kNone msg msg2"

definition Status_TryAgain_sub :: "SubCode \<Rightarrow> Status" where
  "Status_TryAgain_sub msg = Status_sub kTryAgain msg"

definition Status_NoSpace_sub :: Status where
  "Status_NoSpace_sub = Status_sub kIOError kNoSpace"

definition Status_NoSpace :: "slice \<Rightarrow> slice \<Rightarrow> Status" where
  "Status_NoSpace msg msg2 = Status_msg2 kIOError kNoSpace msg msg2"

subsection \<open>Tests\<close>

definition Status_ok :: "Status \<Rightarrow> bool" where
  "Status_ok s \<longleftrightarrow> st_code s = kOk"

definition IsNotFound :: "Status \<Rightarrow> bool" where
  "IsNotFound s \<longleftrightarrow> st_code s = kNotFound"

definition IsCorruption :: "Status \<Rightarrow> bool" where
  "IsCorruption s \<longleftrightarrow> st_code s = kCorruption"

definition IsNotSupported :: "Status \<Rightarrow> bool" where
  "IsNotSupported s \<longleftrightarrow> st_code s = kNotSupported"

definition IsInvalidArgument :: "Status \<Rightarrow> bool" where
  "IsInvalidArgument s \<longleftrightarrow> st_code s = kInvalidArgument"

definition IsIOError :: "Status \<Rightarrow> bool" where
  "IsIOError s \<longleftrightarrow> st_code s = kIOError"

definition IsMergeInProgress :: "Status \<Rightarrow> bool" where
  "IsMergeInProgress s \<longleftrightarrow> st_code s = kMergeInProgress"

definition IsIncomplete :: "Status \<Rightarrow> bool" where
  "IsIncomplete s \<longleftrightarrow> st_code s = kIncomplete"

definition IsShutdownInProgress :: "Status \<Rightarrow> bool" where
  "IsShutdownInProgress s \<longleftrightarrow> st_code s = kShutdownInProgress"

definition IsTimedOut :: "Status \<Rightarrow> bool" where
  "IsTimedOut s \<longleftrightarrow> st_code s = kTimedOut"

definition IsAborted :: "Status \<Rightarrow> bool" where
  "IsAborted s \<longleftrightarrow> st_code s = kAborted"

definition IsBusy :: "Status \<Rightarrow> bool" where
  "IsBusy s \<longleftrightarrow> st_code s = kBusy"

definition IsExpired :: "Status \<Rightarrow> bool" where
  "IsExpired s \<longleftrightarrow> st_code s = kExpired"

definition IsTryAgain :: "Status \<Rightarrow> bool" where
  "IsTryAgain s \<longleftrightarrow> st_code s = kTryAgain"

definition IsLockLimit :: "Status \<Rightarrow> bool" where
  "IsLockLimit s \<longleftrightarrow> st_code s = kAborted \<and> st_subcode s = kLockLimit"

definition IsDeadlock :: "Status \<Rightarrow> bool" where
  "IsDeadlock s \<longleftrightarrow> st_code s = kBusy \<and> st_subcode s = kDeadlock"

definition IsNoSpace :: "Status \<Rightarrow> bool" where
  "IsNoSpace s \<longleftrightarrow> st_code s = kIOError \<and> st_subcode s = kNoSpace"

subsection \<open>Printing\<close>

text \<open>
  \<open>Status::msgs\<close>: the array has \<open>kMaxSubCode\<close> elements and five initialisers, so the
  entry of \<open>kDeadlock\<close> is a null pointer.
\<close>

fun Status_msgs :: "SubCode \<Rightarrow> bytes option" where
  "Status_msgs kNone = Some []"
| "Status_msgs kMutexTimeout = Some (cstr ''Timeout Acquiring Mutex'')"
| "Status_msgs kLockTimeout = Some (cstr ''Timeout waiting to lock key'')"
| "Status_msgs kLockLimit = Some (cstr ''Failed to acquire lock due to max_num_locks limit'')"
| "Status_msgs kNoSpace = Some (cstr ''No space left on device'')"
| "Status_msgs kDeadlock = None"

fun Status_type_text :: "Code \<Rightarrow> bytes" where
  "Status_type_text kOk = cstr ''OK''"
| "Status_type_text kNotFound = cstr ''NotFound: ''"
| "Status_type_text kCorruption = cstr ''Corruption: ''"
| "Status_type_text kNotSupported = cstr ''Not implemented: ''"
| "Status_type_text kInvalidArgument = cstr ''Invalid argument: ''"
| "Status_type_text kIOError = cstr ''IO error: ''"
| "Status_type_text kMergeInProgress = cstr ''Merge in progress: ''"
| "Status_type_text kIncomplete = cstr ''Result incomplete: ''"
| "Status_type_text kShutdownInProgress = cstr ''Shutdown in progress: ''"
| "Status_type_text kTimedOut = cstr ''Operation timed out: ''"
| "Status_type_text kAborted = cstr ''Operation aborted: ''"
| "Status_type_text kBusy = cstr ''Resource busy: ''"
| "Status_type_text kExpired = cstr ''Operation expired: ''"
| "Status_type_text kTryAgain = cstr ''Operation failed. Try again.: ''"

text \<open>\<open>None\<close>: the code appends a null \<open>const char*\<close>, which is undefined behaviour.\<close>

definition Status_ToString :: "Status \<Rightarrow> bytes option" where
  "Status_ToString s =
     (if st_code s = kOk then Some (Status_type_text kOk)
      else
        (let type = Status_type_text (st_code s);
             tail = (case st_state s of
                       None \<Rightarrow> []
                     | Some st \<Rightarrow>
                         (let len = host_word kLittleEndian (take 4 st) :: u32
                          in take (unat len) (drop 4 st)))
         in if st_subcode s \<noteq> kNone then
              (case Status_msgs (st_subcode s) of
                 None \<Rightarrow> None
               | Some m \<Rightarrow> Some (type @ m @ tail))
            else Some (type @ tail)))"

subsection \<open>Facts\<close>

lemma Status_ok_OK [simp]: "Status_ok Status_OK"
  by (simp add: Status_ok_def Status_OK_def)

lemma code_Status_msg2 [simp]:
  "st_code (Status_msg2 c sc m m2) = c" "st_subcode (Status_msg2 c sc m m2) = sc"
  by (simp_all add: Status_msg2_def Let_def)

lemma code_Status_sub [simp]: "st_code (Status_sub c sc) = c" "st_subcode (Status_sub c sc) = sc"
  by (simp_all add: Status_sub_def)

text \<open>The message a status was built from: both parts, a colon and a space between.\<close>

definition message_text :: "slice \<Rightarrow> slice \<Rightarrow> bytes" where
  "message_text msg msg2 = msg @ (if msg2 = [] then [] else cstr '': '' @ msg2)"

lemma state_Status_msg2:
  assumes "length msg + length msg2 + 6 < 2 ^ 32"
  shows "st_state (Status_msg2 c sc msg msg2) =
         Some (host_bytes kLittleEndian 4 (of_nat (length (message_text msg msg2)) :: u32)
               @ message_text msg msg2)"
proof -
  have small: "unat (of_nat n :: u32) = n" if "n < 2 ^ 32" for n
    using that by (intro unat_of_nat_small) simp
  have "(of_nat (length msg2) = (0 :: u32)) = (msg2 = [])"
    using small [of "length msg2"] assms by (auto dest: arg_cong [of _ _ unat])
  then show ?thesis
    using assms
    by (auto simp: Status_msg2_def message_text_def Let_def Slice_size_def small cstr_def
        add.assoc)
qed

lemma host_word_length_prefix:
  "n < 2 ^ 32 \<Longrightarrow>
     unat (host_word kLittleEndian (take 4 (host_bytes kLittleEndian 4 (of_nat n :: u32) @ r)) :: u32) = n"
  by (simp add: host_word_host_bytes unat_of_nat_small)

subsection \<open>Properties\<close>

text \<open>
  A status built from messages prints its type text, the text of its subcode where it
  has one, and then exactly the message it was built from, both parts with a colon and a
  space between them; a copy prints the same and compares equal, and so does the target of
  a move, which leaves an OK source.
\<close>

lemma Status_ToString_message:
  assumes "length msg + length msg2 + 6 < 2 ^ 32" and "c \<noteq> kOk" and "sc \<noteq> kDeadlock"
  shows "Status_ToString (Status_msg2 c sc msg msg2)
           = Some (Status_type_text c @ the (Status_msgs sc) @ message_text msg msg2) \<and>
         Status_copy (Status_msg2 c sc msg msg2) = Status_msg2 c sc msg msg2 \<and>
         Status_move (Status_msg2 c sc msg msg2) = (Status_msg2 c sc msg msg2, Status_OK)"
proof -
  let ?m = "message_text msg msg2"
  have len: "length ?m + 4 < 2 ^ 32"
    using assms(1) by (simp add: message_text_def cstr_def)
  then have small: "unat (of_nat (length ?m) :: u32) = length ?m"
    by (intro unat_of_nat_small) simp
  note st = state_Status_msg2 [OF assms(1), of c sc]
  have "\<exists>m. Status_msgs sc = Some m" and "Status_msgs kNone = Some []"
    using assms(3) by (cases sc; simp)+
  with assms(2) len st have "Status_ToString (Status_msg2 c sc msg msg2)
           = Some (Status_type_text c @ the (Status_msgs sc) @ ?m)"
    by (cases "sc = kNone")
       (auto simp: Status_ToString_def Let_def host_word_host_bytes small)
  moreover have "unat (of_nat (length ?m) + 4 :: u32) = length ?m + 4"
    using unat_of_nat_small [of "length ?m + 4", where ?'a = 32] len by simp
  with st have "map_option CopyState (st_state (Status_msg2 c sc msg msg2))
      = st_state (Status_msg2 c sc msg msg2)"
    by (simp add: CopyState_def host_word_host_bytes)
  then have "Status_copy (Status_msg2 c sc msg msg2) = Status_msg2 c sc msg msg2"
    by (simp add: Status_copy_def)
  ultimately show ?thesis
    by (simp add: Status_move_def Status_move_assign_def Status_OK_def)
qed

text \<open>
  The only statuses that \<open>ToString\<close> cannot print are the non-OK ones with the subcode
  \<open>kDeadlock\<close>: the table of subcode texts has no entry for it, so the code appends a null
  pointer.
\<close>

lemma Status_ToString_defined:
  "(Status_ToString s = None \<longleftrightarrow> \<not> Status_ok s \<and> st_subcode s = kDeadlock) \<and>
   Status_ToString (Status_Busy_sub kDeadlock) = None \<and> IsDeadlock (Status_Busy_sub kDeadlock)"
  by (cases "st_subcode s")
     (simp_all add: Status_ToString_def Status_ok_def Let_def Status_Busy_sub_def Status_sub_def
        IsDeadlock_def)

end
