(* ===== verification/Files.thy ===== *)
theory Files
  imports Crc32c
begin

text \<open>
  The file interfaces of \<open>include/rocksutil/env.h\<close> as tables of virtual functions. A
  caller holds a file state \<open>'f\<close> and calls through the table, as the code calls through a
  base-class pointer; every operation returns the new file state. \<open>Read\<close> returns the bytes
  its result slice refers to. The operations with an assertion or an unbounded retry loop in
  some class are option valued: \<open>None\<close> is a call that does not return. The base class \<open>WritableFile\<close> keeps the preallocation
  counters and implements \<open>PrepareWrite\<close> over the virtual \<open>Allocate\<close>.

  The locales state what the classes above the interface rely on: a file written with
  \<open>Append\<close>, a file written with \<open>PositionedAppend\<close> (the header: users cannot mix the two),
  and a file read sequentially. They are interpreted on the POSIX implementation.
\<close>

subsection \<open>Function tables\<close>

record 'f WritableFile_vt =
  wf_UseOSBuffer :: "'f \<Rightarrow> bool"
  wf_UseDirectIO :: "'f \<Rightarrow> bool"
  wf_GetRequiredBufferAlignment :: "'f \<Rightarrow> nat"
  wf_IsSyncThreadSafe :: "'f \<Rightarrow> bool"
  wf_PrepareWrite :: "nat \<Rightarrow> nat \<Rightarrow> 'f \<Rightarrow> 'f"
  wf_Append :: "slice \<Rightarrow> 'f \<Rightarrow> (Status \<times> 'f) option"
  wf_PositionedAppend :: "slice \<Rightarrow> nat \<Rightarrow> 'f \<Rightarrow> (Status \<times> 'f) option"
  wf_Truncate :: "nat \<Rightarrow> 'f \<Rightarrow> Status \<times> 'f"
  wf_Close :: "'f \<Rightarrow> Status \<times> 'f"
  wf_Flush :: "'f \<Rightarrow> Status \<times> 'f"
  wf_Sync :: "'f \<Rightarrow> (Status \<times> 'f) option"
  wf_Fsync :: "'f \<Rightarrow> (Status \<times> 'f) option"
  wf_RangeSync :: "nat \<Rightarrow> nat \<Rightarrow> 'f \<Rightarrow> Status \<times> 'f"
  wf_InvalidateCache :: "nat \<Rightarrow> nat \<Rightarrow> 'f \<Rightarrow> Status \<times> 'f"

record 'f SequentialFile_vt =
  sf_Read :: "nat \<Rightarrow> 'f \<Rightarrow> (Status \<times> slice \<times> 'f) option"
  sf_Skip :: "u64 \<Rightarrow> 'f \<Rightarrow> Status \<times> 'f"

text \<open>
  What \<open>RandomAccessFile::Read\<close> leaves behind: the status, the bytes of the result slice, whether
  the slice points into \<open>scratch\<close>, and the bytes of \<open>scratch\<close>. The call gives \<open>None\<close> if it does not
  return.
\<close>

record raf_result =
  rr_status :: Status
  rr_data :: slice
  rr_in_scratch :: bool
  rr_scratch :: bytes

record 'f RandomAccessFile_vt =
  raf_Read :: "u64 \<Rightarrow> nat \<Rightarrow> bytes \<Rightarrow> 'f \<Rightarrow> (raf_result \<times> 'f) option"
  raf_ShouldForwardRawRequest :: "'f \<Rightarrow> bool"
  raf_EnableReadAhead :: "'f \<Rightarrow> 'f"

subsection \<open>Defaults of the base class WritableFile\<close>

record WritableFile_base =
  wb_last_preallocated_block :: nat
  wb_preallocation_block_size :: nat

definition WritableFile_base_init :: WritableFile_base where
  "WritableFile_base_init = \<lparr>wb_last_preallocated_block = 0, wb_preallocation_block_size = 0\<rparr>"

definition SetPreallocationBlockSize :: "nat \<Rightarrow> WritableFile_base \<Rightarrow> WritableFile_base" where
  "SetPreallocationBlockSize sz b = b\<lparr>wb_preallocation_block_size := sz\<rparr>"

text \<open>The block size and the last allocated block, as the two output parameters.\<close>

definition GetPreallocationStatus :: "WritableFile_base \<Rightarrow> nat \<times> nat" where
  "GetPreallocationStatus b = (wb_preallocation_block_size b, wb_last_preallocated_block b)"

text \<open>
  \<open>PrepareWrite\<close> on a file state that embeds the base part (\<open>get\<close>, \<open>put\<close>) and allocates
  with \<open>alloc\<close>, the virtual \<open>Allocate\<close>, whose status the code ignores.
\<close>

definition WritableFile_PrepareWrite ::
    "('f \<Rightarrow> WritableFile_base) \<Rightarrow> (WritableFile_base \<Rightarrow> 'f \<Rightarrow> 'f) \<Rightarrow>
     (nat \<Rightarrow> nat \<Rightarrow> 'f \<Rightarrow> Status \<times> 'f) \<Rightarrow> nat \<Rightarrow> nat \<Rightarrow> 'f \<Rightarrow> 'f" where
  "WritableFile_PrepareWrite get put alloc offset len f =
     (let b = get f in
      if wb_preallocation_block_size b = 0 then f
      else
        (let block_size = wb_preallocation_block_size b;
             new_last = (offset + len + block_size - 1) div block_size
         in if new_last > wb_last_preallocated_block b then
              (let num_spanned_blocks = new_last - wb_last_preallocated_block b;
                   (_, f) = alloc (block_size * wb_last_preallocated_block b)
                              (block_size * num_spanned_blocks) f
               in put ((get f)\<lparr>wb_last_preallocated_block := new_last\<rparr>) f)
            else f))"

definition PositionedAppend_default :: "slice \<Rightarrow> nat \<Rightarrow> 'f \<Rightarrow> (Status \<times> 'f) option" where
  "PositionedAppend_default data offset f = Some (Status_NotSupported_sub kNone, f)"

definition InvalidateCache_default :: "nat \<Rightarrow> nat \<Rightarrow> 'f \<Rightarrow> Status \<times> 'f" where
  "InvalidateCache_default offset len f =
     (Status_NotSupported (cstr ''InvalidateCache not supported.'') [], f)"

subsection \<open>Readers that forward to the file\<close>

definition SequentialFileReader_Read ::
    "'f SequentialFile_vt \<Rightarrow> nat \<Rightarrow> 'f \<Rightarrow> (Status \<times> slice \<times> 'f) option" where
  "SequentialFileReader_Read vt n f = sf_Read vt n f"

definition SequentialFileReader_Skip ::
    "'f SequentialFile_vt \<Rightarrow> u64 \<Rightarrow> 'f \<Rightarrow> Status \<times> 'f" where
  "SequentialFileReader_Skip vt n f = sf_Skip vt n f"

definition RandomAccessFileReader_Read ::
    "'f RandomAccessFile_vt \<Rightarrow> u64 \<Rightarrow> nat \<Rightarrow> bytes \<Rightarrow> 'f \<Rightarrow> (raf_result \<times> 'f) option" where
  "RandomAccessFileReader_Read vt offset n scratch f = raf_Read vt offset n scratch f"

subsection \<open>What the callers rely on\<close>

text \<open>Overwriting part of a run of bytes at an offset inside it or at its end.\<close>

definition overwrite :: "bytes \<Rightarrow> nat \<Rightarrow> bytes \<Rightarrow> bytes" where
  "overwrite xs off ys = take off xs @ ys @ drop (off + length ys) xs"

lemma length_overwrite:
  "off \<le> length xs \<Longrightarrow> length (overwrite xs off ys) = max (length xs) (off + length ys)"
  by (auto simp: overwrite_def)

lemma take_overwrite: "off \<le> length xs \<Longrightarrow> take off (overwrite xs off ys) = take off xs"
  by (simp add: overwrite_def)

lemma take_overwrite_prefix:
  "off \<le> length xs \<Longrightarrow> take (off + n) (overwrite xs off ys) = take off xs @ take n (ys @ drop (off + length ys) xs)"
  by (simp add: overwrite_def)

locale frame_file =
  fixes vt :: "'f WritableFile_vt" and contents :: "'f \<Rightarrow> bytes" and healthy :: "'f \<Rightarrow> bool"
    and reliable :: bool
  assumes PrepareWrite_frame:
      "healthy f \<Longrightarrow> healthy (wf_PrepareWrite vt off len f) \<and>
         contents (wf_PrepareWrite vt off len f) = contents f"
    and Flush_frame:
      "healthy f \<Longrightarrow> wf_Flush vt f = (s, f') \<Longrightarrow> healthy f' \<and> contents f' = contents f \<and>
         (reliable \<longrightarrow> Status_ok s)"
    and RangeSync_frame:
      "healthy f \<Longrightarrow> wf_RangeSync vt off len f = (s, f') \<Longrightarrow> healthy f' \<and> contents f' = contents f \<and>
         (reliable \<longrightarrow> Status_ok s)"
    and Sync_frame:
      "healthy f \<Longrightarrow> \<exists>s f'. wf_Sync vt f = Some (s, f') \<and> healthy f' \<and> contents f' = contents f \<and>
         (reliable \<longrightarrow> Status_ok s)"
    and Fsync_frame:
      "healthy f \<Longrightarrow> \<exists>s f'. wf_Fsync vt f = Some (s, f') \<and> healthy f' \<and> contents f' = contents f \<and>
         (reliable \<longrightarrow> Status_ok s)"

text \<open>
  \<open>Append\<close> adds a prefix of the data at the end of the file, all of it when it reports
  success. With \<open>reliable\<close> set, no call fails.
\<close>

locale append_file = frame_file +
  assumes Append_law:
    "healthy f \<Longrightarrow> \<exists>s f'. wf_Append vt d f = Some (s, f') \<and>
       healthy f' \<and> (reliable \<longrightarrow> Status_ok s) \<and>
       (\<exists>k \<le> length d. contents f' = contents f @ take k d \<and> (Status_ok s \<longrightarrow> k = length d))"

text \<open>
  \<open>PositionedAppend\<close>, at an aligned offset and with a whole number of aligned units, writes a
  prefix of the data at the offset, all of it on success.
\<close>

locale positioned_file = frame_file +
  fixes alignment :: nat
  assumes PositionedAppend_law:
    "healthy f \<Longrightarrow> off \<le> length (contents f) \<Longrightarrow> alignment dvd off \<Longrightarrow> alignment dvd length d \<Longrightarrow>
       \<exists>s f'. wf_PositionedAppend vt d off f = Some (s, f') \<and> healthy f' \<and>
       (\<exists>k \<le> length d. contents f' = overwrite (contents f) off (take k d) \<and>
          (Status_ok s \<longrightarrow> k = length d))"

text \<open>
  Sequential reading without device errors: \<open>Read\<close> returns the next bytes, fewer only at
  the end of the file, and \<open>Skip\<close> moves on (by what a signed 64-bit offset can hold).
\<close>

locale sequential_file =
  fixes svt :: "'f SequentialFile_vt" and remaining :: "'f \<Rightarrow> bytes" and sound :: "'f \<Rightarrow> bool"
  assumes Read_law:
      "sound f \<Longrightarrow> \<exists>s f'. sf_Read svt n f = Some (s, take n (remaining f), f') \<and> Status_ok s \<and>
         sound f' \<and> remaining f' = drop n (remaining f)"
    and Skip_law:
      "sound f \<Longrightarrow> \<exists>s f'. sf_Skip svt m f = (s, f') \<and> sound f' \<and>
         (unat m < 2 ^ 63 \<longrightarrow> Status_ok s \<and> remaining f' = drop (unat m) (remaining f))"

text \<open>
  Sequential reading with device errors allowed. In blocks of a fixed size: a read in a sound
  state returns, a successful one uses up at least as much of the file as it returns, so only
  finitely many bytes come, and a full one leaves a sound state. In pieces of any size, with
  every state sound after it.
\<close>

locale block_file =
  fixes svt :: "'f SequentialFile_vt" and left :: "'f \<Rightarrow> nat" and sound :: "'f \<Rightarrow> bool" and block :: nat
  assumes Read_block:
      "sound f \<Longrightarrow> \<exists>s d f'. sf_Read svt block f = Some (s, d, f') \<and> left f' \<le> left f \<and>
         (Status_ok s \<longrightarrow> length d + left f' \<le> left f \<and> (block \<le> length d \<longrightarrow> sound f'))"

locale finite_file =
  fixes svt :: "'f SequentialFile_vt" and left :: "'f \<Rightarrow> nat" and sound :: "'f \<Rightarrow> bool"
  assumes Read_finite:
      "sound f \<Longrightarrow> \<exists>s d f'. sf_Read svt n f = Some (s, d, f') \<and>
         sound f' \<and> left f' \<le> left f \<and> (Status_ok s \<longrightarrow> length d + left f' \<le> left f)"
    and Skip_finite:
      "sound f \<Longrightarrow> sf_Skip svt m f = (s, f') \<Longrightarrow> sound f'"

sublocale finite_file \<subseteq> in_blocks: block_file svt left sound block
  by unfold_locales (use Read_finite in blast)

sublocale sequential_file \<subseteq> finite: finite_file svt "\<lambda>f. length (remaining f)" sound
proof unfold_locales
  fix f n s f' m
  assume f: "sound f"
  from Read_law [OF f, of n]
  show "\<exists>s d f'. sf_Read svt n f = Some (s, d, f') \<and> sound f' \<and> length (remaining f') \<le> length (remaining f) \<and>
      (Status_ok s \<longrightarrow> length d + length (remaining f') \<le> length (remaining f))"
    by auto
  from Skip_law [OF f, of m]
  show "sf_Skip svt m f = (s, f') \<Longrightarrow> sound f'"
    by auto
qed

text \<open>
  Random access without device errors, inside of the file: \<open>Read\<close> returns the bytes at the offset,
  fewer than \<open>n\<close> only at the end of the file.
\<close>

locale random_file =
  fixes rvt :: "'f RandomAccessFile_vt" and contents :: "'f \<Rightarrow> bytes" and sound :: "'f \<Rightarrow> bool"
  assumes Read_at:
      "sound f \<Longrightarrow> unat off \<le> length (contents f) \<Longrightarrow> 0 < n \<Longrightarrow> n < 2 ^ 63 \<Longrightarrow> n \<le> length scratch \<Longrightarrow>
         \<exists>r f'. raf_Read rvt off n scratch f = Some (r, f') \<and> Status_ok (rr_status r) \<and>
           rr_data r = take n (drop (unat off) (contents f)) \<and> length (rr_scratch r) = length scratch \<and>
           (rr_in_scratch r \<longrightarrow> take (length (rr_data r)) (rr_scratch r) = rr_data r) \<and>
           sound f' \<and> contents f' = contents f"
    and contents_bound: "sound f \<Longrightarrow> length (contents f) < 2 ^ 63"
    and EnableReadAhead_frame: "sound f \<Longrightarrow> sound (raf_EnableReadAhead rvt f) \<and> contents (raf_EnableReadAhead rvt f) = contents f"

end
