(* ===== verification/AlignedBuffer.thy ===== *)
theory AlignedBuffer
  imports Files
begin

text \<open>
  \<open>rutil/aligned_buffer.h\<close>: a buffer whose capacity is a multiple of an alignment. The
  model keeps the bytes in use, \<open>ab_data\<close> (their number is \<open>cursize_\<close>), and the capacity;
  bytes past \<open>cursize_\<close> are never read before they are written. The address arithmetic
  that aligns \<open>bufstart_\<close> inside the allocation is \<open>AB_bufstart\<close>. An operation with an
  assertion gives \<open>None\<close> where the assertion fails.

  Shown: \<open>TruncateToPageBoundary\<close> and \<open>Roundup\<close> give the nearest multiples, the aligned
  start leaves room for the capacity, and on a well-formed buffer no assertion fails and every
  operation keeps the buffer well formed.
\<close>

record AlignedBuffer =
  ab_alignment :: nat
  ab_capacity :: nat
  ab_data :: bytes

definition TruncateToPageBoundary :: "nat \<Rightarrow> nat \<Rightarrow> nat option" where
  "TruncateToPageBoundary page_size s =
     (let s = s - (s AND (page_size - 1))
      in if s mod page_size \<noteq> 0 then None else Some s)"

definition Roundup :: "nat \<Rightarrow> nat \<Rightarrow> nat" where
  "Roundup x y = ((x + y - 1) div y) * y"

definition AlignedBuffer_init :: AlignedBuffer where
  "AlignedBuffer_init = \<lparr>ab_alignment = 0, ab_capacity = 0, ab_data = []\<rparr>"

abbreviation AB_CurrentSize :: "AlignedBuffer \<Rightarrow> nat" where
  "AB_CurrentSize b \<equiv> length (ab_data b)"

definition AB_Clear :: "AlignedBuffer \<Rightarrow> AlignedBuffer" where
  "AB_Clear b = b\<lparr>ab_data := []\<rparr>"

definition AB_Alignment :: "nat \<Rightarrow> AlignedBuffer \<Rightarrow> AlignedBuffer option" where
  "AB_Alignment alignment b =
     (if \<not> alignment > 0 then None
      else if alignment AND (alignment - 1) \<noteq> 0 then None
      else Some (b\<lparr>ab_alignment := alignment\<rparr>))"

text \<open>The first aligned address of an allocation at \<open>p\<close>.\<close>

definition AB_bufstart :: "u64 \<Rightarrow> nat \<Rightarrow> u64" where
  "AB_bufstart p alignment = (p + of_nat (alignment - 1)) AND NOT (of_nat (alignment - 1))"

definition AllocateNewBuffer :: "nat \<Rightarrow> AlignedBuffer \<Rightarrow> AlignedBuffer option" where
  "AllocateNewBuffer requestedCapacity b =
     (if \<not> ab_alignment b > 0 then None
      else if ab_alignment b AND (ab_alignment b - 1) \<noteq> 0 then None
      else Some (b\<lparr>ab_capacity := Roundup requestedCapacity (ab_alignment b), ab_data := []\<rparr>))"

definition AB_Append :: "bytes \<Rightarrow> AlignedBuffer \<Rightarrow> nat \<times> AlignedBuffer" where
  "AB_Append src b =
     (let buffer_remaining = ab_capacity b - AB_CurrentSize b;
          to_copy = min (length src) buffer_remaining
      in (to_copy, if to_copy > 0 then b\<lparr>ab_data := ab_data b @ take to_copy src\<rparr> else b))"

definition AB_Read :: "nat \<Rightarrow> nat \<Rightarrow> AlignedBuffer \<Rightarrow> bytes option" where
  "AB_Read offset read_size b =
     (if offset < AB_CurrentSize b
      then Some (take (min (AB_CurrentSize b - offset) read_size) (drop offset (ab_data b)))
      else None)"

definition AB_PadToAlignmentWith :: "byte \<Rightarrow> AlignedBuffer \<Rightarrow> AlignedBuffer option" where
  "AB_PadToAlignmentWith padding b =
     (let total_size = Roundup (AB_CurrentSize b) (ab_alignment b);
          pad_size = total_size - AB_CurrentSize b
      in if pad_size > 0 then
           (if \<not> pad_size + AB_CurrentSize b \<le> ab_capacity b then None
            else Some (b\<lparr>ab_data := ab_data b @ replicate pad_size padding\<rparr>))
         else Some b)"

definition AB_RefitTail :: "nat \<Rightarrow> nat \<Rightarrow> AlignedBuffer \<Rightarrow> AlignedBuffer" where
  "AB_RefitTail tail_offset tail_size b =
     b\<lparr>ab_data := take tail_size (drop tail_offset (ab_data b))\<rparr>"

text \<open>\<open>Size\<close> only ever lowers \<open>cursize_\<close> in this library.\<close>

definition AB_Size :: "nat \<Rightarrow> AlignedBuffer \<Rightarrow> AlignedBuffer" where
  "AB_Size cursize b = b\<lparr>ab_data := take cursize (ab_data b)\<rparr>"

subsection \<open>Facts\<close>

definition power_of_two :: "nat \<Rightarrow> bool" where
  "power_of_two n \<longleftrightarrow> (\<exists>k < 64. n = 2 ^ k)"

lemma power_of_two_pos: "power_of_two n \<Longrightarrow> 0 < n"
  by (auto simp: power_of_two_def)

lemma power_of_two_4096: "power_of_two 4096"
  unfolding power_of_two_def by (intro exI [of _ 12]) simp

lemma nat_and_mask: "s AND (2 ^ k - 1) = s mod 2 ^ k" for s :: nat
  using take_bit_eq_mask [of k s] by (simp add: mask_eq_exp_minus_1 take_bit_eq_mod)

lemma TruncateToPageBoundary_eq:
  "power_of_two page_size \<Longrightarrow> TruncateToPageBoundary page_size s = Some (s - s mod page_size)"
  using nat_and_mask
  by (auto simp: TruncateToPageBoundary_def power_of_two_def Let_def minus_mod_eq_mult_div)

lemma power_of_two_assert: "power_of_two n \<Longrightarrow> 0 < n \<and> n AND (n - 1) = 0"
  using nat_and_mask by (auto simp: power_of_two_def)

text \<open>The aligned start lies inside the allocation of \<open>capacity + alignment\<close> bytes, with room for the capacity.\<close>

lemma AB_bufstart_aligned:
  assumes "power_of_two a" and "unat p + a \<le> 2 ^ 64"
  shows "a dvd unat (AB_bufstart p a)" and "unat p \<le> unat (AB_bufstart p a)"
    and "unat (AB_bufstart p a) + capacity \<le> unat p + (capacity + a)"
proof -
  from assms(1) obtain k where k: "k < 64" "a = 2 ^ k" by (auto simp: power_of_two_def)
  define x where "x = p + of_nat (a - 1)"
  have "a \<le> 2 ^ 64 - 1" using k power_strict_increasing [of k 64 "2::nat"] by simp
  then have "unat (of_nat (a - 1) :: u64) = a - 1" by (simp add: unat_of_nat take_bit_nat_eq_self)
  then have x: "unat x = unat p + (a - 1)"
    using assms(2) power_of_two_pos [OF assms(1)] unfolding x_def by (subst unat_plus_if_size) (simp add: word_size)
  have "(of_nat (a - 1) :: u64) = mask k" by (simp add: k mask_eq_exp_minus_1 of_nat_diff)
  then have start: "AB_bufstart p a = x AND NOT (mask k)" by (simp add: AB_bufstart_def x_def)
  have "x AND NOT (mask k) = push_bit k (drop_bit k x)"
    by (rule bit_word_eqI) (auto simp: bit_simps)
  moreover have "unat (push_bit k (drop_bit k x)) = unat x div a * a"
  proof -
    have "unat x div a * a < 2 ^ 64"
      by (rule le_less_trans [OF div_times_less_eq_dividend]) (use unsigned_less [of x, where ?'a = nat] in simp)
    then show ?thesis
      using k(1) unfolding k(2) unsigned_push_bit_eq unsigned_drop_bit_eq
      by (simp only: push_bit_eq_mult [where ?'a = nat] drop_bit_eq_div [where ?'a = nat])
         (use unsigned_less [of x, where ?'a = nat] in \<open>simp add: take_bit_nat_eq_self\<close>)
  qed
  ultimately have eq: "unat (AB_bufstart p a) = unat x div a * a" using start by simp
  have "unat x div a * a + unat x mod a = unat x" "unat x mod a < a"
    using power_of_two_pos [OF assms(1)] by simp_all
  with x show "unat p \<le> unat (AB_bufstart p a)" "unat (AB_bufstart p a) + capacity \<le> unat p + (capacity + a)"
    unfolding eq by linarith+
  show "a dvd unat (AB_bufstart p a)" unfolding eq by simp
qed

lemma Roundup_dvd: "y dvd Roundup x y"
  by (simp add: Roundup_def)

lemma Roundup_ge: "0 < y \<Longrightarrow> x \<le> Roundup x y"
  using div_mult_mod_eq [of "x + y - 1" y] mod_less_divisor [of y "x + y - 1"]
  unfolding Roundup_def by linarith

lemma Roundup_less: "0 < y \<Longrightarrow> Roundup x y < x + y"
  using div_times_less_eq_dividend [of "x + y - 1" y] unfolding Roundup_def by linarith

lemma Roundup_least: "0 < y \<Longrightarrow> y dvd z \<Longrightarrow> x \<le> z \<Longrightarrow> Roundup x y \<le> z"
proof -
  assume y: "0 < y" "y dvd z" "x \<le> z"
  then obtain q where z: "z = q * y" by (metis dvd_def mult.commute)
  have "x + y - 1 < (q + 1) * y" using y z by simp
  then have "(x + y - 1) div y < q + 1" by (simp add: less_mult_imp_div_less)
  then show ?thesis unfolding Roundup_def z by simp
qed

lemma Roundup_multiple: "0 < y \<Longrightarrow> y dvd x \<Longrightarrow> Roundup x y = x"
  by (rule antisym [OF Roundup_least Roundup_ge]) simp_all

definition AB_wf :: "AlignedBuffer \<Rightarrow> bool" where
  "AB_wf b \<longleftrightarrow> power_of_two (ab_alignment b) \<and> 0 < ab_capacity b \<and>
     ab_alignment b dvd ab_capacity b \<and> AB_CurrentSize b \<le> ab_capacity b"

lemma AB_wf_Allocate:
  assumes "power_of_two (ab_alignment b)" and "0 < n"
  shows "\<exists>b'. AllocateNewBuffer n b = Some b' \<and> AB_wf b' \<and> ab_alignment b' = ab_alignment b \<and>
           ab_data b' = [] \<and> n \<le> ab_capacity b'"
  using assms Roundup_ge [OF power_of_two_pos, of "ab_alignment b" n] power_of_two_assert [OF assms(1)]
  by (simp add: AB_wf_def AllocateNewBuffer_def Roundup_dvd)

lemma AB_wf_Append: "AB_wf b \<Longrightarrow> AB_wf (snd (AB_Append src b))"
  by (auto simp: AB_wf_def AB_Append_def Let_def)

lemma AB_Append_data:
  "AB_wf b \<Longrightarrow> AB_Append src b = (n, b') \<Longrightarrow>
     ab_data b' = ab_data b @ take n src \<and> n = min (length src) (ab_capacity b - AB_CurrentSize b) \<and>
     ab_capacity b' = ab_capacity b \<and> ab_alignment b' = ab_alignment b"
  by (auto simp: AB_Append_def Let_def min_def split: if_splits)

lemma AB_wf_Size: "AB_wf b \<Longrightarrow> AB_wf (AB_Size n b)"
  by (auto simp: AB_wf_def AB_Size_def)

lemma AB_wf_Pad:
  assumes "AB_wf b"
  shows "\<exists>b' z. AB_PadToAlignmentWith p b = Some b' \<and> AB_wf b' \<and> ab_data b' = ab_data b @ z \<and>
           ab_alignment b' = ab_alignment b \<and> ab_capacity b' = ab_capacity b \<and> ab_alignment b dvd AB_CurrentSize b'"
proof -
  let ?total = "Roundup (AB_CurrentSize b) (ab_alignment b)"
  have total: "?total \<le> ab_capacity b" "AB_CurrentSize b \<le> ?total"
    using assms by (simp_all add: AB_wf_def Roundup_least Roundup_ge power_of_two_pos)
  define b' where "b' = b\<lparr>ab_data := ab_data b @ replicate (?total - AB_CurrentSize b) p\<rparr>"
  have "AB_PadToAlignmentWith p b = Some b'"
    using total by (simp add: AB_PadToAlignmentWith_def b'_def Let_def)
  moreover have "AB_wf b'" using assms total by (simp add: AB_wf_def b'_def)
  ultimately show ?thesis
    using total Roundup_dvd [of "ab_alignment b" "AB_CurrentSize b"] by (auto simp: b'_def)
qed

lemma AB_wf_Refit: "AB_wf b \<Longrightarrow> AB_wf (AB_RefitTail off n b)"
  by (auto simp: AB_wf_def AB_RefitTail_def)

end
