(* ===== verification/FileWriter.thy ===== *)
theory FileWriter
  imports AlignedBuffer "HOL-Library.Monad_Syntax"
begin

text \<open>
  \<open>WritableFileWriter\<close> of \<open>include/rocksutil/file_reader_writer.h\<close> and
  \<open>rutil/file_reader_writer.cc\<close>: buffered appending to a \<open>WritableFile\<close>, through the OS
  cache or, when the file asks for it, in whole aligned pages at explicit offsets.
  \<open>w_file\<close> is \<open>None\<close> once \<open>Close\<close> has reset the pointer. An operation returns \<open>None\<close> when
  the code does not return normally: it dereferences the null file pointer, one of its
  assertions fails, or its loop does not end.

  Shown, for every file that satisfies \<open>append_file\<close> or \<open>positioned_file\<close>: \<open>Append\<close>,
  \<open>Flush\<close> and \<open>Sync\<close> return in every well-formed state, and when they report success the
  bytes written so far (the file's and the buffered ones) are the old ones followed by the
  new data.
\<close>

record 'f WritableFileWriter =
  w_file :: "'f option"
  w_buf :: AlignedBuffer
  w_max_buffer_size :: nat
  w_filesize :: nat
  w_next_write_offset :: nat
  w_pending_sync :: bool
  w_direct_io :: bool
  w_use_os_buffer :: bool
  w_last_sync_size :: nat
  w_bytes_per_sync :: nat

type_synonym 'f wresult = "(Status \<times> 'f WritableFileWriter) option"

definition WritableFileWriter_init ::
    "'f WritableFile_vt \<Rightarrow> 'f \<Rightarrow> nat \<Rightarrow> nat \<Rightarrow> 'f WritableFileWriter option" where
  "WritableFileWriter_init vt file max_buffer bytes_per_sync = do {
     buf \<leftarrow> AB_Alignment (wf_GetRequiredBufferAlignment vt file) AlignedBuffer_init;
     buf \<leftarrow> AllocateNewBuffer 65536 buf;
     Some
       \<lparr>w_file = Some file,
        w_buf = buf,
        w_max_buffer_size = max_buffer,
        w_filesize = 0,
        w_next_write_offset = 0,
        w_pending_sync = False,
        w_direct_io = wf_UseDirectIO vt file,
        w_use_os_buffer = wf_UseOSBuffer vt file,
        w_last_sync_size = 0,
        w_bytes_per_sync = bytes_per_sync\<rparr>
   }"

text \<open>One call through the file pointer: null is \<open>None\<close>, as is a call that does not return.\<close>

definition call_file ::
    "('f \<Rightarrow> ('a \<times> 'f) option) \<Rightarrow> 'f WritableFileWriter \<Rightarrow> ('a \<times> 'f WritableFileWriter) option" where
  "call_file op w =
     (case w_file w of
        None \<Rightarrow> None
      | Some f \<Rightarrow> map_option (\<lambda>(r, f'). (r, w\<lparr>w_file := Some f'\<rparr>)) (op f))"

definition on_file :: "('f \<Rightarrow> 'a \<times> 'f) \<Rightarrow> 'f WritableFileWriter \<Rightarrow> ('a \<times> 'f WritableFileWriter) option" where
  "on_file op w = call_file (\<lambda>f. Some (op f)) w"

definition WriteBuffered :: "'f WritableFile_vt \<Rightarrow> bytes \<Rightarrow> 'f WritableFileWriter \<Rightarrow> 'f wresult" where
  "WriteBuffered vt data w =
     (if \<not> w_use_os_buffer w then None
      else if data = [] then Some (Status_OK, w\<lparr>w_buf := AB_Size 0 (w_buf w)\<rparr>)
      else
        (case call_file (wf_Append vt data) w of
           None \<Rightarrow> None
         | Some (s, w) \<Rightarrow>
             if \<not> Status_ok s then Some (s, w)
             else Some (s, w\<lparr>w_buf := AB_Size 0 (w_buf w)\<rparr>)))"

definition WriteUnbuffered :: "'f WritableFile_vt \<Rightarrow> 'f WritableFileWriter \<Rightarrow> 'f wresult" where
  "WriteUnbuffered vt w =
     (if w_use_os_buffer w then None
      else
        (let alignment = ab_alignment (w_buf w)
         in if w_next_write_offset w mod alignment \<noteq> 0 then None
            else do {
              file_advance \<leftarrow> TruncateToPageBoundary alignment (AB_CurrentSize (w_buf w));
              let leftover_tail = AB_CurrentSize (w_buf w) - file_advance;
              buf \<leftarrow> AB_PadToAlignmentWith 0 (w_buf w);
              let w = w\<lparr>w_buf := buf\<rparr>;
              let src = ab_data (w_buf w);
              if src = [] then
                Some (Status_OK, w\<lparr>w_buf := AB_RefitTail file_advance leftover_tail (w_buf w),
                                   w_next_write_offset := w_next_write_offset w + file_advance\<rparr>)
              else do {
                (s, w) \<leftarrow> call_file (wf_PositionedAppend vt src (w_next_write_offset w)) w;
                if \<not> Status_ok s then
                  Some (s, w\<lparr>w_buf := AB_Size (file_advance + leftover_tail) (w_buf w)\<rparr>)
                else if w_next_write_offset w mod alignment \<noteq> 0 then None
                else
                  Some (s, w\<lparr>w_buf := AB_RefitTail file_advance leftover_tail (w_buf w),
                             w_next_write_offset := w_next_write_offset w + file_advance\<rparr>)
              }
            }))"

definition RangeSync :: "'f WritableFile_vt \<Rightarrow> nat \<Rightarrow> nat \<Rightarrow> 'f WritableFileWriter \<Rightarrow> 'f wresult" where
  "RangeSync vt offset nbytes w = on_file (wf_RangeSync vt offset nbytes) w"

definition SyncInternal :: "'f WritableFile_vt \<Rightarrow> bool \<Rightarrow> 'f WritableFileWriter \<Rightarrow> 'f wresult" where
  "SyncInternal vt use_fsync w = (if use_fsync then call_file (wf_Fsync vt) w else call_file (wf_Sync vt) w)"

definition kBytesNotSyncRange :: nat where
  "kBytesNotSyncRange = 1024 * 1024"

definition kBytesAlignWhenSync :: nat where
  "kBytesAlignWhenSync = 4 * 1024"

definition Flush_write :: "'f WritableFile_vt \<Rightarrow> 'f WritableFileWriter \<Rightarrow> 'f wresult" where
  "Flush_write vt w =
     (if AB_CurrentSize (w_buf w) > 0 then
        (if w_use_os_buffer w then WriteBuffered vt (ab_data (w_buf w)) w else WriteUnbuffered vt w)
      else Some (Status_OK, w))"

definition Flush_range_sync :: "'f WritableFile_vt \<Rightarrow> Status \<Rightarrow> 'f WritableFileWriter \<Rightarrow> 'f wresult" where
  "Flush_range_sync vt s w =
     (if \<not> w_direct_io w \<and> w_bytes_per_sync w \<noteq> 0 \<and> w_filesize w > kBytesNotSyncRange then
        (let offset_sync_to = w_filesize w - kBytesNotSyncRange;
             offset_sync_to = offset_sync_to - offset_sync_to mod kBytesAlignWhenSync
         in if \<not> offset_sync_to \<ge> w_last_sync_size w then None
            else if offset_sync_to > 0 \<and> offset_sync_to - w_last_sync_size w \<ge> w_bytes_per_sync w then
              (case RangeSync vt (w_last_sync_size w) (offset_sync_to - w_last_sync_size w) w of
                 None \<Rightarrow> None
               | Some (s, w) \<Rightarrow> Some (s, w\<lparr>w_last_sync_size := offset_sync_to\<rparr>))
            else Some (s, w))
      else Some (s, w))"

definition WFW_Flush :: "'f WritableFile_vt \<Rightarrow> 'f WritableFileWriter \<Rightarrow> 'f wresult" where
  "WFW_Flush vt w =
     (case Flush_write vt w of
        None \<Rightarrow> None
      | Some (s, w) \<Rightarrow>
          if \<not> Status_ok s then Some (s, w)
          else
            (case on_file (wf_Flush vt) w of
               None \<Rightarrow> None
             | Some (s, w) \<Rightarrow>
                 if \<not> Status_ok s then Some (s, w) else Flush_range_sync vt s w))"

text \<open>The doubling of the buffer, the same four lines in both places of \<open>Append\<close>.\<close>

definition grow_buffer :: "'f WritableFileWriter \<Rightarrow> 'f WritableFileWriter option" where
  "grow_buffer w =
     (if ab_capacity (w_buf w) < w_max_buffer_size w then
        (let desiredCapacity = ab_capacity (w_buf w) * 2;
             desiredCapacity = min desiredCapacity (w_max_buffer_size w)
         in map_option (\<lambda>buf. w\<lparr>w_buf := buf\<rparr>) (AllocateNewBuffer desiredCapacity (w_buf w)))
      else Some w)"

partial_function (option) Append_loop ::
    "'f WritableFile_vt \<Rightarrow> bytes \<Rightarrow> Status \<Rightarrow> 'f WritableFileWriter \<Rightarrow> 'f wresult" where
  "Append_loop vt src s w =
     (if src = [] then Some (s, w)
      else
        (let (appended, buf) = AB_Append src (w_buf w);
             w = w\<lparr>w_buf := buf\<rparr>;
             src = drop appended src
         in if src \<noteq> [] then
              (case WFW_Flush vt w of
                 None \<Rightarrow> None
               | Some (s, w) \<Rightarrow>
                   if \<not> Status_ok s then Some (s, w)
                   else
                     (case grow_buffer w of
                        None \<Rightarrow> None
                      | Some w \<Rightarrow> Append_loop vt src s w))
            else Append_loop vt src s w))"

text \<open>The part before the copy: \<open>Inl\<close> is the early return with a failed status.\<close>

definition grow_empty_buffer :: "'f WritableFileWriter \<Rightarrow> 'f WritableFileWriter option" where
  "grow_empty_buffer w =
     (case grow_buffer w of
        None \<Rightarrow> None
      | Some w \<Rightarrow> if AB_CurrentSize (w_buf w) \<noteq> 0 then None else Some w)"

definition Append_make_room ::
    "'f WritableFile_vt \<Rightarrow> nat \<Rightarrow> 'f WritableFileWriter \<Rightarrow>
     ((Status \<times> 'f WritableFileWriter) + (Status \<times> 'f WritableFileWriter)) option" where
  "Append_make_room vt left w =
     (if w_use_os_buffer w \<and> ab_capacity (w_buf w) - AB_CurrentSize (w_buf w) < left then
        (if AB_CurrentSize (w_buf w) > 0 then
           (case WFW_Flush vt w of
              None \<Rightarrow> None
            | Some (s, w) \<Rightarrow>
                if \<not> Status_ok s then Some (Inl (s, w))
                else map_option (\<lambda>w. Inr (s, w)) (grow_empty_buffer w))
         else map_option (\<lambda>w. Inr (Status_OK, w)) (grow_empty_buffer w))
      else Some (Inr (Status_OK, w)))"

definition WFW_Append :: "'f WritableFile_vt \<Rightarrow> slice \<Rightarrow> 'f WritableFileWriter \<Rightarrow> 'f wresult" where
  "WFW_Append vt data w =
     (let w = w\<lparr>w_pending_sync := True\<rparr>
      in case on_file (\<lambda>f. ((), wf_PrepareWrite vt (w_filesize w) (Slice_size data) f)) w of
           None \<Rightarrow> None
         | Some (_, w) \<Rightarrow>
             (case Append_make_room vt (Slice_size data) w of
                None \<Rightarrow> None
              | Some (Inl r) \<Rightarrow> Some r
              | Some (Inr (s, w)) \<Rightarrow>
                  (case (if \<not> w_use_os_buffer w \<or> ab_capacity (w_buf w) \<ge> Slice_size data
                         then Append_loop vt data s w
                         else if AB_CurrentSize (w_buf w) \<noteq> 0 then None
                         else WriteBuffered vt data w) of
                     None \<Rightarrow> None
                   | Some (s, w) \<Rightarrow>
                       Some (s, if Status_ok s then w\<lparr>w_filesize := w_filesize w + Slice_size data\<rparr>
                                else w))))"

definition WFW_Close :: "'f WritableFile_vt \<Rightarrow> 'f WritableFileWriter \<Rightarrow> 'f wresult" where
  "WFW_Close vt w =
     (case w_file w of
        None \<Rightarrow> Some (Status_OK, w)
      | Some _ \<Rightarrow>
          (case WFW_Flush vt w of
             None \<Rightarrow> None
           | Some (s, w) \<Rightarrow>
               (case on_file (wf_Truncate vt (w_filesize w)) w of
                  None \<Rightarrow> None
                | Some (interim, w) \<Rightarrow>
                    (let s = (if \<not> Status_ok interim \<and> Status_ok s then interim else s)
                     in case on_file (wf_Close vt) w of
                          None \<Rightarrow> None
                        | Some (interim, w) \<Rightarrow>
                            (let s = (if \<not> Status_ok interim \<and> Status_ok s then interim else s)
                             in Some (s, w\<lparr>w_file := None\<rparr>))))))"

definition WFW_Sync :: "'f WritableFile_vt \<Rightarrow> bool \<Rightarrow> 'f WritableFileWriter \<Rightarrow> 'f wresult" where
  "WFW_Sync vt use_fsync w =
     (case WFW_Flush vt w of
        None \<Rightarrow> None
      | Some (s, w) \<Rightarrow>
          if \<not> Status_ok s then Some (s, w)
          else if \<not> w_direct_io w \<and> w_pending_sync w then
            (case SyncInternal vt use_fsync w of
               None \<Rightarrow> None
             | Some (s, w) \<Rightarrow>
                 if \<not> Status_ok s then Some (s, w)
                 else Some (Status_OK, w\<lparr>w_pending_sync := False\<rparr>))
          else Some (Status_OK, w\<lparr>w_pending_sync := False\<rparr>))"

definition SyncWithoutFlush :: "'f WritableFile_vt \<Rightarrow> bool \<Rightarrow> 'f WritableFileWriter \<Rightarrow> 'f wresult" where
  "SyncWithoutFlush vt use_fsync w =
     (case w_file w of
        None \<Rightarrow> None
      | Some f \<Rightarrow>
          if \<not> wf_IsSyncThreadSafe vt f then
            Some (Status_NotSupported
              (cstr ''Can't WritableFileWriter::SyncWithoutFlush() because WritableFile::IsSyncThreadSafe() is false'')
              [], w)
          else SyncInternal vt use_fsync w)"

definition WFW_InvalidateCache :: "'f WritableFile_vt \<Rightarrow> nat \<Rightarrow> nat \<Rightarrow> 'f WritableFileWriter \<Rightarrow> 'f wresult" where
  "WFW_InvalidateCache vt offset len w = on_file (wf_InvalidateCache vt offset len) w"

lemma on_file_eq: "on_file op w =
     (case w_file w of
        None \<Rightarrow> None
      | Some f \<Rightarrow> (let (r, f') = op f in Some (r, w\<lparr>w_file := Some f'\<rparr>)))"
  by (simp add: on_file_def call_file_def split: option.splits prod.splits)

subsection \<open>Well-formed writers\<close>

definition sync_target :: "'f WritableFileWriter \<Rightarrow> nat" where
  "sync_target w =
     (let offset_sync_to = w_filesize w - kBytesNotSyncRange
      in offset_sync_to - offset_sync_to mod kBytesAlignWhenSync)"

definition wfw_base :: "'f WritableFileWriter \<Rightarrow> bool" where
  "wfw_base w \<longleftrightarrow> w_file w \<noteq> None \<and> AB_wf (w_buf w) \<and> 65536 \<le> ab_capacity (w_buf w) \<and>
     w_last_sync_size w \<le> sync_target w"

text \<open>Room for a few more bytes without any call on the file.\<close>

definition has_room :: "'f WritableFileWriter \<Rightarrow> bool" where
  "has_room w \<longleftrightarrow> AB_CurrentSize (w_buf w) + 32768 \<le> ab_capacity (w_buf w)"

definition buffered_inv :: "('f \<Rightarrow> bool) \<Rightarrow> 'f WritableFileWriter \<Rightarrow> bool" where
  "buffered_inv healthy w \<longleftrightarrow> wfw_base w \<and> w_use_os_buffer w \<and> healthy (the (w_file w))"

definition buffered_contents :: "('f \<Rightarrow> bytes) \<Rightarrow> 'f WritableFileWriter \<Rightarrow> bytes" where
  "buffered_contents contents w = contents (the (w_file w)) @ ab_data (w_buf w)"

definition unbuffered_inv ::
    "nat \<Rightarrow> ('f \<Rightarrow> bytes) \<Rightarrow> ('f \<Rightarrow> bool) \<Rightarrow> 'f WritableFileWriter \<Rightarrow> bool" where
  "unbuffered_inv alignment contents healthy w \<longleftrightarrow>
     wfw_base w \<and> \<not> w_use_os_buffer w \<and> healthy (the (w_file w)) \<and>
     ab_alignment (w_buf w) = alignment \<and> alignment \<le> 32768 \<and>
     alignment dvd w_next_write_offset w \<and>
     w_next_write_offset w \<le> length (contents (the (w_file w)))"

text \<open>After a flush: room in the buffer, and all bytes accepted so far are in the file.\<close>

definition flushed_to ::
    "('f \<Rightarrow> bytes) \<Rightarrow> ('f WritableFileWriter \<Rightarrow> bytes) \<Rightarrow> 'f WritableFileWriter \<Rightarrow> bool" where
  "flushed_to contents logical w \<longleftrightarrow>
     has_room w \<and> logical w = take (length (logical w)) (contents (the (w_file w)))"

definition unbuffered_contents :: "('f \<Rightarrow> bytes) \<Rightarrow> 'f WritableFileWriter \<Rightarrow> bytes" where
  "unbuffered_contents contents w =
     take (w_next_write_offset w) (contents (the (w_file w))) @ ab_data (w_buf w)"

lemma sync_target_mono: "w_filesize w \<le> w_filesize w' \<Longrightarrow> sync_target w \<le> sync_target w'"
proof -
  have "a - a mod n \<le> b - b mod n" if "a \<le> b" for a b n :: nat
    using that by (simp add: minus_mod_eq_div_mult div_le_mono)
  then show "w_filesize w \<le> w_filesize w' \<Longrightarrow> sync_target w \<le> sync_target w'"
    by (simp add: sync_target_def Let_def del: diff_diff_left)
qed

lemma wfw_base_simps [simp]:
  "sync_target (w\<lparr>w_file := f\<rparr>) = sync_target w"
  "sync_target (w\<lparr>w_buf := b\<rparr>) = sync_target w"
  "sync_target (w\<lparr>w_next_write_offset := n\<rparr>) = sync_target w"
  "sync_target (w\<lparr>w_last_sync_size := n\<rparr>) = sync_target w"
  "sync_target (w\<lparr>w_pending_sync := p\<rparr>) = sync_target w"
  by (simp_all add: sync_target_def)

lemma grow_buffer_ok:
  assumes "wfw_base w"
  shows "\<exists>b. grow_buffer w = Some (w\<lparr>w_buf := b\<rparr>) \<and> wfw_base (w\<lparr>w_buf := b\<rparr>) \<and>
           ab_alignment b = ab_alignment (w_buf w) \<and> (ab_data (w_buf w) = [] \<longrightarrow> ab_data b = [])"
proof (cases "ab_capacity (w_buf w) < w_max_buffer_size w")
  case True
  let ?n = "min (ab_capacity (w_buf w) * 2) (w_max_buffer_size w)"
  have "power_of_two (ab_alignment (w_buf w))" "65536 \<le> ?n" "0 < ?n"
    using assms True by (auto simp: wfw_base_def AB_wf_def)
  from AB_wf_Allocate [OF this(1,3)] this(2) True assms show ?thesis
    by (auto simp: grow_buffer_def Let_def wfw_base_def)
next
  case False
  with assms show ?thesis by (auto simp: grow_buffer_def intro!: exI [of _ "w_buf w"])
qed

lemma wfw_base_filesize: "wfw_base w \<Longrightarrow> wfw_base (w\<lparr>w_filesize := w_filesize w + n\<rparr>)"
  using sync_target_mono [of w "w\<lparr>w_filesize := w_filesize w + n\<rparr>"] by (simp add: wfw_base_def)

lemma on_file_buf: "on_file op w = Some (r, w') \<Longrightarrow> w_buf w' = w_buf w"
  by (auto simp: on_file_eq split: option.splits prod.splits)

subsection \<open>Appending over any flushing discipline\<close>

text \<open>
  What \<open>Append\<close> needs of \<open>Flush\<close>, in either mode: it returns, keeps the writer well formed,
  and on success loses nothing and empties a full buffer (any buffer, in buffered mode).
\<close>

locale flush_mode =
  fixes vt :: "'f WritableFile_vt"
    and winv :: "'f WritableFileWriter \<Rightarrow> bool"
    and logical :: "'f WritableFileWriter \<Rightarrow> bytes"
    and flushed :: "'f WritableFileWriter \<Rightarrow> bool"
    and reliable :: bool
  assumes winv_base: "winv w \<Longrightarrow> wfw_base w"
    and flushed_room: "flushed w \<Longrightarrow> has_room w"
    and flush_law:
      "winv w \<Longrightarrow> \<exists>s w'. WFW_Flush vt w = Some (s, w') \<and> winv w' \<and> w_filesize w' = w_filesize w \<and>
         w_use_os_buffer w' = w_use_os_buffer w \<and> (reliable \<longrightarrow> Status_ok s) \<and>
         (Status_ok s \<longrightarrow> logical w' = logical w \<and> flushed w' \<and>
           (w_use_os_buffer w \<or> AB_CurrentSize (w_buf w) = ab_capacity (w_buf w) \<longrightarrow>
             ab_data (w_buf w') = []))"
    and buffer_law:
      "winv w \<Longrightarrow> AB_Append src (w_buf w) = (n, b) \<Longrightarrow>
         winv (w\<lparr>w_buf := b\<rparr>) \<and> logical (w\<lparr>w_buf := b\<rparr>) = logical w @ take n src"
    and grow_law:
      "winv w \<Longrightarrow> ab_data (w_buf w) = [] \<Longrightarrow>
         \<exists>b. grow_buffer w = Some (w\<lparr>w_buf := b\<rparr>) \<and> winv (w\<lparr>w_buf := b\<rparr>) \<and>
           logical (w\<lparr>w_buf := b\<rparr>) = logical w \<and> ab_data b = []"
    and direct_law:
      "winv w \<Longrightarrow> w_use_os_buffer w \<Longrightarrow> ab_data (w_buf w) = [] \<Longrightarrow>
         \<exists>s w'. WriteBuffered vt data w = Some (s, w') \<and> winv w' \<and> w_filesize w' = w_filesize w \<and>
           (reliable \<longrightarrow> Status_ok s) \<and> (Status_ok s \<longrightarrow> logical w' = logical w @ data)"
    and size_law:
      "winv w \<Longrightarrow> winv (w\<lparr>w_filesize := w_filesize w + n\<rparr>) \<and>
         logical (w\<lparr>w_filesize := w_filesize w + n\<rparr>) = logical w"
    and prepare_law:
      "winv w \<Longrightarrow> \<exists>w'. on_file (\<lambda>f. ((), wf_PrepareWrite vt off len f)) (w\<lparr>w_pending_sync := True\<rparr>)
           = Some ((), w') \<and> winv w' \<and> logical w' = logical w \<and> w_filesize w' = w_filesize w"
begin

lemma Append_loop_law:
  assumes "winv w" and "Status_ok s"
  shows "\<exists>s' w'. Append_loop vt src s w = Some (s', w') \<and> winv w' \<and> w_filesize w' = w_filesize w \<and>
           (reliable \<longrightarrow> Status_ok s') \<and> (Status_ok s' \<longrightarrow> logical w' = logical w @ src)"
  using assms
proof (induction "2 * length src + (if AB_CurrentSize (w_buf w) = ab_capacity (w_buf w) then 1 else 0)"
    arbitrary: src s w rule: less_induct)
  case less
  show ?case
  proof (cases "src = []")
    case True
    with less.prems show ?thesis by (simp add: Append_loop.simps)
  next
    case False
    obtain n b where nb: "AB_Append src (w_buf w) = (n, b)" by (cases "AB_Append src (w_buf w)")
    let ?w = "w\<lparr>w_buf := b\<rparr>"
    from winv_base [OF less.prems(1)] have wf: "AB_wf (w_buf w)" by (simp add: wfw_base_def)
    from buffer_law [OF less.prems(1) nb]
    have w: "winv ?w" "logical ?w = logical w @ take n src" by auto
    from AB_Append_data [OF wf nb]
    have n: "n = min (length src) (ab_capacity (w_buf w) - AB_CurrentSize (w_buf w))"
      and b: "AB_CurrentSize b = AB_CurrentSize (w_buf w) + n" "ab_capacity b = ab_capacity (w_buf w)"
      using wf by (auto simp: AB_wf_def)
    show ?thesis
    proof (cases "drop n src = []")
      case True
      then show ?thesis
        using False less.prems(2) w nb
        by (simp add: Append_loop.simps [of vt src] Append_loop.simps [of vt "[]"] Let_def)
    next
      case more: False
      then have full: "AB_CurrentSize b = ab_capacity b"
        using n b wf by (auto simp: AB_wf_def)
      from flush_law [OF w(1)] obtain s1 w1 where
        fl: "WFW_Flush vt ?w = Some (s1, w1)" "winv w1" "w_filesize w1 = w_filesize w"
          "Status_ok s1 \<longrightarrow> logical w1 = logical ?w \<and> ab_data (w_buf w1) = []"
          "reliable \<longrightarrow> Status_ok s1"
        using full by auto
      show ?thesis
      proof (cases "Status_ok s1")
        case False
        with \<open>src \<noteq> []\<close> more nb fl show ?thesis
          by (simp add: Append_loop.simps [of vt src] Let_def)
      next
        case True
        with fl have empty: "ab_data (w_buf w1) = []" and log1: "logical w1 = logical ?w" by auto
        from grow_law [OF fl(2) empty] obtain c where
          g: "grow_buffer w1 = Some (w1\<lparr>w_buf := c\<rparr>)" "winv (w1\<lparr>w_buf := c\<rparr>)"
            "logical (w1\<lparr>w_buf := c\<rparr>) = logical w1" "ab_data c = []" by blast
        let ?g = "w1\<lparr>w_buf := c\<rparr>"
        have "0 < ab_capacity c"
          using winv_base [OF g(2)] by (simp add: wfw_base_def AB_wf_def)
        then have "AB_CurrentSize (w_buf ?g) \<noteq> ab_capacity (w_buf ?g)" using g(4) by simp
        moreover have "n = 0 \<Longrightarrow> AB_CurrentSize (w_buf w) = ab_capacity (w_buf w)"
          using full b by simp
        ultimately obtain s2 w2 where
          "Append_loop vt (drop n src) s1 ?g = Some (s2, w2)" "winv w2"
          "w_filesize w2 = w_filesize ?g"
          "reliable \<longrightarrow> Status_ok s2" "Status_ok s2 \<longrightarrow> logical w2 = logical ?g @ drop n src"
          using less.hyps [of "drop n src" ?g s1] g(2) True \<open>src \<noteq> []\<close> more
          by (fastforce simp: Suc_le_eq)
        then show ?thesis
          using \<open>src \<noteq> []\<close> more nb fl True w(2) log1 g(1,3)
          by (simp add: Append_loop.simps [of vt src] Let_def)
      qed
    qed
  qed
qed

lemma make_room_law:
  assumes "winv w"
  shows "(\<exists>s w'. Append_make_room vt n w = Some (Inl (s, w')) \<and> winv w' \<and> \<not> Status_ok s \<and> \<not> reliable) \<or>
         (\<exists>s w'. Append_make_room vt n w = Some (Inr (s, w')) \<and> winv w' \<and> Status_ok s \<and>
            logical w' = logical w \<and> w_filesize w' = w_filesize w \<and>
            (\<not> w_use_os_buffer w' \<or> n \<le> ab_capacity (w_buf w') \<or> ab_data (w_buf w') = []))"
proof (cases "w_use_os_buffer w \<and> ab_capacity (w_buf w) - AB_CurrentSize (w_buf w) < n")
  case room: True
  have grown: "\<exists>b. grow_empty_buffer v = Some (v\<lparr>w_buf := b\<rparr>) \<and> winv (v\<lparr>w_buf := b\<rparr>) \<and>
      logical (v\<lparr>w_buf := b\<rparr>) = logical v \<and> ab_data b = []" if "winv v" "ab_data (w_buf v) = []" for v
    using grow_law [OF that] by (auto simp: grow_empty_buffer_def)
  show ?thesis
  proof (cases "ab_data (w_buf w) = []")
    case True
    with room grown [OF assms True] show ?thesis by (auto simp: Append_make_room_def)
  next
    case False
    from flush_law [OF assms] room obtain s w' where
      w': "WFW_Flush vt w = Some (s, w')" "winv w'" "w_filesize w' = w_filesize w"
      "Status_ok s \<longrightarrow> logical w' = logical w \<and> ab_data (w_buf w') = []"
      "reliable \<longrightarrow> Status_ok s" by auto
    show ?thesis
    proof (cases "Status_ok s")
      case True
      with grown [OF w'(2)] w' False room show ?thesis by (auto simp: Append_make_room_def)
    qed (use w' False room in \<open>auto simp: Append_make_room_def\<close>)
  qed
next
  case False
  with assms show ?thesis by (auto simp: Append_make_room_def)
qed

lemma writer_Append_law:
  assumes "winv w"
  shows "\<exists>s w'. WFW_Append vt data w = Some (s, w') \<and> winv w' \<and> (reliable \<longrightarrow> Status_ok s) \<and>
           (Status_ok s \<longrightarrow> logical w' = logical w @ data \<and> w_filesize w' = w_filesize w + length data)"
proof -
  from prepare_law [OF assms] obtain w0 where
    w0: "on_file (\<lambda>f. ((), wf_PrepareWrite vt (w_filesize w) (Slice_size data) f))
           (w\<lparr>w_pending_sync := True\<rparr>) = Some ((), w0)"
      "winv w0" "logical w0 = logical w" "w_filesize w0 = w_filesize w" by metis
  from make_room_law [OF w0(2), of "Slice_size data"]
  consider (failed) s w' where "Append_make_room vt (Slice_size data) w0 = Some (Inl (s, w'))"
      "winv w'" "\<not> Status_ok s" "\<not> reliable"
    | (room) s w1 where "Append_make_room vt (Slice_size data) w0 = Some (Inr (s, w1))"
      "winv w1" "Status_ok s" "logical w1 = logical w0" "w_filesize w1 = w_filesize w0"
      "\<not> w_use_os_buffer w1 \<or> Slice_size data \<le> ab_capacity (w_buf w1) \<or> ab_data (w_buf w1) = []"
    by blast
  then show ?thesis
  proof cases
    case failed
    with w0 show ?thesis by (simp add: WFW_Append_def)
  next
    case room
    have "\<exists>s' w2. (if \<not> w_use_os_buffer w1 \<or> ab_capacity (w_buf w1) \<ge> Slice_size data
                 then Append_loop vt data s w1
                 else if AB_CurrentSize (w_buf w1) \<noteq> 0 then None else WriteBuffered vt data w1) = Some (s', w2) \<and>
          winv w2 \<and> w_filesize w2 = w_filesize w1 \<and> (reliable \<longrightarrow> Status_ok s') \<and>
          (Status_ok s' \<longrightarrow> logical w2 = logical w1 @ data)"
      using Append_loop_law [OF room(2,3), of data] direct_law [OF room(2), of data] room(6) by auto
    then obtain s' w2 where
      "(if \<not> w_use_os_buffer w1 \<or> ab_capacity (w_buf w1) \<ge> Slice_size data
        then Append_loop vt data s w1
                 else if AB_CurrentSize (w_buf w1) \<noteq> 0 then None else WriteBuffered vt data w1) = Some (s', w2)"
      "winv w2" "w_filesize w2 = w_filesize w1" "reliable \<longrightarrow> Status_ok s'"
      "Status_ok s' \<longrightarrow> logical w2 = logical w1 @ data"
      by blast
    with w0 room(1,4,5) size_law [of w2 "Slice_size data"] show ?thesis
      by (simp add: WFW_Append_def Slice_size_def)
  qed
qed

text \<open>With room in the buffer nothing can fail: the bytes are copied.\<close>

lemma small_Append_law:
  assumes "winv w" and "has_room w" and "length data \<le> 32768"
  shows "\<exists>w'. WFW_Append vt data w = Some (Status_OK, w') \<and> winv w' \<and> logical w' = logical w @ data \<and>
           w_filesize w' = w_filesize w + length data"
proof -
  from prepare_law [OF assms(1)] obtain w0 where
    w0: "on_file (\<lambda>f. ((), wf_PrepareWrite vt (w_filesize w) (Slice_size data) f))
           (w\<lparr>w_pending_sync := True\<rparr>) = Some ((), w0)"
      "winv w0" "logical w0 = logical w" "w_filesize w0 = w_filesize w" by metis
  have buf: "w_buf w0 = w_buf w" using on_file_buf [OF w0(1)] by simp
  obtain n b where nb: "AB_Append data (w_buf w0) = (n, b)" by (cases "AB_Append data (w_buf w0)")
  have "AB_wf (w_buf w0)" using winv_base [OF w0(2)] by (simp add: wfw_base_def)
  from AB_Append_data [OF this nb] have n: "n = length data"
    using assms(2,3) buf by (simp add: has_room_def)
  then have "Append_loop vt data Status_OK w0 = Some (Status_OK, if data = [] then w0 else w0\<lparr>w_buf := b\<rparr>)"
    using nb by (auto simp: Append_loop.simps [of vt data] Append_loop.simps [of vt "[]"] Let_def)
  moreover have "winv (if data = [] then w0 else w0\<lparr>w_buf := b\<rparr>) \<and>
      logical (if data = [] then w0 else w0\<lparr>w_buf := b\<rparr>) = logical w0 @ data"
    using buffer_law [OF w0(2) nb] n w0(2) by simp
  ultimately show ?thesis
    using w0 assms(2,3) buf size_law [of "if data = [] then w0 else w0\<lparr>w_buf := b\<rparr>" "length data"]
    by (auto simp: WFW_Append_def Append_make_room_def has_room_def Slice_size_def)
qed

end

subsection \<open>The file operations that keep the contents\<close>

context frame_file
begin

text \<open>Which parts of a writer the last two steps of \<open>Flush\<close> can change.\<close>

lemma Flush_tail_law:
  assumes "wfw_base w" and "healthy (the (w_file w))"
  shows "\<exists>s w'. (case on_file (wf_Flush vt) w of None \<Rightarrow> None
           | Some (s, w) \<Rightarrow> if \<not> Status_ok s then Some (s, w) else Flush_range_sync vt s w)
           = Some (s, w') \<and> wfw_base w' \<and> healthy (the (w_file w')) \<and>
           contents (the (w_file w')) = contents (the (w_file w)) \<and> (reliable \<longrightarrow> Status_ok s) \<and>
           (\<exists>f n. w' = w\<lparr>w_file := f, w_last_sync_size := n\<rparr>)"
proof -
  from assms obtain f where f: "w_file w = Some f" by (auto simp: wfw_base_def)
  obtain s1 f1 where fl: "wf_Flush vt f = (s1, f1)" by (cases "wf_Flush vt f")
  let ?w1 = "w\<lparr>w_file := Some f1\<rparr>"
  obtain s2 f2 where rs: "wf_RangeSync vt (w_last_sync_size w) (sync_target w - w_last_sync_size w) f1
      = (s2, f2)" by fastforce
  have h1: "healthy f1 \<and> contents f1 = contents f \<and> (reliable \<longrightarrow> Status_ok s1)"
    using Flush_frame [OF _ fl] assms(2) f by simp
  have h2: "healthy f2 \<and> contents f2 = contents f \<and> (reliable \<longrightarrow> Status_ok s2)"
    using RangeSync_frame [OF _ rs] h1 by simp
  have "w = w\<lparr>w_file := Some f, w_last_sync_size := w_last_sync_size w\<rparr>"
    using f by simp
  then have parts: "\<exists>f' n. ?w1 = w\<lparr>w_file := f', w_last_sync_size := n\<rparr>"
    by (intro exI [of _ "Some f1"] exI [of _ "w_last_sync_size w"]) simp
  show ?thesis
  proof (cases "Status_ok s1 \<and> \<not> w_direct_io w \<and> w_bytes_per_sync w \<noteq> 0 \<and>
      kBytesNotSyncRange < w_filesize w \<and> 0 < sync_target w \<and>
      w_bytes_per_sync w \<le> sync_target w - w_last_sync_size w")
    case True
    then have "(case on_file (wf_Flush vt) w of None \<Rightarrow> None
        | Some (s, w) \<Rightarrow> if \<not> Status_ok s then Some (s, w) else Flush_range_sync vt s w)
        = Some (s2, w\<lparr>w_file := Some f2, w_last_sync_size := sync_target w\<rparr>)"
      using fl rs f assms(1)
      by (simp add: on_file_eq Flush_range_sync_def wfw_base_def RangeSync_def sync_target_def Let_def
          del: diff_diff_left)
    then show ?thesis using h2 f assms(1) by (auto simp: wfw_base_def)
  next
    case False
    then have "(case on_file (wf_Flush vt) w of None \<Rightarrow> None
        | Some (s, w) \<Rightarrow> if \<not> Status_ok s then Some (s, w) else Flush_range_sync vt s w)
        = Some (s1, ?w1)"
      using fl f assms(1)
      by (auto simp: on_file_eq Flush_range_sync_def wfw_base_def sync_target_def Let_def
          simp del: diff_diff_left)
    then show ?thesis using h1 f assms(1) parts by (auto simp: wfw_base_def)
  qed
qed

lemma Prepare_law:
  assumes "wfw_base w" and "healthy (the (w_file w))"
  shows "\<exists>f'. on_file (\<lambda>f. ((), wf_PrepareWrite vt off len f)) (w\<lparr>w_pending_sync := True\<rparr>)
           = Some ((), w\<lparr>w_pending_sync := True, w_file := Some f'\<rparr>) \<and> healthy f' \<and>
           contents f' = contents (the (w_file w))"
  using assms PrepareWrite_frame by (auto simp: on_file_eq wfw_base_def)

end

subsection \<open>Buffered mode\<close>

context append_file
begin

lemma WriteBuffered_law:
  assumes "buffered_inv healthy w"
  shows "\<exists>s w'. WriteBuffered vt data w = Some (s, w') \<and> buffered_inv healthy w' \<and>
           w_filesize w' = w_filesize w \<and> (reliable \<longrightarrow> Status_ok s) \<and>
           (Status_ok s \<longrightarrow> contents (the (w_file w')) = contents (the (w_file w)) @ data \<and>
              ab_data (w_buf w') = [])"
proof (cases "data = []")
  case True
  with assms show ?thesis
    by (simp add: WriteBuffered_def buffered_inv_def wfw_base_def AB_wf_Size)
       (simp add: AB_Size_def)
next
  case False
  from assms obtain f where f: "w_file w = Some f" "healthy f"
    by (auto simp: buffered_inv_def wfw_base_def)
  from Append_law [OF f(2), of data] obtain s f' where ap: "wf_Append vt data f = Some (s, f')"
    and "healthy f'" "Status_ok s \<longrightarrow> contents f' = contents f @ data" "reliable \<longrightarrow> Status_ok s" by auto
  with False f ap assms show ?thesis
    by (auto simp: WriteBuffered_def call_file_def buffered_inv_def wfw_base_def AB_wf_Size)
       (simp_all add: AB_Size_def)
qed

lemma buffered_Flush_law:
  assumes "buffered_inv healthy w"
  shows "\<exists>s w'. WFW_Flush vt w = Some (s, w') \<and> buffered_inv healthy w' \<and>
           w_filesize w' = w_filesize w \<and> (reliable \<longrightarrow> Status_ok s) \<and>
           (Status_ok s \<longrightarrow> contents (the (w_file w')) = buffered_contents contents w \<and>
              ab_data (w_buf w') = [])"
proof -
  have "\<exists>s w'. Flush_write vt w = Some (s, w') \<and> buffered_inv healthy w' \<and>
      w_filesize w' = w_filesize w \<and> (reliable \<longrightarrow> Status_ok s) \<and>
      (Status_ok s \<longrightarrow> contents (the (w_file w')) = buffered_contents contents w \<and>
        ab_data (w_buf w') = [])"
    using assms WriteBuffered_law [OF assms, of "ab_data (w_buf w)"]
    by (auto simp: Flush_write_def buffered_inv_def buffered_contents_def)
  then obtain s1 w1 where w1: "Flush_write vt w = Some (s1, w1)" "buffered_inv healthy w1"
      "w_filesize w1 = w_filesize w" "reliable \<longrightarrow> Status_ok s1"
      "Status_ok s1 \<longrightarrow> contents (the (w_file w1)) = buffered_contents contents w \<and>
        ab_data (w_buf w1) = []" by blast
  show ?thesis
  proof (cases "Status_ok s1")
    case True
    from w1(2) have "wfw_base w1" "healthy (the (w_file w1))" by (auto simp: buffered_inv_def)
    from Flush_tail_law [OF this] w1 True show ?thesis
      by (auto simp: WFW_Flush_def buffered_inv_def)
  next
    case False
    with w1 show ?thesis by (simp add: WFW_Flush_def)
  qed
qed

end

sublocale append_file \<subseteq> buffered: flush_mode vt "buffered_inv healthy" "buffered_contents contents"
  "flushed_to contents (buffered_contents contents)" reliable
proof unfold_locales
  fix w :: "'a WritableFileWriter" and n off len :: nat and src data :: bytes and b
  assume inv: "buffered_inv healthy w"
  then have base: "wfw_base w" "w_use_os_buffer w" "healthy (the (w_file w))"
    by (auto simp: buffered_inv_def)
  show "wfw_base w" by (rule base)
  show "\<exists>s w'. WFW_Flush vt w = Some (s, w') \<and> buffered_inv healthy w' \<and>
      w_filesize w' = w_filesize w \<and> w_use_os_buffer w' = w_use_os_buffer w \<and> (reliable \<longrightarrow> Status_ok s) \<and>
      (Status_ok s \<longrightarrow> buffered_contents contents w' = buffered_contents contents w \<and>
        flushed_to contents (buffered_contents contents) w' \<and>
        (w_use_os_buffer w \<or> AB_CurrentSize (w_buf w) = ab_capacity (w_buf w) \<longrightarrow>
          ab_data (w_buf w') = []))"
    using buffered_Flush_law [OF inv] base(2)
    by (auto simp: buffered_contents_def buffered_inv_def flushed_to_def has_room_def wfw_base_def)
  show "buffered_inv healthy (w\<lparr>w_buf := b\<rparr>) \<and>
      buffered_contents contents (w\<lparr>w_buf := b\<rparr>) = buffered_contents contents w @ take n src"
    if "AB_Append src (w_buf w) = (n, b)"
    using that inv AB_wf_Append [of "w_buf w" src] AB_Append_data [of "w_buf w" src]
    by (auto simp: buffered_inv_def buffered_contents_def wfw_base_def)
  show "\<exists>b. grow_buffer w = Some (w\<lparr>w_buf := b\<rparr>) \<and> buffered_inv healthy (w\<lparr>w_buf := b\<rparr>) \<and>
      buffered_contents contents (w\<lparr>w_buf := b\<rparr>) = buffered_contents contents w \<and> ab_data b = []"
    if "ab_data (w_buf w) = []"
    using that inv grow_buffer_ok [OF base(1)]
    by (auto simp: buffered_inv_def buffered_contents_def)
  show "\<exists>s w'. WriteBuffered vt data w = Some (s, w') \<and> buffered_inv healthy w' \<and>
      w_filesize w' = w_filesize w \<and> (reliable \<longrightarrow> Status_ok s) \<and>
      (Status_ok s \<longrightarrow> buffered_contents contents w' = buffered_contents contents w @ data)"
    if "w_use_os_buffer w" "ab_data (w_buf w) = []"
    using WriteBuffered_law [OF inv, of data] that by (auto simp: buffered_contents_def)
  show "buffered_inv healthy (w\<lparr>w_filesize := w_filesize w + n\<rparr>) \<and>
      buffered_contents contents (w\<lparr>w_filesize := w_filesize w + n\<rparr>) = buffered_contents contents w"
    using inv wfw_base_filesize [OF base(1)] by (auto simp: buffered_inv_def buffered_contents_def)
  show "\<exists>w'. on_file (\<lambda>f. ((), wf_PrepareWrite vt off len f)) (w\<lparr>w_pending_sync := True\<rparr>)
        = Some ((), w') \<and> buffered_inv healthy w' \<and>
      buffered_contents contents w' = buffered_contents contents w \<and> w_filesize w' = w_filesize w"
    using Prepare_law [OF base(1,3), of off len] inv
    by (auto simp: buffered_inv_def buffered_contents_def wfw_base_def)
qed (simp add: flushed_to_def)

subsection \<open>Unbuffered mode\<close>

text \<open>The whole units of a buffer and what is left behind them.\<close>

lemma truncate_split:
  assumes "AB_wf b"
  obtains adv where "TruncateToPageBoundary (ab_alignment b) (AB_CurrentSize b) = Some adv"
    "adv \<le> AB_CurrentSize b" "ab_alignment b dvd adv" "AB_CurrentSize b - adv < ab_alignment b"
    "AB_CurrentSize b = ab_capacity b \<Longrightarrow> adv = AB_CurrentSize b"
proof
  show "TruncateToPageBoundary (ab_alignment b) (AB_CurrentSize b) = Some (AB_CurrentSize b - AB_CurrentSize b mod ab_alignment b)"
    using assms by (simp add: AB_wf_def TruncateToPageBoundary_eq)
qed (use assms in \<open>auto simp: AB_wf_def power_of_two_pos\<close>)

context positioned_file
begin

lemma WriteUnbuffered_law:
  assumes inv: "unbuffered_inv alignment contents healthy w" and "ab_data (w_buf w) \<noteq> []"
  shows "\<exists>s w'. WriteUnbuffered vt w = Some (s, w') \<and> unbuffered_inv alignment contents healthy w' \<and>
           w_filesize w' = w_filesize w \<and>
           (Status_ok s \<longrightarrow> unbuffered_contents contents w' = unbuffered_contents contents w \<and>
              flushed_to contents (unbuffered_contents contents) w' \<and>
              (AB_CurrentSize (w_buf w) = ab_capacity (w_buf w) \<longrightarrow> ab_data (w_buf w') = []))"
proof -
  from inv obtain f where f: "w_file w = Some f" "healthy f" and wf: "AB_wf (w_buf w)"
    and off: "w_next_write_offset w \<le> length (contents f)" and al: "ab_alignment (w_buf w) = alignment"
    and dvd: "alignment dvd w_next_write_offset w" and mode: "\<not> w_use_os_buffer w"
    by (auto simp: unbuffered_inv_def wfw_base_def)
  let ?data = "ab_data (w_buf w)" and ?off = "w_next_write_offset w"
  obtain adv where trunc: "TruncateToPageBoundary alignment (length ?data) = Some adv"
    and adv: "adv \<le> length ?data" "alignment dvd adv" "length ?data = ab_capacity (w_buf w) \<Longrightarrow> adv = length ?data"
    and tail_size: "length ?data - adv < alignment"
    using truncate_split [OF wf] al by metis
  from AB_wf_Pad [OF wf, of 0] obtain pad z where pad: "AB_PadToAlignmentWith 0 (w_buf w) = Some pad" "AB_wf pad"
    and z: "ab_data pad = ?data @ z" "ab_alignment pad = alignment" "ab_capacity pad = ab_capacity (w_buf w)"
      "alignment dvd length (?data @ z)"
    using al by auto
  from PositionedAppend_law [OF f(2) off dvd z(4)] obtain s f' k where
    ap: "wf_PositionedAppend vt (?data @ z) ?off f = Some (s, f')" and
    k: "healthy f'" "contents f' = overwrite (contents f) ?off (take k (?data @ z))"
      "Status_ok s \<longrightarrow> k = length (?data @ z)" by blast
  have len: "length (contents f) \<le> length (contents f')"
    and same: "take ?off (contents f') = take ?off (contents f)"
    using off k(2) by (simp_all add: length_overwrite take_overwrite)
  have zero: "?off mod alignment = 0" using dvd by simp
  note run = WriteUnbuffered_def call_file_def Let_def al trunc pad(1) z(1) zero mode f(1) ap
  show ?thesis
  proof (cases "Status_ok s")
    case False
    let ?w = "w\<lparr>w_file := Some f', w_buf := AB_Size (length ?data) pad\<rparr>"
    have "WriteUnbuffered vt w = Some (s, ?w)"
      using assms(2) adv(1) False by (simp add: run)
    moreover have "unbuffered_inv alignment contents healthy ?w"
      using inv k(1) off len z pad(2)
      by (auto simp: unbuffered_inv_def wfw_base_def AB_wf_Size) (auto simp: AB_Size_def)
    ultimately show ?thesis using False by simp
  next
    case True
    let ?w = "w\<lparr>w_file := Some f', w_buf := AB_RefitTail adv (length ?data - adv) pad,
                w_next_write_offset := ?off + adv\<rparr>"
    have eq: "WriteUnbuffered vt w = Some (s, ?w)"
      using assms(2) True by (simp add: run)
    have c': "contents f' = overwrite (contents f) ?off (?data @ z)"
      using k True by simp
    have tail: "ab_data (w_buf ?w) = drop adv ?data"
      using z adv(1) by (simp add: AB_RefitTail_def)
    have "?off + adv \<le> length (contents f')"
      using adv(1) off by (simp add: c' length_overwrite)
    then have inv': "unbuffered_inv alignment contents healthy ?w"
      using inv k(1) wf adv(2) dvd z pad(2)
      by (auto simp: unbuffered_inv_def wfw_base_def AB_wf_Refit)
         (auto simp: AB_RefitTail_def)
    have "take (?off + adv) (contents f') = take ?off (contents f) @ take adv ?data"
      using adv(1) off by (simp add: c' take_overwrite_prefix)
    then have "unbuffered_contents contents ?w = unbuffered_contents contents w"
      using tail f by (simp add: unbuffered_contents_def)
    moreover have "has_room ?w"
      using inv tail z(3) tail_size adv(1)
      by (auto simp: has_room_def unbuffered_inv_def wfw_base_def AB_RefitTail_def)
    moreover have "unbuffered_contents contents w = take (?off + length ?data) (contents f')"
      using off f by (simp add: c' take_overwrite_prefix unbuffered_contents_def)
    moreover have "length (unbuffered_contents contents w) = ?off + length ?data"
      using off f by (simp add: unbuffered_contents_def)
    ultimately have "flushed_to contents (unbuffered_contents contents) ?w"
        "unbuffered_contents contents ?w = unbuffered_contents contents w"
      by (simp_all add: flushed_to_def)
    then show ?thesis using eq inv' tail adv(3) by auto
  qed
qed

lemma unbuffered_Flush_law:
  assumes inv: "unbuffered_inv alignment contents healthy w"
  shows "\<exists>s w'. WFW_Flush vt w = Some (s, w') \<and> unbuffered_inv alignment contents healthy w' \<and>
           w_filesize w' = w_filesize w \<and>
           (Status_ok s \<longrightarrow> unbuffered_contents contents w' = unbuffered_contents contents w \<and>
              flushed_to contents (unbuffered_contents contents) w' \<and>
              (AB_CurrentSize (w_buf w) = ab_capacity (w_buf w) \<longrightarrow> ab_data (w_buf w') = []))"
proof -
  have "\<exists>s w'. Flush_write vt w = Some (s, w') \<and> unbuffered_inv alignment contents healthy w' \<and>
      w_filesize w' = w_filesize w \<and>
      (Status_ok s \<longrightarrow> unbuffered_contents contents w' = unbuffered_contents contents w \<and>
              flushed_to contents (unbuffered_contents contents) w' \<and>
        (AB_CurrentSize (w_buf w) = ab_capacity (w_buf w) \<longrightarrow> ab_data (w_buf w') = []))"
    using inv WriteUnbuffered_law [OF inv]
    by (auto simp: Flush_write_def unbuffered_inv_def flushed_to_def has_room_def wfw_base_def
        unbuffered_contents_def)
  then obtain s1 w1 where w1: "Flush_write vt w = Some (s1, w1)"
      "unbuffered_inv alignment contents healthy w1" "w_filesize w1 = w_filesize w"
      "Status_ok s1 \<longrightarrow> unbuffered_contents contents w1 = unbuffered_contents contents w \<and>
        flushed_to contents (unbuffered_contents contents) w1 \<and>
        (AB_CurrentSize (w_buf w) = ab_capacity (w_buf w) \<longrightarrow> ab_data (w_buf w1) = [])" by blast
  show ?thesis
  proof (cases "Status_ok s1")
    case True
    from w1(2) have "wfw_base w1" "healthy (the (w_file w1))" by (auto simp: unbuffered_inv_def)
    from Flush_tail_law [OF this] w1 True show ?thesis
      by (auto simp: WFW_Flush_def unbuffered_inv_def unbuffered_contents_def flushed_to_def has_room_def)
  next
    case False
    with w1 show ?thesis by (simp add: WFW_Flush_def)
  qed
qed

end

sublocale positioned_file \<subseteq> unbuffered:
  flush_mode vt "unbuffered_inv alignment contents healthy" "unbuffered_contents contents"
  "flushed_to contents (unbuffered_contents contents)" False
proof unfold_locales
  fix w :: "'a WritableFileWriter" and n off len :: nat and src data :: bytes and b
  assume inv: "unbuffered_inv alignment contents healthy w"
  then have base: "wfw_base w" "\<not> w_use_os_buffer w" "healthy (the (w_file w))"
    by (auto simp: unbuffered_inv_def)
  show "wfw_base w" by (rule base)
  show "\<exists>s w'. WFW_Flush vt w = Some (s, w') \<and> unbuffered_inv alignment contents healthy w' \<and>
      w_filesize w' = w_filesize w \<and> w_use_os_buffer w' = w_use_os_buffer w \<and> (False \<longrightarrow> Status_ok s) \<and>
      (Status_ok s \<longrightarrow> unbuffered_contents contents w' = unbuffered_contents contents w \<and>
              flushed_to contents (unbuffered_contents contents) w' \<and>
        (w_use_os_buffer w \<or> AB_CurrentSize (w_buf w) = ab_capacity (w_buf w) \<longrightarrow>
          ab_data (w_buf w') = []))"
    using unbuffered_Flush_law [OF inv] base(2) by (auto simp: unbuffered_inv_def)
  show "unbuffered_inv alignment contents healthy (w\<lparr>w_buf := b\<rparr>) \<and>
      unbuffered_contents contents (w\<lparr>w_buf := b\<rparr>) = unbuffered_contents contents w @ take n src"
    if "AB_Append src (w_buf w) = (n, b)"
    using that inv AB_wf_Append [of "w_buf w" src] AB_Append_data [of "w_buf w" src]
    by (auto simp: unbuffered_inv_def unbuffered_contents_def wfw_base_def)
  show "\<exists>b. grow_buffer w = Some (w\<lparr>w_buf := b\<rparr>) \<and> unbuffered_inv alignment contents healthy (w\<lparr>w_buf := b\<rparr>) \<and>
      unbuffered_contents contents (w\<lparr>w_buf := b\<rparr>) = unbuffered_contents contents w \<and> ab_data b = []"
    if "ab_data (w_buf w) = []"
    using that inv grow_buffer_ok [OF base(1)]
    by (auto simp: unbuffered_inv_def unbuffered_contents_def)
  show "\<exists>s w'. WriteBuffered vt data w = Some (s, w') \<and> unbuffered_inv alignment contents healthy w' \<and>
      w_filesize w' = w_filesize w \<and> (False \<longrightarrow> Status_ok s) \<and>
      (Status_ok s \<longrightarrow> unbuffered_contents contents w' = unbuffered_contents contents w @ data)"
    if "w_use_os_buffer w" "ab_data (w_buf w) = []"
    using that base(2) by simp
  show "unbuffered_inv alignment contents healthy (w\<lparr>w_filesize := w_filesize w + n\<rparr>) \<and>
      unbuffered_contents contents (w\<lparr>w_filesize := w_filesize w + n\<rparr>) = unbuffered_contents contents w"
    using inv wfw_base_filesize [OF base(1)]
    by (auto simp: unbuffered_inv_def unbuffered_contents_def)
  show "\<exists>w'. on_file (\<lambda>f. ((), wf_PrepareWrite vt off len f)) (w\<lparr>w_pending_sync := True\<rparr>)
        = Some ((), w') \<and> unbuffered_inv alignment contents healthy w' \<and>
      unbuffered_contents contents w' = unbuffered_contents contents w \<and> w_filesize w' = w_filesize w"
    using Prepare_law [OF base(1,3), of off len] inv
    by (auto simp: unbuffered_inv_def unbuffered_contents_def wfw_base_def)
qed (simp add: flushed_to_def)

end
