(* ===== verification/LogWriter.thy ===== *)
theory LogWriter
  imports FileWriter
begin

text \<open>
  \<open>rutil/log_format.h\<close>, \<open>include/rocksutil/log_writer.h\<close> and \<open>rutil/log_writer.cc\<close>: the
  writer of the write-ahead log. A record is cut into fragments that fit the blocks of
  32 KiB; every fragment is a header (masked checksum, length, type and, for recycled logs,
  the low 32 bits of the log number) followed by its payload, and a block whose rest cannot
  hold a header is filled with zeros.

  The operations run on a \<open>WritableFileWriter\<close>; \<open>None\<close> stands for a failed assertion, a
  closed file or a loop that does not end. Shown, over either flushing mode: \<open>AddRecord\<close>
  never gets there, and when it reports success it has appended exactly the bytes of
  \<open>record_image\<close>, the abstract layout of a record.
\<close>

subsection \<open>The format\<close>

datatype RecordType =
    kZeroType | kFullType | kFirstType | kMiddleType | kLastType
  | kRecyclableFullType | kRecyclableFirstType | kRecyclableMiddleType | kRecyclableLastType

fun RecordType_code :: "RecordType \<Rightarrow> nat" where
  "RecordType_code kZeroType = 0"
| "RecordType_code kFullType = 1"
| "RecordType_code kFirstType = 2"
| "RecordType_code kMiddleType = 3"
| "RecordType_code kLastType = 4"
| "RecordType_code kRecyclableFullType = 5"
| "RecordType_code kRecyclableFirstType = 6"
| "RecordType_code kRecyclableMiddleType = 7"
| "RecordType_code kRecyclableLastType = 8"

definition kMaxRecordType :: nat where
  "kMaxRecordType = RecordType_code kRecyclableLastType"

definition kBlockSize :: nat where
  "kBlockSize = 32768"

definition kHeaderSize :: nat where
  "kHeaderSize = 4 + 1 + 2"

definition kRecyclableHeaderSize :: nat where
  "kRecyclableHeaderSize = 4 + 1 + 4 + 2"

subsection \<open>The writer\<close>

record 'f LogWriter =
  lw_dest :: "'f WritableFileWriter"
  lw_block_offset :: nat
  lw_log_number :: u64
  lw_recycle_log_files :: bool
  lw_type_crc :: "u32 list"

definition LogWriter_init :: "'f WritableFileWriter \<Rightarrow> u64 \<Rightarrow> bool \<Rightarrow> 'f LogWriter" where
  "LogWriter_init dest log_number recycle_log_files =
     \<lparr>lw_dest = dest, lw_block_offset = 0, lw_log_number = log_number,
      lw_recycle_log_files = recycle_log_files,
      lw_type_crc = map (\<lambda>i. crc32c_Value [of_nat i]) [0..<Suc kMaxRecordType]\<rparr>"

text \<open>One call on \<open>dest_\<close>.\<close>

definition on_dest ::
    "('f WritableFileWriter \<Rightarrow> 'f wresult) \<Rightarrow> 'f LogWriter \<Rightarrow> (Status \<times> 'f LogWriter) option" where
  "on_dest op w = map_option (\<lambda>(s, d). (s, w\<lparr>lw_dest := d\<rparr>)) (op (lw_dest w))"

definition EmitPhysicalRecord ::
    "'f WritableFile_vt \<Rightarrow> RecordType \<Rightarrow> bytes \<Rightarrow> 'f LogWriter \<Rightarrow> (Status \<times> 'f LogWriter) option" where
  "EmitPhysicalRecord vt t ptr w =
     (let n = length ptr;
          recyclable = \<not> RecordType_code t < RecordType_code kRecyclableFullType;
          header_size = (if recyclable then kRecyclableHeaderSize else kHeaderSize)
      in if \<not> n \<le> 0xffff \<or> \<not> lw_block_offset w + header_size + n \<le> kBlockSize then None
         else
           (let size_type = [of_nat (n AND 0xff), of_nat (drop_bit 8 n), of_nat (RecordType_code t)];
                crc = lw_type_crc w ! RecordType_code t;
                log_num = (if recyclable then EncodeFixed32 (ucast (lw_log_number w)) else []);
                crc = (if recyclable then Extend crc log_num else crc);
                crc = Extend crc ptr;
                crc = Mask crc;
                buf = EncodeFixed32 crc @ size_type @ log_num
            in case on_dest (WFW_Append vt buf) w of
                 None \<Rightarrow> None
               | Some (s, w) \<Rightarrow>
                   (case (if Status_ok s then
                            (case on_dest (WFW_Append vt ptr) w of
                               None \<Rightarrow> None
                             | Some (s, w) \<Rightarrow>
                                 if Status_ok s then on_dest (WFW_Flush vt) w else Some (s, w))
                          else Some (s, w)) of
                      None \<Rightarrow> None
                    | Some (s, w) \<Rightarrow>
                        Some (s, w\<lparr>lw_block_offset := lw_block_offset w + (header_size + n)\<rparr>))))"

definition fragment_type :: "bool \<Rightarrow> bool \<Rightarrow> bool \<Rightarrow> RecordType" where
  "fragment_type recycle begin_rec end_rec =
     (if begin_rec \<and> end_rec then if recycle then kRecyclableFullType else kFullType
      else if begin_rec then if recycle then kRecyclableFirstType else kFirstType
      else if end_rec then if recycle then kRecyclableLastType else kLastType
      else if recycle then kRecyclableMiddleType else kMiddleType)"

definition log_header_size :: "bool \<Rightarrow> nat" where
  "log_header_size recycle = (if recycle then kRecyclableHeaderSize else kHeaderSize)"

text \<open>The switch to a new block; the status of the padding is not looked at.\<close>

definition switch_block :: "'f WritableFile_vt \<Rightarrow> 'f LogWriter \<Rightarrow> 'f LogWriter option" where
  "switch_block vt w =
     (let header_size = log_header_size (lw_recycle_log_files w);
          leftover = int kBlockSize - int (lw_block_offset w)
      in if leftover < 0 then None
         else if leftover < int header_size then
           (if leftover > 0 then
              (if \<not> header_size \<le> 11 then None
               else
                 (case on_dest (WFW_Append vt (replicate (nat leftover) 0)) w of
                    None \<Rightarrow> None
                  | Some (_, w) \<Rightarrow> Some (w\<lparr>lw_block_offset := 0\<rparr>)))
            else Some (w\<lparr>lw_block_offset := 0\<rparr>))
         else Some w)"

partial_function (option) AddRecord_loop ::
    "'f WritableFile_vt \<Rightarrow> bytes \<Rightarrow> bool \<Rightarrow> 'f LogWriter \<Rightarrow> (Status \<times> 'f LogWriter) option" where
  "AddRecord_loop vt ptr begin_rec w =
     (case switch_block vt w of
        None \<Rightarrow> None
      | Some w \<Rightarrow>
          (let left = length ptr;
               header_size = log_header_size (lw_recycle_log_files w)
           in if \<not> int kBlockSize - int (lw_block_offset w) \<ge> int header_size then None
              else
                (let avail = kBlockSize - lw_block_offset w - header_size;
                     fragment_length = (if left < avail then left else avail);
                     end_rec = (left = fragment_length);
                     t = fragment_type (lw_recycle_log_files w) begin_rec end_rec
                 in case EmitPhysicalRecord vt t (take fragment_length ptr) w of
                      None \<Rightarrow> None
                    | Some (s, w) \<Rightarrow>
                        (let ptr = drop fragment_length ptr
                         in if Status_ok s \<and> length ptr > 0 then AddRecord_loop vt ptr False w
                            else Some (s, w)))))"

definition AddRecord ::
    "'f WritableFile_vt \<Rightarrow> slice \<Rightarrow> 'f LogWriter \<Rightarrow> (Status \<times> 'f LogWriter) option" where
  "AddRecord vt data w = AddRecord_loop vt data True w"

definition get_log_number :: "'f LogWriter \<Rightarrow> u64" where
  "get_log_number w = lw_log_number w"

subsection \<open>The layout of a record\<close>

text \<open>
  What a reader finds on disk, independent of the writer's code: one physical record, the
  zeros that end a block, and the fragments of a record from a given block offset on.
\<close>

definition physical_record :: "u64 \<Rightarrow> RecordType \<Rightarrow> bytes \<Rightarrow> bytes" where
  "physical_record log_number t p =
     (let n = length p;
          log_num = (if RecordType_code t < 5 then [] else EncodeFixed32 (ucast log_number));
          tail = of_nat (RecordType_code t) # log_num @ p
      in EncodeFixed32 (Mask (crc32c_Value tail)) @ [of_nat (n mod 256), of_nat (n div 256)] @ tail)"

definition block_start :: "bool \<Rightarrow> nat \<Rightarrow> nat" where
  "block_start recycle bo = (if kBlockSize - bo < log_header_size recycle then 0 else bo)"

definition block_padding :: "bool \<Rightarrow> nat \<Rightarrow> bytes" where
  "block_padding recycle bo =
     (if kBlockSize - bo < log_header_size recycle then replicate (kBlockSize - bo) 0 else [])"

definition fragment_room :: "bool \<Rightarrow> nat \<Rightarrow> nat" where
  "fragment_room recycle bo = kBlockSize - block_start recycle bo - log_header_size recycle"

lemmas log_constants = kBlockSize_def kHeaderSize_def kRecyclableHeaderSize_def log_header_size_def

lemma fragment_room_progress:
  assumes "fragment_room recycle bo = 0"
  shows "0 < fragment_room recycle (block_start recycle bo + log_header_size recycle)"
    and "kBlockSize - bo = log_header_size recycle"
proof -
  have "\<not> kBlockSize - bo < log_header_size recycle"
    using assms by (auto simp: fragment_room_def block_start_def log_constants split: if_splits)
  with assms show "kBlockSize - bo = log_header_size recycle"
    by (auto simp: fragment_room_def block_start_def)
  then show "0 < fragment_room recycle (block_start recycle bo + log_header_size recycle)"
    by (auto simp: fragment_room_def block_start_def log_constants split: if_splits)
qed

text \<open>The bytes of a record written at block offset \<open>bo\<close>, and the block offset behind it.\<close>

function record_image :: "bool \<Rightarrow> u64 \<Rightarrow> bool \<Rightarrow> nat \<Rightarrow> bytes \<Rightarrow> bytes \<times> nat" where
  "record_image recycle log_number begin_rec bo p =
     (let n = min (length p) (fragment_room recycle bo);
          here = block_padding recycle bo @
                 physical_record log_number (fragment_type recycle begin_rec (n = length p)) (take n p);
          bo' = block_start recycle bo + log_header_size recycle + n
      in if n = length p then (here, bo')
         else (let (more, bo'') = record_image recycle log_number False bo' (drop n p)
               in (here @ more, bo'')))"
  by pat_completeness auto
termination
proof (relation "measure (\<lambda>(recycle, log_number, begin_rec, bo, p).
          2 * length p + (if fragment_room recycle bo = 0 then 1 else 0))", simp)
  fix recycle begin_rec bo n here bo' and p :: bytes and log_number :: u64
  assume n: "n = min (length p) (fragment_room recycle bo)"
    and bo': "bo' = block_start recycle bo + log_header_size recycle + n" and "n \<noteq> length p"
  then have "n = fragment_room recycle bo" "n < length p" by auto
  then show "((recycle, log_number, False, bo', drop n p), recycle, log_number, begin_rec, bo, p)
      \<in> measure (\<lambda>(recycle, log_number, begin_rec, bo, p).
          2 * length p + (if fragment_room recycle bo = 0 then 1 else 0))"
    using fragment_room_progress(1) [of recycle bo] bo' by (cases "n = 0") auto
qed

declare record_image.simps [simp del]

text \<open>The bytes of a sequence of records.\<close>

fun log_image :: "bool \<Rightarrow> u64 \<Rightarrow> nat \<Rightarrow> bytes list \<Rightarrow> bytes \<times> nat" where
  "log_image recycle log_number bo [] = ([], bo)"
| "log_image recycle log_number bo (p # ps) =
     (let (img, bo') = record_image recycle log_number True bo p;
          (more, bo'') = log_image recycle log_number bo' ps
      in (img @ more, bo''))"

text \<open>A caller that adds records one after the other and stops at the first failure.\<close>

fun AddRecords ::
    "'f WritableFile_vt \<Rightarrow> bytes list \<Rightarrow> 'f LogWriter \<Rightarrow> (Status \<times> 'f LogWriter) option" where
  "AddRecords vt [] w = Some (Status_OK, w)"
| "AddRecords vt (p # ps) w =
     (case AddRecord vt p w of
        None \<Rightarrow> None
      | Some (s, w) \<Rightarrow> if Status_ok s then AddRecords vt ps w else Some (s, w))"

subsection \<open>The writer produces the layout\<close>

definition log_inv :: "('f WritableFileWriter \<Rightarrow> bool) \<Rightarrow> 'f LogWriter \<Rightarrow> bool" where
  "log_inv winv w \<longleftrightarrow> winv (lw_dest w) \<and> lw_block_offset w \<le> kBlockSize \<and>
     lw_type_crc w = map (\<lambda>i. crc32c_Value [of_nat i]) [0..<Suc kMaxRecordType]"

lemma physical_record_bytes:
  assumes "log_inv winv w" and "length p \<le> 0xffff"
  shows "(let recyclable = \<not> RecordType_code t < RecordType_code kRecyclableFullType;
              log_num = (if recyclable then EncodeFixed32 (ucast (lw_log_number w)) else []);
              crc = lw_type_crc w ! RecordType_code t;
              crc = (if recyclable then Extend crc log_num else crc)
          in EncodeFixed32 (Mask (Extend crc p)) @
             [of_nat (length p AND 0xff), of_nat (drop_bit 8 (length p)), of_nat (RecordType_code t)] @
             log_num) @ p
         = physical_record (lw_log_number w) t p"
proof -
  have "lw_type_crc w ! RecordType_code t = crc32c_Value [of_nat (RecordType_code t)]"
    using assms(1) by (cases t) (simp_all add: log_inv_def kMaxRecordType_def del: upt_Suc)
  moreover have "length p AND 255 = length p mod 256" "drop_bit 8 (length p) = length p div 256"
    using nat_and_mask [of "length p" 8] by (simp_all add: drop_bit_eq_div)
  ultimately show ?thesis
    by (simp add: physical_record_def Let_def Extend_Value)
qed

lemma length_physical_record:
  "length (physical_record log_number t p)
   = (if RecordType_code t < 5 then kHeaderSize else kRecyclableHeaderSize) + length p"
  by (simp add: physical_record_def Let_def log_constants)

lemma fragment_type_recyclable:
  "RecordType_code (fragment_type recycle b e) < 5 \<longleftrightarrow> \<not> recycle"
  by (simp add: fragment_type_def)

context flush_mode
begin

lemma on_dest_Append_law:
  assumes "log_inv winv w"
  shows "\<exists>s d. on_dest (WFW_Append vt data) w = Some (s, w\<lparr>lw_dest := d\<rparr>) \<and>
           log_inv winv (w\<lparr>lw_dest := d\<rparr>) \<and> (reliable \<longrightarrow> Status_ok s) \<and>
           (Status_ok s \<longrightarrow> logical d = logical (lw_dest w) @ data)"
  using writer_Append_law [of "lw_dest w" data] assms by (force simp: on_dest_def log_inv_def)

lemma on_dest_Flush_law:
  assumes "log_inv winv w"
  shows "\<exists>s d. on_dest (WFW_Flush vt) w = Some (s, w\<lparr>lw_dest := d\<rparr>) \<and>
           log_inv winv (w\<lparr>lw_dest := d\<rparr>) \<and> (reliable \<longrightarrow> Status_ok s) \<and>
           (Status_ok s \<longrightarrow> logical d = logical (lw_dest w) \<and> flushed d)"
  using flush_law [of "lw_dest w"] assms by (force simp: on_dest_def log_inv_def)

lemma Emit_law:
  assumes inv: "log_inv winv w"
    and hs: "hs = (if RecordType_code t < 5 then kHeaderSize else kRecyclableHeaderSize)"
    and fits: "lw_block_offset w + hs + length p \<le> kBlockSize"
  shows "\<exists>s d. EmitPhysicalRecord vt t p w
             = Some (s, w\<lparr>lw_dest := d, lw_block_offset := lw_block_offset w + hs + length p\<rparr>) \<and>
           winv d \<and> (reliable \<longrightarrow> Status_ok s) \<and>
           (Status_ok s \<longrightarrow> logical d = logical (lw_dest w) @ physical_record (lw_log_number w) t p \<and>
              flushed d)"
proof -
  have len: "length p \<le> 0xffff" using fits by (simp add: kBlockSize_def)
  define buf where "buf = (let recyclable = \<not> RecordType_code t < RecordType_code kRecyclableFullType;
              log_num = (if recyclable then EncodeFixed32 (ucast (lw_log_number w)) else []);
              crc = lw_type_crc w ! RecordType_code t;
              crc = (if recyclable then Extend crc log_num else crc)
          in EncodeFixed32 (Mask (Extend crc p)) @
             [of_nat (length p AND 0xff), of_nat (drop_bit 8 (length p)), of_nat (RecordType_code t)] @
             log_num)"
  note bytes = physical_record_bytes [OF inv len, of t, folded buf_def]
  from on_dest_Append_law [OF inv, of buf] obtain s1 d1 where
    a1: "on_dest (WFW_Append vt buf) w = Some (s1, w\<lparr>lw_dest := d1\<rparr>)"
      "log_inv winv (w\<lparr>lw_dest := d1\<rparr>)" "Status_ok s1 \<longrightarrow> logical d1 = logical (lw_dest w) @ buf" "reliable \<longrightarrow> Status_ok s1"
    by blast
  from on_dest_Append_law [OF a1(2), of p] obtain s2 d2 where
    a2: "on_dest (WFW_Append vt p) (w\<lparr>lw_dest := d1\<rparr>) = Some (s2, w\<lparr>lw_dest := d2\<rparr>)"
      "log_inv winv (w\<lparr>lw_dest := d2\<rparr>)" "Status_ok s2 \<longrightarrow> logical d2 = logical d1 @ p" "reliable \<longrightarrow> Status_ok s2"
    by auto
  from on_dest_Flush_law [OF a2(2)] obtain s3 d3 where
    a3: "on_dest (WFW_Flush vt) (w\<lparr>lw_dest := d2\<rparr>) = Some (s3, w\<lparr>lw_dest := d3\<rparr>)"
      "log_inv winv (w\<lparr>lw_dest := d3\<rparr>)" "Status_ok s3 \<longrightarrow> logical d3 = logical d2 \<and> flushed d3"
      "reliable \<longrightarrow> Status_ok s3"
    by auto
  define r where "r = (if Status_ok s1 then if Status_ok s2 then (s3, d3) else (s2, d2) else (s1, d1))"
  have "EmitPhysicalRecord vt t p w
      = Some (fst r, w\<lparr>lw_dest := snd r, lw_block_offset := lw_block_offset w + hs + length p\<rparr>)"
    using a1(1) a2(1) a3(1) fits len hs
    by (auto simp: EmitPhysicalRecord_def Let_def r_def buf_def split: if_splits)
  moreover have "winv (snd r)" using a1(2) a2(2) a3(2) by (simp add: r_def log_inv_def)
  moreover have "reliable \<longrightarrow> Status_ok (fst r)" using a1(4) a2(4) a3(4) by (simp add: r_def)
  moreover have "Status_ok (fst r) \<longrightarrow>
      logical (snd r) = logical (lw_dest w) @ physical_record (lw_log_number w) t p \<and> flushed (snd r)"
    using a1(3) a2(3) a3(3) by (simp add: r_def flip: bytes)
  ultimately show ?thesis by blast
qed

text \<open>With room in the buffer the padding cannot fail; without, its status is ignored and it may be missing.\<close>

lemma switch_block_law:
  assumes inv: "log_inv winv w"
  shows "\<exists>d. switch_block vt w
             = Some (w\<lparr>lw_dest := d, lw_block_offset := block_start (lw_recycle_log_files w) (lw_block_offset w)\<rparr>) \<and>
           winv d \<and>
           (flushed (lw_dest w) \<longrightarrow>
              logical d = logical (lw_dest w) @ block_padding (lw_recycle_log_files w) (lw_block_offset w))"
proof -
  let ?r = "lw_recycle_log_files w" and ?left = "kBlockSize - lw_block_offset w"
  have le: "lw_block_offset w \<le> kBlockSize" and d: "winv (lw_dest w)"
    using inv by (simp_all add: log_inv_def)
  have hs: "log_header_size ?r \<le> 11" by (simp add: log_constants)
  show ?thesis
  proof (cases "?left < log_header_size ?r \<and> 0 < ?left")
    case True
    with hs have small: "length (replicate ?left (0 :: byte)) \<le> 32768" by simp
    from writer_Append_law [OF d, of "replicate ?left 0"] small_Append_law [OF d flushed_room small] obtain s d' where
      d': "WFW_Append vt (replicate ?left 0) (lw_dest w) = Some (s, d')" "winv d'"
        "flushed (lw_dest w) \<longrightarrow> logical d' = logical (lw_dest w) @ replicate ?left 0" by fastforce
    have "nat (int kBlockSize - int (lw_block_offset w)) = ?left" using le by linarith
    with True hs le d' show ?thesis
      by (auto simp: switch_block_def on_dest_def block_start_def block_padding_def Let_def)
  next
    case False
    with d le show ?thesis
      by (intro exI [of _ "lw_dest w"])
         (auto simp: switch_block_def block_start_def block_padding_def Let_def)
  qed
qed

lemma AddRecord_loop_law:
  "log_inv winv w \<Longrightarrow>
   lw_recycle_log_files w = recycle \<Longrightarrow> lw_log_number w = log_number \<Longrightarrow> lw_block_offset w = bo \<Longrightarrow>
   \<exists>s w'. AddRecord_loop vt p begin_rec w = Some (s, w') \<and> log_inv winv w' \<and>
     lw_recycle_log_files w' = recycle \<and> lw_log_number w' = log_number \<and> (reliable \<longrightarrow> Status_ok s) \<and>
     (Status_ok s \<longrightarrow>
        lw_block_offset w' = snd (record_image recycle log_number begin_rec bo p) \<and> flushed (lw_dest w') \<and>
        (flushed (lw_dest w) \<longrightarrow>
           logical (lw_dest w') = logical (lw_dest w) @ fst (record_image recycle log_number begin_rec bo p)))"
proof (induction recycle log_number begin_rec bo p arbitrary: w rule: record_image.induct)
  case (1 recycle log_number begin_rec bo p)
  let ?hs = "log_header_size recycle" and ?room = "fragment_room recycle bo"
  define n where "n = min (length p) ?room"
  define t where "t = fragment_type recycle begin_rec (n = length p)"
  from switch_block_law [OF "1.prems"(1)] "1.prems" obtain d where
    d: "switch_block vt w = Some (w\<lparr>lw_dest := d, lw_block_offset := block_start recycle bo\<rparr>)" "winv d"
      "flushed (lw_dest w) \<longrightarrow> logical d = logical (lw_dest w) @ block_padding recycle bo" by auto
  let ?w = "w\<lparr>lw_dest := d, lw_block_offset := block_start recycle bo\<rparr>"
  have start: "block_start recycle bo + ?hs \<le> kBlockSize"
    by (auto simp: block_start_def log_constants)
  have inv: "log_inv winv ?w" using "1.prems"(1) d(2) start by (simp add: log_inv_def)
  have len: "length (take n p) = n" by (simp add: n_def)
  have hs: "?hs = (if RecordType_code t < 5 then kHeaderSize else kRecyclableHeaderSize)"
    by (simp add: t_def fragment_type_recyclable log_header_size_def)
  have "block_start recycle bo + ?hs + n \<le> kBlockSize"
    using start by (simp add: n_def fragment_room_def)
  with Emit_law [OF inv hs, of "take n p"] len obtain s e where
    e: "EmitPhysicalRecord vt t (take n p) ?w
          = Some (s, w\<lparr>lw_dest := e, lw_block_offset := block_start recycle bo + ?hs + n\<rparr>)" "winv e"
      "Status_ok s \<longrightarrow> logical e = logical d @ physical_record log_number t (take n p) \<and> flushed e"
      "reliable \<longrightarrow> Status_ok s"
    using "1.prems"(3) by auto
  let ?w' = "w\<lparr>lw_dest := e, lw_block_offset := block_start recycle bo + ?hs + n\<rparr>"
  have inv': "log_inv winv ?w'"
    using "1.prems"(1) e(2) \<open>block_start recycle bo + ?hs + n \<le> kBlockSize\<close> by (simp add: log_inv_def)
  have cut: "(if length p < kBlockSize - block_start recycle bo - ?hs then length p
      else kBlockSize - block_start recycle bo - ?hs) = n"
    by (simp add: n_def fragment_room_def)
  have type: "fragment_type recycle begin_rec (length p = n) = t"
    by (simp add: t_def eq_commute)
  have step: "AddRecord_loop vt p begin_rec w
      = (if Status_ok s \<and> n < length p then AddRecord_loop vt (drop n p) False ?w' else Some (s, ?w'))"
    using start
    by (subst AddRecord_loop.simps)
       (simp add: d(1) "1.prems"(2) Let_def cut type e(1) del: diff_diff_left)
  show ?case
  proof (cases "Status_ok s \<and> n < length p")
    case False
    then show ?thesis
      using step inv' e d(3) "1.prems"(2,3)
      by (auto simp: record_image.simps [of recycle log_number begin_rec] n_def t_def Let_def
          split: prod.splits)
  next
    case True
    then have n: "n \<noteq> length p" and room: "flushed (lw_dest ?w')"
      and img: "flushed (lw_dest w) \<longrightarrow>
        logical e = logical (lw_dest w) @ block_padding recycle bo @ physical_record log_number t (take n p)"
      using e(3) d(3) by auto
    from "1.IH" [OF n_def _ refl n inv'] step True room "1.prems"(2,3) obtain s2 w2 where
      w2: "AddRecord_loop vt p begin_rec w = Some (s2, w2)" "log_inv winv w2"
        "lw_recycle_log_files w2 = recycle" "lw_log_number w2 = log_number" "reliable \<longrightarrow> Status_ok s2"
        "Status_ok s2 \<longrightarrow>
          lw_block_offset w2 = snd (record_image recycle log_number False
             (block_start recycle bo + ?hs + n) (drop n p)) \<and> flushed (lw_dest w2) \<and>
          logical (lw_dest w2) = logical e @ fst (record_image recycle log_number False
             (block_start recycle bo + ?hs + n) (drop n p))"
      by auto
    then show ?thesis
      using n img
      by (auto simp: record_image.simps [of recycle log_number begin_rec] n_def t_def Let_def
          split: prod.splits)
  qed
qed

lemma AddRecords_law:
  assumes "log_inv winv w" and "flushed (lw_dest w)"
  shows "\<exists>s w'. AddRecords vt ps w = Some (s, w') \<and> log_inv winv w' \<and> (reliable \<longrightarrow> Status_ok s) \<and>
     (Status_ok s \<longrightarrow>
        (let (img, bo) = log_image (lw_recycle_log_files w) (lw_log_number w) (lw_block_offset w) ps
         in logical (lw_dest w') = logical (lw_dest w) @ img \<and> lw_block_offset w' = bo \<and>
            flushed (lw_dest w')))"
  using assms
proof (induction ps arbitrary: w)
  case (Cons p ps)
  from AddRecord_loop_law [OF Cons.prems(1) refl refl refl, of p True] Cons.prems(2) obtain s w1 where
    w1: "AddRecord vt p w = Some (s, w1)" "log_inv winv w1"
      "lw_recycle_log_files w1 = lw_recycle_log_files w" "lw_log_number w1 = lw_log_number w"
      "reliable \<longrightarrow> Status_ok s"
      "Status_ok s \<longrightarrow> logical (lw_dest w1) = logical (lw_dest w) @
         fst (record_image (lw_recycle_log_files w) (lw_log_number w) True (lw_block_offset w) p) \<and>
       lw_block_offset w1 = snd (record_image (lw_recycle_log_files w) (lw_log_number w) True (lw_block_offset w) p) \<and>
       flushed (lw_dest w1)"
    by (auto simp: AddRecord_def)
  show ?case
  proof (cases "Status_ok s")
    case True
    with Cons.IH [OF w1(2)] w1 show ?thesis by (fastforce split: prod.splits)
  qed (use w1 in simp)
qed simp

end

subsection \<open>A log on a file that is appended to through the OS cache\<close>

lemma log_inv_init: "winv d \<Longrightarrow> log_inv winv (LogWriter_init d log_no recycle)"
  by (simp add: log_inv_def LogWriter_init_def)

text \<open>What the table of a buffered file says of it: OS cache, no direct I/O, the default alignment.\<close>

definition buffered_vt :: "'f WritableFile_vt \<Rightarrow> 'f \<Rightarrow> bool" where
  "buffered_vt vt f \<longleftrightarrow> wf_UseOSBuffer vt f \<and> \<not> wf_UseDirectIO vt f \<and> wf_GetRequiredBufferAlignment vt f = 4 * 1024"

lemma flushed_empty: "flushed_to contents (buffered_contents contents) w \<Longrightarrow> ab_data (w_buf w) = []"
  by (auto simp: flushed_to_def buffered_contents_def dest: arg_cong [of _ _ length])

context append_file
begin

lemma writer_init:
  assumes "healthy f" and "buffered_vt vt f"
  obtains d where "WritableFileWriter_init vt f mb bps = Some d" "buffered_inv healthy d"
    "buffered_contents contents d = contents f" "flushed_to contents (buffered_contents contents) d" "the (w_file d) = f"
proof -
  let ?b = "AlignedBuffer_init\<lparr>ab_alignment := 4096\<rparr>"
  have al: "AB_Alignment (4 * 1024) AlignedBuffer_init = Some ?b"
    using power_of_two_assert [OF power_of_two_4096] by (simp add: AB_Alignment_def)
  from AB_wf_Allocate [of ?b 65536] power_of_two_4096 obtain b where
    b: "AllocateNewBuffer 65536 ?b = Some b" "AB_wf b" "ab_data b = []" "65536 \<le> ab_capacity b" by auto
  from al b obtain d where d: "WritableFileWriter_init vt f mb bps = Some d" "w_file d = Some f" "w_buf d = b"
      "w_use_os_buffer d" "w_last_sync_size d = 0"
    using assms(2) by (simp add: WritableFileWriter_init_def buffered_vt_def)
  with b assms(1) show thesis
    by (intro that [OF d(1)]) (simp_all add: buffered_inv_def wfw_base_def buffered_contents_def flushed_to_def has_room_def)
qed

text \<open>A log on a fresh file: adding records returns, the file stays healthy, and after success it
  holds the image of the records.\<close>

lemma log_written:
  assumes "healthy f" and "buffered_vt vt f" and "contents f = []" and "WritableFileWriter_init vt f mb bps = Some d"
  shows "\<exists>s w. AddRecords vt ps (LogWriter_init d log_no recycle) = Some (s, w) \<and>
    healthy (the (w_file (lw_dest w))) \<and> (reliable \<longrightarrow> Status_ok s) \<and>
    (Status_ok s \<longrightarrow> contents (the (w_file (lw_dest w))) = fst (log_image recycle log_no 0 ps))"
proof -
  let ?w = "LogWriter_init d log_no recycle"
  have init: "buffered_inv healthy d" "buffered_contents contents d = contents f"
      "flushed_to contents (buffered_contents contents) d"
    using writer_init [OF assms(1,2), of mb bps] assms(4) by (metis option.inject)+
  have inv: "log_inv (buffered_inv healthy) ?w" by (rule log_inv_init) (rule init(1))
  have flags: "lw_dest ?w = d" "lw_block_offset ?w = 0" "lw_log_number ?w = log_no"
      "lw_recycle_log_files ?w = recycle" by (simp_all add: LogWriter_init_def)
  have "flushed_to contents (buffered_contents contents) (lw_dest ?w)" using init(3) flags by simp
  obtain img bo where img: "log_image recycle log_no 0 ps = (img, bo)" by fastforce
  from buffered.AddRecords_law [OF inv \<open>flushed_to _ _ (lw_dest ?w)\<close>, of ps, unfolded flags img] obtain s w where
    w: "AddRecords vt ps ?w = Some (s, w)" "log_inv (buffered_inv healthy) w" "reliable \<longrightarrow> Status_ok s"
      "Status_ok s \<longrightarrow> buffered_contents contents (lw_dest w) = fst (log_image recycle log_no 0 ps) \<and>
         flushed_to contents (buffered_contents contents) (lw_dest w)"
    using init(2) assms(3) img by auto
  from w(4) have "Status_ok s \<longrightarrow> ab_data (w_buf (lw_dest w)) = []" using flushed_empty by blast
  with w(4) have "Status_ok s \<longrightarrow> contents (the (w_file (lw_dest w))) = fst (log_image recycle log_no 0 ps)"
    by (auto simp: buffered_contents_def)
  with w show ?thesis by (auto simp: log_inv_def buffered_inv_def)
qed

end

end
