(* ===== verification/LogReader.thy ===== *)
theory LogReader
  imports LogWriter
begin

text \<open>
  \<open>include/rocksutil/log_reader.h\<close> and \<open>rutil/log_reader.cc\<close>: the reader of the write-ahead
  log. File offsets are 64-bit words, as the wrap-around in \<open>ReportDrop\<close> is part of the
  code's behaviour; \<open>r_buffer\<close> is the run of bytes \<open>buffer_\<close> refers to. The reporter is the
  null pointer or the list of the \<open>Corruption\<close> calls it has received. A record type is the
  unsigned number the code switches on: the (sign-extended) type byte of the header or one
  of the reader's own codes. \<open>None\<close> is an operation that does not return: a read of the file
  that does not, or the loop of \<open>ReadRecord\<close>.

  Shown: \<open>ReadRecord\<close> returns on every finite file whose reads return (outside the salvage mode), and on the
  bytes a \<open>Writer\<close> produced, cut off anywhere, it returns the complete records in order and
  then reports the end, without reporting a corruption.
\<close>

datatype WALRecoveryMode =
  kTolerateCorruptedTailRecords | kAbsoluteConsistency | kPointInTimeRecovery | kSkipAnyCorruptedRecords

record 'f LogReader =
  r_file :: 'f
  r_reporter :: "(nat \<times> Status) list option"
  r_checksum :: bool
  r_buffer :: bytes
  r_eof :: bool
  r_read_error :: bool
  r_eof_offset :: nat
  r_last_record_offset :: u64
  r_end_of_buffer_offset :: u64
  r_initial_offset :: u64
  r_log_number :: u64
  r_recycled :: bool

definition type_code :: "RecordType \<Rightarrow> u32" where
  "type_code t = of_nat (RecordType_code t)"

definition kEof :: u32 where "kEof = of_nat kMaxRecordType + 1"
definition kBadRecord :: u32 where "kBadRecord = of_nat kMaxRecordType + 2"
definition kBadHeader :: u32 where "kBadHeader = of_nat kMaxRecordType + 3"
definition kOldRecord :: u32 where "kOldRecord = of_nat kMaxRecordType + 4"
definition kBadRecordLen :: u32 where "kBadRecordLen = of_nat kMaxRecordType + 5"
definition kBadRecordChecksum :: u32 where "kBadRecordChecksum = of_nat kMaxRecordType + 6"

lemmas record_codes =
  kEof_def kBadRecord_def kBadHeader_def kOldRecord_def kBadRecordLen_def kBadRecordChecksum_def
  type_code_def kMaxRecordType_def

definition LogReader_init ::
    "'f \<Rightarrow> (nat \<times> Status) list option \<Rightarrow> bool \<Rightarrow> u64 \<Rightarrow> u64 \<Rightarrow> 'f LogReader" where
  "LogReader_init file reporter checksum initial_offset log_num =
     \<lparr>r_file = file, r_reporter = reporter, r_checksum = checksum, r_buffer = [], r_eof = False,
      r_read_error = False, r_eof_offset = 0, r_last_record_offset = 0, r_end_of_buffer_offset = 0,
      r_initial_offset = initial_offset, r_log_number = log_num, r_recycled = False\<rparr>"

text \<open>\<open>LogReporter\<close>: the status after a sequence of \<open>Corruption\<close> calls, the first bad one.\<close>

definition LogReporter_Corruption :: "nat \<times> Status \<Rightarrow> Status \<Rightarrow> Status" where
  "LogReporter_Corruption c status = (if Status_ok status then snd c else status)"

definition ReportDrop :: "nat \<Rightarrow> Status \<Rightarrow> 'f LogReader \<Rightarrow> 'f LogReader" where
  "ReportDrop nbytes reason r =
     (case r_reporter r of
        None \<Rightarrow> r
      | Some calls \<Rightarrow>
          if r_end_of_buffer_offset r - of_nat (length (r_buffer r)) - of_nat nbytes \<ge> r_initial_offset r
          then r\<lparr>r_reporter := Some (calls @ [(nbytes, reason)])\<rparr>
          else r)"

definition ReportCorruption :: "nat \<Rightarrow> string \<Rightarrow> 'f LogReader \<Rightarrow> 'f LogReader" where
  "ReportCorruption nbytes reason r = ReportDrop nbytes (Status_Corruption (cstr reason) []) r"

definition SkipToInitialBlock :: "'f SequentialFile_vt \<Rightarrow> 'f LogReader \<Rightarrow> bool \<times> 'f LogReader" where
  "SkipToInitialBlock svt r =
     (let initial_offset_in_block = r_initial_offset r mod of_nat kBlockSize;
          block_start_location = r_initial_offset r - initial_offset_in_block;
          block_start_location =
            (if initial_offset_in_block > of_nat kBlockSize - 6
             then block_start_location + of_nat kBlockSize else block_start_location);
          r = r\<lparr>r_end_of_buffer_offset := block_start_location\<rparr>
      in if block_start_location > 0 then
           (let (skip_status, f) = SequentialFileReader_Skip svt block_start_location (r_file r);
                r = r\<lparr>r_file := f\<rparr>
            in if \<not> Status_ok skip_status
               then (False, ReportDrop (unat block_start_location) skip_status r)
               else (True, r))
         else (True, r))"

text \<open>\<open>None\<close> is the result \<open>true\<close>, \<open>Some e\<close> is \<open>false\<close> with \<open>*error = e\<close>.\<close>

definition ReadMore ::
    "'f SequentialFile_vt \<Rightarrow> nat \<Rightarrow> 'f LogReader \<Rightarrow> (u32 option \<times> nat \<times> 'f LogReader) option" where
  "ReadMore svt drop_size r =
     (if \<not> r_eof r \<and> \<not> r_read_error r then
        (case SequentialFileReader_Read svt kBlockSize (r_file r) of
           None \<Rightarrow> None
         | Some (status, buf, f) \<Rightarrow>
             (let r = r\<lparr>r_file := f, r_buffer := buf,
                        r_end_of_buffer_offset := r_end_of_buffer_offset r + of_nat (length buf)\<rparr>
              in if \<not> Status_ok status then
                   Some (Some kEof, drop_size,
                         (ReportDrop kBlockSize status (r\<lparr>r_buffer := []\<rparr>))\<lparr>r_read_error := True\<rparr>)
                 else if length (r_buffer r) < kBlockSize then
                   Some (None, drop_size, r\<lparr>r_eof := True, r_eof_offset := length (r_buffer r)\<rparr>)
                 else Some (None, drop_size, r)))
      else if length (r_buffer r) > 0 then
        Some (Some kBadHeader, length (r_buffer r), r\<lparr>r_buffer := []\<rparr>)
      else Some (Some kEof, drop_size, r\<lparr>r_buffer := []\<rparr>))"

text \<open>The progress measure of the loop around \<open>ReadMore\<close>.\<close>

definition read_measure :: "'f LogReader \<Rightarrow> nat" where
  "read_measure r =
     (if r_eof r \<or> r_read_error r then 0 else 1) + (if length (r_buffer r) < kRecyclableHeaderSize then 1 else 0)"

lemma ReadMore_measure:
  "ReadMore svt d r = Some (None, d', r') \<Longrightarrow> length (r_buffer r) < kRecyclableHeaderSize \<Longrightarrow>
     read_measure r' < read_measure r"
  by (auto simp: ReadMore_def read_measure_def Let_def log_constants split: if_splits option.splits prod.splits)

lemma kHeader_less: "n < kHeaderSize \<Longrightarrow> n < kRecyclableHeaderSize"
  by (simp add: log_constants)

text \<open>
  The second half of \<open>ReadPhysicalRecord\<close>, once the whole header is in the buffer: length,
  padding, checksum and position.
\<close>

definition ReadPhysicalRecord_tail ::
    "u32 \<Rightarrow> nat \<Rightarrow> nat \<Rightarrow> bytes \<Rightarrow> nat \<Rightarrow> 'f LogReader \<Rightarrow> u32 \<times> bytes \<times> nat \<times> 'f LogReader" where
  "ReadPhysicalRecord_tail type len header_size fragment drop_size r =
     (let header = r_buffer r
      in if header_size + len > length (r_buffer r) then
           (let drop_size = length (r_buffer r);
                r = r\<lparr>r_buffer := []\<rparr>
            in if \<not> r_eof r then (kBadRecordLen, fragment, drop_size, r)
               else if drop_size \<noteq> 0 then (kBadHeader, fragment, drop_size, r)
               else (kEof, fragment, drop_size, r))
         else if type = type_code kZeroType \<and> len = 0 then
           (kBadRecord, fragment, drop_size, r\<lparr>r_buffer := []\<rparr>)
         else if r_checksum r \<and>
             crc32c_Value (take (len + header_size - 6) (drop 6 header)) \<noteq> Unmask (DecodeFixed32 header) then
           (kBadRecordChecksum, fragment, length (r_buffer r), r\<lparr>r_buffer := []\<rparr>)
         else
           (let r = r\<lparr>r_buffer := drop (header_size + len) (r_buffer r)\<rparr>
            in if r_end_of_buffer_offset r - of_nat (length (r_buffer r)) - of_nat header_size - of_nat len
                  < r_initial_offset r
               then (kBadRecord, [], drop_size, r)
               else (type, take len (drop header_size header), drop_size, r)))"

lemma kHeader_le: "kHeaderSize \<le> kRecyclableHeaderSize + n"
  by (simp add: log_constants)

text \<open>The fields of the header at the front of the buffer.\<close>

definition header_type :: "bytes \<Rightarrow> u32" where
  "header_type header = scast (header ! 6)"

definition header_length :: "bytes \<Rightarrow> u32" where
  "header_length header =
     (let a = ucast (header ! 4) AND 0xff;
          b = ucast (header ! 5) AND 0xff
      in a OR push_bit 8 b)"

definition header_recyclable :: "bytes \<Rightarrow> bool" where
  "header_recyclable header \<longleftrightarrow>
     header_type header \<ge> type_code kRecyclableFullType \<and> header_type header \<le> type_code kRecyclableLastType"

definition mark_recycled :: "'f LogReader \<Rightarrow> 'f LogReader" where
  "mark_recycled r =
     (if r_end_of_buffer_offset r - of_nat (length (r_buffer r)) = 0 then r\<lparr>r_recycled := True\<rparr> else r)"

lemma mark_recycled_simps [simp]:
  "r_file (mark_recycled r) = r_file r" "r_buffer (mark_recycled r) = r_buffer r"
  "r_eof (mark_recycled r) = r_eof r" "r_read_error (mark_recycled r) = r_read_error r"
  "r_reporter (mark_recycled r) = r_reporter r" "r_checksum (mark_recycled r) = r_checksum r"
  "r_log_number (mark_recycled r) = r_log_number r" "r_initial_offset (mark_recycled r) = r_initial_offset r"
  "r_end_of_buffer_offset (mark_recycled r) = r_end_of_buffer_offset r"
  "r_last_record_offset (mark_recycled r) = r_last_record_offset r"
  "r_eof_offset (mark_recycled r) = r_eof_offset r"
  by (simp_all add: mark_recycled_def)

text \<open>
  \<open>fragment\<close> and \<open>drop_size\<close> are the output parameters, left as they are on the paths that
  do not set them.
\<close>

function ReadPhysicalRecord ::
    "'f SequentialFile_vt \<Rightarrow> bytes \<Rightarrow> nat \<Rightarrow> 'f LogReader \<Rightarrow> (u32 \<times> bytes \<times> nat \<times> 'f LogReader) option" where
  "ReadPhysicalRecord svt fragment drop_size r =
     (if length (r_buffer r) < kHeaderSize then
        (case ReadMore svt drop_size r of
           None \<Rightarrow> None
         | Some (Some e, drop_size, r) \<Rightarrow> Some (e, fragment, drop_size, r)
         | Some (None, drop_size, r) \<Rightarrow> ReadPhysicalRecord svt fragment drop_size r)
      else
        (let header = r_buffer r;
             type = header_type header;
             len = unat (header_length header)
         in if header_recyclable header then
              (let r = mark_recycled r
               in if length (r_buffer r) < kRecyclableHeaderSize then
                    (case ReadMore svt drop_size r of
                       None \<Rightarrow> None
                     | Some (Some e, drop_size, r) \<Rightarrow> Some (e, fragment, drop_size, r)
                     | Some (None, drop_size, r) \<Rightarrow> ReadPhysicalRecord svt fragment drop_size r)
                  else if ucast (DecodeFixed32 (drop 7 header)) \<noteq> r_log_number r then
                    Some (kOldRecord, fragment, drop_size, r)
                  else Some (ReadPhysicalRecord_tail type len kRecyclableHeaderSize fragment drop_size r))
            else Some (ReadPhysicalRecord_tail type len kHeaderSize fragment drop_size r)))"
  by pat_completeness auto
termination
proof (relation "measure (\<lambda>(svt, fragment, drop_size, r). read_measure r)", goal_cases)
  case 1
  show ?case by simp
next
  case 2
  then show ?case by (auto dest!: ReadMore_measure simp: kHeader_less)
next
  case (3 svt fragment drop_size r)
  have "read_measure (mark_recycled r) = read_measure r" by (simp add: read_measure_def)
  with 3 show ?case by (auto dest!: ReadMore_measure)
qed

declare ReadPhysicalRecord.simps [simp del]

text \<open>
  One iteration of the loop of \<open>ReadRecord\<close>, after \<open>ReadPhysicalRecord\<close>: the \<open>switch\<close>.
  \<open>Inl\<close> is a \<open>return\<close> with the result, \<open>*record\<close>, \<open>*scratch\<close> and the reader; \<open>Inr\<close> goes round
  with \<open>in_fragmented_record\<close>, \<open>prospective_record_offset\<close>, \<open>*scratch\<close> and the reader.
\<close>

type_synonym 'f read_result = "bool \<times> bytes \<times> bytes \<times> 'f LogReader"

definition drop_tail ::
    "WALRecoveryMode \<Rightarrow> bool \<Rightarrow> bytes \<Rightarrow> 'f LogReader \<Rightarrow> bytes \<times> 'f LogReader" where
  "drop_tail mode in_fragmented scratch r =
     (if in_fragmented then
        ([], if mode = kAbsoluteConsistency
             then ReportCorruption (length scratch) ''error reading trailing data'' r else r)
      else (scratch, r))"

definition drop_fragments :: "bool \<Rightarrow> bytes \<Rightarrow> 'f LogReader \<Rightarrow> bytes \<times> 'f LogReader" where
  "drop_fragments in_fragmented scratch r =
     (if in_fragmented then ([], ReportCorruption (length scratch) ''error in middle of record'' r)
      else (scratch, r))"

definition ReadRecord_switch ::
    "WALRecoveryMode \<Rightarrow> u32 \<Rightarrow> u64 \<Rightarrow> nat \<Rightarrow> bytes \<Rightarrow> bool \<Rightarrow> u64 \<Rightarrow> bytes \<Rightarrow> 'f LogReader \<Rightarrow>
     'f read_result + (bool \<times> u64 \<times> bytes \<times> 'f LogReader)" where
  "ReadRecord_switch mode record_type physical_record_offset drop_size fragment
     in_fragmented prospective scratch r =
     (if record_type = type_code kFullType \<or> record_type = type_code kRecyclableFullType then
        (let r = (if in_fragmented \<and> scratch \<noteq> []
                  then ReportCorruption (length scratch) ''partial record without end(1)'' r else r)
         in Inl (True, fragment, [], r\<lparr>r_last_record_offset := physical_record_offset\<rparr>))
      else if record_type = type_code kFirstType \<or> record_type = type_code kRecyclableFirstType then
        (let r = (if in_fragmented \<and> scratch \<noteq> []
                  then ReportCorruption (length scratch) ''partial record without end(2)'' r else r)
         in Inr (True, physical_record_offset, fragment, r))
      else if record_type = type_code kMiddleType \<or> record_type = type_code kRecyclableMiddleType then
        (if \<not> in_fragmented then
           Inr (in_fragmented, prospective, scratch,
                ReportCorruption (length fragment) ''missing start of fragmented record(1)'' r)
         else Inr (in_fragmented, prospective, scratch @ fragment, r))
      else if record_type = type_code kLastType \<or> record_type = type_code kRecyclableLastType then
        (if \<not> in_fragmented then
           Inr (in_fragmented, prospective, scratch,
                ReportCorruption (length fragment) ''missing start of fragmented record(2)'' r)
         else Inl (True, scratch @ fragment, scratch @ fragment, r\<lparr>r_last_record_offset := prospective\<rparr>))
      else if record_type = kBadHeader \<or> record_type = kEof then
        (let r = (if record_type = kBadHeader \<and> mode = kAbsoluteConsistency
                  then ReportCorruption drop_size ''truncated header'' r else r);
             (scratch, r) = drop_tail mode in_fragmented scratch r
         in Inl (False, [], scratch, r))
      else if record_type = kOldRecord \<and> mode \<noteq> kSkipAnyCorruptedRecords then
        (let (scratch, r) = drop_tail mode in_fragmented scratch r
         in Inl (False, [], scratch, r))
      else if record_type = kOldRecord \<or> record_type = kBadRecord then
        (let (scratch, r) = drop_fragments in_fragmented scratch r
         in Inr (False, prospective, scratch, r))
      else if record_type = kBadRecordLen \<or> record_type = kBadRecordChecksum then
        (if r_recycled r \<and> mode = kTolerateCorruptedTailRecords then Inl (False, [], [], r)
         else
           (let r = (if record_type = kBadRecordLen then ReportCorruption drop_size ''bad record length'' r
                     else ReportCorruption drop_size ''checksum mismatch'' r);
                (scratch, r) = drop_fragments in_fragmented scratch r
            in Inr (False, prospective, scratch, r)))
      else
        Inr (False, prospective, [],
             ReportCorruption (length fragment + (if in_fragmented then length scratch else 0))
               (''unknown record type '' @ decimal (unat record_type)) r))"

partial_function (option) ReadRecord_loop ::
    "'f SequentialFile_vt \<Rightarrow> WALRecoveryMode \<Rightarrow> bytes \<Rightarrow> bool \<Rightarrow> u64 \<Rightarrow> bytes \<Rightarrow> 'f LogReader \<Rightarrow>
     'f read_result option" where
  "ReadRecord_loop svt mode fragment in_fragmented prospective scratch r =
     (let physical_record_offset = r_end_of_buffer_offset r - of_nat (length (r_buffer r))
      in case ReadPhysicalRecord svt fragment 0 r of
           None \<Rightarrow> None
         | Some (record_type, fragment, drop_size, r) \<Rightarrow>
             (case ReadRecord_switch mode record_type physical_record_offset drop_size fragment
                     in_fragmented prospective scratch r of
                Inl result \<Rightarrow> Some result
              | Inr (in_fragmented, prospective, scratch, r) \<Rightarrow>
                  ReadRecord_loop svt mode fragment in_fragmented prospective scratch r))"

definition ReadRecord ::
    "'f SequentialFile_vt \<Rightarrow> WALRecoveryMode \<Rightarrow> bytes \<Rightarrow> bytes \<Rightarrow> 'f LogReader \<Rightarrow> 'f read_result option" where
  "ReadRecord svt mode record_in scratch r =
     (let (positioned, r) = (if r_last_record_offset r < r_initial_offset r
                             then SkipToInitialBlock svt r else (True, r))
      in if \<not> positioned then Some (False, record_in, scratch, r)
         else ReadRecord_loop svt mode [] False 0 [] r)"

definition LastRecordOffset :: "'f LogReader \<Rightarrow> u64" where
  "LastRecordOffset r = r_last_record_offset r"

definition EndOfBufferOffset :: "'f LogReader \<Rightarrow> u64" where
  "EndOfBufferOffset r = r_end_of_buffer_offset r"

definition IsEOF :: "'f LogReader \<Rightarrow> bool" where
  "IsEOF r = r_eof r"

text \<open>
  \<open>buffer_\<close> and the bytes read end up next to each other in \<open>backing_store_\<close>, at the offset
  they have in the block.
\<close>

definition UnmarkEOF :: "'f SequentialFile_vt \<Rightarrow> 'f LogReader \<Rightarrow> 'f LogReader option" where
  "UnmarkEOF svt r =
     (if r_read_error r then Some r
      else
        (let r = r\<lparr>r_eof := False\<rparr>
         in if r_eof_offset r = 0 then Some r
            else
              (let remaining = kBlockSize - r_eof_offset r
               in case SequentialFileReader_Read svt remaining (r_file r) of
                    None \<Rightarrow> None
                  | Some (status, read_buffer, f) \<Rightarrow>
                      (let added = length read_buffer;
                           r = r\<lparr>r_file := f, r_end_of_buffer_offset := r_end_of_buffer_offset r + of_nat added\<rparr>
                       in if \<not> Status_ok status then
                            (let r = (if added > 0 then ReportDrop added status r else r)
                             in Some (r\<lparr>r_read_error := True\<rparr>))
                          else
                            (let r = r\<lparr>r_buffer := r_buffer r @ read_buffer\<rparr>
                             in if added < remaining
                                then Some (r\<lparr>r_eof := True, r_eof_offset := r_eof_offset r + added\<rparr>)
                                else Some (r\<lparr>r_eof_offset := 0\<rparr>))))))"

subsection \<open>Termination\<close>

lemma Report_simps [simp]:
  "r_file (ReportDrop n s r) = r_file r" "r_buffer (ReportDrop n s r) = r_buffer r"
  "r_file (ReportCorruption n m r) = r_file r" "r_buffer (ReportCorruption n m r) = r_buffer r"
  by (simp_all add: ReportDrop_def ReportCorruption_def split: option.splits)

lemma switch_keeps:
  "ReadRecord_switch mode t off d fr infr pro scr r = Inr (infr', pro', scr', r') \<Longrightarrow>
     r_file r' = r_file r \<and> r_buffer r' = r_buffer r"
  by (auto simp: ReadRecord_switch_def Let_def drop_tail_def drop_fragments_def split: if_splits)

lemma switch_stops:
  assumes "t = kEof \<or> t = kBadHeader \<or> t = kOldRecord" and "mode \<noteq> kSkipAnyCorruptedRecords"
  shows "ReadRecord_switch mode t off d fr infr pro scr r \<noteq> Inr x"
  using assms by (auto simp: ReadRecord_switch_def record_codes Let_def split: prod.splits)

lemma ReadPhysicalRecord_tail_progress:
  "r_buffer r \<noteq> [] \<Longrightarrow> 0 < hs \<Longrightarrow>
     ReadPhysicalRecord_tail type len hs fr d r = (t, fr', d', r') \<Longrightarrow>
     r_file r' = r_file r \<and> length (r_buffer r') < length (r_buffer r)"
  by (auto simp: ReadPhysicalRecord_tail_def Let_def split: if_splits)

lemma Report_flags [simp]:
  "r_eof (ReportDrop n s r) = r_eof r" "r_read_error (ReportDrop n s r) = r_read_error r"
  "r_eof (ReportCorruption n m r) = r_eof r" "r_read_error (ReportCorruption n m r) = r_read_error r"
  by (simp_all add: ReportDrop_def ReportCorruption_def split: option.splits)

lemma switch_flags:
  "ReadRecord_switch mode t off d fr infr pro scr r = Inr (infr', pro', scr', r') \<Longrightarrow>
     r_eof r' = r_eof r \<and> r_read_error r' = r_read_error r"
  "ReadRecord_switch mode t off d fr infr pro scr r = Inl (b, rec, scr', r') \<Longrightarrow>
     r_file r' = r_file r \<and> r_eof r' = r_eof r \<and> r_read_error r' = r_read_error r"
  by (auto simp: ReadRecord_switch_def Let_def drop_tail_def drop_fragments_def split: if_splits)

text \<open>No operation changes the initial offset.\<close>

lemma Report_initial_offset [simp]:
  "r_initial_offset (ReportDrop n s r) = r_initial_offset r" "r_initial_offset (ReportCorruption n m r) = r_initial_offset r"
  by (simp_all add: ReportDrop_def ReportCorruption_def split: option.splits)

lemma switch_initial_offset:
  "ReadRecord_switch mode t off d fr infr pro scr r = Inr (infr', pro', scr', r') \<Longrightarrow> r_initial_offset r' = r_initial_offset r"
  "ReadRecord_switch mode t off d fr infr pro scr r = Inl (b, rec, scr', r') \<Longrightarrow> r_initial_offset r' = r_initial_offset r"
  by (auto simp: ReadRecord_switch_def Let_def drop_tail_def drop_fragments_def split: if_splits)

lemma ReadMore_initial_offset:
  "ReadMore svt d r = Some (e, d', r') \<Longrightarrow> r_initial_offset r' = r_initial_offset r"
  by (auto simp: ReadMore_def Let_def split: if_splits option.splits prod.splits)

lemma ReadPhysicalRecord_initial_offset:
  "ReadPhysicalRecord svt fr d r = Some (t, fr', d', r') \<Longrightarrow> r_initial_offset r' = r_initial_offset r"
proof (induction svt fr d r rule: ReadPhysicalRecord.induct)
  case (1 svt fr d r)
  have "r_initial_offset (mark_recycled r) = r_initial_offset r" by simp
  with 1 show ?case
    by (auto simp: ReadPhysicalRecord.simps [of svt fr d r] ReadPhysicalRecord_tail_def Let_def
        dest: ReadMore_initial_offset split: if_splits option.splits)
qed

lemma ReadRecord_loop_initial_offset:
  "ReadRecord_loop svt mode fr infr pro scr r = Some y \<Longrightarrow> r_initial_offset (snd (snd (snd y))) = r_initial_offset r"
proof (induction svt mode fr infr pro scr r y rule: ReadRecord_loop.raw_induct [rotated 1, consumes 1])
  case (1 loop svt mode fr infr pro scr r y)
  from 1(2) obtain t fr1 d1 r1 where ph: "ReadPhysicalRecord svt fr 0 r = Some (t, fr1, d1, r1)"
    by (auto simp: Let_def split: option.splits)
  note off = ReadPhysicalRecord_initial_offset [OF ph]
  show ?case
  proof (cases "ReadRecord_switch mode t (r_end_of_buffer_offset r - of_nat (length (r_buffer r))) d1 fr1 infr pro scr r1")
    case (Inl res)
    obtain b rec scr' r' where res: "res = (b, rec, scr', r')" by (cases res)
    with switch_initial_offset(2) [OF Inl [unfolded res]] 1(2) ph off Inl show ?thesis by auto
  next
    case (Inr st)
    obtain infr2 pro2 scr2 r2 where st: "st = (infr2, pro2, scr2, r2)" by (cases st)
    with switch_initial_offset(1) [OF Inr [unfolded st]] 1(1) [of svt mode fr1 infr2 pro2 scr2 r2 y] 1(2) ph off Inr
    show ?thesis by auto
  qed
qed

lemma ReadRecord_initial_offset:
  "ReadRecord svt mode rec0 scr r = Some (b, rec, scr', r') \<Longrightarrow> r_initial_offset r' = r_initial_offset r"
  by (auto simp: ReadRecord_def SkipToInitialBlock_def Let_def
      dest: ReadRecord_loop_initial_offset split: if_splits prod.splits)

text \<open>The reader will not touch the file again, or the file is in a sound state.\<close>

definition reads_on :: "('f \<Rightarrow> bool) \<Rightarrow> 'f LogReader \<Rightarrow> bool" where
  "reads_on sound r \<longleftrightarrow> r_eof r \<or> r_read_error r \<or> sound (r_file r)"

lemma reads_on_cong:
  "r_file r' = r_file r \<Longrightarrow> r_eof r' = r_eof r \<Longrightarrow> r_read_error r' = r_read_error r \<Longrightarrow> reads_on sound r' = reads_on sound r"
  by (simp add: reads_on_def)

lemma ReadPhysicalRecord_tail_flags:
  "ReadPhysicalRecord_tail type len hs fr d r = (t, fr', d', r') \<Longrightarrow>
     r_file r' = r_file r \<and> r_eof r' = r_eof r \<and> r_read_error r' = r_read_error r"
  by (auto simp: ReadPhysicalRecord_tail_def Let_def split: if_splits)

text \<open>A log file is read in blocks.\<close>

locale log_file = block_file svt left sound kBlockSize
  for svt :: "'f SequentialFile_vt" and left :: "'f \<Rightarrow> nat" and sound :: "'f \<Rightarrow> bool"
begin

lemma ReadMore_finite:
  assumes "reads_on sound r"
  shows "\<exists>e d' r'. ReadMore svt d r = Some (e, d', r') \<and> reads_on sound r' \<and>
           (e = None \<longrightarrow> length (r_buffer r') + left (r_file r') \<le> left (r_file r)) \<and>
           (e = None \<or> e = Some kEof \<or> e = Some kBadHeader)"
proof (cases "r_eof r \<or> r_read_error r")
  case True
  then show ?thesis by (auto simp: ReadMore_def reads_on_def)
next
  case False
  with assms have "sound (r_file r)" by (simp add: reads_on_def)
  from Read_block [OF this] False show ?thesis
    by (auto simp: ReadMore_def SequentialFileReader_Read_def reads_on_def Let_def not_less)
qed

text \<open>Every physical record uses up bytes of the file, or is one that ends the reading.\<close>

lemma ReadPhysicalRecord_finite:
  "reads_on sound r \<Longrightarrow>
     \<exists>t fr' d' r'. ReadPhysicalRecord svt fr d r = Some (t, fr', d', r') \<and> reads_on sound r' \<and>
       (t = kEof \<or> t = kBadHeader \<or> t = kOldRecord \<or>
        length (r_buffer r') + left (r_file r') < length (r_buffer r) + left (r_file r))"
proof (induction "read_measure r" arbitrary: r d rule: less_induct)
  case less
  let ?rest = "\<lambda>r. length (r_buffer r) + left (r_file r)"
  let ?goal = "\<lambda>x. \<exists>t fr' d' r'. x = Some (t, fr', d', r') \<and> reads_on sound r' \<and>
       (t = kEof \<or> t = kBadHeader \<or> t = kOldRecord \<or> ?rest r' < ?rest r)"
  have more: "?goal (case ReadMore svt d q of
           None \<Rightarrow> None
         | Some (Some e, d, r) \<Rightarrow> Some (e, fr, d, r)
         | Some (None, d, r) \<Rightarrow> ReadPhysicalRecord svt fr d r)"
    if q: "r_file q = r_file r" "r_buffer q = r_buffer r" "r_eof q = r_eof r" "r_read_error q = r_read_error r"
      "length (r_buffer r) < kRecyclableHeaderSize" for q
  proof -
    have "reads_on sound q" using less.prems q by (simp add: reads_on_def)
    from ReadMore_finite [OF this, of d] obtain e d1 r1 where
      rm: "ReadMore svt d q = Some (e, d1, r1)" and m: "reads_on sound r1"
        "e = None \<longrightarrow> ?rest r1 \<le> left (r_file r)" "e = None \<or> e = Some kEof \<or> e = Some kBadHeader"
      using q(1) by auto
    show ?thesis
    proof (cases e)
      case None
      with rm q have "read_measure r1 < read_measure r"
        using ReadMore_measure [of svt d q d1 r1] by (simp add: read_measure_def)
      with less.hyps [of r1 d1] m(1) obtain t fr' d' r' where
        "ReadPhysicalRecord svt fr d1 r1 = Some (t, fr', d', r')" "reads_on sound r'"
        "t = kEof \<or> t = kBadHeader \<or> t = kOldRecord \<or> ?rest r' < ?rest r1" by blast
      moreover have "?rest r1 \<le> ?rest r" using m(2) None by simp
      ultimately show ?thesis using rm None by auto
    next
      case (Some a)
      with m rm show ?thesis by auto
    qed
  qed
  have tail: "?goal (Some (ReadPhysicalRecord_tail type len hs fr d q))"
    if "r_file q = r_file r" "r_buffer q = r_buffer r" "r_eof q = r_eof r" "r_read_error q = r_read_error r"
      "r_buffer r \<noteq> []" "0 < hs" for q type len hs
  proof -
    obtain t fr' d' r' where x: "ReadPhysicalRecord_tail type len hs fr d q = (t, fr', d', r')"
      by (cases "ReadPhysicalRecord_tail type len hs fr d q")
    from ReadPhysicalRecord_tail_flags [OF this] ReadPhysicalRecord_tail_progress [OF _ _ this] that less.prems x
    show ?thesis by (simp add: reads_on_def)
  qed
  show ?case
  proof (cases "length (r_buffer r) < kHeaderSize")
    case True
    with more [of r] show ?thesis by (simp add: ReadPhysicalRecord.simps [of svt fr d r] kHeader_less)
  next
    case False
    then have buf: "r_buffer r \<noteq> []" by (auto simp: log_constants)
    have old: "?goal (Some (kOldRecord, fr, d, mark_recycled r))"
      using less.prems by (simp add: reads_on_def)
    have pos: "0 < kHeaderSize" "0 < kRecyclableHeaderSize" by (simp_all add: log_constants)
    from False more [of "mark_recycled r"] old tail [of r, OF _ _ _ _ buf pos(1)]
      tail [of "mark_recycled r", OF _ _ _ _ buf pos(2)]
    show ?thesis by (simp add: ReadPhysicalRecord.simps [of svt fr d r] Let_def)
  qed
qed

lemma ReadRecord_loop_returns:
  "mode \<noteq> kSkipAnyCorruptedRecords \<Longrightarrow> reads_on sound r \<Longrightarrow>
     \<exists>b rec scr' r'. ReadRecord_loop svt mode fr infr pro scr r = Some (b, rec, scr', r') \<and> reads_on sound r'"
proof (induction "length (r_buffer r) + left (r_file r)" arbitrary: r fr infr pro scr rule: less_induct)
  case less
  let ?off = "r_end_of_buffer_offset r - of_nat (length (r_buffer r))"
  from ReadPhysicalRecord_finite [OF less.prems(2), of fr 0] obtain t fr1 d1 r1 where
    ph: "ReadPhysicalRecord svt fr 0 r = Some (t, fr1, d1, r1)" and prog: "reads_on sound r1"
    "t = kEof \<or> t = kBadHeader \<or> t = kOldRecord \<or>
     length (r_buffer r1) + left (r_file r1) < length (r_buffer r) + left (r_file r)" by auto
  show ?case
  proof (cases "ReadRecord_switch mode t ?off d1 fr1 infr pro scr r1")
    case (Inl res)
    obtain b rec scr' r' where res: "res = (b, rec, scr', r')" by (cases res)
    from switch_flags(2) [OF Inl [unfolded res]] prog(1) have "reads_on sound r'" by (simp add: reads_on_def)
    with Inl ph res show ?thesis by (simp add: ReadRecord_loop.simps [of svt mode fr])
  next
    case (Inr st)
    obtain infr2 pro2 scr2 r2 where st: "st = (infr2, pro2, scr2, r2)" by (cases st)
    have "\<not> (t = kEof \<or> t = kBadHeader \<or> t = kOldRecord)"
      using Inr switch_stops less.prems(1) by metis
    moreover have "reads_on sound r2"
      using switch_flags(1) [OF Inr [unfolded st]] switch_keeps [OF Inr [unfolded st]] prog(1)
      by (simp add: reads_on_def)
    ultimately show ?thesis
      using less.hyps [of r2 fr1 infr2 pro2 scr2] switch_keeps [OF Inr [unfolded st]] prog less.prems(1) ph Inr
      by (auto simp: ReadRecord_loop.simps [of svt mode fr] st)
  qed
qed

text \<open>A call of \<open>ReadRecord\<close> returns when the file is in a sound state also behind the skipped blocks.\<close>

lemma ReadRecord_returns:
  assumes "mode \<noteq> kSkipAnyCorruptedRecords" and "reads_on sound r"
    and "\<And>b r'. r_last_record_offset r < r_initial_offset r \<Longrightarrow> SkipToInitialBlock svt r = (b, r') \<Longrightarrow> reads_on sound r'"
  shows "\<exists>b rec scr' r'. ReadRecord svt mode rec0 scr r = Some (b, rec, scr', r') \<and> reads_on sound r'"
  using assms(2,3) ReadRecord_loop_returns [OF assms(1)]
  by (cases "SkipToInitialBlock svt r") (auto simp: ReadRecord_def Let_def)

end

context finite_file
begin

lemma SkipToInitialBlock_sound:
  "reads_on sound r \<Longrightarrow> SkipToInitialBlock svt r = (b, r') \<Longrightarrow> reads_on sound r'"
  using Skip_finite
  by (auto simp: SkipToInitialBlock_def SequentialFileReader_Skip_def reads_on_def Let_def split: if_splits prod.splits)

end

sublocale finite_file \<subseteq> in_log_blocks: log_file svt left sound
  by unfold_locales

subsection \<open>Reading what was written\<close>

text \<open>
  The reader stands at block offset \<open>bo\<close> of a log with \<open>rest\<close> still to come: the buffer
  holds the rest of the block, the file what follows, and the end of the file has been
  noticed exactly when the block is incomplete. A fresh reader stands at the end of an
  imaginary block. Nothing has been reported.
\<close>

definition reader_at ::
    "('f \<Rightarrow> bytes) \<Rightarrow> ('f \<Rightarrow> bool) \<Rightarrow> u64 \<Rightarrow> nat \<Rightarrow> bytes \<Rightarrow> 'f LogReader \<Rightarrow> bool" where
  "reader_at remaining sound log_number bo rest r \<longleftrightarrow>
     sound (r_file r) \<and> \<not> r_read_error r \<and> bo \<le> kBlockSize \<and>
     r_buffer r = take (kBlockSize - bo) rest \<and> remaining (r_file r) = drop (kBlockSize - bo) rest \<and>
     (r_eof r \<longleftrightarrow> length rest < kBlockSize - bo) \<and>
     r_initial_offset r = 0 \<and> r_log_number r = log_number"

lemma length_field:
  assumes "n < 65536"
  shows "unat (ucast (of_nat (n mod 256) :: byte) AND 0xff OR
               push_bit 8 (ucast (of_nat (n div 256) :: byte) AND 0xff) :: u32) = n"
proof -
  have small: "bit n i \<Longrightarrow> i < 16" for i
    using take_bit_nat_eq_self [of n 16] assms bit_take_bit_iff [of 16 n i] by simp
  have parts: "n mod 256 = take_bit 8 n" "n div 256 = drop_bit 8 n"
    by (simp_all add: take_bit_eq_mod drop_bit_eq_div)
  have "(ucast (of_nat (n mod 256) :: byte) AND 0xff OR
         push_bit 8 (ucast (of_nat (n div 256) :: byte) AND 0xff) :: u32) = of_nat n"
    unfolding parts by (rule bit_word_eqI) (auto simp: bit_simps and_255 dest: small)
  then show ?thesis using assms by (simp add: unat_of_nat_small)
qed

lemma header_fields:
  assumes "length p < 65536"
  shows "header_type (physical_record ln t p @ z) = type_code t"
    and "unat (header_length (physical_record ln t p @ z)) = length p"
    and "header_recyclable (physical_record ln t p @ z) \<longleftrightarrow> \<not> RecordType_code t < 5"
    and "\<not> RecordType_code t < 5 \<Longrightarrow> DecodeFixed32 (drop 7 (physical_record ln t p @ z)) = ucast ln"
    and "Unmask (DecodeFixed32 (physical_record ln t p @ z))
         = crc32c_Value (take (length (physical_record ln t p) - 6) (drop 6 (physical_record ln t p @ z)))"
    and "drop (length (physical_record ln t p) - length p) (physical_record ln t p @ z) = p @ z"
proof -
  let ?h = "physical_record ln t p @ z"
  show type: "header_type ?h = type_code t"
    by (cases t) (simp_all add: header_type_def physical_record_def Let_def nth_append type_code_def)
  show "unat (header_length ?h) = length p"
    using length_field [OF assms]
    by (simp add: header_length_def physical_record_def Let_def nth_append)
  show "header_recyclable ?h \<longleftrightarrow> \<not> RecordType_code t < 5"
    unfolding header_recyclable_def type by (cases t) (simp_all add: type_code_def word_le_nat_alt)
  show "\<not> RecordType_code t < 5 \<Longrightarrow> DecodeFixed32 (drop 7 ?h) = ucast ln"
    by (simp add: physical_record_def Let_def DecodeFixed32_Encode)
  show "Unmask (DecodeFixed32 ?h) = crc32c_Value (take (length (physical_record ln t p) - 6) (drop 6 ?h))"
    by (simp add: physical_record_def Let_def DecodeFixed32_Encode)
  show "drop (length (physical_record ln t p) - length p) ?h = p @ z"
    by (simp add: physical_record_def Let_def)
qed

text \<open>The log number of a recyclable record is compared with all 64 bits of the reader's.\<close>

definition readable_number :: "bool \<Rightarrow> u64 \<Rightarrow> bool" where
  "readable_number recycle log_number \<longleftrightarrow> recycle \<longrightarrow> log_number < 2 ^ 32"

lemma readable_number_ucast: "readable_number True ln \<Longrightarrow> ucast (ucast ln :: u32) = ln"
proof -
  assume "readable_number True ln"
  then have "take_bit 32 ln = ln"
    by (intro word_unat_eq_iff [THEN iffD2])
       (simp add: readable_number_def word_less_nat_alt unsigned_take_bit_eq take_bit_nat_eq_self)
  moreover have "ucast (ucast ln :: u32) = take_bit 32 ln"
    by (rule bit_word_eqI) (auto simp: bit_simps)
  ultimately show ?thesis by simp
qed

lemma ReadPhysicalRecord_whole:
  assumes "kHeaderSize \<le> length (r_buffer r)"
    and "header_recyclable (r_buffer r) \<Longrightarrow> kRecyclableHeaderSize \<le> length (r_buffer r) \<and>
           ucast (DecodeFixed32 (drop 7 (r_buffer r))) = r_log_number r"
  shows "ReadPhysicalRecord svt fr d r = Some
           (if header_recyclable (r_buffer r)
            then ReadPhysicalRecord_tail (header_type (r_buffer r)) (unat (header_length (r_buffer r)))
                   kRecyclableHeaderSize fr d (mark_recycled r)
            else ReadPhysicalRecord_tail (header_type (r_buffer r)) (unat (header_length (r_buffer r)))
                   kHeaderSize fr d r)"
  using assms by (cases "header_recyclable (r_buffer r)")
    (simp_all add: ReadPhysicalRecord.simps [of svt fr d r] Let_def)

lemma reader_at_last_offset [simp]:
  "reader_at remaining sound ln bo rest (r\<lparr>r_last_record_offset := x\<rparr>)
   = reader_at remaining sound ln bo rest r"
  by (simp add: reader_at_def)

text \<open>How the \<open>switch\<close> treats the fragments of a record that arrive in order.\<close>

lemma switch_fragments:
  "ReadRecord_switch mode (type_code (fragment_type recycle True True)) off d q False pro scr r
   = Inl (True, q, [], r\<lparr>r_last_record_offset := off\<rparr>)"
  "ReadRecord_switch mode (type_code (fragment_type recycle True False)) off d q False pro scr r
   = Inr (True, off, q, r)"
  "ReadRecord_switch mode (type_code (fragment_type recycle False False)) off d q True pro scr r
   = Inr (True, pro, scr @ q, r)"
  "ReadRecord_switch mode (type_code (fragment_type recycle False True)) off d q True pro scr r
   = Inl (True, scr @ q, scr @ q, r\<lparr>r_last_record_offset := pro\<rparr>)"
  "ReadRecord_switch mode kBadRecord off d q False pro scr r = Inr (False, pro, scr, r)"
  by (simp_all add: ReadRecord_switch_def fragment_type_def record_codes drop_fragments_def)

text \<open>The reporter has received at least one more call.\<close>

definition reported :: "'f LogReader \<Rightarrow> 'f LogReader \<Rightarrow> bool" where
  "reported r r' \<longleftrightarrow>
     (case r_reporter r of None \<Rightarrow> True | Some calls \<Rightarrow> \<exists>c. c \<noteq> [] \<and> r_reporter r' = Some (calls @ c))"

lemma ReportCorruption_at_0:
  "r_initial_offset r = 0 \<Longrightarrow> r_reporter r = Some calls \<Longrightarrow>
     \<exists>x. r_reporter (ReportCorruption n m r) = Some (calls @ [x])"
  by (auto simp: ReportCorruption_def ReportDrop_def)

lemma ReportCorruption_simps [simp]:
  "r_log_number (ReportCorruption n m r) = r_log_number r"
  "r_reporter r = None \<Longrightarrow> r_reporter (ReportCorruption n m r) = None"
  by (simp_all add: ReportCorruption_def ReportDrop_def split: option.splits)

lemma switch_end:
  assumes "t = kEof \<or> t = kBadHeader"
  shows "\<exists>scr' r'. ReadRecord_switch mode t off d q infr pro scr r = Inl (False, [], scr', r') \<and>
           (mode \<noteq> kAbsoluteConsistency \<longrightarrow> r_reporter r' = r_reporter r) \<and>
           (mode = kAbsoluteConsistency \<and> r_initial_offset r = 0 \<and> (infr \<or> t = kBadHeader) \<longrightarrow>
              reported r r')"
proof -
  define r1 where "r1 = (if t = kBadHeader \<and> mode = kAbsoluteConsistency
    then ReportCorruption d ''truncated header'' r else r)"
  define r2 where "r2 = (if infr \<and> mode = kAbsoluteConsistency
    then ReportCorruption (length scr) ''error reading trailing data'' r1 else r1)"
  have "ReadRecord_switch mode t off d q infr pro scr r = Inl (False, [], if infr then [] else scr, r2)"
    using assms by (auto simp: ReadRecord_switch_def record_codes r1_def r2_def drop_tail_def)
  moreover have "reported r r2"
    if hyp: "mode = kAbsoluteConsistency" "r_initial_offset r = 0" "infr \<or> t = kBadHeader"
  proof (cases "r_reporter r")
    case (Some calls)
    have "r_initial_offset r1 = 0" using hyp(2) by (simp add: r1_def)
    moreover have "\<exists>c. r_reporter r1 = Some (calls @ c) \<and> (t = kBadHeader \<longrightarrow> c \<noteq> [])"
      using ReportCorruption_at_0 [OF hyp(2) Some, of d "''truncated header''"] Some hyp(1)
      by (cases "t = kBadHeader") (auto simp: r1_def)
    ultimately obtain c where c: "r_initial_offset r1 = 0" "r_reporter r1 = Some (calls @ c)"
      "t = kBadHeader \<longrightarrow> c \<noteq> []" by blast
    from ReportCorruption_at_0 [OF c(1,2), of "length scr" "''error reading trailing data''"]
    show ?thesis using c hyp(1,3) Some by (cases infr) (auto simp: reported_def r2_def)
  qed (simp add: reported_def)
  ultimately show ?thesis by (auto simp: r1_def r2_def)
qed

text \<open>One fragment, with the padding before it; more padding than a header is dealt with apart.\<close>

definition short_padding :: "bool \<Rightarrow> nat \<Rightarrow> bool" where
  "short_padding recycle bo \<longleftrightarrow>
     length (block_padding recycle bo) < kHeaderSize"

lemma short_padding_kBlockSize [simp]: "short_padding recycle kBlockSize"
  by (simp add: short_padding_def block_padding_def log_constants)

lemma padding_switch:
  "(block_padding recycle bo = [] \<and> block_start recycle bo = bo) \<or>
   (length (block_padding recycle bo) = kBlockSize - bo \<and> block_start recycle bo = 0)"
  by (auto simp: block_padding_def block_start_def)

lemma record_image_padding:
  assumes "kBlockSize - bo < log_header_size recycle"
  shows "record_image recycle ln b bo p =
         (block_padding recycle bo @ fst (record_image recycle ln b kBlockSize p),
          snd (record_image recycle ln b kBlockSize p))"
proof -
  have "block_start recycle bo = 0" "block_start recycle kBlockSize = 0"
    "fragment_room recycle bo = fragment_room recycle kBlockSize" "block_padding recycle kBlockSize = []"
    using assms by (simp_all add: block_start_def fragment_room_def block_padding_def log_constants)
  then show ?thesis
    by (subst (1 2 3) record_image.simps) (simp add: Let_def split: prod.splits)
qed

lemma block_start_fits: "block_start recycle bo + log_header_size recycle \<le> kBlockSize"
  by (auto simp: block_start_def log_constants)

lemma fragment_type_nonzero: "fragment_type recycle b e \<noteq> kZeroType"
  by (simp add: fragment_type_def)

text \<open>The first fragment of an image and what is left of the record behind it.\<close>

lemma record_image_cases:
  assumes cut: "n = min (length p) (fragment_room recycle bo)"
  obtains (last) "n = length p" "n \<le> fragment_room recycle bo"
      "record_image recycle ln b bo p =
        (block_padding recycle bo @ physical_record ln (fragment_type recycle b True) p,
         block_start recycle bo + log_header_size recycle + length p)"
    | (more) "n = fragment_room recycle bo" "n < length p"
      "record_image recycle ln b bo p =
        (block_padding recycle bo @ physical_record ln (fragment_type recycle b False) (take n p) @
           fst (record_image recycle ln False kBlockSize (drop n p)),
         snd (record_image recycle ln False kBlockSize (drop n p)))"
proof (cases "length p \<le> fragment_room recycle bo")
  case True
  with cut have "n = length p" by simp
  with True last show ?thesis by (simp add: record_image.simps [of recycle ln b bo p] Let_def)
next
  case False
  then have "block_start recycle bo + log_header_size recycle + fragment_room recycle bo = kBlockSize"
    using block_start_fits [of recycle bo] by (simp add: fragment_room_def)
  with False cut more show ?thesis
    by (simp add: record_image.simps [of recycle ln b bo p] Let_def split: prod.splits)
qed

text \<open>Reading a given number of records, and how many records the first \<open>m\<close> bytes of a log hold.\<close>

fun ReadRecords ::
    "'f SequentialFile_vt \<Rightarrow> WALRecoveryMode \<Rightarrow> nat \<Rightarrow> 'f LogReader \<Rightarrow> (bytes list \<times> 'f LogReader) option" where
  "ReadRecords svt mode 0 r = Some ([], r)"
| "ReadRecords svt mode (Suc n) r =
     (case ReadRecord svt mode [] [] r of
        Some (True, rec, scratch, r) \<Rightarrow> map_option (\<lambda>(recs, r). (rec # recs, r)) (ReadRecords svt mode n r)
      | _ \<Rightarrow> None)"

fun complete_records :: "bool \<Rightarrow> u64 \<Rightarrow> nat \<Rightarrow> nat \<Rightarrow> bytes list \<Rightarrow> nat" where
  "complete_records recycle ln bo m [] = 0"
| "complete_records recycle ln bo m (p # ps) =
     (let (img, bo') = record_image recycle ln True bo p
      in if length img \<le> m then Suc (complete_records recycle ln bo' (m - length img) ps) else 0)"

text \<open>The log ends inside the bytes of a record, behind the padding before it.\<close>

fun cut_inside :: "bool \<Rightarrow> u64 \<Rightarrow> nat \<Rightarrow> nat \<Rightarrow> bytes list \<Rightarrow> bool" where
  "cut_inside recycle ln bo m [] = False"
| "cut_inside recycle ln bo m (p # ps) =
     (let (img, bo') = record_image recycle ln True bo p
      in if length img \<le> m then cut_inside recycle ln bo' (m - length img) ps
         else length (block_padding recycle bo) < m)"

lemma complete_records_le: "complete_records recycle ln bo m ps \<le> length ps"
  by (induction ps arbitrary: bo m) (auto simp: Let_def split: prod.splits)

lemma complete_records_all:
  "length (fst (log_image recycle ln bo ps)) \<le> m \<Longrightarrow> complete_records recycle ln bo m ps = length ps"
  by (induction ps arbitrary: bo m) (auto simp: Let_def split: prod.splits)

subsection \<open>Records of another log\<close>

definition old_record_front :: "'f LogReader \<Rightarrow> bool" where
  "old_record_front r \<longleftrightarrow>
     kRecyclableHeaderSize \<le> length (r_buffer r) \<and> header_recyclable (r_buffer r) \<and>
     ucast (DecodeFixed32 (drop 7 (r_buffer r))) \<noteq> r_log_number r"

lemma ReadPhysicalRecord_old:
  "old_record_front r \<Longrightarrow> ReadPhysicalRecord svt fr d r = Some (kOldRecord, fr, d, mark_recycled r)"
  by (auto simp: old_record_front_def ReadPhysicalRecord.simps [of svt fr d r] log_constants Let_def)

lemma switch_old_salvage:
  assumes "old_record_front r"
  shows "\<exists>scr' r'. ReadRecord_switch kSkipAnyCorruptedRecords kOldRecord off d fr infr pro scr (mark_recycled r)
           = Inr (False, pro, scr', r') \<and> old_record_front r'"
  using assms
  by (auto simp: ReadRecord_switch_def record_codes drop_fragments_def old_record_front_def)

text \<open>
  In salvage mode such a record is neither consumed nor the end: the loop meets it again and
  again.
\<close>

lemma salvage_loop_diverges:
  assumes "ReadRecord_loop svt mode fr infr pro scr r = Some y"
    and "mode = kSkipAnyCorruptedRecords"
  shows "\<not> old_record_front r"
proof -
  have "mode = kSkipAnyCorruptedRecords \<longrightarrow> \<not> old_record_front r"
  proof (rule ReadRecord_loop.raw_induct [where P = "\<lambda>svt mode fr infr pro scr r y.
        mode = kSkipAnyCorruptedRecords \<longrightarrow> \<not> old_record_front r", OF _ assms(1)], intro impI notI)
    fix f svt mode fr infr pro scr r y
    assume hyp: "\<And>svt mode fr infr pro scr (r :: 'a LogReader) y. f svt mode fr infr pro scr r = Some y \<Longrightarrow>
        mode = kSkipAnyCorruptedRecords \<longrightarrow> \<not> old_record_front r"
      and body: "(let physical_record_offset = r_end_of_buffer_offset r - of_nat (length (r_buffer r))
        in case ReadPhysicalRecord svt fr 0 r of
           None \<Rightarrow> None
         | Some (record_type, fragment, drop_size, r) \<Rightarrow>
             (case ReadRecord_switch mode record_type physical_record_offset drop_size fragment
                     infr pro scr r of
                Inl result \<Rightarrow> Some result
              | Inr (in_fragmented, prospective, scratch, r) \<Rightarrow>
                  f svt mode fragment in_fragmented prospective scratch r)) = Some y"
      and mode: "mode = kSkipAnyCorruptedRecords" and old: "old_record_front (r :: 'a LogReader)"
    from switch_old_salvage [OF old] obtain scr' r' where
      "ReadRecord_switch mode kOldRecord (r_end_of_buffer_offset r - of_nat (length (r_buffer r))) 0 fr
         infr pro scr (mark_recycled r) = Inr (False, pro, scr', r')" "old_record_front r'"
      using mode by blast
    with hyp [of svt mode fr False pro scr' r' y] body mode ReadPhysicalRecord_old [OF old, of svt fr 0]
    show False by simp
  qed
  with assms(2) show ?thesis by simp
qed

context sequential_file
begin

abbreviation rd_at :: "u64 \<Rightarrow> nat \<Rightarrow> bytes \<Rightarrow> 'f LogReader \<Rightarrow> bool" where
  "rd_at \<equiv> reader_at remaining sound"

lemma ReadMore_next_block:
  assumes "rd_at ln bo rest r" and "\<not> r_eof r"
  shows "\<exists>r'. ReadMore svt d r = Some (None, d, r') \<and> rd_at ln 0 (drop (kBlockSize - bo) rest) r' \<and>
           r_reporter r' = r_reporter r \<and> r_checksum r' = r_checksum r"
proof -
  from assms have r: "sound (r_file r)" "\<not> r_read_error r"
    "remaining (r_file r) = drop (kBlockSize - bo) rest" by (auto simp: reader_at_def)
  from Read_law [OF r(1), of kBlockSize] obtain s f' where
    "sf_Read svt kBlockSize (r_file r) = Some (s, take kBlockSize (remaining (r_file r)), f')" "Status_ok s"
    "sound f'" "remaining f' = drop kBlockSize (remaining (r_file r))" by blast
  with assms r show ?thesis
    by (auto simp: ReadMore_def SequentialFileReader_Read_def Let_def reader_at_def)
qed

lemma skip_short_padding:
  assumes "rd_at ln bo (pad @ x) r" and "length pad = kBlockSize - bo" and "length pad < kHeaderSize"
  shows "\<exists>r'. ReadPhysicalRecord svt fr d r = ReadPhysicalRecord svt fr d r' \<and> rd_at ln 0 x r' \<and>
           r_reporter r' = r_reporter r \<and> r_checksum r' = r_checksum r"
proof -
  from assms have "\<not> r_eof r" "length (r_buffer r) < kHeaderSize" by (auto simp: reader_at_def)
  with ReadMore_next_block [OF assms(1), of d] assms(2) show ?thesis
    by (auto simp: ReadPhysicalRecord.simps [of svt fr d r])
qed

lemma zero_header:
  assumes "kHeaderSize \<le> n"
  shows "header_type (replicate n 0) = 0" "header_length (replicate n 0) = 0"
    "\<not> header_recyclable (replicate n 0)"
  using assms
  by (simp_all add: header_type_def header_length_def header_recyclable_def type_code_def log_constants)

lemma skip_zeros:
  assumes "r_buffer r = replicate n 0" and "kHeaderSize \<le> n"
  shows "ReadPhysicalRecord svt fr d r = Some (kBadRecord, fr, d, r\<lparr>r_buffer := []\<rparr>)"
  using assms zero_header [OF assms(2)]
  by (subst ReadPhysicalRecord_whole) (simp_all add: ReadPhysicalRecord_tail_def type_code_def)

lemma read_whole:
  assumes r: "rd_at ln bo (physical_record ln t p @ z) r"
    and hs: "hs = (if RecordType_code t < 5 then kHeaderSize else kRecyclableHeaderSize)"
    and fits: "bo + hs + length p \<le> kBlockSize" and "t \<noteq> kZeroType"
    and num: "readable_number (\<not> RecordType_code t < 5) ln"
  shows "\<exists>r'. ReadPhysicalRecord svt fr d r = Some (type_code t, p, d, r') \<and> rd_at ln (bo + hs + length p) z r' \<and>
           r_reporter r' = r_reporter r \<and> r_checksum r' = r_checksum r"
proof -
  define z' where "z' = take (kBlockSize - bo - (hs + length p)) z"
  have len: "length (physical_record ln t p) = hs + length p" by (simp add: length_physical_record hs)
  have buf: "r_buffer r = physical_record ln t p @ z'"
    using r fits by (simp add: reader_at_def z'_def len)
  have small: "length p < 65536" using fits by (simp add: kBlockSize_def)
  note fields = header_fields [OF small, where ln = ln and t = t and z = z']
  have type: "type_code t \<noteq> type_code kZeroType"
    using \<open>t \<noteq> kZeroType\<close> by (cases t) (simp_all add: type_code_def)
  define q where "q = (if RecordType_code t < 5 then r else mark_recycled r)"
  have q: "r_buffer q = r_buffer r" "r_initial_offset q = 0"
    using r by (simp_all add: q_def reader_at_def)
  have "ReadPhysicalRecord svt fr d r = Some (ReadPhysicalRecord_tail (type_code t) (length p) hs fr d q)"
  proof (cases "RecordType_code t < 5")
    case True
    with fields len show ?thesis
      by (subst ReadPhysicalRecord_whole) (simp_all add: buf hs q_def)
  next
    case False
    moreover have "r_log_number r = ln" using r by (simp add: reader_at_def)
    ultimately show ?thesis
      using fields len num
      by (subst ReadPhysicalRecord_whole)
         (simp_all add: buf hs q_def readable_number_ucast kHeader_le add.assoc)
  qed
  also have "\<dots> = Some (type_code t, p, d, q\<lparr>r_buffer := z'\<rparr>)"
  proof -
    have "drop hs (physical_record ln t p @ z') = p @ z'"
      using fields(6) len by simp
    moreover have "length p + hs - 6 = length (physical_record ln t p) - 6" using len by simp
    ultimately show ?thesis
      using type q fields(5) len by (simp add: ReadPhysicalRecord_tail_def buf Let_def)
  qed
  finally have "ReadPhysicalRecord svt fr d r = Some (type_code t, p, d, q\<lparr>r_buffer := z'\<rparr>)" .
  moreover have "rd_at ln (bo + hs + length p) z (q\<lparr>r_buffer := z'\<rparr>)"
    using r fits len by (auto simp: reader_at_def q_def z'_def add.assoc)
  ultimately show ?thesis by (auto simp: q_def)
qed

text \<open>At the end of the file an incomplete header ends the reading.\<close>

lemma ReadMore_at_eof:
  "r_eof r \<Longrightarrow> ReadMore svt d r = Some
     (if r_buffer r = [] then (Some kEof, d, r\<lparr>r_buffer := []\<rparr>)
      else (Some kBadHeader, length (r_buffer r), r\<lparr>r_buffer := []\<rparr>))"
  by (simp add: ReadMore_def)

lemma header_fields_cut:
  assumes "n \<le> length h" and "kHeaderSize \<le> n"
  shows "header_type (take n h) = header_type h" "header_length (take n h) = header_length h"
    "header_recyclable (take n h) = header_recyclable h"
    "kRecyclableHeaderSize \<le> n \<Longrightarrow> DecodeFixed32 (drop 7 (take n h)) = DecodeFixed32 (drop 7 h)"
  using assms
  by (simp_all add: header_type_def header_length_def header_recyclable_def log_constants
      DecodeFixed32_eq drop_take min_absorb1 min_absorb2)

lemma read_cut:
  assumes buf: "r_buffer r = take m (physical_record ln t p)" and eof: "r_eof r"
    and m: "m < length (physical_record ln t p)" and small: "length p < 65536"
    and num: "readable_number (\<not> RecordType_code t < 5) ln" and "r_log_number r = ln"
  shows "\<exists>t' d' r'. ReadPhysicalRecord svt fr d r = Some (t', fr, d', r') \<and>
           t' = (if m = 0 then kEof else kBadHeader) \<and> r_reporter r' = r_reporter r \<and>
           r_initial_offset r' = r_initial_offset r"
proof (cases "m < kHeaderSize \<or> \<not> RecordType_code t < 5 \<and> m < kRecyclableHeaderSize")
  case short: True
  have rec: "header_recyclable (r_buffer r) \<longleftrightarrow> \<not> RecordType_code t < 5" if "kHeaderSize \<le> m"
    using header_fields(3) [OF small, of ln t "[]"] header_fields_cut(3) [of m] m that by (simp add: buf)
  show ?thesis
  proof (cases "m < kHeaderSize")
    case True
    with m eof show ?thesis
      by (auto simp: ReadPhysicalRecord.simps [of svt fr d r] buf ReadMore_at_eof split: if_splits)
  next
    case False
    with short rec m eof show ?thesis
      by (auto simp: ReadPhysicalRecord.simps [of svt fr d r] buf ReadMore_at_eof Let_def log_constants
          split: if_splits)
  qed
next
  case False
  then have h: "kHeaderSize \<le> m" "\<not> RecordType_code t < 5 \<Longrightarrow> kRecyclableHeaderSize \<le> m" by auto
  note fields = header_fields [OF small, where ln = ln and t = t and z = "[]", unfolded append_Nil2]
  note cut = header_fields_cut [OF less_imp_le [OF m] h(1)]
  have len: "length (physical_record ln t p)
      = (if RecordType_code t < 5 then kHeaderSize else kRecyclableHeaderSize) + length p"
    by (rule length_physical_record)
  have "m \<noteq> 0" using h(1) by (simp add: log_constants)
  then show ?thesis
    using m eof num \<open>r_log_number r = ln\<close> h fields(1-4) cut len
    by (subst ReadPhysicalRecord_whole)
       (auto simp: buf readable_number_ucast ReadPhysicalRecord_tail_def Let_def split: if_splits)
qed

lemma read_fragment:
  assumes r: "rd_at ln bo (block_padding recycle bo @ physical_record ln t q @ z) r"
    and pad: "short_padding recycle bo" and t: "t \<noteq> kZeroType" "RecordType_code t < 5 \<longleftrightarrow> \<not> recycle"
    and fits: "block_start recycle bo + log_header_size recycle + length q \<le> kBlockSize"
    and num: "readable_number recycle ln"
  shows "\<exists>r'. ReadPhysicalRecord svt fr d r = Some (type_code t, q, d, r') \<and>
           rd_at ln (block_start recycle bo + log_header_size recycle + length q) z r' \<and>
           r_reporter r' = r_reporter r"
proof -
  have hs: "log_header_size recycle = (if RecordType_code t < 5 then kHeaderSize else kRecyclableHeaderSize)"
    using t(2) by (simp add: log_header_size_def)
  have num': "readable_number (\<not> RecordType_code t < 5) ln" using num t(2) by simp
  obtain r1 where r1: "ReadPhysicalRecord svt fr d r = ReadPhysicalRecord svt fr d r1"
      "rd_at ln (block_start recycle bo) (physical_record ln t q @ z) r1" "r_reporter r1 = r_reporter r"
    using padding_switch [of recycle bo] skip_short_padding [OF r, of fr d] r pad
    by (auto simp: short_padding_def)
  from read_whole [OF r1(2) hs fits t(1) num', of fr d] r1 show ?thesis by auto
qed

lemma read_fragment_cut:
  assumes r: "rd_at ln bo (take m (block_padding recycle bo @ physical_record ln t q)) r"
    and m: "m < length (block_padding recycle bo @ physical_record ln t q)"
    and pad: "short_padding recycle bo" and t: "RecordType_code t < 5 \<longleftrightarrow> \<not> recycle"
    and fits: "block_start recycle bo + log_header_size recycle + length q \<le> kBlockSize"
    and num: "readable_number recycle ln"
  shows "\<exists>t' d' r'. ReadPhysicalRecord svt fr d r = Some (t', fr, d', r') \<and> (t' = kEof \<or> t' = kBadHeader) \<and>
           (length (block_padding recycle bo) < m \<longrightarrow> t' = kBadHeader) \<and>
           r_reporter r' = r_reporter r \<and> r_initial_offset r' = 0"
proof (cases "m < length (block_padding recycle bo)")
  case True
  with padding_switch [of recycle bo] pad r have "r_eof r" "length (r_buffer r) < kHeaderSize"
      "r_initial_offset r = 0"
    by (auto simp: reader_at_def short_padding_def)
  with True show ?thesis
    by (auto simp: ReadPhysicalRecord.simps [of svt fr d r] ReadMore_at_eof split: if_splits)
next
  case False
  define k where "k = m - length (block_padding recycle bo)"
  have r': "rd_at ln bo (block_padding recycle bo @ take k (physical_record ln t q)) r"
    using r False by (simp add: k_def)
  have num': "readable_number (\<not> RecordType_code t < 5) ln" using num t by simp
  have k: "k < length (physical_record ln t q)" using m False by (simp add: k_def)
  have len: "block_start recycle bo + length (physical_record ln t q) \<le> kBlockSize"
    using fits t by (cases recycle) (simp_all add: length_physical_record log_header_size_def)
  obtain r1 where r1: "ReadPhysicalRecord svt fr d r = ReadPhysicalRecord svt fr d r1"
      "rd_at ln (block_start recycle bo) (take k (physical_record ln t q)) r1" "r_reporter r1 = r_reporter r"
    using padding_switch [of recycle bo] skip_short_padding [OF r', of fr d] r' pad
    by (auto simp: short_padding_def)
  have "r_buffer r1 = take k (physical_record ln t q)" "r_eof r1" "r_log_number r1 = ln"
      "r_initial_offset r1 = 0"
    using r1(2) k len by (auto simp: reader_at_def)
  moreover have "length q < 65536" using fits by (simp add: kBlockSize_def)
  ultimately obtain t' d' r' where "ReadPhysicalRecord svt fr d r1 = Some (t', fr, d', r')"
      "t' = (if k = 0 then kEof else kBadHeader)" "r_reporter r' = r_reporter r1"
      "r_initial_offset r' = 0"
    using read_cut [OF _ _ k _ num', of r1 fr d] by auto
  then show ?thesis using r1 by (auto simp: k_def split: if_splits)
qed

lemma read_record_short:
  "rd_at ln bo (fst (record_image recycle ln b bo p) @ z) r \<Longrightarrow> short_padding recycle bo \<Longrightarrow>
   readable_number recycle ln \<Longrightarrow> (b \<longrightarrow> \<not> infr \<and> acc = []) \<Longrightarrow> (\<not> b \<longrightarrow> infr \<and> scr = acc) \<Longrightarrow>
   \<exists>scr' r'. ReadRecord_loop svt mode fr infr pro scr r = Some (True, acc @ p, scr', r') \<and>
     rd_at ln (snd (record_image recycle ln b bo p)) z r' \<and> r_reporter r' = r_reporter r"
proof (induction recycle ln b bo p arbitrary: infr acc scr pro fr r rule: record_image.induct)
  case (1 recycle ln b bo p)
  define n where "n = min (length p) (fragment_room recycle bo)"
  have room: "block_start recycle bo + log_header_size recycle + n \<le> kBlockSize"
    using block_start_fits [of recycle bo] by (simp add: n_def fragment_room_def)
  note frag = read_fragment [OF _ "1.prems"(2) fragment_type_nonzero fragment_type_recyclable _ "1.prems"(3),
      where q = "take n p" and fr = fr and d = 0 and r = r]
  from n_def show ?case
  proof (cases rule: record_image_cases [where ln = ln and b = b])
    case last
    with frag [of b True z] "1.prems"(1) room obtain r' where
      "ReadPhysicalRecord svt fr 0 r = Some (type_code (fragment_type recycle b True), p, 0, r')"
      "rd_at ln (block_start recycle bo + log_header_size recycle + length p) z r'"
      "r_reporter r' = r_reporter r" by auto
    with last "1.prems"(4,5) show ?thesis
      by (cases b) (simp_all add: ReadRecord_loop.simps [of svt mode fr] switch_fragments)
  next
    case more
    let ?z = "fst (record_image recycle ln False kBlockSize (drop n p)) @ z"
    from more frag [of b False ?z] "1.prems"(1) room obtain r1 where
      r1: "ReadPhysicalRecord svt fr 0 r = Some (type_code (fragment_type recycle b False), take n p, 0, r1)"
        "rd_at ln (block_start recycle bo + log_header_size recycle + n) ?z r1"
        "r_reporter r1 = r_reporter r" by auto
    have full: "block_start recycle bo + log_header_size recycle + n = kBlockSize"
      using more(1) block_start_fits [of recycle bo] by (simp add: fragment_room_def)
    define pro1 where "pro1 = (if b then r_end_of_buffer_offset r - of_nat (length (r_buffer r)) else pro)"
    have step: "ReadRecord_loop svt mode fr infr pro scr r
        = ReadRecord_loop svt mode (take n p) True pro1 (acc @ take n p) r1"
      using "1.prems"(4,5) r1(1)
      by (cases b) (simp_all add: ReadRecord_loop.simps [of svt mode fr] switch_fragments pro1_def)
    have "\<exists>scr' r'. ReadRecord_loop svt mode (take n p) True pro1 (acc @ take n p) r1
          = Some (True, (acc @ take n p) @ drop n p, scr', r') \<and>
        rd_at ln (snd (record_image recycle ln False kBlockSize (drop n p))) z r' \<and>
        r_reporter r' = r_reporter r1"
      using "1.IH" [OF n_def refl refl, where infr = True and acc = "acc @ take n p" and
          scr = "acc @ take n p" and r = r1 and fr = "take n p" and pro = pro1]
        more(2) r1(2) "1.prems"(3) unfolding full by simp
    then show ?thesis using step more(3) r1(3) by auto
  qed
qed

text \<open>
  Longer padding (7 to 10 bytes, in recycled logs) looks like an empty record of type zero;
  the loop skips it and goes on as at the start of a block.
\<close>

lemma skip_long_padding:
  assumes r: "rd_at ln bo (block_padding recycle bo @ x) r" and long: "\<not> short_padding recycle bo"
  shows "\<exists>r'. ReadRecord_loop svt mode fr False pro scr r = ReadRecord_loop svt mode fr False pro scr r' \<and>
           rd_at ln kBlockSize x r' \<and> r_reporter r' = r_reporter r"
proof -
  have pad: "block_padding recycle bo = replicate (kBlockSize - bo) 0" "kHeaderSize \<le> kBlockSize - bo"
    using long by (auto simp: short_padding_def block_padding_def log_constants split: if_splits)
  with r have "r_buffer r = replicate (kBlockSize - bo) 0" by (simp add: reader_at_def)
  from skip_zeros [OF this pad(2), of fr 0] r pad show ?thesis
    by (intro exI [of _ "r\<lparr>r_buffer := []\<rparr>"])
       (auto simp: ReadRecord_loop.simps [of svt mode fr False pro scr r] switch_fragments reader_at_def)
qed

lemma long_padding_image:
  assumes "\<not> short_padding recycle bo"
  shows "record_image recycle ln b bo p =
         (block_padding recycle bo @ fst (record_image recycle ln b kBlockSize p),
          snd (record_image recycle ln b kBlockSize p))"
  using assms
  by (intro record_image_padding) (auto simp: short_padding_def block_padding_def log_constants split: if_splits)

lemma read_record:
  assumes r: "rd_at ln bo (fst (record_image recycle ln True bo p) @ z) r"
    and num: "readable_number recycle ln"
  shows "\<exists>scr' r'. ReadRecord_loop svt mode fr False pro scr r = Some (True, p, scr', r') \<and>
     rd_at ln (snd (record_image recycle ln True bo p)) z r' \<and> r_reporter r' = r_reporter r"
proof (cases "short_padding recycle bo")
  case True
  from read_record_short [OF r True num, of False "[]"] show ?thesis by simp
next
  case False
  note img = long_padding_image [OF False, of ln True p]
  have "rd_at ln bo (block_padding recycle bo @ fst (record_image recycle ln True kBlockSize p) @ z) r"
    using r by (simp add: img)
  from skip_long_padding [OF this False, of mode fr pro scr] obtain r1 where
    r1: "ReadRecord_loop svt mode fr False pro scr r = ReadRecord_loop svt mode fr False pro scr r1"
      "rd_at ln kBlockSize (fst (record_image recycle ln True kBlockSize p) @ z) r1"
      "r_reporter r1 = r_reporter r" by blast
  from read_record_short [OF r1(2) _ num, of False "[]"] r1 show ?thesis by (simp add: img)
qed

lemma read_end:
  assumes r: "rd_at ln bo [] r"
  shows "\<exists>r'. ReadRecord_loop svt mode fr False pro scr r = Some (False, [], scr, r') \<and>
           r_reporter r' = r_reporter r"
proof -
  have at_eof: "ReadPhysicalRecord svt fr 0 q = Some (kEof, fr, 0, q)" if "rd_at ln bo' [] q" "r_eof q" for bo' q
    using that by (simp add: ReadPhysicalRecord.simps [of svt fr 0 q] ReadMore_at_eof reader_at_def log_constants)
  have "\<exists>q. ReadPhysicalRecord svt fr 0 r = Some (kEof, fr, 0, q) \<and> r_reporter q = r_reporter r"
  proof (cases "r_eof r")
    case True
    with at_eof [OF r] show ?thesis by simp
  next
    case False
    from ReadMore_next_block [OF r False, of 0] obtain q where
      q: "ReadMore svt 0 r = Some (None, 0, q)" "rd_at ln 0 [] q" "r_reporter q = r_reporter r" by auto
    then have "r_eof q" by (simp add: reader_at_def log_constants)
    have "length (r_buffer r) < kHeaderSize" using r by (simp add: reader_at_def log_constants)
    with q at_eof [OF q(2) \<open>r_eof q\<close>] show ?thesis
      by (simp add: ReadPhysicalRecord.simps [of svt fr 0 r])
  qed
  then show ?thesis
    by (auto simp: ReadRecord_loop.simps [of svt mode fr] ReadRecord_switch_def record_codes drop_tail_def)
qed

subsection \<open>A log that ends anywhere\<close>

lemma end_of_log:
  assumes "ReadPhysicalRecord svt fr 0 r = Some (t, fr', d, r1)" and "t = kEof \<or> t = kBadHeader"
    and "r_reporter r1 = r_reporter r" and "r_initial_offset r1 = 0"
  shows "\<exists>scr' r'. ReadRecord_loop svt mode fr infr pro scr r = Some (False, [], scr', r') \<and>
           (mode \<noteq> kAbsoluteConsistency \<longrightarrow> r_reporter r' = r_reporter r) \<and>
           (mode = kAbsoluteConsistency \<and> (infr \<or> t = kBadHeader) \<longrightarrow> reported r r')"
proof -
  from switch_end [OF assms(2)] obtain scr' r' where
    "ReadRecord_switch mode t (r_end_of_buffer_offset r - of_nat (length (r_buffer r))) d fr' infr pro scr r1
       = Inl (False, [], scr', r')"
    "mode \<noteq> kAbsoluteConsistency \<longrightarrow> r_reporter r' = r_reporter r1"
    "mode = kAbsoluteConsistency \<and> r_initial_offset r1 = 0 \<and> (infr \<or> t = kBadHeader) \<longrightarrow> reported r1 r'"
    by blast
  with assms show ?thesis
    by (simp add: ReadRecord_loop.simps [of svt mode fr] reported_def)
qed

lemma read_record_cut_short:
  "rd_at ln bo (take m (fst (record_image recycle ln b bo p))) r \<Longrightarrow>
   m < length (fst (record_image recycle ln b bo p)) \<Longrightarrow> short_padding recycle bo \<Longrightarrow>
   readable_number recycle ln \<Longrightarrow> infr = (\<not> b) \<Longrightarrow>
   \<exists>scr' r'. ReadRecord_loop svt mode fr infr pro scr r = Some (False, [], scr', r') \<and>
     (mode \<noteq> kAbsoluteConsistency \<longrightarrow> r_reporter r' = r_reporter r) \<and>
     (mode = kAbsoluteConsistency \<and> (infr \<or> length (block_padding recycle bo) < m) \<longrightarrow> reported r r')"
proof (induction recycle ln b bo p arbitrary: m infr scr pro fr r rule: record_image.induct)
  case (1 recycle ln b bo p)
  define n where "n = min (length p) (fragment_room recycle bo)"
  have room: "block_start recycle bo + log_header_size recycle + length (take n p) \<le> kBlockSize"
    using block_start_fits [of recycle bo] by (simp add: n_def fragment_room_def)
  let ?first = "\<lambda>e. block_padding recycle bo @ physical_record ln (fragment_type recycle b e) (take n p)"
  have inside: ?case
    if "rd_at ln bo (take m (?first e)) r" "m < length (?first e)" for e
  proof -
    from read_fragment_cut [OF that "1.prems"(3) fragment_type_recyclable room "1.prems"(4), of fr 0]
    obtain t d r1 where ph: "ReadPhysicalRecord svt fr 0 r = Some (t, fr, d, r1)" "t = kEof \<or> t = kBadHeader"
      "length (block_padding recycle bo) < m \<longrightarrow> t = kBadHeader" "r_reporter r1 = r_reporter r"
      "r_initial_offset r1 = 0" by blast
    from end_of_log [OF ph(1,2,4,5), of mode infr pro scr] ph(3) show ?thesis by blast
  qed
  from n_def show ?case
  proof (cases rule: record_image_cases [where ln = ln and b = b])
    case last
    with inside [of True] "1.prems"(1,2) show ?thesis by simp
  next
    case more
    let ?more = "fst (record_image recycle ln False kBlockSize (drop n p))"
    show ?thesis
    proof (cases "m < length (?first False)")
      case True
      with inside [of False] "1.prems"(1) more(3) show ?thesis by simp
    next
      case False
      define k where "k = m - length (?first False)"
      have "take m (?first False @ ?more) = ?first False @ take k ?more"
        using False by (simp add: k_def)
      then have "rd_at ln bo (?first False @ take k ?more) r"
        using "1.prems"(1) more(3) by simp
      then have "rd_at ln bo (block_padding recycle bo @
          physical_record ln (fragment_type recycle b False) (take n p) @ take k ?more) r" by simp
      from read_fragment [OF this "1.prems"(3) fragment_type_nonzero fragment_type_recyclable room "1.prems"(4), of fr 0]
      obtain r1 where
        r1: "ReadPhysicalRecord svt fr 0 r = Some (type_code (fragment_type recycle b False), take n p, 0, r1)"
          "rd_at ln (block_start recycle bo + log_header_size recycle + length (take n p)) (take k ?more) r1"
          "r_reporter r1 = r_reporter r" by blast
      have full: "block_start recycle bo + log_header_size recycle + n = kBlockSize"
        using more(1) block_start_fits [of recycle bo] by (simp add: fragment_room_def)
      define st where "st = (if b then (r_end_of_buffer_offset r - of_nat (length (r_buffer r)), take n p)
        else (pro, scr @ take n p))"
      have step: "ReadRecord_loop svt mode fr infr pro scr r
          = ReadRecord_loop svt mode (take n p) True (fst st) (snd st) r1"
        using "1.prems"(5) r1(1)
        by (cases b) (simp_all add: ReadRecord_loop.simps [of svt mode fr] switch_fragments st_def)
      have "k < length ?more" using "1.prems"(2) False more(3) by (simp add: k_def)
      moreover have "rd_at ln kBlockSize (take k ?more) r1"
        using r1(2) more(2) full by simp
      ultimately have "\<exists>scr' r'. ReadRecord_loop svt mode (take n p) True (fst st) (snd st) r1
            = Some (False, [], scr', r') \<and>
          (mode \<noteq> kAbsoluteConsistency \<longrightarrow> r_reporter r' = r_reporter r1) \<and>
          (mode = kAbsoluteConsistency \<longrightarrow> reported r1 r')"
        using "1.IH" [OF n_def refl refl, where infr = True and m = k and scr = "snd st" and r = r1
            and fr = "take n p" and pro = "fst st"] more(2) "1.prems"(4)
        unfolding full by simp
      then show ?thesis using step r1(3) by (auto simp: reported_def)
    qed
  qed
qed

lemma read_record_cut:
  assumes r: "rd_at ln bo (take m (fst (record_image recycle ln True bo p))) r"
    and m: "m < length (fst (record_image recycle ln True bo p))" and num: "readable_number recycle ln"
  shows "\<exists>scr' r'. ReadRecord_loop svt mode fr False pro scr r = Some (False, [], scr', r') \<and>
     (mode \<noteq> kAbsoluteConsistency \<longrightarrow> r_reporter r' = r_reporter r) \<and>
     (mode = kAbsoluteConsistency \<and> length (block_padding recycle bo) < m \<longrightarrow> reported r r')"
proof (cases "short_padding recycle bo")
  case True
  from read_record_cut_short [OF r m True num, of False] show ?thesis by simp
next
  case long: False
  note img = long_padding_image [OF long, of ln True p]
  let ?pad = "block_padding recycle bo" and ?x = "fst (record_image recycle ln True kBlockSize p)"
  have pad: "?pad = replicate (kBlockSize - bo) 0" "kHeaderSize \<le> kBlockSize - bo"
    using long by (auto simp: short_padding_def block_padding_def log_constants split: if_splits)
  show ?thesis
  proof (cases "m < length ?pad")
    case True
    have buf: "r_buffer r = replicate m 0" "r_eof r" "r_initial_offset r = 0"
      using r True pad by (auto simp: reader_at_def img min_def)
    show ?thesis
    proof (cases "m < kHeaderSize")
      case short: True
      obtain t d r1 where "ReadPhysicalRecord svt fr 0 r = Some (t, fr, d, r1)" "t = kEof \<or> t = kBadHeader"
        "r_reporter r1 = r_reporter r" "r_initial_offset r1 = 0"
        using short buf
        by (cases "m = 0") (auto simp: ReadPhysicalRecord.simps [of svt fr 0 r] ReadMore_at_eof)
      from end_of_log [OF this, of mode False pro scr] True show ?thesis by auto
    next
      case False
      define q where "q = r\<lparr>r_buffer := []\<rparr>"
      have "ReadRecord_loop svt mode fr False pro scr r = ReadRecord_loop svt mode fr False pro scr q"
        using skip_zeros [OF buf(1), of fr 0] False
        by (simp add: ReadRecord_loop.simps [of svt mode fr False pro scr r] switch_fragments q_def)
      moreover have "ReadPhysicalRecord svt fr 0 q = Some (kEof, fr, 0, q)"
        using buf(2) unfolding q_def
        by (subst ReadPhysicalRecord.simps) (simp add: ReadMore_at_eof log_constants)
      ultimately show ?thesis
        using end_of_log [of fr q kEof fr 0 q mode False pro scr] buf(3) True by (auto simp: q_def)
    qed
  next
    case False
    have "rd_at ln bo (?pad @ take (m - length ?pad) ?x) r" using r False by (simp add: img)
    from skip_long_padding [OF this long, of mode fr pro scr] obtain r1 where
      r1: "ReadRecord_loop svt mode fr False pro scr r = ReadRecord_loop svt mode fr False pro scr r1"
        "rd_at ln kBlockSize (take (m - length ?pad) ?x) r1" "r_reporter r1 = r_reporter r" by blast
    have "m - length ?pad < length ?x" using m False by (simp add: img)
    moreover have "block_padding recycle kBlockSize = []"
      by (simp add: block_padding_def)
    ultimately show ?thesis
      using read_record_cut_short [OF r1(2) _ short_padding_kBlockSize num, of False mode fr pro scr] r1 False
      by (simp add: reported_def)
  qed
qed

lemma ReadRecord_at: "rd_at ln bo rest r \<Longrightarrow> ReadRecord svt mode rec0 scr r = ReadRecord_loop svt mode [] False 0 [] r"
  by (simp add: ReadRecord_def reader_at_def)

lemma read_log:
  "rd_at ln bo (take m (fst (log_image recycle ln bo ps))) r \<Longrightarrow> readable_number recycle ln \<Longrightarrow>
   \<exists>r1. ReadRecords svt mode (complete_records recycle ln bo m ps) r
          = Some (take (complete_records recycle ln bo m ps) ps, r1) \<and> r_reporter r1 = r_reporter r \<and>
     (\<exists>scr r2. ReadRecord svt mode [] [] r1 = Some (False, [], scr, r2) \<and>
        (mode \<noteq> kAbsoluteConsistency \<or> length (fst (log_image recycle ln bo ps)) \<le> m \<longrightarrow>
           r_reporter r2 = r_reporter r) \<and>
        (mode = kAbsoluteConsistency \<and> cut_inside recycle ln bo m ps \<longrightarrow> reported r r2))"
proof (induction ps arbitrary: bo m r)
  case Nil
  then show ?case using read_end [of ln bo r mode "[]" 0 "[]"] by (auto simp: ReadRecord_at)
next
  case (Cons p ps)
  obtain img bo' where img: "record_image recycle ln True bo p = (img, bo')"
    by (cases "record_image recycle ln True bo p")
  show ?case
  proof (cases "length img \<le> m")
    case True
    let ?k = "complete_records recycle ln bo' (m - length img) ps"
    have at_img: "rd_at ln bo (img @ take (m - length img) (fst (log_image recycle ln bo' ps))) r"
      using Cons.prems(1) True img by (simp split: prod.splits)
    with read_record [of ln bo recycle p _ r mode "[]" 0 "[]"] Cons.prems(2) img
    have "\<exists>scr r1. ReadRecord_loop svt mode [] False 0 [] r = Some (True, p, scr, r1) \<and>
        rd_at ln bo' (take (m - length img) (fst (log_image recycle ln bo' ps))) r1 \<and>
        r_reporter r1 = r_reporter r" by simp
    then obtain scr r1 where r1: "ReadRecord svt mode [] [] r = Some (True, p, scr, r1)"
      "rd_at ln bo' (take (m - length img) (fst (log_image recycle ln bo' ps))) r1"
      "r_reporter r1 = r_reporter r"
      using ReadRecord_at [OF at_img] by auto
    have "reported r1 r2 = reported r r2" for r2 using r1(3) by (simp add: reported_def)
    with Cons.IH [OF r1(2) Cons.prems(2)] r1 True img show ?thesis
      by (fastforce split: prod.splits)
  next
    case False
    then have cut: "rd_at ln bo (take m img) r"
      using Cons.prems(1) img by (simp split: prod.splits)
    with read_record_cut [of ln bo m recycle p r mode "[]" 0 "[]"] False Cons.prems(2) img show ?thesis
      by (auto simp: ReadRecord_at split: prod.splits)
  qed
qed

text \<open>
  A recycled log whose number needs more than 32 bits: the first record already counts as
  one of another log.
\<close>

lemma read_big_number:
  assumes r: "rd_at ln kBlockSize (fst (record_image True ln True 0 p) @ z) r" and "\<not> ln < 2 ^ 32"
    and mode: "mode = kTolerateCorruptedTailRecords \<or> mode = kPointInTimeRecovery"
  shows "\<exists>r'. ReadRecord svt mode rec0 scr r = Some (False, [], [], r') \<and> r_reporter r' = r_reporter r"
proof -
  define n where "n = min (length p) (fragment_room True 0)"
  have "\<exists>e x. fst (record_image True ln True 0 p) = physical_record ln (fragment_type True True e) (take n p) @ x"
    using n_def
  proof (cases rule: record_image_cases [where ln = ln and b = True])
    case last
    then show ?thesis
      by (intro exI [of _ True] exI [of _ "[]"]) (simp add: block_padding_def log_constants)
  next
    case more
    then show ?thesis by (intro exI [of _ False]) (simp add: block_padding_def log_constants)
  qed
  then obtain t x where img: "fst (record_image True ln True 0 p) = physical_record ln t (take n p) @ x"
    and t: "\<not> RecordType_code t < 5"
    using fragment_type_recyclable [of True True] by blast
  have n: "length (take n p) + kRecyclableHeaderSize \<le> kBlockSize"
    by (simp add: n_def fragment_room_def block_start_def log_constants)
  have pad: "rd_at ln kBlockSize ([] @ physical_record ln t (take n p) @ x @ z) r" using r img by simp
  from skip_short_padding [OF pad, of "[]" 0] obtain r1 where
    r1: "ReadPhysicalRecord svt [] 0 r = ReadPhysicalRecord svt [] 0 r1"
      "rd_at ln 0 (physical_record ln t (take n p) @ x @ z) r1" "r_reporter r1 = r_reporter r"
    by (auto simp: log_constants)
  define z' where "z' = take (kBlockSize - length (physical_record ln t (take n p))) (x @ z)"
  have buf: "r_buffer r1 = physical_record ln t (take n p) @ z'"
    using r1(2) n t by (simp add: reader_at_def z'_def length_physical_record)
  have "length (take n p) < 65536" using n by (simp add: log_constants)
  note fields = header_fields [OF this, where ln = ln and t = t and z = z']
  have "(ucast (ucast ln :: u32) :: u64) < 2 ^ 32"
    using unsigned_less [of "ucast ln :: u32", where ?'a = nat] by (simp add: word_less_nat_alt unat_ucast_up)
  then have "(ucast (ucast ln :: u32) :: u64) \<noteq> ln" using assms(2) by metis
  moreover have "r_log_number r1 = ln" using r1(2) by (simp add: reader_at_def)
  ultimately have old: "old_record_front r1"
    using fields(3,4) t \<open>r_log_number r1 = ln\<close>
    by (simp add: old_record_front_def buf length_physical_record)
  have "r_reporter (mark_recycled r1) = r_reporter r" using r1(3) by simp
  with ReadPhysicalRecord_old [OF old, of svt "[]" 0] r1(1) mode ReadRecord_at [OF r] show ?thesis
    by (auto simp: ReadRecord_loop.simps [of svt mode "[]"] ReadRecord_switch_def record_codes drop_tail_def)
qed

end

end
