(* ===== verification/PosixFile.thy ===== *)
theory PosixFile
  imports LogReader
begin

text \<open>
  \<open>rutil/io_posix.h\<close> and \<open>rutil/io_posix.cc\<close>: the file classes over POSIX system calls. The
  kernel side of an open file is the record \<open>kernel\<close>: the bytes of the file, the file
  offset, \<open>errno\<close>, and a finite script with the outcomes of the coming calls (complete,
  short, failed with an error number; complete once the script is used up). The theorems
  hold for every script. A call returns what the C function returns; the loops of the
  code look at that and at \<open>errno\<close>, which keeps its old value when a call succeeds.

  Shown: \<open>PosixWritableFile\<close> provides the contract \<open>append_file\<close> and, on a descriptor
  without \<open>O_APPEND\<close>, \<open>PosixDirectIOWritableFile\<close> provides \<open>positioned_file\<close>;
  \<open>PosixSequentialFile\<close> provides \<open>finite_file\<close> when no read is interrupted, \<open>log_file\<close> also
  with interrupted reads when the file does not end at a block boundary and, without device
  errors, \<open>sequential_file\<close>.
\<close>

subsection \<open>The kernel's side of an open file\<close>

definition EINTR :: nat where "EINTR = 4"
definition EBADF :: nat where "EBADF = 9"
definition EINVAL :: nat where "EINVAL = 22"
definition ENOSPC :: nat where "ENOSPC = 28"

lemmas errno_values = EINTR_def EBADF_def EINVAL_def ENOSPC_def

datatype sys_event = Complete | Short nat | Fail nat

record kernel =
  k_data :: bytes
  k_pos :: nat
  k_open :: bool
  k_append :: bool
  k_errno :: nat
  k_script :: "sys_event list"
  k_strerror :: "nat \<Rightarrow> bytes"

definition next_event :: "kernel \<Rightarrow> sys_event \<times> kernel" where
  "next_event k =
     (case k_script k of
        [] \<Rightarrow> (Complete, k)
      | e # es \<Rightarrow> (e, k\<lparr>k_script := es\<rparr>))"

text \<open>How many bytes a transfer of at most \<open>n\<close> moves, or the error.\<close>

definition transfer :: "nat \<Rightarrow> kernel \<Rightarrow> (nat + nat) \<times> kernel" where
  "transfer n k =
     (if \<not> k_open k then (Inl EBADF, k\<lparr>k_errno := EBADF\<rparr>)
      else (case next_event k of
              (Complete, k) \<Rightarrow> (Inr n, k)
            | (Short m, k) \<Rightarrow> (Inr (min m n), k)
            | (Fail e, k) \<Rightarrow> (Inl e, k\<lparr>k_errno := e\<rparr>)))"

text \<open>Bytes written at an offset; a gap behind the end reads as zeros. Writing nothing does not
  extend the file.\<close>

definition write_at :: "nat \<Rightarrow> bytes \<Rightarrow> bytes \<Rightarrow> bytes" where
  "write_at off d data =
     (if d = [] then data else overwrite (data @ replicate (off - length data) 0) off d)"

definition sys_write :: "bytes \<Rightarrow> kernel \<Rightarrow> int \<times> kernel" where
  "sys_write d k =
     (case transfer (length d) k of
        (Inl e, k) \<Rightarrow> (-1, k)
      | (Inr n, k) \<Rightarrow>
          (let off = (if k_append k then length (k_data k) else k_pos k)
           in (int n, k\<lparr>k_data := write_at off (take n d) (k_data k), k_pos := off + n\<rparr>)))"

text \<open>On Linux \<open>pwrite\<close> on a descriptor opened with \<open>O_APPEND\<close> appends, whatever the offset.\<close>

definition sys_pwrite :: "bytes \<Rightarrow> nat \<Rightarrow> kernel \<Rightarrow> int \<times> kernel" where
  "sys_pwrite d off k =
     (case transfer (length d) k of
        (Inl e, k) \<Rightarrow> (-1, k)
      | (Inr n, k) \<Rightarrow>
          (let off = (if k_append k then length (k_data k) else off)
           in (int n, k\<lparr>k_data := write_at off (take n d) (k_data k)\<rparr>)))"

definition sys_pread :: "nat \<Rightarrow> nat \<Rightarrow> kernel \<Rightarrow> int \<times> bytes \<times> kernel" where
  "sys_pread n off k =
     (case transfer n k of
        (Inl e, k) \<Rightarrow> (-1, [], k)
      | (Inr m, k) \<Rightarrow> (let d = take m (drop off (k_data k)) in (int (length d), d, k)))"

text \<open>Calls that move no data: zero, or minus one with \<open>errno\<close> set.\<close>

definition sys_simple :: "(kernel \<Rightarrow> kernel) \<Rightarrow> kernel \<Rightarrow> int \<times> kernel" where
  "sys_simple effect k =
     (case transfer 0 k of
        (Inl e, k) \<Rightarrow> (-1, k)
      | (Inr _, k) \<Rightarrow> (0, effect k))"

definition sys_fallocate :: "bool \<Rightarrow> nat \<Rightarrow> nat \<Rightarrow> kernel \<Rightarrow> int \<times> kernel" where
  "sys_fallocate keep_size off len k =
     sys_simple (\<lambda>k. if keep_size then k
        else k\<lparr>k_data := k_data k @ replicate (off + len - length (k_data k)) 0\<rparr>) k"

definition sys_ftruncate :: "nat \<Rightarrow> kernel \<Rightarrow> int \<times> kernel" where
  "sys_ftruncate n k =
     sys_simple (\<lambda>k. k\<lparr>k_data := take n (k_data k) @ replicate (n - length (k_data k)) 0\<rparr>) k"

definition sys_punch_hole :: "nat \<Rightarrow> nat \<Rightarrow> kernel \<Rightarrow> int \<times> kernel" where
  "sys_punch_hole off len k =
     sys_simple (\<lambda>k. let n = min len (length (k_data k) - off)
        in if n = 0 then k else k\<lparr>k_data := overwrite (k_data k) off (replicate n 0)\<rparr>) k"

definition sys_sync :: "kernel \<Rightarrow> int \<times> kernel" where
  "sys_sync k = sys_simple id k"

definition sys_close :: "kernel \<Rightarrow> int \<times> kernel" where
  "sys_close k = (let (r, k) = sys_simple id k in (r, k\<lparr>k_open := False\<rparr>))"

text \<open>\<open>posix_fadvise\<close> returns the error number and leaves \<open>errno\<close> alone.\<close>

definition Fadvise :: "kernel \<Rightarrow> nat \<times> kernel" where
  "Fadvise k = (case next_event k of (Fail e, k) \<Rightarrow> (e, k) | (_, k) \<Rightarrow> (0, k))"

definition IOError :: "bytes \<Rightarrow> kernel \<Rightarrow> Status" where
  "IOError context k =
     (let err_number = k_errno k
      in if err_number = ENOSPC then Status_NoSpace context (k_strerror k err_number)
         else Status_IOError context (k_strerror k err_number))"

lemma Status_ok_IOError [simp]: "\<not> Status_ok (IOError c k)"
  by (simp add: IOError_def Let_def Status_ok_def Status_NoSpace_def Status_IOError_def)

subsection \<open>PosixWritableFile\<close>

record PosixWritableFile =
  pw_filename :: bytes
  pw_kernel :: kernel
  pw_filesize :: nat
  pw_base :: WritableFile_base
  pw_allow_fallocate :: bool
  pw_fallocate_with_keep_size :: bool

definition PosixWritableFile_init :: "bytes \<Rightarrow> kernel \<Rightarrow> bool \<Rightarrow> bool \<Rightarrow> PosixWritableFile" where
  "PosixWritableFile_init fname k allow_fallocate keep_size =
     \<lparr>pw_filename = fname, pw_kernel = k, pw_filesize = 0, pw_base = WritableFile_base_init,
      pw_allow_fallocate = allow_fallocate, pw_fallocate_with_keep_size = keep_size\<rparr>"

lemma transfer_script:
  "transfer n k = (r, k') \<Longrightarrow> k_open k \<Longrightarrow> k_open k' \<and>
     (k_script k = [] \<and> r = Inr n \<and> k' = k \<or> length (k_script k') < length (k_script k))"
  by (auto simp: transfer_def next_event_def split: if_splits list.splits sys_event.splits)

text \<open>
  The loops around \<open>write\<close> and \<open>pwrite\<close>; the result carries the bytes that are left, and the
  status. A closed descriptor fails with \<open>EBADF\<close>.
\<close>

function write_loop :: "bytes \<Rightarrow> bytes \<Rightarrow> kernel \<Rightarrow> Status \<times> kernel" where
  "write_loop fname src k =
     (if src = [] then (Status_OK, k)
      else
        (let (n, k) = sys_write src k
         in if n < 0 then
              (if k_errno k = EINTR then write_loop fname src k else (IOError fname k, k))
            else write_loop fname (drop (nat n) src) k))"
  by pat_completeness auto

lemma sys_write_progress:
  assumes "sys_write src k = (n, k')" and "src \<noteq> []" and "n < 0 \<Longrightarrow> k_errno k' = EINTR"
  shows "length (k_script k') + (if n < 0 then length src else length src - nat n) < length (k_script k) + length src"
  using assms transfer_script [of "length src" k]
  by (cases "k_open k")
     (auto simp: sys_write_def transfer_def next_event_def errno_values Let_def
        split: list.splits sys_event.splits if_splits)

termination write_loop
proof (relation "measure (\<lambda>(fname, src, k). length (k_script k) + length src)", goal_cases)
  case 1
  show ?case by simp
next
  case (2 fname src k x n k')
  then show ?case using sys_write_progress [of src k n k'] by (auto split: if_splits)
next
  case (3 fname src k x n k')
  then show ?case using sys_write_progress [of src k n k'] by (auto split: if_splits)
qed

declare write_loop.simps [simp del]

text \<open>\<open>PositionedAppend\<close> also gives the advanced \<open>offset\<close>.\<close>

function pwrite_loop :: "bytes \<Rightarrow> bytes \<Rightarrow> nat \<Rightarrow> kernel \<Rightarrow> Status \<times> nat \<times> kernel" where
  "pwrite_loop fname src offset k =
     (if src = [] then (Status_OK, offset, k)
      else
        (let (n, k) = sys_pwrite src offset k
         in if n < 0 then
              (if k_errno k = EINTR then pwrite_loop fname src offset k
               else (IOError fname k, offset, k))
            else pwrite_loop fname (drop (nat n) src) (offset + nat n) k))"
  by pat_completeness auto

lemma sys_pwrite_progress:
  assumes "sys_pwrite src off k = (n, k')" and "src \<noteq> []" and "n < 0 \<Longrightarrow> k_errno k' = EINTR"
  shows "length (k_script k') + (if n < 0 then length src else length src - nat n) < length (k_script k) + length src"
  using assms transfer_script [of "length src" k]
  by (cases "k_open k")
     (auto simp: sys_pwrite_def transfer_def next_event_def errno_values Let_def
        split: list.splits sys_event.splits if_splits)

termination pwrite_loop
proof (relation "measure (\<lambda>(fname, src, off, k). length (k_script k) + length src)", goal_cases)
  case 1
  show ?case by simp
next
  case (2 fname src off k x n k')
  then show ?case using sys_pwrite_progress [of src off k n k'] by (auto split: if_splits)
next
  case (3 fname src off k x n k')
  then show ?case using sys_pwrite_progress [of src off k n k'] by (auto split: if_splits)
qed

declare pwrite_loop.simps [simp del]

definition PosixWritableFile_Append :: "slice \<Rightarrow> PosixWritableFile \<Rightarrow> Status \<times> PosixWritableFile" where
  "PosixWritableFile_Append data f =
     (let (s, k) = write_loop (pw_filename f) data (pw_kernel f);
          f = f\<lparr>pw_kernel := k\<rparr>
      in if \<not> Status_ok s then (s, f)
         else (s, f\<lparr>pw_filesize := pw_filesize f + Slice_size data\<rparr>))"

definition PosixWritableFile_PositionedAppend ::
    "slice \<Rightarrow> nat \<Rightarrow> PosixWritableFile \<Rightarrow> Status \<times> PosixWritableFile" where
  "PosixWritableFile_PositionedAppend data offset f =
     (let (s, offset, k) = pwrite_loop (pw_filename f) data offset (pw_kernel f);
          f = f\<lparr>pw_kernel := k\<rparr>
      in if \<not> Status_ok s then (s, f)
         else (s, f\<lparr>pw_filesize := offset + Slice_size data\<rparr>))"

text \<open>A call whose result is only compared with zero: \<open>Status::OK\<close> or the error.\<close>

definition checked :: "(kernel \<Rightarrow> int \<times> kernel) \<Rightarrow> PosixWritableFile \<Rightarrow> Status \<times> PosixWritableFile" where
  "checked call f =
     (let (r, k) = call (pw_kernel f);
          f = f\<lparr>pw_kernel := k\<rparr>
      in if r < 0 then (IOError (pw_filename f) k, f) else (Status_OK, f))"

definition PosixWritableFile_Close :: "PosixWritableFile \<Rightarrow> Status \<times> PosixWritableFile" where
  "PosixWritableFile_Close f =
     (let (block_size, last_allocated_block) = GetPreallocationStatus (pw_base f);
          f = (if last_allocated_block > 0 then
                 (let (_, k) = sys_ftruncate (pw_filesize f) (pw_kernel f);
                      k = (if pw_allow_fallocate f
                           then snd (sys_punch_hole (pw_filesize f)
                                  (block_size * last_allocated_block - pw_filesize f) k)
                           else k)
                  in f\<lparr>pw_kernel := k\<rparr>)
               else f)
      in checked sys_close f)"

definition PosixWritableFile_Flush :: "PosixWritableFile \<Rightarrow> Status \<times> PosixWritableFile" where
  "PosixWritableFile_Flush f = (Status_OK, f)"

definition PosixWritableFile_Sync :: "PosixWritableFile \<Rightarrow> Status \<times> PosixWritableFile" where
  "PosixWritableFile_Sync f = checked sys_sync f"

definition PosixWritableFile_Fsync :: "PosixWritableFile \<Rightarrow> Status \<times> PosixWritableFile" where
  "PosixWritableFile_Fsync f = checked sys_sync f"

definition PosixWritableFile_IsSyncThreadSafe :: "PosixWritableFile \<Rightarrow> bool" where
  "PosixWritableFile_IsSyncThreadSafe f = True"

definition PosixWritableFile_GetFileSize :: "PosixWritableFile \<Rightarrow> nat" where
  "PosixWritableFile_GetFileSize f = pw_filesize f"

definition PosixWritableFile_Truncate :: "nat \<Rightarrow> PosixWritableFile \<Rightarrow> Status \<times> PosixWritableFile" where
  "PosixWritableFile_Truncate sz f = (Status_OK, f)"

definition PosixWritableFile_InvalidateCache ::
    "nat \<Rightarrow> nat \<Rightarrow> PosixWritableFile \<Rightarrow> Status \<times> PosixWritableFile" where
  "PosixWritableFile_InvalidateCache offset len f =
     (let (ret, k) = Fadvise (pw_kernel f);
          f = f\<lparr>pw_kernel := k\<rparr>
      in if ret = 0 then (Status_OK, f) else (IOError (pw_filename f) k, f))"

definition PosixWritableFile_Allocate ::
    "nat \<Rightarrow> nat \<Rightarrow> PosixWritableFile \<Rightarrow> Status \<times> PosixWritableFile" where
  "PosixWritableFile_Allocate offset len f =
     (if pw_allow_fallocate f
      then checked (sys_fallocate (pw_fallocate_with_keep_size f) offset len) f
      else (Status_OK, f))"

definition PosixWritableFile_RangeSync ::
    "nat \<Rightarrow> nat \<Rightarrow> PosixWritableFile \<Rightarrow> Status \<times> PosixWritableFile" where
  "PosixWritableFile_RangeSync offset nbytes f = checked sys_sync f"

definition PosixWritableFile_PrepareWrite :: "nat \<Rightarrow> nat \<Rightarrow> PosixWritableFile \<Rightarrow> PosixWritableFile" where
  "PosixWritableFile_PrepareWrite =
     WritableFile_PrepareWrite pw_base (\<lambda>b f. f\<lparr>pw_base := b\<rparr>) PosixWritableFile_Allocate"

definition c_DefaultPageSize :: nat where
  "c_DefaultPageSize = 4 * 1024"

definition PosixWritableFile_vt :: "PosixWritableFile WritableFile_vt" where
  "PosixWritableFile_vt =
     \<lparr>wf_UseOSBuffer = \<lambda>f. True, wf_UseDirectIO = \<lambda>f. False,
      wf_GetRequiredBufferAlignment = \<lambda>f. c_DefaultPageSize,
      wf_IsSyncThreadSafe = PosixWritableFile_IsSyncThreadSafe,
      wf_PrepareWrite = PosixWritableFile_PrepareWrite,
      wf_Append = \<lambda>d f. Some (PosixWritableFile_Append d f),
      wf_PositionedAppend = \<lambda>d offset f. Some (PosixWritableFile_PositionedAppend d offset f),
      wf_Truncate = PosixWritableFile_Truncate, wf_Close = PosixWritableFile_Close,
      wf_Flush = PosixWritableFile_Flush, wf_Sync = \<lambda>f. Some (PosixWritableFile_Sync f),
      wf_Fsync = \<lambda>f. Some (PosixWritableFile_Fsync f), wf_RangeSync = PosixWritableFile_RangeSync,
      wf_InvalidateCache = PosixWritableFile_InvalidateCache\<rparr>"

subsection \<open>PosixDirectIOWritableFile\<close>

definition kSectorSize :: nat where
  "kSectorSize = 512"

definition IsSectorAligned :: "nat \<Rightarrow> bool" where
  "IsSectorAligned off \<longleftrightarrow> off mod kSectorSize = 0"

text \<open>
  \<open>page_aligned\<close> is the outcome of \<open>IsPageAligned\<close> on the address of the data. An unaligned
  request fails the assertions in front of the test: \<open>None\<close>.
\<close>

definition PosixDirectIOWritableFile_Append ::
    "bool \<Rightarrow> slice \<Rightarrow> PosixWritableFile \<Rightarrow> (Status \<times> PosixWritableFile) option" where
  "PosixDirectIOWritableFile_Append page_aligned data f =
     (if \<not> (IsSectorAligned (Slice_size data) \<and> page_aligned) then None
      else if \<not> IsSectorAligned (Slice_size data) \<or> \<not> page_aligned
      then Some (Status_IOError (cstr ''Unaligned buffer for direct IO'') [], f)
      else Some (PosixWritableFile_Append data f))"

definition PosixDirectIOWritableFile_PositionedAppend ::
    "bool \<Rightarrow> slice \<Rightarrow> nat \<Rightarrow> PosixWritableFile \<Rightarrow> (Status \<times> PosixWritableFile) option" where
  "PosixDirectIOWritableFile_PositionedAppend page_aligned data offset f =
     (if \<not> IsSectorAligned offset then None
      else if \<not> IsSectorAligned (Slice_size data) then None
      else if \<not> page_aligned then None
      else if \<not> IsSectorAligned offset \<or> \<not> IsSectorAligned (Slice_size data) \<or> \<not> page_aligned
      then Some (Status_IOError (cstr ''offset or size is not aligned'') [], f)
      else Some (PosixWritableFile_PositionedAppend data offset f))"

definition PosixDirectIOWritableFile_InvalidateCache ::
    "nat \<Rightarrow> nat \<Rightarrow> PosixWritableFile \<Rightarrow> Status \<times> PosixWritableFile" where
  "PosixDirectIOWritableFile_InvalidateCache offset len f = (Status_OK, f)"

definition PosixDirectIOWritableFile_vt :: "bool \<Rightarrow> PosixWritableFile WritableFile_vt" where
  "PosixDirectIOWritableFile_vt page_aligned =
     PosixWritableFile_vt
       \<lparr>wf_UseOSBuffer := \<lambda>f. False, wf_UseDirectIO := \<lambda>f. True,
        wf_GetRequiredBufferAlignment := \<lambda>f. 4 * 1024,
        wf_Append := PosixDirectIOWritableFile_Append page_aligned,
        wf_PositionedAppend := PosixDirectIOWritableFile_PositionedAppend page_aligned,
        wf_InvalidateCache := PosixDirectIOWritableFile_InvalidateCache\<rparr>"

subsection \<open>The write contracts\<close>

definition kernel_ok :: "kernel \<Rightarrow> bool" where
  "kernel_ok k \<longleftrightarrow> k_open k \<and> \<not> k_append k \<and> k_pos k \<le> length (k_data k)"

text \<open>What has been appended: the file up to the file offset (preallocated space lies behind).\<close>

definition appended :: "kernel \<Rightarrow> bytes" where
  "appended k = take (k_pos k) (k_data k)"

lemma transfer_frame:
  "transfer n k = (r, k') \<Longrightarrow> k_data k' = k_data k \<and> k_pos k' = k_pos k \<and> k_append k' = k_append k \<and>
     k_open k' = k_open k \<and> (\<forall>m. r = Inr m \<longrightarrow> m \<le> n)"
  by (auto simp: transfer_def next_event_def split: if_splits list.splits sys_event.splits)

lemma write_at_inside: "off \<le> length data \<Longrightarrow> write_at off d data = overwrite data off d"
  by (simp add: write_at_def overwrite_def)

lemma take_overwrite_all:
  "off \<le> length data \<Longrightarrow> take (off + length d) (overwrite data off d) = take off data @ d"
  by (simp add: take_overwrite_prefix)

lemma sys_write_law:
  assumes "kernel_ok k" and "sys_write d k = (n, k')"
  shows "kernel_ok k' \<and> n \<le> int (length d) \<and> appended k' = appended k @ take (nat n) d"
proof -
  obtain r k1 where tr: "transfer (length d) k = (r, k1)" by (cases "transfer (length d) k")
  note frame = transfer_frame [OF tr]
  have ok: "kernel_ok k1" "k_pos k1 \<le> length (k_data k1)" using assms(1) frame by (auto simp: kernel_ok_def)
  show ?thesis
  proof (cases r)
    case (Inl e)
    with assms(2) tr frame ok show ?thesis by (auto simp: sys_write_def appended_def)
  next
    case (Inr m)
    then have m: "length (take m d) = m" using frame by simp
    have k': "k' = k1\<lparr>k_data := overwrite (k_data k1) (k_pos k1) (take m d), k_pos := k_pos k1 + m\<rparr>" "n = int m"
      using assms(2) tr Inr ok by (auto simp: sys_write_def Let_def kernel_ok_def write_at_inside)
    have "take (k_pos k1 + m) (overwrite (k_data k1) (k_pos k1) (take m d)) = take (k_pos k1) (k_data k1) @ take m d"
      using take_overwrite_all [OF ok(2), of "take m d"] m by simp
    then show ?thesis
      using ok frame k' m Inr by (auto simp: kernel_ok_def appended_def length_overwrite)
  qed
qed

lemma write_loop_law:
  "kernel_ok k \<Longrightarrow> write_loop fname src k = (s, k') \<Longrightarrow>
     kernel_ok k' \<and> (\<exists>j \<le> length src. appended k' = appended k @ take j src \<and> (Status_ok s \<longrightarrow> j = length src))"
proof (induction fname src k arbitrary: s k' rule: write_loop.induct)
  case (1 fname src k)
  show ?case
  proof (cases "src = []")
    case True
    with "1.prems" show ?thesis by (simp add: write_loop.simps [of fname "[]"])
  next
    case False
    obtain n k1 where wr: "sys_write src k = (n, k1)" by (cases "sys_write src k")
    note law = sys_write_law [OF "1.prems"(1) wr]
    show ?thesis
    proof (cases "n < 0")
      case True
      with law have k1: "kernel_ok k1" "appended k1 = appended k" by auto
      show ?thesis
      proof (cases "k_errno k1 = EINTR")
        case eintr: True
        with False wr True "1.prems"(2) have "write_loop fname src k1 = (s, k')"
          by (simp add: write_loop.simps [of fname src k])
        with "1.IH"(1) [OF False wr [symmetric] refl True eintr k1(1)] k1(2) show ?thesis by simp
      next
        case False
        with \<open>src \<noteq> []\<close> wr True "1.prems"(2) have "s = IOError fname k1 \<and> k' = k1"
          by (auto simp: write_loop.simps [of fname src k])
        with k1 show ?thesis by auto
      qed
    next
      case nonneg: False
      with False wr "1.prems"(2) have rest: "write_loop fname (drop (nat n) src) k1 = (s, k')"
        by (simp add: write_loop.simps [of fname src k])
      from "1.IH"(2) [OF False wr [symmetric] refl nonneg _ rest] law obtain j where
        j: "kernel_ok k'" "j \<le> length (drop (nat n) src)" "appended k' = appended k1 @ take j (drop (nat n) src)"
          "Status_ok s \<longrightarrow> j = length (drop (nat n) src)" by blast
      have "appended k' = appended k @ take (nat n + j) src"
        using j(3) law by (simp add: take_add)
      moreover have "nat n \<le> length src" using law by linarith
      ultimately show ?thesis using j by (intro conjI exI [of _ "nat n + j"]) auto
    qed
  qed
qed

lemma overwrite_overwrite:
  "off \<le> length data \<Longrightarrow> overwrite (overwrite data off a) (off + length a) b = overwrite data off (a @ b)"
  by (simp add: overwrite_def ac_simps)

lemma overwrite_Nil: "overwrite data off [] = data"
  by (simp add: overwrite_def)

lemma sys_pwrite_law:
  assumes "kernel_ok k" and "off \<le> length (k_data k)" and "sys_pwrite d off k = (n, k')"
  shows "kernel_ok k' \<and> n \<le> int (length d) \<and> k_data k' = overwrite (k_data k) off (take (nat n) d)"
  using assms transfer_frame [of "length d" k]
  by (auto simp: sys_pwrite_def Let_def kernel_ok_def write_at_inside overwrite_Nil length_overwrite
      split: prod.splits sum.splits)

lemma pwrite_loop_law:
  "kernel_ok k \<Longrightarrow> off \<le> length (k_data k) \<Longrightarrow> pwrite_loop fname src off k = (s, off', k') \<Longrightarrow>
     kernel_ok k' \<and> (\<exists>j \<le> length src. k_data k' = overwrite (k_data k) off (take j src) \<and>
       off' = off + j \<and> (Status_ok s \<longrightarrow> j = length src))"
proof (induction fname src off k arbitrary: s off' k' rule: pwrite_loop.induct)
  case (1 fname src off k)
  show ?case
  proof (cases "src = []")
    case True
    with "1.prems" show ?thesis by (simp add: pwrite_loop.simps [of fname "[]"] overwrite_Nil)
  next
    case False
    obtain n k1 where wr: "sys_pwrite src off k = (n, k1)" by (cases "sys_pwrite src off k")
    note law = sys_pwrite_law [OF "1.prems"(1,2) wr]
    show ?thesis
    proof (cases "n < 0")
      case True
      with law have k1: "kernel_ok k1" "k_data k1 = k_data k" by (auto simp: overwrite_Nil)
      show ?thesis
      proof (cases "k_errno k1 = EINTR")
        case eintr: True
        with False wr True "1.prems"(3) have "pwrite_loop fname src off k1 = (s, off', k')"
          by (simp add: pwrite_loop.simps [of fname src off k])
        with "1.IH"(1) [OF False wr [symmetric] refl True eintr k1(1)] k1(2) "1.prems"(2) show ?thesis by simp
      next
        case False
        with \<open>src \<noteq> []\<close> wr True "1.prems"(3) have "s = IOError fname k1 \<and> k' = k1 \<and> off' = off"
          by (auto simp: pwrite_loop.simps [of fname src off k])
        with k1 show ?thesis by (auto simp: overwrite_Nil intro!: exI [of _ 0])
      qed
    next
      case nonneg: False
      with False wr "1.prems"(3) have rest: "pwrite_loop fname (drop (nat n) src) (off + nat n) k1 = (s, off', k')"
        by (simp add: pwrite_loop.simps [of fname src off k])
      have n: "nat n \<le> length src" using law by linarith
      have "off + nat n \<le> length (k_data k1)"
        using law "1.prems"(2) n by (simp add: length_overwrite)
      from "1.IH"(2) [OF False wr [symmetric] refl nonneg _ this rest] law obtain j where
        j: "kernel_ok k'" "j \<le> length (drop (nat n) src)" "off' = off + nat n + j"
          "k_data k' = overwrite (k_data k1) (off + nat n) (take j (drop (nat n) src))"
          "Status_ok s \<longrightarrow> j = length (drop (nat n) src)" by blast
      have "k_data k' = overwrite (k_data k) off (take (nat n + j) src)"
        using j(4) law n overwrite_overwrite [OF "1.prems"(2), of "take (nat n) src" "take j (drop (nat n) src)"]
        by (simp add: take_add)
      then show ?thesis using j n by (intro conjI exI [of _ "nat n + j"]) auto
    qed
  qed
qed

lemma sys_simple_frame:
  assumes "sys_simple effect k = (n, k')"
  shows "(n = -1 \<or> n = 0) \<and>
         (\<exists>k1. k_data k1 = k_data k \<and> k_pos k1 = k_pos k \<and> k_append k1 = k_append k \<and> k_open k1 = k_open k \<and>
            (k' = k1 \<or> k' = effect k1))"
proof -
  obtain r k1 where "transfer 0 k = (r, k1)" by (cases "transfer 0 k")
  with assms transfer_frame [OF this] show ?thesis
    by (cases r) (auto simp: sys_simple_def)
qed

lemma checked_sync_frame:
  assumes "checked sys_sync f = (s, f')"
  shows "\<exists>k'. f' = f\<lparr>pw_kernel := k'\<rparr> \<and> k_data k' = k_data (pw_kernel f) \<and> k_pos k' = k_pos (pw_kernel f) \<and>
           k_append k' = k_append (pw_kernel f) \<and> k_open k' = k_open (pw_kernel f)"
proof -
  obtain n k' where "sys_sync (pw_kernel f) = (n, k')" by (cases "sys_sync (pw_kernel f)")
  with assms sys_simple_frame [of id "pw_kernel f" n k'] show ?thesis
    by (auto simp: checked_def sys_sync_def split: if_splits)
qed

lemma Allocate_frame:
  assumes "PosixWritableFile_Allocate off len f = (s, f')"
  shows "\<exists>k' z. f' = f\<lparr>pw_kernel := k'\<rparr> \<and> k_data k' = k_data (pw_kernel f) @ z \<and>
           (pw_fallocate_with_keep_size f \<longrightarrow> z = []) \<and> k_pos k' = k_pos (pw_kernel f) \<and>
           k_append k' = k_append (pw_kernel f) \<and> k_open k' = k_open (pw_kernel f)"
proof (cases "pw_allow_fallocate f")
  case True
  obtain n k' where call: "sys_fallocate (pw_fallocate_with_keep_size f) off len (pw_kernel f) = (n, k')"
    by fastforce
  with sys_simple_frame [OF call [unfolded sys_fallocate_def]] assms True show ?thesis
    by (auto simp: PosixWritableFile_Allocate_def checked_def split: if_splits)
next
  case False
  with assms have "f' = f\<lparr>pw_kernel := pw_kernel f\<rparr>" by (simp add: PosixWritableFile_Allocate_def)
  then show ?thesis by blast
qed

lemma PrepareWrite_frame:
  "\<exists>k' z b. PosixWritableFile_PrepareWrite off len f = f\<lparr>pw_kernel := k', pw_base := b\<rparr> \<and>
     k_data k' = k_data (pw_kernel f) @ z \<and>
     (pw_fallocate_with_keep_size f \<longrightarrow> z = []) \<and> k_pos k' = k_pos (pw_kernel f) \<and>
     k_append k' = k_append (pw_kernel f) \<and> k_open k' = k_open (pw_kernel f)"
proof -
  let ?b = "pw_base f"
  let ?bs = "wb_preallocation_block_size ?b" and ?last = "wb_last_preallocated_block ?b"
  let ?new = "(off + len + ?bs - 1) div ?bs"
  show ?thesis
  proof (cases "?bs \<noteq> 0 \<and> ?new > ?last")
    case True
    obtain s f1 where al: "PosixWritableFile_Allocate (?bs * ?last) (?bs * (?new - ?last)) f = (s, f1)"
      by fastforce
    from Allocate_frame [OF al] obtain k' z where k': "f1 = f\<lparr>pw_kernel := k'\<rparr>"
      "k_data k' = k_data (pw_kernel f) @ z" "pw_fallocate_with_keep_size f \<longrightarrow> z = []"
      "k_pos k' = k_pos (pw_kernel f)" "k_append k' = k_append (pw_kernel f)"
      "k_open k' = k_open (pw_kernel f)" by blast
    have "PosixWritableFile_PrepareWrite off len f
        = f\<lparr>pw_kernel := k', pw_base := ?b\<lparr>wb_last_preallocated_block := ?new\<rparr>\<rparr>"
      using True al k'(1)
      by (simp add: PosixWritableFile_PrepareWrite_def WritableFile_PrepareWrite_def Let_def)
    with k' show ?thesis by blast
  next
    case False
    then have "PosixWritableFile_PrepareWrite off len f = f\<lparr>pw_kernel := pw_kernel f, pw_base := pw_base f\<rparr>"
      by (auto simp: PosixWritableFile_PrepareWrite_def WritableFile_PrepareWrite_def Let_def)
    then show ?thesis by (intro exI [of _ "pw_kernel f"] exI [of _ "[]"] exI [of _ "pw_base f"]) simp
  qed
qed

definition pw_ok :: "PosixWritableFile \<Rightarrow> bool" where
  "pw_ok f \<longleftrightarrow> kernel_ok (pw_kernel f)"

definition pw_appended :: "PosixWritableFile \<Rightarrow> bytes" where
  "pw_appended f = appended (pw_kernel f)"

lemma pw_frame:
  assumes "k_data k' = k_data (pw_kernel f) @ z" "k_pos k' = k_pos (pw_kernel f)"
    "k_append k' = k_append (pw_kernel f)" "k_open k' = k_open (pw_kernel f)" "pw_ok f"
  shows "pw_ok (f\<lparr>pw_kernel := k'\<rparr>)" "pw_ok (f\<lparr>pw_kernel := k', pw_base := b\<rparr>)"
    "pw_appended (f\<lparr>pw_kernel := k'\<rparr>) = pw_appended f"
    "pw_appended (f\<lparr>pw_kernel := k', pw_base := b\<rparr>) = pw_appended f"
  using assms by (simp_all add: pw_ok_def kernel_ok_def pw_appended_def appended_def)

interpretation posix_append: append_file PosixWritableFile_vt pw_appended pw_ok False
proof unfold_locales
  fix f :: PosixWritableFile and off len :: nat and s f' and d :: bytes
  assume ok: "pw_ok f"
  show "pw_ok (wf_PrepareWrite PosixWritableFile_vt off len f) \<and>
      pw_appended (wf_PrepareWrite PosixWritableFile_vt off len f) = pw_appended f"
    using PrepareWrite_frame [of off len f] pw_frame [OF _ _ _ _ ok] by (auto simp: PosixWritableFile_vt_def)
  show "pw_ok f' \<and> pw_appended f' = pw_appended f \<and> (False \<longrightarrow> Status_ok s)" if "wf_Flush PosixWritableFile_vt f = (s, f')"
    using that ok by (auto simp: PosixWritableFile_vt_def PosixWritableFile_Flush_def)
  have sync: "pw_ok f' \<and> pw_appended f' = pw_appended f \<and> (False \<longrightarrow> Status_ok s)" if "checked sys_sync f = (s, f')" for s f'
    using checked_sync_frame [OF that] pw_frame [OF _ _ _ _ ok, of _ "[]"] by auto
  then show "pw_ok f' \<and> pw_appended f' = pw_appended f \<and> (False \<longrightarrow> Status_ok s)" if "wf_RangeSync PosixWritableFile_vt off len f = (s, f')"
    using that by (simp add: PosixWritableFile_vt_def PosixWritableFile_RangeSync_def)
  from sync show "\<exists>s f'. wf_Sync PosixWritableFile_vt f = Some (s, f') \<and> pw_ok f' \<and> pw_appended f' = pw_appended f \<and>
      (False \<longrightarrow> Status_ok s)"
    by (cases "checked sys_sync f") (simp add: PosixWritableFile_vt_def PosixWritableFile_Sync_def)
  from sync show "\<exists>s f'. wf_Fsync PosixWritableFile_vt f = Some (s, f') \<and> pw_ok f' \<and> pw_appended f' = pw_appended f \<and>
      (False \<longrightarrow> Status_ok s)"
    by (cases "checked sys_sync f") (simp add: PosixWritableFile_vt_def PosixWritableFile_Fsync_def)
  show "\<exists>s f'. wf_Append PosixWritableFile_vt d f = Some (s, f') \<and> pw_ok f' \<and> (False \<longrightarrow> Status_ok s) \<and>
      (\<exists>k \<le> length d. pw_appended f' = pw_appended f @ take k d \<and> (Status_ok s \<longrightarrow> k = length d))"
    using ok write_loop_law [of "pw_kernel f" "pw_filename f" d]
    by (auto simp: PosixWritableFile_vt_def PosixWritableFile_Append_def pw_ok_def pw_appended_def Let_def
        split: prod.splits if_splits)
qed

text \<open>A file on which no coming call fails.\<close>

definition pw_clean :: "PosixWritableFile \<Rightarrow> bool" where
  "pw_clean f \<longleftrightarrow> pw_ok f \<and> k_script (pw_kernel f) = []"

lemma transfer_clean: "k_open k \<Longrightarrow> k_script k = [] \<Longrightarrow> transfer n k = (Inr n, k)"
  by (simp add: transfer_def next_event_def)

lemma sys_simple_clean: "k_open k \<Longrightarrow> k_script k = [] \<Longrightarrow> sys_simple effect k = (0, effect k)"
  by (simp add: sys_simple_def transfer_clean)

lemma write_loop_clean:
  assumes "k_open k" "k_script k = []"
  shows "\<exists>k'. write_loop fname src k = (Status_OK, k') \<and> k_script k' = []"
proof (cases "src = []")
  case True
  with assms show ?thesis by (simp add: write_loop.simps [of fname "[]"])
next
  case False
  with assms show ?thesis
    by (simp add: write_loop.simps [of fname src k] write_loop.simps [of fname "[]"] sys_write_def
        transfer_clean Let_def)
qed

lemma PrepareWrite_clean:
  "pw_clean f \<Longrightarrow> k_script (pw_kernel (PosixWritableFile_PrepareWrite off len f)) = []"
  by (simp add: PosixWritableFile_PrepareWrite_def WritableFile_PrepareWrite_def
      PosixWritableFile_Allocate_def checked_def sys_fallocate_def sys_simple_clean pw_clean_def
      pw_ok_def kernel_ok_def Let_def)

interpretation posix_clean: append_file PosixWritableFile_vt pw_appended pw_clean True
proof unfold_locales
  fix f :: PosixWritableFile and off len :: nat and s f' and d :: bytes
  assume clean: "pw_clean f"
  then have ok: "pw_ok f" "k_open (pw_kernel f)" "k_script (pw_kernel f) = []"
    by (auto simp: pw_clean_def pw_ok_def kernel_ok_def)
  show "pw_clean (wf_PrepareWrite PosixWritableFile_vt off len f) \<and>
      pw_appended (wf_PrepareWrite PosixWritableFile_vt off len f) = pw_appended f"
    using posix_append.PrepareWrite_frame [OF ok(1), of off len] PrepareWrite_clean [OF clean, of off len]
    by (auto simp: pw_clean_def PosixWritableFile_vt_def)
  show "pw_clean f' \<and> pw_appended f' = pw_appended f \<and> (True \<longrightarrow> Status_ok s)"
    if "wf_Flush PosixWritableFile_vt f = (s, f')"
    using that clean by (auto simp: PosixWritableFile_vt_def PosixWritableFile_Flush_def)
  have sync: "pw_clean f' \<and> pw_appended f' = pw_appended f \<and> (True \<longrightarrow> Status_ok s)"
    if "checked sys_sync f = (s, f')" for s f'
    using that clean ok by (auto simp: checked_def sys_sync_def sys_simple_clean)
  then show "pw_clean f' \<and> pw_appended f' = pw_appended f \<and> (True \<longrightarrow> Status_ok s)"
    if "wf_RangeSync PosixWritableFile_vt off len f = (s, f')"
    using that by (simp add: PosixWritableFile_vt_def PosixWritableFile_RangeSync_def)
  from sync show "\<exists>s f'. wf_Sync PosixWritableFile_vt f = Some (s, f') \<and> pw_clean f' \<and> pw_appended f' = pw_appended f \<and>
      (True \<longrightarrow> Status_ok s)"
    by (cases "checked sys_sync f") (simp add: PosixWritableFile_vt_def PosixWritableFile_Sync_def)
  from sync show "\<exists>s f'. wf_Fsync PosixWritableFile_vt f = Some (s, f') \<and> pw_clean f' \<and> pw_appended f' = pw_appended f \<and>
      (True \<longrightarrow> Status_ok s)"
    by (cases "checked sys_sync f") (simp add: PosixWritableFile_vt_def PosixWritableFile_Fsync_def)
  show "\<exists>s f'. wf_Append PosixWritableFile_vt d f = Some (s, f') \<and> pw_clean f' \<and> (True \<longrightarrow> Status_ok s) \<and>
      (\<exists>k \<le> length d. pw_appended f' = pw_appended f @ take k d \<and> (Status_ok s \<longrightarrow> k = length d))"
    using posix_append.Append_law [OF ok(1), of d] write_loop_clean [OF ok(2,3), of "pw_filename f" d]
    by (auto simp: PosixWritableFile_vt_def PosixWritableFile_Append_def pw_clean_def)
qed

subsection \<open>Writers on POSIX files\<close>

lemma posix_buffered_vt: "buffered_vt PosixWritableFile_vt f"
  by (simp add: buffered_vt_def PosixWritableFile_vt_def c_DefaultPageSize_def)

lemmas posix_writer_init = posix_append.writer_init [OF _ posix_buffered_vt]

text \<open>
  Direct I/O: a descriptor without \<open>O_APPEND\<close>, preallocation that keeps the size. The writer
  passes the start of its buffer, which \<open>AlignedBuffer\<close> places at a multiple of the required
  4096 bytes, so that the page test succeeds.
\<close>

definition direct_ok :: "PosixWritableFile \<Rightarrow> bool" where
  "direct_ok f \<longleftrightarrow> pw_ok f \<and> pw_fallocate_with_keep_size f"

definition pw_data :: "PosixWritableFile \<Rightarrow> bytes" where
  "pw_data f = k_data (pw_kernel f)"

lemma direct_buffer_page_aligned: "unat p + 4096 \<le> 2 ^ 64 \<Longrightarrow> unat (AB_bufstart p 4096) mod 4096 = 0"
  using AB_bufstart_aligned(1) [OF power_of_two_4096] by simp

interpretation posix_positioned: positioned_file "PosixDirectIOWritableFile_vt True" pw_data direct_ok False 4096
proof unfold_locales
  fix f :: PosixWritableFile and off len :: nat and s f' and d :: bytes
  assume ok: "direct_ok f"
  note vt = PosixDirectIOWritableFile_vt_def PosixWritableFile_vt_def
  show "direct_ok (wf_PrepareWrite (PosixDirectIOWritableFile_vt True) off len f) \<and>
      pw_data (wf_PrepareWrite (PosixDirectIOWritableFile_vt True) off len f) = pw_data f"
    using PrepareWrite_frame [of off len f] ok
    by (auto simp: vt direct_ok_def pw_ok_def kernel_ok_def pw_data_def)
  show "direct_ok f' \<and> pw_data f' = pw_data f \<and> (False \<longrightarrow> Status_ok s)"
    if "wf_Flush (PosixDirectIOWritableFile_vt True) f = (s, f')"
    using that ok by (auto simp: vt PosixWritableFile_Flush_def)
  have sync: "direct_ok f' \<and> pw_data f' = pw_data f" if "checked sys_sync f = (s, f')" for s f'
    using checked_sync_frame [OF that] ok
    by (auto simp: direct_ok_def pw_ok_def kernel_ok_def pw_data_def)
  then show "direct_ok f' \<and> pw_data f' = pw_data f \<and> (False \<longrightarrow> Status_ok s)"
    if "wf_RangeSync (PosixDirectIOWritableFile_vt True) off len f = (s, f')"
    using that by (simp add: vt PosixWritableFile_RangeSync_def)
  from sync show "\<exists>s f'. wf_Sync (PosixDirectIOWritableFile_vt True) f = Some (s, f') \<and> direct_ok f' \<and>
      pw_data f' = pw_data f \<and> (False \<longrightarrow> Status_ok s)"
    by (cases "checked sys_sync f") (simp add: vt PosixWritableFile_Sync_def)
  from sync show "\<exists>s f'. wf_Fsync (PosixDirectIOWritableFile_vt True) f = Some (s, f') \<and> direct_ok f' \<and>
      pw_data f' = pw_data f \<and> (False \<longrightarrow> Status_ok s)"
    by (cases "checked sys_sync f") (simp add: vt PosixWritableFile_Fsync_def)
  show "\<exists>s f'. wf_PositionedAppend (PosixDirectIOWritableFile_vt True) d off f = Some (s, f') \<and> direct_ok f' \<and>
      (\<exists>k \<le> length d. pw_data f' = overwrite (pw_data f) off (take k d) \<and> (Status_ok s \<longrightarrow> k = length d))"
    if "off \<le> length (pw_data f)" "4096 dvd off" "4096 dvd length d"
  proof -
    have "(512 :: nat) dvd 4096" by simp
    then have "IsSectorAligned off" "IsSectorAligned (Slice_size d)"
      using that(2,3) by (auto simp: IsSectorAligned_def kSectorSize_def Slice_size_def intro: dvd_trans)
    with that(1) ok pwrite_loop_law [of "pw_kernel f" off "pw_filename f" d] show ?thesis
      by (auto simp: vt PosixDirectIOWritableFile_PositionedAppend_def PosixWritableFile_PositionedAppend_def
          direct_ok_def pw_ok_def pw_data_def Let_def split: prod.splits if_splits)
  qed
qed

subsection \<open>PosixSequentialFile\<close>

text \<open>
  The stream \<open>FILE*\<close>: the position, the end-of-file and error indicators, and a script of the
  coming calls of \<open>fread\<close>: complete, or failing after some bytes with an error number.
\<close>

datatype fread_event = FreadComplete | FreadFail nat nat

record PosixSequentialFile =
  ps_filename :: bytes
  ps_kernel :: kernel
  ps_feof :: bool
  ps_ferror :: bool
  ps_fscript :: "fread_event list"
  ps_use_os_buffer :: bool

definition PosixSequentialFile_init :: "bytes \<Rightarrow> kernel \<Rightarrow> fread_event list \<Rightarrow> bool \<Rightarrow> PosixSequentialFile" where
  "PosixSequentialFile_init fname k script use_os_buffer =
     \<lparr>ps_filename = fname, ps_kernel = k, ps_feof = False, ps_ferror = False, ps_fscript = script,
      ps_use_os_buffer = use_os_buffer\<rparr>"

definition fread_unlocked :: "nat \<Rightarrow> PosixSequentialFile \<Rightarrow> bytes \<times> PosixSequentialFile" where
  "fread_unlocked n f =
     (let k = ps_kernel f;
          rest = drop (k_pos k) (k_data k);
          (event, f) = (case ps_fscript f of
              [] \<Rightarrow> (FreadComplete, f)
            | e # es \<Rightarrow> (e, f\<lparr>ps_fscript := es\<rparr>))
      in case event of
           FreadComplete \<Rightarrow>
             (let d = take n rest
              in (d, f\<lparr>ps_kernel := k\<lparr>k_pos := k_pos k + length d\<rparr>,
                       ps_feof := ps_feof f \<or> length d < n\<rparr>))
         | FreadFail m e \<Rightarrow>
             (let d = take (min m (n - 1)) rest
              in (d, f\<lparr>ps_kernel := k\<lparr>k_pos := k_pos k + length d, k_errno := e\<rparr>,
                       ps_ferror := True\<rparr>)))"

partial_function (option) fread_retry :: "nat \<Rightarrow> PosixSequentialFile \<Rightarrow> (bytes \<times> PosixSequentialFile) option" where
  "fread_retry n f =
     (let (d, f) = fread_unlocked n f
      in if length d = 0 \<and> ps_ferror f \<and> k_errno (ps_kernel f) = EINTR then fread_retry n f
         else Some (d, f))"

definition PosixSequentialFile_Read ::
    "nat \<Rightarrow> PosixSequentialFile \<Rightarrow> (Status \<times> slice \<times> PosixSequentialFile) option" where
  "PosixSequentialFile_Read n f =
     (case fread_retry n f of
        None \<Rightarrow> None
      | Some (d, f) \<Rightarrow>
          (let (s, f) = (if length d < n then
                           (if ps_feof f then (Status_OK, f\<lparr>ps_feof := False, ps_ferror := False\<rparr>)
                            else (IOError (ps_filename f) (ps_kernel f), f))
                         else (Status_OK, f));
               f = (if \<not> ps_use_os_buffer f then f\<lparr>ps_kernel := snd (Fadvise (ps_kernel f))\<rparr> else f)
           in Some (s, d, f)))"

text \<open>\<open>fseek\<close> relative to the current position, with the offset as a signed number.\<close>

definition PosixSequentialFile_Skip :: "u64 \<Rightarrow> PosixSequentialFile \<Rightarrow> Status \<times> PosixSequentialFile" where
  "PosixSequentialFile_Skip n f =
     (let k = ps_kernel f;
          pos = int (k_pos k) + sint n
      in if pos < 0 then
           (let k = k\<lparr>k_errno := EINVAL\<rparr>
            in (IOError (ps_filename f) k, f\<lparr>ps_kernel := k\<rparr>))
         else (Status_OK, f\<lparr>ps_kernel := k\<lparr>k_pos := nat pos\<rparr>, ps_feof := False\<rparr>))"

definition PosixSequentialFile_InvalidateCache ::
    "nat \<Rightarrow> nat \<Rightarrow> PosixSequentialFile \<Rightarrow> Status \<times> PosixSequentialFile" where
  "PosixSequentialFile_InvalidateCache offset len f =
     (let (ret, k) = Fadvise (ps_kernel f);
          f = f\<lparr>ps_kernel := k\<rparr>
      in if ret = 0 then (Status_OK, f) else (IOError (ps_filename f) k, f))"

definition PosixSequentialFile_vt :: "PosixSequentialFile SequentialFile_vt" where
  "PosixSequentialFile_vt =
     \<lparr>sf_Read = PosixSequentialFile_Read, sf_Skip = PosixSequentialFile_Skip\<rparr>"

text \<open>No read of the stream is, was or will be interrupted.\<close>

fun interrupted :: "fread_event \<Rightarrow> bool" where
  "interrupted FreadComplete = False"
| "interrupted (FreadFail m e) = (e = EINTR)"

definition seq_ok :: "PosixSequentialFile \<Rightarrow> bool" where
  "seq_ok f \<longleftrightarrow> \<not> (ps_ferror f \<and> k_errno (ps_kernel f) = EINTR) \<and>
     (\<forall>e \<in> set (ps_fscript f). \<not> interrupted e)"

definition seq_rest :: "PosixSequentialFile \<Rightarrow> bytes" where
  "seq_rest f = drop (k_pos (ps_kernel f)) (k_data (ps_kernel f))"

lemma fread_unlocked_law:
  assumes "seq_ok f" and "fread_unlocked n f = (d, f')"
  shows "seq_ok f' \<and> d = take (length d) (seq_rest f) \<and> seq_rest f' = drop (length d) (seq_rest f) \<and>
         length d \<le> n \<and>
         (ps_fscript f = [] \<longrightarrow> ps_fscript f' = [] \<and> d = take n (seq_rest f) \<and> (length d < n \<longrightarrow> ps_feof f'))"
proof -
  define rest where "rest = drop (k_pos (ps_kernel f)) (k_data (ps_kernel f))"
  have move: "drop (k_pos (ps_kernel f) + j) (k_data (ps_kernel f)) = drop j rest" for j
    by (simp add: rest_def add.commute)
  have "\<exists>j. d = take j rest \<and> j \<le> n"
    and "seq_ok f'" and "seq_rest f' = drop (length d) rest"
    and "ps_fscript f = [] \<longrightarrow> ps_fscript f' = [] \<and> d = take n rest \<and> (length d < n \<longrightarrow> ps_feof f')"
    using assms
    by (auto simp: fread_unlocked_def seq_ok_def seq_rest_def Let_def move simp flip: rest_def
        split: list.splits fread_event.splits)
  then show ?thesis
    by (auto simp: min_def seq_rest_def simp flip: rest_def)
qed

lemma fread_retry_law:
  assumes "seq_ok f"
  shows "fread_retry n f = Some (fread_unlocked n f)"
proof -
  obtain d f' where "fread_unlocked n f = (d, f')" by (cases "fread_unlocked n f")
  with fread_unlocked_law [OF assms this] show ?thesis
    by (auto simp: fread_retry.simps [of n f] seq_ok_def)
qed

lemma Fadvise_frame:
  "k_data (snd (Fadvise k)) = k_data k" "k_pos (snd (Fadvise k)) = k_pos k" "k_errno (snd (Fadvise k)) = k_errno k"
  by (simp_all add: Fadvise_def next_event_def split: list.splits sys_event.splits)

lemma Read_law_posix:
  assumes "seq_ok f"
  shows "\<exists>s d f'. PosixSequentialFile_Read n f = Some (s, d, f') \<and> seq_ok f' \<and>
           d = take (length d) (seq_rest f) \<and> seq_rest f' = drop (length d) (seq_rest f) \<and>
           (ps_fscript f = [] \<longrightarrow> ps_fscript f' = [] \<and> d = take n (seq_rest f) \<and> Status_ok s)"
proof -
  obtain d f1 where fr: "fread_unlocked n f = (d, f1)" by (cases "fread_unlocked n f")
  note law = fread_unlocked_law [OF assms fr]
  define f2 where "f2 = (if length d < n \<and> ps_feof f1 then f1\<lparr>ps_feof := False, ps_ferror := False\<rparr> else f1)"
  define f3 where "f3 = (if \<not> ps_use_os_buffer f2 then f2\<lparr>ps_kernel := snd (Fadvise (ps_kernel f2))\<rparr> else f2)"
  have "PosixSequentialFile_Read n f =
      Some (if length d < n \<and> \<not> ps_feof f1 then IOError (ps_filename f1) (ps_kernel f1) else Status_OK, d, f3)"
    using fr fread_retry_law [OF assms, of n] by (simp add: PosixSequentialFile_Read_def f2_def f3_def)
  moreover have "seq_ok f3 \<and> seq_rest f3 = seq_rest f1 \<and> ps_fscript f3 = ps_fscript f1"
    using law by (simp add: f2_def f3_def seq_ok_def seq_rest_def Fadvise_frame)
  ultimately show ?thesis using law by auto
qed

lemma Skip_law_posix:
  assumes "seq_ok f"
  shows "\<exists>s f'. PosixSequentialFile_Skip m f = (s, f') \<and> seq_ok f' \<and> ps_fscript f' = ps_fscript f \<and>
           (unat m < 2 ^ 63 \<longrightarrow> Status_ok s \<and> seq_rest f' = drop (unat m) (seq_rest f))"
proof -
  have "sint m = int (unat m)" if "unat m < 2 ^ 63"
  proof -
    have "int (unat m) < int (2 ^ 63)" using that by (simp only: of_nat_less_iff)
    then have "uint m < 2 ^ 63" by simp
    moreover have "- (2 ^ 63) \<le> uint m" by (rule order_trans [OF _ uint_ge_0]) simp
    ultimately have "signed_take_bit 63 (uint m) = uint m" by (intro signed_take_bit_int_eq_self)
    then show ?thesis by (simp add: sint_uint)
  qed
  moreover have "\<not> uint m + int (k_pos (ps_kernel f)) < 0" by (simp add: not_less)
  ultimately show ?thesis
    using assms
    by (auto simp: PosixSequentialFile_Skip_def seq_ok_def seq_rest_def Let_def errno_values nat_add_distrib add.commute)
qed

interpretation posix_stream: finite_file PosixSequentialFile_vt "\<lambda>f. length (seq_rest f)" seq_ok
proof unfold_locales
  fix f :: PosixSequentialFile and n s f' m
  assume ok: "seq_ok f"
  from Read_law_posix [OF ok, of n] obtain t d g where
    r: "PosixSequentialFile_Read n f = Some (t, d, g)" "seq_ok g" "d = take (length d) (seq_rest f)"
      "seq_rest g = drop (length d) (seq_rest f)" by blast
  from r(3) have "length d \<le> length (seq_rest f)" by (metis length_take min.cobounded1)
  with r show "\<exists>s d f'. sf_Read PosixSequentialFile_vt n f = Some (s, d, f') \<and> seq_ok f' \<and>
      length (seq_rest f') \<le> length (seq_rest f) \<and>
      (Status_ok s \<longrightarrow> length d + length (seq_rest f') \<le> length (seq_rest f))"
    by (auto simp: PosixSequentialFile_vt_def)
  show "sf_Skip PosixSequentialFile_vt m f = (s, f') \<Longrightarrow> seq_ok f'"
    using Skip_law_posix [OF ok, of m] by (auto simp: PosixSequentialFile_vt_def)
qed

subsection \<open>Interrupted reads\<close>

text \<open>
  With bytes still to come the retry loop ends, whatever the script: an interruption that
  delivered nothing is retried, and the script is finite.
\<close>

lemma fread_retry_returns:
  assumes "seq_rest f \<noteq> []" and "0 < n"
  shows "\<exists>d f'. fread_retry n f = Some (d, f') \<and> d = take (length d) (seq_rest f) \<and>
           seq_rest f' = drop (length d) (seq_rest f) \<and> length d \<le> n"
  using assms(1)
proof (induction "length (ps_fscript f)" arbitrary: f)
  case 0
  define d where "d = take n (seq_rest f)"
  have "d \<noteq> []" using 0(2) assms(2) by (simp add: d_def)
  moreover obtain f' where f': "fread_unlocked n f = (d, f')"
    "k_data (ps_kernel f') = k_data (ps_kernel f)" "k_pos (ps_kernel f') = k_pos (ps_kernel f) + length d"
    using 0(1) by (simp add: fread_unlocked_def d_def seq_rest_def Let_def)
  ultimately have "fread_retry n f = Some (d, f')" by (subst fread_retry.simps) simp
  then show ?case using f' by (auto simp: d_def seq_rest_def min_def add.commute)
next
  case (Suc l)
  from Suc(2) obtain e es where script: "ps_fscript f = e # es" by (cases "ps_fscript f") auto
  obtain d f' where f': "fread_unlocked n f = (d, f')" by (cases "fread_unlocked n f")
  have step: "ps_fscript f' = es" "k_data (ps_kernel f') = k_data (ps_kernel f)"
      "k_pos (ps_kernel f') = k_pos (ps_kernel f) + length d" "\<exists>j \<le> n. d = take j (seq_rest f)"
    using f' script
    by (cases e; auto simp: fread_unlocked_def Let_def seq_rest_def intro: exI [of _ "min _ (n - 1)"])+
  then have rest: "seq_rest f' = drop (length d) (seq_rest f)" "d = take (length d) (seq_rest f)" "length d \<le> n"
    by (auto simp: seq_rest_def add.commute min_def)
  show ?case
  proof (cases "length d = 0 \<and> ps_ferror f' \<and> k_errno (ps_kernel f') = EINTR")
    case True
    then have "fread_retry n f = fread_retry n f'" using f' by (subst fread_retry.simps) simp
    moreover have "seq_rest f' = seq_rest f" using True rest(1) by simp
    ultimately show ?thesis using Suc(1) [of f'] Suc(2,3) script step(1) by simp
  next
    case False
    then have "fread_retry n f = Some (d, f')" using f' by (subst fread_retry.simps) auto
    with rest show ?thesis by blast
  qed
qed

text \<open>
  At the end of the file it does not: once a read was interrupted the error flag stays set,
  \<open>fread\<close> delivers nothing and leaves \<open>errno\<close> as it is.
\<close>

definition interrupted_at_end :: "PosixSequentialFile \<Rightarrow> bool" where
  "interrupted_at_end f \<longleftrightarrow> seq_rest f = [] \<and> (\<forall>e \<in> set (ps_fscript f). interrupted e) \<and>
     (ps_fscript f = [] \<longrightarrow> ps_ferror f \<and> k_errno (ps_kernel f) = EINTR)"

lemma interrupted_at_end_step:
  assumes "interrupted_at_end f" and "fread_unlocked n f = (d, f')"
  shows "d = [] \<and> ps_ferror f' \<and> k_errno (ps_kernel f') = EINTR \<and> interrupted_at_end f'"
proof (cases "ps_fscript f")
  case Nil
  with assms show ?thesis by (auto simp: interrupted_at_end_def fread_unlocked_def seq_rest_def)
next
  case (Cons e es)
  with assms show ?thesis
    by (cases e) (auto simp: interrupted_at_end_def fread_unlocked_def seq_rest_def)
qed

lemma fread_retry_spins: "interrupted_at_end f \<Longrightarrow> fread_retry n f = None"
proof (rule ccontr)
  assume "interrupted_at_end f" "fread_retry n f \<noteq> None"
  then obtain y where y: "fread_retry n f = Some y" by blast
  have "\<not> interrupted_at_end f"
  proof (rule fread_retry.raw_induct [where P = "\<lambda>n f y. \<not> interrupted_at_end f", OF _ y], rule notI)
    fix loop n f y
    assume hyp: "\<And>n f y. loop n f = Some y \<Longrightarrow> \<not> interrupted_at_end f"
      and body: "(let (d, f) = fread_unlocked n f
        in if length d = 0 \<and> ps_ferror f \<and> k_errno (ps_kernel f) = EINTR then loop n f else Some (d, f)) = Some y"
      and stuck: "interrupted_at_end f"
    obtain d f' where "fread_unlocked n f = (d, f')" by (cases "fread_unlocked n f")
    with interrupted_at_end_step [OF stuck this] hyp [of n f' y] body show False by simp
  qed
  with \<open>interrupted_at_end f\<close> show False by contradiction
qed

text \<open>
  A log is read in blocks and the reader stops at the first short one. No read of it spins
  when none is interrupted, or when the file does not end at the end of a block.
\<close>

definition seq_in_blocks :: "PosixSequentialFile \<Rightarrow> bool" where
  "seq_in_blocks f \<longleftrightarrow> seq_ok f \<or> length (seq_rest f) mod kBlockSize \<noteq> 0"

lemma Read_frame:
  assumes "fread_retry n f = Some (d, f1)"
  shows "\<exists>s f'. PosixSequentialFile_Read n f = Some (s, d, f') \<and> seq_rest f' = seq_rest f1"
  using assms by (auto simp: PosixSequentialFile_Read_def Let_def seq_rest_def Fadvise_frame)

interpretation posix_log_stream: log_file PosixSequentialFile_vt "\<lambda>f. length (seq_rest f)" seq_in_blocks
proof unfold_locales
  fix f assume f: "seq_in_blocks f"
  show "\<exists>s d f'. sf_Read PosixSequentialFile_vt kBlockSize f = Some (s, d, f') \<and>
      length (seq_rest f') \<le> length (seq_rest f) \<and>
      (Status_ok s \<longrightarrow> length d + length (seq_rest f') \<le> length (seq_rest f) \<and>
        (kBlockSize \<le> length d \<longrightarrow> seq_in_blocks f'))"
  proof (cases "seq_ok f")
    case True
    from posix_stream.Read_finite [OF this, of kBlockSize] show ?thesis
      by (auto simp: seq_in_blocks_def)
  next
    case False
    with f have torn: "length (seq_rest f) mod kBlockSize \<noteq> 0" by (simp add: seq_in_blocks_def)
    then have "seq_rest f \<noteq> []" by auto
    from fread_retry_returns [OF this, of kBlockSize] obtain d f1 where
      d: "fread_retry kBlockSize f = Some (d, f1)" "d = take (length d) (seq_rest f)"
        "seq_rest f1 = drop (length d) (seq_rest f)" "length d \<le> kBlockSize"
      by (auto simp: kBlockSize_def)
    from Read_frame [OF d(1)] obtain s f' where
      r: "PosixSequentialFile_Read kBlockSize f = Some (s, d, f')" "seq_rest f' = seq_rest f1" by blast
    from d(2) have len: "length d \<le> length (seq_rest f)" by (metis length_take min.cobounded1)
    have "seq_in_blocks f'" if "kBlockSize \<le> length d"
    proof -
      have "length (seq_rest f') = length (seq_rest f) - kBlockSize" using that d(3,4) r(2) by simp
      moreover have "kBlockSize \<le> length (seq_rest f)" using that len by simp
      ultimately show ?thesis using torn by (simp add: seq_in_blocks_def le_mod_geq)
    qed
    with r d(3) len show ?thesis by (auto simp: PosixSequentialFile_vt_def)
  qed
qed

text \<open>Without device errors the script is empty.\<close>

definition seq_clean :: "PosixSequentialFile \<Rightarrow> bool" where
  "seq_clean f \<longleftrightarrow> seq_ok f \<and> ps_fscript f = []"

interpretation posix_seq: sequential_file PosixSequentialFile_vt seq_rest seq_clean
proof unfold_locales
  fix f :: PosixSequentialFile and n m
  assume "seq_clean f"
  then have ok: "seq_ok f" "ps_fscript f = []" by (auto simp: seq_clean_def)
  show "\<exists>s f'. sf_Read PosixSequentialFile_vt n f = Some (s, take n (seq_rest f), f') \<and> Status_ok s \<and>
      seq_clean f' \<and> seq_rest f' = drop n (seq_rest f)"
    using Read_law_posix [OF ok(1), of n] ok(2)
    by (auto simp: PosixSequentialFile_vt_def seq_clean_def min_def)
  show "\<exists>s f'. sf_Skip PosixSequentialFile_vt m f = (s, f') \<and> seq_clean f' \<and>
      (unat m < 2 ^ 63 \<longrightarrow> Status_ok s \<and> seq_rest f' = drop (unat m) (seq_rest f))"
    using Skip_law_posix [OF ok(1), of m] ok(2) by (auto simp: PosixSequentialFile_vt_def seq_clean_def)
qed

end
