(* ===== verification/RandomAccess.thy ===== *)
theory RandomAccess
  imports PosixFile "HOL-Library.Monad_Syntax"
begin

text \<open>
  Random access to files: \<open>PosixRandomAccessFile\<close>, \<open>PosixMmapReadableFile\<close>
  and \<open>PosixRandomRWFile\<close> of \<open>rutil/io_posix.cc\<close> over the kernel of \<open>PosixFile\<close>, and the
  \<open>ReadaheadRandomAccessFile\<close> of \<open>rutil/file_reader_writer.cc\<close> over the interface. The memory the
  caller passes as \<open>scratch\<close> is part of the model, because \<open>ReadaheadRandomAccessFile\<close> passes its
  own buffer.

  \<open>None\<close> is a call that does not return or gives a slice outside of its memory.

  Shown: \<open>PosixRandomAccessFile\<close> and \<open>PosixMmapReadableFile\<close> provide the contract \<open>random_file\<close>, and
  so does a \<open>ReadaheadRandomAccessFile\<close> over any file that does; a failed read leaves the
  read-ahead buffer wrong; a read behind the end of the file after an interrupted one does not
  return; \<open>PosixRandomRWFile\<close> reads back what it wrote; the ids from \<open>GetUniqueIdFromFile\<close> are
  prefix-free.
\<close>

subsection \<open>PosixRandomAccessFile\<close>

text \<open>The offset is converted to the signed type \<open>off_t\<close>; negative offsets are refused.\<close>

definition pread :: "nat \<Rightarrow> u64 \<Rightarrow> kernel \<Rightarrow> int \<times> bytes \<times> kernel" where
  "pread n off k = (if unat off \<ge> 2 ^ 63 then (-1, [], k\<lparr>k_errno := EINVAL\<rparr>) else sys_pread n (unat off) k)"

record PosixRandomAccessFile =
  pr_filename :: bytes
  pr_kernel :: kernel
  pr_use_os_buffer :: bool

definition PosixRandomAccessFile_init :: "bytes \<Rightarrow> kernel \<Rightarrow> bool \<Rightarrow> PosixRandomAccessFile" where
  "PosixRandomAccessFile_init fname k use_os_buffer =
     \<lparr>pr_filename = fname, pr_kernel = k, pr_use_os_buffer = use_os_buffer\<rparr>"

text \<open>\<open>got\<close> is what has been stored in \<open>scratch\<close>, between its start and \<open>ptr\<close>.\<close>

partial_function (option) pread_loop ::
    "bytes \<Rightarrow> nat \<Rightarrow> u64 \<Rightarrow> int \<Rightarrow> kernel \<Rightarrow> (int \<times> bytes \<times> nat \<times> kernel) option" where
  "pread_loop got left offset r k =
     (if left = 0 then Some (r, got, left, k)
      else
        (let (r, d, k) = pread left offset k
         in if r \<le> 0 then
              (if k_errno k = EINTR then pread_loop got left offset r k else Some (r, got, left, k))
            else pread_loop (got @ d) (left - nat r) (offset + of_int r) r k))"

definition PosixRandomAccessFile_Read ::
    "u64 \<Rightarrow> nat \<Rightarrow> bytes \<Rightarrow> PosixRandomAccessFile \<Rightarrow> (raf_result \<times> PosixRandomAccessFile) option" where
  "PosixRandomAccessFile_Read offset n scratch f = do {
     (r, got, left, k) \<leftarrow> pread_loop [] n offset (-1) (pr_kernel f);
     let scratch = got @ drop (length got) scratch;
     let data = (if r < 0 then [] else take (n - left) scratch);
     let s = (if r < 0 then IOError (pr_filename f) k else Status_OK);
     let k = (if \<not> pr_use_os_buffer f then snd (Fadvise k) else k);
     Some (\<lparr>rr_status = s, rr_data = data, rr_in_scratch = True, rr_scratch = scratch\<rparr>, f\<lparr>pr_kernel := k\<rparr>)
   }"

datatype AccessPattern = NORMAL | RANDOM | SEQUENTIAL | WILLNEED | DONTNEED

text \<open>The advice differs between the patterns and has no other effect.\<close>

definition PosixRandomAccessFile_Hint :: "AccessPattern \<Rightarrow> PosixRandomAccessFile \<Rightarrow> PosixRandomAccessFile" where
  "PosixRandomAccessFile_Hint pattern f = f\<lparr>pr_kernel := snd (Fadvise (pr_kernel f))\<rparr>"

definition PosixRandomAccessFile_InvalidateCache ::
    "nat \<Rightarrow> nat \<Rightarrow> PosixRandomAccessFile \<Rightarrow> Status \<times> PosixRandomAccessFile" where
  "PosixRandomAccessFile_InvalidateCache offset len f =
     (let (ret, k) = Fadvise (pr_kernel f);
          f = f\<lparr>pr_kernel := k\<rparr>
      in if ret = 0 then (Status_OK, f) else (IOError (pr_filename f) k, f))"

definition PosixRandomAccessFile_vt :: "PosixRandomAccessFile RandomAccessFile_vt" where
  "PosixRandomAccessFile_vt =
     \<lparr>raf_Read = PosixRandomAccessFile_Read, raf_ShouldForwardRawRequest = \<lambda>f. False, raf_EnableReadAhead = \<lambda>f. f\<rparr>"

subsection \<open>PosixMmapReadableFile\<close>

record PosixMmapReadableFile =
  mr_filename :: bytes
  mr_kernel :: kernel
  mr_region :: bytes
  mr_length :: nat

definition PosixMmapReadableFile_init :: "kernel \<Rightarrow> bytes \<Rightarrow> bytes \<Rightarrow> PosixMmapReadableFile" where
  "PosixMmapReadableFile_init k fname base =
     \<lparr>mr_filename = fname, mr_kernel = k, mr_region = base, mr_length = length base\<rparr>"

text \<open>The sum of the offset and \<open>n\<close> is computed in 64 bits. A slice that leaves the region is not a
  value (\<open>None\<close>).\<close>

definition PosixMmapReadableFile_Read ::
    "u64 \<Rightarrow> nat \<Rightarrow> bytes \<Rightarrow> PosixMmapReadableFile \<Rightarrow> (raf_result \<times> PosixMmapReadableFile) option" where
  "PosixMmapReadableFile_Read offset n scratch f =
     (if unat offset > mr_length f then
        Some (\<lparr>rr_status = IOError (mr_filename f) ((mr_kernel f)\<lparr>k_errno := EINVAL\<rparr>), rr_data = [],
               rr_in_scratch = False, rr_scratch = scratch\<rparr>, f)
      else
        (let n = (if unat (offset + of_nat n) > mr_length f then mr_length f - unat offset else n)
         in if unat offset + n \<le> length (mr_region f) then
              Some (\<lparr>rr_status = Status_OK, rr_data = take n (drop (unat offset) (mr_region f)),
                     rr_in_scratch = False, rr_scratch = scratch\<rparr>, f)
            else None))"

definition PosixMmapReadableFile_InvalidateCache ::
    "nat \<Rightarrow> nat \<Rightarrow> PosixMmapReadableFile \<Rightarrow> Status \<times> PosixMmapReadableFile" where
  "PosixMmapReadableFile_InvalidateCache offset len f =
     (let (ret, k) = Fadvise (mr_kernel f);
          f = f\<lparr>mr_kernel := k\<rparr>
      in if ret = 0 then (Status_OK, f) else (IOError (mr_filename f) k, f))"

definition PosixMmapReadableFile_vt :: "PosixMmapReadableFile RandomAccessFile_vt" where
  "PosixMmapReadableFile_vt =
     \<lparr>raf_Read = PosixMmapReadableFile_Read, raf_ShouldForwardRawRequest = \<lambda>f. False, raf_EnableReadAhead = \<lambda>f. f\<rparr>"

subsection \<open>ReadaheadRandomAccessFile\<close>

record 'f ReadaheadRandomAccessFile =
  ra_file :: 'f
  ra_readahead_size :: nat
  ra_forward_calls :: bool
  ra_buffer :: bytes
  ra_buffer_offset :: u64
  ra_buffer_len :: nat

text \<open>\<open>junk\<close> is the memory \<open>new char[readahead_size]\<close> returns.\<close>

definition ReadaheadRandomAccessFile_init ::
    "'f RandomAccessFile_vt \<Rightarrow> bytes \<Rightarrow> 'f \<Rightarrow> nat \<Rightarrow> 'f ReadaheadRandomAccessFile" where
  "ReadaheadRandomAccessFile_init vt junk file readahead_size =
     (let f = \<lparr>ra_file = file, ra_readahead_size = readahead_size,
               ra_forward_calls = raf_ShouldForwardRawRequest vt file,
               ra_buffer = [], ra_buffer_offset = 0, ra_buffer_len = 0\<rparr>
      in if \<not> ra_forward_calls f then f\<lparr>ra_buffer := take readahead_size junk\<rparr>
         else if readahead_size > 0 then f\<lparr>ra_file := raf_EnableReadAhead vt file\<rparr> else f)"

definition ReadaheadRandomAccessFile_Read ::
    "'f RandomAccessFile_vt \<Rightarrow> u64 \<Rightarrow> nat \<Rightarrow> bytes \<Rightarrow> 'f ReadaheadRandomAccessFile \<Rightarrow>
     (raf_result \<times> 'f ReadaheadRandomAccessFile) option" where
  "ReadaheadRandomAccessFile_Read vt offset n scratch f =
     (if n \<ge> ra_readahead_size f \<or> ra_forward_calls f then do {
        (r, file) \<leftarrow> raf_Read vt offset n scratch (ra_file f);
        Some (r, f\<lparr>ra_file := file\<rparr>)
      }
      else
        (let cached = (offset \<ge> ra_buffer_offset f \<and> offset < of_nat (ra_buffer_len f) + ra_buffer_offset f);
             offset_in_buffer = unat (offset - ra_buffer_offset f);
             copied = (if cached then min (ra_buffer_len f - offset_in_buffer) n else 0);
             scratch = (if cached then take copied (drop offset_in_buffer (ra_buffer f)) @ drop copied scratch else scratch)
         in if cached \<and> copied = n then
              Some (\<lparr>rr_status = Status_OK, rr_data = take n scratch, rr_in_scratch = True, rr_scratch = scratch\<rparr>, f)
            else do {
              (r, file) \<leftarrow> raf_Read vt (offset + of_nat copied) (ra_readahead_size f) (ra_buffer f) (ra_file f);
              let f = f\<lparr>ra_file := file, ra_buffer := rr_scratch r\<rparr>;
              if \<not> Status_ok (rr_status r) then
                Some (\<lparr>rr_status = rr_status r, rr_data = [], rr_in_scratch = True, rr_scratch = scratch\<rparr>, f)
              else do {
                let left_to_copy = min (length (rr_data r)) (n - copied);
                let scratch = take copied scratch @ take left_to_copy (rr_data r) @ drop (copied + left_to_copy) scratch;
                let f = (if rr_in_scratch r then f\<lparr>ra_buffer_offset := offset + of_nat copied, ra_buffer_len := length (rr_data r)\<rparr>
                         else f\<lparr>ra_buffer_len := 0\<rparr>);
                Some (\<lparr>rr_status = Status_OK, rr_data = take (copied + left_to_copy) scratch,
                       rr_in_scratch = True, rr_scratch = scratch\<rparr>, f)
              }
            }))"

definition ReadaheadRandomAccessFile_vt :: "'f RandomAccessFile_vt \<Rightarrow> 'f ReadaheadRandomAccessFile RandomAccessFile_vt" where
  "ReadaheadRandomAccessFile_vt vt =
     \<lparr>raf_Read = ReadaheadRandomAccessFile_Read vt, raf_ShouldForwardRawRequest = \<lambda>f. False, raf_EnableReadAhead = \<lambda>f. f\<rparr>"

definition NewReadaheadRandomAccessFile ::
    "'f RandomAccessFile_vt \<Rightarrow> bytes \<Rightarrow> 'f \<Rightarrow> nat \<Rightarrow> 'f ReadaheadRandomAccessFile" where
  "NewReadaheadRandomAccessFile vt junk file readahead_size = ReadaheadRandomAccessFile_init vt junk file readahead_size"

subsection \<open>PosixRandomRWFile\<close>

record PosixRandomRWFile =
  rw_filename :: bytes
  rw_kernel :: kernel

definition pwrite :: "bytes \<Rightarrow> u64 \<Rightarrow> kernel \<Rightarrow> int \<times> kernel" where
  "pwrite d off k = (if unat off \<ge> 2 ^ 63 then (-1, k\<lparr>k_errno := EINVAL\<rparr>) else sys_pwrite d (unat off) k)"

function rw_write_loop :: "bytes \<Rightarrow> bytes \<Rightarrow> u64 \<Rightarrow> kernel \<Rightarrow> Status \<times> kernel" where
  "rw_write_loop fname src offset k =
     (if src = [] then (Status_OK, k)
      else
        (let (done, k) = pwrite src offset k
         in if done < 0 then
              (if k_errno k = EINTR then rw_write_loop fname src offset k else (IOError fname k, k))
            else rw_write_loop fname (drop (nat done) src) (offset + of_int done) k))"
  by pat_completeness auto

termination rw_write_loop
proof (relation "measure (\<lambda>(fname, src, off, k). length (k_script k) + length src)", goal_cases)
  case 1
  show ?case by simp
next
  case (2 fname src off k x n k')
  then show ?case using sys_pwrite_progress [of src "unat off" k n k'] by (auto simp: pwrite_def errno_values split: if_splits)
next
  case (3 fname src off k x n k')
  then show ?case using sys_pwrite_progress [of src "unat off" k n k'] by (auto simp: pwrite_def split: if_splits)
qed

declare rw_write_loop.simps [simp del]

definition PosixRandomRWFile_Write :: "u64 \<Rightarrow> slice \<Rightarrow> PosixRandomRWFile \<Rightarrow> Status \<times> PosixRandomRWFile" where
  "PosixRandomRWFile_Write offset data f =
     (let (s, k) = rw_write_loop (rw_filename f) data offset (rw_kernel f)
      in (s, f\<lparr>rw_kernel := k\<rparr>))"

function rw_read_loop :: "bytes \<Rightarrow> bytes \<Rightarrow> nat \<Rightarrow> u64 \<Rightarrow> kernel \<Rightarrow> Status \<times> bytes \<times> kernel" where
  "rw_read_loop fname got left offset k =
     (if left = 0 then (Status_OK, got, k)
      else
        (let (done, d, k) = pread left offset k
         in if done < 0 then
              (if k_errno k = EINTR then rw_read_loop fname got left offset k else (IOError fname k, got, k))
            else if done = 0 then (Status_OK, got, k)
            else rw_read_loop fname (got @ d) (left - nat done) (offset + of_int done) k))"
  by pat_completeness auto

termination rw_read_loop
  by (relation "measure (\<lambda>(fname, got, left, off, k). length (k_script k) + left)")
     (auto simp: pread_def sys_pread_def transfer_def next_event_def errno_values Let_def
        split: list.splits sys_event.splits if_splits)

declare rw_read_loop.simps [simp del]

text \<open>On an error the result slice is not set.\<close>

definition PosixRandomRWFile_Read :: "u64 \<Rightarrow> nat \<Rightarrow> PosixRandomRWFile \<Rightarrow> Status \<times> slice \<times> PosixRandomRWFile" where
  "PosixRandomRWFile_Read offset n f =
     (let (s, got, k) = rw_read_loop (rw_filename f) [] n offset (rw_kernel f)
      in (s, if Status_ok s then got else [], f\<lparr>rw_kernel := k\<rparr>))"

definition rw_checked :: "(kernel \<Rightarrow> int \<times> kernel) \<Rightarrow> PosixRandomRWFile \<Rightarrow> Status \<times> PosixRandomRWFile" where
  "rw_checked call f =
     (let (r, k) = call (rw_kernel f);
          f = f\<lparr>rw_kernel := k\<rparr>
      in if r < 0 then (IOError (rw_filename f) k, f) else (Status_OK, f))"

definition PosixRandomRWFile_Flush :: "PosixRandomRWFile \<Rightarrow> Status \<times> PosixRandomRWFile" where
  "PosixRandomRWFile_Flush f = (Status_OK, f)"

definition PosixRandomRWFile_Sync :: "PosixRandomRWFile \<Rightarrow> Status \<times> PosixRandomRWFile" where
  "PosixRandomRWFile_Sync f = rw_checked sys_sync f"

definition PosixRandomRWFile_Fsync :: "PosixRandomRWFile \<Rightarrow> Status \<times> PosixRandomRWFile" where
  "PosixRandomRWFile_Fsync f = rw_checked sys_sync f"

definition PosixRandomRWFile_Close :: "PosixRandomRWFile \<Rightarrow> Status \<times> PosixRandomRWFile" where
  "PosixRandomRWFile_Close f = rw_checked sys_close f"

definition PosixRandomRWFile_init :: "bytes \<Rightarrow> kernel \<Rightarrow> PosixRandomRWFile" where
  "PosixRandomRWFile_init fname k = \<lparr>rw_filename = fname, rw_kernel = k\<rparr>"

subsection \<open>PosixDirectory\<close>

definition PosixDirectory_Fsync :: "kernel \<Rightarrow> Status \<times> kernel" where
  "PosixDirectory_Fsync k =
     (let (r, k) = sys_sync k
      in if r = -1 then (IOError (cstr ''directory'') k, k) else (Status_OK, k))"

subsection \<open>Unique ids\<close>

text \<open>\<open>stat\<close> is what \<open>fstat\<close> returns, the device and the inode, and \<open>version\<close> the generation number
  from \<open>ioctl\<close>; \<open>None\<close> where the call fails. The result is the id stored, empty where the function
  returns 0; an \<open>fstat\<close> that fails violates the assertion.\<close>

definition GetUniqueIdFromFile :: "nat \<Rightarrow> (u64 \<times> u64) option \<Rightarrow> u64 option \<Rightarrow> bytes option" where
  "GetUniqueIdFromFile max_size stat version =
     (if max_size < kMaxVarint64Length * 3 then Some []
      else
        (case stat of
           None \<Rightarrow> None
         | Some (st_dev, st_ino) \<Rightarrow>
             (case version of
                None \<Rightarrow> Some []
              | Some uversion \<Rightarrow> Some (EncodeVarint64 st_dev @ EncodeVarint64 st_ino @ EncodeVarint64 uversion))))"

subsection \<open>The POSIX files provide the contract\<close>

text \<open>No failed and no empty transfers to come, and no \<open>EINTR\<close> left over in \<open>errno\<close>.\<close>

definition quiet :: "kernel \<Rightarrow> bool" where
  "quiet k \<longleftrightarrow> k_open k \<and> k_errno k \<noteq> EINTR \<and> length (k_data k) < 2 ^ 63 \<and>
     (\<forall>e \<in> set (k_script k). case e of Complete \<Rightarrow> True | Short m \<Rightarrow> 0 < m | Fail _ \<Rightarrow> False)"

lemma sys_pread_quiet:
  assumes "quiet k" "0 < n"
  shows "\<exists>m k'. sys_pread n off k = (int (length (take m (drop off (k_data k)))), take m (drop off (k_data k)), k') \<and>
    quiet k' \<and> k_data k' = k_data k \<and> 0 < m \<and> m \<le> n"
  using assms
  by (cases "k_script k")
     (auto simp: quiet_def sys_pread_def transfer_def next_event_def Let_def split: sys_event.splits
        intro: exI [of _ n] exI [of _ "min _ n"])

lemma quiet_Fadvise: "quiet k \<Longrightarrow> quiet (snd (Fadvise k)) \<and> k_data (snd (Fadvise k)) = k_data k"
  by (cases "k_script k") (auto simp: quiet_def Fadvise_def next_event_def split: sys_event.splits)

lemma pread_loop_quiet:
  assumes "quiet k" "0 < left" "unat off \<le> length (k_data k)"
  shows "\<exists>r k'. pread_loop got left off r0 k =
      Some (r, got @ take left (drop (unat off) (k_data k)), left - length (take left (drop (unat off) (k_data k))), k') \<and>
    0 \<le> r \<and> quiet k' \<and> k_data k' = k_data k"
  using assms
proof (induction left arbitrary: got off r0 k rule: less_induct)
  case (less left)
  have small: "length (k_data k) < 2 ^ 63" using less.prems(1) by (simp add: quiet_def)
  obtain m k1 where p: "sys_pread left (unat off) k = (int (length (take m (drop (unat off) (k_data k)))), take m (drop (unat off) (k_data k)), k1)"
      "quiet k1" "k_data k1 = k_data k" "0 < m" "m \<le> left" using sys_pread_quiet [OF less.prems(1,2)] by blast
  let ?d = "take m (drop (unat off) (k_data k))"
  have p': "pread left off k = (int (length ?d), ?d, k1)" using p(1) less.prems(3) small by (simp add: pread_def)
  show ?case
  proof (cases "?d = []")
    case True
    then have "drop (unat off) (k_data k) = []" using p(4) by simp
    moreover have "k_errno k1 \<noteq> EINTR" using p(2) by (simp add: quiet_def)
    ultimately show ?thesis using less.prems(2) p(2,3) p' by (subst pread_loop.simps) simp
  next
    case False
    let ?l = "length ?d"
    have l: "0 < ?l" "?l \<le> left" "unat off + ?l \<le> length (k_data k)" using False p(5) by auto
    have off: "unat (off + of_nat ?l) = unat off + ?l"
      using l(3) small by (subst unat_add_small) (simp_all add: unat_of_nat)
    have step: "pread_loop got left off r0 k = pread_loop (got @ ?d) (left - ?l) (off + of_nat ?l) (int ?l) k1"
      using less.prems(2) p' l(1) by (subst pread_loop.simps) (simp del: length_take)
    have split: "take left (drop (unat off) (k_data k)) = ?d @ take (left - ?l) (drop (unat off + ?l) (k_data k))"
    proof -
      have "?d = take ?l (drop (unat off) (k_data k))" by (simp add: min_def)
      then show ?thesis using l(2) take_add [of ?l "left - ?l" "drop (unat off) (k_data k)"] by (simp add: add.commute)
    qed
    show ?thesis
    proof (cases "left - ?l = 0")
      case True
      then have "take left (drop (unat off) (k_data k)) = ?d" using split by simp
      then show ?thesis using step True p(2,3) by (subst (asm) pread_loop.simps [of _ "left - ?l"]) auto
    next
      case more: False
      have "\<exists>r k'. pread_loop (got @ ?d) (left - ?l) (off + of_nat ?l) (int ?l) k1 = Some (r, (got @ ?d) @ take (left - ?l) (drop (unat (off + of_nat ?l)) (k_data k1)),
          left - ?l - length (take (left - ?l) (drop (unat (off + of_nat ?l)) (k_data k1))), k') \<and> 0 \<le> r \<and> quiet k' \<and> k_data k' = k_data k1"
        using more l off p(2,3) by (intro less.IH) (simp_all del: length_take)
      then show ?thesis using step split off p(3) by auto
    qed
  qed
qed

interpretation posix_random: random_file PosixRandomAccessFile_vt "\<lambda>f. k_data (pr_kernel f)" "\<lambda>f. quiet (pr_kernel f)"
proof unfold_locales
  fix f :: PosixRandomAccessFile and off :: u64 and n :: nat and scratch :: bytes
  assume f: "quiet (pr_kernel f)" "unat off \<le> length (k_data (pr_kernel f))" "0 < n" "n \<le> length scratch"
  define d where "d = take n (drop (unat off) (k_data (pr_kernel f)))"
  obtain r k' where l: "pread_loop [] n off (-1) (pr_kernel f) = Some (r, d, n - length d, k')"
      "0 \<le> r" "quiet k'" "k_data k' = k_data (pr_kernel f)"
    using pread_loop_quiet [OF f(1,3,2), of "[]" "-1"] by (auto simp: d_def)
  have "length d \<le> n" by (simp add: d_def)
  then have "n - (n - length d) = length d" by simp
  then have "\<exists>r f'. raf_Read PosixRandomAccessFile_vt off n scratch f = Some (r, f') \<and> Status_ok (rr_status r) \<and>
      rr_data r = d \<and> length (rr_scratch r) = length scratch \<and>
      (rr_in_scratch r \<longrightarrow> take (length (rr_data r)) (rr_scratch r) = rr_data r) \<and>
      quiet (pr_kernel f') \<and> k_data (pr_kernel f') = k_data (pr_kernel f)"
    using l f(4) quiet_Fadvise [OF l(3)] \<open>length d \<le> n\<close>
    by (auto simp: PosixRandomAccessFile_vt_def PosixRandomAccessFile_Read_def Let_def)
  then show "\<exists>r f'. raf_Read PosixRandomAccessFile_vt off n scratch f = Some (r, f') \<and> Status_ok (rr_status r) \<and>
      rr_data r = take n (drop (unat off) (k_data (pr_kernel f))) \<and> length (rr_scratch r) = length scratch \<and>
      (rr_in_scratch r \<longrightarrow> take (length (rr_data r)) (rr_scratch r) = rr_data r) \<and>
      quiet (pr_kernel f') \<and> k_data (pr_kernel f') = k_data (pr_kernel f)" unfolding d_def .
qed (simp_all add: quiet_def PosixRandomAccessFile_vt_def)

interpretation mmap_random: random_file PosixMmapReadableFile_vt mr_region "\<lambda>f. mr_length f = length (mr_region f) \<and> mr_length f < 2 ^ 63"
proof unfold_locales
  fix f :: PosixMmapReadableFile and off :: u64 and n :: nat and scratch :: bytes
  assume f: "mr_length f = length (mr_region f) \<and> mr_length f < 2 ^ 63" "unat off \<le> length (mr_region f)" "n < 2 ^ 63"
  have sum: "unat (off + of_nat n) = unat off + n"
    using f by (subst unat_add_small) (simp_all add: unat_of_nat)
  then show "\<exists>r f'. raf_Read PosixMmapReadableFile_vt off n scratch f = Some (r, f') \<and> Status_ok (rr_status r) \<and>
      rr_data r = take n (drop (unat off) (mr_region f)) \<and> length (rr_scratch r) = length scratch \<and>
      (rr_in_scratch r \<longrightarrow> take (length (rr_data r)) (rr_scratch r) = rr_data r) \<and>
      (mr_length f' = length (mr_region f') \<and> mr_length f' < 2 ^ 63) \<and> mr_region f' = mr_region f"
    using f by (auto simp: PosixMmapReadableFile_vt_def PosixMmapReadableFile_Read_def Let_def)
qed (simp_all add: PosixMmapReadableFile_vt_def)


subsection \<open>Read-ahead over any such file\<close>

lemma Readahead_buffered:
  assumes "\<not> (n \<ge> ra_readahead_size f \<or> ra_forward_calls f)"
    and "cached \<longleftrightarrow> offset \<ge> ra_buffer_offset f \<and> offset < of_nat (ra_buffer_len f) + ra_buffer_offset f"
    and "copied = (if cached then min (ra_buffer_len f - unat (offset - ra_buffer_offset f)) n else 0)"
    and "scr = (if cached then take copied (drop (unat (offset - ra_buffer_offset f)) (ra_buffer f)) @ drop copied scratch else scratch)"
  shows "ReadaheadRandomAccessFile_Read vt offset n scratch f =
    (if cached \<and> copied = n then
       Some (\<lparr>rr_status = Status_OK, rr_data = take n scr, rr_in_scratch = True, rr_scratch = scr\<rparr>, f)
     else do {
       (r, file) \<leftarrow> raf_Read vt (offset + of_nat copied) (ra_readahead_size f) (ra_buffer f) (ra_file f);
       let f = f\<lparr>ra_file := file, ra_buffer := rr_scratch r\<rparr>;
       if \<not> Status_ok (rr_status r) then
         Some (\<lparr>rr_status = rr_status r, rr_data = [], rr_in_scratch = True, rr_scratch = scr\<rparr>, f)
       else do {
         let left_to_copy = min (length (rr_data r)) (n - copied);
         let scratch = take copied scr @ take left_to_copy (rr_data r) @ drop (copied + left_to_copy) scr;
         let f = (if rr_in_scratch r then f\<lparr>ra_buffer_offset := offset + of_nat copied, ra_buffer_len := length (rr_data r)\<rparr>
                  else f\<lparr>ra_buffer_len := 0\<rparr>);
         Some (\<lparr>rr_status = Status_OK, rr_data = take (copied + left_to_copy) scratch,
                rr_in_scratch = True, rr_scratch = scratch\<rparr>, f)
       }
     })"
  using assms(1) unfolding ReadaheadRandomAccessFile_Read_def assms(2-4) Let_def by (simp only: if_False)

text \<open>The buffer holds what the file has at its offset.\<close>

definition ra_ok :: "('f \<Rightarrow> bytes) \<Rightarrow> ('f \<Rightarrow> bool) \<Rightarrow> 'f ReadaheadRandomAccessFile \<Rightarrow> bool" where
  "ra_ok contents sound f \<longleftrightarrow> sound (ra_file f) \<and> ra_readahead_size f < 2 ^ 63 \<and>
     (\<not> ra_forward_calls f \<longrightarrow> length (ra_buffer f) = ra_readahead_size f) \<and>
     ra_buffer_len f \<le> length (ra_buffer f) \<and>
     (0 < ra_buffer_len f \<longrightarrow> unat (ra_buffer_offset f) + ra_buffer_len f \<le> length (contents (ra_file f))) \<and>
     take (ra_buffer_len f) (ra_buffer f) = take (ra_buffer_len f) (drop (unat (ra_buffer_offset f)) (contents (ra_file f)))"

context random_file
begin

lemma ra_forward:
  assumes "ra_ok contents sound f" "n \<ge> ra_readahead_size f \<or> ra_forward_calls f"
    and "unat off \<le> length (contents (ra_file f))" "0 < n" "n < 2 ^ 63" "n \<le> length scratch"
  shows "\<exists>r f'. ReadaheadRandomAccessFile_Read rvt off n scratch f = Some (r, f') \<and> Status_ok (rr_status r) \<and>
    rr_data r = take n (drop (unat off) (contents (ra_file f))) \<and> length (rr_scratch r) = length scratch \<and>
    (rr_in_scratch r \<longrightarrow> take (length (rr_data r)) (rr_scratch r) = rr_data r) \<and>
    ra_ok contents sound f' \<and> contents (ra_file f') = contents (ra_file f)"
proof -
  have "sound (ra_file f)" using assms(1) by (simp add: ra_ok_def)
  from Read_at [OF this assms(3-6)] show ?thesis
    using assms(1,2) by (auto simp: ReadaheadRandomAccessFile_Read_def ra_ok_def)
qed

text \<open>The part of a read the buffer has.\<close>

lemma ra_cached:
  assumes ok: "ra_ok contents sound f" and c: "off \<ge> ra_buffer_offset f" "off < of_nat (ra_buffer_len f) + ra_buffer_offset f"
  defines "b \<equiv> unat (off - ra_buffer_offset f)"
  shows "b < ra_buffer_len f" "unat off = unat (ra_buffer_offset f) + b"
    "c \<le> ra_buffer_len f - b \<Longrightarrow> take c (drop b (ra_buffer f)) = take c (drop (unat off) (contents (ra_file f)))"
    "unat off + (ra_buffer_len f - b) \<le> length (contents (ra_file f))"
proof -
  let ?C = "contents (ra_file f)"
  have small: "length ?C < 2 ^ 63" using ok contents_bound by (simp add: ra_ok_def)
  show off: "unat off = unat (ra_buffer_offset f) + b" using c(1) by (simp add: b_def unat_sub_le word_le_nat_alt)
  have len: "0 < ra_buffer_len f" using c by (cases "ra_buffer_len f") (auto simp: word_less_nat_alt word_le_nat_alt)
  then have fit: "unat (ra_buffer_offset f) + ra_buffer_len f \<le> length ?C" using ok by (simp add: ra_ok_def)
  have "unat (of_nat (ra_buffer_len f) :: u64) = ra_buffer_len f" using fit small by (simp add: unat_of_nat)
  then have "unat (of_nat (ra_buffer_len f) + ra_buffer_offset f) = ra_buffer_len f + unat (ra_buffer_offset f)"
    using fit small by (subst unat_add_small) simp_all
  then show b: "b < ra_buffer_len f" using c(2) off by (simp add: word_less_nat_alt)
  show "unat off + (ra_buffer_len f - b) \<le> length ?C" using fit off b by simp
  assume "c \<le> ra_buffer_len f - b"
  then have "take c (drop b (ra_buffer f)) = take c (drop b (take (ra_buffer_len f) (ra_buffer f)))" by (simp add: drop_take)
  also have "\<dots> = take c (drop b (take (ra_buffer_len f) (drop (unat (ra_buffer_offset f)) ?C)))" using ok by (simp add: ra_ok_def)
  also have "\<dots> = take c (drop (unat off) ?C)" using \<open>c \<le> ra_buffer_len f - b\<close> off by (simp add: drop_take add.commute)
  finally show "take c (drop b (ra_buffer f)) = take c (drop (unat off) ?C)" .
qed

lemma ra_read:
  assumes ok: "ra_ok contents sound f" and buffered: "n < ra_readahead_size f" "\<not> ra_forward_calls f"
    and off: "unat off \<le> length (contents (ra_file f))" and n: "0 < n" "n \<le> length scratch"
  shows "\<exists>r f'. ReadaheadRandomAccessFile_Read rvt off n scratch f = Some (r, f') \<and> Status_ok (rr_status r) \<and>
    rr_data r = take n (drop (unat off) (contents (ra_file f))) \<and> length (rr_scratch r) = length scratch \<and>
    (rr_in_scratch r \<longrightarrow> take (length (rr_data r)) (rr_scratch r) = rr_data r) \<and>
    ra_ok contents sound f' \<and> contents (ra_file f') = contents (ra_file f)"
proof -
  let ?C = "contents (ra_file f)" and ?b = "unat (off - ra_buffer_offset f)"
  define cached where "cached \<longleftrightarrow> off \<ge> ra_buffer_offset f \<and> off < of_nat (ra_buffer_len f) + ra_buffer_offset f"
  define copied where "copied = (if cached then min (ra_buffer_len f - ?b) n else 0)"
  define part where "part = take copied (drop (unat off) ?C)"
  have hit: "take copied (drop ?b (ra_buffer f)) = part" "unat off + copied \<le> length ?C" if cached
  proof -
    have c: "off \<ge> ra_buffer_offset f" "off < of_nat (ra_buffer_len f) + ra_buffer_offset f" using that by (simp_all add: cached_def)
    show "take copied (drop ?b (ra_buffer f)) = part" using ra_cached(3) [OF ok c, of copied] that by (simp add: copied_def part_def)
    show "unat off + copied \<le> length ?C" using ra_cached(4) [OF ok c] that by (simp add: copied_def min_def)
  qed
  have inside: "unat off + copied \<le> length ?C" using hit(2) off by (cases cached) (simp_all add: copied_def)
  have part: "length part = copied" "copied \<le> n" using inside by (simp_all add: part_def copied_def)
  define scr where "scr = part @ drop copied scratch"
  have scr: "(if cached then take copied (drop ?b (ra_buffer f)) @ drop copied scratch else scratch) = scr"
    "length scr = length scratch" "take copied scr = part"
    using hit(1) part n(2) by (auto simp: scr_def copied_def part_def)
  note read = Readahead_buffered [OF _ cached_def copied_def scr(1) [symmetric], of rvt]
  show ?thesis
  proof (cases "cached \<and> copied = n")
    case True
    then have "ReadaheadRandomAccessFile_Read rvt off n scratch f =
        Some (\<lparr>rr_status = Status_OK, rr_data = take n scr, rr_in_scratch = True, rr_scratch = scr\<rparr>, f)"
      using buffered read by simp
    then show ?thesis using True ok scr part by (auto simp: part_def)
  next
    case False
    have "copied < n" using False part(2) n(1) by (cases cached) (auto simp: copied_def)
    have small: "length ?C < 2 ^ 63" "sound (ra_file f)" "length (ra_buffer f) = ra_readahead_size f" "ra_readahead_size f < 2 ^ 63"
      using ok contents_bound buffered(2) by (auto simp: ra_ok_def)
    have offc: "unat (off + of_nat copied) = unat off + copied"
      using inside small(1) by (subst unat_add_small) (simp_all add: unat_of_nat)
    obtain r g where r: "raf_Read rvt (off + of_nat copied) (ra_readahead_size f) (ra_buffer f) (ra_file f) = Some (r, g)"
      "Status_ok (rr_status r)" "rr_data r = take (ra_readahead_size f) (drop (unat off + copied) ?C)"
      "length (rr_scratch r) = length (ra_buffer f)" "rr_in_scratch r \<longrightarrow> take (length (rr_data r)) (rr_scratch r) = rr_data r"
      "sound g" "contents g = ?C"
      using Read_at [of "ra_file f" "off + of_nat copied" "ra_readahead_size f" "ra_buffer f"] small inside offc buffered(1) by auto
    define left where "left = min (length (rr_data r)) (n - copied)"
    define scr2 where "scr2 = take copied scr @ take left (rr_data r) @ drop (copied + left) scr"
    define f' where "f' = (if rr_in_scratch r
       then f\<lparr>ra_file := g, ra_buffer := rr_scratch r, ra_buffer_offset := off + of_nat copied, ra_buffer_len := length (rr_data r)\<rparr>
       else f\<lparr>ra_file := g, ra_buffer := rr_scratch r, ra_buffer_len := 0\<rparr>)"
    have run: "ReadaheadRandomAccessFile_Read rvt off n scratch f =
        Some (\<lparr>rr_status = Status_OK, rr_data = take (copied + left) scr2, rr_in_scratch = True, rr_scratch = scr2\<rparr>, f')"
    proof -
      have "\<not> (n \<ge> ra_readahead_size f \<or> ra_forward_calls f)" using buffered by simp
      from read [OF this] show ?thesis unfolding if_not_P [OF False] r(1)
        using r(2) by (simp add: left_def scr2_def f'_def Let_def)
    qed
    have ll: "length (take left (rr_data r)) = left" by (simp add: left_def)
    have data: "take (copied + left) scr2 = take n (drop (unat off) ?C)"
    proof -
      have "take (copied + left) scr2 = part @ take left (rr_data r)" using scr(3) part(1) ll by (simp add: scr2_def)
      also have "take left (rr_data r) = take (n - copied) (drop copied (drop (unat off) ?C))"
        using buffered(1) by (simp add: r(3) left_def min_def add.commute)
      also have "part @ \<dots> = take n (drop (unat off) ?C)"
        using \<open>copied < n\<close> take_add [of copied "n - copied" "drop (unat off) ?C"] by (simp add: part_def)
      finally show ?thesis .
    qed
    have len: "copied + left \<le> n" "length scr2 = length scratch"
      using \<open>copied < n\<close> scr(2) n(2) part(1) ll by (auto simp: left_def scr2_def)
    have "ra_ok contents sound f'"
    proof -
      have "length (rr_data r) \<le> ra_readahead_size f" by (simp add: r(3))
      moreover have "0 < length (rr_data r) \<longrightarrow> unat off + copied + length (rr_data r) \<le> length ?C" by (auto simp: r(3))
      moreover have "rr_data r = take (length (rr_data r)) (drop (unat off + copied) ?C)" by (simp add: r(3) min_def)
      ultimately show ?thesis using r(4-7) small offc ok buffered(2) by (auto simp: ra_ok_def f'_def)
    qed
    moreover have "contents (ra_file f') = ?C" using r(7) by (simp add: f'_def)
    moreover have "take (length (take (copied + left) scr2)) scr2 = take (copied + left) scr2" by (simp add: min_def)
    ultimately show ?thesis using run len(2) unfolding data by (simp del: length_take length_drop)
  qed
qed

lemma ra_init:
  assumes "sound file" "readahead_size < 2 ^ 63" "length junk \<ge> readahead_size"
  shows "ra_ok contents sound (NewReadaheadRandomAccessFile rvt junk file readahead_size)"
    "contents (ra_file (NewReadaheadRandomAccessFile rvt junk file readahead_size)) = contents file"
  using assms EnableReadAhead_frame [OF assms(1)]
  by (auto simp: NewReadaheadRandomAccessFile_def ReadaheadRandomAccessFile_init_def ra_ok_def Let_def)

lemma readahead_random_file: "random_file (ReadaheadRandomAccessFile_vt rvt) (\<lambda>f. contents (ra_file f)) (ra_ok contents sound)"
proof unfold_locales
  fix f :: "'f ReadaheadRandomAccessFile" and off :: u64 and n :: nat and scratch :: bytes
  assume f: "ra_ok contents sound f" "unat off \<le> length (contents (ra_file f))" "0 < n" "n < 2 ^ 63" "n \<le> length scratch"
  then show "\<exists>r f'. raf_Read (ReadaheadRandomAccessFile_vt rvt) off n scratch f = Some (r, f') \<and> Status_ok (rr_status r) \<and>
      rr_data r = take n (drop (unat off) (contents (ra_file f))) \<and> length (rr_scratch r) = length scratch \<and>
      (rr_in_scratch r \<longrightarrow> take (length (rr_data r)) (rr_scratch r) = rr_data r) \<and>
      ra_ok contents sound f' \<and> contents (ra_file f') = contents (ra_file f)"
    using ra_forward [OF f(1) _ f(2-5)] ra_read [OF f(1) _ _ f(2,3,5)]
    unfolding ReadaheadRandomAccessFile_vt_def by (cases "n \<ge> ra_readahead_size f \<or> ra_forward_calls f") auto
next
  fix f :: "'f ReadaheadRandomAccessFile"
  assume "ra_ok contents sound f"
  then show "length (contents (ra_file f)) < 2 ^ 63" using contents_bound by (simp add: ra_ok_def)
qed (simp_all add: ReadaheadRandomAccessFile_vt_def)

end

interpretation posix_readahead: random_file "ReadaheadRandomAccessFile_vt PosixRandomAccessFile_vt"
  "\<lambda>f. k_data (pr_kernel (ra_file f))" "ra_ok (\<lambda>f. k_data (pr_kernel f)) (\<lambda>f. quiet (pr_kernel f))"
  by (rule posix_random.readahead_random_file)

text \<open>A client that makes a list of reads, each with a scratch area of its own, and keeps what it got.\<close>

fun read_all :: "'f RandomAccessFile_vt \<Rightarrow> (u64 \<times> nat) list \<Rightarrow> 'f \<Rightarrow> ((Status \<times> bytes) list \<times> 'f) option" where
  "read_all vt [] f = Some ([], f)"
| "read_all vt ((off, n) # reqs) f = do {
     (r, f) \<leftarrow> raf_Read vt off n (replicate n 0) f;
     (rs, f) \<leftarrow> read_all vt reqs f;
     Some ((rr_status r, rr_data r) # rs, f)
   }"

context random_file
begin

lemma read_all_contents:
  assumes "sound f" "\<forall>(off, n) \<in> set reqs. unat off \<le> length (contents f) \<and> 0 < n \<and> n < 2 ^ 63"
  shows "\<exists>rs f'. read_all rvt reqs f = Some (rs, f') \<and> list_all (\<lambda>r. Status_ok (fst r)) rs \<and>
    map snd rs = map (\<lambda>(off, n). take n (drop (unat off) (contents f))) reqs \<and> sound f' \<and> contents f' = contents f"
  using assms
proof (induction reqs arbitrary: f)
  case (Cons req reqs)
  obtain off n where req: "req = (off, n)" by fastforce
  obtain r f1 where r: "raf_Read rvt off n (replicate n 0) f = Some (r, f1)" "Status_ok (rr_status r)"
      "rr_data r = take n (drop (unat off) (contents f))" "sound f1" "contents f1 = contents f"
    using Read_at [of f off n "replicate n 0"] Cons.prems req by auto
  obtain rs f2 where "read_all rvt reqs f1 = Some (rs, f2)" "list_all (\<lambda>r. Status_ok (fst r)) rs" "sound f2" "contents f2 = contents f"
      "map snd rs = map (\<lambda>(off, n). take n (drop (unat off) (contents f))) reqs"
    using Cons.IH [of f1] Cons.prems r(4,5) by auto
  with r req show ?case by simp
qed simp

end

text \<open>C12. Reading through the read-ahead buffer is reading the file, as long as no system call fails:
  with short reads by the kernel allowed, but no failing call to come and no \<open>EINTR\<close> left in
  \<open>errno\<close> by an earlier one, every read through a \<open>ReadaheadRandomAccessFile\<close> over a
  \<open>PosixRandomAccessFile\<close> succeeds and gives the bytes the file has at its offset, cut at the end of the
  file. This holds for every sequence of reads whose offsets are at most the length of the file
  and whose sizes are positive (reading no bytes is an error) and below \<open>2^63\<close>, however the buffered parts
  and the parts still to be read fall together.\<close>

theorem readahead_transparent:
  assumes "quiet (pr_kernel file)" "readahead_size < 2 ^ 63" "readahead_size \<le> length junk"
    and "\<forall>(off, n) \<in> set reqs. unat off \<le> length (k_data (pr_kernel file)) \<and> 0 < n \<and> n < 2 ^ 63"
  shows "\<exists>rs f'. read_all (ReadaheadRandomAccessFile_vt PosixRandomAccessFile_vt) reqs
      (NewReadaheadRandomAccessFile PosixRandomAccessFile_vt junk file readahead_size) = Some (rs, f') \<and>
    list_all (\<lambda>r. Status_ok (fst r)) rs \<and>
    map snd rs = map (\<lambda>(off, n). take n (drop (unat off) (k_data (pr_kernel file)))) reqs"
proof -
  note start = posix_random.ra_init [OF assms(1-3)]
  show ?thesis using posix_readahead.read_all_contents [OF start(1), of reqs] assms(4) unfolding start(2) by blast
qed

definition demo_kernel :: "bytes \<Rightarrow> sys_event list \<Rightarrow> kernel" where
  "demo_kernel d es = \<lparr>k_data = d, k_pos = 0, k_open = True, k_append = False, k_errno = 0, k_script = es, k_strerror = \<lambda>e. []\<rparr>"

lemma demo_kernel_simps [simp]:
  "k_data (demo_kernel d es) = d" "k_script (demo_kernel d es) = es" "k_open (demo_kernel d es)" "k_errno (demo_kernel d es) = 0"
  by (simp_all add: demo_kernel_def)

theorem readahead_transparent_witness:
  "\<exists>rs f'. read_all (ReadaheadRandomAccessFile_vt PosixRandomAccessFile_vt) [(0, 2), (1, 5), (6, 4)]
      (NewReadaheadRandomAccessFile PosixRandomAccessFile_vt (replicate 4 9)
        (PosixRandomAccessFile_init [] (demo_kernel [0, 1, 2, 3, 4, 5, 6, 7] [Short 1, Complete]) True) 4) = Some (rs, f') \<and>
    list_all (\<lambda>r. Status_ok (fst r)) rs \<and> map snd rs = [[0, 1], [1, 2, 3, 4, 5], [6, 7]]"
proof -
  let ?file = "PosixRandomAccessFile_init [] (demo_kernel [0, 1, 2, 3, 4, 5, 6, 7] [Short 1, Complete]) True"
  have k: "pr_kernel ?file = demo_kernel [0, 1, 2, 3, 4, 5, 6, 7] [Short 1, Complete]" by (simp add: PosixRandomAccessFile_init_def)
  have "quiet (pr_kernel ?file)" unfolding k by (simp add: quiet_def errno_values)
  from readahead_transparent [OF this, of 4 "replicate 4 9" "[(0, 2), (1, 5), (6, 4)]"] show ?thesis unfolding k by simp
qed

lemma pread_loop_steps:
  "pread_loop got 0 off r k = Some (r, got, 0, k)"
  "0 < left \<Longrightarrow> pread left off k = (r', d, k') \<Longrightarrow> 0 < r' \<Longrightarrow>
     pread_loop got left off r k = pread_loop (got @ d) (left - nat r') (off + of_int r') r' k'"
  "0 < left \<Longrightarrow> pread left off k = (r', d, k') \<Longrightarrow> r' \<le> 0 \<Longrightarrow> k_errno k' \<noteq> EINTR \<Longrightarrow>
     pread_loop got left off r k = Some (r', got, left, k')"
  by (subst pread_loop.simps; simp)+

text \<open>A read that stores \<open>j\<close> bytes and then fails leaves them in the caller's memory.\<close>

lemma PosixRandomAccessFile_Read_partial:
  assumes "k_open (pr_kernel f)" and "k_script (pr_kernel f) = Short j # Fail e # es" and "e \<noteq> EINTR"
    and "0 < j" and "j < n" and "unat off + j \<le> length (k_data (pr_kernel f))" and "length (k_data (pr_kernel f)) < 2 ^ 63"
  shows "\<exists>r f'. PosixRandomAccessFile_Read off n scratch f = Some (r, f') \<and> \<not> Status_ok (rr_status r) \<and>
           rr_scratch r = take j (drop (unat off) (k_data (pr_kernel f))) @ drop j scratch"
proof -
  let ?k = "pr_kernel f" and ?d = "take j (drop (unat off) (k_data (pr_kernel f)))"
  define k1 where "k1 = ?k\<lparr>k_script := Fail e # es\<rparr>"
  define k2 where "k2 = ?k\<lparr>k_script := es, k_errno := e\<rparr>"
  have len: "length ?d = j" using assms(6) by simp
  have off: "unat off < 2 ^ 63" "unat (off + of_nat j) < 2 ^ 63"
  proof -
    show "unat off < 2 ^ 63" using assms(6,7) by linarith
    have "unat (off + of_nat j) = unat off + j"
      using assms(6,7) by (subst unat_add_small) (simp_all add: unat_of_nat)
    then show "unat (off + of_nat j) < 2 ^ 63" using assms(6,7) by linarith
  qed
  have p1: "pread n off ?k = (int j, ?d, k1)"
    using assms(1,2,5) off(1) len by (simp add: pread_def sys_pread_def transfer_def next_event_def k1_def Let_def)
  have p2: "pread (n - j) (off + of_nat j) k1 = (- 1, [], k2)"
    using assms(1) off(2) by (simp add: pread_def sys_pread_def transfer_def next_event_def k1_def k2_def)
  have "k_errno k2 \<noteq> EINTR" using assms(3) by (simp add: k2_def)
  then have "pread_loop [] n off (- 1) ?k = Some (- 1, ?d, n - j, k2)"
    using assms(4,5) p1 p2 by (simp add: pread_loop_steps)
  then show ?thesis using len by (simp add: PosixRandomAccessFile_Read_def Let_def)
qed



subsection \<open>Reads that fail or do not return\<close>

text \<open>At the end of the file \<open>pread\<close> returns 0 and leaves \<open>errno\<close> alone. An \<open>EINTR\<close> from an earlier
  call is then taken for an interruption of this one, for ever.\<close>

lemma pread_loop_stale_EINTR:
  assumes "pread_loop got left off r k = Some y"
  shows "\<not> (0 < left \<and> unat off < 2 ^ 63 \<and> length (k_data k) \<le> unat off \<and> k_open k \<and> k_script k = [] \<and> k_errno k = EINTR)"
  using assms
proof (induction got left off r k y rule: pread_loop.raw_induct [rotated 1, consumes 1])
  case (1 loop got left off r k y)
  show ?case
  proof
    assume at_end: "0 < left \<and> unat off < 2 ^ 63 \<and> length (k_data k) \<le> unat off \<and> k_open k \<and> k_script k = [] \<and> k_errno k = EINTR"
    then have "pread left off k = (0, [], k)" by (simp add: pread_def sys_pread_def transfer_def next_event_def)
    then have "loop got left off 0 k = Some y" using 1(2) at_end by simp
    from 1(1) [OF this] at_end show False by blast
  qed
qed

text \<open>A \<open>PosixRandomAccessFile\<close> read behind the end of the file does not return when an earlier
  system call was interrupted, whatever the size asked for and with no further interruption: a
  return value of 0 is checked against the \<open>errno\<close> of that earlier call.\<close>

lemma random_read_eof_hangs:
  assumes "k_open (pr_kernel f)" "k_script (pr_kernel f) = []" "k_errno (pr_kernel f) = EINTR"
    and "0 < n" "unat off < 2 ^ 63" "length (k_data (pr_kernel f)) \<le> unat off"
  shows "PosixRandomAccessFile_Read off n scratch f = None"
  using pread_loop_stale_EINTR [of "[]" n off "- 1" "pr_kernel f"] assms
  by (cases "pread_loop [] n off (- 1) (pr_kernel f)") (auto simp: PosixRandomAccessFile_Read_def)

text \<open>Reading no bytes is reported as an error, because no call has set the result.\<close>

lemma random_read_zero:
  "\<exists>r f'. PosixRandomAccessFile_Read off 0 scratch f = Some (r, f') \<and> \<not> Status_ok (rr_status r)"
  by (simp add: PosixRandomAccessFile_Read_def pread_loop_steps Let_def)

subsection \<open>PosixRandomRWFile reads back what it wrote\<close>

text \<open>No failures but interruptions, and every transfer makes progress.\<close>

definition retriable :: "kernel \<Rightarrow> bool" where
  "retriable k \<longleftrightarrow> k_open k \<and> \<not> k_append k \<and>
     (\<forall>e \<in> set (k_script k). case e of Complete \<Rightarrow> True | Short m \<Rightarrow> 0 < m | Fail e \<Rightarrow> e = EINTR)"

lemma transfer_retriable [consumes 2]:
  assumes "retriable k" "0 < n"
  obtains (moved) m k' where "transfer n k = (Inr m, k')" "0 < m" "m \<le> n" "retriable k'" "k_data k' = k_data k"
  | (interrupted) k' where "transfer n k = (Inl EINTR, k')" "k_errno k' = EINTR" "retriable k'" "k_data k' = k_data k"
      "length (k_script k') < length (k_script k)"
  using assms
  by (cases "k_script k"; cases "hd (k_script k)")
     (auto simp: retriable_def transfer_def next_event_def)

lemma write_at_write_at:
  assumes "a \<noteq> []"
  shows "write_at (off + length a) b (write_at off a data) = write_at off (a @ b) data"
  using assms by (cases "off \<le> length data") (simp_all add: write_at_def overwrite_def add.commute add.left_commute)

lemma rw_write_loop_retriable:
  "retriable k \<Longrightarrow> unat off + length src < 2 ^ 63 \<Longrightarrow>
     \<exists>k'. rw_write_loop fname src off k = (Status_OK, k') \<and> retriable k' \<and> k_data k' = write_at (unat off) src (k_data k)"
proof (induction fname src off k rule: rw_write_loop.induct)
  case (1 fname src off k)
  show ?case
  proof (cases "src = []")
    case True
    then show ?thesis using "1.prems" by (simp add: rw_write_loop.simps [of fname "[]"] write_at_def)
  next
    case False
    from "1.prems" have "0 < length src" "\<not> k_append k" "unat off < 2 ^ 63" using False by (auto simp: retriable_def)
    from "1.prems"(1) \<open>0 < length src\<close> show ?thesis
    proof (cases rule: transfer_retriable)
      case (moved m k1)
      let ?k = "k1\<lparr>k_data := write_at (unat off) (take m src) (k_data k)\<rparr>"
      have k: "pwrite src off k = (int m, ?k)" "retriable ?k"
        using moved \<open>\<not> k_append k\<close> \<open>unat off < 2 ^ 63\<close> by (auto simp: pwrite_def sys_pwrite_def retriable_def)
      have off: "unat (off + of_nat m) = unat off + m"
        using moved(3) "1.prems"(2) by (subst unat_add_small) (simp_all add: unat_of_nat)
      obtain k' where "rw_write_loop fname (drop m src) (off + of_nat m) ?k = (Status_OK, k')"
          "retriable k'" "k_data k' = write_at (unat off + m) (drop m src) (k_data ?k)"
        using "1.IH"(2) [OF False k(1) [symmetric] refl] k(2) off moved(3) "1.prems"(2) by auto
      then show ?thesis using False k(1) moved write_at_write_at [of "take m src" "unat off" "drop m src" "k_data k"]
        by (subst rw_write_loop.simps) (auto simp: min_absorb2)
    next
      case (interrupted k1)
      then have k: "pwrite src off k = (- 1, k1)" using \<open>unat off < 2 ^ 63\<close> by (simp add: pwrite_def sys_pwrite_def)
      then show ?thesis using "1.IH"(1) [OF False k [symmetric] refl] interrupted False "1.prems"(2)
        by (subst rw_write_loop.simps) auto
    qed
  qed
qed

lemma rw_read_loop_retriable:
  "retriable k \<Longrightarrow> unat off + left < 2 ^ 63 \<Longrightarrow>
     \<exists>k'. rw_read_loop fname got left off k = (Status_OK, got @ take left (drop (unat off) (k_data k)), k') \<and>
       retriable k' \<and> k_data k' = k_data k"
proof (induction fname got left off k rule: rw_read_loop.induct)
  case (1 fname got left off k)
  show ?case
  proof (cases "left = 0")
    case True
    then show ?thesis using "1.prems" by (simp add: rw_read_loop.simps [of fname got 0])
  next
    case False
    then have "0 < left" "unat off < 2 ^ 63" using "1.prems"(2) by simp_all
    from "1.prems"(1) \<open>0 < left\<close> show ?thesis
    proof (cases rule: transfer_retriable)
      case (moved m k1)
      let ?d = "take m (drop (unat off) (k_data k))"
      have k: "pread left off k = (int (length ?d), ?d, k1)"
        using moved \<open>unat off < 2 ^ 63\<close> by (simp add: pread_def sys_pread_def Let_def)
      show ?thesis
      proof (cases "?d = []")
        case True
        then show ?thesis using False k moved by (subst rw_read_loop.simps) auto
      next
        case more: False
        then have pos: "\<not> int (length ?d) < 0" "int (length ?d) \<noteq> 0" by auto
        have "length ?d \<le> left" using moved(3) by simp
        then have "unat off + length ?d + (left - length ?d) < 2 ^ 63" using "1.prems"(2) by linarith
        moreover from this have "unat (off + of_nat (length ?d)) = unat off + length ?d"
          by (subst unat_add_small) (simp_all add: unat_of_nat del: length_take)
        ultimately have off: "unat (off + of_nat (length ?d)) = unat off + length ?d" "unat off + length ?d + (left - length ?d) < 2 ^ 63"
          by blast+
        obtain k' where k': "rw_read_loop fname (got @ ?d) (left - length ?d) (off + of_nat (length ?d)) k1 =
            (Status_OK, (got @ ?d) @ take (left - length ?d) (drop (unat off + length ?d) (k_data k1)), k')" "retriable k'" "k_data k' = k_data k1"
          using "1.IH"(2) [OF False k [symmetric] refl refl pos] moved(4) off by (auto simp del: length_take)
        have "?d = take (length ?d) (drop (unat off) (k_data k))" by (simp add: min_def)
        then have "?d @ take (left - length ?d) (drop (unat off + length ?d) (k_data k)) = take left (drop (unat off) (k_data k))"
          using \<open>length ?d \<le> left\<close> take_add [of "length ?d" "left - length ?d" "drop (unat off) (k_data k)"] by (simp add: add.commute)
        then show ?thesis using k' k False pos moved(5) by (subst rw_read_loop.simps) (simp del: length_take)
      qed
    next
      case (interrupted k1)
      then have k: "pread left off k = (- 1, [], k1)" using \<open>unat off < 2 ^ 63\<close> by (simp add: pread_def sys_pread_def)
      then show ?thesis using "1.IH"(1) [OF False k [symmetric] refl refl] interrupted False "1.prems"(2)
        by (subst rw_read_loop.simps) auto
    qed
  qed
qed

text \<open>What \<open>PosixRandomRWFile\<close> writes at an offset it reads back there, wherever below \<open>2^63\<close>
  the offset lies, also behind the end of the file; the file is otherwise unchanged, with zeros in
  the gap. Both calls get through short transfers and interruptions.\<close>

lemma random_rw_roundtrip:
  assumes "retriable (rw_kernel f)" "unat off + length d < 2 ^ 63"
  shows "\<exists>f1 f2. PosixRandomRWFile_Write off d f = (Status_OK, f1) \<and>
    k_data (rw_kernel f1) = write_at (unat off) d (k_data (rw_kernel f)) \<and>
    PosixRandomRWFile_Read off (length d) f1 = (Status_OK, d, f2) \<and> k_data (rw_kernel f2) = k_data (rw_kernel f1)"
proof -
  let ?w = "write_at (unat off) d (k_data (rw_kernel f))"
  obtain k1 where k1: "rw_write_loop (rw_filename f) d off (rw_kernel f) = (Status_OK, k1)" "retriable k1" "k_data k1 = ?w"
    using rw_write_loop_retriable [OF assms] by blast
  obtain k2 where k2: "rw_read_loop (rw_filename f) [] (length d) off k1 = (Status_OK, take (length d) (drop (unat off) ?w), k2)" "k_data k2 = ?w"
    using rw_read_loop_retriable [OF k1(2) assms(2), of "rw_filename f" "[]"] k1(3) by auto
  have "take (length d) (drop (unat off) ?w) = d" by (cases "d = []") (auto simp: write_at_def overwrite_def)
  with k1 k2 show ?thesis by (simp add: PosixRandomRWFile_Write_def PosixRandomRWFile_Read_def)
qed

subsection \<open>Unique ids are prefix-free\<close>

lemma unique_id_cases:
  assumes "GetUniqueIdFromFile max_size stat version = Some u" "u \<noteq> []"
  obtains d i v where "stat = Some (d, i)" "version = Some v" "u = EncodeVarint64 d @ EncodeVarint64 i @ EncodeVarint64 v"
    "3 * kMaxVarint64Length \<le> max_size"
proof -
  have "\<not> max_size < kMaxVarint64Length * 3" using assms by (auto simp: GetUniqueIdFromFile_def)
  moreover from this obtain d i where "stat = Some (d, i)"
    using assms(1) by (cases stat) (auto simp: GetUniqueIdFromFile_def)
  moreover from calculation obtain v where "version = Some v"
    using assms by (cases version) (auto simp: GetUniqueIdFromFile_def)
  ultimately show thesis using assms(1) that by (simp add: GetUniqueIdFromFile_def)
qed

lemma unique_id_length:
  assumes "GetUniqueIdFromFile max_size stat version = Some u"
  shows "length u \<le> max_size"
proof (cases "u = []")
  case False
  from unique_id_cases [OF assms this] obtain d i v where
    "u = EncodeVarint64 d @ EncodeVarint64 i @ EncodeVarint64 v" "3 * kMaxVarint64Length \<le> max_size" by metis
  with length_EncodeVarint64 [of d] length_EncodeVarint64 [of i] length_EncodeVarint64 [of v] show ?thesis by simp
qed simp

text \<open>What \<open>RandomAccessFile::GetUniqueId\<close> guarantees of the ids it returns: they fit the space given,
  no id is a prefix of the id of another file, so none can be made equal to another by adding
  bytes, and no id can be read as a single varint.\<close>

lemma unique_id_prefix_free:
  assumes "GetUniqueIdFromFile m1 stat1 ver1 = Some u1" "u1 \<noteq> []" "GetUniqueIdFromFile m2 stat2 ver2 = Some u2" "u2 \<noteq> []"
  shows "length u1 \<le> m1 \<and> (\<forall>rest. u2 = u1 @ rest \<longrightarrow> rest = [] \<and> stat1 = stat2 \<and> ver1 = ver2) \<and>
    (\<exists>v tail. GetVarint64 u1 = Some (v, tail) \<and> tail \<noteq> [])"
proof -
  obtain d1 i1 v1 where u1: "stat1 = Some (d1, i1)" "ver1 = Some v1" "u1 = EncodeVarint64 d1 @ EncodeVarint64 i1 @ EncodeVarint64 v1"
    using unique_id_cases [OF assms(1,2)] by metis
  obtain d2 i2 v2 where u2: "stat2 = Some (d2, i2)" "ver2 = Some v2" "u2 = EncodeVarint64 d2 @ EncodeVarint64 i2 @ EncodeVarint64 v2"
    using unique_id_cases [OF assms(3,4)] by metis
  have len: "length u1 \<le> m1" by (rule unique_id_length [OF assms(1)])
  have free: "rest = [] \<and> stat1 = stat2 \<and> ver1 = ver2" if "u2 = u1 @ rest" for rest
  proof -
    have "concat (map EncodeVarint64 [d2, i2, v2]) @ [] = concat (map EncodeVarint64 [d1, i1, v1]) @ rest"
      using that u1(3) u2(3) by simp
    with varint64.concat_unique [of "[d2, i2, v2]" "[d1, i1, v1]" "[]" rest] u1 u2 show ?thesis by auto
  qed
  have "EncodeVarint64 i1 \<noteq> []" by (subst EncodeVarint64.simps) (simp add: Let_def)
  then have "\<exists>v tail. GetVarint64 u1 = Some (v, tail) \<and> tail \<noteq> []" using u1(3) GetVarint64_Encode by fastforce
  with len free show ?thesis by blast
qed

end
