(* ===== verification/DirectIO.thy ===== *)
theory DirectIO
  imports RandomAccess
begin

text \<open>
  Direct I/O reads of \<open>rutil/io_posix.cc\<close>: \<open>ReadAligned\<close>, \<open>ReadUnaligned\<close>, \<open>DirectIORead\<close> and the
  two file classes on top of them. Whether the address of \<open>scratch\<close> is page-aligned is a
  parameter; \<open>ReadUnaligned\<close> reads whole sectors into a buffer of its own, whose bytes are those of
  the allocation, \<open>junk\<close>, until they are overwritten.

  \<open>None\<close> is a failed assertion or a call that does not return.

  Shown: what a direct read returns, aligned or not, including the bytes that were never read;
  inside of the file it is the bytes of the file; across its end an unaligned read returns
  bytes that are not in the file.
\<close>

subsection \<open>Sectors\<close>

definition Upper :: "nat \<Rightarrow> nat \<Rightarrow> nat" where
  "Upper sz fac = (if sz mod fac = 0 then sz else sz + (fac - sz mod fac))"

definition Lower :: "nat \<Rightarrow> nat \<Rightarrow> nat" where
  "Lower sz fac = (if sz mod fac = 0 then sz else sz - sz mod fac)"

subsection \<open>ReadAligned and ReadUnaligned\<close>

text \<open>\<open>got\<close> is what has been stored at the start of \<open>scratch\<close>, \<open>bytes_read\<close> its length.\<close>

partial_function (option) ReadAligned_loop ::
    "bytes \<Rightarrow> nat \<Rightarrow> u64 \<Rightarrow> int \<Rightarrow> kernel \<Rightarrow> (int \<times> bytes \<times> kernel) option" where
  "ReadAligned_loop got sz offset status k =
     (if length got < sz then
        (let (status, d, k) = pread (sz - length got) (offset + of_nat (length got)) k
         in if status \<le> 0 then
              (if k_errno k = EINTR then ReadAligned_loop got sz offset status k else Some (status, got, k))
            else if status mod int kSectorSize \<noteq> 0 then Some (status, got @ d, k)
            else ReadAligned_loop (got @ d) sz offset status k)
      else Some (status, got, k))"

text \<open>The status, the bytes of the slice, the bytes of \<open>scratch\<close> after the call.\<close>

definition ReadAligned ::
    "u64 \<Rightarrow> nat \<Rightarrow> bytes \<Rightarrow> bool \<Rightarrow> kernel \<Rightarrow> (Status \<times> bytes \<times> bytes \<times> kernel) option" where
  "ReadAligned offset sz scratch page_aligned k =
     (if \<not> (IsSectorAligned (unat offset) \<and> IsSectorAligned sz \<and> page_aligned) then None
      else do {
        (status, got, k) \<leftarrow> ReadAligned_loop [] sz offset (-1) k;
        Some (if status < 0 then Status_IOError (k_strerror k (k_errno k)) [] else Status_OK,
              got, got @ drop (length got) scratch, k)
      })"

text \<open>\<open>alloc n\<close> is the memory \<open>NewAligned\<close> returns for \<open>n\<close> bytes, \<open>None\<close> if there is none; it is
  aligned to 4096 bytes, \<open>page_4k\<close> says that this is enough for \<open>IsPageAligned\<close>.\<close>

definition ReadUnaligned ::
    "(nat \<Rightarrow> bytes option) \<Rightarrow> bool \<Rightarrow> u64 \<Rightarrow> nat \<Rightarrow> bytes \<Rightarrow> bool \<Rightarrow> kernel \<Rightarrow>
     (Status \<times> bytes \<times> bytes \<times> kernel) option" where
  "ReadUnaligned alloc page_4k offset sz scratch page_aligned k =
     (if IsSectorAligned (unat offset) \<and> IsSectorAligned sz \<and> page_aligned then None
      else
        (let aligned_off = Lower (unat offset) kSectorSize;
             aligned_size = Upper (sz + (unat offset - aligned_off)) kSectorSize
         in do {
              aligned_scratch \<leftarrow> alloc aligned_size;
              if \<not> (IsSectorAligned aligned_off \<and> IsSectorAligned aligned_size \<and> page_4k \<and>
                     unat offset + sz \<le> aligned_off + aligned_size) then None
              else do {
                (s, scratch_slice, aligned_scratch, k) \<leftarrow> ReadAligned (of_nat aligned_off) aligned_size aligned_scratch page_4k k;
                let n = min sz (length scratch_slice);
                let scratch = take n (drop (unat offset mod kSectorSize) aligned_scratch) @ drop n scratch;
                Some (s, take n scratch, scratch, k)
              }
            }))"

definition DirectIORead ::
    "(nat \<Rightarrow> bytes option) \<Rightarrow> bool \<Rightarrow> u64 \<Rightarrow> nat \<Rightarrow> bytes \<Rightarrow> bool \<Rightarrow> kernel \<Rightarrow>
     (Status \<times> bytes \<times> bytes \<times> kernel) option" where
  "DirectIORead alloc page_4k off n scratch page_aligned k =
     (if IsSectorAligned (unat off) \<and> IsSectorAligned n \<and> page_aligned then ReadAligned off n scratch page_aligned k
      else ReadUnaligned alloc page_4k off n scratch page_aligned k)"

subsection \<open>The file classes\<close>

record PosixDirectIOSequentialFile =
  ds_filename :: bytes
  ds_kernel :: kernel
  ds_off :: u64

definition PosixDirectIOSequentialFile_init :: "bytes \<Rightarrow> kernel \<Rightarrow> PosixDirectIOSequentialFile" where
  "PosixDirectIOSequentialFile_init fname k = \<lparr>ds_filename = fname, ds_kernel = k, ds_off = 0\<rparr>"

text \<open>The offset is advanced by \<open>n\<close> before the read, whatever the read returns.\<close>

definition PosixDirectIOSequentialFile_Read ::
    "(nat \<Rightarrow> bytes option) \<Rightarrow> bool \<Rightarrow> nat \<Rightarrow> bytes \<Rightarrow> bool \<Rightarrow> PosixDirectIOSequentialFile \<Rightarrow>
     (Status \<times> bytes \<times> bytes \<times> PosixDirectIOSequentialFile) option" where
  "PosixDirectIOSequentialFile_Read alloc page_4k n scratch page_aligned f =
     (let off = ds_off f;
          f = f\<lparr>ds_off := off + of_nat n\<rparr>
      in do {
           (s, result, scratch, k) \<leftarrow> DirectIORead alloc page_4k off n scratch page_aligned (ds_kernel f);
           Some (s, result, scratch, f\<lparr>ds_kernel := k\<rparr>)
         })"

definition PosixDirectIOSequentialFile_Skip :: "u64 \<Rightarrow> PosixDirectIOSequentialFile \<Rightarrow> Status \<times> PosixDirectIOSequentialFile" where
  "PosixDirectIOSequentialFile_Skip n f = (Status_OK, f\<lparr>ds_off := ds_off f + n\<rparr>)"

definition PosixDirectIOSequentialFile_InvalidateCache ::
    "nat \<Rightarrow> nat \<Rightarrow> PosixDirectIOSequentialFile \<Rightarrow> Status \<times> PosixDirectIOSequentialFile" where
  "PosixDirectIOSequentialFile_InvalidateCache offset len f = (Status_OK, f)"

text \<open>The class inherits the state of \<open>PosixRandomAccessFile\<close>.\<close>

definition PosixDirectIORandomAccessFile_Read ::
    "(nat \<Rightarrow> bytes option) \<Rightarrow> bool \<Rightarrow> u64 \<Rightarrow> nat \<Rightarrow> bytes \<Rightarrow> bool \<Rightarrow> PosixRandomAccessFile \<Rightarrow>
     (Status \<times> bytes \<times> bytes \<times> PosixRandomAccessFile) option" where
  "PosixDirectIORandomAccessFile_Read alloc page_4k offset n scratch page_aligned f = do {
     (s, result, scratch, k) \<leftarrow> DirectIORead alloc page_4k offset n scratch page_aligned (pr_kernel f);
     Some (s, result, scratch, f\<lparr>pr_kernel := k\<rparr>)
   }"

definition PosixDirectIORandomAccessFile_Hint :: "AccessPattern \<Rightarrow> PosixRandomAccessFile \<Rightarrow> PosixRandomAccessFile" where
  "PosixDirectIORandomAccessFile_Hint pattern f = f"

definition PosixDirectIORandomAccessFile_InvalidateCache ::
    "nat \<Rightarrow> nat \<Rightarrow> PosixRandomAccessFile \<Rightarrow> Status \<times> PosixRandomAccessFile" where
  "PosixDirectIORandomAccessFile_InvalidateCache offset len f = (Status_OK, f)"

subsection \<open>What a direct read returns\<close>

lemma Lower_eq: "Lower n f = n - n mod f"
  by (simp add: Lower_def)

lemma Upper_mod: "0 < f \<Longrightarrow> Upper n f mod f = 0"
proof -
  assume f: "0 < f"
  show ?thesis
  proof (cases "n mod f = 0")
    case False
    have "n = f * (n div f) + n mod f" by simp
    then have "n + (f - n mod f) = f * Suc (n div f)" using mod_less_divisor [OF f, of n] unfolding mult_Suc_right by linarith
    then show ?thesis using False by (simp add: Upper_def)
  qed (simp add: Upper_def)
qed

lemma Upper_ge: "n \<le> Upper n f"
  unfolding Upper_def by (rule if_split [THEN iffD2]) linarith

text \<open>Short transfers move whole sectors, as the device does.\<close>

definition by_sectors :: "kernel \<Rightarrow> bool" where
  "by_sectors k \<longleftrightarrow> quiet k \<and> (\<forall>e \<in> set (k_script k). case e of Short m \<Rightarrow> m mod kSectorSize = 0 | _ \<Rightarrow> True)"

lemma pread_sectors:
  assumes "by_sectors k" "0 < n" "n mod kSectorSize = 0" "unat off < 2 ^ 63"
  shows "\<exists>m k'. pread n off k = (int (length (take m (drop (unat off) (k_data k)))), take m (drop (unat off) (k_data k)), k') \<and>
    by_sectors k' \<and> k_data k' = k_data k \<and> 0 < m \<and> m \<le> n \<and> m mod kSectorSize = 0"
proof (cases "k_script k")
  case Nil
  then show ?thesis using assms
    by (auto simp: by_sectors_def quiet_def pread_def sys_pread_def transfer_def next_event_def Let_def intro!: exI [of _ n])
next
  case (Cons e es)
  then show ?thesis
  proof (cases e)
    case Complete
    then show ?thesis using assms Cons
      by (auto simp: by_sectors_def quiet_def pread_def sys_pread_def transfer_def next_event_def Let_def intro!: exI [of _ n])
  next
    case (Short m)
    then show ?thesis using assms Cons
      by (auto simp: by_sectors_def quiet_def pread_def sys_pread_def transfer_def next_event_def Let_def min_def intro!: exI [of _ "min m n"])
  qed (use assms Cons in \<open>simp add: by_sectors_def quiet_def\<close>)
qed

lemma ReadAligned_loop_sectors:
  assumes "by_sectors k" "sz mod kSectorSize = 0" "unat off < 2 ^ 63"
    and "got = take (length got) (drop (unat off) (k_data k))" "length got mod kSectorSize = 0" "length got \<le> sz"
    and "0 \<le> status \<or> length got < sz"
  shows "\<exists>st k'. ReadAligned_loop got sz off status k = Some (st, take sz (drop (unat off) (k_data k)), k') \<and> 0 \<le> st \<and>
    by_sectors k' \<and> k_data k' = k_data k"
  using assms
proof (induction "sz - length got" arbitrary: got status k rule: less_induct)
  case less
  let ?D = "drop (unat off) (k_data k)"
  show ?case
  proof (cases "length got < sz")
    case False
    then have "length got = sz" using less.prems(6) by simp
    then show ?thesis using less.prems False by (subst ReadAligned_loop.simps) auto
  next
    case True
    have small: "length (k_data k) < 2 ^ 63" using less.prems(1) by (simp add: by_sectors_def quiet_def)
    have got_le: "length got \<le> length ?D" using less.prems(4) by (metis length_take min.cobounded1)
    have off: "unat (off + of_nat (length got)) = unat off + length got"
    proof -
      have "length got < 2 ^ 63" using got_le small by simp
      then show ?thesis using less.prems(3) got_le small by (subst unat_add_small) (simp_all add: unat_of_nat)
    qed
    then have fits: "unat (off + of_nat (length got)) < 2 ^ 63" using got_le small less.prems(3) by (cases "got = []") auto
    have rest: "(sz - length got) mod kSectorSize = 0" "0 < sz - length got"
      using True less.prems(2,5) by (simp_all add: mod_eq_0_iff_dvd dvd_diff_nat)
    obtain m k1 where p: "pread (sz - length got) (off + of_nat (length got)) k =
        (int (length (take m (drop (unat off + length got) (k_data k)))), take m (drop (unat off + length got) (k_data k)), k1)"
        "by_sectors k1" "k_data k1 = k_data k" "0 < m" "m \<le> sz - length got" "m mod kSectorSize = 0"
      using pread_sectors [OF less.prems(1) rest(2,1) fits] unfolding off by (elim exE conjE)
    define d where "d = take m (drop (length got) ?D)"
    have p1: "pread (sz - length got) (off + of_nat (length got)) k = (int (length d), d, k1)" using p(1) by (simp add: d_def add.commute)
    have gd: "got @ d = take (length got + m) ?D" using less.prems(4) by (simp add: d_def take_add)
    have end_of_file: "take sz ?D = got @ d" if "length d < m"
    proof -
      have "length ?D \<le> length got + m" using that got_le by (simp add: d_def)
      then have "got @ d = ?D" using gd by simp
      moreover have "length ?D \<le> sz" using \<open>length ?D \<le> length got + m\<close> p(5) True by simp
      ultimately show ?thesis by simp
    qed
    have "k_errno k1 \<noteq> EINTR" using p(2) by (simp add: by_sectors_def quiet_def)
    show ?thesis
    proof (cases "d = [] \<or> length d mod kSectorSize \<noteq> 0")
      case stop: True
      have "length d < m" using stop p(4,6) by (cases "length d = m") (auto simp: d_def)
      then have "take sz ?D = got @ d" by (rule end_of_file)
      then show ?thesis using stop True p1 p(2,3) \<open>k_errno k1 \<noteq> EINTR\<close>
        by (subst ReadAligned_loop.simps) (auto simp flip: zmod_int)
    next
      case False
      then have d: "d \<noteq> []" "length d mod kSectorSize = 0" by simp_all
      have step: "ReadAligned_loop got sz off status k = ReadAligned_loop (got @ d) sz off (int (length d)) k1"
        using True p1 d by (subst ReadAligned_loop.simps) (simp flip: zmod_int)
      have "length d \<le> m" by (simp add: d_def)
      then have len: "length (got @ d) \<le> sz" "sz - length (got @ d) < sz - length got" using p(5) True d(1) by (auto simp: length_greater_0_conv [symmetric] simp del: length_greater_0_conv)
      have prefix: "got @ d = take (length (got @ d)) (drop (unat off) (k_data k1))" unfolding p(3) gd by (simp add: min_def)
      have whole: "length (got @ d) mod kSectorSize = 0" using d(2) less.prems(5) by (simp add: mod_eq_0_iff_dvd)
      have "0 \<le> int (length d) \<or> length (got @ d) < sz" by simp
      from less.hyps [OF len(2) p(2) less.prems(2,3) prefix whole len(1) this] show ?thesis unfolding p(3) step .
    qed
  qed
qed

lemma ReadAligned_sectors:
  assumes "by_sectors k" "IsSectorAligned (unat off)" "IsSectorAligned n" "0 < n" "unat off < 2 ^ 63"
  shows "\<exists>k'. ReadAligned off n scratch True k =
      Some (Status_OK, take n (drop (unat off) (k_data k)),
            take n (drop (unat off) (k_data k)) @ drop (length (take n (drop (unat off) (k_data k)))) scratch, k') \<and>
    by_sectors k' \<and> k_data k' = k_data k"
proof -
  from ReadAligned_loop_sectors [of k n off "[]" "- 1"] assms obtain st k' where
    l: "ReadAligned_loop [] n off (- 1) k = Some (st, take n (drop (unat off) (k_data k)), k')" "0 \<le> st"
      "by_sectors k'" "k_data k' = k_data k" by (auto simp: IsSectorAligned_def)
  then show ?thesis using assms(2,3) by (auto simp: ReadAligned_def)
qed

text \<open>The bytes of the sectors around the range that the file has, the buffer once they are read.\<close>

definition sectors_read :: "nat \<Rightarrow> nat \<Rightarrow> bytes \<Rightarrow> bytes" where
  "sectors_read off n data = take (Upper (n + off mod kSectorSize) kSectorSize) (drop (off - off mod kSectorSize) data)"

lemma ReadUnaligned_sectors:
  assumes k: "by_sectors k" and n: "0 < n" and off: "unat off < 2 ^ 63"
    and unaligned: "\<not> (IsSectorAligned (unat off) \<and> IsSectorAligned n \<and> page_aligned)"
    and alloc: "alloc (Upper (n + unat off mod kSectorSize) kSectorSize) = Some junk"
      "length junk = Upper (n + unat off mod kSectorSize) kSectorSize"
  defines "got \<equiv> sectors_read (unat off) n (k_data k)"
  defines "res \<equiv> take (min n (length got)) (drop (unat off mod kSectorSize) (got @ drop (length got) junk))"
  shows "\<exists>scr k'. ReadUnaligned alloc True off n scratch page_aligned k = Some (Status_OK, res, scr, k') \<and>
      by_sectors k' \<and> k_data k' = k_data k"
    and "length res = min n (length got)"
proof -
  let ?a = "unat off mod kSectorSize" and ?lo = "Lower (unat off) kSectorSize" and ?m = "min n (length got)"
  let ?sz = "Upper (n + ?a) kSectorSize"
  define buf where "buf = got @ drop (length got) junk"
  have pos: "0 < kSectorSize" by (simp add: kSectorSize_def)
  have lo: "?lo = unat off - ?a" "unat off - ?lo = ?a" by (simp_all add: Lower_eq)
  have aligned: "IsSectorAligned ?lo" "IsSectorAligned ?sz"
    using pos by (simp_all add: IsSectorAligned_def Lower_eq Upper_mod minus_mod_eq_mult_div)
  have up: "n + ?a \<le> ?sz" by (rule Upper_ge)
  have sz: "0 < ?sz" "unat off + n \<le> ?lo + ?sz" using n lo up by linarith+
  have "?lo < 2 ^ 63" using off lo by simp
  then have u: "unat (of_nat ?lo :: u64) = ?lo" by (simp add: unat_of_nat)
  from ReadAligned_sectors [OF k, of "of_nat ?lo" ?sz junk, unfolded u] aligned sz(1) \<open>?lo < 2 ^ 63\<close> obtain k' where
    r: "ReadAligned (of_nat ?lo) ?sz junk True k = Some (Status_OK, got, buf, k')" "by_sectors k'" "k_data k' = k_data k"
    unfolding buf_def got_def sectors_read_def lo(1) by blast
  have "length got \<le> ?sz" by (simp add: got_def sectors_read_def)
  then have "length buf = ?sz" using alloc(2) by (simp add: buf_def)
  then show len: "length res = ?m" using up by (simp add: res_def buf_def [symmetric])
  have res: "take ?m (drop ?a buf) = res" by (simp add: res_def buf_def)
  have "ReadUnaligned alloc True off n scratch page_aligned k = Some (Status_OK, res, res @ drop ?m scratch, k')"
  proof -
    have "take ?m (res @ drop ?m scratch) = res" using len by simp
    then show ?thesis unfolding ReadUnaligned_def Let_def lo(2) if_not_P [OF unaligned]
      using alloc(1) r(1) aligned sz(2) by (simp add: res del: take_append)
  qed
  with r show "\<exists>scr k'. ReadUnaligned alloc True off n scratch page_aligned k = Some (Status_OK, res, scr, k') \<and>
      by_sectors k' \<and> k_data k' = k_data k" by blast
qed

text \<open>The allocator gives the memory asked for.\<close>

definition allocates :: "(nat \<Rightarrow> bytes option) \<Rightarrow> bool" where
  "allocates alloc \<longleftrightarrow> (\<forall>n. \<exists>junk. alloc n = Some junk \<and> length junk = n)"

lemma allocates_replicate: "allocates (\<lambda>n. Some (replicate n b))"
  by (simp add: allocates_def)

lemma sectors_inside:
  assumes "off + n \<le> length data" "0 < n"
  shows "take (min n (length (sectors_read off n data))) (drop (off mod kSectorSize) (sectors_read off n data @ junk)) = take n (drop off data)"
    "min n (length (sectors_read off n data)) = n"
proof -
  let ?a = "off mod kSectorSize" and ?g = "sectors_read off n data"
  have up: "n + ?a \<le> Upper (n + ?a) kSectorSize" by (rule Upper_ge)
  have a: "?a \<le> off" "off - ?a + ?a = off" by simp_all
  have len: "n + ?a \<le> length ?g" using up assms(1) a by (simp add: sectors_read_def)
  then show m: "min n (length ?g) = n" by simp
  have "take n (drop ?a (?g @ junk)) = take n (drop ?a ?g)" using len by simp
  also have "\<dots> = take n (drop off data)" using up a by (simp add: sectors_read_def drop_take min_def)
  finally show "take (min n (length ?g)) (drop ?a (?g @ junk)) = take n (drop off data)" unfolding m .
qed

text \<open>C14. Direct reads inside of the file: \<open>PosixDirectIORandomAccessFile::Read\<close> returns the bytes at the
  offset, for every offset and every positive size and whatever the address of the caller's buffer, aligned or
  not, when the device transfers whole sectors and no call fails.\<close>

theorem direct_read_inside:
  assumes "by_sectors (pr_kernel f)" "allocates alloc" "0 < n" "unat off + n \<le> length (k_data (pr_kernel f))"
  shows "\<exists>scr f'. PosixDirectIORandomAccessFile_Read alloc True off n scratch page_aligned f =
    Some (Status_OK, take n (drop (unat off) (k_data (pr_kernel f))), scr, f') \<and> k_data (pr_kernel f') = k_data (pr_kernel f)"
proof -
  let ?k = "pr_kernel f"
  have off: "unat off < 2 ^ 63" using assms(1,4) by (simp add: by_sectors_def quiet_def)
  show ?thesis
  proof (cases "IsSectorAligned (unat off) \<and> IsSectorAligned n \<and> page_aligned")
    case True
    with ReadAligned_sectors [OF assms(1) _ _ assms(3) off, of scratch] show ?thesis
      by (auto simp: PosixDirectIORandomAccessFile_Read_def DirectIORead_def)
  next
    case False
    obtain junk where junk: "alloc (Upper (n + unat off mod kSectorSize) kSectorSize) = Some junk"
        "length junk = Upper (n + unat off mod kSectorSize) kSectorSize" using assms(2) unfolding allocates_def by blast
    note r = ReadUnaligned_sectors(1) [where alloc = alloc, OF assms(1,3) off False junk, of scratch, unfolded sectors_inside(1) [OF assms(4,3)]]
    then obtain scr k' where "ReadUnaligned alloc True off n scratch page_aligned ?k = Some (Status_OK, take n (drop (unat off) (k_data ?k)), scr, k')"
        "k_data k' = k_data ?k" by blast
    then show ?thesis unfolding PosixDirectIORandomAccessFile_Read_def DirectIORead_def if_not_P [OF False] by simp
  qed
qed

theorem direct_read_inside_witness:
  "\<exists>scr f'. PosixDirectIORandomAccessFile_Read (\<lambda>n. Some (replicate n 7)) True 700 2 [0, 0] False
      (PosixRandomAccessFile_init [] (demo_kernel (replicate 1000 1) [Short 512]) True) = Some (Status_OK, [1, 1], scr, f')"
proof -
  let ?f = "PosixRandomAccessFile_init [] (demo_kernel (replicate 1000 1) [Short 512]) True"
  have k: "pr_kernel ?f = demo_kernel (replicate 1000 1) [Short 512]" by (simp add: PosixRandomAccessFile_init_def)
  have "by_sectors (pr_kernel ?f)" unfolding k by (simp add: by_sectors_def quiet_def errno_values kSectorSize_def)
  moreover have "take 2 (drop (unat (700 :: u64)) (k_data (pr_kernel ?f))) = [1, 1]" unfolding k by code_simp
  ultimately show ?thesis
    using direct_read_inside [of ?f "\<lambda>n. Some (replicate n 7)" 2 700 "[0, 0]" False] allocates_replicate [of 7] unfolding k by auto
qed

text \<open>C15. Direct reads across the end of the file: a read that starts inside of a sector and asks for
  more than the file has reports success with more bytes than the file has behind the offset. The
  surplus is what lay in the memory of the intermediate buffer.\<close>

theorem direct_read_past_end:
  assumes "by_sectors (pr_kernel f)" "allocates alloc" "unat off mod kSectorSize \<noteq> 0"
    and "unat off < length (k_data (pr_kernel f))" "length (k_data (pr_kernel f)) < unat off + n"
  shows "\<exists>result scr f'. PosixDirectIORandomAccessFile_Read alloc True off n scratch page_aligned f = Some (Status_OK, result, scr, f') \<and>
    length result = min n (length (k_data (pr_kernel f)) - Lower (unat off) kSectorSize) \<and>
    length (k_data (pr_kernel f)) - unat off < length result"
proof -
  let ?k = "pr_kernel f" and ?a = "unat off mod kSectorSize"
  have n: "0 < n" using assms(4,5) by simp
  have off: "unat off < 2 ^ 63" using assms(1,4) by (simp add: by_sectors_def quiet_def)
  have un: "\<not> (IsSectorAligned (unat off) \<and> IsSectorAligned n \<and> page_aligned)" using assms(3) by (simp add: IsSectorAligned_def)
  obtain junk where junk: "alloc (Upper (n + ?a) kSectorSize) = Some junk" "length junk = Upper (n + ?a) kSectorSize"
    using assms(2) unfolding allocates_def by blast
  obtain res scr k' where r: "ReadUnaligned alloc True off n scratch page_aligned ?k = Some (Status_OK, res, scr, k')"
      "length res = min n (length (sectors_read (unat off) n (k_data ?k)))"
    using ReadUnaligned_sectors [where alloc = alloc, OF assms(1) n off un junk] by blast
  have up: "n + ?a \<le> Upper (n + ?a) kSectorSize" by (rule Upper_ge)
  have "?a \<le> unat off" by simp
  then have "length (sectors_read (unat off) n (k_data ?k)) = length (k_data ?k) - Lower (unat off) kSectorSize"
    using up assms(5) by (simp add: sectors_read_def Lower_eq)
  moreover have "length (k_data ?k) - unat off < min n (length (k_data ?k) - Lower (unat off) kSectorSize)"
    using assms(3-5) \<open>?a \<le> unat off\<close> unfolding Lower_eq min_less_iff_conj by linarith
  ultimately show ?thesis using r
    unfolding PosixDirectIORandomAccessFile_Read_def DirectIORead_def if_not_P [OF un] by simp
qed

theorem direct_read_past_end_witness:
  "\<exists>result scr f'. PosixDirectIORandomAccessFile_Read (\<lambda>n. Some (replicate n 7)) True 590 100 (replicate 100 0) False
      (PosixRandomAccessFile_init [] (demo_kernel (replicate 600 1) []) True) = Some (Status_OK, result, scr, f') \<and> length result = 88"
proof -
  let ?f = "PosixRandomAccessFile_init [] (demo_kernel (replicate 600 1) []) True"
  have k: "pr_kernel ?f = demo_kernel (replicate 600 1) []" by (simp add: PosixRandomAccessFile_init_def)
  have "by_sectors (pr_kernel ?f)" unfolding k by (simp add: by_sectors_def quiet_def errno_values)
  then show ?thesis
    using direct_read_past_end [of ?f "\<lambda>n. Some (replicate n 7)" 590 100 "replicate 100 0" False] allocates_replicate [of 7]
    unfolding k by (fastforce simp: Lower_def kSectorSize_def)
qed

end
