(* ===== verification/MmapFile.thy ===== *)
theory MmapFile
  imports PosixFile "HOL-Library.Monad_Syntax"
begin

text \<open>
  \<open>PosixMmapFile\<close> of \<open>rutil/io_posix.h\<close> and \<open>rutil/io_posix.cc\<close>: a writable file that is extended
  region by region, each region mapped into memory and filled with \<open>memcpy\<close>. Pointers are
  addresses, the null pointer is 0; the address \<open>mmap\<close> returns is part of the state, any non-null
  one. The mapping is shared, so a store through it changes the bytes of the file in the kernel of
  \<open>PosixFile\<close>; a store behind the last page of the file is a bus error.

  \<open>None\<close> is a failed assertion, a bus error or a loop that does not end.

  Shown: \<open>PosixMmapFile\<close> provides the contract \<open>append_file\<close>, whatever system calls fail, with every
  operation returning; closing it after successful appends trims the file to the bytes
  appended; without preallocation the first \<open>Append\<close> is a bus error.
\<close>

unbundle bit_operations_syntax

subsection \<open>System calls on mappings\<close>

definition sys_munmap :: "kernel \<Rightarrow> int \<times> kernel" where
  "sys_munmap k = sys_simple id k"

definition sys_msync :: "kernel \<Rightarrow> int \<times> kernel" where
  "sys_msync k = sys_simple id k"

text \<open>\<open>posix_fallocate\<close> returns the error number, which is positive, and leaves \<open>errno\<close> alone.\<close>

definition sys_posix_fallocate :: "nat \<Rightarrow> nat \<Rightarrow> kernel \<Rightarrow> nat \<times> kernel" where
  "sys_posix_fallocate off len k =
     (case transfer 0 k of
        (Inl e, k') \<Rightarrow> (max 1 e, k'\<lparr>k_errno := k_errno k\<rparr>)
      | (Inr _, k') \<Rightarrow> (0, k'\<lparr>k_data := k_data k' @ replicate (off + len - length (k_data k')) 0\<rparr>))"

text \<open>The address of the mapping, or \<open>None\<close> for \<open>MAP_FAILED\<close>.\<close>

definition sys_mmap :: "nat \<Rightarrow> kernel \<Rightarrow> nat option \<times> kernel" where
  "sys_mmap at k = (let (r, k) = sys_simple id k in (if r < 0 then None else Some at, k))"

text \<open>
  A store of \<open>d\<close> through a shared mapping to the bytes of the file from \<open>off\<close> on. Pages that have no
  byte of the file cannot be touched; stores between the end of the file and the end of its last
  page are not kept.
\<close>

definition mmap_store :: "nat \<Rightarrow> nat \<Rightarrow> bytes \<Rightarrow> kernel \<Rightarrow> kernel option" where
  "mmap_store page_size off d k =
     (if d = [] then Some k
      else if off + length d \<le> Roundup (length (k_data k)) page_size
      then Some (k\<lparr>k_data := take (length (k_data k)) (overwrite (k_data k) off d)\<rparr>)
      else None)"

subsection \<open>The file\<close>

record PosixMmapFile =
  mm_filename :: bytes
  mm_kernel :: kernel
  mm_page_size :: nat
  mm_map_size :: nat
  mm_base :: nat
  mm_limit :: nat
  mm_dst :: nat
  mm_last_sync :: nat
  mm_file_offset :: nat
  mm_allow_fallocate :: bool
  mm_fallocate_with_keep_size :: bool
  mm_at :: nat
  mm_base_part :: WritableFile_base

definition PosixMmapFile_Roundup :: "nat \<Rightarrow> nat \<Rightarrow> nat" where
  "PosixMmapFile_Roundup x y = ((x + y - 1) div y) * y"

definition PosixMmapFile_TruncateToPageBoundary :: "nat \<Rightarrow> PosixMmapFile \<Rightarrow> nat option" where
  "PosixMmapFile_TruncateToPageBoundary s f =
     (let s = s - (s AND (mm_page_size f - 1))
      in if s mod mm_page_size f = 0 then Some s else None)"

text \<open>The assertion on the page size is the caller's obligation, as is \<open>use_mmap_writes\<close>.\<close>

definition PosixMmapFile_init :: "bytes \<Rightarrow> kernel \<Rightarrow> nat \<Rightarrow> bool \<Rightarrow> bool \<Rightarrow> nat \<Rightarrow> PosixMmapFile" where
  "PosixMmapFile_init fname k page_size allow_fallocate fallocate_with_keep_size at =
     \<lparr>mm_filename = fname, mm_kernel = k, mm_page_size = page_size, mm_map_size = PosixMmapFile_Roundup 65536 page_size,
      mm_base = 0, mm_limit = 0, mm_dst = 0, mm_last_sync = 0, mm_file_offset = 0,
      mm_allow_fallocate = allow_fallocate, mm_fallocate_with_keep_size = fallocate_with_keep_size,
      mm_at = at, mm_base_part = WritableFile_base_init\<rparr>"

text \<open>The code passes the return value of \<open>munmap\<close>, minus one, where an error number is expected.\<close>

definition UnmapCurrentRegion :: "PosixMmapFile \<Rightarrow> Status \<times> PosixMmapFile" where
  "UnmapCurrentRegion f =
     (if mm_base f \<noteq> 0 then
        (let (munmap_status, k) = sys_munmap (mm_kernel f);
             f = f\<lparr>mm_kernel := k\<rparr>
         in if munmap_status \<noteq> 0 then (Status_IOError (mm_filename f) (cstr ''Unknown error -1''), f)
            else
              (let f = f\<lparr>mm_file_offset := mm_file_offset f + (mm_limit f - mm_base f),
                         mm_base := 0, mm_limit := 0, mm_last_sync := 0, mm_dst := 0\<rparr>
               in (Status_OK, if mm_map_size f < 2 ^ 20 then f\<lparr>mm_map_size := mm_map_size f * 2\<rparr> else f)))
      else (Status_OK, f))"

text \<open>Reserving space for the next region: \<open>fallocate\<close>, or else \<open>posix_fallocate\<close>; the error number.\<close>

definition allocate_region :: "PosixMmapFile \<Rightarrow> int \<times> PosixMmapFile" where
  "allocate_region f =
     (let (alloc_status, k) = sys_fallocate False (mm_file_offset f) (mm_map_size f) (mm_kernel f)
      in if alloc_status \<noteq> 0 then
           (let (e, k) = sys_posix_fallocate (mm_file_offset f) (mm_map_size f) k
            in (int e, f\<lparr>mm_kernel := k\<rparr>))
         else (alloc_status, f\<lparr>mm_kernel := k\<rparr>))"

definition MapNewRegion :: "PosixMmapFile \<Rightarrow> (Status \<times> PosixMmapFile) option" where
  "MapNewRegion f =
     (if mm_base f \<noteq> 0 then None
      else
        (let (alloc_status, f) = (if mm_allow_fallocate f then allocate_region f else (0, f))
         in if alloc_status \<noteq> 0 then
              Some (Status_IOError (cstr ''Error allocating space to file : '' @ mm_filename f @ cstr ''Error : '' @
                      k_strerror (mm_kernel f) (nat alloc_status)) [], f)
            else
              (case sys_mmap (mm_at f) (mm_kernel f) of
                 (None, k) \<Rightarrow> Some (Status_IOError (cstr ''MMap failed on '' @ mm_filename f) [], f\<lparr>mm_kernel := k\<rparr>)
               | (Some ptr, k) \<Rightarrow>
                   Some (Status_OK, f\<lparr>mm_kernel := k, mm_base := ptr, mm_limit := ptr + mm_map_size f,
                                      mm_dst := ptr, mm_last_sync := ptr\<rparr>))))"

definition Msync :: "PosixMmapFile \<Rightarrow> (Status \<times> PosixMmapFile) option" where
  "Msync f =
     (if mm_dst f = mm_last_sync f then Some (Status_OK, f)
      else do {
        p1 \<leftarrow> PosixMmapFile_TruncateToPageBoundary (mm_last_sync f - mm_base f) f;
        p2 \<leftarrow> PosixMmapFile_TruncateToPageBoundary (mm_dst f - mm_base f - 1) f;
        let (r, k) = sys_msync (mm_kernel f);
        let f = f\<lparr>mm_last_sync := mm_dst f, mm_kernel := k\<rparr>;
        Some (if r < 0 then IOError (mm_filename f) k else Status_OK, f)
      })"

text \<open>\<open>memcpy\<close> to \<open>dst_\<close>, inside of the mapped region.\<close>

definition mmap_memcpy :: "bytes \<Rightarrow> PosixMmapFile \<Rightarrow> PosixMmapFile option" where
  "mmap_memcpy d f = do {
     k \<leftarrow> mmap_store (mm_page_size f) (mm_file_offset f + (mm_dst f - mm_base f)) d (mm_kernel f);
     Some (f\<lparr>mm_kernel := k\<rparr>)
   }"

partial_function (option) mmap_append_loop :: "bytes \<Rightarrow> PosixMmapFile \<Rightarrow> (Status \<times> PosixMmapFile) option" where
  "mmap_append_loop src f =
     (if src = [] then Some (Status_OK, f)
      else if \<not> (mm_base f \<le> mm_dst f \<and> mm_dst f \<le> mm_limit f) then None
      else do {
        let avail = mm_limit f - mm_dst f;
        (s, f) \<leftarrow> (if avail = 0 then
                       (let (s, f) = UnmapCurrentRegion f
                        in if \<not> Status_ok s then Some (s, f) else MapNewRegion f)
                    else Some (Status_OK, f));
        if \<not> Status_ok s then Some (s, f)
        else do {
          let n = (if length src \<le> avail then length src else avail);
          f \<leftarrow> mmap_memcpy (take n src) f;
          mmap_append_loop (drop n src) (f\<lparr>mm_dst := mm_dst f + n\<rparr>)
        }
      })"

definition PosixMmapFile_Append :: "slice \<Rightarrow> PosixMmapFile \<Rightarrow> (Status \<times> PosixMmapFile) option" where
  "PosixMmapFile_Append data f = mmap_append_loop data f"

definition PosixMmapFile_Close :: "PosixMmapFile \<Rightarrow> Status \<times> PosixMmapFile" where
  "PosixMmapFile_Close f =
     (let unused = mm_limit f - mm_dst f;
          (s, f) = UnmapCurrentRegion f;
          (s, f) = (if \<not> Status_ok s then (IOError (mm_filename f) (mm_kernel f), f)
                    else if unused > 0 then
                      (let (r, k) = sys_ftruncate (mm_file_offset f - unused) (mm_kernel f)
                       in (if r < 0 then IOError (mm_filename f) k else s, f\<lparr>mm_kernel := k\<rparr>))
                    else (s, f));
          (r, k) = sys_close (mm_kernel f);
          s = (if r < 0 \<and> Status_ok s then IOError (mm_filename f) k else s)
      in (s, f\<lparr>mm_kernel := k, mm_base := 0, mm_limit := 0\<rparr>))"

definition PosixMmapFile_Flush :: "PosixMmapFile \<Rightarrow> Status \<times> PosixMmapFile" where
  "PosixMmapFile_Flush f = (Status_OK, f)"

definition mm_sync :: "PosixMmapFile \<Rightarrow> (Status \<times> PosixMmapFile) option" where
  "mm_sync f =
     (let (r, k) = sys_sync (mm_kernel f);
          f = f\<lparr>mm_kernel := k\<rparr>
      in if r < 0 then Some (IOError (mm_filename f) k, f) else Msync f)"

definition PosixMmapFile_Sync :: "PosixMmapFile \<Rightarrow> (Status \<times> PosixMmapFile) option" where
  "PosixMmapFile_Sync f = mm_sync f"

definition PosixMmapFile_Fsync :: "PosixMmapFile \<Rightarrow> (Status \<times> PosixMmapFile) option" where
  "PosixMmapFile_Fsync f = mm_sync f"

definition PosixMmapFile_GetFileSize :: "PosixMmapFile \<Rightarrow> nat" where
  "PosixMmapFile_GetFileSize f = (let used = mm_dst f - mm_base f in mm_file_offset f + used)"

definition PosixMmapFile_InvalidateCache :: "nat \<Rightarrow> nat \<Rightarrow> PosixMmapFile \<Rightarrow> Status \<times> PosixMmapFile" where
  "PosixMmapFile_InvalidateCache offset len f =
     (let (ret, k) = Fadvise (mm_kernel f);
          f = f\<lparr>mm_kernel := k\<rparr>
      in if ret = 0 then (Status_OK, f) else (IOError (mm_filename f) k, f))"

definition PosixMmapFile_Allocate :: "nat \<Rightarrow> nat \<Rightarrow> PosixMmapFile \<Rightarrow> Status \<times> PosixMmapFile" where
  "PosixMmapFile_Allocate offset len f =
     (let (alloc_status, k) = (if mm_allow_fallocate f then sys_fallocate (mm_fallocate_with_keep_size f) offset len (mm_kernel f)
                               else (0, mm_kernel f));
          f = f\<lparr>mm_kernel := k\<rparr>
      in if alloc_status = 0 then (Status_OK, f) else (IOError (mm_filename f) k, f))"

definition PosixMmapFile_Truncate :: "nat \<Rightarrow> PosixMmapFile \<Rightarrow> Status \<times> PosixMmapFile" where
  "PosixMmapFile_Truncate sz f = (Status_OK, f)"

definition PosixMmapFile_vt :: "PosixMmapFile WritableFile_vt" where
  "PosixMmapFile_vt =
     \<lparr>wf_UseOSBuffer = \<lambda>f. True, wf_UseDirectIO = \<lambda>f. False,
      wf_GetRequiredBufferAlignment = \<lambda>f. c_DefaultPageSize,
      wf_IsSyncThreadSafe = \<lambda>f. False,
      wf_PrepareWrite = WritableFile_PrepareWrite mm_base_part (\<lambda>b f. f\<lparr>mm_base_part := b\<rparr>) PosixMmapFile_Allocate,
      wf_Append = PosixMmapFile_Append,
      wf_PositionedAppend = PositionedAppend_default,
      wf_Truncate = PosixMmapFile_Truncate, wf_Close = PosixMmapFile_Close,
      wf_Flush = PosixMmapFile_Flush, wf_Sync = PosixMmapFile_Sync,
      wf_Fsync = PosixMmapFile_Fsync, wf_RangeSync = \<lambda>off n f. (Status_OK, f),
      wf_InvalidateCache = PosixMmapFile_InvalidateCache\<rparr>"

subsection \<open>The invariant and the contents\<close>

definition mm_ok :: "PosixMmapFile \<Rightarrow> bool" where
  "mm_ok f \<longleftrightarrow> k_open (mm_kernel f) \<and> mm_allow_fallocate f \<and> 0 < mm_map_size f \<and> power_of_two (mm_page_size f) \<and> 0 < mm_at f \<and>
     (if mm_base f = 0 then mm_limit f = 0 \<and> mm_dst f = 0 \<and> mm_last_sync f = 0 \<and> mm_file_offset f \<le> length (k_data (mm_kernel f))
      else mm_base f \<le> mm_last_sync f \<and> mm_last_sync f \<le> mm_dst f \<and> mm_dst f \<le> mm_limit f \<and>
        mm_file_offset f + (mm_limit f - mm_base f) \<le> length (k_data (mm_kernel f)))"

definition mm_contents :: "PosixMmapFile \<Rightarrow> bytes" where
  "mm_contents f = take (PosixMmapFile_GetFileSize f) (k_data (mm_kernel f))"

text \<open>No region is mapped twice, and the file ends with the mapped region: nothing has been
  allocated behind it.\<close>

definition mm_tight :: "PosixMmapFile \<Rightarrow> bool" where
  "mm_tight f \<longleftrightarrow> length (k_data (mm_kernel f)) = mm_file_offset f + (mm_limit f - mm_base f)"

text \<open>No failures to come, no preallocation by blocks.\<close>

definition mm_quiet :: "PosixMmapFile \<Rightarrow> bool" where
  "mm_quiet f \<longleftrightarrow> k_script (mm_kernel f) = [] \<and> wb_preallocation_block_size (mm_base_part f) = 0"

lemma sys_id_frame: "sys_simple id k = (n, k') \<Longrightarrow> k_data k' = k_data k \<and> k_open k' = k_open k \<and> (n = 0 \<or> n = - 1)"
  using sys_simple_frame [of id k n k'] by auto

lemma sys_fallocate_frame:
  assumes "sys_fallocate keep off len k = (n, k')"
  shows "k_open k' = k_open k" "n = 0 \<or> n = - 1" "\<exists>z. k_data k' = k_data k @ z" "n \<noteq> 0 \<Longrightarrow> k_data k' = k_data k"
    "n = 0 \<Longrightarrow> \<not> keep \<Longrightarrow> length (k_data k') = max (length (k_data k)) (off + len)"
proof -
  obtain r k1 where "transfer 0 k = (r, k1)" by (cases "transfer 0 k")
  with assms transfer_frame [OF this]
  show "k_open k' = k_open k" "n = 0 \<or> n = - 1" "\<exists>z. k_data k' = k_data k @ z" "n \<noteq> 0 \<Longrightarrow> k_data k' = k_data k"
    "n = 0 \<Longrightarrow> \<not> keep \<Longrightarrow> length (k_data k') = max (length (k_data k)) (off + len)"
    by (cases r; cases keep; auto simp: sys_fallocate_def sys_simple_def)+
qed

lemma sys_posix_fallocate_frame:
  assumes "sys_posix_fallocate off len k = (e, k')"
  shows "k_open k' = k_open k" "\<exists>z. k_data k' = k_data k @ z" "e \<noteq> 0 \<Longrightarrow> k_data k' = k_data k"
    "e = 0 \<Longrightarrow> length (k_data k') = max (length (k_data k)) (off + len)"
proof -
  obtain r k1 where "transfer 0 k = (r, k1)" by (cases "transfer 0 k")
  with assms transfer_frame [OF this]
  show "k_open k' = k_open k" "\<exists>z. k_data k' = k_data k @ z" "e \<noteq> 0 \<Longrightarrow> k_data k' = k_data k"
    "e = 0 \<Longrightarrow> length (k_data k') = max (length (k_data k)) (off + len)"
    by (cases r; auto simp: sys_posix_fallocate_def)+
qed

lemma allocate_region_law:
  assumes "allocate_region f = (n, f')"
  obtains k z where "f' = f\<lparr>mm_kernel := k\<rparr>" "k_open k = k_open (mm_kernel f)" "k_data k = k_data (mm_kernel f) @ z"
    "n \<noteq> 0 \<Longrightarrow> z = []" "n = 0 \<Longrightarrow> length (k_data k) = max (length (k_data (mm_kernel f))) (mm_file_offset f + mm_map_size f)"
proof -
  obtain a k1 where a: "sys_fallocate False (mm_file_offset f) (mm_map_size f) (mm_kernel f) = (a, k1)" by fastforce
  obtain e k2 where e: "sys_posix_fallocate (mm_file_offset f) (mm_map_size f) k1 = (e, k2)" by fastforce
  note fa = sys_fallocate_frame [OF a] and fe = sys_posix_fallocate_frame [OF e]
  show thesis
  proof (cases "a = 0")
    case True
    then have "n = 0" "f' = f\<lparr>mm_kernel := k1\<rparr>" using assms a by (simp_all add: allocate_region_def)
    then show ?thesis using that [of k1] fa True by auto
  next
    case False
    then have "n = int e" "f' = f\<lparr>mm_kernel := k2\<rparr>" using assms a e by (simp_all add: allocate_region_def)
    then show ?thesis using that [of k2] fa fe False by auto
  qed
qed

subsection \<open>The steps of Append\<close>

lemma Unmap_law:
  assumes "mm_ok f" "mm_dst f = mm_limit f" "UnmapCurrentRegion f = (s, f')"
  shows "mm_ok f' \<and> mm_contents f' = mm_contents f \<and> (mm_tight f \<longrightarrow> mm_tight f') \<and> (Status_ok s \<longrightarrow> mm_base f' = 0) \<and>
    (mm_quiet f \<longrightarrow> Status_ok s \<and> mm_quiet f')"
proof -
  obtain n k where u: "sys_munmap (mm_kernel f) = (n, k)" by fastforce
  then have "k_data k = k_data (mm_kernel f)" "k_open k = k_open (mm_kernel f)" "n = 0 \<or> n = - 1"
    using sys_id_frame [of "mm_kernel f" n k] by (auto simp: sys_munmap_def)
  moreover from u have "n = 0 \<and> k = mm_kernel f" if "k_open (mm_kernel f)" "k_script (mm_kernel f) = []"
    using that by (simp add: sys_munmap_def sys_simple_clean)
  ultimately show ?thesis using assms u
    by (auto simp: UnmapCurrentRegion_def mm_ok_def mm_contents_def mm_tight_def mm_quiet_def PosixMmapFile_GetFileSize_def Let_def
        Status_ok_def Status_IOError_def Status_OK_def split: if_splits)
qed

lemma Map_law:
  assumes "mm_ok f" "mm_base f = 0"
  shows "\<exists>s f'. MapNewRegion f = Some (s, f') \<and> mm_ok f' \<and> mm_contents f' = mm_contents f \<and>
    (Status_ok s \<longrightarrow> mm_base f' \<noteq> 0 \<and> mm_dst f' < mm_limit f' \<and> (mm_tight f \<longrightarrow> mm_tight f')) \<and>
    (mm_quiet f \<longrightarrow> Status_ok s \<and> mm_quiet f')"
proof -
  obtain n f1 where a: "allocate_region f = (n, f1)" by fastforce
  then obtain k z where k: "f1 = f\<lparr>mm_kernel := k\<rparr>" "k_open k = k_open (mm_kernel f)" "k_data k = k_data (mm_kernel f) @ z"
      "n = 0 \<Longrightarrow> length (k_data k) = max (length (k_data (mm_kernel f))) (mm_file_offset f + mm_map_size f)"
    by (rule allocate_region_law) blast
  obtain r k2 where m: "sys_simple id k = (r, k2)" by fastforce
  note k2 = sys_id_frame [OF m]
  have quiet: "n = 0 \<and> k_script k = []" "r = 0 \<and> k2 = k" if "mm_quiet f"
  proof -
    show n: "n = 0 \<and> k_script k = []" using that a assms(1) arg_cong [OF k(1), of mm_kernel]
      by (auto simp: allocate_region_def sys_fallocate_def sys_simple_clean mm_quiet_def mm_ok_def)
    then show "r = 0 \<and> k2 = k" using m k(2) assms(1) by (simp add: sys_simple_clean mm_ok_def)
  qed
  then have quiet: "mm_quiet f \<longrightarrow> n = 0 \<and> k_script k = [] \<and> r = 0 \<and> k2 = k" by blast
  note ok = assms [unfolded mm_ok_def]
  show ?thesis
  proof (cases "n = 0")
    case False
    then show ?thesis using a k(1-3) ok quiet
      by (auto simp: MapNewRegion_def mm_ok_def mm_contents_def PosixMmapFile_GetFileSize_def Status_ok_def Status_IOError_def)
  next
    case True
    then show ?thesis using a k ok m k2 quiet
      by (auto simp: MapNewRegion_def sys_mmap_def mm_ok_def mm_contents_def mm_tight_def mm_quiet_def PosixMmapFile_GetFileSize_def
          Status_ok_def Status_IOError_def Status_OK_def)
  qed
qed

lemma memcpy_law:
  assumes "mm_ok f" "mm_base f \<noteq> 0" "mm_dst f + length d \<le> mm_limit f"
  shows "\<exists>f1. mmap_memcpy d f = Some f1 \<and> mm_dst f1 = mm_dst f \<and> mm_ok (f1\<lparr>mm_dst := mm_dst f + length d\<rparr>) \<and>
    mm_contents (f1\<lparr>mm_dst := mm_dst f + length d\<rparr>) = mm_contents f @ d \<and>
    (mm_tight f \<longrightarrow> mm_tight (f1\<lparr>mm_dst := mm_dst f + length d\<rparr>)) \<and>
    (mm_quiet f \<longrightarrow> mm_quiet (f1\<lparr>mm_dst := mm_dst f + length d\<rparr>))"
proof -
  let ?k = "mm_kernel f" and ?o = "mm_file_offset f + (mm_dst f - mm_base f)"
  note ok = assms(1) [unfolded mm_ok_def]
  have fit: "?o + length d \<le> length (k_data ?k)" using assms ok by auto
  define D where "D = overwrite (k_data ?k) ?o d"
  have D: "length D = length (k_data ?k)" "take (?o + length d) D = take ?o (k_data ?k) @ d"
    using fit by (simp_all add: D_def length_overwrite overwrite_def)
  have "length (k_data ?k) \<le> Roundup (length (k_data ?k)) (mm_page_size f)"
    using ok by (intro Roundup_ge) (auto simp: power_of_two_pos)
  then have "mmap_store (mm_page_size f) ?o d ?k = Some (?k\<lparr>k_data := D\<rparr>)"
    using fit D(1) by (auto simp: mmap_store_def D_def overwrite_Nil)
  then have copied: "mmap_memcpy d f = Some (f\<lparr>mm_kernel := ?k\<lparr>k_data := D\<rparr>\<rparr>)"
    by (simp add: mmap_memcpy_def)
  let ?f = "f\<lparr>mm_kernel := ?k\<lparr>k_data := D\<rparr>, mm_dst := mm_dst f + length d\<rparr>"
  have "PosixMmapFile_GetFileSize ?f = ?o + length d" "PosixMmapFile_GetFileSize f = ?o"
    using assms(2) ok by (auto simp: PosixMmapFile_GetFileSize_def)
  then have "mm_contents ?f = mm_contents f @ d" unfolding mm_contents_def using D(2) by simp
  moreover have "mm_ok ?f" using assms(2,3) ok D(1) by (auto simp: mm_ok_def)
  moreover have "mm_tight f \<longrightarrow> mm_tight ?f" using D(1) by (simp add: mm_tight_def)
  moreover have "mm_quiet f \<longrightarrow> mm_quiet ?f" by (simp add: mm_quiet_def)
  ultimately show ?thesis using copied by simp
qed

text \<open>Making room: nothing to do, or the next region.\<close>

definition next_region :: "PosixMmapFile \<Rightarrow> (Status \<times> PosixMmapFile) option" where
  "next_region f =
     (if mm_limit f - mm_dst f = 0 then
        (let (s, f) = UnmapCurrentRegion f
         in if \<not> Status_ok s then Some (s, f) else MapNewRegion f)
      else Some (Status_OK, f))"

lemma next_region_law:
  assumes "mm_ok f"
  shows "\<exists>s f'. next_region f = Some (s, f') \<and> mm_ok f' \<and> mm_contents f' = mm_contents f \<and>
    (Status_ok s \<longrightarrow> mm_base f' \<noteq> 0 \<and> mm_dst f' < mm_limit f' \<and> (mm_tight f \<longrightarrow> mm_tight f')) \<and>
    (mm_quiet f \<longrightarrow> Status_ok s \<and> mm_quiet f')"
proof (cases "mm_limit f - mm_dst f = 0")
  case True
  obtain s1 f1 where u: "UnmapCurrentRegion f = (s1, f1)" by fastforce
  have "mm_dst f = mm_limit f" using assms True by (auto simp: mm_ok_def split: if_splits)
  from Unmap_law [OF assms this u] have f1: "mm_ok f1" "mm_contents f1 = mm_contents f" "mm_tight f \<longrightarrow> mm_tight f1"
      "Status_ok s1 \<longrightarrow> mm_base f1 = 0" "mm_quiet f \<longrightarrow> Status_ok s1 \<and> mm_quiet f1" by blast+
  show ?thesis
  proof (cases "Status_ok s1")
    case ok: True
    with Map_law [of f1] f1 True u show ?thesis by (auto simp: next_region_def)
  next
    case False
    with f1 True u show ?thesis by (simp add: next_region_def)
  qed
next
  case False
  then show ?thesis using assms by (auto simp: next_region_def mm_ok_def split: if_splits)
qed

lemma mmap_append_loop_step:
  assumes "mm_ok f" "src \<noteq> []" "next_region f = Some (s, f1)"
  defines "n \<equiv> min (length src) (mm_limit f - mm_dst f)"
  shows "mmap_append_loop src f =
    (if \<not> Status_ok s then Some (s, f1)
     else do { f2 \<leftarrow> mmap_memcpy (take n src) f1; mmap_append_loop (drop n src) (f2\<lparr>mm_dst := mm_dst f2 + n\<rparr>) })"
proof -
  have n: "n = (if length src \<le> mm_limit f - mm_dst f then length src else mm_limit f - mm_dst f)" by (simp add: n_def min_def)
  have "mm_base f \<le> mm_dst f \<and> mm_dst f \<le> mm_limit f" using assms(1) by (auto simp: mm_ok_def split: if_splits)
  then show ?thesis unfolding n using assms(2,3)
    by (subst mmap_append_loop.simps) (auto simp: next_region_def Let_def split: prod.splits)
qed

lemma mm_Append_law:
  assumes "mm_ok f"
  shows "\<exists>s f'. mmap_append_loop src f = Some (s, f') \<and> mm_ok f' \<and>
    (\<exists>j \<le> length src. mm_contents f' = mm_contents f @ take j src \<and> (Status_ok s \<longrightarrow> j = length src)) \<and>
    (Status_ok s \<longrightarrow> mm_tight f \<longrightarrow> mm_tight f') \<and> (mm_quiet f \<longrightarrow> Status_ok s \<and> mm_quiet f')"
  using assms
proof (induction "2 * length src + (if mm_limit f - mm_dst f = 0 then 1 else 0)" arbitrary: src f rule: less_induct)
  case less
  show ?case
  proof (cases "src = []")
    case True
    then show ?thesis using less.prems by (subst mmap_append_loop.simps) auto
  next
    case False
    obtain s f1 where r: "next_region f = Some (s, f1)" "mm_ok f1" "mm_contents f1 = mm_contents f"
        "Status_ok s \<longrightarrow> mm_base f1 \<noteq> 0 \<and> mm_dst f1 < mm_limit f1 \<and> (mm_tight f \<longrightarrow> mm_tight f1)"
        "mm_quiet f \<longrightarrow> Status_ok s \<and> mm_quiet f1"
      using next_region_law [OF less.prems] by blast
    note step = mmap_append_loop_step [OF less.prems False r(1)]
    show ?thesis
    proof (cases "Status_ok s")
      case bad: False
      then show ?thesis using step r by (auto intro: exI [of _ 0])
    next
      case True
      define n where "n = min (length src) (mm_limit f - mm_dst f)"
      have same: "f1 = f" if "mm_limit f - mm_dst f \<noteq> 0" using that r(1) by (simp add: next_region_def)
      have "mm_dst f1 + length (take n src) \<le> mm_limit f1" using same r(4) True
        by (cases "mm_limit f - mm_dst f = 0") (auto simp: n_def)
      from memcpy_law [OF r(2) _ this] r(4) True obtain f2 where f2: "mmap_memcpy (take n src) f1 = Some f2" "mm_dst f2 = mm_dst f1"
        "mm_ok (f2\<lparr>mm_dst := mm_dst f1 + n\<rparr>)" "mm_contents (f2\<lparr>mm_dst := mm_dst f1 + n\<rparr>) = mm_contents f @ take n src"
        "mm_tight f \<longrightarrow> mm_tight (f2\<lparr>mm_dst := mm_dst f1 + n\<rparr>)" "mm_quiet f \<longrightarrow> mm_quiet (f2\<lparr>mm_dst := mm_dst f1 + n\<rparr>)"
        using r(5) by (auto simp: r(3) n_def)
      let ?f = "f2\<lparr>mm_dst := mm_dst f1 + n\<rparr>"
      have "mm_limit f2 = mm_limit f1" using f2(1) by (auto simp: mmap_memcpy_def split: bind_splits)
      then have "2 * length (drop n src) + (if mm_limit ?f - mm_dst ?f = 0 then 1 else 0)
          < 2 * length src + (if mm_limit f - mm_dst f = 0 then 1 else 0)"
        using False r(4) True by (cases "mm_limit f - mm_dst f = 0") (auto simp: n_def)
      from less.hyps [OF this f2(3)] obtain s' f' j where f': "mmap_append_loop (drop n src) ?f = Some (s', f')" "mm_ok f'"
        "j \<le> length (drop n src)" "mm_contents f' = mm_contents ?f @ take j (drop n src)" "Status_ok s' \<longrightarrow> j = length (drop n src)"
        "Status_ok s' \<longrightarrow> mm_tight ?f \<longrightarrow> mm_tight f'" "mm_quiet ?f \<longrightarrow> Status_ok s' \<and> mm_quiet f'" by blast
      have "mmap_append_loop src f = Some (s', f')" using step True f2(1,2) f'(1) by (simp add: n_def)
      moreover have "mm_contents f' = mm_contents f @ take (n + j) src" using f'(4) f2(4) by (simp add: take_add)
      moreover have "n \<le> length src" by (simp add: n_def)
      ultimately show ?thesis using f' f2(5,6) by (intro exI [of _ s'] exI [of _ f'] conjI exI [of _ "n + j"]) auto
    qed
  qed
qed

lemma page_boundary:
  "power_of_two (mm_page_size f) \<Longrightarrow> PosixMmapFile_TruncateToPageBoundary n f = Some (n - n mod mm_page_size f)"
  using nat_and_mask
  by (auto simp: PosixMmapFile_TruncateToPageBoundary_def power_of_two_def Let_def minus_mod_eq_mult_div)

lemma Msync_law:
  assumes "mm_ok f"
  shows "\<exists>s f'. Msync f = Some (s, f') \<and> mm_ok f' \<and> mm_contents f' = mm_contents f"
proof -
  have page: "PosixMmapFile_TruncateToPageBoundary n f = Some (n - n mod mm_page_size f)" for n
    using assms by (intro page_boundary) (simp add: mm_ok_def)
  obtain r k where m: "sys_msync (mm_kernel f) = (r, k)" by fastforce
  then have "k_data k = k_data (mm_kernel f)" "k_open k = k_open (mm_kernel f)"
    using sys_id_frame [of "mm_kernel f" r k] by (auto simp: sys_msync_def)
  then have k: "mm_ok (f\<lparr>mm_last_sync := mm_dst f, mm_kernel := k\<rparr>)" "mm_contents (f\<lparr>mm_last_sync := mm_dst f, mm_kernel := k\<rparr>) = mm_contents f"
    using assms by (auto simp: mm_ok_def mm_contents_def PosixMmapFile_GetFileSize_def split: if_splits)
  show ?thesis
  proof (cases "mm_dst f = mm_last_sync f")
    case False
    then show ?thesis using k m by (simp add: Msync_def page Let_def)
  qed (simp add: Msync_def assms)
qed

lemma mm_sync_law:
  assumes "mm_ok f"
  shows "\<exists>s f'. mm_sync f = Some (s, f') \<and> mm_ok f' \<and> mm_contents f' = mm_contents f"
proof -
  obtain r k where m: "sys_sync (mm_kernel f) = (r, k)" by fastforce
  then have k: "k_data k = k_data (mm_kernel f)" "k_open k = k_open (mm_kernel f)"
    using sys_id_frame [of "mm_kernel f" r k] by (auto simp: sys_sync_def)
  then have "mm_ok (f\<lparr>mm_kernel := k\<rparr>)" "mm_contents (f\<lparr>mm_kernel := k\<rparr>) = mm_contents f"
    using assms by (auto simp: mm_ok_def mm_contents_def PosixMmapFile_GetFileSize_def)
  with Msync_law [of "f\<lparr>mm_kernel := k\<rparr>"] m show ?thesis by (cases "r < 0") (auto simp: mm_sync_def)
qed

lemma mm_Allocate_law:
  assumes "mm_ok f" "PosixMmapFile_Allocate off len f = (s, f')"
  shows "mm_ok f' \<and> mm_contents f' = mm_contents f"
proof -
  obtain n k where a: "sys_fallocate (mm_fallocate_with_keep_size f) off len (mm_kernel f) = (n, k)" by fastforce
  from sys_fallocate_frame(1,3) [OF a] obtain z where z: "k_open k = k_open (mm_kernel f)" "k_data k = k_data (mm_kernel f) @ z" by blast
  have "f' = f\<lparr>mm_kernel := k\<rparr>" using assms a by (auto simp: PosixMmapFile_Allocate_def mm_ok_def Let_def split: if_splits)
  moreover have "mm_ok (f\<lparr>mm_kernel := k\<rparr>)" using assms(1) z by (auto simp: mm_ok_def)
  moreover have "PosixMmapFile_GetFileSize f \<le> length (k_data (mm_kernel f))"
    using assms(1) by (auto simp: mm_ok_def PosixMmapFile_GetFileSize_def split: if_splits)
  ultimately show ?thesis using z by (simp add: mm_contents_def PosixMmapFile_GetFileSize_def)
qed

interpretation mmap_append: append_file PosixMmapFile_vt mm_contents mm_ok False
proof unfold_locales
  fix f :: PosixMmapFile and off len :: nat and s f' and d :: bytes
  assume ok: "mm_ok f"
  have base: "mm_ok (g\<lparr>mm_base_part := b\<rparr>) = mm_ok g" "mm_contents (g\<lparr>mm_base_part := b\<rparr>) = mm_contents g" for g b
    by (simp_all add: mm_ok_def mm_contents_def PosixMmapFile_GetFileSize_def)
  show "mm_ok (wf_PrepareWrite PosixMmapFile_vt off len f) \<and> mm_contents (wf_PrepareWrite PosixMmapFile_vt off len f) = mm_contents f"
    using ok mm_Allocate_law [OF ok] by (auto simp: PosixMmapFile_vt_def WritableFile_PrepareWrite_def Let_def base split: prod.splits)
  show "\<exists>s f'. wf_Sync PosixMmapFile_vt f = Some (s, f') \<and> mm_ok f' \<and> mm_contents f' = mm_contents f \<and> (False \<longrightarrow> Status_ok s)"
    using mm_sync_law [OF ok] by (auto simp: PosixMmapFile_vt_def PosixMmapFile_Sync_def)
  show "\<exists>s f'. wf_Fsync PosixMmapFile_vt f = Some (s, f') \<and> mm_ok f' \<and> mm_contents f' = mm_contents f \<and> (False \<longrightarrow> Status_ok s)"
    using mm_sync_law [OF ok] by (auto simp: PosixMmapFile_vt_def PosixMmapFile_Fsync_def)
  show "\<exists>s f'. wf_Append PosixMmapFile_vt d f = Some (s, f') \<and> mm_ok f' \<and> (False \<longrightarrow> Status_ok s) \<and>
      (\<exists>k \<le> length d. mm_contents f' = mm_contents f @ take k d \<and> (Status_ok s \<longrightarrow> k = length d))"
    using mm_Append_law [OF ok, of d] by (auto simp: PosixMmapFile_vt_def PosixMmapFile_Append_def)
  show "mm_ok f' \<and> mm_contents f' = mm_contents f \<and> (False \<longrightarrow> Status_ok s)" if "wf_Flush PosixMmapFile_vt f = (s, f')"
    using that ok by (simp add: PosixMmapFile_vt_def PosixMmapFile_Flush_def)
  show "mm_ok f' \<and> mm_contents f' = mm_contents f \<and> (False \<longrightarrow> Status_ok s)" if "wf_RangeSync PosixMmapFile_vt off len f = (s, f')"
    using that ok by (simp add: PosixMmapFile_vt_def)
qed

definition mm_clean :: "PosixMmapFile \<Rightarrow> bool" where
  "mm_clean f \<longleftrightarrow> mm_ok f \<and> mm_tight f \<and> mm_quiet f"

lemma mm_sync_clean:
  assumes "mm_clean f"
  shows "\<exists>f'. mm_sync f = Some (Status_OK, f') \<and> mm_clean f' \<and> mm_contents f' = mm_contents f"
proof -
  let ?k = "mm_kernel f"
  have k: "sys_sync ?k = (0, ?k)" "sys_msync ?k = (0, ?k)"
    using assms by (simp_all add: mm_clean_def mm_ok_def mm_quiet_def sys_sync_def sys_msync_def sys_simple_clean)
  have page: "PosixMmapFile_TruncateToPageBoundary n f = Some (n - n mod mm_page_size f)" for n
    using assms by (intro page_boundary) (simp add: mm_clean_def mm_ok_def)
  have "mm_clean (f\<lparr>mm_last_sync := mm_dst f\<rparr>)" "mm_contents (f\<lparr>mm_last_sync := mm_dst f\<rparr>) = mm_contents f"
    using assms by (auto simp: mm_clean_def mm_ok_def mm_tight_def mm_quiet_def mm_contents_def PosixMmapFile_GetFileSize_def split: if_splits)
  then show ?thesis using assms k by (simp add: mm_sync_def Msync_def page Let_def)
qed

interpretation mmap_clean: append_file PosixMmapFile_vt mm_contents mm_clean True
proof unfold_locales
  fix f :: PosixMmapFile and off len :: nat and s f' and d :: bytes
  assume clean: "mm_clean f"
  then have ok: "mm_ok f" "mm_tight f" "mm_quiet f" by (simp_all add: mm_clean_def)
  show "mm_clean (wf_PrepareWrite PosixMmapFile_vt off len f) \<and> mm_contents (wf_PrepareWrite PosixMmapFile_vt off len f) = mm_contents f"
    using clean by (simp add: PosixMmapFile_vt_def WritableFile_PrepareWrite_def Let_def mm_clean_def mm_quiet_def)
  show "\<exists>s f'. wf_Sync PosixMmapFile_vt f = Some (s, f') \<and> mm_clean f' \<and> mm_contents f' = mm_contents f \<and> (True \<longrightarrow> Status_ok s)"
    using mm_sync_clean [OF clean] by (auto simp: PosixMmapFile_vt_def PosixMmapFile_Sync_def)
  show "\<exists>s f'. wf_Fsync PosixMmapFile_vt f = Some (s, f') \<and> mm_clean f' \<and> mm_contents f' = mm_contents f \<and> (True \<longrightarrow> Status_ok s)"
    using mm_sync_clean [OF clean] by (auto simp: PosixMmapFile_vt_def PosixMmapFile_Fsync_def)
  show "\<exists>s f'. wf_Append PosixMmapFile_vt d f = Some (s, f') \<and> mm_clean f' \<and> (True \<longrightarrow> Status_ok s) \<and>
      (\<exists>k \<le> length d. mm_contents f' = mm_contents f @ take k d \<and> (Status_ok s \<longrightarrow> k = length d))"
    using mm_Append_law [OF ok(1), of d] ok(2,3) by (auto simp: PosixMmapFile_vt_def PosixMmapFile_Append_def mm_clean_def)
  show "mm_clean f' \<and> mm_contents f' = mm_contents f \<and> (True \<longrightarrow> Status_ok s)" if "wf_Flush PosixMmapFile_vt f = (s, f')"
    using that clean by (auto simp: PosixMmapFile_vt_def PosixMmapFile_Flush_def)
  show "mm_clean f' \<and> mm_contents f' = mm_contents f \<and> (True \<longrightarrow> Status_ok s)" if "wf_RangeSync PosixMmapFile_vt off len f = (s, f')"
    using that clean by (auto simp: PosixMmapFile_vt_def)
qed

lemma mmap_buffered_vt: "buffered_vt PosixMmapFile_vt f"
  by (simp add: buffered_vt_def PosixMmapFile_vt_def c_DefaultPageSize_def)

lemma mm_init:
  assumes "k_open k" "k_data k = []" "power_of_two page_size" "0 < at"
  shows "mm_ok (PosixMmapFile_init fname k page_size True keep at)" "mm_contents (PosixMmapFile_init fname k page_size True keep at) = []"
    "mm_tight (PosixMmapFile_init fname k page_size True keep at)"
    "k_script k = [] \<Longrightarrow> mm_clean (PosixMmapFile_init fname k page_size True keep at)"
proof -
  have "0 < PosixMmapFile_Roundup 65536 page_size" using power_of_two_pos [OF assms(3)]
    by (simp add: PosixMmapFile_Roundup_def div_greater_zero_iff)
  then show "mm_ok (PosixMmapFile_init fname k page_size True keep at)" "mm_contents (PosixMmapFile_init fname k page_size True keep at) = []"
    "mm_tight (PosixMmapFile_init fname k page_size True keep at)"
    "k_script k = [] \<Longrightarrow> mm_clean (PosixMmapFile_init fname k page_size True keep at)"
    using assms by (simp_all add: PosixMmapFile_init_def mm_clean_def mm_ok_def mm_tight_def mm_quiet_def mm_contents_def
        PosixMmapFile_GetFileSize_def WritableFile_base_init_def)
qed

subsection \<open>Close\<close>

lemma sys_ftruncate_frame:
  assumes "sys_ftruncate m k = (r, k')" "0 \<le> r" "m \<le> length (k_data k)"
  shows "k_data k' = take m (k_data k)"
proof -
  obtain t k1 where "transfer 0 k = (t, k1)" by (cases "transfer 0 k")
  with assms transfer_frame [OF this] show ?thesis by (cases t) (auto simp: sys_ftruncate_def sys_simple_def)
qed

lemma sys_close_data: "sys_close k = (r, k') \<Longrightarrow> k_data k' = k_data k"
  using sys_id_frame [of k] by (auto simp: sys_close_def split: prod.splits)

lemma Close_data:
  assumes "UnmapCurrentRegion f = (s1, f1)" "PosixMmapFile_Close f = (s, f')" "Status_ok s"
    and "mm_file_offset f1 - (mm_limit f - mm_dst f) \<le> length (k_data (mm_kernel f1))"
  shows "Status_ok s1" "k_data (mm_kernel f') =
    (if mm_limit f - mm_dst f > 0 then take (mm_file_offset f1 - (mm_limit f - mm_dst f)) (k_data (mm_kernel f1))
     else k_data (mm_kernel f1))"
proof -
  let ?u = "mm_limit f - mm_dst f"
  obtain r k where t: "sys_ftruncate (mm_file_offset f1 - ?u) (mm_kernel f1) = (r, k)" by fastforce
  obtain r1 k1 where c1: "sys_close (mm_kernel f1) = (r1, k1)" by fastforce
  obtain r2 k2 where c2: "sys_close k = (r2, k2)" by fastforce
  show ok: "Status_ok s1" using assms(1-3) c1 by (cases "Status_ok s1") (auto simp: PosixMmapFile_Close_def)
  show "k_data (mm_kernel f') = (if ?u > 0 then take (mm_file_offset f1 - ?u) (k_data (mm_kernel f1)) else k_data (mm_kernel f1))"
  proof (cases "?u > 0")
    case True
    have "PosixMmapFile_Close f = (let s = (if r < 0 then IOError (mm_filename f1) k else s1);
        s = (if r2 < 0 \<and> Status_ok s then IOError (mm_filename f1) k2 else s) in (s, f1\<lparr>mm_kernel := k2, mm_base := 0, mm_limit := 0\<rparr>))"
      using True ok assms(1) t c2 by (simp add: PosixMmapFile_Close_def Let_def)
    then have "0 \<le> r" "f' = f1\<lparr>mm_kernel := k2, mm_base := 0, mm_limit := 0\<rparr>"
      using assms(2,3) by (auto simp: Let_def split: if_splits)
    with sys_ftruncate_frame [OF t] sys_close_data [OF c2] assms(4) True show ?thesis by simp
  next
    case False
    then have "f' = f1\<lparr>mm_kernel := k1, mm_base := 0, mm_limit := 0\<rparr>"
      using ok assms(1,2) c1 by (simp add: PosixMmapFile_Close_def Let_def)
    with sys_close_data [OF c1] False show ?thesis by simp
  qed
qed

lemma mm_Close_law:
  assumes "mm_ok f" "mm_tight f" "PosixMmapFile_Close f = (s, f')" "Status_ok s"
  shows "k_data (mm_kernel f') = mm_contents f"
proof -
  obtain s1 f1 where u: "UnmapCurrentRegion f = (s1, f1)" by fastforce
  obtain n k1 where m: "sys_munmap (mm_kernel f) = (n, k1)" by fastforce
  then have k1: "k_data k1 = k_data (mm_kernel f)" using sys_id_frame [of "mm_kernel f" n k1] by (auto simp: sys_munmap_def)
  have data: "k_data (mm_kernel f1) = k_data (mm_kernel f)" using u m k1 by (auto simp: UnmapCurrentRegion_def Let_def split: if_splits)
  have off: "mm_file_offset f1 = (if Status_ok s1 then mm_file_offset f + (mm_limit f - mm_base f) else mm_file_offset f)"
    using u m assms(1) by (auto simp: UnmapCurrentRegion_def Let_def mm_ok_def Status_ok_def Status_IOError_def Status_OK_def split: if_splits)
  have size: "mm_file_offset f + (mm_limit f - mm_base f) - (mm_limit f - mm_dst f) = PosixMmapFile_GetFileSize f"
    "mm_limit f - mm_dst f = 0 \<Longrightarrow> PosixMmapFile_GetFileSize f = length (k_data (mm_kernel f))"
    using assms(1,2) by (auto simp: mm_ok_def mm_tight_def PosixMmapFile_GetFileSize_def split: if_splits)
  have "mm_file_offset f1 - (mm_limit f - mm_dst f) \<le> length (k_data (mm_kernel f1))"
    using assms(2) off data by (auto simp: mm_tight_def split: if_splits)
  from Close_data [OF u assms(3,4) this] size data off show ?thesis by (auto simp: mm_contents_def split: if_splits)
qed

lemma mm_Close_clean:
  assumes "mm_clean f"
  shows "\<exists>f'. PosixMmapFile_Close f = (Status_OK, f')"
proof -
  obtain s f1 where u: "UnmapCurrentRegion f = (s, f1)" by fastforce
  have k: "k_open (mm_kernel f)" "k_script (mm_kernel f) = []" using assms by (simp_all add: mm_clean_def mm_ok_def mm_quiet_def)
  then have "s = Status_OK" "mm_kernel f1 = mm_kernel f"
    using u by (auto simp: UnmapCurrentRegion_def sys_munmap_def sys_simple_clean Let_def split: if_splits)
  then show ?thesis using u k by (simp add: PosixMmapFile_Close_def sys_ftruncate_def sys_close_def sys_simple_clean)
qed

text \<open>A client that appends pieces until one fails.\<close>

fun append_all :: "bytes list \<Rightarrow> PosixMmapFile \<Rightarrow> (Status \<times> PosixMmapFile) option" where
  "append_all [] f = Some (Status_OK, f)"
| "append_all (d # ds) f = do {
     (s, f) \<leftarrow> PosixMmapFile_Append d f;
     if Status_ok s then append_all ds f else Some (s, f)
   }"

lemma append_all_law:
  assumes "mm_ok f"
  shows "\<exists>s f'. append_all ds f = Some (s, f') \<and> mm_ok f' \<and>
    (\<exists>j \<le> length (concat ds). mm_contents f' = mm_contents f @ take j (concat ds) \<and> (Status_ok s \<longrightarrow> j = length (concat ds))) \<and>
    (Status_ok s \<longrightarrow> mm_tight f \<longrightarrow> mm_tight f')"
  using assms
proof (induction ds arbitrary: f)
  case (Cons d ds)
  obtain s f1 j where f1: "PosixMmapFile_Append d f = Some (s, f1)" "mm_ok f1" "j \<le> length d"
      "mm_contents f1 = mm_contents f @ take j d" "Status_ok s \<longrightarrow> j = length d" "Status_ok s \<longrightarrow> mm_tight f \<longrightarrow> mm_tight f1"
    using mm_Append_law [OF Cons.prems, of d] unfolding PosixMmapFile_Append_def by blast
  show ?case
  proof (cases "Status_ok s")
    case False
    then show ?thesis using f1 by (auto intro!: exI [of _ j])
  next
    case True
    from Cons.IH [OF f1(2)] obtain s' f' j' where f': "append_all ds f1 = Some (s', f')" "mm_ok f'" "j' \<le> length (concat ds)"
        "mm_contents f' = mm_contents f1 @ take j' (concat ds)" "Status_ok s' \<longrightarrow> j' = length (concat ds)"
        "Status_ok s' \<longrightarrow> mm_tight f1 \<longrightarrow> mm_tight f'" by blast
    then show ?thesis using f1 True by (auto intro!: exI [of _ "length d + j'"])
  qed
qed auto



text \<open>With \<open>allow_fallocate\<close> off, which the options permit, nothing extends the file before a
  region is mapped: the first \<open>Append\<close> to a new file stores behind the end of the file and the
  process dies of a bus error.\<close>

lemma mmap_append_bus_error:
  assumes "k_open k" "k_script k = []" "k_data k = []" "0 < page_size" "0 < at" "d \<noteq> []"
  shows "PosixMmapFile_Append d (PosixMmapFile_init fname k page_size False keep at) = None"
proof -
  let ?f = "PosixMmapFile_init fname k page_size False keep at"
  let ?m = "PosixMmapFile_Roundup 65536 page_size"
  let ?g = "?f\<lparr>mm_base := at, mm_limit := at + ?m, mm_dst := at, mm_last_sync := at\<rparr>"
  have m: "0 < ?m" using assms(4) by (simp add: PosixMmapFile_Roundup_def div_greater_zero_iff)
  have "mmap_append_loop d ?f = mmap_append_loop d ?g"
    using assms by (subst mmap_append_loop.simps)
      (simp add: PosixMmapFile_init_def UnmapCurrentRegion_def MapNewRegion_def sys_mmap_def sys_simple_clean mmap_memcpy_def mmap_store_def)
  also have "\<dots> = None"
    using assms m by (subst mmap_append_loop.simps)
      (auto simp: PosixMmapFile_init_def mmap_memcpy_def mmap_store_def Roundup_def Let_def)
  finally show ?thesis by (simp add: PosixMmapFile_Append_def)
qed

end
