(* ===== verification/PosixEnv.thy ===== *)
theory PosixEnv
  imports DirectIO MmapFile "HOL-Library.AList"
begin

text \<open>
  \<open>PosixEnv\<close> of \<open>rutil/env_posix.cc\<close> and the functions of \<open>rutil/env.cc\<close> that work on files. The
  operating system's side is the record \<open>fs\<close>: names in the order \<open>readdir\<close> gives them, inodes with
  their bytes, the number of open descriptors, advisory locks by inode and process, \<open>errno\<close> and
  the scripts with the outcomes of the coming calls. A call on a path uses up one event of the
  script: it fails with the error number there, or goes by the state of the file system.
  \<open>PosixEnv\<close> extends this record by its own fields.

  While a file is open its bytes are those of the kernel record of \<open>PosixFile\<close>; they are those of
  the inode again once the file is put back.

  \<open>None\<close> is a failed assertion or a call that does not return.

  Shown: a string written with \<open>WriteStringToFile\<close> is read back by \<open>ReadFileToString\<close>, through
  whichever file class the options and the disk select, with no other file changed;
  \<open>ReadFileToString\<close> returns whatever the device does; what \<open>LockFile\<close> guarantees in one process,
  and how a failed second attempt gives the lock away to another process; which descriptors
  direct I/O leaks.
\<close>

subsection \<open>Error numbers\<close>

definition ENOENT :: nat where "ENOENT = 2"
definition EIO :: nat where "EIO = 5"
definition EAGAIN :: nat where "EAGAIN = 11"
definition ENOMEM :: nat where "ENOMEM = 12"
definition EACCES :: nat where "EACCES = 13"
definition EEXIST :: nat where "EEXIST = 17"
definition EXDEV :: nat where "EXDEV = 18"
definition ENOTDIR :: nat where "ENOTDIR = 20"
definition EISDIR :: nat where "EISDIR = 21"
definition ENAMETOOLONG :: nat where "ENAMETOOLONG = 36"
definition ENOLCK :: nat where "ENOLCK = 37"
definition ENOTEMPTY :: nat where "ENOTEMPTY = 39"
definition ELOOP :: nat where "ELOOP = 40"

lemmas path_errno_values = errno_values ENOENT_def EIO_def EAGAIN_def ENOMEM_def EACCES_def EEXIST_def EXDEV_def
  ENOTDIR_def EISDIR_def ENAMETOOLONG_def ENOLCK_def ENOTEMPTY_def ELOOP_def

subsection \<open>The file system\<close>

type_synonym path = bytes

datatype node = Reg nat | Dir

record fs =
  fs_names :: "(path \<times> node) list"
  fs_inodes :: "nat \<Rightarrow> bytes"
  fs_next_inode :: nat
  fs_flocks :: "nat \<Rightarrow> nat option"
  fs_pid :: nat
  fs_fds :: nat
  fs_errno :: nat
  fs_script :: "sys_event list"
  fs_fread :: "fread_event list"
  fs_strerror :: "nat \<Rightarrow> bytes"

definition fs_parent :: "path \<Rightarrow> path option" where
  "fs_parent p = (case dropWhile (\<lambda>c. c \<noteq> 47) (rev p) of [] \<Rightarrow> None | _ # d \<Rightarrow> Some (rev d))"

text \<open>The entries \<open>.\<close> and \<open>..\<close> of a directory are directories.\<close>

definition fs_dots :: "bytes list" where
  "fs_dots = [[46], [46, 46]]"

definition fs_lookup :: "path \<Rightarrow> 'a fs_scheme \<Rightarrow> node option" where
  "fs_lookup p e =
     (case map_of (fs_names e) p of
        Some n \<Rightarrow> Some n
      | None \<Rightarrow>
          (case fs_parent p of
             None \<Rightarrow> None
           | Some d \<Rightarrow> if map_of (fs_names e) d = Some Dir \<and> drop (Suc (length d)) p \<in> set fs_dots then Some Dir else None))"

definition fs_error :: "nat \<Rightarrow> 'a fs_scheme \<Rightarrow> 'a fs_scheme" where
  "fs_error err e = e\<lparr>fs_errno := err\<rparr>"

text \<open>\<open>IOError(context, errno)\<close>.\<close>

definition fs_IOError :: "bytes \<Rightarrow> 'a fs_scheme \<Rightarrow> Status" where
  "fs_IOError context e =
     (if fs_errno e = ENOSPC then Status_NoSpace context (fs_strerror e (fs_errno e))
      else Status_IOError context (fs_strerror e (fs_errno e)))"

lemma Status_ok_fs_IOError [simp]: "\<not> Status_ok (fs_IOError c e)"
  by (simp add: fs_IOError_def Status_ok_def Status_NoSpace_def Status_IOError_def)

text \<open>The next event: \<open>Some\<close> error number if the call fails without looking at the state.\<close>

definition fs_event :: "'a fs_scheme \<Rightarrow> nat option \<times> 'a fs_scheme" where
  "fs_event e =
     (case fs_script e of
        [] \<Rightarrow> (None, e)
      | Fail err # es \<Rightarrow> (Some err, e\<lparr>fs_script := es, fs_errno := err\<rparr>)
      | _ # es \<Rightarrow> (None, e\<lparr>fs_script := es\<rparr>))"

definition fs_parent_ok :: "path \<Rightarrow> 'a fs_scheme \<Rightarrow> bool" where
  "fs_parent_ok p e = (case fs_parent p of None \<Rightarrow> True | Some d \<Rightarrow> d = [] \<or> fs_lookup d e = Some Dir)"

text \<open>The kernel's side of an inode that is opened, and putting it back.\<close>

definition fs_kernel :: "nat \<Rightarrow> bool \<Rightarrow> 'a fs_scheme \<Rightarrow> kernel" where
  "fs_kernel i app e =
     \<lparr>k_data = fs_inodes e i, k_pos = 0, k_open = True, k_append = app, k_errno = fs_errno e,
      k_script = fs_script e, k_strerror = fs_strerror e\<rparr>"

definition fs_put :: "nat \<Rightarrow> kernel \<Rightarrow> 'a fs_scheme \<Rightarrow> 'a fs_scheme" where
  "fs_put i k e = e\<lparr>fs_inodes := (fs_inodes e)(i := k_data k), fs_errno := k_errno k, fs_script := k_script k\<rparr>"

text \<open>Closing a descriptor of an inode drops the locks the process has on it, whichever descriptor
  they were taken through.\<close>

definition fs_close :: "nat \<Rightarrow> 'a fs_scheme \<Rightarrow> 'a fs_scheme" where
  "fs_close i e = e\<lparr>fs_fds := fs_fds e - 1,
     fs_flocks := (if fs_flocks e i = Some (fs_pid e) then (fs_flocks e)(i := None) else fs_flocks e)\<rparr>"

text \<open>\<open>open\<close>: the inode, or \<open>None\<close> with \<open>errno\<close> set. Directories cannot be opened here: a real system
  lets them be opened for reading and fails the first read, with the same error number.\<close>

definition fs_open :: "bool \<Rightarrow> bool \<Rightarrow> path \<Rightarrow> 'a fs_scheme \<Rightarrow> nat option \<times> 'a fs_scheme" where
  "fs_open creat trunc p e =
     (case fs_event e of
        (Some err, e) \<Rightarrow> (None, e)
      | (None, e) \<Rightarrow>
          (case fs_lookup p e of
             Some Dir \<Rightarrow> (None, fs_error EISDIR e)
           | Some (Reg i) \<Rightarrow>
               (Some i, e\<lparr>fs_fds := Suc (fs_fds e),
                          fs_inodes := (if trunc then (fs_inodes e)(i := []) else fs_inodes e)\<rparr>)
           | None \<Rightarrow>
               if \<not> creat \<or> \<not> fs_parent_ok p e then (None, fs_error ENOENT e)
               else (Some (fs_next_inode e),
                     e\<lparr>fs_fds := Suc (fs_fds e), fs_names := fs_names e @ [(p, Reg (fs_next_inode e))],
                       fs_inodes := (fs_inodes e)(fs_next_inode e := []), fs_next_inode := Suc (fs_next_inode e)\<rparr>)))"

definition sys_unlink :: "path \<Rightarrow> 'a fs_scheme \<Rightarrow> int \<times> 'a fs_scheme" where
  "sys_unlink p e =
     (case fs_event e of
        (Some err, e) \<Rightarrow> (-1, e)
      | (None, e) \<Rightarrow>
          (case fs_lookup p e of
             None \<Rightarrow> (-1, fs_error ENOENT e)
           | Some Dir \<Rightarrow> (-1, fs_error EISDIR e)
           | Some (Reg i) \<Rightarrow> (0, e\<lparr>fs_names := AList.delete p (fs_names e)\<rparr>)))"

definition sys_mkdir :: "path \<Rightarrow> 'a fs_scheme \<Rightarrow> int \<times> 'a fs_scheme" where
  "sys_mkdir p e =
     (case fs_event e of
        (Some err, e) \<Rightarrow> (-1, e)
      | (None, e) \<Rightarrow>
          if fs_lookup p e \<noteq> None then (-1, fs_error EEXIST e)
          else if \<not> fs_parent_ok p e then (-1, fs_error ENOENT e)
          else (0, e\<lparr>fs_names := fs_names e @ [(p, Dir)]\<rparr>))"

text \<open>The names in a directory, as the last components of their paths.\<close>

definition fs_children :: "path \<Rightarrow> 'a fs_scheme \<Rightarrow> bytes list" where
  "fs_children d e = map (\<lambda>(p, _). drop (Suc (length d)) p) (filter (\<lambda>(p, _). fs_parent p = Some d) (fs_names e))"

definition sys_rmdir :: "path \<Rightarrow> 'a fs_scheme \<Rightarrow> int \<times> 'a fs_scheme" where
  "sys_rmdir p e =
     (case fs_event e of
        (Some err, e) \<Rightarrow> (-1, e)
      | (None, e) \<Rightarrow>
          (case fs_lookup p e of
             None \<Rightarrow> (-1, fs_error ENOENT e)
           | Some (Reg i) \<Rightarrow> (-1, fs_error ENOTDIR e)
           | Some Dir \<Rightarrow>
               if fs_children p e \<noteq> [] then (-1, fs_error ENOTEMPTY e)
               else (0, e\<lparr>fs_names := AList.delete p (fs_names e)\<rparr>)))"

text \<open>\<open>rename\<close> of a regular file replaces the target in one step. Renaming directories is not
  used by the library and left out: it fails here.\<close>

definition sys_rename :: "path \<Rightarrow> path \<Rightarrow> 'a fs_scheme \<Rightarrow> int \<times> 'a fs_scheme" where
  "sys_rename src target e =
     (case fs_event e of
        (Some err, e) \<Rightarrow> (-1, e)
      | (None, e) \<Rightarrow>
          (case fs_lookup src e of
             None \<Rightarrow> (-1, fs_error ENOENT e)
           | Some Dir \<Rightarrow> (-1, fs_error EISDIR e)
           | Some (Reg i) \<Rightarrow>
               if fs_lookup target e = Some Dir then (-1, fs_error EISDIR e)
               else if fs_lookup target e = Some (Reg i) then (0, e)
               else if \<not> fs_parent_ok target e then (-1, fs_error ENOENT e)
               else (0, e\<lparr>fs_names := AList.delete target (AList.delete src (fs_names e)) @ [(target, Reg i)]\<rparr>)))"

definition sys_link :: "path \<Rightarrow> path \<Rightarrow> 'a fs_scheme \<Rightarrow> int \<times> 'a fs_scheme" where
  "sys_link src target e =
     (case fs_event e of
        (Some err, e) \<Rightarrow> (-1, e)
      | (None, e) \<Rightarrow>
          (case fs_lookup src e of
             None \<Rightarrow> (-1, fs_error ENOENT e)
           | Some Dir \<Rightarrow> (-1, fs_error EACCES e)
           | Some (Reg i) \<Rightarrow>
               if fs_lookup target e \<noteq> None then (-1, fs_error EEXIST e)
               else if \<not> fs_parent_ok target e then (-1, fs_error ENOENT e)
               else (0, e\<lparr>fs_names := fs_names e @ [(target, Reg i)]\<rparr>)))"

text \<open>\<open>stat\<close>: the kind of the file and its size; a directory has some size, 0 here.\<close>

definition sys_stat :: "path \<Rightarrow> 'a fs_scheme \<Rightarrow> (bool \<times> nat) option \<times> 'a fs_scheme" where
  "sys_stat p e =
     (case fs_event e of
        (Some err, e) \<Rightarrow> (None, e)
      | (None, e) \<Rightarrow>
          (case fs_lookup p e of
             None \<Rightarrow> (None, fs_error ENOENT e)
           | Some Dir \<Rightarrow> (Some (True, 0), e)
           | Some (Reg i) \<Rightarrow> (Some (False, length (fs_inodes e i)), e)))"

definition sys_access :: "path \<Rightarrow> 'a fs_scheme \<Rightarrow> int \<times> 'a fs_scheme" where
  "sys_access p e = (case sys_stat p e of (None, e) \<Rightarrow> (-1, e) | (Some _, e) \<Rightarrow> (0, e))"

text \<open>\<open>fcntl\<close> with \<open>F_SETLK\<close>: a lock another process has is a conflict, one's own is not.\<close>

definition sys_setlk :: "nat \<Rightarrow> bool \<Rightarrow> 'a fs_scheme \<Rightarrow> int \<times> 'a fs_scheme" where
  "sys_setlk i lock e =
     (case fs_event e of
        (Some err, e) \<Rightarrow> (-1, e)
      | (None, e) \<Rightarrow>
          if lock then
            (if fs_flocks e i \<noteq> None \<and> fs_flocks e i \<noteq> Some (fs_pid e) then (-1, fs_error EAGAIN e)
             else (0, e\<lparr>fs_flocks := (fs_flocks e)(i := Some (fs_pid e))\<rparr>))
          else (0, if fs_flocks e i = Some (fs_pid e) then e\<lparr>fs_flocks := (fs_flocks e)(i := None)\<rparr> else e))"

subsection \<open>Options and the environment\<close>

record EnvOptions =
  eo_use_os_buffer :: bool
  eo_use_mmap_reads :: bool
  eo_use_mmap_writes :: bool
  eo_use_direct_reads :: bool
  eo_use_direct_writes :: bool
  eo_allow_fallocate :: bool
  eo_set_fd_cloexec :: bool
  eo_bytes_per_sync :: u64
  eo_fallocate_with_keep_size :: bool
  eo_writable_file_max_buffer_size :: nat

definition EnvOptions_init :: EnvOptions where
  "EnvOptions_init =
     \<lparr>eo_use_os_buffer = True, eo_use_mmap_reads = False, eo_use_mmap_writes = True, eo_use_direct_reads = False,
      eo_use_direct_writes = False, eo_allow_fallocate = True, eo_set_fd_cloexec = True, eo_bytes_per_sync = 0,
      eo_fallocate_with_keep_size = True, eo_writable_file_max_buffer_size = 1024 * 1024\<rparr>"

definition OptimizeForLogWrite :: "EnvOptions \<Rightarrow> EnvOptions" where
  "OptimizeForLogWrite env_options = env_options\<lparr>eo_use_mmap_writes := False, eo_fallocate_with_keep_size := True\<rparr>"

definition OptimizeForManifestWrite :: "EnvOptions \<Rightarrow> EnvOptions" where
  "OptimizeForManifestWrite env_options = env_options\<lparr>eo_use_mmap_writes := False, eo_fallocate_with_keep_size := True\<rparr>"

text \<open>
  \<open>pe_statfs\<close> is the type \<open>statfs\<close> reports for a path, \<open>None\<close> where it fails; \<open>pe_mmap_at\<close> the address
  the next mapping gets. The set \<open>lockedFiles\<close> is a list of its elements.
\<close>

record PosixEnv = fs +
  pe_checkedDiskForMmap :: bool
  pe_forceMmapOff :: bool
  pe_page_size :: nat
  pe_lockedFiles :: "path list"
  pe_statfs :: "path \<Rightarrow> nat option"
  pe_mmap_at :: nat

definition SupportsFastAllocate :: "path \<Rightarrow> PosixEnv \<Rightarrow> bool" where
  "SupportsFastAllocate path e =
     (case pe_statfs e path of
        None \<Rightarrow> False
      | Some f_type \<Rightarrow> f_type = 0xEF53 \<or> f_type = 0x58465342 \<or> f_type = 0x01021994)"

text \<open>The check of the disk, once in the lifetime of the process.\<close>

definition check_disk :: "EnvOptions \<Rightarrow> path \<Rightarrow> PosixEnv \<Rightarrow> PosixEnv" where
  "check_disk options fname e =
     (if eo_use_mmap_writes options \<and> \<not> pe_checkedDiskForMmap e then
        (let e = (if \<not> SupportsFastAllocate fname e then e\<lparr>pe_forceMmapOff := True\<rparr> else e)
         in e\<lparr>pe_checkedDiskForMmap := True\<rparr>)
      else e)"

subsection \<open>Opening files\<close>

datatype SeqFile = SeqPosix PosixSequentialFile | SeqDirect PosixDirectIOSequentialFile
datatype RandFile = RandPosix PosixRandomAccessFile | RandMmap PosixMmapReadableFile | RandDirect PosixRandomAccessFile
datatype WritFile = WritPosix PosixWritableFile | WritMmap PosixMmapFile | WritDirect PosixWritableFile

text \<open>The loops \<open>do ... while (f == nullptr && errno == EINTR)\<close>.\<close>

lemma fs_open_EINTR:
  "fs_open creat trunc p e = (None, e') \<Longrightarrow> fs_errno e' = EINTR \<Longrightarrow> length (fs_script e') < length (fs_script e)"
  by (auto simp: fs_open_def fs_event_def fs_error_def path_errno_values
      split: prod.splits list.splits sys_event.splits option.splits node.splits if_splits)

function open_retry :: "bool \<Rightarrow> bool \<Rightarrow> path \<Rightarrow> PosixEnv \<Rightarrow> nat option \<times> PosixEnv" where
  "open_retry creat trunc fname e =
     (case fs_open creat trunc fname e of
        (None, e) \<Rightarrow> if fs_errno e = EINTR then open_retry creat trunc fname e else (None, e)
      | (Some i, e) \<Rightarrow> (Some i, e))"
  by pat_completeness auto

termination open_retry
  by (relation "measure (\<lambda>(c, t, p, e). length (fs_script e))") (auto dest: fs_open_EINTR [OF sym])

declare open_retry.simps [simp del]

definition NewSequentialFile ::
    "path \<Rightarrow> EnvOptions \<Rightarrow> PosixEnv \<Rightarrow> Status \<times> (nat \<times> SeqFile) option \<times> PosixEnv" where
  "NewSequentialFile fname options e =
     (case open_retry False False fname e of
        (None, e) \<Rightarrow> (fs_IOError fname e, None, e)
      | (Some i, e) \<Rightarrow>
          if eo_use_direct_reads options \<and> \<not> eo_use_mmap_writes options then
            (case fs_open False False fname e of
               (None, e) \<Rightarrow> (fs_IOError fname e, None, e)
             | (Some j, e) \<Rightarrow> (Status_OK, Some (j, SeqDirect (PosixDirectIOSequentialFile_init fname (fs_kernel j False e))), e))
          else (Status_OK, Some (i, SeqPosix (PosixSequentialFile_init fname (fs_kernel i False e) (fs_fread e) (eo_use_os_buffer options))), e))"

definition GetFileSize :: "path \<Rightarrow> 'a fs_scheme \<Rightarrow> Status \<times> nat \<times> 'a fs_scheme" where
  "GetFileSize fname e =
     (case sys_stat fname e of
        (None, e) \<Rightarrow> (fs_IOError fname e, 0, e)
      | (Some (_, n), e) \<Rightarrow> (Status_OK, n, e))"

text \<open>A mapping of no bytes is refused.\<close>

definition sys_mmap_file :: "nat \<Rightarrow> nat \<Rightarrow> 'a fs_scheme \<Rightarrow> bytes option \<times> 'a fs_scheme" where
  "sys_mmap_file i n e =
     (case fs_event e of
        (Some err, e) \<Rightarrow> (None, e)
      | (None, e) \<Rightarrow> if n = 0 then (None, fs_error EINVAL e) else (Some (take n (fs_inodes e i)), e))"

definition NewRandomAccessFile ::
    "path \<Rightarrow> EnvOptions \<Rightarrow> PosixEnv \<Rightarrow> (Status \<times> (nat \<times> RandFile) option \<times> PosixEnv) option" where
  "NewRandomAccessFile fname options e =
     (case fs_open False False fname e of
        (None, e) \<Rightarrow> Some (fs_IOError fname e, None, e)
      | (Some i, e) \<Rightarrow>
          if eo_use_mmap_reads options then
            (case GetFileSize fname e of
               (s, n, e) \<Rightarrow>
                 if Status_ok s then
                   (case sys_mmap_file i n e of
                      (Some base, e) \<Rightarrow>
                        if \<not> eo_use_os_buffer options then None
                        else
                          (let e = fs_close i e
                           in Some (s, Some (i, RandMmap (PosixMmapReadableFile_init ((fs_kernel i False e)\<lparr>k_open := False\<rparr>) fname base)), e))
                    | (None, e) \<Rightarrow> Some (fs_IOError fname e, None, fs_close i e))
                 else Some (s, None, fs_close i e))
          else if eo_use_direct_reads options then
            (case fs_open False False fname e of
               (None, e) \<Rightarrow> Some (fs_IOError fname e, None, e)
             | (Some j, e) \<Rightarrow>
                 Some (Status_OK, Some (j, RandDirect (PosixRandomAccessFile_init fname (fs_kernel j False e) (eo_use_os_buffer EnvOptions_init))), e))
          else Some (Status_OK, Some (i, RandPosix (PosixRandomAccessFile_init fname (fs_kernel i False e) (eo_use_os_buffer options))), e))"

text \<open>The constructors with their assertions.\<close>

definition new_PosixWritableFile :: "path \<Rightarrow> kernel \<Rightarrow> EnvOptions \<Rightarrow> PosixWritableFile option" where
  "new_PosixWritableFile fname k options =
     (if eo_use_mmap_writes options then None
      else Some (PosixWritableFile_init fname k (eo_allow_fallocate options) (eo_fallocate_with_keep_size options)))"

definition new_PosixMmapFile :: "path \<Rightarrow> kernel \<Rightarrow> nat \<Rightarrow> nat \<Rightarrow> EnvOptions \<Rightarrow> PosixMmapFile option" where
  "new_PosixMmapFile fname k page_size at_addr options =
     (if page_size AND (page_size - 1) \<noteq> 0 \<or> \<not> eo_use_mmap_writes options then None
      else Some (PosixMmapFile_init fname k page_size (eo_allow_fallocate options) (eo_fallocate_with_keep_size options) at_addr))"

definition new_PosixDirectIOWritableFile :: "path \<Rightarrow> kernel \<Rightarrow> PosixWritableFile option" where
  "new_PosixDirectIOWritableFile fname k = new_PosixWritableFile fname k EnvOptions_init"

definition NewWritableFile ::
    "path \<Rightarrow> EnvOptions \<Rightarrow> PosixEnv \<Rightarrow> (Status \<times> (nat \<times> WritFile) option \<times> PosixEnv) option" where
  "NewWritableFile fname options e =
     (case open_retry True True fname e of
        (None, e) \<Rightarrow> Some (fs_IOError fname e, None, e)
      | (Some i, e) \<Rightarrow>
          (let e = check_disk options fname e
           in if eo_use_mmap_writes options \<and> \<not> pe_forceMmapOff e then do {
                f \<leftarrow> new_PosixMmapFile fname (fs_kernel i False e) (pe_page_size e) (pe_mmap_at e) options;
                Some (Status_OK, Some (i, WritMmap f), e)
              }
              else if eo_use_direct_writes options then
                (case fs_open True True fname e of
                   (None, e) \<Rightarrow> Some (fs_IOError fname e, None, e)
                 | (Some j, e) \<Rightarrow> do {
                     f \<leftarrow> new_PosixDirectIOWritableFile fname (fs_kernel j True e);
                     Some (Status_OK, Some (j, WritDirect f), e)
                   })
              else do {
                f \<leftarrow> new_PosixWritableFile fname (fs_kernel i False e) (options\<lparr>eo_use_mmap_writes := False\<rparr>);
                Some (Status_OK, Some (i, WritPosix f), e)
              }))"

definition PosixEnv_ReuseWritableFile ::
    "path \<Rightarrow> path \<Rightarrow> EnvOptions \<Rightarrow> PosixEnv \<Rightarrow> (Status \<times> (nat \<times> WritFile) option \<times> PosixEnv) option" where
  "PosixEnv_ReuseWritableFile fname old_fname options e =
     (case open_retry False False old_fname e of
        (None, e) \<Rightarrow> Some (fs_IOError fname e, None, e)
      | (Some i, e) \<Rightarrow>
          (case sys_rename old_fname fname e of
             (r, e) \<Rightarrow>
               if r \<noteq> 0 then Some (fs_IOError old_fname e, None, fs_close i e)
               else
                 (let e = check_disk options fname e
                  in if eo_use_mmap_writes options \<and> \<not> pe_forceMmapOff e then do {
                       f \<leftarrow> new_PosixMmapFile fname (fs_kernel i False e) (pe_page_size e) (pe_mmap_at e) options;
                       Some (Status_OK, Some (i, WritMmap f), e)
                     }
                     else do {
                       f \<leftarrow> new_PosixWritableFile fname (fs_kernel i False e) (options\<lparr>eo_use_mmap_writes := False\<rparr>);
                       Some (Status_OK, Some (i, WritPosix f), e)
                     })))"

subsection \<open>Names and directories\<close>

text \<open>The shape of the functions that make one call and turn its failure into an \<open>IOError\<close>.\<close>

definition fs_checked :: "bytes \<Rightarrow> int \<times> 'a fs_scheme \<Rightarrow> Status \<times> 'a fs_scheme" where
  "fs_checked context r = (if fst r \<noteq> 0 then (fs_IOError context (snd r), snd r) else (Status_OK, snd r))"

text \<open>A directory is opened here; \<open>PosixDirectory\<close> keeps the descriptor only.\<close>

definition NewDirectory :: "path \<Rightarrow> 'a fs_scheme \<Rightarrow> Status \<times> bool \<times> 'a fs_scheme" where
  "NewDirectory name e =
     (case sys_stat name e of
        (None, e) \<Rightarrow> (fs_IOError name e, False, e)
      | (Some _, e) \<Rightarrow> (Status_OK, True, e\<lparr>fs_fds := Suc (fs_fds e)\<rparr>))"

text \<open>\<open>access\<close> returns 0 or -1; the assertion and the message use this number where the error
  number is meant.\<close>

definition FileExists :: "path \<Rightarrow> 'a fs_scheme \<Rightarrow> (Status \<times> 'a fs_scheme) option" where
  "FileExists fname e =
     (case sys_access fname e of
        (result, e) \<Rightarrow>
          if result = 0 then Some (Status_OK, e)
          else if fs_errno e \<in> {EACCES, ELOOP, ENAMETOOLONG, ENOENT, ENOTDIR} then Some (Status_NotFound_sub kNone, e)
          else if result = int EIO \<or> result = int ENOMEM
               then Some (Status_IOError (cstr ''Unexpected error('' @ cstr ''-1'' @ cstr '') accessing file `'' @ fname @ [39, 32]) [], e)
          else None)"

definition GetChildren :: "path \<Rightarrow> 'a fs_scheme \<Rightarrow> Status \<times> bytes list \<times> 'a fs_scheme" where
  "GetChildren dir e =
     (case sys_stat dir e of
        (None, e) \<Rightarrow> (fs_IOError dir e, [], e)
      | (Some (False, _), e) \<Rightarrow> (let e = fs_error ENOTDIR e in (fs_IOError dir e, [], e))
      | (Some (True, _), e) \<Rightarrow> (Status_OK, fs_dots @ fs_children dir e, e))"

definition DeleteFile :: "path \<Rightarrow> 'a fs_scheme \<Rightarrow> Status \<times> 'a fs_scheme" where
  "DeleteFile fname e = fs_checked fname (sys_unlink fname e)"

definition CreateDir :: "path \<Rightarrow> 'a fs_scheme \<Rightarrow> Status \<times> 'a fs_scheme" where
  "CreateDir name e = fs_checked name (sys_mkdir name e)"

definition DirExists :: "path \<Rightarrow> 'a fs_scheme \<Rightarrow> bool \<times> 'a fs_scheme" where
  "DirExists dname e = (case sys_stat dname e of (Some (d, _), e) \<Rightarrow> (d, e) | (None, e) \<Rightarrow> (False, e))"

definition CreateDirIfMissing :: "path \<Rightarrow> 'a fs_scheme \<Rightarrow> Status \<times> 'a fs_scheme" where
  "CreateDirIfMissing name e =
     (case sys_mkdir name e of
        (r, e) \<Rightarrow>
          if r \<noteq> 0 then
            (if fs_errno e \<noteq> EEXIST then (fs_IOError name e, e)
             else (case DirExists name e of
                     (d, e) \<Rightarrow>
                       (if \<not> d then Status_IOError (cstr ''`'' @ name @ [39] @ cstr '' exists but is not a directory'') []
                        else Status_OK, e)))
          else (Status_OK, e))"

definition DeleteDir :: "path \<Rightarrow> 'a fs_scheme \<Rightarrow> Status \<times> 'a fs_scheme" where
  "DeleteDir name e = fs_checked name (sys_rmdir name e)"

definition RenameFile :: "path \<Rightarrow> path \<Rightarrow> 'a fs_scheme \<Rightarrow> Status \<times> 'a fs_scheme" where
  "RenameFile src target e = fs_checked src (sys_rename src target e)"

definition LinkFile :: "path \<Rightarrow> path \<Rightarrow> 'a fs_scheme \<Rightarrow> Status \<times> 'a fs_scheme" where
  "LinkFile src target e =
     (case sys_link src target e of
        (r, e) \<Rightarrow>
          if r \<noteq> 0 then
            (if fs_errno e = EXDEV then (Status_NotSupported (cstr ''No cross FS links allowed'') [], e)
             else (fs_IOError src e, e))
          else (Status_OK, e))"

text \<open>\<open>cwd\<close> is what \<open>getcwd\<close> puts into the buffer, or its error number.\<close>

definition GetAbsolutePath :: "nat + path \<Rightarrow> path \<Rightarrow> 'a fs_scheme \<Rightarrow> Status \<times> path option" where
  "GetAbsolutePath cwd db_path e =
     (if db_path \<noteq> [] \<and> hd db_path = 47 then (Status_OK, Some db_path)
      else (case cwd of
              Inl err \<Rightarrow> (Status_IOError (fs_strerror e err) [], None)
            | Inr ret \<Rightarrow> (Status_OK, Some ret)))"

subsection \<open>File locks\<close>

definition LockOrUnlock :: "path \<Rightarrow> nat \<Rightarrow> bool \<Rightarrow> PosixEnv \<Rightarrow> int \<times> PosixEnv" where
  "LockOrUnlock fname fd lock e =
     (if lock \<and> fname \<in> set (pe_lockedFiles e) then (-1, fs_error ENOLCK e)
      else if \<not> lock \<and> fname \<notin> set (pe_lockedFiles e) then (-1, fs_error ENOLCK e)
      else
        (let e = e\<lparr>pe_lockedFiles := (if lock then fname # pe_lockedFiles e else removeAll fname (pe_lockedFiles e)), fs_errno := 0\<rparr>
         in case sys_setlk fd lock e of
              (v, e) \<Rightarrow> (v, if v = -1 \<and> lock then e\<lparr>pe_lockedFiles := removeAll fname (pe_lockedFiles e)\<rparr> else e)))"

record PosixFileLock =
  pl_inode :: nat
  pl_filename :: path

definition LockFile :: "path \<Rightarrow> PosixEnv \<Rightarrow> Status \<times> PosixFileLock option \<times> PosixEnv" where
  "LockFile fname e =
     (case fs_open True False fname e of
        (None, e) \<Rightarrow> (fs_IOError fname e, None, e)
      | (Some fd, e) \<Rightarrow>
          (case LockOrUnlock fname fd True e of
             (v, e) \<Rightarrow>
               if v = -1 then (fs_IOError (cstr ''lock '' @ fname) e, None, fs_close fd e)
               else (Status_OK, Some \<lparr>pl_inode = fd, pl_filename = fname\<rparr>, e)))"

definition UnlockFile :: "PosixFileLock \<Rightarrow> PosixEnv \<Rightarrow> Status \<times> PosixEnv" where
  "UnlockFile my_lock e =
     (case LockOrUnlock (pl_filename my_lock) (pl_inode my_lock) False e of
        (v, e) \<Rightarrow> (if v = -1 then fs_IOError (cstr ''unlock'') e else Status_OK, fs_close (pl_inode my_lock) e))"

subsection \<open>Functions of Env over the virtual functions\<close>

definition Env_ReuseWritableFile ::
    "path \<Rightarrow> path \<Rightarrow> EnvOptions \<Rightarrow> PosixEnv \<Rightarrow> (Status \<times> (nat \<times> WritFile) option \<times> PosixEnv) option" where
  "Env_ReuseWritableFile fname old_fname options e =
     (case RenameFile old_fname fname e of
        (s, e) \<Rightarrow> if \<not> Status_ok s then Some (s, None, e) else NewWritableFile fname options e)"

text \<open>The entries of the result with their sizes so far, in \<open>acc\<close>. After an error the vector also has
  entries behind these, with no names.\<close>

fun file_attributes_loop ::
    "path \<Rightarrow> bytes list \<Rightarrow> (bytes \<times> nat) list \<Rightarrow> 'a fs_scheme \<Rightarrow> (Status \<times> (bytes \<times> nat) list \<times> 'a fs_scheme) option" where
  "file_attributes_loop dir [] acc e = Some (Status_OK, acc, e)"
| "file_attributes_loop dir (child # children) acc e =
     (let path = dir @ [47] @ child
      in case GetFileSize path e of
           (s, n, e) \<Rightarrow>
             if \<not> Status_ok s then do {
               (t, e) \<leftarrow> FileExists path e;
               if IsNotFound t then file_attributes_loop dir children acc e else Some (s, acc, e)
             }
             else file_attributes_loop dir children (acc @ [(child, n)]) e)"

definition GetChildrenFileAttributes ::
    "path \<Rightarrow> 'a fs_scheme \<Rightarrow> (Status \<times> (bytes \<times> nat) list \<times> 'a fs_scheme) option" where
  "GetChildrenFileAttributes dir e =
     (case GetChildren dir e of
        (s, children, e) \<Rightarrow> if \<not> Status_ok s then Some (s, [], e) else file_attributes_loop dir children [] e)"

text \<open>Calls on a file through the pointer to its base class. The kernel records of the files and of
  the file system share the script and \<open>errno\<close>: they are handed over when the control moves.\<close>

fun writ_kernel :: "WritFile \<Rightarrow> kernel" where
  "writ_kernel (WritPosix f) = pw_kernel f"
| "writ_kernel (WritMmap f) = mm_kernel f"
| "writ_kernel (WritDirect f) = pw_kernel f"

fun writ_set_kernel :: "(kernel \<Rightarrow> kernel) \<Rightarrow> WritFile \<Rightarrow> WritFile" where
  "writ_set_kernel g (WritPosix f) = WritPosix (f\<lparr>pw_kernel := g (pw_kernel f)\<rparr>)"
| "writ_set_kernel g (WritMmap f) = WritMmap (f\<lparr>mm_kernel := g (mm_kernel f)\<rparr>)"
| "writ_set_kernel g (WritDirect f) = WritDirect (f\<lparr>pw_kernel := g (pw_kernel f)\<rparr>)"

fun writ_Append :: "bool \<Rightarrow> slice \<Rightarrow> WritFile \<Rightarrow> (Status \<times> WritFile) option" where
  "writ_Append page_aligned d (WritPosix f) = (case PosixWritableFile_Append d f of (s, f) \<Rightarrow> Some (s, WritPosix f))"
| "writ_Append page_aligned d (WritMmap f) = (case PosixMmapFile_Append d f of None \<Rightarrow> None | Some (s, f) \<Rightarrow> Some (s, WritMmap f))"
| "writ_Append page_aligned d (WritDirect f) =
     (case PosixDirectIOWritableFile_Append page_aligned d f of None \<Rightarrow> None | Some (s, f) \<Rightarrow> Some (s, WritDirect f))"

fun writ_Sync :: "WritFile \<Rightarrow> (Status \<times> WritFile) option" where
  "writ_Sync (WritPosix f) = (case PosixWritableFile_Sync f of (s, f) \<Rightarrow> Some (s, WritPosix f))"
| "writ_Sync (WritMmap f) = (case PosixMmapFile_Sync f of None \<Rightarrow> None | Some (s, f) \<Rightarrow> Some (s, WritMmap f))"
| "writ_Sync (WritDirect f) = (case PosixWritableFile_Sync f of (s, f) \<Rightarrow> Some (s, WritDirect f))"

text \<open>The destructors close a file that is still open.\<close>

fun writ_destroy :: "WritFile \<Rightarrow> WritFile" where
  "writ_destroy (WritPosix f) = (if k_open (pw_kernel f) then WritPosix (snd (PosixWritableFile_Close f)) else WritPosix f)"
| "writ_destroy (WritMmap f) = (if k_open (mm_kernel f) then WritMmap (snd (PosixMmapFile_Close f)) else WritMmap f)"
| "writ_destroy (WritDirect f) = (if k_open (pw_kernel f) then WritDirect (snd (PosixWritableFile_Close f)) else WritDirect f)"

definition release_file :: "nat \<Rightarrow> WritFile \<Rightarrow> PosixEnv \<Rightarrow> PosixEnv" where
  "release_file i f e =
     (let f = writ_destroy (writ_set_kernel (\<lambda>k. k\<lparr>k_script := fs_script e, k_errno := fs_errno e\<rparr>) f)
      in fs_close i (fs_put i (writ_kernel f) e))"

text \<open>\<open>page_aligned\<close> is the test of the direct I/O file on the address of the data.\<close>

definition WriteStringToFile :: "bool \<Rightarrow> slice \<Rightarrow> path \<Rightarrow> bool \<Rightarrow> PosixEnv \<Rightarrow> (Status \<times> PosixEnv) option" where
  "WriteStringToFile page_aligned data fname should_sync e = do {
     (s, file', e) \<leftarrow> NewWritableFile fname EnvOptions_init e;
     case file' of
       None \<Rightarrow> Some (s, e)
     | Some (i, f) \<Rightarrow> do {
         (s, f) \<leftarrow> writ_Append page_aligned data f;
         (s, f) \<leftarrow> (if Status_ok s \<and> should_sync then writ_Sync f else Some (s, f));
         let e = fs_put i (writ_kernel f) e;
         let e = (if \<not> Status_ok s then snd (DeleteFile fname e) else e);
         Some (s, release_file i f e)
       }
   }"

definition kBufferSize :: nat where
  "kBufferSize = 8192"

partial_function (option) read_file_loop ::
    "(nat \<Rightarrow> 'f \<Rightarrow> (Status \<times> slice \<times> 'f) option) \<Rightarrow> bytes \<Rightarrow> 'f \<Rightarrow> (Status \<times> bytes \<times> 'f) option" where
  "read_file_loop read data f = do {
     (s, fragment, f) \<leftarrow> read kBufferSize f;
     if \<not> Status_ok s then Some (s, data, f)
     else (let data = data @ fragment
           in if Slice_empty fragment then Some (s, data, f) else read_file_loop read data f)
   }"

text \<open>The options are the default ones, which do not select direct reads: lemma
  \<open>NewSequentialFile_default\<close>. The destructor closes the stream.\<close>

definition ReadFileToString :: "path \<Rightarrow> PosixEnv \<Rightarrow> (Status \<times> bytes \<times> PosixEnv) option" where
  "ReadFileToString fname e =
     (case NewSequentialFile fname EnvOptions_init e of
        (s, Some (i, SeqPosix f), e) \<Rightarrow> do {
          (s, data, f) \<leftarrow> read_file_loop PosixSequentialFile_Read [] f;
          Some (s, data, fs_close i ((fs_put i (ps_kernel f) e)\<lparr>fs_fread := ps_fscript f\<rparr>))
        }
      | (s, Some (i, SeqDirect f), e) \<Rightarrow> None
      | (s, None, e) \<Rightarrow> Some (s, [], e))"

subsection \<open>Reading a file to its end\<close>

context finite_file
begin

text \<open>The loop ends whatever the file does: every successful read uses up what it returns.\<close>

lemma read_file_returns:
  assumes "sound f"
  shows "\<exists>s d f'. read_file_loop (sf_Read svt) data f = Some (s, d, f')"
  using assms
proof (induction "left f" arbitrary: f data rule: less_induct)
  case less
  from Read_finite [OF less.prems, of kBufferSize] obtain s d f' where
    r: "sf_Read svt kBufferSize f = Some (s, d, f')" and fin: "sound f'" "Status_ok s \<longrightarrow> length d + left f' \<le> left f" by blast
  show ?case
  proof (cases "Status_ok s \<and> \<not> Slice_empty d")
    case True
    then have "left f' < left f" using fin by (cases d) (auto simp: Slice_empty_def Slice_size_def)
    then show ?thesis using less.hyps [of f' "data @ d"] fin True r
      by (subst read_file_loop.simps) simp
  qed (use r in \<open>auto simp: read_file_loop.simps [of "sf_Read svt" data f]\<close>)
qed

end

context sequential_file
begin

lemma read_file_contents:
  assumes "sound f"
  shows "\<exists>s f'. read_file_loop (sf_Read svt) data f = Some (s, data @ remaining f, f') \<and> Status_ok s \<and> sound f'"
  using assms
proof (induction "length (remaining f)" arbitrary: f data rule: less_induct)
  case less
  obtain s f' where r: "sf_Read svt kBufferSize f = Some (s, take kBufferSize (remaining f), f')" "Status_ok s" "sound f'"
      "remaining f' = drop kBufferSize (remaining f)" using Read_law [OF less.prems, of kBufferSize] by blast
  show ?case
  proof (cases "remaining f = []")
    case True
    then show ?thesis using r less.prems by (subst read_file_loop.simps) (simp add: Slice_empty_def Slice_size_def)
  next
    case False
    then have "length (remaining f') < length (remaining f)" using r(4) by (simp add: kBufferSize_def)
    from less.hyps [OF this r(3), of "data @ take kBufferSize (remaining f)"] show ?thesis
      using r False
      by (subst read_file_loop.simps) (auto simp: Slice_empty_def Slice_size_def kBufferSize_def)
  qed
qed

end

text \<open>A property of the file that every read keeps is kept by the loop.\<close>

lemma read_file_loop_keeps:
  assumes "read_file_loop rd data f = Some r" "\<And>n f s d f'. P f \<Longrightarrow> rd n f = Some (s, d, f') \<Longrightarrow> P f'" "P f"
  shows "P (snd (snd r))"
  using assms
proof (induction rd data f r rule: read_file_loop.raw_induct [rotated 1, consumes 1])
  case (1 loop rd data f r)
  from 1(2) obtain s d f' where rd: "rd kBufferSize f = Some (s, d, f')" by (auto simp: bind_eq_Some_conv)
  then have "P f'" using 1(3,4) by blast
  moreover have "loop rd (data @ d) f' = Some r \<Longrightarrow> P (snd (snd r))" using 1(1,3) \<open>P f'\<close> by blast
  ultimately show ?case using 1(2) rd by (auto simp: Let_def split: if_splits)
qed

lemma fread_retry_data:
  assumes "fread_retry n f = Some r"
  shows "k_data (ps_kernel (snd r)) = k_data (ps_kernel f) \<and> k_script (ps_kernel (snd r)) = k_script (ps_kernel f) \<and>
    ps_use_os_buffer (snd r) = ps_use_os_buffer f"
  using assms
proof (induction n f r rule: fread_retry.raw_induct [rotated 1, consumes 1])
  case (1 loop n f r)
  obtain d f' where f': "fread_unlocked n f = (d, f')" by (cases "fread_unlocked n f")
  then have same: "k_data (ps_kernel f') = k_data (ps_kernel f)" "k_script (ps_kernel f') = k_script (ps_kernel f)"
    "ps_use_os_buffer f' = ps_use_os_buffer f"
    by (auto simp: fread_unlocked_def Let_def split: list.splits fread_event.splits)
  have "loop n f' = Some r \<or> Some (d, f') = Some r" using 1(2) unfolding f' by (simp split: if_splits)
  then show ?case using 1(1) [of n f' r] same by auto
qed

lemma Read_data:
  assumes "PosixSequentialFile_Read n f = Some (s, d, f')" "ps_use_os_buffer f"
  shows "k_data (ps_kernel f') = k_data (ps_kernel f) \<and> k_script (ps_kernel f') = k_script (ps_kernel f) \<and> ps_use_os_buffer f'"
proof -
  obtain r where r: "fread_retry n f = Some r" using assms by (cases "fread_retry n f") (auto simp: PosixSequentialFile_Read_def)
  from fread_retry_data [OF r] assms r show ?thesis
    by (cases r) (auto simp: PosixSequentialFile_Read_def Let_def split: if_splits)
qed

subsection \<open>Opening without failures\<close>

lemma fs_event_quiet: "fs_script e = [] \<Longrightarrow> fs_event e = (None, e)"
  by (simp add: fs_event_def)

lemma open_existing:
  assumes "fs_script e = []" "fs_lookup p e = Some (Reg i)"
  shows "open_retry creat trunc p e = (Some i, e\<lparr>fs_fds := Suc (fs_fds e),
           fs_inodes := (if trunc then (fs_inodes e)(i := []) else fs_inodes e)\<rparr>)"
  using assms by (subst open_retry.simps) (simp add: fs_open_def fs_event_quiet)

lemma open_new:
  assumes "fs_script e = []" "fs_lookup p e = None" "fs_parent_ok p e"
  shows "open_retry True trunc p e = (Some (fs_next_inode e), e\<lparr>fs_fds := Suc (fs_fds e),
           fs_names := fs_names e @ [(p, Reg (fs_next_inode e))],
           fs_inodes := (fs_inodes e)(fs_next_inode e := []), fs_next_inode := Suc (fs_next_inode e)\<rparr>)"
  using assms by (subst open_retry.simps) (simp add: fs_open_def fs_event_quiet)

lemma fs_lookup_new:
  assumes "fs_lookup p e = None"
  shows "fs_lookup q (e\<lparr>fs_fds := n, fs_names := fs_names e @ [(p, Reg i)], fs_inodes := f, fs_next_inode := m\<rparr>) =
    (if q = p then Some (Reg i) else fs_lookup q e)"
proof -
  have p: "map_of (fs_names e) p = None" using assms by (simp add: fs_lookup_def split: option.splits)
  have "[p \<mapsto> Reg i] ++ map_of (fs_names e) = (map_of (fs_names e))(p \<mapsto> Reg i)"
    using p by (auto simp: fun_eq_iff map_add_def split: option.splits)
  then show ?thesis using p by (simp add: fs_lookup_def split: option.split)
qed

lemma NewSequentialFile_default:
  "NewSequentialFile fname EnvOptions_init e =
     (case open_retry False False fname e of
        (None, e) \<Rightarrow> (fs_IOError fname e, None, e)
      | (Some i, e) \<Rightarrow> (Status_OK, Some (i, SeqPosix (PosixSequentialFile_init fname (fs_kernel i False e) (fs_fread e) True)), e))"
  by (simp add: NewSequentialFile_def EnvOptions_init_def split: prod.splits option.splits)

subsection \<open>Writing without failures\<close>

text \<open>An open file that holds \<open>d\<close>, was not preallocated, and sees no failures.\<close>

fun writ_holds :: "bytes \<Rightarrow> WritFile \<Rightarrow> bool" where
  "writ_holds d (WritPosix f) \<longleftrightarrow> k_open (pw_kernel f) \<and> k_script (pw_kernel f) = [] \<and> \<not> k_append (pw_kernel f) \<and>
     k_data (pw_kernel f) = d \<and> k_pos (pw_kernel f) = length d \<and> wb_last_preallocated_block (pw_base f) = 0"
| "writ_holds d (WritMmap f) \<longleftrightarrow> mm_clean f \<and> mm_contents f = d"
| "writ_holds d (WritDirect f) \<longleftrightarrow> False"

lemma write_loop_end:
  assumes "k_open k" "k_script k = []" "\<not> k_append k" "k_pos k = length (k_data k)"
  shows "write_loop fname src k = (Status_OK, k\<lparr>k_data := k_data k @ src, k_pos := length (k_data k @ src)\<rparr>)"
  using assms
  by (cases "src = []")
    (simp_all add: write_loop.simps [of fname src k] write_loop.simps [of fname "[]"] sys_write_def transfer_clean write_at_def overwrite_def Let_def)

lemma writ_Append_holds:
  assumes "writ_holds d0 f"
  shows "\<exists>s f'. writ_Append page_aligned d f = Some (s, f') \<and> Status_ok s \<and> writ_holds (d0 @ d) f'"
proof (cases f)
  case (WritPosix g)
  then show ?thesis using assms by (simp add: PosixWritableFile_Append_def write_loop_end)
next
  case (WritMmap g)
  then have g: "mm_ok g" "mm_tight g" "mm_quiet g" "mm_contents g = d0" using assms by (simp_all add: mm_clean_def)
  obtain s f' j where a: "mmap_append_loop d g = Some (s, f')" "mm_ok f'" "mm_contents f' = mm_contents g @ take j d" "Status_ok s \<longrightarrow> j = length d"
      "Status_ok s \<longrightarrow> mm_tight g \<longrightarrow> mm_tight f'" "mm_quiet g \<longrightarrow> Status_ok s \<and> mm_quiet f'"
    using mm_Append_law [OF g(1), of d] by blast
  then show ?thesis using WritMmap g by (simp add: PosixMmapFile_Append_def mm_clean_def)
qed (use assms in simp)

lemma writ_Sync_holds:
  assumes "writ_holds d f"
  shows "\<exists>s f'. writ_Sync f = Some (s, f') \<and> Status_ok s \<and> writ_holds d f'"
proof (cases f)
  case (WritPosix g)
  then show ?thesis using assms by (simp add: PosixWritableFile_Sync_def checked_def sys_sync_def sys_simple_clean)
next
  case (WritMmap g)
  then show ?thesis using assms mm_sync_clean [of g] by (auto simp: PosixMmapFile_Sync_def)
qed (use assms in simp)

lemma mm_Close_script:
  assumes "mm_clean f"
  shows "k_script (mm_kernel (snd (PosixMmapFile_Close f))) = []"
proof -
  obtain s f1 where u: "UnmapCurrentRegion f = (s, f1)" by fastforce
  have k: "k_open (mm_kernel f)" "k_script (mm_kernel f) = []" using assms by (simp_all add: mm_clean_def mm_ok_def mm_quiet_def)
  then have "s = Status_OK" "mm_kernel f1 = mm_kernel f"
    using u by (auto simp: UnmapCurrentRegion_def sys_munmap_def sys_simple_clean Let_def split: if_splits)
  then show ?thesis using u k by (simp add: PosixMmapFile_Close_def sys_ftruncate_def sys_close_def sys_simple_clean)
qed

lemma writ_destroy_holds:
  assumes "writ_holds d f"
  shows "k_data (writ_kernel (writ_destroy f)) = d \<and> k_script (writ_kernel (writ_destroy f)) = []"
proof (cases f)
  case (WritPosix g)
  then show ?thesis using assms
    by (simp add: PosixWritableFile_Close_def GetPreallocationStatus_def checked_def sys_close_def sys_simple_clean)
next
  case (WritMmap g)
  then have g: "mm_clean g" "mm_contents g = d" using assms by simp_all
  obtain g' where c: "PosixMmapFile_Close g = (Status_OK, g')" using mm_Close_clean [OF g(1)] by blast
  have "k_data (mm_kernel g') = d" using mm_Close_law [OF _ _ c] g by (simp add: mm_clean_def)
  then show ?thesis using WritMmap c mm_Close_script [OF g(1)] g by (simp add: mm_clean_def mm_ok_def)
qed (use assms in simp)

lemma writ_set_kernel_holds:
  "writ_holds d f \<Longrightarrow> writ_holds d (writ_set_kernel (\<lambda>k. k\<lparr>k_script := [], k_errno := x\<rparr>) f)"
  by (cases f) (simp_all add: mm_clean_def mm_ok_def mm_tight_def mm_quiet_def mm_contents_def PosixMmapFile_GetFileSize_def)

lemma writ_holds_script: "writ_holds d f \<Longrightarrow> k_script (writ_kernel f) = []"
  by (cases f) (simp_all add: mm_clean_def mm_quiet_def)

lemma release_holds:
  assumes "writ_holds d f" "fs_script e = []"
  shows "\<exists>x. release_file i f e = fs_close i (e\<lparr>fs_inodes := (fs_inodes e)(i := d), fs_errno := x, fs_script := []\<rparr>)"
  using writ_destroy_holds [OF writ_set_kernel_holds [OF assms(1), of "fs_errno e"]] assms(2)
  by (auto simp: release_file_def fs_put_def Let_def)

lemma fs_lookup_names: "fs_names e = fs_names e' \<Longrightarrow> fs_lookup p e = fs_lookup p e'"
  by (simp add: fs_lookup_def split: option.split)

lemma open_for_writing:
  assumes "fs_script e = []" "fs_lookup fname e \<noteq> Some Dir" "fs_lookup fname e = None \<longrightarrow> fs_parent_ok fname e"
  shows "\<exists>i e1. open_retry True True fname e = (Some i, e1) \<and> fs_script e1 = [] \<and> fs_fread e1 = fs_fread e \<and>
    fs_fds e1 = Suc (fs_fds e) \<and> fs_inodes e1 = (fs_inodes e)(i := []) \<and>
    (\<forall>p. fs_lookup p e1 = (if p = fname then Some (Reg i) else fs_lookup p e)) \<and>
    pe_page_size e1 = pe_page_size e \<and> pe_mmap_at e1 = pe_mmap_at e"
proof (cases "fs_lookup fname e")
  case None
  then show ?thesis using assms open_new [of e fname True] by (simp add: fs_lookup_new)
next
  case (Some n)
  then obtain i where i: "fs_lookup fname e = Some (Reg i)" using assms(2) by (cases n) auto
  then have "fs_lookup p (e\<lparr>fs_fds := x, fs_inodes := y\<rparr>) = (if p = fname then Some (Reg i) else fs_lookup p e)" for p x y
    using fs_lookup_names [of "e\<lparr>fs_fds := x, fs_inodes := y\<rparr>" e] by simp
  then show ?thesis using open_existing [OF assms(1) i, of True True] assms(1) by simp
qed

lemma check_disk_frame:
  "fs_script (check_disk options p e) = fs_script e" "fs_fread (check_disk options p e) = fs_fread e"
  "fs_fds (check_disk options p e) = fs_fds e" "fs_inodes (check_disk options p e) = fs_inodes e"
  "fs_names (check_disk options p e) = fs_names e" "pe_page_size (check_disk options p e) = pe_page_size e"
  "pe_mmap_at (check_disk options p e) = pe_mmap_at e"
  by (simp_all add: check_disk_def Let_def)

lemma power_of_two_mask: "power_of_two n \<Longrightarrow> n AND (n - 1) = 0"
  using nat_and_mask by (auto simp: power_of_two_def)

lemma EnvOptions_init_fields:
  "eo_use_mmap_writes EnvOptions_init" "\<not> eo_use_mmap_reads EnvOptions_init" "\<not> eo_use_direct_writes EnvOptions_init"
  "\<not> eo_use_direct_reads EnvOptions_init" "eo_allow_fallocate EnvOptions_init" "eo_fallocate_with_keep_size EnvOptions_init"
  by (simp_all add: EnvOptions_init_def)

text \<open>With the default options a file is opened for mapped writing or, where the disk does not
  support it, for plain writing.\<close>

lemma NewWritableFile_default:
  assumes "fs_script e = []" "fs_lookup fname e \<noteq> Some Dir" "fs_lookup fname e = None \<longrightarrow> fs_parent_ok fname e"
    and "power_of_two (pe_page_size e)" "0 < pe_mmap_at e"
  shows "\<exists>i f e1. NewWritableFile fname EnvOptions_init e = Some (Status_OK, Some (i, f), e1) \<and> writ_holds [] f \<and>
    fs_script e1 = [] \<and> fs_fread e1 = fs_fread e \<and> fs_fds e1 = Suc (fs_fds e) \<and> fs_inodes e1 = (fs_inodes e)(i := []) \<and>
    (\<forall>p. fs_lookup p e1 = (if p = fname then Some (Reg i) else fs_lookup p e))"
proof -
  obtain i e1 where o: "open_retry True True fname e = (Some i, e1)" "fs_script e1 = []" "fs_fread e1 = fs_fread e"
      "fs_fds e1 = Suc (fs_fds e)" "fs_inodes e1 = (fs_inodes e)(i := [])"
      "\<forall>p. fs_lookup p e1 = (if p = fname then Some (Reg i) else fs_lookup p e)"
      "pe_page_size e1 = pe_page_size e" "pe_mmap_at e1 = pe_mmap_at e"
    using open_for_writing [OF assms(1-3)] by blast
  define e2 where "e2 = check_disk EnvOptions_init fname e1"
  note e2 = check_disk_frame [of EnvOptions_init fname e1, folded e2_def]
  have look: "fs_lookup p e2 = fs_lookup p e1" for p using e2(5) by (rule fs_lookup_names)
  define k where "k = fs_kernel i False e2"
  have k: "k_open k" "k_data k = []" "k_script k = []" "k_pos k = 0" "\<not> k_append k"
    using o(2,5) e2 by (simp_all add: k_def fs_kernel_def)
  define f where "f = (if pe_forceMmapOff e2 then WritPosix (PosixWritableFile_init fname k True True)
    else WritMmap (PosixMmapFile_init fname k (pe_page_size e2) True True (pe_mmap_at e2)))"
  have "NewWritableFile fname EnvOptions_init e = Some (Status_OK, Some (i, f), e2)"
    using o(1) power_of_two_mask [OF assms(4)] e2(6) o(7)
    by (simp add: NewWritableFile_def f_def new_PosixMmapFile_def new_PosixWritableFile_def EnvOptions_init_fields Let_def
        flip: e2_def k_def)
  moreover have "writ_holds [] f"
    using k mm_init [OF k(1,2), of "pe_page_size e2" "pe_mmap_at e2" fname True] assms(4,5) e2 o(7,8)
    by (auto simp: f_def PosixWritableFile_init_def WritableFile_base_init_def)
  ultimately show ?thesis using o e2 look by auto
qed

subsection \<open>Strings in files\<close>

lemma vt_Read: "sf_Read PosixSequentialFile_vt = PosixSequentialFile_Read"
  by (simp add: PosixSequentialFile_vt_def)

lemma seq_init_ok:
  "\<forall>ev \<in> set script. \<not> interrupted ev \<Longrightarrow> seq_ok (PosixSequentialFile_init fname k script b)"
  by (simp add: seq_ok_def PosixSequentialFile_init_def)

lemma open_retry_fread: "open_retry creat trunc p e = (r, e') \<Longrightarrow> fs_fread e' = fs_fread e"
proof (induction creat trunc p e rule: open_retry.induct)
  case (1 creat trunc p e)
  obtain j e1 where o: "fs_open creat trunc p e = (j, e1)" by fastforce
  then have "fs_fread e1 = fs_fread e"
    by (auto simp: fs_open_def fs_event_def fs_error_def
        split: prod.splits list.splits sys_event.splits option.splits node.splits if_splits)
  with 1 o show ?case by (auto simp: open_retry.simps [of creat trunc p e] split: option.splits if_splits)
qed

text \<open>\<open>ReadFileToString\<close> returns whatever fails, unless a read of the stream is interrupted: the error
  flag then stays set, and \<open>fread\<close> at the end of the file is retried for ever.\<close>

lemma ReadFileToString_returns:
  assumes "\<forall>ev \<in> set (fs_fread e). \<not> interrupted ev"
  shows "\<exists>s data e'. ReadFileToString fname e = Some (s, data, e')"
proof -
  obtain j e1 where o: "open_retry False False fname e = (j, e1)" by fastforce
  show ?thesis
  proof (cases j)
    case (Some i)
    define f where "f = PosixSequentialFile_init fname (fs_kernel i False e1) (fs_fread e1) True"
    have "seq_ok f" using seq_init_ok assms open_retry_fread [OF o] by (simp add: f_def)
    then have "\<exists>s d f'. read_file_loop PosixSequentialFile_Read [] f = Some (s, d, f')"
      by (rule posix_stream.read_file_returns [unfolded vt_Read])
    then show ?thesis using o Some by (auto simp: ReadFileToString_def NewSequentialFile_default f_def)
  qed (use o in \<open>simp add: ReadFileToString_def NewSequentialFile_default\<close>)
qed

lemma ReadFileToString_existing:
  assumes "fs_script e = []" "fs_fread e = []" "fs_lookup fname e = Some (Reg i)"
  shows "\<exists>s e'. ReadFileToString fname e = Some (s, fs_inodes e i, e') \<and> Status_ok s \<and>
    fs_inodes e' = fs_inodes e \<and> fs_names e' = fs_names e \<and> fs_fds e' = fs_fds e"
proof -
  define e1 where "e1 = e\<lparr>fs_fds := Suc (fs_fds e)\<rparr>"
  define f where "f = PosixSequentialFile_init fname (fs_kernel i False e1) (fs_fread e1) True"
  have "open_retry False False fname e = (Some i, e1)" using open_existing [OF assms(1,3), of False False] by (simp add: e1_def)
  then have new: "NewSequentialFile fname EnvOptions_init e = (Status_OK, Some (i, SeqPosix f), e1)"
    by (simp add: NewSequentialFile_default f_def)
  have f: "seq_clean f" "seq_rest f = fs_inodes e i" "k_data (ps_kernel f) = fs_inodes e i" "ps_use_os_buffer f"
    using assms(2) by (simp_all add: f_def e1_def seq_clean_def seq_rest_def seq_init_ok fs_kernel_def)
      (simp_all add: PosixSequentialFile_init_def)
  have "\<exists>s f'. read_file_loop PosixSequentialFile_Read [] f = Some (s, [] @ seq_rest f, f') \<and> Status_ok s \<and> seq_clean f'"
    by (rule posix_seq.read_file_contents [OF f(1), unfolded vt_Read])
  then obtain s f' where r: "read_file_loop PosixSequentialFile_Read [] f = Some (s, fs_inodes e i, f')" "Status_ok s"
    using f(2) by auto
  have "k_data (ps_kernel f') = fs_inodes e i"
    using read_file_loop_keeps [OF r(1), of "\<lambda>f. k_data (ps_kernel f) = fs_inodes e i \<and> ps_use_os_buffer f"] f Read_data by fastforce
  then show ?thesis using new r by (simp add: ReadFileToString_def e1_def fs_put_def fs_close_def)
qed

text \<open>C16. A string written to a file comes back. When nothing fails, \<open>WriteStringToFile\<close> succeeds on every
  name that is not a directory and whose directory exists, through a mapping or by plain writes as
  the disk allows; \<open>ReadFileToString\<close> then returns exactly the string. No descriptor stays open,
  no other name changes, and the contents of no other file.\<close>

theorem write_read_string:
  assumes "fs_script e = []" "fs_fread e = []"
    and "fs_lookup fname e \<noteq> Some Dir" "fs_lookup fname e = None \<longrightarrow> fs_parent_ok fname e"
    and "power_of_two (pe_page_size e)" "0 < pe_mmap_at e"
  shows "\<exists>s e1 s' e2. WriteStringToFile page_aligned data fname should_sync e = Some (s, e1) \<and> Status_ok s \<and>
    ReadFileToString fname e1 = Some (s', data, e2) \<and> Status_ok s' \<and>
    fs_fds e2 = fs_fds e \<and>
    (\<forall>p. p \<noteq> fname \<longrightarrow> fs_lookup p e2 = fs_lookup p e) \<and>
    (\<forall>j. fs_lookup fname e2 \<noteq> Some (Reg j) \<longrightarrow> fs_inodes e2 j = fs_inodes e j)"
proof -
  obtain i f e1 where new: "NewWritableFile fname EnvOptions_init e = Some (Status_OK, Some (i, f), e1)" "writ_holds [] f"
      "fs_script e1 = []" "fs_fread e1 = fs_fread e" "fs_fds e1 = Suc (fs_fds e)" "fs_inodes e1 = (fs_inodes e)(i := [])"
      "\<forall>p. fs_lookup p e1 = (if p = fname then Some (Reg i) else fs_lookup p e)"
    using NewWritableFile_default [OF assms(1,3-6)] by blast
  obtain s f1 where app: "writ_Append page_aligned data f = Some (s, f1)" "Status_ok s" "writ_holds data f1"
    using writ_Append_holds [OF new(2), of page_aligned data] by auto
  obtain s2 f2 where sync: "(if Status_ok s \<and> should_sync then writ_Sync f1 else Some (s, f1)) = Some (s2, f2)"
      "Status_ok s2" "writ_holds data f2"
    using writ_Sync_holds [OF app(3)] app by (cases should_sync) auto
  define e2 where "e2 = fs_put i (writ_kernel f2) e1"
  have "fs_script e2 = []" using writ_holds_script [OF sync(3)] by (simp add: e2_def fs_put_def)
  from release_holds [OF sync(3) this, of i] obtain x where
    rel: "release_file i f2 e2 = fs_close i (e2\<lparr>fs_inodes := (fs_inodes e2)(i := data), fs_errno := x, fs_script := []\<rparr>)" by blast
  define e3 where "e3 = release_file i f2 e2"
  have w: "WriteStringToFile page_aligned data fname should_sync e = Some (s2, e3)"
    using new(1) app(1) sync(1,2) by (simp add: WriteStringToFile_def Let_def e3_def flip: e2_def)
  have e3: "fs_script e3 = []" "fs_fread e3 = []" "fs_fds e3 = fs_fds e" "fs_names e3 = fs_names e1" "fs_inodes e3 = (fs_inodes e)(i := data)"
    unfolding e3_def rel using new assms(2) by (simp_all add: fs_close_def e2_def fs_put_def)
  have look: "fs_lookup p e3 = (if p = fname then Some (Reg i) else fs_lookup p e)" for p
    using new(7) fs_lookup_names [OF e3(4), of p] by simp
  obtain s' e4 where r: "ReadFileToString fname e3 = Some (s', data, e4)" "Status_ok s'" "fs_inodes e4 = fs_inodes e3"
      "fs_names e4 = fs_names e3" "fs_fds e4 = fs_fds e3"
    using ReadFileToString_existing [OF e3(1,2), of fname i] look e3(5) by auto
  have "fs_lookup p e4 = (if p = fname then Some (Reg i) else fs_lookup p e)" for p using look fs_lookup_names [OF r(4), of p] by simp
  then show ?thesis using w sync(2) r e3 by auto
qed

text \<open>The directory \<open>/db\<close> with one file, \<open>/db/A\<close>; \<open>/db/B\<close> is free.\<close>

definition demo_env :: PosixEnv where
  "demo_env =
     \<lparr>fs_names = [([47, 100, 98], Dir), ([47, 100, 98, 47, 65], Reg 1)], fs_inodes = (\<lambda>i. [])(1 := [1, 2, 3]), fs_next_inode = 2,
      fs_flocks = (\<lambda>i. None), fs_pid = 100, fs_fds = 3, fs_errno = 0, fs_script = [], fs_fread = [], fs_strerror = (\<lambda>e. []),
      pe_checkedDiskForMmap = False, pe_forceMmapOff = False, pe_page_size = 4096, pe_lockedFiles = [],
      pe_statfs = (\<lambda>p. Some 0xEF53), pe_mmap_at = 65536\<rparr>"

lemma demo_env_lookup:
  "fs_lookup [47, 100, 98, 47, 66] demo_env = None" "fs_parent_ok [47, 100, 98, 47, 66] demo_env"
  "fs_lookup [47, 100, 98, 47, 65] demo_env = Some (Reg 1)"
  by (simp_all add: fs_lookup_def fs_parent_ok_def fs_parent_def fs_dots_def demo_env_def)

theorem write_read_string_witness:
  "\<exists>s e1 s' e2. WriteStringToFile False (replicate 100000 7) [47, 100, 98, 47, 66] True demo_env = Some (s, e1) \<and> Status_ok s \<and>
    ReadFileToString [47, 100, 98, 47, 66] e1 = Some (s', replicate 100000 7, e2) \<and> Status_ok s' \<and> fs_fds e2 = 3 \<and>
    fs_lookup [47, 100, 98, 47, 65] e2 = Some (Reg 1)"
proof -
  have p: "power_of_two 4096" unfolding power_of_two_def by (intro exI [of _ 12]) simp
  have "fs_script demo_env = []" "fs_fread demo_env = []" "pe_page_size demo_env = 4096" "0 < pe_mmap_at demo_env" "fs_fds demo_env = 3"
    by (simp_all add: demo_env_def)
  moreover define D where "D = replicate 100000 (7 :: byte)"
  ultimately show ?thesis
    using write_read_string [of demo_env "[47, 100, 98, 47, 66]" False D True] demo_env_lookup p
    unfolding D_def [symmetric] by fastforce
qed

subsection \<open>What file locks guarantee\<close>

text \<open>A process that takes and returns locks in any order, with failing calls, while other processes and
  other operations change everything but the set of locked names.\<close>

inductive locking :: "PosixEnv \<Rightarrow> PosixFileLock list \<Rightarrow> bool" where
  start: "pe_lockedFiles e = [] \<Longrightarrow> locking e []"
| lock: "locking e held \<Longrightarrow> LockFile p e = (s, Some l, e') \<Longrightarrow> locking e' (l # held)"
| refused: "locking e held \<Longrightarrow> LockFile p e = (s, None, e') \<Longrightarrow> locking e' held"
| unlock: "locking e held \<Longrightarrow> l \<in> set held \<Longrightarrow> UnlockFile l e = (s, e') \<Longrightarrow> locking e' (remove1 l held)"
| other: "locking e held \<Longrightarrow> pe_lockedFiles e' = pe_lockedFiles e \<Longrightarrow> locking e' held"

lemma fs_open_locked: "fs_open c t p e = (r, e') \<Longrightarrow> pe_lockedFiles e' = pe_lockedFiles e"
  by (auto simp: fs_open_def fs_event_def fs_error_def
      split: prod.splits list.splits sys_event.splits option.splits node.splits if_splits)

lemma sys_setlk_locked: "sys_setlk i lock e = (r, e') \<Longrightarrow> pe_lockedFiles e' = pe_lockedFiles e \<and> (r = 0 \<or> r = -1)"
  by (auto simp: sys_setlk_def fs_event_def fs_error_def
      split: prod.splits list.splits sys_event.splits option.splits if_splits)

lemma LockOrUnlock_lock:
  assumes "LockOrUnlock p i True e = (v, e')"
  shows "if v = -1 then set (pe_lockedFiles e') = set (pe_lockedFiles e)
         else p \<notin> set (pe_lockedFiles e) \<and> set (pe_lockedFiles e') = insert p (set (pe_lockedFiles e))"
proof (cases "p \<in> set (pe_lockedFiles e)")
  case True
  then show ?thesis using assms by (auto simp: LockOrUnlock_def fs_error_def)
next
  case False
  obtain r e1 where "sys_setlk i True (e\<lparr>pe_lockedFiles := p # pe_lockedFiles e, fs_errno := 0\<rparr>) = (r, e1)" by fastforce
  with assms False sys_setlk_locked [OF this] show ?thesis by (auto simp: LockOrUnlock_def Let_def)
qed

lemma LockOrUnlock_unlock:
  assumes "LockOrUnlock p i False e = (v, e')"
  shows "set (pe_lockedFiles e') = set (pe_lockedFiles e) - {p}"
proof (cases "p \<in> set (pe_lockedFiles e)")
  case True
  obtain r e1 where "sys_setlk i False (e\<lparr>pe_lockedFiles := removeAll p (pe_lockedFiles e), fs_errno := 0\<rparr>) = (r, e1)" by fastforce
  with assms True sys_setlk_locked [OF this] show ?thesis by (auto simp: LockOrUnlock_def Let_def)
qed (use assms in \<open>auto simp: LockOrUnlock_def fs_error_def\<close>)

lemma LockFile_locked:
  assumes "LockFile p e = (s, l, e')"
  shows "case l of None \<Rightarrow> set (pe_lockedFiles e') = set (pe_lockedFiles e) \<and> \<not> Status_ok s
         | Some l \<Rightarrow> Status_ok s \<and> pl_filename l = p \<and> p \<notin> set (pe_lockedFiles e) \<and>
             set (pe_lockedFiles e') = insert p (set (pe_lockedFiles e))"
proof -
  obtain j e1 where o: "fs_open True False p e = (j, e1)" by fastforce
  note same = fs_open_locked [OF o]
  show ?thesis
  proof (cases j)
    case None
    then show ?thesis using assms o same by (auto simp: LockFile_def)
  next
    case (Some i)
    obtain v e2 where "LockOrUnlock p i True e1 = (v, e2)" by fastforce
    note v = this LockOrUnlock_lock [OF this]
    show ?thesis
    proof (cases "v = -1")
      case True
      then have "s = fs_IOError (cstr ''lock '' @ p) e2" "l = None" "e' = fs_close i e2"
        using assms o Some v(1) by (simp_all add: LockFile_def)
      then show ?thesis using v(2) True same by (simp add: fs_close_def)
    next
      case False
      then have "s = Status_OK" "l = Some \<lparr>pl_inode = i, pl_filename = p\<rparr>" "e' = e2"
        using assms o Some v(1) by (simp_all add: LockFile_def)
      then show ?thesis using v(2) False same by simp
    qed
  qed
qed

lemma fs_close_locked: "pe_lockedFiles (fs_close i e) = pe_lockedFiles e"
  by (simp add: fs_close_def)

text \<open>C17. Locks exclude each other inside of a process. Whatever calls fail, and whatever happens to
  the file system in between, the locks a process holds are on pairwise different names, and
  another attempt to lock one of these names fails.\<close>

theorem lock_exclusive:
  assumes "locking e held"
  shows "distinct (map pl_filename held) \<and> set (pe_lockedFiles e) = pl_filename ` set held \<and>
    (\<forall>l \<in> set held. \<exists>s e'. LockFile (pl_filename l) e = (s, None, e') \<and> \<not> Status_ok s)"
proof -
  have "distinct (map pl_filename held) \<and> set (pe_lockedFiles e) = pl_filename ` set held"
    using assms
  proof (induction rule: locking.induct)
    case (lock e held p s l e')
    then show ?case using LockFile_locked [OF lock(2)] by auto
  next
    case (refused e held p s e')
    then show ?case using LockFile_locked [OF refused(2)] by auto
  next
    case (unlock e held l s e')
    obtain v e1 where v: "LockOrUnlock (pl_filename l) (pl_inode l) False e = (v, e1)" by fastforce
    then have "set (pe_lockedFiles e') = set (pe_lockedFiles e) - {pl_filename l}"
      using LockOrUnlock_unlock [OF v] unlock(3) v by (simp add: UnlockFile_def) (metis fs_close_locked)
    moreover have "distinct (map pl_filename held)" using unlock.IH ..
    then have "inj_on pl_filename (set held)" "distinct held" by (simp_all add: distinct_map)
    then have "pl_filename ` set (remove1 l held) = pl_filename ` set held - {pl_filename l}" "distinct (map pl_filename (remove1 l held))"
      using unlock(2) by (auto simp: distinct_map inj_on_def)
    ultimately show ?case using unlock.IH by simp
  qed auto
  moreover have "\<exists>s e'. LockFile p e = (s, None, e') \<and> \<not> Status_ok s" if "p \<in> set (pe_lockedFiles e)" for p
  proof -
    obtain s r e' where "LockFile p e = (s, r, e')" by (cases "LockFile p e")
    with LockFile_locked [OF this] that show ?thesis by (cases r) auto
  qed
  ultimately show ?thesis by auto
qed

lemma LockFile_quiet:
  assumes "fs_script e = []" "fs_lookup p e = Some (Reg i)"
  shows "LockFile p e =
    (let e1 = e\<lparr>fs_fds := Suc (fs_fds e)\<rparr>
     in if p \<in> set (pe_lockedFiles e) then
          (fs_IOError (cstr ''lock '' @ p) (fs_error ENOLCK e1), None, fs_close i (fs_error ENOLCK e1))
        else if fs_flocks e i \<noteq> None \<and> fs_flocks e i \<noteq> Some (fs_pid e) then
          (let e2 = e1\<lparr>pe_lockedFiles := removeAll p (pe_lockedFiles e), fs_errno := EAGAIN\<rparr>
           in (fs_IOError (cstr ''lock '' @ p) e2, None, fs_close i e2))
        else (Status_OK, Some \<lparr>pl_inode = i, pl_filename = p\<rparr>,
              e1\<lparr>pe_lockedFiles := p # pe_lockedFiles e, fs_errno := 0, fs_flocks := (fs_flocks e)(i := Some (fs_pid e))\<rparr>))"
proof -
  have o: "fs_open True False p e = (Some i, e\<lparr>fs_fds := Suc (fs_fds e)\<rparr>)"
    using assms by (simp add: fs_open_def fs_event_quiet)
  show ?thesis
    unfolding LockFile_def o using assms(1)
    by (cases "fs_flocks e i") (simp_all add: LockOrUnlock_def sys_setlk_def fs_event_quiet fs_error_def Let_def)
qed

theorem lock_exclusive_witness:
  "\<exists>e s e'. locking e [\<lparr>pl_inode = 1, pl_filename = [47, 100, 98, 47, 65]\<rparr>] \<and>
     LockFile [47, 100, 98, 47, 65] e = (s, None, e') \<and> \<not> Status_ok s"
proof -
  obtain e where e: "LockFile [47, 100, 98, 47, 65] demo_env = (Status_OK, Some \<lparr>pl_inode = 1, pl_filename = [47, 100, 98, 47, 65]\<rparr>, e)"
    using LockFile_quiet [of demo_env _ 1, OF _ demo_env_lookup(3)] by (simp add: demo_env_def Let_def)
  have "locking demo_env []" by (rule locking.start) (simp add: demo_env_def)
  from locking.lock [OF this e] have l: "locking e [\<lparr>pl_inode = 1, pl_filename = [47, 100, 98, 47, 65]\<rparr>]" .
  from lock_exclusive [OF l] l show ?thesis by auto
qed

text \<open>Another process on the same file system.\<close>

definition as_process :: "nat \<Rightarrow> path list \<Rightarrow> PosixEnv \<Rightarrow> PosixEnv" where
  "as_process pid locked e = e\<lparr>fs_pid := pid, pe_lockedFiles := locked\<rparr>"

text \<open>C18. A refused lock gives the lock away. A process holds the lock on a file, so that another process
  is refused. It then tries to lock the file once more: the call fails, as it should, but closes the
  descriptor it opened, and with it the operating system drops the process's lock on the file. Now
  the other process gets the lock, while the first one still has its \<open>PosixFileLock\<close> and its
  entry in \<open>lockedFiles\<close>.\<close>

theorem lock_given_away:
  assumes "fs_script e = []" "fs_lookup p e = Some (Reg i)" "fs_flocks e i = None" "p \<notin> set (pe_lockedFiles e)"
    and "pid \<noteq> fs_pid e" "p \<notin> set locked"
  shows "\<exists>s l e1 s2 e2 s3 e3 s4 l4 e4.
    LockFile p e = (s, Some l, e1) \<and> Status_ok s \<and>
    LockFile p (as_process pid locked e1) = (s3, None, e3) \<and> \<not> Status_ok s3 \<and>
    LockFile p e1 = (s2, None, e2) \<and> \<not> Status_ok s2 \<and> p \<in> set (pe_lockedFiles e2) \<and>
    LockFile p (as_process pid locked e2) = (s4, Some l4, e4) \<and> Status_ok s4"
proof -
  define e1 where "e1 = e\<lparr>fs_fds := Suc (fs_fds e), pe_lockedFiles := p # pe_lockedFiles e, fs_errno := 0,
    fs_flocks := (fs_flocks e)(i := Some (fs_pid e))\<rparr>"
  define e2 where "e2 = fs_close i (fs_error ENOLCK (e1\<lparr>fs_fds := Suc (fs_fds e1)\<rparr>))"
  have names: "fs_names e1 = fs_names e" "fs_names (as_process pid locked e1) = fs_names e" "fs_names (as_process pid locked e2) = fs_names e"
    by (simp_all add: e1_def e2_def as_process_def fs_close_def fs_error_def)
  have quiet: "fs_script e1 = []" "fs_script (as_process pid locked e1) = []" "fs_script (as_process pid locked e2) = []"
    using assms(1) by (simp_all add: e1_def e2_def as_process_def fs_close_def fs_error_def)
  note look = names [THEN fs_lookup_names, of p, unfolded assms(2)]
  have "LockFile p e = (Status_OK, Some \<lparr>pl_inode = i, pl_filename = p\<rparr>, e1)"
    using assms by (simp add: LockFile_quiet e1_def Let_def)
  moreover have "LockFile p e1 = (fs_IOError (cstr ''lock '' @ p) (fs_error ENOLCK (e1\<lparr>fs_fds := Suc (fs_fds e1)\<rparr>)), None, e2)"
    using LockFile_quiet [OF quiet(1) look(1)] by (simp add: e2_def Let_def e1_def)
  moreover have "p \<in> set (pe_lockedFiles e2)" by (simp add: e2_def e1_def fs_close_def fs_error_def)
  moreover have "\<exists>s e3. LockFile p (as_process pid locked e1) = (s, None, e3) \<and> \<not> Status_ok s"
    using LockFile_quiet [OF quiet(2) look(2)] assms(5,6) by (simp add: as_process_def e1_def Let_def)
  moreover have "\<exists>l e4. LockFile p (as_process pid locked e2) = (Status_OK, Some l, e4)"
    using LockFile_quiet [OF quiet(3) look(3)] assms(6) by (simp add: as_process_def e1_def e2_def fs_close_def fs_error_def Let_def)
  ultimately show ?thesis by (metis Status_ok_OK Status_ok_fs_IOError)
qed

theorem lock_given_away_witness:
  "\<exists>s l e1 s2 e2 s4 l4 e4. LockFile [47, 100, 98, 47, 65] demo_env = (s, Some l, e1) \<and> Status_ok s \<and>
    LockFile [47, 100, 98, 47, 65] e1 = (s2, None, e2) \<and> \<not> Status_ok s2 \<and>
    LockFile [47, 100, 98, 47, 65] (as_process 200 [] e2) = (s4, Some l4, e4) \<and> Status_ok s4"
  using lock_given_away [of demo_env "[47, 100, 98, 47, 65]" 1 200 "[]"] demo_env_lookup(3)
  by (simp add: demo_env_def) blast

subsection \<open>Options the environment cannot serve\<close>

text \<open>With direct writes, and no mapped writes, no file can be opened: the constructor passes
  \<open>EnvOptions()\<close> on, which has \<open>use_mmap_writes\<close> set, and its base class asserts the opposite.\<close>

lemma direct_writes_assert:
  assumes "fs_script e = []" "fs_lookup fname e \<noteq> Some Dir" "fs_lookup fname e = None \<longrightarrow> fs_parent_ok fname e"
    and "eo_use_direct_writes options" "\<not> eo_use_mmap_writes options"
  shows "NewWritableFile fname options e = None"
proof -
  obtain i e1 where o: "open_retry True True fname e = (Some i, e1)" "fs_script e1 = []" "fs_lookup fname e1 = Some (Reg i)"
    using open_for_writing [OF assms(1-3)] by auto
  then have "fs_open True True fname e1 = (Some i, e1\<lparr>fs_fds := Suc (fs_fds e1), fs_inodes := (fs_inodes e1)(i := [])\<rparr>)"
    by (simp add: fs_open_def fs_event_quiet)
  then show ?thesis using o assms(4,5)
    by (simp add: NewWritableFile_def check_disk_def new_PosixDirectIOWritableFile_def new_PosixWritableFile_def EnvOptions_init_fields)
qed

text \<open>A sequential file with direct reads leaves the descriptor of the first \<open>fopen\<close> open.\<close>

lemma direct_read_leaks:
  assumes "fs_script e = []" "fs_lookup fname e = Some (Reg i)" "eo_use_direct_reads options" "\<not> eo_use_mmap_writes options"
  shows "\<exists>f e'. NewSequentialFile fname options e = (Status_OK, Some (i, SeqDirect f), e') \<and> fs_fds e' = fs_fds e + 2"
proof -
  have "fs_lookup fname (e\<lparr>fs_fds := n\<rparr>) = Some (Reg i)" for n
    using assms(2) fs_lookup_names [of "e\<lparr>fs_fds := n\<rparr>" e] by simp
  then show ?thesis using assms open_existing [OF assms(1,2), of False False]
    by (simp add: NewSequentialFile_def fs_open_def fs_event_quiet)
qed

text \<open>A mapped random access file cannot be opened on an empty file.\<close>

lemma mmap_read_empty:
  assumes "fs_script e = []" "fs_lookup fname e = Some (Reg i)" "fs_inodes e i = []" "eo_use_mmap_reads options"
  shows "\<exists>s e'. NewRandomAccessFile fname options e = Some (s, None, e') \<and> \<not> Status_ok s \<and> fs_fds e' = fs_fds e"
proof -
  have "fs_lookup fname (e\<lparr>fs_fds := n\<rparr>) = Some (Reg i)" for n
    using assms(2) fs_lookup_names [of "e\<lparr>fs_fds := n\<rparr>" e] by simp
  then show ?thesis using assms
    by (simp add: NewRandomAccessFile_def fs_open_def fs_event_quiet GetFileSize_def sys_stat_def sys_mmap_file_def fs_close_def fs_error_def)
qed

text \<open>\<open>FileExists\<close> never returns its \<open>IOError\<close>: an error number the switch does not list fails the
  assertion, which compares the result of \<open>access\<close> with error numbers.\<close>

lemma FileExists_asserts:
  assumes "fs_script e = Fail err # es" "err \<notin> {EACCES, ELOOP, ENAMETOOLONG, ENOENT, ENOTDIR}"
  shows "FileExists fname e = None"
  using assms by (simp add: FileExists_def sys_access_def sys_stat_def fs_event_def)

subsection \<open>Names\<close>

text \<open>Whichever call fails, \<open>RenameFile\<close> either reports an error and leaves every name as it was, or the
  target names the file the source named, the source is free (unless both named that file
  before), and no other name changes.\<close>

lemma map_of_delete_add:
  "[t \<mapsto> n] ++ map_of (AList.delete t (AList.delete s ns)) = ((map_of ns)(s := None))(t \<mapsto> n)"
  by (auto simp: delete_conv' fun_eq_iff map_add_def split: option.splits)

lemma RenameFile_law:
  assumes "RenameFile src target e = (s, e')"
  shows "if Status_ok s
         then \<exists>i. fs_lookup src e = Some (Reg i) \<and>
           (map_of (fs_names e') = ((map_of (fs_names e))(src := None))(target \<mapsto> Reg i) \<or>
            fs_lookup target e = Some (Reg i) \<and> fs_names e' = fs_names e)
         else fs_names e' = fs_names e"
proof -
  obtain r e1 where r: "sys_rename src target e = (r, e1)" by fastforce
  have "if r = 0 then \<exists>i. fs_lookup src e = Some (Reg i) \<and>
           (map_of (fs_names e1) = ((map_of (fs_names e))(src := None))(target \<mapsto> Reg i) \<or>
            fs_lookup target e = Some (Reg i) \<and> fs_names e1 = fs_names e)
        else fs_names e1 = fs_names e"
  proof (cases "fs_event e")
    case (Pair ev e2)
    then have e2: "fs_names e2 = fs_names e"
      by (auto simp: fs_event_def split: list.splits sys_event.splits)
    note look = fs_lookup_names [OF this]
    show ?thesis
    proof (cases ev)
      case (Some err)
      then show ?thesis using r Pair e2 by (auto simp: sys_rename_def)
    next
      case None
      show ?thesis
      proof (cases "fs_lookup src e2")
        case None
        then show ?thesis using r Pair e2 \<open>ev = None\<close> by (auto simp: sys_rename_def fs_error_def)
      next
        case (Some n)
        then show ?thesis using r Pair e2 \<open>ev = None\<close> look [of src] look [of target]
          by (cases n) (auto simp: sys_rename_def fs_error_def map_of_delete_add split: if_splits)
      qed
    qed
  qed
  then show ?thesis using assms r by (auto simp: RenameFile_def fs_checked_def split: if_splits)
qed

text \<open>\<open>CreateDirIfMissing\<close> succeeds only if the directory is there afterwards.\<close>

lemma CreateDirIfMissing_law:
  assumes "CreateDirIfMissing name e = (s, e')" "Status_ok s"
  shows "fs_lookup name e' = Some Dir"
proof -
  obtain r e1 where r: "sys_mkdir name e = (r, e1)" by fastforce
  show ?thesis
  proof (cases "r = 0")
    case True
    then have "e' = e1" using assms r by (simp add: CreateDirIfMissing_def)
    moreover have "fs_lookup name e1 = Some Dir"
      using r True by (auto simp: sys_mkdir_def fs_lookup_def map_add_Some_iff fs_error_def split: prod.splits option.splits if_splits)
    ultimately show ?thesis by simp
  next
    case False
    obtain d e2 where d: "DirExists name e1 = (d, e2)" by fastforce
    have "\<not> Status_ok (Status_IOError m [])" for m by (simp add: Status_ok_def Status_IOError_def)
    then have "d" "e' = e2" using d assms r False by (auto simp: CreateDirIfMissing_def split: if_splits)
    then have "sys_stat name e1 = (Some (True, snd (the (fst (sys_stat name e1)))), e')"
      using d by (auto simp: DirExists_def split: prod.splits option.splits)
    then show ?thesis
      by (auto simp: sys_stat_def fs_event_def split: prod.splits option.splits node.splits list.splits sys_event.splits)
  qed
qed

end
