(* ===== verification/Loggers.thy ===== *)
theory Loggers
  imports PosixEnv
begin

text \<open>
  The info log: \<open>Logger\<close> with its levels and the functions \<open>Log\<close>, \<open>Header\<close>, \<open>Debug\<close>, \<open>Info\<close>, ... of
  \<open>rutil/env.cc\<close>, \<open>PosixLogger\<close> of \<open>rutil/posix_logger.h\<close>, and \<open>AutoRollLogger\<close> with \<open>CreateLogger\<close> of
  \<open>rutil/auto_roll_logger.cc\<close>.

  The environment of \<open>PosixEnv\<close> is extended by the clock and by what the C library prints:
  \<open>le_fmt\<close> is the whole text \<open>vsnprintf\<close> has for a format and its arguments, before it is cut to the
  buffer, and \<open>le_stamp\<close> the text for a time and a thread. A stream buffers what is written until it
  is flushed; a real one may also write earlier.

  The operations run under the mutex of the logger or on a logger of one thread; \<open>None\<close> is a failed
  assertion, a null pointer followed, an access out of bounds, or a call that does not return.

  Shown: which messages are printed and with which prefix, and that the functions on plain and on
  shared pointers differ on header messages, where the latter read behind the table of names;
  the line \<open>PosixLogger\<close> writes, whichever of its two buffers is used; that rolling the log
  ends, never overwrites a file, keeps everything logged so far in the old file and repeats the
  headers in the new one; that a logger which could not open its new file must not be used again.
\<close>

subsection \<open>Levels\<close>

datatype InfoLogLevel =
  DEBUG_LEVEL | INFO_LEVEL | WARN_LEVEL | ERROR_LEVEL | FATAL_LEVEL | HEADER_LEVEL | NUM_INFO_LOG_LEVELS

fun level_no :: "InfoLogLevel \<Rightarrow> nat" where
  "level_no DEBUG_LEVEL = 0"
| "level_no INFO_LEVEL = 1"
| "level_no WARN_LEVEL = 2"
| "level_no ERROR_LEVEL = 3"
| "level_no FATAL_LEVEL = 4"
| "level_no HEADER_LEVEL = 5"
| "level_no NUM_INFO_LOG_LEVELS = 6"

lemma level_no_inject: "level_no a = level_no b \<longleftrightarrow> a = b"
  by (cases a; cases b) simp_all

instantiation InfoLogLevel :: linorder
begin

definition less_eq_InfoLogLevel :: "InfoLogLevel \<Rightarrow> InfoLogLevel \<Rightarrow> bool" where
  "less_eq_InfoLogLevel a b \<longleftrightarrow> level_no a \<le> level_no b"

definition less_InfoLogLevel :: "InfoLogLevel \<Rightarrow> InfoLogLevel \<Rightarrow> bool" where
  "less_InfoLogLevel a b \<longleftrightarrow> level_no a < level_no b"

instance
  by standard (auto simp: less_eq_InfoLogLevel_def less_InfoLogLevel_def level_no_inject)

end

lemmas level_order = less_eq_InfoLogLevel_def less_InfoLogLevel_def

subsection \<open>The base class Logger\<close>

text \<open>Arguments of a format, and the virtual functions a logger of state \<open>'s\<close> brings.\<close>

datatype va_arg = VStr bytes | VInt int

record 's Logger_vt =
  lv_Logv :: "bytes \<Rightarrow> va_arg list \<Rightarrow> 's \<Rightarrow> 's option"
  lv_LogHeader :: "bytes \<Rightarrow> va_arg list \<Rightarrow> 's \<Rightarrow> 's option"
  lv_Flush :: "'s \<Rightarrow> 's option"
  lv_GetInfoLogLevel :: "'s \<Rightarrow> InfoLogLevel"

definition kInfoLogLevelNames :: "bytes list" where
  "kInfoLogLevelNames = map cstr [''DEBUG'', ''INFO'', ''WARN'', ''ERROR'', ''FATAL'']"

text \<open>\<open>snprintf\<close> gets one byte less than the array has, and writes one byte less than that.\<close>

definition level_format :: "bytes \<Rightarrow> bytes \<Rightarrow> bytes" where
  "level_format name format = take 498 (cstr ''['' @ name @ cstr ''] '' @ format)"

definition Logger_Logv :: "'s Logger_vt \<Rightarrow> InfoLogLevel \<Rightarrow> bytes \<Rightarrow> va_arg list \<Rightarrow> 's \<Rightarrow> 's option" where
  "Logger_Logv vt log_level format ap l =
     (if log_level < lv_GetInfoLogLevel vt l then Some l
      else if log_level = INFO_LEVEL then lv_Logv vt format ap l
      else if level_no log_level < length kInfoLogLevelNames then
        lv_Logv vt (level_format (kInfoLogLevelNames ! level_no log_level) format) ap l
      else None)"

subsection \<open>The functions on pointers\<close>

text \<open>A null pointer is \<open>None\<close>; the result is \<open>None\<close> where the call has no result.\<close>

definition LogFlush :: "'s Logger_vt \<Rightarrow> 's option \<Rightarrow> 's option option" where
  "LogFlush vt info_log = (case info_log of None \<Rightarrow> Some None | Some l \<Rightarrow> map_option Some (lv_Flush vt l))"

definition log_at :: "InfoLogLevel \<Rightarrow> 's Logger_vt \<Rightarrow> 's option \<Rightarrow> bytes \<Rightarrow> va_arg list \<Rightarrow> 's option option" where
  "log_at level vt info_log format ap =
     (case info_log of
        None \<Rightarrow> Some None
      | Some l \<Rightarrow> if lv_GetInfoLogLevel vt l \<le> level then map_option Some (Logger_Logv vt level format ap l) else Some (Some l))"

definition Log :: "'s Logger_vt \<Rightarrow> 's option \<Rightarrow> bytes \<Rightarrow> va_arg list \<Rightarrow> 's option option" where
  "Log = log_at INFO_LEVEL"

definition Log_level :: "InfoLogLevel \<Rightarrow> 's Logger_vt \<Rightarrow> 's option \<Rightarrow> bytes \<Rightarrow> va_arg list \<Rightarrow> 's option option" where
  "Log_level log_level vt info_log format ap =
     (case info_log of
        None \<Rightarrow> Some None
      | Some l \<Rightarrow>
          if lv_GetInfoLogLevel vt l \<le> log_level then
            map_option Some (if log_level = HEADER_LEVEL then lv_LogHeader vt format ap l else Logger_Logv vt log_level format ap l)
          else Some (Some l))"

definition Header :: "'s Logger_vt \<Rightarrow> 's option \<Rightarrow> bytes \<Rightarrow> va_arg list \<Rightarrow> 's option option" where
  "Header vt info_log format ap =
     (case info_log of None \<Rightarrow> Some None | Some l \<Rightarrow> map_option Some (lv_LogHeader vt format ap l))"

definition Debug :: "'s Logger_vt \<Rightarrow> 's option \<Rightarrow> bytes \<Rightarrow> va_arg list \<Rightarrow> 's option option" where
  "Debug = log_at DEBUG_LEVEL"

definition Info :: "'s Logger_vt \<Rightarrow> 's option \<Rightarrow> bytes \<Rightarrow> va_arg list \<Rightarrow> 's option option" where
  "Info = log_at INFO_LEVEL"

definition Warn :: "'s Logger_vt \<Rightarrow> 's option \<Rightarrow> bytes \<Rightarrow> va_arg list \<Rightarrow> 's option option" where
  "Warn = log_at WARN_LEVEL"

definition Error :: "'s Logger_vt \<Rightarrow> 's option \<Rightarrow> bytes \<Rightarrow> va_arg list \<Rightarrow> 's option option" where
  "Error = log_at ERROR_LEVEL"

definition Fatal :: "'s Logger_vt \<Rightarrow> 's option \<Rightarrow> bytes \<Rightarrow> va_arg list \<Rightarrow> 's option option" where
  "Fatal = log_at FATAL_LEVEL"

text \<open>The overloads on \<open>shared_ptr<Logger>\<close> leave the comparison of levels to \<open>Logv\<close>.\<close>

definition shared_LogFlush :: "'s Logger_vt \<Rightarrow> 's option \<Rightarrow> 's option option" where
  "shared_LogFlush vt info_log = (case info_log of None \<Rightarrow> Some None | Some l \<Rightarrow> map_option Some (lv_Flush vt l))"

definition shared_Log_level :: "InfoLogLevel \<Rightarrow> 's Logger_vt \<Rightarrow> 's option \<Rightarrow> bytes \<Rightarrow> va_arg list \<Rightarrow> 's option option" where
  "shared_Log_level log_level vt info_log format ap =
     (case info_log of None \<Rightarrow> Some None | Some l \<Rightarrow> map_option Some (Logger_Logv vt log_level format ap l))"

definition shared_Header :: "'s Logger_vt \<Rightarrow> 's option \<Rightarrow> bytes \<Rightarrow> va_arg list \<Rightarrow> 's option option" where
  "shared_Header vt info_log format ap =
     (case info_log of None \<Rightarrow> Some None | Some l \<Rightarrow> map_option Some (lv_LogHeader vt format ap l))"

definition shared_Debug :: "'s Logger_vt \<Rightarrow> 's option \<Rightarrow> bytes \<Rightarrow> va_arg list \<Rightarrow> 's option option" where
  "shared_Debug = shared_Log_level DEBUG_LEVEL"

definition shared_Info :: "'s Logger_vt \<Rightarrow> 's option \<Rightarrow> bytes \<Rightarrow> va_arg list \<Rightarrow> 's option option" where
  "shared_Info = shared_Log_level INFO_LEVEL"

definition shared_Warn :: "'s Logger_vt \<Rightarrow> 's option \<Rightarrow> bytes \<Rightarrow> va_arg list \<Rightarrow> 's option option" where
  "shared_Warn = shared_Log_level WARN_LEVEL"

definition shared_Error :: "'s Logger_vt \<Rightarrow> 's option \<Rightarrow> bytes \<Rightarrow> va_arg list \<Rightarrow> 's option option" where
  "shared_Error = shared_Log_level ERROR_LEVEL"

definition shared_Fatal :: "'s Logger_vt \<Rightarrow> 's option \<Rightarrow> bytes \<Rightarrow> va_arg list \<Rightarrow> 's option option" where
  "shared_Fatal = shared_Log_level FATAL_LEVEL"

definition shared_Log :: "'s Logger_vt \<Rightarrow> 's option \<Rightarrow> bytes \<Rightarrow> va_arg list \<Rightarrow> 's option option" where
  "shared_Log = shared_Log_level INFO_LEVEL"

text \<open>On every level from \<open>DEBUG_LEVEL\<close> to \<open>FATAL_LEVEL\<close> the functions on plain and on shared pointers do
  the same. On \<open>HEADER_LEVEL\<close> they differ: a plain pointer gives \<open>LogHeader\<close>, while a shared one reads
  behind the end of the table of names.\<close>

lemma log_levels:
  "(\<forall>level \<le> FATAL_LEVEL.
      Log_level level vt info_log format ap = shared_Log_level level vt info_log format ap \<and>
      log_at level vt info_log format ap = shared_Log_level level vt info_log format ap \<and>
      shared_Log_level level vt info_log format ap =
        (case info_log of
           None \<Rightarrow> Some None
         | Some l \<Rightarrow>
             if level < lv_GetInfoLogLevel vt l then Some (Some l)
             else map_option Some
               (lv_Logv vt (if level = INFO_LEVEL then format
                            else level_format (kInfoLogLevelNames ! level_no level) format) ap l))) \<and>
   (\<forall>l. lv_GetInfoLogLevel vt l \<le> HEADER_LEVEL \<longrightarrow>
      Log_level HEADER_LEVEL vt (Some l) format ap = map_option Some (lv_LogHeader vt format ap l) \<and>
      shared_Log_level HEADER_LEVEL vt (Some l) format ap = None)"
proof (intro conjI allI impI)
  fix level :: InfoLogLevel
  assume "level \<le> FATAL_LEVEL"
  then have n: "level_no level < length kInfoLogLevelNames" and h: "level \<noteq> HEADER_LEVEL"
    by (auto simp: level_order kInfoLogLevelNames_def)
  show "shared_Log_level level vt info_log format ap =
        (case info_log of
           None \<Rightarrow> Some None
         | Some l \<Rightarrow>
             if level < lv_GetInfoLogLevel vt l then Some (Some l)
             else map_option Some
               (lv_Logv vt (if level = INFO_LEVEL then format
                            else level_format (kInfoLogLevelNames ! level_no level) format) ap l))"
    using n by (simp add: shared_Log_level_def Logger_Logv_def split: option.split)
  show "log_at level vt info_log format ap = shared_Log_level level vt info_log format ap"
    "Log_level level vt info_log format ap = shared_Log_level level vt info_log format ap"
    using h by (auto simp: log_at_def Log_level_def shared_Log_level_def Logger_Logv_def not_le split: option.split)
next
  fix l
  assume "lv_GetInfoLogLevel vt l \<le> HEADER_LEVEL"
  then show "Log_level HEADER_LEVEL vt (Some l) format ap = map_option Some (lv_LogHeader vt format ap l)"
    "shared_Log_level HEADER_LEVEL vt (Some l) format ap = None"
    by (simp_all add: Log_level_def shared_Log_level_def Logger_Logv_def kInfoLogLevelNames_def not_less)
qed

subsection \<open>The environment of a logger\<close>

text \<open>The clock in microseconds: the times of the coming calls, then the last one for ever.\<close>

record LogEnv = PosixEnv +
  le_now :: u64
  le_times :: "u64 list"
  le_tid :: u64
  le_stamp :: "u64 \<Rightarrow> u64 \<Rightarrow> bytes"
  le_fmt :: "bytes \<Rightarrow> va_arg list \<Rightarrow> bytes"

definition NowMicros :: "LogEnv \<Rightarrow> u64 \<times> LogEnv" where
  "NowMicros e = (case le_times e of [] \<Rightarrow> (le_now e, e) | t # ts \<Rightarrow> (t, e\<lparr>le_now := t, le_times := ts\<rparr>))"

text \<open>The code multiplies by \<open>1e-6\<close> in floating point and cuts the fraction off; below $2^{52}$ microseconds,
  about 142 years, this is the quotient.\<close>

definition NowSeconds :: "LogEnv \<Rightarrow> u64 \<times> LogEnv" where
  "NowSeconds e = (case NowMicros e of (t, e) \<Rightarrow> (t div 1000000, e))"

subsection \<open>PosixLogger\<close>

record PosixLogger =
  lg_inode :: nat
  lg_pos :: nat
  lg_buffer :: bytes
  lg_log_size :: u64
  lg_last_flush_micros :: u64
  lg_flush_pending :: bool
  lg_flush_every_seconds :: u64
  lg_log_level :: InfoLogLevel

definition PosixLogger_init :: "nat \<Rightarrow> u64 \<Rightarrow> PosixLogger" where
  "PosixLogger_init i flush_every_seconds =
     \<lparr>lg_inode = i, lg_pos = 0, lg_buffer = [], lg_log_size = 0, lg_last_flush_micros = 0, lg_flush_pending = False,
      lg_flush_every_seconds = flush_every_seconds, lg_log_level = ERROR_LEVEL\<rparr>"

text \<open>\<open>fflush\<close>: the bytes go to the file at the position of the stream, or stay in the buffer.\<close>

definition lg_fflush :: "PosixLogger \<Rightarrow> LogEnv \<Rightarrow> PosixLogger \<times> LogEnv" where
  "lg_fflush l e =
     (case fs_event e of
        (Some err, e) \<Rightarrow> (l, e)
      | (None, e) \<Rightarrow>
          (l\<lparr>lg_pos := lg_pos l + length (lg_buffer l), lg_buffer := []\<rparr>,
           e\<lparr>fs_inodes := (fs_inodes e)(lg_inode l := write_at (lg_pos l) (lg_buffer l) (fs_inodes e (lg_inode l)))\<rparr>))"

definition PosixLogger_destroy :: "PosixLogger \<Rightarrow> LogEnv \<Rightarrow> LogEnv" where
  "PosixLogger_destroy l e = (case lg_fflush l e of (l, e) \<Rightarrow> fs_close (lg_inode l) e)"

definition PosixLogger_Flush :: "PosixLogger \<Rightarrow> LogEnv \<Rightarrow> PosixLogger \<times> LogEnv" where
  "PosixLogger_Flush l e =
     (let (l, e) = (if lg_flush_pending l then lg_fflush (l\<lparr>lg_flush_pending := False\<rparr>) e else (l, e))
      in if lg_flush_every_seconds l \<noteq> 0
         then (let (now, e) = NowMicros e in (l\<lparr>lg_last_flush_micros := now\<rparr>, e))
         else (l, e))"

text \<open>One round of the loop in \<open>Logv\<close>: the text that is in a buffer of \<open>bufsize\<close> bytes, \<open>None\<close> to try again with a
  larger one. \<open>p\<close> counts what the two calls of \<open>snprintf\<close> would have written; they leave a
  terminating zero in the buffer.\<close>

definition log_round :: "bool \<Rightarrow> nat \<Rightarrow> bytes \<Rightarrow> bytes \<Rightarrow> bytes option" where
  "log_round last_round bufsize stamp msg =
     (let p = length stamp;
          base = take (bufsize - 1) stamp;
          (p, base) = (if p < bufsize then (p + length msg, stamp @ take (bufsize - p - 1) msg) else (p, base))
      in if p \<ge> bufsize \<and> \<not> last_round then None
         else
           (let p = (if p \<ge> bufsize then bufsize - 1 else p);
                base = take p base
            in Some (if p = 0 \<or> base ! (p - 1) \<noteq> 10 then base @ [10] else base)))"

definition kDebugLogChunkSize :: u64 where
  "kDebugLogChunkSize = 128 * 1024"

text \<open>The result of \<open>fallocate\<close> is not looked at. A short \<open>fwrite\<close> fails the assertion.\<close>

definition lg_write :: "u64 \<Rightarrow> bytes \<Rightarrow> PosixLogger \<Rightarrow> LogEnv \<Rightarrow> (PosixLogger \<times> LogEnv) option" where
  "lg_write now_micros base l e =
     (let write_size = of_nat (length base);
          log_size = lg_log_size l;
          last_allocation_chunk = (kDebugLogChunkSize - 1 + log_size) div kDebugLogChunkSize;
          desired_allocation_chunk = (kDebugLogChunkSize - 1 + log_size + write_size) div kDebugLogChunkSize;
          e = (if last_allocation_chunk \<noteq> desired_allocation_chunk then snd (fs_event e) else e)
      in case fs_event e of
           (Some err, e) \<Rightarrow> None
         | (None, e) \<Rightarrow>
             (let l = l\<lparr>lg_buffer := lg_buffer l @ base, lg_flush_pending := True\<rparr>;
                  l = (if write_size > 0 then l\<lparr>lg_log_size := lg_log_size l + write_size\<rparr> else l)
              in Some (if lg_flush_every_seconds l = 0 then PosixLogger_Flush l e
                       else if now_micros - lg_last_flush_micros l \<ge> lg_flush_every_seconds l * 1000000 then PosixLogger_Flush l e
                       else (l, e))))"

definition PosixLogger_Logv :: "bytes \<Rightarrow> va_arg list \<Rightarrow> PosixLogger \<Rightarrow> LogEnv \<Rightarrow> (PosixLogger \<times> LogEnv) option" where
  "PosixLogger_Logv format ap l e =
     (let msg = le_fmt e format ap;
          (now, e) = NowMicros e
      in case log_round False 500 (le_stamp e now (le_tid e)) msg of
           Some line \<Rightarrow> lg_write now line l e
         | None \<Rightarrow>
             (let (now, e) = NowMicros e
              in case log_round True 65536 (le_stamp e now (le_tid e)) msg of
                   Some line \<Rightarrow> lg_write now line l e
                 | None \<Rightarrow> Some (l, e)))"

definition PosixLogger_GetLogFileSize :: "PosixLogger \<Rightarrow> u64" where
  "PosixLogger_GetLogFileSize l = lg_log_size l"

text \<open>\<open>PosixEnv::NewLogger\<close>.\<close>

definition NewLogger :: "path \<Rightarrow> u64 \<Rightarrow> LogEnv \<Rightarrow> Status \<times> PosixLogger option \<times> LogEnv" where
  "NewLogger fname flush_every_seconds e =
     (case fs_open True True fname e of
        (None, e) \<Rightarrow> (fs_IOError fname e, None, e)
      | (Some i, e) \<Rightarrow> (Status_OK, Some (PosixLogger_init i flush_every_seconds), snd (fs_event e)))"

subsection \<open>AutoRollLogger\<close>

definition InfoLogFileName :: "path \<Rightarrow> path" where
  "InfoLogFileName log_path = log_path @ cstr ''/LOG''"

definition OldInfoLogFileName :: "path \<Rightarrow> u64 \<Rightarrow> path" where
  "OldInfoLogFileName log_path ts = log_path @ cstr ''/LOG.old.'' @ cstr (decimal (unat ts))"

record AutoRollLogger =
  ar_log_fname :: path
  ar_log_path :: path
  ar_logger :: "PosixLogger option"
  ar_status :: Status
  ar_kMaxLogFileSize :: u64
  ar_kLogFileTimeToRoll :: u64
  ar_headers :: "bytes list"
  ar_cached_now :: u64
  ar_ctime :: u64
  ar_cached_now_access_count :: u64
  ar_call_NowMicros_every_N_records :: u64
  ar_flush_every_seconds :: u64
  ar_log_level :: InfoLogLevel

text \<open>The old logger is destroyed when its pointer is overwritten.\<close>

definition reset_logger :: "PosixLogger option \<Rightarrow> AutoRollLogger \<Rightarrow> LogEnv \<Rightarrow> AutoRollLogger \<times> LogEnv" where
  "reset_logger new a e =
     (a\<lparr>ar_logger := new\<rparr>, case ar_logger a of None \<Rightarrow> e | Some l \<Rightarrow> PosixLogger_destroy l e)"

definition ResetLogger :: "AutoRollLogger \<Rightarrow> LogEnv \<Rightarrow> (Status \<times> AutoRollLogger \<times> LogEnv) option" where
  "ResetLogger a e =
     (let (s, new, e) = NewLogger (ar_log_fname a) (ar_flush_every_seconds a) e;
          (a, e) = reset_logger new a e;
          a = a\<lparr>ar_status := s\<rparr>
      in if \<not> Status_ok (ar_status a) then Some (ar_status a, a, e)
         else do {
           l \<leftarrow> ar_logger a;
           let a = (if PosixLogger_GetLogFileSize l = - 1
                    then a\<lparr>ar_status := Status_NotSupported (cstr ''The underlying logger doesn't support GetLogFileSize()'') []\<rparr>
                    else a);
           if Status_ok (ar_status a)
           then (let (now, e) = NowSeconds e;
                     a = a\<lparr>ar_cached_now := now, ar_ctime := now, ar_cached_now_access_count := 0\<rparr>
                 in Some (ar_status a, a, e))
           else Some (ar_status a, a, e)
         })"

partial_function (option) roll_name :: "path \<Rightarrow> u64 \<Rightarrow> LogEnv \<Rightarrow> (path \<times> LogEnv) option" where
  "roll_name log_path now e =
     (let old_fname = OldInfoLogFileName log_path now;
          now = now + 1
      in do {
           (s, e) \<leftarrow> FileExists old_fname e;
           if Status_ok s then roll_name log_path now e else Some (old_fname, e)
         })"

definition RollLogFile :: "AutoRollLogger \<Rightarrow> LogEnv \<Rightarrow> LogEnv option" where
  "RollLogFile a e =
     (let (now, e) = NowMicros e
      in do {
           (old_fname, e) \<leftarrow> roll_name (ar_log_path a) now e;
           Some (snd (RenameFile (ar_log_fname a) old_fname e))
         })"

definition MAXBUFFERSIZE :: nat where
  "MAXBUFFERSIZE = 1024"

definition ValistToString :: "bytes \<Rightarrow> va_arg list \<Rightarrow> LogEnv \<Rightarrow> bytes" where
  "ValistToString format args e = take (MAXBUFFERSIZE - 1) (le_fmt e format args)"

definition LogInternal :: "bytes \<Rightarrow> va_arg list \<Rightarrow> AutoRollLogger \<Rightarrow> LogEnv \<Rightarrow> (AutoRollLogger \<times> LogEnv) option" where
  "LogInternal format args a e = do {
     l \<leftarrow> ar_logger a;
     (l, e) \<leftarrow> PosixLogger_Logv format args l e;
     Some (a\<lparr>ar_logger := Some l\<rparr>, e)
   }"

fun write_headers :: "bytes list \<Rightarrow> AutoRollLogger \<Rightarrow> LogEnv \<Rightarrow> (AutoRollLogger \<times> LogEnv) option" where
  "write_headers [] a e = Some (a, e)"
| "write_headers (header # headers) a e = do {
     (a, e) \<leftarrow> LogInternal (cstr ''%s'') [VStr header] a e;
     write_headers headers a e
   }"

definition WriteHeaderInfo :: "AutoRollLogger \<Rightarrow> LogEnv \<Rightarrow> (AutoRollLogger \<times> LogEnv) option" where
  "WriteHeaderInfo a e = write_headers (ar_headers a) a e"

definition LogExpired :: "AutoRollLogger \<Rightarrow> LogEnv \<Rightarrow> bool \<times> AutoRollLogger \<times> LogEnv" where
  "LogExpired a e =
     (let (a, e) =
            (if ar_cached_now_access_count a \<ge> ar_call_NowMicros_every_N_records a
             then (let (now, e) = NowSeconds e in (a\<lparr>ar_cached_now := now, ar_cached_now_access_count := 0\<rparr>, e))
             else (a, e));
          a = a\<lparr>ar_cached_now_access_count := ar_cached_now_access_count a + 1\<rparr>
      in (ar_cached_now a \<ge> ar_ctime a + ar_kLogFileTimeToRoll a, a, e))"

text \<open>The condition of \<open>Logv\<close>; the second part is evaluated only if the first one is false.\<close>

definition must_roll :: "AutoRollLogger \<Rightarrow> LogEnv \<Rightarrow> (bool \<times> AutoRollLogger \<times> LogEnv) option" where
  "must_roll a e =
     (let (expired, a, e) = (if ar_kLogFileTimeToRoll a > 0 then LogExpired a e else (False, a, e))
      in if expired then Some (True, a, e)
         else if ar_kMaxLogFileSize a > 0 then do {
           l \<leftarrow> ar_logger a;
           Some (PosixLogger_GetLogFileSize l \<ge> ar_kMaxLogFileSize a, a, e)
         }
         else Some (False, a, e))"

definition AutoRollLogger_GetStatus :: "AutoRollLogger \<Rightarrow> Status" where
  "AutoRollLogger_GetStatus a = ar_status a"

definition AutoRollLogger_Logv :: "bytes \<Rightarrow> va_arg list \<Rightarrow> AutoRollLogger \<Rightarrow> LogEnv \<Rightarrow> (AutoRollLogger \<times> LogEnv) option" where
  "AutoRollLogger_Logv format ap a e =
     (if \<not> Status_ok (AutoRollLogger_GetStatus a) then None
      else do {
        (roll, a, e) \<leftarrow> must_roll a e;
        if roll then do {
          e \<leftarrow> RollLogFile a e;
          (s, a, e) \<leftarrow> ResetLogger a e;
          if \<not> Status_ok s then Some (a, e)
          else do {
            (a, e) \<leftarrow> WriteHeaderInfo a e;
            LogInternal format ap a e
          }
        }
        else LogInternal format ap a e
      })"

definition LogHeader :: "bytes \<Rightarrow> va_arg list \<Rightarrow> AutoRollLogger \<Rightarrow> LogEnv \<Rightarrow> (AutoRollLogger \<times> LogEnv) option" where
  "LogHeader format args a e =
     (let data = ValistToString format args e
      in LogInternal format args (a\<lparr>ar_headers := ar_headers a @ [data]\<rparr>) e)"

definition SetCallNowMicrosEveryNRecords :: "u64 \<Rightarrow> AutoRollLogger \<Rightarrow> AutoRollLogger" where
  "SetCallNowMicrosEveryNRecords n a = a\<lparr>ar_call_NowMicros_every_N_records := n\<rparr>"

definition AutoRollLogger_GetLogFileSize :: "AutoRollLogger \<Rightarrow> u64 option" where
  "AutoRollLogger_GetLogFileSize a = map_option PosixLogger_GetLogFileSize (ar_logger a)"

definition AutoRollLogger_Flush :: "AutoRollLogger \<Rightarrow> LogEnv \<Rightarrow> AutoRollLogger \<times> LogEnv" where
  "AutoRollLogger_Flush a e =
     (case ar_logger a of
        None \<Rightarrow> (a, e)
      | Some l \<Rightarrow> (case PosixLogger_Flush l e of (l, e) \<Rightarrow> (a\<lparr>ar_logger := Some l\<rparr>, e)))"

definition new_AutoRollLogger ::
    "path \<Rightarrow> u64 \<Rightarrow> u64 \<Rightarrow> InfoLogLevel \<Rightarrow> u64 \<Rightarrow> LogEnv \<Rightarrow> (AutoRollLogger \<times> LogEnv) option" where
  "new_AutoRollLogger log_path log_max_size log_file_time_to_roll log_level flush_every_seconds e =
     (let (now, e) = NowSeconds e;
          a = \<lparr>ar_log_fname = InfoLogFileName log_path, ar_log_path = log_path, ar_logger = None, ar_status = Status_OK,
               ar_kMaxLogFileSize = log_max_size, ar_kLogFileTimeToRoll = log_file_time_to_roll, ar_headers = [],
               ar_cached_now = now, ar_ctime = now, ar_cached_now_access_count = 0,
               ar_call_NowMicros_every_N_records = 100, ar_flush_every_seconds = flush_every_seconds, ar_log_level = log_level\<rparr>
      in do {
           e \<leftarrow> RollLogFile a e;
           (s, a, e) \<leftarrow> ResetLogger a e;
           Some (a, e)
         })"

definition AutoRollLogger_destroy :: "AutoRollLogger \<Rightarrow> LogEnv \<Rightarrow> LogEnv" where
  "AutoRollLogger_destroy a e = (case ar_logger a of None \<Rightarrow> e | Some l \<Rightarrow> PosixLogger_destroy l e)"

datatype AnyLogger = RollLogger AutoRollLogger | PlainLogger PosixLogger

definition CreateLogger ::
    "path \<Rightarrow> u64 \<Rightarrow> u64 \<Rightarrow> InfoLogLevel \<Rightarrow> u64 \<Rightarrow> LogEnv \<Rightarrow> (Status \<times> AnyLogger option \<times> LogEnv) option" where
  "CreateLogger log_path log_max_size log_file_time_to_roll log_level flush_every_seconds e =
     (let fname = InfoLogFileName log_path;
          e = snd (CreateDirIfMissing log_path e)
      in if log_file_time_to_roll > 0 \<or> log_max_size > 0 then do {
           (result, e) \<leftarrow> new_AutoRollLogger log_path log_max_size log_file_time_to_roll log_level flush_every_seconds e;
           let s = AutoRollLogger_GetStatus result;
           Some (if \<not> Status_ok s then (s, None, AutoRollLogger_destroy result e) else (s, Some (RollLogger result), e))
         }
         else
           (let (now, e) = NowMicros e;
                e = snd (RenameFile fname (OldInfoLogFileName log_path now) e);
                (s, logger, e) = NewLogger fname flush_every_seconds e
            in Some (s, map_option (\<lambda>l. PlainLogger (l\<lparr>lg_log_level := log_level\<rparr>)) logger, e)))"

subsection \<open>The line that is written\<close>

definition log_line :: "bytes \<Rightarrow> bytes \<Rightarrow> bytes" where
  "log_line stamp msg =
     (let t = take 65535 (stamp @ msg) in if t = [] \<or> last t \<noteq> 10 then t @ [10] else t)"

lemma log_round_text:
  assumes "0 < bufsize"
  shows "log_round last_round bufsize stamp msg =
    (if length (stamp @ msg) \<ge> bufsize \<and> \<not> last_round then None
     else (let t = take (bufsize - 1) (stamp @ msg) in Some (if t = [] \<or> last t \<noteq> 10 then t @ [10] else t)))"
proof -
  define t where "t = take (bufsize - 1) (stamp @ msg)"
  define p where "p = (if length stamp < bufsize then length (stamp @ msg) else length stamp)"
  have r: "(if length stamp < bufsize then (length stamp + length msg, stamp @ take (bufsize - length stamp - 1) msg)
      else (length stamp, take (bufsize - 1) stamp)) = (p, t)"
    by (simp add: t_def p_def)
  have p: "p \<ge> bufsize \<longleftrightarrow> length (stamp @ msg) \<ge> bufsize" "(if p \<ge> bufsize then bufsize - 1 else p) = length t"
    using assms by (auto simp: p_def t_def)
  have "(length t = 0 \<or> t ! (length t - 1) \<noteq> 10) \<longleftrightarrow> (t = [] \<or> last t \<noteq> 10)" by (auto simp: last_conv_nth)
  then show ?thesis
    unfolding log_round_def Let_def r prod.case p(2) t_def [symmetric] by (simp add: p(1) [unfolded length_append])
qed

subsection \<open>What a PosixLogger holds\<close>

text \<open>Everything logged: what is in the file and what the stream still buffers.\<close>

definition lg_text :: "PosixLogger \<Rightarrow> LogEnv \<Rightarrow> bytes" where
  "lg_text l e = fs_inodes e (lg_inode l) @ lg_buffer l"

definition lg_ok :: "PosixLogger \<Rightarrow> LogEnv \<Rightarrow> bool" where
  "lg_ok l e \<longleftrightarrow> lg_pos l = length (fs_inodes e (lg_inode l)) \<and> lg_log_size l = of_nat (length (lg_text l e))"

text \<open>No failures to come; names and the other files as before.\<close>

definition log_frame :: "nat \<Rightarrow> LogEnv \<Rightarrow> LogEnv \<Rightarrow> bool" where
  "log_frame i e e' \<longleftrightarrow> fs_names e' = fs_names e \<and> fs_next_inode e' = fs_next_inode e \<and> fs_script e' = [] \<and>
     le_tid e' = le_tid e \<and> le_stamp e' = le_stamp e \<and> le_fmt e' = le_fmt e \<and>
     (\<forall>j. j \<noteq> i \<longrightarrow> fs_inodes e' j = fs_inodes e j)"

lemma log_frame_refl: "fs_script e = [] \<Longrightarrow> log_frame i e e"
  by (simp add: log_frame_def)

lemma log_frame_trans: "log_frame i e e' \<Longrightarrow> log_frame i e' e'' \<Longrightarrow> log_frame i e e''"
  by (simp add: log_frame_def)

lemma NowMicros_frame:
  assumes "NowMicros e = (t, e')" "fs_script e = []"
  shows "log_frame i e e'" "fs_inodes e' = fs_inodes e"
  using assms by (auto simp: NowMicros_def log_frame_def split: list.splits)

lemma write_at_end: "write_at (length data) d data = data @ d"
  by (simp add: write_at_def overwrite_def)

lemma lg_fflush_quiet:
  assumes "fs_script e = []" "lg_ok l e"
  shows "lg_fflush l e = (l\<lparr>lg_pos := length (lg_text l e), lg_buffer := []\<rparr>, e\<lparr>fs_inodes := (fs_inodes e)(lg_inode l := lg_text l e)\<rparr>)"
  using assms by (simp add: lg_fflush_def fs_event_quiet lg_ok_def lg_text_def write_at_end)

lemma Flush_law:
  assumes "fs_script e = []" "lg_ok l e" "PosixLogger_Flush l e = (l', e')"
  shows "lg_ok l' e' \<and> lg_text l' e' = lg_text l e \<and> lg_inode l' = lg_inode l \<and> log_frame (lg_inode l) e e'"
proof -
  define r where "r = (if lg_flush_pending l then lg_fflush (l\<lparr>lg_flush_pending := False\<rparr>) e else (l, e))"
  obtain l1 e1 where r1: "r = (l1, e1)" by fastforce
  have "lg_ok (l\<lparr>lg_flush_pending := False\<rparr>) e" "lg_text (l\<lparr>lg_flush_pending := False\<rparr>) e = lg_text l e"
    using assms(2) by (simp_all add: lg_ok_def lg_text_def)
  with lg_fflush_quiet [OF assms(1) this(1)] r1 assms(1,2)
  have e1: "lg_ok l1 e1" "lg_text l1 e1 = lg_text l e" "lg_inode l1 = lg_inode l" "log_frame (lg_inode l) e e1"
    by (auto simp: r_def lg_ok_def lg_text_def log_frame_def split: if_splits)
  then have q: "fs_script e1 = []" by (simp add: log_frame_def)
  obtain t e2 where t: "NowMicros e1 = (t, e2)" by fastforce
  note n = NowMicros_frame(1) [OF t q, of "lg_inode l"] NowMicros_frame(2) [OF t q]
  have "lg_ok (l1\<lparr>lg_last_flush_micros := t\<rparr>) e2 = lg_ok l1 e1" "lg_text (l1\<lparr>lg_last_flush_micros := t\<rparr>) e2 = lg_text l1 e1"
    using n by (simp_all add: lg_ok_def lg_text_def)
  then show ?thesis
    using assms(3) e1 t n(1) log_frame_trans [OF e1(4) n(1)] r1
    by (auto simp: PosixLogger_Flush_def Let_def simp flip: r_def split: if_splits)
qed

lemma lg_write_law:
  assumes "fs_script e = []" "lg_ok l e"
  shows "\<exists>l' e'. lg_write now base l e = Some (l', e') \<and> lg_ok l' e' \<and> lg_text l' e' = lg_text l e @ base \<and>
    lg_inode l' = lg_inode l \<and> log_frame (lg_inode l) e e'"
proof -
  define l1 where "l1 = l\<lparr>lg_buffer := lg_buffer l @ base, lg_flush_pending := True,
    lg_log_size := lg_log_size l + of_nat (length base)\<rparr>"
  define l2 where "l2 = (if (of_nat (length base) :: u64) > 0 then l1 else l1\<lparr>lg_log_size := lg_log_size l\<rparr>)"
  have l2: "lg_inode l2 = lg_inode l" "lg_text l2 e = lg_text l e @ base" "lg_ok l2 e"
    using assms(2) by (auto simp: l2_def l1_def lg_ok_def lg_text_def word_gt_0)
  have "lg_write now base l e = Some (if lg_flush_every_seconds l2 = 0 then PosixLogger_Flush l2 e
      else if now - lg_last_flush_micros l2 \<ge> lg_flush_every_seconds l2 * 1000000 then PosixLogger_Flush l2 e else (l2, e))"
    using assms(1) by (simp add: lg_write_def fs_event_quiet Let_def l2_def l1_def)
  moreover obtain l3 e3 where f: "PosixLogger_Flush l2 e = (l3, e3)" by fastforce
  ultimately show ?thesis using Flush_law [OF assms(1) l2(3) f] l2 log_frame_refl [OF assms(1)]
    by (cases "lg_flush_every_seconds l2 = 0 \<or> now - lg_last_flush_micros l2 \<ge> lg_flush_every_seconds l2 * 1000000") auto
qed

lemma PosixLogger_Logv_law:
  assumes "fs_script e = []" "lg_ok l e"
  shows "\<exists>t l' e'. PosixLogger_Logv format ap l e = Some (l', e') \<and> lg_ok l' e' \<and>
    lg_text l' e' = lg_text l e @ log_line (le_stamp e t (le_tid e)) (le_fmt e format ap) \<and>
    lg_inode l' = lg_inode l \<and> log_frame (lg_inode l) e e'"
proof -
  let ?msg = "le_fmt e format ap"
  obtain t0 e0 where t0: "NowMicros e = (t0, e0)" by fastforce
  note f0 = NowMicros_frame(1) [OF t0 assms(1), of "lg_inode l"] NowMicros_frame(2) [OF t0 assms(1)]
  then have q0: "fs_script e0 = []" "le_stamp e0 = le_stamp e" "le_tid e0 = le_tid e" by (auto simp: log_frame_def)
  obtain t1 e1 where t1: "NowMicros e0 = (t1, e1)" by fastforce
  note f1 = NowMicros_frame(1) [OF t1 q0(1), of "lg_inode l"] NowMicros_frame(2) [OF t1 q0(1)]
  then have q1: "fs_script e1 = []" "le_stamp e1 = le_stamp e" "le_tid e1 = le_tid e" using q0 by (auto simp: log_frame_def)
  have ok: "lg_ok l e0" "lg_text l e0 = lg_text l e" "lg_ok l e1" "lg_text l e1 = lg_text l e"
    using assms(2) f0(2) f1(2) by (simp_all add: lg_ok_def lg_text_def)
  let ?st = "\<lambda>t. le_stamp e t (le_tid e)"
  show ?thesis
  proof (cases "length (?st t0 @ ?msg) \<ge> 500")
    case True
    then have "log_round False 500 (?st t0) ?msg = None" by (simp add: log_round_text)
    moreover have "log_round True 65536 (?st t1) ?msg = Some (log_line (?st t1) ?msg)"
      by (simp add: log_round_text log_line_def Let_def)
    ultimately have "PosixLogger_Logv format ap l e = lg_write t1 (log_line (?st t1) ?msg) l e1"
      using t0 t1 q0 q1 by (simp add: PosixLogger_Logv_def Let_def)
    with lg_write_law [OF q1(1) ok(3), of t1 "log_line (?st t1) ?msg"] log_frame_trans [OF f0(1) f1(1)] ok(4) show ?thesis
      by (metis log_frame_trans)
  next
    case False
    then have "take 499 (?st t0 @ ?msg) = take 65535 (?st t0 @ ?msg)" by simp
    with False have "log_round False 500 (?st t0) ?msg = Some (log_line (?st t0) ?msg)"
      by (simp only: log_round_text log_line_def) (simp add: Let_def)
    then have "PosixLogger_Logv format ap l e = lg_write t0 (log_line (?st t0) ?msg) l e0"
      using t0 q0 by (simp add: PosixLogger_Logv_def Let_def)
    with lg_write_law [OF q0(1) ok(1), of t0 "log_line (?st t0) ?msg"] f0(1) ok(2) show ?thesis
      by (metis log_frame_trans)
  qed
qed

subsection \<open>Levels in the log\<close>

text \<open>\<open>PosixLogger\<close> behind the pointers: \<open>LogHeader\<close> is the one of the base class.\<close>

definition PosixLogger_vt :: "(PosixLogger \<times> LogEnv) Logger_vt" where
  "PosixLogger_vt =
     \<lparr>lv_Logv = \<lambda>format ap (l, e). PosixLogger_Logv format ap l e,
      lv_LogHeader = \<lambda>format ap (l, e). PosixLogger_Logv format ap l e,
      lv_Flush = \<lambda>(l, e). Some (PosixLogger_Flush l e),
      lv_GetInfoLogLevel = \<lambda>(l, e). lg_log_level l\<rparr>"

lemma PosixLogger_Flush_level: "PosixLogger_Flush l e = (l', e') \<Longrightarrow> lg_log_level l' = lg_log_level l"
  by (auto simp: PosixLogger_Flush_def lg_fflush_def Let_def split: prod.splits option.splits if_splits)

lemma lg_write_level:
  assumes "lg_write now base l e = Some (l', e')"
  shows "lg_log_level l' = lg_log_level l"
proof -
  define l1 where "l1 = l\<lparr>lg_buffer := lg_buffer l @ base, lg_flush_pending := True\<rparr>"
  define l2 where "l2 = (if (of_nat (length base) :: u64) > 0 then l1\<lparr>lg_log_size := lg_log_size l1 + of_nat (length base)\<rparr> else l1)"
  have "lg_log_level l2 = lg_log_level l" by (simp add: l1_def l2_def)
  moreover have "(\<exists>e1. PosixLogger_Flush l2 e1 = (l', e')) \<or> l' = l2"
    using assms by (auto simp: lg_write_def Let_def simp flip: l1_def l2_def split: prod.splits option.splits if_splits)
  ultimately show ?thesis using PosixLogger_Flush_level by auto
qed

lemma PosixLogger_Logv_level: "PosixLogger_Logv format ap l e = Some (l', e') \<Longrightarrow> lg_log_level l' = lg_log_level l"
  by (auto simp: PosixLogger_Logv_def Let_def dest: lg_write_level split: prod.splits option.splits)

text \<open>What stands in front of a message in the log.\<close>

fun level_prefix :: "InfoLogLevel \<Rightarrow> string" where
  "level_prefix DEBUG_LEVEL = ''[DEBUG] ''"
| "level_prefix INFO_LEVEL = []"
| "level_prefix WARN_LEVEL = ''[WARN] ''"
| "level_prefix ERROR_LEVEL = ''[ERROR] ''"
| "level_prefix FATAL_LEVEL = ''[FATAL] ''"
| "level_prefix HEADER_LEVEL = []"
| "level_prefix NUM_INFO_LOG_LEVELS = []"

text \<open>The line of a message, with the format cut to the array of 500 bytes unless the level is \<open>INFO_LEVEL\<close>.\<close>

definition leveled_line :: "LogEnv \<Rightarrow> u64 \<Rightarrow> InfoLogLevel \<times> bytes \<times> va_arg list \<Rightarrow> bytes" where
  "leveled_line e t m =
     (case m of (level, format, ap) \<Rightarrow>
        log_line (le_stamp e t (le_tid e))
          (le_fmt e (if level = INFO_LEVEL then format else take 498 (cstr (level_prefix level) @ format)) ap))"

text \<open>A client that logs a list of messages, each on a level of its own, through one of the functions.\<close>

fun log_each ::
    "(InfoLogLevel \<Rightarrow> 's Logger_vt \<Rightarrow> 's option \<Rightarrow> bytes \<Rightarrow> va_arg list \<Rightarrow> 's option option) \<Rightarrow> 's Logger_vt \<Rightarrow>
     (InfoLogLevel \<times> bytes \<times> va_arg list) list \<Rightarrow> 's option \<Rightarrow> 's option option" where
  "log_each log vt [] info_log = Some info_log"
| "log_each log vt ((level, format, ap) # ms) info_log = do {
     info_log \<leftarrow> log level vt info_log format ap;
     log_each log vt ms info_log
   }"

lemma level_format_prefix:
  "level \<le> FATAL_LEVEL \<Longrightarrow> level \<noteq> INFO_LEVEL \<Longrightarrow>
     level_format (kInfoLogLevelNames ! level_no level) format = take 498 (cstr (level_prefix level) @ format)"
  by (cases level) (simp_all add: level_order level_format_def kInfoLogLevelNames_def cstr_def)

lemma log_step_law:
  assumes "fs_script e = []" "lg_ok l e" "level \<le> FATAL_LEVEL"
  shows "\<exists>l' e'. shared_Log_level level PosixLogger_vt (Some (l, e)) format ap = Some (Some (l', e')) \<and> lg_ok l' e' \<and>
    lg_log_level l' = lg_log_level l \<and> lg_inode l' = lg_inode l \<and> log_frame (lg_inode l) e e' \<and>
    (if lg_log_level l \<le> level then (\<exists>t. lg_text l' e' = lg_text l e @ leveled_line e t (level, format, ap))
     else lg_text l' e' = lg_text l e)"
proof (cases "lg_log_level l \<le> level")
  case False
  then show ?thesis
    using assms(1,2) by (auto simp: shared_Log_level_def Logger_Logv_def PosixLogger_vt_def not_le log_frame_refl)
next
  case True
  let ?f = "if level = INFO_LEVEL then format else take 498 (cstr (level_prefix level) @ format)"
  have n: "level_no level < length kInfoLogLevelNames" using assms(3) by (simp add: level_order kInfoLogLevelNames_def)
  have eq: "shared_Log_level level PosixLogger_vt (Some (l, e)) format ap = map_option Some (PosixLogger_Logv ?f ap l e)"
    using True n level_format_prefix [OF assms(3)]
    by (simp add: shared_Log_level_def Logger_Logv_def PosixLogger_vt_def not_less [symmetric])
  obtain t l' e' where r: "PosixLogger_Logv ?f ap l e = Some (l', e')" "lg_ok l' e'" "lg_inode l' = lg_inode l"
      "log_frame (lg_inode l) e e'" "lg_text l' e' = lg_text l e @ log_line (le_stamp e t (le_tid e)) (le_fmt e ?f ap)"
    using PosixLogger_Logv_law [OF assms(1,2), of ?f ap] by blast
  have added: "lg_text l' e' = lg_text l e @ leveled_line e t (level, format, ap)"
    using r(5) unfolding leveled_line_def prod.case .
  have "shared_Log_level level PosixLogger_vt (Some (l, e)) format ap = Some (Some (l', e'))" using eq r(1) by simp
  then show ?thesis
    using r(2-4) PosixLogger_Logv_level [OF r(1)] True added
    by (intro exI [of _ l'] exI [of _ e']) (simp only: simp_thms if_True, blast)
qed

lemma log_each_law:
  assumes "fs_script e = []" "lg_ok l e" "\<forall>m \<in> set ms. fst m \<le> FATAL_LEVEL"
  shows "\<exists>l' e' ts. log_each shared_Log_level PosixLogger_vt ms (Some (l, e)) = Some (Some (l', e')) \<and> lg_ok l' e' \<and>
    length ts = length (filter (\<lambda>m. lg_log_level l \<le> fst m) ms) \<and> log_frame (lg_inode l) e e' \<and>
    lg_text l' e' = lg_text l e @ concat (map2 (leveled_line e) ts (filter (\<lambda>m. lg_log_level l \<le> fst m) ms))"
  using assms
proof (induction ms arbitrary: l e)
  case Nil
  then show ?case by (simp add: log_frame_refl)
next
  case (Cons m ms)
  obtain level format ap where m: "m = (level, format, ap)" by (cases m)
  with Cons.prems(3) have "level \<le> FATAL_LEVEL" by simp
  from log_step_law [OF Cons.prems(1,2) this, of format ap] obtain l1 e1 where
    s: "shared_Log_level level PosixLogger_vt (Some (l, e)) format ap = Some (Some (l1, e1))" "lg_ok l1 e1"
      "lg_log_level l1 = lg_log_level l" "lg_inode l1 = lg_inode l" "log_frame (lg_inode l) e e1"
      "if lg_log_level l \<le> level then (\<exists>t. lg_text l1 e1 = lg_text l e @ leveled_line e t m)
       else lg_text l1 e1 = lg_text l e" unfolding m by blast
  have "fs_script e1 = []" "leveled_line e1 = leveled_line e"
    using s(5) by (auto simp: log_frame_def leveled_line_def fun_eq_iff)
  from Cons.IH [OF this(1) s(2), unfolded s(3,4) this(2)] Cons.prems(3) obtain l' e' ts where
    r: "log_each shared_Log_level PosixLogger_vt ms (Some (l1, e1)) = Some (Some (l', e'))" "lg_ok l' e'"
      "length ts = length (filter (\<lambda>m. lg_log_level l \<le> fst m) ms)" "log_frame (lg_inode l) e1 e'"
      "lg_text l' e' = lg_text l1 e1 @ concat (map2 (leveled_line e) ts (filter (\<lambda>m. lg_log_level l \<le> fst m) ms))"
    by (metis list.set_intros(2))
  have frame: "log_frame (lg_inode l) e e'" using log_frame_trans [OF s(5) r(4)] .
  show ?case
  proof (cases "lg_log_level l \<le> level")
    case True
    with s(6) obtain t where "lg_text l1 e1 = lg_text l e @ leveled_line e t m" by auto
    with r s(1) True frame m show ?thesis by (intro exI [of _ l'] exI [of _ e'] exI [of _ "t # ts"]) simp
  next
    case False
    with r s(1,6) frame m show ?thesis by (intro exI [of _ l'] exI [of _ e'] exI [of _ ts]) simp
  qed
qed

lemma log_each_plain:
  assumes "\<forall>m \<in> set ms. fst m \<le> FATAL_LEVEL"
  shows "log_each Log_level vt ms info_log = log_each shared_Log_level vt ms info_log"
  using assms
proof (induction ms arbitrary: info_log)
  case (Cons m ms)
  obtain level format ap where m: "m = (level, format, ap)" by (cases m)
  have "Log_level level vt info_log format ap = shared_Log_level level vt info_log format ap"
    using log_levels Cons.prems m by fastforce
  then show ?case using Cons m by (cases "shared_Log_level level vt info_log format ap") simp_all
qed simp

text \<open>C20. What an info log holds. Let messages on any levels from \<open>DEBUG_LEVEL\<close> to \<open>FATAL_LEVEL\<close> be logged to a
  \<open>PosixLogger\<close>, through a plain or a shared pointer, and let no call fail. Then the log (its file and what the
  stream still buffers) has grown by exactly one line for every message at or above the level of the logger, in
  order: the time stamp, the literal \<open>[DEBUG]\<close>, \<open>[WARN]\<close>, \<open>[ERROR]\<close> or \<open>[FATAL]\<close> and a blank for the levels
  other than \<open>INFO_LEVEL\<close> (the format then cut to 498 bytes), the formatted message, and one newline. Messages
  below the level leave no trace, and no other file changes.\<close>

theorem posix_log_levels:
  assumes "fs_script e = []" and "lg_ok l e" and "\<forall>m \<in> set ms. fst m \<le> FATAL_LEVEL"
  shows "\<exists>l' e' ts. log_each Log_level PosixLogger_vt ms (Some (l, e)) = Some (Some (l', e')) \<and>
    log_each shared_Log_level PosixLogger_vt ms (Some (l, e)) = Some (Some (l', e')) \<and> lg_ok l' e' \<and>
    length ts = length (filter (\<lambda>m. lg_log_level l \<le> fst m) ms) \<and>
    lg_text l' e' = lg_text l e @ concat (map2 (leveled_line e) ts (filter (\<lambda>m. lg_log_level l \<le> fst m) ms)) \<and>
    fs_names e' = fs_names e \<and> (\<forall>j. j \<noteq> lg_inode l \<longrightarrow> fs_inodes e' j = fs_inodes e j)"
  using log_each_law [OF assms] log_each_plain [OF assms(3), of PosixLogger_vt "Some (l, e)"]
  by (auto simp: log_frame_def)

definition quiet_log_env :: LogEnv where
  "quiet_log_env =
     \<lparr>fs_names = [], fs_inodes = (\<lambda>i. []), fs_next_inode = 2,
      fs_flocks = (\<lambda>i. None), fs_pid = 100, fs_fds = 3, fs_errno = 0, fs_script = [], fs_fread = [], fs_strerror = (\<lambda>e. []),
      pe_checkedDiskForMmap = False, pe_forceMmapOff = False, pe_page_size = 4096, pe_lockedFiles = [],
      pe_statfs = (\<lambda>p. None), pe_mmap_at = 65536,
      le_now = 1000, le_times = [], le_tid = 7, le_stamp = (\<lambda>t i. cstr ''now ''), le_fmt = (\<lambda>f ap. f)\<rparr>"

theorem posix_log_levels_witness:
  "\<exists>l' e'. log_each Log_level PosixLogger_vt
      [(WARN_LEVEL, cstr ''low'', []), (FATAL_LEVEL, cstr ''full'', []), (ERROR_LEVEL, cstr ''x'', [])]
      (Some (PosixLogger_init 1 0, quiet_log_env)) = Some (Some (l', e')) \<and>
    lg_text l' e' = cstr ''now [FATAL] full'' @ [10] @ cstr ''now [ERROR] x'' @ [10]"
proof -
  define ms where "ms = [(WARN_LEVEL, cstr ''low'', []), (FATAL_LEVEL, cstr ''full'', []), (ERROR_LEVEL, cstr ''x'', [] :: va_arg list)]"
  have ok: "fs_script quiet_log_env = []" "lg_ok (PosixLogger_init 1 0) quiet_log_env"
    "lg_text (PosixLogger_init 1 0) quiet_log_env = []" "lg_log_level (PosixLogger_init 1 0) = ERROR_LEVEL"
    by (simp_all add: quiet_log_env_def lg_ok_def lg_text_def PosixLogger_init_def)
  have low: "\<forall>m \<in> set ms. fst m \<le> FATAL_LEVEL" by (simp add: ms_def level_order)
  have kept: "filter (\<lambda>m. ERROR_LEVEL \<le> fst m) ms = [(FATAL_LEVEL, cstr ''full'', []), (ERROR_LEVEL, cstr ''x'', [])]"
    by (simp add: ms_def level_order)
  obtain l' e' ts where r: "log_each Log_level PosixLogger_vt ms (Some (PosixLogger_init 1 0, quiet_log_env)) = Some (Some (l', e'))"
      "length ts = length [(FATAL_LEVEL, cstr ''full'', [] :: va_arg list), (ERROR_LEVEL, cstr ''x'', [])]"
      "lg_text l' e' = concat (map2 (leveled_line quiet_log_env) ts [(FATAL_LEVEL, cstr ''full'', []), (ERROR_LEVEL, cstr ''x'', [])])"
    using posix_log_levels [OF ok(1,2) low, unfolded ok(3,4) kept append_Nil] by blast
  obtain t u where "ts = [t, u]" using r(2) by (auto simp: length_Suc_conv)
  then have "lg_text l' e' = cstr ''now [FATAL] full'' @ [10] @ cstr ''now [ERROR] x'' @ [10]"
    using r(3) by (simp add: leveled_line_def log_line_def quiet_log_env_def cstr_def)
  with r(1) show ?thesis unfolding ms_def by blast
qed

subsection \<open>Names of old logs\<close>

lemma of_char_byte_inject: "(of_char c :: byte) = of_char d \<longleftrightarrow> c = d"
proof
  assume "(of_char c :: byte) = of_char d"
  then have "(of_nat (of_char c) :: byte) = of_nat (of_char d)" by (simp only: of_nat_of_char)
  then have "unat (of_nat (of_char c) :: byte) = unat (of_nat (of_char d) :: byte)" by (rule arg_cong)
  then have "(of_char c :: nat) = of_char d" by (simp only: unat_of_nat) (simp add: take_bit_nat_eq_self)
  then show "c = d" by simp
qed simp

lemma cstr_inject: "cstr s = cstr t \<longleftrightarrow> s = t"
  unfolding cstr_def by (rule inj_map_eq_map) (simp add: inj_def of_char_byte_inject)

lemma digit_inject: "a < 10 \<Longrightarrow> b < 10 \<Longrightarrow> char_of (48 + a) = char_of (48 + b :: nat) \<longleftrightarrow> a = b"
  by (simp add: char_of_eq_iff take_bit_nat_eq_self)

lemma decimal_ne: "decimal n \<noteq> []"
  by (subst decimal.simps) simp

lemma decimal_single: "decimal n = [c] \<longleftrightarrow> n < 10 \<and> c = char_of (48 + n)"
  by (subst decimal.simps) (auto simp: decimal_ne)

lemma decimal_inject: "decimal m = decimal n \<longleftrightarrow> m = n"
proof
  show "decimal m = decimal n \<Longrightarrow> m = n"
  proof (induction m arbitrary: n rule: decimal.induct)
    case (1 m)
    show ?case
    proof (cases "m < 10 \<or> n < 10")
      case True
      then have "m < 10 \<and> n < 10 \<and> char_of (48 + m) = char_of (48 + n)"
        using 1(2) decimal_single [of m] decimal_single [of n] by metis
      then show ?thesis using digit_inject by blast
    next
      case False
      then have "decimal (m div 10) = decimal (n div 10)" "char_of (48 + m mod 10) = char_of (48 + n mod 10)"
        using 1(2) decimal.simps [of m] decimal.simps [of n] by auto
      then have "m div 10 = n div 10" "m mod 10 = n mod 10" using 1(1) False digit_inject [of "m mod 10" "n mod 10"] by auto
      then show ?thesis by (metis div_mult_mod_eq)
    qed
  qed
qed simp

lemma decimal_no_slash: "47 \<notin> set (cstr (decimal n))"
proof (induction n rule: decimal.induct)
  case (1 n)
  have slash: "(47 :: byte) = of_char (CHR ''/'')" by simp
  have "of_char (char_of (48 + d :: nat)) \<noteq> (47 :: byte)" if "d < 10" for d
    unfolding slash of_char_byte_inject using that by (simp add: char_of_eq_iff take_bit_nat_eq_self)
  then show ?case using 1 by (subst decimal.simps) (auto simp: cstr_def)
qed

lemma fs_parent_in: "47 \<notin> set name \<Longrightarrow> fs_parent (dir @ 47 # name) = Some dir"
proof -
  assume "47 \<notin> set name"
  then have "dropWhile (\<lambda>c. c \<noteq> 47) (rev name @ 47 # rev dir) = 47 # rev dir"
    by (subst dropWhile_append2) auto
  then show ?thesis by (simp add: fs_parent_def)
qed

lemma fs_lookup_in:
  assumes "47 \<notin> set name" "2 < length name"
  shows "fs_lookup (dir @ 47 # name) e = map_of (fs_names e) (dir @ 47 # name)"
  using assms(2) by (auto simp: fs_lookup_def fs_parent_in [OF assms(1)] fs_dots_def split: option.splits)

lemma log_names:
  "InfoLogFileName dir = dir @ 47 # cstr ''LOG''"
  "OldInfoLogFileName dir ts = dir @ 47 # cstr ''LOG.old.'' @ cstr (decimal (unat ts))"
  by (simp_all add: InfoLogFileName_def OldInfoLogFileName_def cstr_def)

lemma log_names_slash: "47 \<notin> set (cstr ''LOG'')" "47 \<notin> set (cstr ''LOG.old.'' @ cstr (decimal n))"
  using decimal_no_slash by (simp_all add: cstr_def)

lemma fs_lookup_log:
  "fs_lookup (InfoLogFileName dir) e = map_of (fs_names e) (InfoLogFileName dir)"
  "fs_lookup (OldInfoLogFileName dir ts) e = map_of (fs_names e) (OldInfoLogFileName dir ts)"
  unfolding log_names by (rule fs_lookup_in [OF log_names_slash(1)], simp add: cstr_def, rule fs_lookup_in [OF log_names_slash(2)], simp add: cstr_def)

lemma fs_parent_log: "fs_parent (InfoLogFileName dir) = Some dir" "fs_parent (OldInfoLogFileName dir ts) = Some dir"
  unfolding log_names by (rule fs_parent_in [OF log_names_slash(1)], rule fs_parent_in [OF log_names_slash(2)])

lemma Old_inject: "OldInfoLogFileName dir ts = OldInfoLogFileName dir us \<longleftrightarrow> ts = us"
  by (simp add: OldInfoLogFileName_def cstr_inject decimal_inject unsigned_word_eqI word_unat_eq_iff)

lemma Old_ne: "OldInfoLogFileName dir ts \<noteq> InfoLogFileName dir" "OldInfoLogFileName dir ts \<noteq> dir" "InfoLogFileName dir \<noteq> dir"
proof -
  have "length (OldInfoLogFileName dir ts) > length dir + 4" "length (InfoLogFileName dir) = length dir + 4"
    by (simp_all add: log_names cstr_def)
  then show "OldInfoLogFileName dir ts \<noteq> InfoLogFileName dir" "OldInfoLogFileName dir ts \<noteq> dir" "InfoLogFileName dir \<noteq> dir" by auto
qed

text \<open>Among all times there is one whose name is free, as there are fewer than $2^{64}$ names.\<close>

lemma free_old_name:
  assumes "card (dom (map_of (fs_names e))) < 2 ^ 64"
  shows "\<exists>k. map_of (fs_names e) (OldInfoLogFileName dir (now + of_nat k)) = None \<and>
    (\<forall>j < k. map_of (fs_names e) (OldInfoLogFileName dir (now + of_nat j)) \<noteq> None)"
proof -
  let ?free = "\<lambda>k. map_of (fs_names e) (OldInfoLogFileName dir (now + of_nat k)) = None"
  have "\<exists>ts. map_of (fs_names e) (OldInfoLogFileName dir ts) = None"
  proof (rule ccontr)
    assume "\<not> ?thesis"
    then have sub: "range (OldInfoLogFileName dir) \<subseteq> dom (map_of (fs_names e))" by auto
    have "card (range (OldInfoLogFileName dir)) = card (UNIV :: u64 set)"
      by (rule card_image) (simp add: inj_def Old_inject)
    also have "\<dots> = 2 ^ 64" by (simp add: card_word)
    finally show False using card_mono [OF _ sub] assms by (simp add: finite_dom_map_of)
  qed
  then obtain ts where "map_of (fs_names e) (OldInfoLogFileName dir ts) = None" by blast
  then have "?free (unat (ts - now))" by simp
  then have "\<exists>k. ?free k" by blast
  then have "?free (LEAST k. ?free k)" "\<forall>j < (LEAST k. ?free k). \<not> ?free j" using not_less_Least by (auto intro: LeastI_ex)
  then show ?thesis by blast
qed

lemma FileExists_quiet:
  assumes "fs_script e = []"
  shows "FileExists p e = Some (if fs_lookup p e = None then (Status_NotFound_sub kNone, fs_error ENOENT e) else (Status_OK, e))"
  using assms
  by (auto simp: FileExists_def sys_access_def sys_stat_def fs_event_quiet fs_error_def path_errno_values split: option.splits node.splits)

lemma roll_name_quiet:
  assumes "fs_script e = []" "map_of (fs_names e) (OldInfoLogFileName dir (now + of_nat k)) = None"
    and "\<forall>j < k. map_of (fs_names e) (OldInfoLogFileName dir (now + of_nat j)) \<noteq> None"
  shows "roll_name dir now e = Some (OldInfoLogFileName dir (now + of_nat k), fs_error ENOENT e)"
  using assms(2,3)
proof (induction k arbitrary: now)
  case 0
  then show ?case
    by (subst roll_name.simps) (simp add: FileExists_quiet [OF assms(1)] fs_lookup_log Status_ok_def Status_NotFound_sub_def Status_sub_def)
next
  case (Suc k)
  have "map_of (fs_names e) (OldInfoLogFileName dir now) \<noteq> None" using Suc.prems(2) by force
  moreover have "roll_name dir (now + 1) e = Some (OldInfoLogFileName dir (now + of_nat (Suc k)), fs_error ENOENT e)"
  proof -
    have "map_of (fs_names e) (OldInfoLogFileName dir (now + 1 + of_nat j)) \<noteq> None" if "j < k" for j
      using Suc.prems(2) [rule_format, of "Suc j"] that by (simp add: add.assoc)
    then show ?thesis using Suc.IH [of "now + 1"] Suc.prems(1) by (simp add: add.assoc)
  qed
  ultimately show ?case
    by (subst roll_name.simps) (auto simp: FileExists_quiet [OF assms(1)] fs_lookup_log Let_def)
qed

subsection \<open>Rolling\<close>

text \<open>Files have inodes that were given out.\<close>

definition fs_wf :: "'a fs_scheme \<Rightarrow> bool" where
  "fs_wf e \<longleftrightarrow> (\<forall>p i. map_of (fs_names e) p = Some (Reg i) \<longrightarrow> i < fs_next_inode e)"

definition log_dir_ok :: "path \<Rightarrow> 'a fs_scheme \<Rightarrow> bool" where
  "log_dir_ok dir e \<longleftrightarrow> dir = [] \<or> map_of (fs_names e) dir = Some Dir"

lemma log_dir_parent:
  "log_dir_ok dir e \<Longrightarrow> fs_parent_ok (InfoLogFileName dir) e" "log_dir_ok dir e \<Longrightarrow> fs_parent_ok (OldInfoLogFileName dir ts) e"
  by (auto simp: fs_parent_ok_def fs_parent_log log_dir_ok_def fs_lookup_def)

lemma RollLogFile_quiet:
  assumes "fs_script e = []" "card (dom (map_of (fs_names e))) < 2 ^ 64" "ar_log_fname a = InfoLogFileName (ar_log_path a)"
    and "log_dir_ok (ar_log_path a) e" "map_of (fs_names e) (ar_log_fname a) = Some (Reg i)"
  shows "\<exists>ts e'. RollLogFile a e = Some e' \<and> map_of (fs_names e) (OldInfoLogFileName (ar_log_path a) ts) = None \<and>
    map_of (fs_names e') = ((map_of (fs_names e))(ar_log_fname a := None))(OldInfoLogFileName (ar_log_path a) ts \<mapsto> Reg i) \<and>
    log_frame j (e\<lparr>fs_names := fs_names e'\<rparr>) e' \<and> fs_inodes e' = fs_inodes e"
proof -
  let ?dir = "ar_log_path a"
  obtain t e1 where t: "NowMicros e = (t, e1)" by fastforce
  note f1 = NowMicros_frame(1) [OF t assms(1), of j] NowMicros_frame(2) [OF t assms(1)]
  then have q1: "fs_script e1 = []" "fs_names e1 = fs_names e" by (simp_all add: log_frame_def)
  obtain k where k: "map_of (fs_names e1) (OldInfoLogFileName ?dir (t + of_nat k)) = None"
      "\<forall>j < k. map_of (fs_names e1) (OldInfoLogFileName ?dir (t + of_nat j)) \<noteq> None"
    using free_old_name [of e1 ?dir t] assms(2) q1(2) by auto
  define old where "old = OldInfoLogFileName ?dir (t + of_nat k)"
  have name: "roll_name ?dir t e1 = Some (old, fs_error ENOENT e1)" unfolding old_def by (rule roll_name_quiet [OF q1(1) k])
  define e2 where "e2 = fs_error ENOENT e1"
  have e2: "fs_script e2 = []" "fs_names e2 = fs_names e" "fs_inodes e2 = fs_inodes e" using q1 f1 by (simp_all add: e2_def fs_error_def)
  have look: "fs_lookup (ar_log_fname a) e2 = Some (Reg i)" "fs_lookup old e2 = None"
    using assms(3,5) k(1) e2(2) q1(2) by (simp_all add: fs_lookup_log old_def)
  have par: "fs_parent_ok old e2" using assms(4) log_dir_parent(2) [of ?dir e2] by (simp add: old_def log_dir_ok_def e2(2))
  define e3 where "e3 = e2\<lparr>fs_names := AList.delete old (AList.delete (ar_log_fname a) (fs_names e2)) @ [(old, Reg i)]\<rparr>"
  have "sys_rename (ar_log_fname a) old e2 = (0, e3)"
    using look par by (simp add: sys_rename_def fs_event_quiet [OF e2(1)] e3_def)
  then have "RollLogFile a e = Some e3"
    using t name by (simp add: RollLogFile_def RenameFile_def fs_checked_def flip: e2_def)
  moreover have "map_of (fs_names e3) = ((map_of (fs_names e))(ar_log_fname a := None))(old \<mapsto> Reg i)"
    by (simp add: e3_def e2(2) map_of_delete_add)
  moreover have "log_frame j (e\<lparr>fs_names := fs_names e3\<rparr>) e3" "fs_inodes e3 = fs_inodes e"
    using f1 q1 by (auto simp: e3_def e2_def fs_error_def log_frame_def)
  ultimately show ?thesis using k(1) q1(2) by (auto simp: old_def)
qed

lemma RollLogFile_absent:
  assumes "fs_script e = []" "card (dom (map_of (fs_names e))) < 2 ^ 64" "ar_log_fname a = InfoLogFileName (ar_log_path a)"
    and "map_of (fs_names e) (ar_log_fname a) = None"
  shows "\<exists>e'. RollLogFile a e = Some e' \<and> log_frame j e e' \<and> fs_inodes e' = fs_inodes e"
proof -
  let ?dir = "ar_log_path a"
  obtain t e1 where t: "NowMicros e = (t, e1)" by fastforce
  note f1 = NowMicros_frame(1) [OF t assms(1), of j] NowMicros_frame(2) [OF t assms(1)]
  then have q1: "fs_script e1 = []" "fs_names e1 = fs_names e" by (simp_all add: log_frame_def)
  obtain k where "map_of (fs_names e1) (OldInfoLogFileName ?dir (t + of_nat k)) = None"
      "\<forall>j < k. map_of (fs_names e1) (OldInfoLogFileName ?dir (t + of_nat j)) \<noteq> None"
    using free_old_name [of e1 ?dir t] assms(2) q1(2) by auto
  from roll_name_quiet [OF q1(1) this] obtain old where name: "roll_name ?dir t e1 = Some (old, fs_error ENOENT e1)" by blast
  have "fs_lookup (ar_log_fname a) (fs_error ENOENT e1) = None" "fs_script (fs_error ENOENT e1) = []"
    using assms(3,4) q1 by (simp_all add: fs_lookup_log fs_error_def)
  then have "sys_rename (ar_log_fname a) old (fs_error ENOENT e1) = (-1, fs_error ENOENT (fs_error ENOENT e1))"
    by (simp add: sys_rename_def fs_event_quiet)
  then have "RollLogFile a e = Some (fs_error ENOENT (fs_error ENOENT e1))"
    using t name by (simp add: RollLogFile_def RenameFile_def fs_checked_def)
  then show ?thesis using f1 by (auto simp: fs_error_def log_frame_def)
qed

lemma PosixLogger_destroy_quiet:
  assumes "fs_script e = []" "lg_ok l e"
  shows "log_frame (lg_inode l) e (PosixLogger_destroy l e)" "fs_inodes (PosixLogger_destroy l e) = (fs_inodes e)(lg_inode l := lg_text l e)"
  using assms(1) by (simp_all add: PosixLogger_destroy_def lg_fflush_quiet [OF assms] fs_close_def log_frame_def)

text \<open>After the old log is out of the way a new file is opened, and the old one is written out.\<close>

lemma ResetLogger_quiet:
  assumes "fs_script e = []" "ar_log_fname a = InfoLogFileName (ar_log_path a)" "log_dir_ok (ar_log_path a) e"
    and "map_of (fs_names e) (ar_log_fname a) = None" "ar_logger a = Some l" "lg_ok l e" "lg_inode l < fs_next_inode e"
  shows "\<exists>a' e' l'. ResetLogger a e = Some (Status_OK, a', e') \<and> ar_logger a' = Some l' \<and> lg_ok l' e' \<and> lg_text l' e' = [] \<and>
    lg_inode l' = fs_next_inode e \<and> fs_next_inode e' = Suc (fs_next_inode e) \<and> fs_script e' = [] \<and>
    map_of (fs_names e') = (map_of (fs_names e))(ar_log_fname a \<mapsto> Reg (fs_next_inode e)) \<and>
    fs_inodes e' = ((fs_inodes e)(fs_next_inode e := []))(lg_inode l := lg_text l e) \<and>
    le_tid e' = le_tid e \<and> le_stamp e' = le_stamp e \<and> le_fmt e' = le_fmt e \<and>
    ar_log_fname a' = ar_log_fname a \<and> ar_log_path a' = ar_log_path a \<and> ar_headers a' = ar_headers a \<and> ar_status a' = Status_OK"
proof -
  let ?n = "fs_next_inode e"
  define e1 where "e1 = e\<lparr>fs_fds := Suc (fs_fds e), fs_names := fs_names e @ [(ar_log_fname a, Reg ?n)],
    fs_inodes := (fs_inodes e)(?n := []), fs_next_inode := Suc ?n\<rparr>"
  have "fs_lookup (ar_log_fname a) e = None" "fs_parent_ok (ar_log_fname a) e"
    using assms(2-4) log_dir_parent(1) by (simp_all add: fs_lookup_log)
  then have "fs_open True True (ar_log_fname a) e = (Some ?n, e1)" using assms(1) by (simp add: fs_open_def fs_event_quiet e1_def)
  then have new: "NewLogger (ar_log_fname a) (ar_flush_every_seconds a) e = (Status_OK, Some (PosixLogger_init ?n (ar_flush_every_seconds a)), e1)"
    using assms(1) by (simp add: NewLogger_def fs_event_def e1_def)
  have ok: "lg_ok l e1" "lg_text l e1 = lg_text l e" using assms(6,7) by (simp_all add: lg_ok_def lg_text_def e1_def)
  have q: "fs_script e1 = []" using assms(1) by (simp add: e1_def)
  define e2 where "e2 = PosixLogger_destroy l e1"
  note e2 = PosixLogger_destroy_quiet [OF q ok(1), folded e2_def]
  then have q2: "fs_script e2 = []" "fs_names e2 = fs_names e1" "fs_next_inode e2 = fs_next_inode e1" "le_tid e2 = le_tid e" "le_stamp e2 = le_stamp e" "le_fmt e2 = le_fmt e"
    by (simp_all add: log_frame_def e1_def)
  obtain t e3 where t: "NowMicros e2 = (t, e3)" by fastforce
  note f3 = NowMicros_frame(1) [OF t q2(1), of 0] NowMicros_frame(2) [OF t q2(1)]
  define l' where "l' = PosixLogger_init ?n (ar_flush_every_seconds a)"
  define a' where "a' = a\<lparr>ar_logger := Some l', ar_status := Status_OK, ar_cached_now := t div 1000000, ar_ctime := t div 1000000, ar_cached_now_access_count := 0\<rparr>"
  have "ResetLogger a e = Some (Status_OK, a', e3)"
    using assms(5) t by (simp add: ResetLogger_def new reset_logger_def NowSeconds_def PosixLogger_GetLogFileSize_def
        PosixLogger_init_def Let_def a'_def l'_def flip: e2_def)
  moreover have "lg_ok l' e3" "lg_text l' e3 = []" "lg_inode l' = ?n"
    using f3 e2 assms(7) by (simp_all add: lg_ok_def lg_text_def l'_def PosixLogger_init_def e1_def)
  moreover have "map_of (fs_names e3) = (map_of (fs_names e))(ar_log_fname a \<mapsto> Reg ?n)"
    using f3 q2 assms(4) by (auto simp: log_frame_def e1_def fun_eq_iff map_add_def split: option.splits)
  ultimately show ?thesis
    using f3 e2 q2 ok(2) by (auto simp: a'_def log_frame_def e1_def)
qed

lemma LogInternal_law:
  assumes "fs_script e = []" "ar_logger a = Some l" "lg_ok l e"
  shows "\<exists>t l' e'. LogInternal format ap a e = Some (a\<lparr>ar_logger := Some l'\<rparr>, e') \<and> lg_ok l' e' \<and>
    lg_text l' e' = lg_text l e @ log_line (le_stamp e t (le_tid e)) (le_fmt e format ap) \<and>
    lg_inode l' = lg_inode l \<and> log_frame (lg_inode l) e e'"
proof -
  obtain t l' e' where "PosixLogger_Logv format ap l e = Some (l', e')" "lg_ok l' e'"
      "lg_text l' e' = lg_text l e @ log_line (le_stamp e t (le_tid e)) (le_fmt e format ap)"
      "lg_inode l' = lg_inode l" "log_frame (lg_inode l) e e'"
    using PosixLogger_Logv_law [OF assms(1,3), of format ap] by blast
  then show ?thesis using assms(2) by (auto simp: LogInternal_def)
qed

text \<open>The headers with the times at which they are written.\<close>

definition header_text :: "LogEnv \<Rightarrow> u64 list \<Rightarrow> bytes list \<Rightarrow> bytes" where
  "header_text e ts headers = concat (map2 (\<lambda>t h. log_line (le_stamp e t (le_tid e)) (le_fmt e (cstr ''%s'') [VStr h])) ts headers)"

lemma write_headers_law:
  assumes "fs_script e = []" "ar_logger a = Some l" "lg_ok l e"
  shows "\<exists>ts l' e'. write_headers headers a e = Some (a\<lparr>ar_logger := Some l'\<rparr>, e') \<and> lg_ok l' e' \<and>
    length ts = length headers \<and> lg_text l' e' = lg_text l e @ header_text e ts headers \<and>
    lg_inode l' = lg_inode l \<and> log_frame (lg_inode l) e e'"
  using assms
proof (induction headers arbitrary: a e l)
  case Nil
  then show ?case by (auto simp: header_text_def log_frame_refl intro!: exI [of _ l] exI [of _ e])
next
  case (Cons h hs)
  obtain t l1 e1 where 1: "LogInternal (cstr ''%s'') [VStr h] a e = Some (a\<lparr>ar_logger := Some l1\<rparr>, e1)" "lg_ok l1 e1"
      "lg_text l1 e1 = lg_text l e @ log_line (le_stamp e t (le_tid e)) (le_fmt e (cstr ''%s'') [VStr h])"
      "lg_inode l1 = lg_inode l" "log_frame (lg_inode l) e e1"
    using LogInternal_law [OF Cons.prems, of "cstr ''%s''" "[VStr h]"] by blast
  then have q: "fs_script e1 = []" "header_text e1 = header_text e" by (simp_all add: log_frame_def header_text_def fun_eq_iff)
  obtain ts l2 e2 where 2: "write_headers hs (a\<lparr>ar_logger := Some l1\<rparr>) e1 = Some (a\<lparr>ar_logger := Some l2\<rparr>, e2)" "lg_ok l2 e2"
      "length ts = length hs" "lg_text l2 e2 = lg_text l1 e1 @ header_text e ts hs" "lg_inode l2 = lg_inode l" "log_frame (lg_inode l) e1 e2"
    using Cons.IH [OF q(1) _ 1(2), of "a\<lparr>ar_logger := Some l1\<rparr>"] 1(4) q(2) by auto
  show ?case
    using 1 2 log_frame_trans [OF 1(5) 2(6)]
    by (auto simp: header_text_def intro!: exI [of _ "t # ts"] exI [of _ l2])
qed

text \<open>A logger in use: its file is the one under the name of the log.\<close>

definition ar_ok :: "AutoRollLogger \<Rightarrow> PosixLogger \<Rightarrow> LogEnv \<Rightarrow> bool" where
  "ar_ok a l e \<longleftrightarrow> fs_script e = [] \<and> Status_ok (ar_status a) \<and> ar_log_fname a = InfoLogFileName (ar_log_path a) \<and>
     log_dir_ok (ar_log_path a) e \<and> fs_wf e \<and> ar_logger a = Some l \<and> lg_ok l e \<and>
     map_of (fs_names e) (ar_log_fname a) = Some (Reg (lg_inode l))"

lemma must_roll_law:
  assumes "ar_ok a l e"
  shows "\<exists>roll n c e'. must_roll a e = Some (roll, a\<lparr>ar_cached_now := n, ar_cached_now_access_count := c\<rparr>, e') \<and>
    log_frame i e e' \<and> fs_inodes e' = fs_inodes e"
proof -
  obtain t e1 where t: "NowMicros e = (t, e1)" by fastforce
  have q: "fs_script e = []" "ar_logger a = Some l" using assms by (simp_all add: ar_ok_def)
  note f = NowMicros_frame(1) [OF t q(1), of i] NowMicros_frame(2) [OF t q(1)]
  have "\<exists>b n c e'. (if ar_kLogFileTimeToRoll a > 0 then LogExpired a e else (False, a, e)) =
      (b, a\<lparr>ar_cached_now := n, ar_cached_now_access_count := c\<rparr>, e') \<and> log_frame i e e' \<and> fs_inodes e' = fs_inodes e"
  proof (cases "ar_kLogFileTimeToRoll a > 0")
    case True
    show ?thesis
    proof (cases "ar_cached_now_access_count a \<ge> ar_call_NowMicros_every_N_records a")
      case True
      then show ?thesis using f t \<open>ar_kLogFileTimeToRoll a > 0\<close> by (simp add: LogExpired_def NowSeconds_def) (intro exI, rule refl)
    next
      case False
      then show ?thesis using \<open>ar_kLogFileTimeToRoll a > 0\<close> log_frame_refl [OF q(1), of i]
        by (intro exI [of _ "fst (LogExpired a e)"] exI [of _ "ar_cached_now a"] exI [of _ "ar_cached_now_access_count a + 1"] exI [of _ e])
          (simp add: LogExpired_def)
    qed
  next
    case False
    then show ?thesis using log_frame_refl [OF q(1), of i]
      by (intro exI [of _ False] exI [of _ "ar_cached_now a"] exI [of _ "ar_cached_now_access_count a"] exI [of _ e]) simp
  qed
  then obtain b n c e' where b: "(if ar_kLogFileTimeToRoll a > 0 then LogExpired a e else (False, a, e)) =
      (b, a\<lparr>ar_cached_now := n, ar_cached_now_access_count := c\<rparr>, e')" "log_frame i e e'" "fs_inodes e' = fs_inodes e" by blast
  then show ?thesis unfolding must_roll_def b(1) Let_def prod.case using q(2) by (cases b) auto
qed

lemma map_of_wf:
  assumes "fs_wf e" "map_of (fs_names e) p = Some (Reg i)"
  shows "i < fs_next_inode e"
  using assms unfolding fs_wf_def by blast

lemma ar_ok_frame:
  assumes "ar_ok a l e" "log_frame (lg_inode l) e e'" "lg_ok l' e'" "lg_inode l' = lg_inode l"
  shows "ar_ok (a\<lparr>ar_cached_now := n, ar_cached_now_access_count := c, ar_logger := Some l'\<rparr>) l' e'"
  using assms by (auto simp: ar_ok_def log_frame_def log_dir_ok_def fs_wf_def)

text \<open>One \<open>Logv\<close> without a roll.\<close>

lemma Logv_keeps:
  assumes "ar_ok a l e" "must_roll a e = Some (False, a\<lparr>ar_cached_now := n, ar_cached_now_access_count := c\<rparr>, e1)"
    "log_frame (lg_inode l) e e1" "fs_inodes e1 = fs_inodes e"
  shows "\<exists>a' e' l' t. AutoRollLogger_Logv format ap a e = Some (a', e') \<and> ar_ok a' l' e' \<and> ar_headers a' = ar_headers a \<and>
    le_tid e' = le_tid e \<and> le_stamp e' = le_stamp e \<and> le_fmt e' = le_fmt e \<and> ar_log_fname a' = ar_log_fname a \<and>
    fs_names e' = fs_names e \<and> fs_next_inode e' = fs_next_inode e \<and> lg_inode l' = lg_inode l \<and> (\<forall>j. j \<noteq> lg_inode l \<longrightarrow> fs_inodes e' j = fs_inodes e j) \<and>
    lg_text l' e' = lg_text l e @ log_line (le_stamp e t (le_tid e)) (le_fmt e format ap)"
proof -
  define a1 where "a1 = a\<lparr>ar_cached_now := n, ar_cached_now_access_count := c\<rparr>"
  have ok: "Status_ok (ar_status a)" "ar_logger a1 = Some l" "lg_ok l e1" "fs_script e1 = []" "lg_text l e1 = lg_text l e"
    "le_stamp e1 = le_stamp e" "le_tid e1 = le_tid e" "le_fmt e1 = le_fmt e"
    using assms by (simp_all add: ar_ok_def a1_def lg_ok_def lg_text_def log_frame_def)
  obtain t l' e' where r: "LogInternal format ap a1 e1 = Some (a1\<lparr>ar_logger := Some l'\<rparr>, e')" "lg_ok l' e'"
      "lg_text l' e' = lg_text l e1 @ log_line (le_stamp e1 t (le_tid e1)) (le_fmt e1 format ap)" "lg_inode l' = lg_inode l"
      "log_frame (lg_inode l) e1 e'"
    using LogInternal_law [OF ok(4,2,3), of format ap] by blast
  note fr = log_frame_trans [OF assms(3) r(5)]
  have "AutoRollLogger_Logv format ap a e = Some (a1\<lparr>ar_logger := Some l'\<rparr>, e')"
    using ok(1) assms(2) r(1) by (simp add: AutoRollLogger_Logv_def AutoRollLogger_GetStatus_def a1_def)
  moreover have "ar_ok (a1\<lparr>ar_logger := Some l'\<rparr>) l' e'" unfolding a1_def by (rule ar_ok_frame [OF assms(1) fr r(2,4)])
  ultimately show ?thesis using r fr ok
    by (intro exI [of _ "a1\<lparr>ar_logger := Some l'\<rparr>"] exI [of _ e'] exI [of _ l'] exI [of _ t]) (simp add: log_frame_def a1_def)
qed

text \<open>One \<open>Logv\<close> with a roll.\<close>

lemma Logv_rolls:
  assumes "ar_ok a l e" "must_roll a e = Some (True, a\<lparr>ar_cached_now := n, ar_cached_now_access_count := c\<rparr>, e1)"
    "log_frame (lg_inode l) e e1" "fs_inodes e1 = fs_inodes e" "card (dom (map_of (fs_names e))) < 2 ^ 64"
  shows "\<exists>a' e' l' t ts old. AutoRollLogger_Logv format ap a e = Some (a', e') \<and> ar_ok a' l' e' \<and> ar_headers a' = ar_headers a \<and>
    le_tid e' = le_tid e \<and> le_stamp e' = le_stamp e \<and> le_fmt e' = le_fmt e \<and> ar_log_fname a' = ar_log_fname a \<and>
    map_of (fs_names e) old = None \<and> old \<noteq> ar_log_fname a \<and> fs_next_inode e' = Suc (fs_next_inode e) \<and>
    map_of (fs_names e') = (map_of (fs_names e))(old \<mapsto> Reg (lg_inode l), ar_log_fname a \<mapsto> Reg (lg_inode l')) \<and>
    fs_inodes e' (lg_inode l) = lg_text l e \<and> lg_inode l' = fs_next_inode e \<and>
    (\<forall>j. j \<noteq> lg_inode l \<and> j \<noteq> lg_inode l' \<longrightarrow> fs_inodes e' j = fs_inodes e j) \<and>
    length ts = length (ar_headers a) \<and>
    lg_text l' e' = header_text e ts (ar_headers a) @ log_line (le_stamp e t (le_tid e)) (le_fmt e format ap)"
proof -
  let ?dir = "ar_log_path a"
  let ?i = "lg_inode l"
  define a1 where "a1 = a\<lparr>ar_cached_now := n, ar_cached_now_access_count := c\<rparr>"
  have ok: "Status_ok (ar_status a)" "ar_logger a1 = Some l" "lg_ok l e1" "fs_script e1 = []" "lg_text l e1 = lg_text l e"
    "ar_log_fname a1 = InfoLogFileName (ar_log_path a1)" "log_dir_ok (ar_log_path a1) e1" "map_of (fs_names e1) (ar_log_fname a1) = Some (Reg ?i)"
    "fs_names e1 = fs_names e" "fs_next_inode e1 = fs_next_inode e" "fs_wf e"
    using assms by (auto simp: ar_ok_def a1_def lg_ok_def lg_text_def log_frame_def log_dir_ok_def)
  obtain u e2 where e2: "RollLogFile a1 e1 = Some e2" "map_of (fs_names e1) (OldInfoLogFileName ?dir u) = None"
      "map_of (fs_names e2) = ((map_of (fs_names e1))(ar_log_fname a := None))(OldInfoLogFileName ?dir u \<mapsto> Reg ?i)"
      "log_frame ?i (e1\<lparr>fs_names := fs_names e2\<rparr>) e2" "fs_inodes e2 = fs_inodes e1"
    using RollLogFile_quiet [OF ok(4) _ ok(6-8), of ?i] assms(5) ok(9) by (auto simp: a1_def)
  define old where "old = OldInfoLogFileName ?dir u"
  have fname: "ar_log_fname a = InfoLogFileName ?dir" using assms(1) by (simp add: ar_ok_def)
  have ne: "old \<noteq> ar_log_fname a" "old \<noteq> ?dir" "ar_log_fname a \<noteq> ?dir" using Old_ne fname by (auto simp: old_def)
  have e2': "fs_script e2 = []" "fs_next_inode e2 = fs_next_inode e" "lg_ok l e2" "lg_text l e2 = lg_text l e" "log_dir_ok (ar_log_path a1) e2"
    "map_of (fs_names e2) (ar_log_fname a1) = None" "?i < fs_next_inode e2"
    using e2 ok ne map_of_wf [OF ok(11), of _ ?i] by (auto simp: log_frame_def lg_ok_def lg_text_def log_dir_ok_def a1_def simp flip: old_def)
  obtain a3 e3 l3 where r: "ResetLogger a1 e2 = Some (Status_OK, a3, e3)" "ar_logger a3 = Some l3" "lg_ok l3 e3" "lg_text l3 e3 = []"
      "lg_inode l3 = fs_next_inode e" "fs_next_inode e3 = Suc (fs_next_inode e)" "fs_script e3 = []"
      "map_of (fs_names e3) = (map_of (fs_names e2))(ar_log_fname a \<mapsto> Reg (fs_next_inode e))"
      "fs_inodes e3 = ((fs_inodes e)(fs_next_inode e := []))(?i := lg_text l e)"
      "le_tid e3 = le_tid e2" "le_stamp e3 = le_stamp e2" "le_fmt e3 = le_fmt e2"
      "ar_log_fname a3 = ar_log_fname a" "ar_log_path a3 = ?dir" "ar_headers a3 = ar_headers a" "ar_status a3 = Status_OK"
    using ResetLogger_quiet [OF e2'(1) ok(6) e2'(5,6) ok(2) e2'(3,7)] e2'(2,4) e2(5) assms(4) by (auto simp: a1_def)
  have same: "le_tid e3 = le_tid e" "le_stamp e3 = le_stamp e" "le_fmt e3 = le_fmt e"
    using r(10-12) e2(4) assms(3) by (simp_all add: log_frame_def)
  then have ht: "header_text e3 = header_text e" by (simp add: header_text_def fun_eq_iff)
  obtain ts l4 e4 where h: "write_headers (ar_headers a) a3 e3 = Some (a3\<lparr>ar_logger := Some l4\<rparr>, e4)" "lg_ok l4 e4"
      "length ts = length (ar_headers a)" "lg_text l4 e4 = header_text e ts (ar_headers a)" "lg_inode l4 = lg_inode l3" "log_frame (lg_inode l3) e3 e4"
    using write_headers_law [OF r(7,2,3), of "ar_headers a"] r(4) ht by auto
  have e4: "fs_script e4 = []" "le_tid e4 = le_tid e" "le_stamp e4 = le_stamp e" "le_fmt e4 = le_fmt e" using h(6) same by (simp_all add: log_frame_def)
  obtain t l5 e5 where l: "LogInternal format ap (a3\<lparr>ar_logger := Some l4\<rparr>) e4 = Some (a3\<lparr>ar_logger := Some l5\<rparr>, e5)" "lg_ok l5 e5"
      "lg_text l5 e5 = lg_text l4 e4 @ log_line (le_stamp e t (le_tid e)) (le_fmt e format ap)" "lg_inode l5 = lg_inode l3" "log_frame (lg_inode l3) e4 e5"
    using LogInternal_law [OF e4(1) _ h(2), of "a3\<lparr>ar_logger := Some l4\<rparr>" format ap] e4(2-4) h(5) by auto
  note fr = log_frame_trans [OF h(6) l(5)]
  have names: "map_of (fs_names e5) = (map_of (fs_names e))(old \<mapsto> Reg ?i, ar_log_fname a \<mapsto> Reg (fs_next_inode e))"
    using fr r(8) e2(3) ok(9) ne(1) by (auto simp: log_frame_def old_def fun_eq_iff)
  have "fs_wf e5" using ok(11) fr r(6) e2'(2,7) names by (auto simp: fs_wf_def log_frame_def less_Suc_eq)
  moreover have "log_dir_ok ?dir e5" using assms(1) names ne by (simp add: ar_ok_def log_dir_ok_def)
  ultimately have "ar_ok (a3\<lparr>ar_logger := Some l5\<rparr>) l5 e5"
    using fr l(2,4) r(5,13,14,16) names fname by (simp add: ar_ok_def log_frame_def)
  moreover have "AutoRollLogger_Logv format ap a e = Some (a3\<lparr>ar_logger := Some l5\<rparr>, e5)"
    using ok(1) assms(2) e2(1) r(1,15) h(1) l(1) by (simp add: AutoRollLogger_Logv_def AutoRollLogger_GetStatus_def WriteHeaderInfo_def a1_def)
  moreover have "fs_inodes e5 ?i = lg_text l e" "\<forall>j. j \<noteq> ?i \<and> j \<noteq> lg_inode l5 \<longrightarrow> fs_inodes e5 j = fs_inodes e j"
    using fr r(5,9) e2'(2,7) l(4) by (auto simp: log_frame_def)
  ultimately show ?thesis
    using names l h(3,4) r(5,6,13,15) e2(2) ok(9) ne(1) fr same
    by (intro exI [of _ "a3\<lparr>ar_logger := Some l5\<rparr>"] exI [of _ e5] exI [of _ l5] exI [of _ t] exI [of _ ts] exI [of _ old]) (simp add: old_def log_frame_def)
qed

text \<open>One \<open>Logv\<close>, with what it changes and what it keeps.\<close>

definition line_text :: "LogEnv \<Rightarrow> u64 \<Rightarrow> bytes \<times> va_arg list \<Rightarrow> bytes" where
  "line_text e t m = log_line (le_stamp e t (le_tid e)) (le_fmt e (fst m) (snd m))"

lemma Logv_step:
  assumes "ar_ok a l e" "card (dom (map_of (fs_names e))) < 2 ^ 64"
  shows "\<exists>a' e' l' t. AutoRollLogger_Logv format ap a e = Some (a', e') \<and> ar_ok a' l' e' \<and> ar_headers a' = ar_headers a \<and>
    line_text e' = line_text e \<and> header_text e' = header_text e \<and> ar_log_fname a' = ar_log_fname a \<and>
    card (dom (map_of (fs_names e'))) \<le> Suc (card (dom (map_of (fs_names e)))) \<and> fs_next_inode e \<le> fs_next_inode e' \<and>
    (\<forall>j. j \<noteq> lg_inode l \<and> j < fs_next_inode e \<longrightarrow> fs_inodes e' j = fs_inodes e j \<and> j \<noteq> lg_inode l') \<and>
    (\<forall>p x. p \<noteq> ar_log_fname a \<and> map_of (fs_names e) p = Some x \<longrightarrow> map_of (fs_names e') p = Some x) \<and>
    (lg_inode l' = lg_inode l \<and> lg_text l' e' = lg_text l e @ line_text e t (format, ap) \<or>
     (\<exists>old ts. map_of (fs_names e) old = None \<and> old \<noteq> ar_log_fname a \<and> map_of (fs_names e') old = Some (Reg (lg_inode l)) \<and>
        fs_inodes e' (lg_inode l) = lg_text l e \<and> lg_inode l \<noteq> lg_inode l' \<and> lg_inode l < fs_next_inode e' \<and> length ts = length (ar_headers a) \<and>
        lg_text l' e' = header_text e ts (ar_headers a) @ line_text e t (format, ap)))"
proof -
  have i: "lg_inode l < fs_next_inode e" using assms(1) by (auto simp: ar_ok_def intro: map_of_wf)
  obtain roll n c e1 where m: "must_roll a e = Some (roll, a\<lparr>ar_cached_now := n, ar_cached_now_access_count := c\<rparr>, e1)"
      "log_frame (lg_inode l) e e1" "fs_inodes e1 = fs_inodes e"
    using must_roll_law [OF assms(1), of "lg_inode l"] by blast
  show ?thesis
  proof (cases roll)
    case False
    then have roll: "roll = False" by simp
    obtain a' e' l' t where r: "AutoRollLogger_Logv format ap a e = Some (a', e')" "ar_ok a' l' e'" "ar_headers a' = ar_headers a"
        "le_tid e' = le_tid e" "le_stamp e' = le_stamp e" "le_fmt e' = le_fmt e" "ar_log_fname a' = ar_log_fname a"
        "fs_names e' = fs_names e" "fs_next_inode e' = fs_next_inode e" "lg_inode l' = lg_inode l"
        "\<forall>j. j \<noteq> lg_inode l \<longrightarrow> fs_inodes e' j = fs_inodes e j" "lg_text l' e' = lg_text l e @ log_line (le_stamp e t (le_tid e)) (le_fmt e format ap)"
      using Logv_keeps [OF assms(1) m(1) [unfolded roll] m(2,3), of format ap] by blast
    then show ?thesis
      by (intro exI [of _ a'] exI [of _ e'] exI [of _ l'] exI [of _ t]) (simp add: line_text_def [abs_def] header_text_def [abs_def])
  next
    case True
    then have roll: "roll = True" by simp
    obtain a' e' l' t ts old where r: "AutoRollLogger_Logv format ap a e = Some (a', e')" "ar_ok a' l' e'" "ar_headers a' = ar_headers a"
        "le_tid e' = le_tid e" "le_stamp e' = le_stamp e" "le_fmt e' = le_fmt e" "ar_log_fname a' = ar_log_fname a"
        "map_of (fs_names e) old = None" "old \<noteq> ar_log_fname a" "fs_next_inode e' = Suc (fs_next_inode e)"
        "map_of (fs_names e') = (map_of (fs_names e))(old \<mapsto> Reg (lg_inode l), ar_log_fname a \<mapsto> Reg (lg_inode l'))"
        "fs_inodes e' (lg_inode l) = lg_text l e" "lg_inode l' = fs_next_inode e"
        "\<forall>j. j \<noteq> lg_inode l \<and> j \<noteq> lg_inode l' \<longrightarrow> fs_inodes e' j = fs_inodes e j" "length ts = length (ar_headers a)"
        "lg_text l' e' = header_text e ts (ar_headers a) @ log_line (le_stamp e t (le_tid e)) (le_fmt e format ap)"
      using Logv_rolls [OF assms(1) m(1) [unfolded roll] m(2,3) assms(2), of format ap] by blast
    have "ar_log_fname a \<in> dom (map_of (fs_names e))" using assms(1) by (auto simp: ar_ok_def)
    then have "dom (map_of (fs_names e')) = insert old (dom (map_of (fs_names e)))" using r(11) by (auto simp: insert_absorb)
    then have "card (dom (map_of (fs_names e'))) \<le> Suc (card (dom (map_of (fs_names e))))" by (simp add: card_insert_le_m1 finite_dom_map_of card_insert_if)
    then show ?thesis using r i
      by (intro exI [of _ a'] exI [of _ e'] exI [of _ l'] exI [of _ t])
        (auto simp: line_text_def [abs_def] header_text_def [abs_def] intro!: exI [of _ old] exI [of _ ts])
  qed
qed

subsection \<open>The history of a log\<close>

fun log_all :: "(bytes \<times> va_arg list) list \<Rightarrow> AutoRollLogger \<Rightarrow> LogEnv \<Rightarrow> (AutoRollLogger \<times> LogEnv) option" where
  "log_all [] a e = Some (a, e)"
| "log_all (m # ms) a e = do {
     (a, e) \<leftarrow> AutoRollLogger_Logv (fst m) (snd m) a e;
     log_all ms a e
   }"

text \<open>What a log is meant to be: a sequence of texts, of which the last one grows; at any line it may
  be left as it is and followed by a new one, which begins with the headers.\<close>

inductive log_parts :: "(u64 list \<Rightarrow> bytes list \<Rightarrow> bytes) \<Rightarrow> bytes list \<Rightarrow> bytes \<Rightarrow> bytes list \<Rightarrow> bytes list \<Rightarrow> bytes \<Rightarrow> bool"
  for H headers where
  finish: "log_parts H headers cur [] [] cur"
| append: "log_parts H headers (cur @ line) lines texts final \<Longrightarrow> log_parts H headers cur (line # lines) texts final"
| roll: "length ts = length headers \<Longrightarrow> log_parts H headers (H ts headers @ line) lines texts final \<Longrightarrow>
    log_parts H headers cur (line # lines) (cur # texts) final"

text \<open>The contents of a file by its name.\<close>

definition file_text :: "'a fs_scheme \<Rightarrow> path \<Rightarrow> bytes option" where
  "file_text e p = (case map_of (fs_names e) p of Some (Reg i) \<Rightarrow> Some (fs_inodes e i) | _ \<Rightarrow> None)"

lemma log_history:
  assumes "ar_ok a l e" "card (dom (map_of (fs_names e))) + length ms < 2 ^ 64"
  shows "\<exists>a' e' l' ts olds texts. log_all ms a e = Some (a', e') \<and> ar_ok a' l' e' \<and> length ts = length ms \<and>
    log_parts (header_text e) (ar_headers a) (lg_text l e) (map2 (line_text e) ts ms) texts (lg_text l' e') \<and>
    map (file_text e') olds = map Some texts \<and> distinct olds \<and>
    (\<forall>p \<in> set olds. p \<noteq> ar_log_fname a \<and> map_of (fs_names e) p = None) \<and>
    (\<forall>p x. p \<noteq> ar_log_fname a \<and> map_of (fs_names e) p = Some x \<longrightarrow> map_of (fs_names e') p = Some x) \<and>
    (\<forall>j. j \<noteq> lg_inode l \<and> j < fs_next_inode e \<longrightarrow> fs_inodes e' j = fs_inodes e j)"
  using assms
proof (induction ms arbitrary: a l e)
  case Nil
  then show ?case by (auto intro!: exI [of _ a] exI [of _ e] exI [of _ l] exI [of _ "[]"] log_parts.finish)
next
  case (Cons m ms)
  have names: "card (dom (map_of (fs_names e))) < 2 ^ 64" using Cons.prems(2) by simp
  obtain a1 e1 l1 t where s: "AutoRollLogger_Logv (fst m) (snd m) a e = Some (a1, e1)" "ar_ok a1 l1 e1" "ar_headers a1 = ar_headers a"
      "line_text e1 = line_text e" "header_text e1 = header_text e" "ar_log_fname a1 = ar_log_fname a"
      "card (dom (map_of (fs_names e1))) \<le> Suc (card (dom (map_of (fs_names e))))" "fs_next_inode e \<le> fs_next_inode e1"
      "\<forall>j. j \<noteq> lg_inode l \<and> j < fs_next_inode e \<longrightarrow> fs_inodes e1 j = fs_inodes e j \<and> j \<noteq> lg_inode l1"
      "\<forall>p x. p \<noteq> ar_log_fname a \<and> map_of (fs_names e) p = Some x \<longrightarrow> map_of (fs_names e1) p = Some x"
      "lg_inode l1 = lg_inode l \<and> lg_text l1 e1 = lg_text l e @ line_text e t m \<or>
       (\<exists>old ts. map_of (fs_names e) old = None \<and> old \<noteq> ar_log_fname a \<and> map_of (fs_names e1) old = Some (Reg (lg_inode l)) \<and>
          fs_inodes e1 (lg_inode l) = lg_text l e \<and> lg_inode l \<noteq> lg_inode l1 \<and> lg_inode l < fs_next_inode e1 \<and> length ts = length (ar_headers a) \<and>
          lg_text l1 e1 = header_text e ts (ar_headers a) @ line_text e t m)"
    using Logv_step [OF Cons.prems(1) names, of "fst m" "snd m", unfolded prod.collapse] by (elim exE conjE) (rule that)
  have "card (dom (map_of (fs_names e1))) + length ms < 2 ^ 64" using s(7) Cons.prems(2) by simp
  from Cons.IH [OF s(2) this, unfolded s(3-6)] obtain a2 e2 l2 ts olds texts where h: "log_all ms a1 e1 = Some (a2, e2)" "ar_ok a2 l2 e2" "length ts = length ms"
      "log_parts (header_text e) (ar_headers a) (lg_text l1 e1) (map2 (line_text e) ts ms) texts (lg_text l2 e2)"
      "map (file_text e2) olds = map Some texts" "distinct olds" "\<forall>p \<in> set olds. p \<noteq> ar_log_fname a \<and> map_of (fs_names e1) p = None"
      "\<forall>p x. p \<noteq> ar_log_fname a \<and> map_of (fs_names e1) p = Some x \<longrightarrow> map_of (fs_names e2) p = Some x"
      "\<forall>j. j \<noteq> lg_inode l1 \<and> j < fs_next_inode e1 \<longrightarrow> fs_inodes e2 j = fs_inodes e1 j"
    by (elim exE conjE) (rule that)
  have all: "log_all (m # ms) a e = Some (a2, e2)" using s(1) h(1) by simp
  have olds: "\<forall>p \<in> set olds. p \<noteq> ar_log_fname a \<and> map_of (fs_names e) p = None" using h(7) s(10) by (metis option.exhaust option.simps(3))
  have keep: "\<forall>p x. p \<noteq> ar_log_fname a \<and> map_of (fs_names e) p = Some x \<longrightarrow> map_of (fs_names e2) p = Some x" using s(10) h(8) by blast
  have inodes: "\<forall>j. j \<noteq> lg_inode l \<and> j < fs_next_inode e \<longrightarrow> fs_inodes e2 j = fs_inodes e j" using s(8,9) h(9) by (metis order.strict_trans2)
  from s(11) show ?case
  proof
    assume "lg_inode l1 = lg_inode l \<and> lg_text l1 e1 = lg_text l e @ line_text e t m"
    then have "log_parts (header_text e) (ar_headers a) (lg_text l e) (map2 (line_text e) (t # ts) (m # ms)) texts (lg_text l2 e2)"
      using h(4) by (auto intro: log_parts.append)
    then show ?thesis using all h(2,3,5,6) olds keep inodes
      by (intro exI [of _ a2] exI [of _ e2] exI [of _ l2] exI [of _ "t # ts"] exI [of _ olds] exI [of _ texts]) simp
  next
    assume "\<exists>old us. map_of (fs_names e) old = None \<and> old \<noteq> ar_log_fname a \<and> map_of (fs_names e1) old = Some (Reg (lg_inode l)) \<and>
          fs_inodes e1 (lg_inode l) = lg_text l e \<and> lg_inode l \<noteq> lg_inode l1 \<and> lg_inode l < fs_next_inode e1 \<and> length us = length (ar_headers a) \<and>
          lg_text l1 e1 = header_text e us (ar_headers a) @ line_text e t m"
    then obtain old us where o: "map_of (fs_names e) old = None" "old \<noteq> ar_log_fname a" "map_of (fs_names e1) old = Some (Reg (lg_inode l))"
          "fs_inodes e1 (lg_inode l) = lg_text l e" "lg_inode l \<noteq> lg_inode l1" "lg_inode l < fs_next_inode e1" "length us = length (ar_headers a)"
          "lg_text l1 e1 = header_text e us (ar_headers a) @ line_text e t m" by blast
    have "log_parts (header_text e) (ar_headers a) (lg_text l e) (map2 (line_text e) (t # ts) (m # ms)) (lg_text l e # texts) (lg_text l2 e2)"
      using h(4) o(7,8) by (auto intro: log_parts.roll)
    moreover have "file_text e2 old = Some (lg_text l e)" using h(8,9) o by (simp add: file_text_def)
    moreover have "old \<notin> set olds" using h(7) o(3) by auto
    ultimately show ?thesis using all h(2,3,5,6) olds keep inodes o(1,2)
      by (intro exI [of _ a2] exI [of _ e2] exI [of _ l2] exI [of _ "t # ts"] exI [of _ "old # olds"] exI [of _ "lg_text l e # texts"]) simp
  qed
qed

subsection \<open>Creating a logger\<close>

text \<open>The first file of a logger, where the name of the log is free.\<close>

lemma ResetLogger_first:
  assumes "fs_script e = []" "ar_log_fname a = InfoLogFileName (ar_log_path a)" "log_dir_ok (ar_log_path a) e"
    and "map_of (fs_names e) (ar_log_fname a) = None" "ar_logger a = None" "fs_wf e"
  shows "\<exists>a' e' l. ResetLogger a e = Some (Status_OK, a', e') \<and> ar_ok a' l e' \<and> lg_text l e' = [] \<and>
    map_of (fs_names e') = (map_of (fs_names e))(ar_log_fname a \<mapsto> Reg (lg_inode l)) \<and>
    fs_inodes e' = (fs_inodes e)(fs_next_inode e := []) \<and> lg_inode l = fs_next_inode e \<and>
    header_text e' = header_text e \<and> line_text e' = line_text e \<and>
    ar_log_fname a' = ar_log_fname a \<and> ar_headers a' = ar_headers a \<and> le_fmt e' = le_fmt e"
proof -
  let ?n = "fs_next_inode e"
  define e1 where "e1 = e\<lparr>fs_fds := Suc (fs_fds e), fs_names := fs_names e @ [(ar_log_fname a, Reg ?n)],
    fs_inodes := (fs_inodes e)(?n := []), fs_next_inode := Suc ?n\<rparr>"
  have "fs_lookup (ar_log_fname a) e = None" "fs_parent_ok (ar_log_fname a) e"
    using assms(2-4) log_dir_parent(1) by (simp_all add: fs_lookup_log)
  then have "fs_open True True (ar_log_fname a) e = (Some ?n, e1)" using assms(1) by (simp add: fs_open_def fs_event_quiet e1_def)
  then have new: "NewLogger (ar_log_fname a) (ar_flush_every_seconds a) e = (Status_OK, Some (PosixLogger_init ?n (ar_flush_every_seconds a)), e1)"
    using assms(1) by (simp add: NewLogger_def fs_event_def e1_def)
  have q: "fs_script e1 = []" using assms(1) by (simp add: e1_def)
  obtain t e2 where t: "NowMicros e1 = (t, e2)" by fastforce
  note f = NowMicros_frame(1) [OF t q, of 0] NowMicros_frame(2) [OF t q]
  define l where "l = PosixLogger_init ?n (ar_flush_every_seconds a)"
  define a' where "a' = a\<lparr>ar_logger := Some l, ar_status := Status_OK, ar_cached_now := t div 1000000, ar_ctime := t div 1000000, ar_cached_now_access_count := 0\<rparr>"
  have "ResetLogger a e = Some (Status_OK, a', e2)"
    using assms(5) t by (simp add: ResetLogger_def new reset_logger_def NowSeconds_def PosixLogger_GetLogFileSize_def
        PosixLogger_init_def Let_def a'_def l_def)
  moreover have l: "lg_ok l e2" "lg_text l e2 = []" "lg_inode l = ?n"
    using f by (simp_all add: lg_ok_def lg_text_def l_def PosixLogger_init_def e1_def)
  moreover have names: "map_of (fs_names e2) = (map_of (fs_names e))(ar_log_fname a \<mapsto> Reg ?n)"
    using f assms(4) by (auto simp: log_frame_def e1_def fun_eq_iff map_add_def split: option.splits)
  moreover have "fs_wf e2" using assms(6) f names by (auto simp: fs_wf_def log_frame_def e1_def less_Suc_eq)
  moreover have "log_dir_ok (ar_log_path a) e2" using assms(2,3) names Old_ne(3) [of "ar_log_path a"] by (auto simp: log_dir_ok_def)
  ultimately have "ResetLogger a e = Some (Status_OK, a', e2)" "ar_ok a' l e2"
    using f assms(2) by (auto simp: ar_ok_def a'_def log_frame_def)
  then show ?thesis
    using f l names by (intro exI [of _ a'] exI [of _ e2] exI [of _ l])
      (simp add: a'_def log_frame_def e1_def header_text_def [abs_def] line_text_def [abs_def])
qed

lemma CreateDir_existing:
  assumes "fs_script e = []" "fs_lookup dir e = Some Dir"
  shows "CreateDirIfMissing dir e = (Status_OK, fs_error EEXIST e)"
proof -
  have "fs_lookup dir (fs_error EEXIST e) = Some Dir" "fs_script (fs_error EEXIST e) = []"
    using assms fs_lookup_names [of "fs_error EEXIST e" e dir] by (simp_all add: fs_error_def)
  then show ?thesis using assms
    by (simp add: CreateDirIfMissing_def sys_mkdir_def fs_event_quiet DirExists_def sys_stat_def) (simp add: fs_error_def)
qed

text \<open>Moving an existing log away and opening the first file, in one step.\<close>

lemma roll_and_reset:
  assumes "fs_script e = []" "card (dom (map_of (fs_names e))) < 2 ^ 64" "ar_log_fname a = InfoLogFileName (ar_log_path a)"
    and "log_dir_ok (ar_log_path a) e" "map_of (fs_names e) (ar_log_fname a) \<noteq> Some Dir" "ar_logger a = None" "fs_wf e"
  shows "\<exists>e1 a' e' l. RollLogFile a e = Some e1 \<and> ResetLogger a e1 = Some (Status_OK, a', e') \<and> ar_ok a' l e' \<and> lg_text l e' = [] \<and>
    header_text e' = header_text e \<and> line_text e' = line_text e \<and> ar_log_fname a' = ar_log_fname a \<and> ar_headers a' = ar_headers a \<and>
    card (dom (map_of (fs_names e'))) \<le> Suc (card (dom (map_of (fs_names e)))) \<and>
    (\<forall>p. p \<noteq> ar_log_fname a \<longrightarrow> map_of (fs_names e') p \<noteq> Some (Reg (lg_inode l))) \<and>
    (\<forall>p. p \<noteq> ar_log_fname a \<and> file_text e p \<noteq> None \<longrightarrow> file_text e' p = file_text e p) \<and>
    (\<forall>d. file_text e (ar_log_fname a) = Some d \<longrightarrow> (\<exists>p. file_text e p = None \<and> file_text e' p = Some d)) \<and> le_fmt e' = le_fmt e"
proof (cases "map_of (fs_names e) (ar_log_fname a)")
  case None
  obtain e1 where r: "RollLogFile a e = Some e1" "log_frame 0 e e1" "fs_inodes e1 = fs_inodes e"
    using RollLogFile_absent [OF assms(1-3) None, of 0] by blast
  then have e1: "fs_script e1 = []" "fs_names e1 = fs_names e" "fs_next_inode e1 = fs_next_inode e" "header_text e1 = header_text e" "line_text e1 = line_text e" "le_fmt e1 = le_fmt e"
    by (simp_all add: log_frame_def header_text_def [abs_def] line_text_def [abs_def])
  then have "log_dir_ok (ar_log_path a) e1" "map_of (fs_names e1) (ar_log_fname a) = None" "fs_wf e1"
    using assms(4,7) None by (simp_all add: log_dir_ok_def fs_wf_def)
  from ResetLogger_first [OF e1(1) assms(3) this(1,2) assms(6) this(3)]
  obtain a' e' l where h: "ResetLogger a e1 = Some (Status_OK, a', e')" "ar_ok a' l e'" "lg_text l e' = []"
      "map_of (fs_names e') = (map_of (fs_names e1))(ar_log_fname a \<mapsto> Reg (lg_inode l))"
      "fs_inodes e' = (fs_inodes e1)(fs_next_inode e1 := [])" "header_text e' = header_text e1" "line_text e' = line_text e1"
      "ar_log_fname a' = ar_log_fname a" "ar_headers a' = ar_headers a" "lg_inode l = fs_next_inode e1" "le_fmt e' = le_fmt e1" by blast
  have "file_text e' p = file_text e p" if "p \<noteq> ar_log_fname a" for p
    using that h(4,5) e1 r(3) map_of_wf [OF assms(7), of p] by (auto simp: file_text_def split: option.splits node.splits)
  moreover have "file_text e (ar_log_fname a) = None" using None by (simp add: file_text_def)
  moreover have "map_of (fs_names e') p \<noteq> Some (Reg (lg_inode l))" if "p \<noteq> ar_log_fname a" for p
    using that h(4,10) e1 map_of_wf [OF assms(7), of p "fs_next_inode e"] by auto
  moreover have "card (dom (map_of (fs_names e'))) \<le> Suc (card (dom (map_of (fs_names e))))"
    using h(4) e1(2) by (simp add: card_insert_if finite_dom_map_of)
  ultimately show ?thesis using r(1) h(1-3,6-9,11) e1(4-6)
    by (intro exI [of _ e1] exI [of _ a'] exI [of _ e'] exI [of _ l]) simp
next
  case (Some n)
  then obtain i where i: "map_of (fs_names e) (ar_log_fname a) = Some (Reg i)" using assms(5) by (cases n) auto
  obtain u e1 where r: "RollLogFile a e = Some e1" "map_of (fs_names e) (OldInfoLogFileName (ar_log_path a) u) = None"
      "map_of (fs_names e1) = ((map_of (fs_names e))(ar_log_fname a := None))(OldInfoLogFileName (ar_log_path a) u \<mapsto> Reg i)"
      "log_frame 0 (e\<lparr>fs_names := fs_names e1\<rparr>) e1" "fs_inodes e1 = fs_inodes e"
    using RollLogFile_quiet [OF assms(1-4) i, of 0] by blast
  define old where "old = OldInfoLogFileName (ar_log_path a) u"
  have ne: "old \<noteq> ar_log_fname a" "old \<noteq> ar_log_path a" "ar_log_fname a \<noteq> ar_log_path a" using Old_ne assms(3) by (auto simp: old_def)
  have e1: "fs_script e1 = []" "fs_next_inode e1 = fs_next_inode e" "header_text e1 = header_text e" "line_text e1 = line_text e" "le_fmt e1 = le_fmt e"
    using r(4) by (simp_all add: log_frame_def header_text_def [abs_def] line_text_def [abs_def])
  have "log_dir_ok (ar_log_path a) e1" "map_of (fs_names e1) (ar_log_fname a) = None" "fs_wf e1"
    using assms(4,7) r(3) ne i e1(2) by (auto simp: log_dir_ok_def fs_wf_def simp flip: old_def)
  from ResetLogger_first [OF e1(1) assms(3) this(1,2) assms(6) this(3)]
  obtain a' e' l where h: "ResetLogger a e1 = Some (Status_OK, a', e')" "ar_ok a' l e'" "lg_text l e' = []"
      "map_of (fs_names e') = (map_of (fs_names e1))(ar_log_fname a \<mapsto> Reg (lg_inode l))"
      "fs_inodes e' = (fs_inodes e1)(fs_next_inode e1 := [])" "header_text e' = header_text e1" "line_text e' = line_text e1"
      "ar_log_fname a' = ar_log_fname a" "ar_headers a' = ar_headers a" "lg_inode l = fs_next_inode e1" "le_fmt e' = le_fmt e1" by blast
  have "file_text e' p = file_text e p" if "p \<noteq> ar_log_fname a" "p \<noteq> old" for p
    using that h(4,5) e1 r(3,5) map_of_wf [OF assms(7), of p] by (auto simp: file_text_def old_def split: option.splits node.splits)
  moreover have "file_text e old = None" using r(2) by (simp add: file_text_def old_def)
  moreover have "file_text e' old = file_text e (ar_log_fname a)"
    using h(4,5) e1 r(3,5) i map_of_wf [OF assms(7) i] ne by (simp add: file_text_def old_def)
  ultimately have "\<forall>p. p \<noteq> ar_log_fname a \<and> file_text e p \<noteq> None \<longrightarrow> file_text e' p = file_text e p"
    "\<forall>d. file_text e (ar_log_fname a) = Some d \<longrightarrow> (\<exists>p. file_text e p = None \<and> file_text e' p = Some d)" by metis+
  moreover have "\<forall>p. p \<noteq> ar_log_fname a \<longrightarrow> map_of (fs_names e') p \<noteq> Some (Reg (lg_inode l))"
    using h(4,10) e1(2) r(3) map_of_wf [OF assms(7)] i by (auto simp: less_irrefl)
  moreover have "dom (map_of (fs_names e')) = insert old (dom (map_of (fs_names e)))" using h(4) r(3) i by (auto simp: old_def)
  then have "card (dom (map_of (fs_names e'))) \<le> Suc (card (dom (map_of (fs_names e))))" by (simp add: card_insert_if finite_dom_map_of)
  ultimately show ?thesis using r(1) h(1-3,6-9,11) e1(3-5)
    by (intro exI [of _ e1] exI [of _ a'] exI [of _ e'] exI [of _ l]) simp
qed

lemma CreateLogger_ok:
  assumes "fs_script e = []" "card (dom (map_of (fs_names e))) < 2 ^ 64" "map_of (fs_names e) dir = Some Dir" "fs_wf e"
    and "map_of (fs_names e) (InfoLogFileName dir) \<noteq> Some Dir" "0 < time_to_roll \<or> 0 < max_size"
  shows "\<exists>a l e'. CreateLogger dir max_size time_to_roll level flush e = Some (Status_OK, Some (RollLogger a), e') \<and>
    ar_ok a l e' \<and> lg_text l e' = [] \<and> ar_headers a = [] \<and> ar_log_fname a = InfoLogFileName dir \<and>
    header_text e' = header_text e \<and> line_text e' = line_text e \<and>
    card (dom (map_of (fs_names e'))) \<le> Suc (card (dom (map_of (fs_names e)))) \<and>
    (\<forall>p. p \<noteq> InfoLogFileName dir \<longrightarrow> map_of (fs_names e') p \<noteq> Some (Reg (lg_inode l))) \<and>
    (\<forall>p. p \<noteq> InfoLogFileName dir \<and> file_text e p \<noteq> None \<longrightarrow> file_text e' p = file_text e p) \<and>
    (\<forall>d. file_text e (InfoLogFileName dir) = Some d \<longrightarrow> (\<exists>p. file_text e p = None \<and> file_text e' p = Some d)) \<and> le_fmt e' = le_fmt e"
proof -
  define e1 where "e1 = fs_error EEXIST e"
  have dir: "snd (CreateDirIfMissing dir e) = e1"
    using CreateDir_existing [OF assms(1), of dir] assms(3) by (simp add: e1_def fs_lookup_def)
  have q: "fs_script e1 = []" using assms(1) by (simp add: e1_def fs_error_def)
  obtain t e2 where t: "NowMicros e1 = (t, e2)" by fastforce
  note f = NowMicros_frame(1) [OF t q, of 0] NowMicros_frame(2) [OF t q]
  then have e2: "fs_script e2 = []" "fs_names e2 = fs_names e" "fs_inodes e2 = fs_inodes e" "fs_next_inode e2 = fs_next_inode e"
    "header_text e2 = header_text e" "line_text e2 = line_text e" "le_fmt e2 = le_fmt e"
    by (simp_all add: e1_def fs_error_def log_frame_def header_text_def [abs_def] line_text_def [abs_def])
  then have ft: "file_text e2 = file_text e" by (simp add: file_text_def fun_eq_iff split: option.split node.split)
  define a where "a = \<lparr>ar_log_fname = InfoLogFileName dir, ar_log_path = dir, ar_logger = None, ar_status = Status_OK,
               ar_kMaxLogFileSize = max_size, ar_kLogFileTimeToRoll = time_to_roll, ar_headers = [],
               ar_cached_now = t div 1000000, ar_ctime = t div 1000000, ar_cached_now_access_count = 0,
               ar_call_NowMicros_every_N_records = 100, ar_flush_every_seconds = flush, ar_log_level = level\<rparr>"
  have a: "ar_log_fname a = InfoLogFileName dir" "ar_log_path a = dir" "ar_logger a = None" "ar_headers a = []" by (simp_all add: a_def)
  have "ar_log_fname a = InfoLogFileName (ar_log_path a)" "log_dir_ok (ar_log_path a) e2" "map_of (fs_names e2) (ar_log_fname a) \<noteq> Some Dir" "fs_wf e2"
    "card (dom (map_of (fs_names e2))) < 2 ^ 64"
    using assms e2 a by (simp_all add: log_dir_ok_def fs_wf_def)
  from roll_and_reset [OF e2(1) this(5,1-3) a(3) this(4)]
  obtain e3 a' e' l where h: "RollLogFile a e2 = Some e3" "ResetLogger a e3 = Some (Status_OK, a', e')" "ar_ok a' l e'" "lg_text l e' = []"
      "header_text e' = header_text e2" "line_text e' = line_text e2" "ar_log_fname a' = ar_log_fname a" "ar_headers a' = ar_headers a"
      "card (dom (map_of (fs_names e'))) \<le> Suc (card (dom (map_of (fs_names e2))))"
      "\<forall>p. p \<noteq> ar_log_fname a \<longrightarrow> map_of (fs_names e') p \<noteq> Some (Reg (lg_inode l))"
      "\<forall>p. p \<noteq> ar_log_fname a \<and> file_text e2 p \<noteq> None \<longrightarrow> file_text e' p = file_text e2 p"
      "\<forall>d. file_text e2 (ar_log_fname a) = Some d \<longrightarrow> (\<exists>p. file_text e2 p = None \<and> file_text e' p = Some d)" "le_fmt e' = le_fmt e2"
    by (elim exE conjE) (rule that)
  have "new_AutoRollLogger dir max_size time_to_roll level flush e1 = Some (a', e')"
    using t h(1,2) by (simp add: new_AutoRollLogger_def NowSeconds_def flip: a_def)
  moreover have "ar_status a' = Status_OK"
    using h(2) by (auto simp: ResetLogger_def Let_def Status_ok_def Status_NotSupported_def bind_eq_Some_conv split: prod.splits if_splits)
  ultimately have "CreateLogger dir max_size time_to_roll level flush e = Some (Status_OK, Some (RollLogger a'), e')"
    using assms(6) by (auto simp: CreateLogger_def AutoRollLogger_GetStatus_def Let_def dir)
  then show ?thesis using h a e2 ft by (intro exI [of _ a'] exI [of _ l] exI [of _ e']) simp
qed

fun log_headers :: "(bytes \<times> va_arg list) list \<Rightarrow> AutoRollLogger \<Rightarrow> LogEnv \<Rightarrow> (AutoRollLogger \<times> LogEnv) option" where
  "log_headers [] a e = Some (a, e)"
| "log_headers (m # ms) a e = do {
     (a, e) \<leftarrow> LogHeader (fst m) (snd m) a e;
     log_headers ms a e
   }"

text \<open>A header as it is kept for later files.\<close>

definition kept_header :: "LogEnv \<Rightarrow> bytes \<times> va_arg list \<Rightarrow> bytes" where
  "kept_header e m = take 1023 (le_fmt e (fst m) (snd m))"

lemma log_headers_law:
  assumes "ar_ok a l e"
  shows "\<exists>us a' l' e'. log_headers hs a e = Some (a', e') \<and> ar_ok a' l' e' \<and> length us = length hs \<and>
    lg_text l' e' = lg_text l e @ concat (map2 (line_text e) us hs) \<and> ar_headers a' = ar_headers a @ map (kept_header e) hs \<and>
    ar_log_fname a' = ar_log_fname a \<and> lg_inode l' = lg_inode l \<and> log_frame (lg_inode l) e e'"
  using assms
proof (induction hs arbitrary: a l e)
  case Nil
  then have "fs_script e = []" by (simp add: ar_ok_def)
  with Nil show ?case by (auto intro!: exI [of _ a] exI [of _ l] exI [of _ e] log_frame_refl)
next
  case (Cons m hs)
  define b where "b = a\<lparr>ar_headers := ar_headers a @ [kept_header e m]\<rparr>"
  have q: "fs_script e = []" "ar_logger b = Some l" "lg_ok l e" using Cons.prems by (simp_all add: ar_ok_def b_def)
  obtain t l1 e1 where 1: "LogInternal (fst m) (snd m) b e = Some (b\<lparr>ar_logger := Some l1\<rparr>, e1)" "lg_ok l1 e1"
      "lg_text l1 e1 = lg_text l e @ line_text e t m" "lg_inode l1 = lg_inode l" "log_frame (lg_inode l) e e1"
    using LogInternal_law [OF q, of "fst m" "snd m"] unfolding line_text_def by blast
  have same: "line_text e1 = line_text e" "kept_header e1 = kept_header e"
    using 1(5) by (simp_all add: line_text_def [abs_def] kept_header_def [abs_def] log_frame_def)
  have "ar_ok (b\<lparr>ar_logger := Some l1\<rparr>) l1 e1"
    using Cons.prems 1(2,4,5) by (auto simp: ar_ok_def b_def log_frame_def log_dir_ok_def fs_wf_def)
  from Cons.IH [OF this, unfolded same 1(4)] obtain us a' l' e' where
    2: "log_headers hs (b\<lparr>ar_logger := Some l1\<rparr>) e1 = Some (a', e')" "ar_ok a' l' e'" "length us = length hs"
      "lg_text l' e' = lg_text l1 e1 @ concat (map2 (line_text e) us hs)" "ar_headers a' = ar_headers (b\<lparr>ar_logger := Some l1\<rparr>) @ map (kept_header e) hs"
      "ar_log_fname a' = ar_log_fname (b\<lparr>ar_logger := Some l1\<rparr>)" "lg_inode l' = lg_inode l" "log_frame (lg_inode l) e1 e'"
    by (elim exE conjE) (rule that)
  have "LogHeader (fst m) (snd m) a e = Some (b\<lparr>ar_logger := Some l1\<rparr>, e1)"
    using 1(1) by (simp add: LogHeader_def ValistToString_def MAXBUFFERSIZE_def b_def kept_header_def)
  then show ?case using 1(3) 2 log_frame_trans [OF 1(5) 2(8)]
    by (intro exI [of _ "t # us"] exI [of _ a'] exI [of _ l'] exI [of _ e']) (simp add: b_def)
qed

lemma file_text_keep:
  assumes "fs_wf e" "map_of (fs_names e) p \<noteq> Some (Reg i)" "file_text e p = Some d"
    and "\<And>x. map_of (fs_names e) p = Some x \<Longrightarrow> map_of (fs_names e') p = Some x"
    and "\<And>j. j \<noteq> i \<Longrightarrow> j < fs_next_inode e \<Longrightarrow> fs_inodes e' j = fs_inodes e j"
  shows "file_text e' p = Some d"
proof -
  obtain j where j: "map_of (fs_names e) p = Some (Reg j)" "fs_inodes e j = d"
    using assms(3) by (auto simp: file_text_def split: option.splits node.splits)
  have "j < fs_next_inode e" using map_of_wf [OF assms(1) j(1)] .
  moreover have "j \<noteq> i" using j(1) assms(2) by auto
  ultimately show ?thesis using assms(4) [OF j(1)] assms(5) [of j] j(2) by (simp add: file_text_def)
qed

text \<open>C19. A rolling log loses nothing. When no call fails, \<open>CreateLogger\<close> succeeds in an existing directory, and any
  headers and messages given to the logger then end up, in order and each on a line of its own,
  in a sequence of files under new names and the current log: a file is left only to be
  followed by one that begins with all headers. Choosing a name for an old file always ends, no
  existing file is overwritten, and the log of an earlier run is kept under a name of its own.\<close>

theorem auto_roll_history:
  assumes "fs_script e = []" "fs_wf e" "card (dom (map_of (fs_names e))) + length ms + 1 < 2 ^ 64"
    and "map_of (fs_names e) dir = Some Dir" "map_of (fs_names e) (InfoLogFileName dir) \<noteq> Some Dir"
    and "0 < time_to_roll \<or> 0 < max_size"
  shows "\<exists>a0 e0 a1 e1 a' e' l' us ts olds texts.
    CreateLogger dir max_size time_to_roll level flush e = Some (Status_OK, Some (RollLogger a0), e0) \<and>
    log_headers hs a0 e0 = Some (a1, e1) \<and> log_all ms a1 e1 = Some (a', e') \<and> ar_logger a' = Some l' \<and>
    length us = length hs \<and> length ts = length ms \<and>
    log_parts (header_text e) (map (kept_header e) hs) (concat (map2 (line_text e) us hs))
      (map2 (line_text e) ts ms) texts (lg_text l' e') \<and>
    map (file_text e') olds = map Some texts \<and> distinct olds \<and> (\<forall>p \<in> set olds. file_text e p = None) \<and>
    (\<forall>p d. p \<noteq> InfoLogFileName dir \<and> file_text e p = Some d \<longrightarrow> file_text e' p = Some d) \<and>
    (\<forall>d. file_text e (InfoLogFileName dir) = Some d \<longrightarrow> (\<exists>p. p \<notin> set olds \<and> file_text e p = None \<and> file_text e' p = Some d))"
proof -
  let ?log = "InfoLogFileName dir"
  have names: "card (dom (map_of (fs_names e))) < 2 ^ 64" using assms(3) by simp
  obtain a0 l0 e0 where c: "CreateLogger dir max_size time_to_roll level flush e = Some (Status_OK, Some (RollLogger a0), e0)"
      "ar_ok a0 l0 e0" "lg_text l0 e0 = []" "ar_headers a0 = []" "ar_log_fname a0 = ?log" "header_text e0 = header_text e" "line_text e0 = line_text e"
      "card (dom (map_of (fs_names e0))) \<le> Suc (card (dom (map_of (fs_names e))))"
      "\<forall>p. p \<noteq> ?log \<longrightarrow> map_of (fs_names e0) p \<noteq> Some (Reg (lg_inode l0))"
      "\<forall>p. p \<noteq> ?log \<and> file_text e p \<noteq> None \<longrightarrow> file_text e0 p = file_text e p"
      "\<forall>d. file_text e ?log = Some d \<longrightarrow> (\<exists>p. file_text e p = None \<and> file_text e0 p = Some d)" "le_fmt e0 = le_fmt e"
    using CreateLogger_ok [OF assms(1) names assms(4,2,5,6), of level flush] by (elim exE conjE) (rule that)
  have kept: "kept_header e0 = kept_header e" using c(12) by (simp add: kept_header_def [abs_def])
  from log_headers_law [OF c(2), of hs, unfolded c(3-7) kept] obtain us a1 l1 e1 where
    h: "log_headers hs a0 e0 = Some (a1, e1)" "ar_ok a1 l1 e1" "length us = length hs" "lg_text l1 e1 = [] @ concat (map2 (line_text e) us hs)"
      "ar_headers a1 = [] @ map (kept_header e) hs" "ar_log_fname a1 = ?log" "lg_inode l1 = lg_inode l0" "log_frame (lg_inode l0) e0 e1"
    by (elim exE conjE) (rule that)
  have e1: "header_text e1 = header_text e" "line_text e1 = line_text e" "fs_names e1 = fs_names e0" "fs_next_inode e1 = fs_next_inode e0"
    using h(8) c(6,7) by (simp_all add: log_frame_def header_text_def [abs_def] line_text_def [abs_def])
  have "card (dom (map_of (fs_names e1))) + length ms < 2 ^ 64" using c(8) assms(3) e1(3) by simp
  from log_history [OF h(2) this, unfolded h(4-7) e1 append_Nil] obtain a' e' l' ts olds texts where
    r: "log_all ms a1 e1 = Some (a', e')" "ar_ok a' l' e'" "length ts = length ms"
      "log_parts (header_text e) (map (kept_header e) hs) (concat (map2 (line_text e) us hs)) (map2 (line_text e) ts ms) texts (lg_text l' e')"
      "map (file_text e') olds = map Some texts" "distinct olds" "\<forall>p \<in> set olds. p \<noteq> ?log \<and> map_of (fs_names e0) p = None"
      "\<forall>p x. p \<noteq> ?log \<and> map_of (fs_names e0) p = Some x \<longrightarrow> map_of (fs_names e') p = Some x"
      "\<forall>j. j \<noteq> lg_inode l0 \<and> j < fs_next_inode e0 \<longrightarrow> fs_inodes e' j = fs_inodes e1 j"
    by (elim exE conjE) (rule that)
  have wf: "fs_wf e0" using c(2) by (simp add: ar_ok_def)
  have keep: "file_text e' p = Some d" if "p \<noteq> ?log" "file_text e0 p = Some d" for p d
  proof (rule file_text_keep [OF wf _ that(2)])
    show "map_of (fs_names e0) p \<noteq> Some (Reg (lg_inode l0))" using c(9) that(1) by blast
    show "map_of (fs_names e') p = Some x" if "map_of (fs_names e0) p = Some x" for x using r(8) that \<open>p \<noteq> ?log\<close> by blast
    show "fs_inodes e' j = fs_inodes e0 j" if "j \<noteq> lg_inode l0" "j < fs_next_inode e0" for j
      using r(9) that h(8) by (simp add: log_frame_def)
  qed
  have fresh: "file_text e p = None" if "p \<in> set olds" for p
    using r(7) that c(10) by (auto simp: file_text_def)
  have earlier: "\<exists>p. p \<notin> set olds \<and> file_text e p = None \<and> file_text e' p = Some d" if log: "file_text e ?log = Some d" for d
  proof -
    obtain p where p: "file_text e p = None" "file_text e0 p = Some d" using c(11) [rule_format, OF log] by blast
    have "p \<noteq> ?log" using log p(1) by auto
    moreover have "p \<notin> set olds" using r(7) p(2) by (auto simp: file_text_def)
    ultimately show ?thesis using keep p by blast
  qed
  have "ar_logger a' = Some l'" using r(2) by (simp add: ar_ok_def)
  moreover have "\<forall>p d. p \<noteq> ?log \<and> file_text e p = Some d \<longrightarrow> file_text e' p = Some d" using c(10) keep by simp
  ultimately show ?thesis using c(1) h(1,3) r(1,3-6) fresh earlier
    by - (rule exI [of _ a0], rule exI [of _ e0], rule exI [of _ a1], rule exI [of _ e1], rule exI [of _ a'], rule exI [of _ e'],
      rule exI [of _ l'], rule exI [of _ us], rule exI [of _ ts], rule exI [of _ olds], rule exI [of _ texts], simp)
qed

definition demo_log_env :: LogEnv where
  "demo_log_env =
     \<lparr>fs_names = [([47, 100, 98], Dir), ([47, 100, 98, 47, 76, 79, 71], Reg 1)], fs_inodes = (\<lambda>i. [])(1 := [1, 2, 3]), fs_next_inode = 2,
      fs_flocks = (\<lambda>i. None), fs_pid = 100, fs_fds = 3, fs_errno = 0, fs_script = [], fs_fread = [], fs_strerror = (\<lambda>e. []),
      pe_checkedDiskForMmap = False, pe_forceMmapOff = False, pe_page_size = 4096, pe_lockedFiles = [],
      pe_statfs = (\<lambda>p. None), pe_mmap_at = 65536,
      le_now = 1000, le_times = [], le_tid = 7, le_stamp = (\<lambda>t i. [91, 93, 32]), le_fmt = (\<lambda>f ap. f)\<rparr>"

theorem auto_roll_history_witness:
  "\<exists>a0 e0 a1 e1 a' e' l' olds texts p.
    CreateLogger [47, 100, 98] 10 0 INFO_LEVEL 5 demo_log_env = Some (Status_OK, Some (RollLogger a0), e0) \<and>
    log_headers [([72], [])] a0 e0 = Some (a1, e1) \<and> log_all [([65], []), ([66], []), ([67], [])] a1 e1 = Some (a', e') \<and>
    ar_logger a' = Some l' \<and> map (file_text e') olds = map Some texts \<and> distinct olds \<and> p \<notin> set olds \<and> file_text e' p = Some [1, 2, 3]"
proof -
  let ?e = demo_log_env
  have n: "InfoLogFileName [47, 100, 98] = [47, 100, 98, 47, 76, 79, 71]" by (simp add: InfoLogFileName_def cstr_def)
  have wf: "fs_wf ?e" by (auto simp: fs_wf_def demo_log_env_def split: if_splits)
  have "fs_script ?e = []" "map_of (fs_names ?e) [47, 100, 98] = Some Dir" "map_of (fs_names ?e) (InfoLogFileName [47, 100, 98]) \<noteq> Some Dir"
    "file_text ?e (InfoLogFileName [47, 100, 98]) = Some [1, 2, 3]"
    by (simp_all add: demo_log_env_def n file_text_def)
  moreover have "card (dom (map_of (fs_names ?e))) \<le> 2"
    by (simp add: demo_log_env_def card_insert_if)
  ultimately show ?thesis
    using auto_roll_history [of ?e "[([65], []), ([66], []), ([67], [])]" "[47, 100, 98]" 0 10 INFO_LEVEL 5 "[([72], [])]", OF _ wf]
    by simp blast
qed

subsection \<open>A logger that could not roll\<close>

text \<open>When the new file cannot be opened the roll ends without a message, with the error in \<open>status_\<close> and no
  logger. The next \<open>Logv\<close> fails its assertion, and without assertions follows the null pointer.\<close>

lemma failed_roll:
  assumes "ResetLogger a e = Some (s, a', e')" "\<not> Status_ok s"
  shows "AutoRollLogger_Logv format ap a' e'' = None"
proof -
  have "ar_status a' = s"
    using assms(1) by (auto simp: ResetLogger_def Let_def bind_eq_Some_conv split: prod.splits if_splits)
  then show ?thesis using assms(2) by (simp add: AutoRollLogger_Logv_def AutoRollLogger_GetStatus_def)
qed

text \<open>With the limit on the size alone, a file is left only once it has reached the limit.\<close>

lemma must_roll_size:
  assumes "ar_ok a l e" "ar_kLogFileTimeToRoll a = 0" "0 < ar_kMaxLogFileSize a" "length (lg_text l e) < 2 ^ 64"
  shows "must_roll a e = Some (unat (ar_kMaxLogFileSize a) \<le> length (lg_text l e), a, e)"
proof -
  have "unat (lg_log_size l) = length (lg_text l e)"
    using assms(1,4) by (simp add: ar_ok_def lg_ok_def unat_of_nat take_bit_nat_eq_self)
  then show ?thesis using assms by (simp add: must_roll_def ar_ok_def PosixLogger_GetLogFileSize_def word_le_nat_alt)
qed

end
