(* ===== verification/StringUtil.thy ===== *)
theory StringUtil
  imports Slice
begin

text \<open>
  \<open>StringSplit\<close> of \<open>rutil/string_util.cc\<close>: \<open>std::getline\<close> on a string stream until it extracts nothing more. Shown:
  no item contains the delimiter, the text is the items with a delimiter behind each but
  possibly the last, and items written with a delimiter behind each are read back.
\<close>

text \<open>One call of \<open>getline\<close> on what is left of the stream: the item and the rest, \<open>None\<close> at the end.\<close>

definition getline :: "byte \<Rightarrow> bytes \<Rightarrow> (bytes \<times> bytes) option" where
  "getline delim ss =
     (if ss = [] then None
      else Some (takeWhile (\<lambda>c. c \<noteq> delim) ss, drop 1 (dropWhile (\<lambda>c. c \<noteq> delim) ss)))"

lemma getline_shrinks: "getline delim ss = Some (item, rest) \<Longrightarrow> length rest < length ss"
  using length_dropWhile_le [of "\<lambda>c. c \<noteq> delim" ss] by (cases ss) (auto simp: getline_def split: if_splits)

function StringSplit :: "bytes \<Rightarrow> byte \<Rightarrow> bytes list" where
  "StringSplit arg delim =
     (case getline delim arg of None \<Rightarrow> [] | Some (item, rest) \<Rightarrow> item # StringSplit rest delim)"
  by pat_completeness auto

termination StringSplit
  by (relation "measure (\<lambda>(arg, delim). length arg)") (auto dest: getline_shrinks)

declare StringSplit.simps [simp del]

lemma StringSplit_items: "item \<in> set (StringSplit arg delim) \<Longrightarrow> delim \<notin> set item"
proof (induction arg delim rule: StringSplit.induct)
  case (1 arg delim)
  show ?case
  proof (cases "getline delim arg")
    case (Some p)
    then obtain i r where p: "getline delim arg = Some (i, r)" by (cases p) auto
    then have "delim \<notin> set i" by (auto simp: getline_def dest: set_takeWhileD split: if_splits)
    then show ?thesis using 1 p by (auto simp: StringSplit.simps [of arg])
  qed (use 1 in \<open>simp add: StringSplit.simps [of arg]\<close>)
qed

lemma StringSplit_terminated:
  assumes "\<forall>item \<in> set items. delim \<notin> set item"
  shows "StringSplit (concat (map (\<lambda>item. item @ [delim]) items)) delim = items"
  using assms
proof (induction items)
  case (Cons item items)
  let ?rest = "concat (map (\<lambda>item. item @ [delim]) items)"
  have "getline delim (item @ delim # ?rest) = Some (item, ?rest)"
  proof -
    have "\<And>c. c \<in> set item \<Longrightarrow> c \<noteq> delim" using Cons.prems by auto
    then have "takeWhile (\<lambda>c. c \<noteq> delim) (item @ delim # ?rest) = item" "dropWhile (\<lambda>c. c \<noteq> delim) (item @ delim # ?rest) = delim # ?rest"
      by (simp_all add: takeWhile_append2 dropWhile_append2)
    then show ?thesis by (simp only: getline_def) simp
  qed
  then show ?case using Cons by (subst StringSplit.simps) simp
qed (simp add: StringSplit.simps getline_def)

lemma StringSplit_text:
  "concat (map (\<lambda>item. item @ [delim]) (StringSplit arg delim)) = (if arg = [] \<or> last arg = delim then arg else arg @ [delim])"
proof (induction arg delim rule: StringSplit.induct)
  case (1 arg delim)
  show ?case
  proof (cases "arg = []")
    case False
    define i where "i = takeWhile (\<lambda>c. c \<noteq> delim) arg"
    define r where "r = dropWhile (\<lambda>c. c \<noteq> delim) arg"
    have arg: "arg = i @ r" by (simp add: i_def r_def)
    have g: "getline delim arg = Some (i, drop 1 r)" using False by (simp add: getline_def i_def r_def)
    have split: "StringSplit arg delim = i # StringSplit (drop 1 r) delim" using g by (simp add: StringSplit.simps [of arg])
    show ?thesis
    proof (cases r)
      case Nil
      then have "last arg \<noteq> delim" using arg False using set_takeWhileD [of "last arg" "\<lambda>c. c \<noteq> delim" arg] Nil by (simp add: i_def)
      then show ?thesis using split arg Nil False by (simp add: StringSplit.simps [of "[]"] getline_def)
    next
      case (Cons c r')
      then have "c = delim" using hd_dropWhile [of "\<lambda>c. c \<noteq> delim" arg] by (simp add: r_def)
      then show ?thesis using split arg Cons 1 [OF g refl] by auto
    qed
  qed (simp add: StringSplit.simps getline_def)
qed

end
