(* ===== verification/LruTable.thy ===== *)
theory LruTable
  imports Status "HOL-Library.Monad_Syntax"
begin

text \<open>
  \<open>rutil/lru_cache.h\<close> and \<open>rutil/lru_cache.cc\<close>, the entries of a cache shard and the hash
  table over them. The entries live in a heap, one map per pointer field
  (\<open>next\<close>, \<open>prev\<close>, \<open>next_hash\<close>) and one for the remaining fields of \<open>LRUHandle\<close>; an address
  without a handle is not allocated. \<open>None\<close> as a pointer is \<open>nullptr\<close>. Every function that
  dereferences pointers or asserts returns an option: \<open>None\<close> is an access to memory that is
  not allocated, a failed assertion, or a loop that does not end. That an operation returns
  \<open>Some\<close> is therefore its memory safety and its termination.

  Shown: the table refines a set of entries that are unique in key and hash. \<open>Lookup\<close>,
  \<open>Insert\<close>, \<open>Remove\<close> and \<open>Resize\<close> never fail on a represented table, and change the chains
  and nothing else.
\<close>

subsection \<open>Entries\<close>

record 'v LRUHandle =
  h_value :: 'v
  h_deleter :: bool
  h_charge :: u64
  h_refs :: u32
  h_flags :: byte
  h_hash :: u32
  h_key :: bytes

definition InCache :: "'v LRUHandle \<Rightarrow> bool" where
  "InCache h \<longleftrightarrow> h_flags h AND 1 \<noteq> 0"

definition IsHighPri :: "'v LRUHandle \<Rightarrow> bool" where
  "IsHighPri h \<longleftrightarrow> h_flags h AND 2 \<noteq> 0"

definition InHighPriPool :: "'v LRUHandle \<Rightarrow> bool" where
  "InHighPriPool h \<longleftrightarrow> h_flags h AND 4 \<noteq> 0"

definition SetInCache :: "bool \<Rightarrow> 'v LRUHandle \<Rightarrow> 'v LRUHandle" where
  "SetInCache in_cache h =
     h\<lparr>h_flags := if in_cache then h_flags h OR 1 else h_flags h AND NOT 1\<rparr>"

datatype Priority = HIGH | LOW

definition SetPriority :: "Priority \<Rightarrow> 'v LRUHandle \<Rightarrow> 'v LRUHandle" where
  "SetPriority priority h =
     h\<lparr>h_flags := if priority = HIGH then h_flags h OR 2 else h_flags h AND NOT 2\<rparr>"

definition SetInHighPriPool :: "bool \<Rightarrow> 'v LRUHandle \<Rightarrow> 'v LRUHandle" where
  "SetInHighPriPool in_high_pri_pool h =
     h\<lparr>h_flags := if in_high_pri_pool then h_flags h OR 4 else h_flags h AND NOT 4\<rparr>"

record 'v heap =
  hp_next :: "nat \<Rightarrow> nat option"
  hp_prev :: "nat \<Rightarrow> nat option"
  hp_next_hash :: "nat \<Rightarrow> nat option"
  hp_handle :: "nat \<Rightarrow> 'v LRUHandle option"

definition update_handle :: "nat \<Rightarrow> ('v LRUHandle \<Rightarrow> 'v LRUHandle) \<Rightarrow> 'v heap \<Rightarrow> 'v heap option" where
  "update_handle e f H =
     (case hp_handle H e of
        None \<Rightarrow> None
      | Some c \<Rightarrow> Some (H\<lparr>hp_handle := (hp_handle H)(e \<mapsto> f c)\<rparr>))"

text \<open>
  The key of an entry. A handle whose \<open>next\<close> points to itself stands for a temporary that
  keeps a pointer to its key in \<open>value\<close>; no code creates one, and its key is not modelled.
\<close>

definition LRUHandle_key :: "'v heap \<Rightarrow> nat \<Rightarrow> bytes option" where
  "LRUHandle_key H e =
     (case hp_handle H e of
        None \<Rightarrow> None
      | Some c \<Rightarrow> if hp_next H e = Some e then None else Some (h_key c))"

text \<open>\<open>Free\<close> with the calls of the deleter it makes, each a key and a value.\<close>

definition LRUHandle_Free :: "nat \<Rightarrow> 'v heap \<Rightarrow> ((bytes \<times> 'v) list \<times> 'v heap) option" where
  "LRUHandle_Free e H = do {
     c \<leftarrow> hp_handle H e;
     if \<not> (h_refs c = 1 \<and> InCache c \<or> h_refs c = 0 \<and> \<not> InCache c) then None
     else do {
       calls \<leftarrow> (if h_deleter c then do { k \<leftarrow> LRUHandle_key H e; Some [(k, h_value c)] } else Some []);
       Some (calls, H\<lparr>hp_handle := (hp_handle H)(e := None)\<rparr>)
     }
   }"

subsection \<open>The hash table\<close>

record LRUHandleTable =
  t_length :: u32
  t_elems :: u32
  t_list :: "nat option list"

text \<open>A \<open>LRUHandle**\<close>: the address of a bucket, or of the field \<open>next_hash\<close> of an entry.\<close>

datatype slot = Bucket nat | Link nat

fun load_slot :: "'v heap \<Rightarrow> LRUHandleTable \<Rightarrow> slot \<Rightarrow> nat option option" where
  "load_slot H t (Bucket i) = (if i < length (t_list t) then Some (t_list t ! i) else None)"
| "load_slot H t (Link e) = (case hp_handle H e of None \<Rightarrow> None | Some _ \<Rightarrow> Some (hp_next_hash H e))"

fun store_slot :: "slot \<Rightarrow> nat option \<Rightarrow> 'v heap \<Rightarrow> LRUHandleTable \<Rightarrow> ('v heap \<times> LRUHandleTable) option" where
  "store_slot (Bucket i) p H t =
     (if i < length (t_list t) then Some (H, t\<lparr>t_list := (t_list t)[i := p]\<rparr>) else None)"
| "store_slot (Link e) p H t =
     (case hp_handle H e of
        None \<Rightarrow> None
      | Some _ \<Rightarrow> Some (H\<lparr>hp_next_hash := (hp_next_hash H)(e := p)\<rparr>, t))"

definition bucket_of :: "u32 \<Rightarrow> u32 \<Rightarrow> nat" where
  "bucket_of len hash = unat (hash AND (len - 1))"

partial_function (option) FindPointer_loop ::
    "'v heap \<Rightarrow> LRUHandleTable \<Rightarrow> bytes \<Rightarrow> u32 \<Rightarrow> slot \<Rightarrow> slot option" where
  "FindPointer_loop H t key hash ptr = do {
     p \<leftarrow> load_slot H t ptr;
     case p of
       None \<Rightarrow> Some ptr
     | Some e \<Rightarrow> do {
         c \<leftarrow> hp_handle H e;
         if h_hash c \<noteq> hash then FindPointer_loop H t key hash (Link e)
         else do {
           k \<leftarrow> LRUHandle_key H e;
           if key \<noteq> k then FindPointer_loop H t key hash (Link e) else Some ptr
         }
       }
   }"

definition FindPointer :: "'v heap \<Rightarrow> LRUHandleTable \<Rightarrow> bytes \<Rightarrow> u32 \<Rightarrow> slot option" where
  "FindPointer H t key hash = FindPointer_loop H t key hash (Bucket (bucket_of (t_length t) hash))"

definition LRUHandleTable_Lookup :: "'v heap \<Rightarrow> LRUHandleTable \<Rightarrow> bytes \<Rightarrow> u32 \<Rightarrow> nat option option" where
  "LRUHandleTable_Lookup H t key hash = do {
     ptr \<leftarrow> FindPointer H t key hash;
     load_slot H t ptr
   }"

text \<open>
  \<open>Resize\<close>: the new length (\<open>elems_ * 1.5\<close> is exact in a double), the loop over one chain,
  and the loop over the buckets.
\<close>

partial_function (option) Resize_length :: "u32 \<Rightarrow> u32 \<Rightarrow> u32 option" where
  "Resize_length elems new_length =
     (if 2 * unat new_length < 3 * unat elems then Resize_length elems (new_length * 2)
      else Some new_length)"

partial_function (option) Resize_chain ::
    "u32 \<Rightarrow> nat option \<Rightarrow> u32 \<Rightarrow> 'v heap \<Rightarrow> nat option list \<Rightarrow> (u32 \<times> 'v heap \<times> nat option list) option" where
  "Resize_chain new_length p count H new_list =
     (case p of
        None \<Rightarrow> Some (count, H, new_list)
      | Some h \<Rightarrow> do {
          c \<leftarrow> hp_handle H h;
          let next = hp_next_hash H h;
          let b = bucket_of new_length (h_hash c);
          if \<not> b < length new_list then None
          else Resize_chain new_length next (count + 1)
                 (H\<lparr>hp_next_hash := (hp_next_hash H)(h := new_list ! b)\<rparr>) (new_list[b := Some h])
        })"

fun Resize_buckets ::
    "u32 \<Rightarrow> nat option list \<Rightarrow> u32 \<Rightarrow> 'v heap \<Rightarrow> nat option list \<Rightarrow> (u32 \<times> 'v heap \<times> nat option list) option" where
  "Resize_buckets new_length [] count H new_list = Some (count, H, new_list)"
| "Resize_buckets new_length (p # ps) count H new_list = do {
     (count, H, new_list) \<leftarrow> Resize_chain new_length p count H new_list;
     Resize_buckets new_length ps count H new_list
   }"

definition Resize :: "'v heap \<Rightarrow> LRUHandleTable \<Rightarrow> ('v heap \<times> LRUHandleTable) option" where
  "Resize H t = do {
     new_length \<leftarrow> Resize_length (t_elems t) 16;
     (count, H, new_list) \<leftarrow>
       Resize_buckets new_length (t_list t) 0 H (replicate (unat new_length) None);
     if t_elems t \<noteq> count then None
     else Some (H, t\<lparr>t_list := new_list, t_length := new_length\<rparr>)
   }"

definition LRUHandleTable_init :: "'v heap \<Rightarrow> ('v heap \<times> LRUHandleTable) option" where
  "LRUHandleTable_init H = Resize H \<lparr>t_length = 0, t_elems = 0, t_list = []\<rparr>"

definition LRUHandleTable_Insert ::
    "nat \<Rightarrow> 'v heap \<Rightarrow> LRUHandleTable \<Rightarrow> (nat option \<times> 'v heap \<times> LRUHandleTable) option" where
  "LRUHandleTable_Insert h H t = do {
     key \<leftarrow> LRUHandle_key H h;
     c \<leftarrow> hp_handle H h;
     ptr \<leftarrow> FindPointer H t key (h_hash c);
     old \<leftarrow> load_slot H t ptr;
     next \<leftarrow> (case old of None \<Rightarrow> Some None | Some e \<Rightarrow> load_slot H t (Link e));
     (H, t) \<leftarrow> store_slot (Link h) next H t;
     (H, t) \<leftarrow> store_slot ptr (Some h) H t;
     if old = None then
       (let t = t\<lparr>t_elems := t_elems t + 1\<rparr>
        in if t_elems t > t_length t then do { (H, t) \<leftarrow> Resize H t; Some (old, H, t) }
           else Some (old, H, t))
     else Some (old, H, t)
   }"

definition LRUHandleTable_Remove ::
    "bytes \<Rightarrow> u32 \<Rightarrow> 'v heap \<Rightarrow> LRUHandleTable \<Rightarrow> (nat option \<times> 'v heap \<times> LRUHandleTable) option" where
  "LRUHandleTable_Remove key hash H t = do {
     ptr \<leftarrow> FindPointer H t key hash;
     result \<leftarrow> load_slot H t ptr;
     case result of
       None \<Rightarrow> Some (result, H, t)
     | Some e \<Rightarrow> do {
         next \<leftarrow> load_slot H t (Link e);
         (H, t) \<leftarrow> store_slot ptr next H t;
         Some (result, H, t\<lparr>t_elems := t_elems t - 1\<rparr>)
       }
   }"

text \<open>
  The loop over all entries of the table; \<open>func\<close> works on a state that contains the heap
  and may free the entry, whose successor was read before.
\<close>

partial_function (option) Apply_chain ::
    "('s \<Rightarrow> 'v heap) \<Rightarrow> (nat \<Rightarrow> 's \<Rightarrow> 's option) \<Rightarrow> nat option \<Rightarrow> 's \<Rightarrow> 's option" where
  "Apply_chain heap_of func p s =
     (case p of
        None \<Rightarrow> Some s
      | Some h \<Rightarrow> do {
          c \<leftarrow> hp_handle (heap_of s) h;
          let n = hp_next_hash (heap_of s) h;
          if \<not> InCache c then None
          else do { s \<leftarrow> func h s; Apply_chain heap_of func n s }
        })"

fun Apply_buckets ::
    "('s \<Rightarrow> 'v heap) \<Rightarrow> (nat \<Rightarrow> 's \<Rightarrow> 's option) \<Rightarrow> nat option list \<Rightarrow> 's \<Rightarrow> 's option" where
  "Apply_buckets heap_of func [] s = Some s"
| "Apply_buckets heap_of func (p # ps) s = do {
     s \<leftarrow> Apply_chain heap_of func p s;
     Apply_buckets heap_of func ps s
   }"

definition Table_ApplyToAllCacheEntries ::
    "('s \<Rightarrow> 'v heap) \<Rightarrow> (nat \<Rightarrow> 's \<Rightarrow> 's option) \<Rightarrow> LRUHandleTable \<Rightarrow> 's \<Rightarrow> 's option" where
  "Table_ApplyToAllCacheEntries heap_of func t s = Apply_buckets heap_of func (t_list t) s"

definition free_if_last ::
    "nat \<Rightarrow> (bytes \<times> 'v) list \<times> 'v heap \<Rightarrow> ((bytes \<times> 'v) list \<times> 'v heap) option" where
  "free_if_last h = (\<lambda>(calls, H). do {
     c \<leftarrow> hp_handle H h;
     if h_refs c = 1 then do { (new_calls, H) \<leftarrow> LRUHandle_Free h H; Some (calls @ new_calls, H) }
     else Some (calls, H)
   })"

definition LRUHandleTable_destroy ::
    "LRUHandleTable \<Rightarrow> 'v heap \<Rightarrow> ((bytes \<times> 'v) list \<times> 'v heap) option" where
  "LRUHandleTable_destroy t H = Table_ApplyToAllCacheEntries snd free_if_last t ([], H)"

subsection \<open>Flags\<close>

lemma flag_bit: "w AND 1 \<noteq> 0 \<longleftrightarrow> bit w 0" "w AND 2 \<noteq> 0 \<longleftrightarrow> bit w 1" "w AND 4 \<noteq> 0 \<longleftrightarrow> bit w 2"
  for w :: byte
  using and_exp_eq_0_iff_not_bit [of w 0] and_exp_eq_0_iff_not_bit [of w 1] and_exp_eq_0_iff_not_bit [of w 2]
  by simp_all

lemma bit_flag: "bit (1 :: byte) i \<longleftrightarrow> i = 0" "bit (2 :: byte) i \<longleftrightarrow> i = 1" "bit (4 :: byte) i \<longleftrightarrow> i = 2"
  using bit_exp_iff [of 0 i, where 'a = byte] bit_exp_iff [of 1 i, where 'a = byte]
    bit_exp_iff [of 2 i, where 'a = byte]
  by (auto simp: possible_bit_def)

lemma flags [simp]:
  "InCache (SetInCache b h) \<longleftrightarrow> b" "InCache (SetPriority q h) \<longleftrightarrow> InCache h"
  "InCache (SetInHighPriPool b h) \<longleftrightarrow> InCache h"
  "IsHighPri (SetInCache b h) \<longleftrightarrow> IsHighPri h" "IsHighPri (SetPriority q h) \<longleftrightarrow> q = HIGH"
  "IsHighPri (SetInHighPriPool b h) \<longleftrightarrow> IsHighPri h"
  "InHighPriPool (SetInCache b h) \<longleftrightarrow> InHighPriPool h" "InHighPriPool (SetPriority q h) \<longleftrightarrow> InHighPriPool h"
  "InHighPriPool (SetInHighPriPool b h) \<longleftrightarrow> b"
  unfolding InCache_def IsHighPri_def InHighPriPool_def SetInCache_def SetPriority_def SetInHighPriPool_def flag_bit
  by (auto simp: bit_or_iff bit_and_iff bit_not_iff bit_flag)

lemma flags_frame [simp]:
  "h_value (SetInCache b h) = h_value h" "h_deleter (SetInCache b h) = h_deleter h"
  "h_charge (SetInCache b h) = h_charge h" "h_refs (SetInCache b h) = h_refs h"
  "h_hash (SetInCache b h) = h_hash h" "h_key (SetInCache b h) = h_key h"
  "h_value (SetPriority q h) = h_value h" "h_deleter (SetPriority q h) = h_deleter h"
  "h_charge (SetPriority q h) = h_charge h" "h_refs (SetPriority q h) = h_refs h"
  "h_hash (SetPriority q h) = h_hash h" "h_key (SetPriority q h) = h_key h"
  "h_value (SetInHighPriPool b h) = h_value h" "h_deleter (SetInHighPriPool b h) = h_deleter h"
  "h_charge (SetInHighPriPool b h) = h_charge h" "h_refs (SetInHighPriPool b h) = h_refs h"
  "h_hash (SetInHighPriPool b h) = h_hash h" "h_key (SetInHighPriPool b h) = h_key h"
  by (simp_all add: SetInCache_def SetPriority_def SetInHighPriPool_def)

lemma flags_refs [simp]:
  "InCache (h\<lparr>h_refs := r\<rparr>) \<longleftrightarrow> InCache h" "IsHighPri (h\<lparr>h_refs := r\<rparr>) \<longleftrightarrow> IsHighPri h"
  "InHighPriPool (h\<lparr>h_refs := r\<rparr>) \<longleftrightarrow> InHighPriPool h"
  by (simp_all add: InCache_def IsHighPri_def InHighPriPool_def)

subsection \<open>Chains\<close>

fun path :: "(nat \<Rightarrow> nat option) \<Rightarrow> nat option \<Rightarrow> nat list \<Rightarrow> bool" where
  "path nh p [] \<longleftrightarrow> p = None"
| "path nh p (e # es) \<longleftrightarrow> p = Some e \<and> path nh (nh e) es"

lemma path_frame: "(\<And>e. e \<in> set es \<Longrightarrow> nh' e = nh e) \<Longrightarrow> path nh' p es \<longleftrightarrow> path nh p es"
  by (induction es arbitrary: p) auto

lemma path_upd [simp]: "e \<notin> set es \<Longrightarrow> path (nh(e := x)) p es \<longleftrightarrow> path nh p es"
  by (rule path_frame) auto

definition hash_of :: "'v heap \<Rightarrow> nat \<Rightarrow> u32" where
  "hash_of H e = h_hash (the (hp_handle H e))"

definition key_of :: "'v heap \<Rightarrow> nat \<Rightarrow> bytes" where
  "key_of H e = h_key (the (hp_handle H e))"

definition entry_ok :: "'v heap \<Rightarrow> nat \<Rightarrow> bool" where
  "entry_ok H e \<longleftrightarrow> hp_handle H e \<noteq> None \<and> hp_next H e \<noteq> Some e"

lemma entry_okE: "entry_ok H e \<Longrightarrow> (\<And>c. hp_handle H e = Some c \<Longrightarrow> hp_next H e \<noteq> Some e \<Longrightarrow> P) \<Longrightarrow> P"
  by (auto simp: entry_ok_def)

lemma LRUHandle_key_eq: "entry_ok H e \<Longrightarrow> LRUHandle_key H e = Some (key_of H e)"
  by (auto simp: LRUHandle_key_def key_of_def elim: entry_okE)

text \<open>The buckets \<open>bs\<close> of a table of length \<open>len\<close> hold the entries \<open>E\<close>, each in its bucket.\<close>

definition chains :: "'v heap \<Rightarrow> (nat \<Rightarrow> nat option) \<Rightarrow> u32 \<Rightarrow> nat option list \<Rightarrow> nat set \<Rightarrow> bool" where
  "chains H nh len bs E \<longleftrightarrow>
     (\<forall>i < length bs. \<exists>es. path nh (bs ! i) es \<and> distinct es \<and>
        set es = {e \<in> E. bucket_of len (hash_of H e) = i})"

definition table_rep :: "'v heap \<Rightarrow> LRUHandleTable \<Rightarrow> nat set \<Rightarrow> bool" where
  "table_rep H t E \<longleftrightarrow>
     finite E \<and> (\<forall>e\<in>E. entry_ok H e) \<and> inj_on (\<lambda>e. (key_of H e, hash_of H e)) E \<and>
     t_length t \<noteq> 0 \<and> length (t_list t) = unat (t_length t) \<and> unat (t_elems t) = card E \<and>
     chains H (hp_next_hash H) (t_length t) (t_list t) E"

lemma bucket_of_less: "len \<noteq> 0 \<Longrightarrow> bucket_of len hash < unat len"
proof -
  assume "len \<noteq> 0"
  then have "unat (len - 1) < unat len"
    by (metis diff_less unat_minus_one unat_eq_zero zero_less_one neq0_conv)
  moreover have "hash AND (len - 1) \<le> len - 1" by (rule word_and_le1)
  ultimately show ?thesis
    unfolding bucket_of_def by (meson le_less_trans word_le_nat_alt)
qed

lemma FindPointer_loop_path:
  assumes "path (hp_next_hash H) p es" and "load_slot H t ptr = Some p" and "\<forall>e\<in>set es. entry_ok H e"
    and "pre = takeWhile (\<lambda>e. \<not> (hash_of H e = hash \<and> key_of H e = key)) es"
  shows "FindPointer_loop H t key hash ptr = Some (if pre = [] then ptr else Link (last pre))"
  using assms
proof (induction es arbitrary: p ptr pre)
  case Nil
  then show ?case by (simp add: FindPointer_loop.simps)
next
  case (Cons e es)
  then obtain c where c: "hp_handle H e = Some c" by (auto elim: entry_okE)
  have k: "LRUHandle_key H e = Some (key_of H e)" using Cons.prems(3) by (simp add: LRUHandle_key_eq)
  have h: "h_hash c = hash_of H e" using c by (simp add: hash_of_def)
  let ?pre = "takeWhile (\<lambda>e. \<not> (hash_of H e = hash \<and> key_of H e = key)) es"
  have IH: "FindPointer_loop H t key hash (Link e) = Some (if ?pre = [] then Link e else Link (last ?pre))"
    by (rule Cons.IH [OF _ _ _ refl]) (use Cons.prems c in auto)
  show ?case
    using Cons.prems c k h IH by (auto simp: FindPointer_loop.simps [of H t key hash ptr])
qed

definition first_ptr :: "nat list \<Rightarrow> nat option" where
  "first_ptr es = (case es of [] \<Rightarrow> None | e # _ \<Rightarrow> Some e)"

lemma first_ptr_simps [simp]: "first_ptr [] = None" "first_ptr (e # es) = Some e"
  by (simp_all add: first_ptr_def)

lemma path_first: "path nh p es \<Longrightarrow> p = first_ptr es"
  by (cases es) auto

lemma path_last: "path nh p (pre @ post) \<Longrightarrow> pre \<noteq> [] \<Longrightarrow> nh (last pre) = first_ptr post"
  by (induction pre arbitrary: p) (auto dest: path_first)

lemma path_drop: "path nh p (pre @ post) \<Longrightarrow> path nh (first_ptr post) post"
  by (induction pre arbitrary: p) (auto dest: path_first)

lemma path_replace:
  assumes "path nh p (pre @ post)" and "pre \<noteq> []" and "distinct pre" and "path nh q post'"
    and "set pre \<inter> set post' = {}"
  shows "path (nh(last pre := q)) p (pre @ post')"
  using assms
proof (induction pre arbitrary: p)
  case (Cons e es)
  show ?case
  proof (cases "es = []")
    case True
    with Cons.prems path_upd [of e post' nh q q] show ?thesis by (simp del: fun_upd_apply add: fun_upd_same)
  next
    case False
    then have "e \<noteq> last es" using Cons.prems(3) by (metis distinct.simps(2) last_in_set)
    with False Cons show ?thesis by simp
  qed
qed simp

text \<open>
  Where \<open>FindPointer\<close> stops: the bucket's chain splits into a part without the key and a rest
  that is empty or starts with the entry of the key.
\<close>

lemma FindPointer_rep:
  fixes key hash H t
  defines "b \<equiv> bucket_of (t_length t) hash"
  assumes rep: "table_rep H t E"
  obtains pre post where
    "path (hp_next_hash H) (t_list t ! b) (pre @ post)" "distinct (pre @ post)"
    "set (pre @ post) = {e \<in> E. bucket_of (t_length t) (hash_of H e) = b}" "b < length (t_list t)"
    "FindPointer H t key hash = Some (if pre = [] then Bucket b else Link (last pre))"
    "load_slot H t (if pre = [] then Bucket b else Link (last pre)) = Some (first_ptr post)"
    "\<And>e. first_ptr post = Some e \<longleftrightarrow> e \<in> E \<and> key_of H e = key \<and> hash_of H e = hash"
proof -
  have b: "b < length (t_list t)"
    using rep bucket_of_less by (simp add: table_rep_def b_def)
  then obtain es where es: "path (hp_next_hash H) (t_list t ! b) es" "distinct es"
      "set es = {e \<in> E. bucket_of (t_length t) (hash_of H e) = b}"
    using rep by (auto simp: table_rep_def chains_def)
  define pre where "pre = takeWhile (\<lambda>e. \<not> (hash_of H e = hash \<and> key_of H e = key)) es"
  define post where "post = dropWhile (\<lambda>e. \<not> (hash_of H e = hash \<and> key_of H e = key)) es"
  have es_eq: "es = pre @ post" by (simp add: pre_def post_def)
  have ok: "\<forall>e\<in>set es. entry_ok H e" using rep es(3) by (simp add: table_rep_def)
  have find: "FindPointer H t key hash = Some (if pre = [] then Bucket b else Link (last pre))"
    unfolding FindPointer_def b_def [symmetric]
    by (rule FindPointer_loop_path [OF es(1) _ ok pre_def]) (use b in simp)
  have load: "load_slot H t (if pre = [] then Bucket b else Link (last pre)) = Some (first_ptr post)"
  proof (cases "pre = []")
    case True
    then show ?thesis using es(1) b es_eq by (auto dest: path_first)
  next
    case False
    then have "last pre \<in> set es" using es_eq by simp
    then obtain c where "hp_handle H (last pre) = Some c" using ok by (auto elim: entry_okE)
    with False es(1) es_eq path_last [of "hp_next_hash H" _ pre post] show ?thesis by auto
  qed
  have stop: "key_of H e' = key \<and> hash_of H e' = hash" if "post = e' # post'" for e' post'
    using that unfolding post_def dropWhile_eq_Cons_conv by blast
  have hd: "first_ptr post = Some e \<longleftrightarrow> e \<in> E \<and> key_of H e = key \<and> hash_of H e = hash" for e
  proof
    assume "first_ptr post = Some e"
    then obtain post' where p: "post = e # post'" by (cases post) auto
    then have "e \<in> E" using es(3) es_eq by auto
    with stop [OF p] show "e \<in> E \<and> key_of H e = key \<and> hash_of H e = hash" by simp
  next
    assume e: "e \<in> E \<and> key_of H e = key \<and> hash_of H e = hash"
    then have "e \<in> set es" using es(3) by (simp add: b_def)
    with e have "post \<noteq> []" by (auto simp: post_def)
    then obtain e' post' where p: "post = e' # post'" by (cases post) auto
    then have "e' \<in> E" using es(3) es_eq by auto
    with stop [OF p] e rep have "e' = e" by (auto simp: table_rep_def inj_on_def)
    with p show "first_ptr post = Some e" by simp
  qed
  show thesis by (rule that [OF _ _ _ b find load hd]) (use es es_eq in simp_all)
qed

lemma Lookup_rep:
  assumes "table_rep H t E"
  obtains r where "LRUHandleTable_Lookup H t key hash = Some r"
    and "\<And>e. r = Some e \<longleftrightarrow> e \<in> E \<and> key_of H e = key \<and> hash_of H e = hash"
  by (rule FindPointer_rep [OF assms, of hash key]) (auto simp: LRUHandleTable_Lookup_def)

text \<open>Changing one chain keeps the others.\<close>

lemma chains_replace:
  assumes "chains H nh len bs E" and "b < length bs"
    and "path nh' p es" and "distinct es" and "set es = {e \<in> E'. bucket_of len (hash_of H e) = b}"
    and "\<And>e. e \<in> E \<Longrightarrow> bucket_of len (hash_of H e) \<noteq> b \<Longrightarrow> nh' e = nh e"
    and "\<And>e. bucket_of len (hash_of H e) \<noteq> b \<Longrightarrow> e \<in> E' \<longleftrightarrow> e \<in> E"
  shows "chains H nh' len (bs[b := p]) E'"
  unfolding chains_def
proof (intro allI impI)
  fix i
  assume "i < length (bs[b := p])"
  then have i: "i < length bs" by simp
  show "\<exists>es. path nh' (bs[b := p] ! i) es \<and> distinct es \<and> set es = {e \<in> E'. bucket_of len (hash_of H e) = i}"
  proof (cases "i = b")
    case True
    with assms(3-5) i show ?thesis by auto
  next
    case False
    from assms(1) i obtain xs where xs: "path nh (bs ! i) xs" "distinct xs"
        "set xs = {e \<in> E. bucket_of len (hash_of H e) = i}"
      by (auto simp: chains_def)
    have "path nh' (bs ! i) xs"
      using path_frame [of xs nh' nh "bs ! i"] xs False assms(6) by auto
    with xs False assms(7) show ?thesis by (intro exI [of _ xs]) auto
  qed
qed

lemma chains_frame:
  assumes "chains H nh len bs E" and "\<And>e. e \<in> E \<Longrightarrow> nh' e = nh e"
  shows "chains H nh' len bs E"
  unfolding chains_def
proof (intro allI impI)
  fix i
  assume "i < length bs"
  with assms(1) obtain es where es: "path nh (bs ! i) es" "distinct es"
      "set es = {e \<in> E. bucket_of len (hash_of H e) = i}"
    by (auto simp: chains_def)
  then have "path nh' (bs ! i) es" using assms(2) path_frame [of es nh' nh] by auto
  with es show "\<exists>es. path nh' (bs ! i) es \<and> distinct es \<and>
      set es = {e \<in> E. bucket_of len (hash_of H e) = i}"
    by blast
qed

lemma next_hash_frame [simp]:
  "hash_of (H\<lparr>hp_next_hash := nh\<rparr>) = hash_of H" "key_of (H\<lparr>hp_next_hash := nh\<rparr>) = key_of H"
  "entry_ok (H\<lparr>hp_next_hash := nh\<rparr>) = entry_ok H"
  "LRUHandle_key (H\<lparr>hp_next_hash := nh\<rparr>) e = LRUHandle_key H e"
  "chains (H\<lparr>hp_next_hash := nh\<rparr>) nh' len bs E \<longleftrightarrow> chains H nh' len bs E"
  by (auto simp: fun_eq_iff hash_of_def key_of_def entry_ok_def LRUHandle_key_def chains_def split: option.splits)

lemma store_slot_chains:
  assumes "chains H (hp_next_hash H) len (t_list t) E" and "b < length (t_list t)"
    and "path (hp_next_hash H) (t_list t ! b) (pre @ post)"
    and "set pre \<subseteq> {e \<in> E. bucket_of len (hash_of H e) = b}" and "\<forall>e\<in>E. entry_ok H e"
    and "path (hp_next_hash H) q post'" and "distinct (pre @ post')"
    and "set (pre @ post') = {e \<in> E'. bucket_of len (hash_of H e) = b}"
    and "\<And>e. bucket_of len (hash_of H e) \<noteq> b \<Longrightarrow> e \<in> E' \<longleftrightarrow> e \<in> E"
  obtains nh' bs' where
    "store_slot (if pre = [] then Bucket b else Link (last pre)) q H t
       = Some (H\<lparr>hp_next_hash := nh'\<rparr>, t\<lparr>t_list := bs'\<rparr>)"
    "length bs' = length (t_list t)" "chains H nh' len bs' E'"
proof (cases "pre = []")
  case True
  have "chains H (hp_next_hash H) len ((t_list t)[b := q]) E'"
    by (rule chains_replace [OF assms(1,2), of _ _ post']) (use assms True in auto)
  then show thesis using True assms(2) by (intro that [of "hp_next_hash H"]) auto
next
  case False
  then have l: "last pre \<in> {e \<in> E. bucket_of len (hash_of H e) = b}"
    using assms(4) last_in_set [of pre] by blast
  let ?nh = "(hp_next_hash H)(last pre := q)"
  have "path ?nh (t_list t ! b) (pre @ post')"
    by (rule path_replace [OF assms(3) False _ assms(6)]) (use assms(7) in auto)
  then have "chains H ?nh len ((t_list t)[b := t_list t ! b]) E'"
    by (rule chains_replace [OF assms(1,2) _ assms(7,8)]) (use l assms(9) in auto)
  moreover obtain c where "hp_handle H (last pre) = Some c"
    using l assms(5) by (auto elim: entry_okE)
  ultimately show thesis using False by (intro that [of ?nh "t_list t"]) auto
qed

lemma Remove_rep:
  assumes rep: "table_rep H t E"
  obtains r nh' t' where "LRUHandleTable_Remove key hash H t = Some (r, H\<lparr>hp_next_hash := nh'\<rparr>, t')"
    and "\<And>e. r = Some e \<longleftrightarrow> e \<in> E \<and> key_of H e = key \<and> hash_of H e = hash"
    and "table_rep (H\<lparr>hp_next_hash := nh'\<rparr>) t' (E - set_option r)"
proof -
  let ?b = "bucket_of (t_length t) hash"
  from FindPointer_rep [OF rep, of hash key] obtain pre post where f:
    "path (hp_next_hash H) (t_list t ! ?b) (pre @ post)" "distinct (pre @ post)"
    "set (pre @ post) = {e \<in> E. bucket_of (t_length t) (hash_of H e) = ?b}" "?b < length (t_list t)"
    "FindPointer H t key hash = Some (if pre = [] then Bucket ?b else Link (last pre))"
    "load_slot H t (if pre = [] then Bucket ?b else Link (last pre)) = Some (first_ptr post)"
    and r: "\<And>e. first_ptr post = Some e \<longleftrightarrow> e \<in> E \<and> key_of H e = key \<and> hash_of H e = hash"
    by blast
  show thesis
  proof (cases post)
    case Nil
    with f rep r show thesis
      by (intro that [of None "hp_next_hash H" t]) (auto simp: LRUHandleTable_Remove_def)
  next
    case (Cons e post')
    have e: "e \<in> E" "hash_of H e = hash" using r [of e] Cons by auto
    then obtain c where c: "hp_handle H e = Some c" using rep by (auto simp: table_rep_def elim: entry_okE)
    have post': "path (hp_next_hash H) (hp_next_hash H e) post'"
      using path_drop [OF f(1)] Cons by simp
    from store_slot_chains [of H "t_length t" t E ?b pre post "hp_next_hash H e" post' "E - {e}"]
    obtain nh' bs' where st: "store_slot (if pre = [] then Bucket ?b else Link (last pre)) (hp_next_hash H e) H t
         = Some (H\<lparr>hp_next_hash := nh'\<rparr>, t\<lparr>t_list := bs'\<rparr>)"
      "length bs' = length (t_list t)" "chains H nh' (t_length t) bs' (E - {e})"
      using rep f Cons e post' by (auto simp: table_rep_def)
    have "t_elems t \<noteq> 0" using rep e(1) by (auto simp: table_rep_def)
    then have "unat (t_elems t - 1) = card (E - {e})"
      using rep e(1) by (simp add: table_rep_def unat_minus_one)
    then have "table_rep (H\<lparr>hp_next_hash := nh'\<rparr>) (t\<lparr>t_list := bs', t_elems := t_elems t - 1\<rparr>) (E - {e})"
      using rep st(2,3) by (auto simp: table_rep_def intro: inj_on_diff)
    then show thesis using f st(1) c r Cons
      by (intro that [of "Some e" nh' "t\<lparr>t_list := bs', t_elems := t_elems t - 1\<rparr>"])
         (auto simp: LRUHandleTable_Remove_def)
  qed
qed

subsection \<open>Resizing\<close>

lemma Resize_length_returns:
  assumes "3 * unat elems \<le> 2 ^ 32" and "unat len = 2 ^ k" and "k \<le> 31"
  shows "\<exists>n. Resize_length elems len = Some n \<and> n \<noteq> 0"
  using assms(2,3)
proof (induction "31 - k" arbitrary: k len)
  case 0
  then have "\<not> 2 * unat len < 3 * unat elems" using assms(1) by simp
  with 0 show ?case by (auto simp: Resize_length.simps [of elems len])
next
  case (Suc d)
  show ?case
  proof (cases "2 * unat len < 3 * unat elems")
    case True
    have "(2 :: nat) ^ Suc k \<le> 2 ^ 31" using Suc.hyps(2) by (intro power_increasing) auto
    then have "unat (len * 2) = 2 ^ Suc k"
      using Suc.prems(1) by (simp add: unat_word_ariths)
    with Suc.hyps(1) [of "Suc k" "len * 2"] Suc.hyps(2) True show ?thesis
      by (simp add: Resize_length.simps [of elems len])
  next
    case False
    then show ?thesis using Suc.prems by (auto simp: Resize_length.simps [of elems len])
  qed
qed

lemma Resize_chain_rep:
  assumes "path (hp_next_hash H) p es" and "distinct es" and "set es \<inter> D = {}"
    and "\<forall>e\<in>set es. hp_handle H e \<noteq> None"
    and "chains H (hp_next_hash H) len nl D" and "length nl = unat len" and "len \<noteq> 0"
  shows "\<exists>nh' nl'. Resize_chain len p count H nl
             = Some (count + of_nat (length es), H\<lparr>hp_next_hash := nh'\<rparr>, nl') \<and>
           length nl' = length nl \<and> chains H nh' len nl' (D \<union> set es) \<and>
           (\<forall>e. e \<notin> set es \<longrightarrow> nh' e = hp_next_hash H e)"
  using assms
proof (induction es arbitrary: p count H nl D)
  case Nil
  then show ?case
    by (intro exI [of _ "hp_next_hash H"] exI [of _ nl]) (simp add: Resize_chain.simps)
next
  case (Cons e es)
  then obtain c where c: "hp_handle H e = Some c" by auto
  define b where "b = bucket_of len (hash_of H e)"
  have b: "b < length nl" using Cons.prems(6,7) by (simp add: b_def bucket_of_less)
  define nh where "nh = (hp_next_hash H)(e := nl ! b)"
  let ?H = "H\<lparr>hp_next_hash := nh\<rparr>"
  from Cons.prems(5) b obtain xs where xs: "path (hp_next_hash H) (nl ! b) xs" "distinct xs"
      "set xs = {e \<in> D. bucket_of len (hash_of H e) = b}"
    by (auto simp: chains_def)
  have e: "e \<notin> D" "e \<notin> set es" using Cons.prems(2,3) by auto
  then have px: "path nh (Some e) (e # xs)" using xs path_upd [of e xs] by (simp add: nh_def)
  have ch: "chains H nh len (nl[b := Some e]) (insert e D)"
    by (rule chains_replace [OF Cons.prems(5) b px]) (use xs e in \<open>auto simp: b_def nh_def\<close>)
  have pe: "path nh (hp_next_hash H e) es"
    using Cons.prems(1) e path_upd [of e es] by (simp add: nh_def)
  obtain nh' nl' where
    "Resize_chain len (hp_next_hash H e) (count + 1) ?H (nl[b := Some e])
       = Some (count + 1 + of_nat (length es), H\<lparr>hp_next_hash := nh'\<rparr>, nl')"
    "length nl' = length nl" "chains H nh' len nl' (insert e D \<union> set es)"
    "\<forall>x. x \<notin> set es \<longrightarrow> nh' x = nh x"
    using Cons.IH [of ?H "hp_next_hash H e" "insert e D" "nl[b := Some e]" "count + 1"] Cons.prems e pe ch
    by auto
  with Cons.prems(1) c b show ?case
    by (intro exI [of _ nh'] exI [of _ nl'])
       (simp add: Resize_chain.simps [of len "Some e"] b_def hash_of_def ac_simps nh_def)
qed

lemma Resize_buckets_rep:
  assumes "list_all2 (path (hp_next_hash H)) ps ess" and "distinct (concat ess)"
    and "set (concat ess) \<inter> D = {}" and "\<forall>e\<in>set (concat ess). hp_handle H e \<noteq> None"
    and "chains H (hp_next_hash H) len nl D" and "length nl = unat len" and "len \<noteq> 0"
  shows "\<exists>nh' nl'. Resize_buckets len ps count H nl
             = Some (count + of_nat (length (concat ess)), H\<lparr>hp_next_hash := nh'\<rparr>, nl') \<and>
           length nl' = length nl \<and> chains H nh' len nl' (D \<union> set (concat ess))"
  using assms
proof (induction ps arbitrary: ess count H nl D)
  case Nil
  then show ?case
    by (intro exI [of _ "hp_next_hash H"] exI [of _ nl]) simp
next
  case (Cons p ps)
  then obtain es ess' where ess: "ess = es # ess'" "path (hp_next_hash H) p es"
      "list_all2 (path (hp_next_hash H)) ps ess'"
    by (auto simp: list_all2_Cons1)
  have dj: "set es \<inter> set (concat ess') = {}" using Cons.prems(2) ess(1) by auto
  from Resize_chain_rep [of H p es D len nl count] Cons.prems ess
  obtain nh1 nl1 where one: "Resize_chain len p count H nl
        = Some (count + of_nat (length es), H\<lparr>hp_next_hash := nh1\<rparr>, nl1)"
      "length nl1 = length nl" "chains H nh1 len nl1 (D \<union> set es)"
      "\<forall>e. e \<notin> set es \<longrightarrow> nh1 e = hp_next_hash H e"
    by (auto simp: Int_Un_distrib2)
  have "list_all2 (path nh1) ps ess'"
  proof (rule list_all2_all_nthI)
    show "length ps = length ess'" using ess(3) by (rule list_all2_lengthD)
    fix i
    assume i: "i < length ps"
    then have "set (ess' ! i) \<subseteq> set (concat ess')" using list_all2_lengthD [OF ess(3)]
      by (auto intro!: bexI [OF _ nth_mem])
    with dj one(4) have "path nh1 (ps ! i) (ess' ! i) \<longleftrightarrow> path (hp_next_hash H) (ps ! i) (ess' ! i)"
      by (intro path_frame) blast
    with list_all2_nthD [OF ess(3) i] show "path nh1 (ps ! i) (ess' ! i)" by simp
  qed
  with Cons.IH [of "H\<lparr>hp_next_hash := nh1\<rparr>" ess' "D \<union> set es" nl1 "count + of_nat (length es)"]
    one Cons.prems ess dj
  obtain nh' nl' where "Resize_buckets len ps (count + of_nat (length es)) (H\<lparr>hp_next_hash := nh1\<rparr>) nl1
      = Some (count + of_nat (length es) + of_nat (length (concat ess')), H\<lparr>hp_next_hash := nh'\<rparr>, nl')"
      "length nl' = length nl" "chains H nh' len nl' (D \<union> set es \<union> set (concat ess'))"
    by (auto simp: Int_Un_distrib Int_Un_distrib2 Int_commute)
  with one(1) ess(1) show ?case
    by (intro exI [of _ nh'] exI [of _ nl']) (simp add: ac_simps Un_assoc)
qed

lemma Resize_chains:
  assumes "finite E" and "\<forall>e\<in>E. entry_ok H e" and "inj_on (\<lambda>e. (key_of H e, hash_of H e)) E"
    and "unat (t_elems t) = card E" and "chains H (hp_next_hash H) (t_length t) (t_list t) E"
    and "\<forall>e\<in>E. bucket_of (t_length t) (hash_of H e) < length (t_list t)" and "3 * card E \<le> 2 ^ 32"
  obtains nh' t' where "Resize H t = Some (H\<lparr>hp_next_hash := nh'\<rparr>, t')"
    and "table_rep (H\<lparr>hp_next_hash := nh'\<rparr>) t' E"
proof -
  obtain len where len: "Resize_length (t_elems t) 16 = Some len" "len \<noteq> 0"
    using Resize_length_returns [of "t_elems t" 16 4] assms(4,7) by auto
  obtain f where f: "\<And>i. i < length (t_list t) \<Longrightarrow> path (hp_next_hash H) (t_list t ! i) (f i) \<and> distinct (f i) \<and>
        set (f i) = {e \<in> E. bucket_of (t_length t) (hash_of H e) = i}"
    using assms(5) unfolding chains_def by metis
  define ess where "ess = map f [0..<length (t_list t)]"
  have E: "set (concat ess) = E" using f assms(6) by (auto simp: ess_def)
  have paths: "list_all2 (path (hp_next_hash H)) (t_list t) ess"
    using f by (auto simp: ess_def list_all2_conv_all_nth)
  have dist: "distinct (concat ess)"
    unfolding ess_def by (rule distinct_concat_map) (use f in auto)
  have "chains H (hp_next_hash H) len (replicate (unat len) None) {}"
    by (auto simp: chains_def)
  with Resize_buckets_rep [OF paths dist, of "{}" len "replicate (unat len) None" 0] assms(2) E len(2)
  obtain nh' nl' where bk: "Resize_buckets len (t_list t) 0 H (replicate (unat len) None)
      = Some (of_nat (length (concat ess)), H\<lparr>hp_next_hash := nh'\<rparr>, nl')"
      "length nl' = unat len" "chains H nh' len nl' E"
    by (auto simp: entry_ok_def)
  have "length (concat ess) = unat (t_elems t)"
    using distinct_card [OF dist] E assms(4) by simp
  then have "t_elems t = of_nat (length (concat ess))" by simp
  with bk len show thesis using assms
    by (intro that [of nh' "t\<lparr>t_list := nl', t_length := len\<rparr>"])
       (auto simp: Resize_def table_rep_def)
qed

lemma LRUHandleTable_init_rep:
  obtains nh' t where "LRUHandleTable_init H = Some (H\<lparr>hp_next_hash := nh'\<rparr>, t)"
    and "table_rep (H\<lparr>hp_next_hash := nh'\<rparr>) t {}"
  unfolding LRUHandleTable_init_def
  by (rule Resize_chains [of "{}" H "\<lparr>t_length = 0, t_elems = 0, t_list = []\<rparr>"])
     (auto simp: chains_def)

lemma Insert_rep:
  assumes rep: "table_rep H t E" and h: "h \<notin> E" "hp_handle H h = Some c" "hp_next H h \<noteq> Some h"
    and room: "3 * (card E + 1) \<le> 2 ^ 32"
  obtains r nh' t' where "LRUHandleTable_Insert h H t = Some (r, H\<lparr>hp_next_hash := nh'\<rparr>, t')"
    and "\<And>e. r = Some e \<longleftrightarrow> e \<in> E \<and> key_of H e = h_key c \<and> hash_of H e = h_hash c"
    and "table_rep (H\<lparr>hp_next_hash := nh'\<rparr>) t' (insert h (E - set_option r))"
proof -
  let ?b = "bucket_of (t_length t) (h_hash c)"
  from FindPointer_rep [OF rep, of "h_hash c" "h_key c"] obtain pre post where f:
    "path (hp_next_hash H) (t_list t ! ?b) (pre @ post)" "distinct (pre @ post)"
    "set (pre @ post) = {e \<in> E. bucket_of (t_length t) (hash_of H e) = ?b}" "?b < length (t_list t)"
    "FindPointer H t (h_key c) (h_hash c) = Some (if pre = [] then Bucket ?b else Link (last pre))"
    "load_slot H t (if pre = [] then Bucket ?b else Link (last pre)) = Some (first_ptr post)"
    and r: "\<And>e. first_ptr post = Some e \<longleftrightarrow> e \<in> E \<and> key_of H e = h_key c \<and> hash_of H e = h_hash c"
    by blast
  have hash: "hash_of H h = h_hash c" "key_of H h = h_key c" using h(2) by (simp_all add: hash_of_def key_of_def)
  have key: "LRUHandle_key H h = Some (h_key c)" using h(2,3) by (simp add: LRUHandle_key_def)
  define E' where "E' = insert h (E - set_option (first_ptr post))"
  define nh where "nh = (hp_next_hash H)(h := first_ptr (tl post))"
  let ?H = "H\<lparr>hp_next_hash := nh\<rparr>"
  have h_new: "h \<notin> set (pre @ post)" using f(3) h(1) by auto
  have nxt: "(case first_ptr post of None \<Rightarrow> Some None | Some e \<Rightarrow> load_slot H t (Link e)) = Some (first_ptr (tl post))"
  proof (cases post)
    case (Cons e post')
    then have "e \<in> E" using r [of e] by simp
    then obtain c' where "hp_handle H e = Some c'" using rep by (auto simp: table_rep_def elim: entry_okE)
    moreover have "hp_next_hash H e = first_ptr post'"
      using path_drop [OF f(1)] Cons by (auto dest: path_first)
    ultimately show ?thesis using Cons by simp
  qed simp
  have tlp: "path nh (first_ptr (tl post)) (tl post)"
  proof -
    have "path (hp_next_hash H) (first_ptr (tl post)) (tl post)"
      using path_drop [OF f(1)] path_first [of "hp_next_hash H" _ "tl post"] by (cases post) force+
    moreover have "h \<notin> set (tl post)" using h_new by (cases post) auto
    ultimately show ?thesis by (simp add: nh_def del: fun_upd_apply)
  qed
  have ch: "chains H nh (t_length t) (t_list t) E"
    using rep h(1) by (auto simp: table_rep_def nh_def intro: chains_frame)
  have sub: "set pre \<subseteq> {e \<in> E. bucket_of (t_length t) (hash_of H e) = ?b}"
    unfolding f(3) [symmetric] by simp
  have "path nh (t_list t ! ?b) (pre @ post)" using f(1) h_new by (simp add: nh_def del: fun_upd_apply)
  moreover have "path nh (Some h) (h # tl post)" using tlp by (simp add: nh_def)
  moreover have "distinct (pre @ h # tl post)" using f(2) h_new by (cases post) auto
  moreover have "set (pre @ h # tl post) = {e \<in> E'. bucket_of (t_length t) (hash_of H e) = ?b}"
  proof -
    have "{e \<in> E'. bucket_of (t_length t) (hash_of H e) = ?b} =
        insert h ({e \<in> E. bucket_of (t_length t) (hash_of H e) = ?b} - set_option (first_ptr post))"
      using hash(1) by (auto simp: E'_def)
    also have "\<dots> = insert h (set (pre @ post) - set_option (first_ptr post))" by (simp only: f(3))
    also have "\<dots> = set (pre @ h # tl post)" using f(2) by (cases post) auto
    finally show ?thesis by (rule sym)
  qed
  moreover have "e \<in> E' \<longleftrightarrow> e \<in> E" if "bucket_of (t_length t) (hash_of H e) \<noteq> ?b" for e
    using that r [of e] hash by (auto simp: E'_def)
  ultimately obtain nh' bs' where st:
    "store_slot (if pre = [] then Bucket ?b else Link (last pre)) (Some h) ?H t
         = Some (H\<lparr>hp_next_hash := nh'\<rparr>, t\<lparr>t_list := bs'\<rparr>)"
    "length bs' = length (t_list t)" "chains H nh' (t_length t) bs' E'"
    by (rule_tac store_slot_chains [of ?H "t_length t" t E ?b pre post "Some h" "h # tl post" E'])
       (use ch sub f(4) rep in \<open>auto simp: table_rep_def simp del: path.simps\<close>)
  have fin: "finite E'" and card: "card E' = (if post = [] then card E + 1 else card E)"
  proof -
    show "finite E'" using rep by (simp add: E'_def table_rep_def)
    have "finite E" using rep by (simp add: table_rep_def)
    then show "card E' = (if post = [] then card E + 1 else card E)"
      using h(1) r [of "hd post"] by (cases post) (simp_all add: E'_def card_Suc_Diff1 del: card_Diff_insert)
  qed
  have ok: "\<forall>e\<in>E'. entry_ok H e" using rep h by (auto simp: E'_def table_rep_def entry_ok_def)
  have inj: "inj_on (\<lambda>e. (key_of H e, hash_of H e)) E'"
    using rep r h(1) hash unfolding E'_def table_rep_def
    by (auto simp: inj_on_def)
  have start: "LRUHandleTable_Insert h H t =
      (if post = [] then
         (let t = t\<lparr>t_list := bs', t_elems := t_elems t + 1\<rparr>
          in if t_elems t > t_length t
             then do { (H, t) \<leftarrow> Resize (H\<lparr>hp_next_hash := nh'\<rparr>) t; Some (first_ptr post, H, t) }
             else Some (first_ptr post, H\<lparr>hp_next_hash := nh'\<rparr>, t))
       else Some (first_ptr post, H\<lparr>hp_next_hash := nh'\<rparr>, t\<lparr>t_list := bs'\<rparr>))"
    using key h(2) f(5,6) nxt st(1) unfolding LRUHandleTable_Insert_def nh_def
    by (cases post) (auto simp: Let_def)
  show thesis
  proof (cases "post = []")
    case False
    then have "table_rep (H\<lparr>hp_next_hash := nh'\<rparr>) (t\<lparr>t_list := bs'\<rparr>) E'"
      using fin ok inj st(2,3) rep card by (simp add: table_rep_def)
    with False start r show thesis
      by (intro that [of "first_ptr post" nh' "t\<lparr>t_list := bs'\<rparr>"]) (simp_all add: E'_def)
  next
    case True
    let ?t = "t\<lparr>t_list := bs', t_elems := t_elems t + 1\<rparr>"
    have "unat (t_elems t + 1) = card E + 1"
      using rep room by (simp add: table_rep_def unat_word_ariths)
    then have rep': "table_rep (H\<lparr>hp_next_hash := nh'\<rparr>) ?t E'"
      using True fin ok inj st(2,3) rep card by (simp add: table_rep_def)
    show thesis
    proof (cases "t_elems ?t > t_length ?t")
      case False
      with True start r rep' show thesis
        by (intro that [of "first_ptr post" nh' ?t]) (simp_all add: E'_def)
    next
      case big: True
      from rep' obtain nh2 t2 where "Resize (H\<lparr>hp_next_hash := nh'\<rparr>) ?t
            = Some (H\<lparr>hp_next_hash := nh'\<rparr>\<lparr>hp_next_hash := nh2\<rparr>, t2)"
          "table_rep (H\<lparr>hp_next_hash := nh'\<rparr>\<lparr>hp_next_hash := nh2\<rparr>) t2 E'"
        by (rule_tac Resize_chains [of E' "H\<lparr>hp_next_hash := nh'\<rparr>" ?t])
           (use card room True bucket_of_less in \<open>auto simp: table_rep_def\<close>)
      with True start r big show thesis
        by (intro that [of "first_ptr post" nh2 t2]) (simp_all add: E'_def)
    qed
  qed
qed

end
