(* ===== verification/DoublyLinked.thy ===== *)
theory DoublyLinked
  imports Main
begin

text \<open>
  Doubly linked rings with a dummy head, as the LRU list of the cache and the chain of
  thread-local data have them. \<open>N\<close> and \<open>P\<close> are the two link fields of a heap, undefined where
  nothing is linked; a ring is the segment from the head to itself.

  Shown: what linking and unlinking an entry makes of a segment.
\<close>

text \<open>From \<open>a\<close> through \<open>xs\<close> to \<open>z\<close>, in both directions.\<close>

fun dl :: "(nat \<Rightarrow> nat option) \<Rightarrow> (nat \<Rightarrow> nat option) \<Rightarrow> nat \<Rightarrow> nat list \<Rightarrow> nat \<Rightarrow> bool" where
  "dl N P a [] z \<longleftrightarrow> N a = Some z \<and> P z = Some a"
| "dl N P a (x # xs) z \<longleftrightarrow> N a = Some x \<and> P x = Some a \<and> dl N P x xs z"

lemma dl_append: "dl N P a (xs @ y # ys) z \<longleftrightarrow> dl N P a xs y \<and> dl N P y ys z"
  by (induction xs arbitrary: a) auto

lemma dl_last: "dl N P a xs z \<Longrightarrow> P z = Some (last (a # xs)) \<and> N (last (a # xs)) = Some z"
  by (induction xs arbitrary: a) auto

lemma dl_first: "dl N P a xs z \<Longrightarrow> N a = Some (hd (xs @ [z])) \<and> P (hd (xs @ [z])) = Some a"
  by (cases xs) auto

lemma dl_frame:
  assumes "\<And>x. x \<in> insert a (set xs) \<Longrightarrow> N' x = N x" and "\<And>x. x \<in> insert z (set xs) \<Longrightarrow> P' x = P x"
  shows "dl N' P' a xs z \<longleftrightarrow> dl N P a xs z"
  using assms by (induction xs arbitrary: a) auto

text \<open>Directing the end of a segment to another address.\<close>

lemma dl_retarget:
  assumes "dl N P a xs z" and "distinct (a # xs)" and "n \<notin> set xs"
  shows "dl (N(last (a # xs) := Some n)) (P(n := Some (last (a # xs)))) a xs n"
  using assms
proof (induction xs arbitrary: a)
  case (Cons x xs)
  have "last (x # xs) \<in> set (x # xs)" by (rule last_in_set) simp
  then have "last (x # xs) \<noteq> a" "x \<noteq> n" using Cons.prems(2,3) by auto
  with Cons show ?case by auto
qed simp

text \<open>Unlinking the entry between two segments, in the order of the code.\<close>

lemma dl_unlink:
  assumes ring: "dl N P a (xs @ e # ys) z" and dist: "distinct (a # xs @ e # ys)" "z \<notin> set (xs @ e # ys)"
    and "N' = N(last (a # xs) := Some (hd (ys @ [z])), e := None)"
    and "P' = P(hd (ys @ [z]) := Some (last (a # xs)), e := None)"
  shows "dl N' P' a (xs @ ys) z"
proof -
  let ?p = "last (a # xs)" let ?n = "hd (ys @ [z])"
  have p: "?p \<in> insert a (set xs)" by auto
  have one: "dl (N(?p := Some ?n)) (P(?n := Some ?p)) a (xs @ ys) z"
  proof (cases ys)
    case Nil
    with dl_retarget [of N P a xs e z] ring dist show ?thesis by (simp add: dl_append)
  next
    case (Cons y ys')
    have "dl (N(?p := Some y)) (P(y := Some ?p)) a xs y"
      by (rule dl_retarget) (use ring dist Cons in \<open>auto simp: dl_append\<close>)
    moreover have "dl (N(?p := Some y)) (P(y := Some ?p)) y ys' z \<longleftrightarrow> dl N P y ys' z"
      by (rule dl_frame) (use p dist Cons in auto)
    ultimately show ?thesis using ring Cons by (simp add: dl_append)
  qed
  have "dl N' P' a (xs @ ys) z \<longleftrightarrow> dl (N(?p := Some ?n)) (P(?n := Some ?p)) a (xs @ ys) z"
    unfolding assms(4,5) by (rule dl_frame) (use dist in auto)
  with one show ?thesis by simp
qed

text \<open>Linking a new entry in between two segments.\<close>

lemma dl_link:
  assumes "dl N P a (xs @ ys) z" and "distinct (a # xs @ ys)" and "z \<notin> set (xs @ ys)"
    and "e \<notin> set (a # z # xs @ ys)"
    and "N' = N(e := Some (hd (ys @ [z])), last (a # xs) := Some e)"
    and "P' = P(e := Some (last (a # xs)), hd (ys @ [z]) := Some e)"
  shows "dl N' P' a (xs @ e # ys) z"
proof -
  let ?p = "last (a # xs)" let ?n = "hd (ys @ [z])"
  have p: "?p \<in> insert a (set xs)" by auto
  have n: "?n \<in> insert z (set ys)" by (cases ys) auto
  have left: "dl N P a xs ?n" using assms(1) by (cases ys) (auto simp: dl_append)
  have "dl (N(?p := Some e)) (P(e := Some ?p)) a xs e"
    by (rule dl_retarget [OF left]) (use assms in auto)
  moreover have "dl N' P' a xs e \<longleftrightarrow> dl (N(?p := Some e)) (P(e := Some ?p)) a xs e"
    unfolding assms(5,6) by (rule dl_frame) (use assms(2,3,4) n in auto)
  moreover have "dl N' P' e ys z"
  proof (cases ys)
    case Nil
    then show ?thesis using assms(4) p by (auto simp: assms(5,6))
  next
    case (Cons y ys')
    then have "dl N P y ys' z" using assms(1) by (simp add: dl_append)
    moreover have "dl N' P' y ys' z \<longleftrightarrow> dl N P y ys' z"
      unfolding assms(5,6) by (rule dl_frame) (use assms(2,3,4) p Cons in auto)
    ultimately show ?thesis using Cons assms(4) p by (auto simp: assms(5,6))
  qed
  ultimately show ?thesis by (simp add: dl_append)
qed

end
