(* ===== verification/LruCache.thy ===== *)
theory LruCache
  imports LruTable DoublyLinked Complex_Main "HOL-Library.Multiset"
begin

text \<open>
  \<open>rutil/lru_cache.h\<close> and \<open>rutil/lru_cache.cc\<close>, the class \<open>LRUCacheShard\<close>: a hash table of
  reference-counted entries and a doubly linked ring of those that only the cache refers to,
  oldest first, split into a low-priority and a high-priority part. The dummy head \<open>lru_\<close>
  has the address \<open>lru_addr\<close>. The mutex makes the bodies atomic; they are functions on
  the state. The bytes that \<open>new char[]\<close> leaves uninitialised and the address it returns are
  arguments of \<open>Shard_Insert\<close>. Calls of the deleter are recorded in their order.

  Doubles are the rationals that IEEE 754 binary64 can hold, with rounding to nearest, ties
  to even.

  Shown: from any state that the operations can reach, every operation returns (no
  assertion fails, no freed or null pointer is followed, nothing is freed twice, the loops
  end), the counters are the sums of the charges, entries in use are never evicted, and
  eviction takes the oldest entries first and only as many as needed.
\<close>

subsection \<open>Doubles\<close>

definition round_even :: "rat \<Rightarrow> int" where
  "round_even y =
     (let f = \<lfloor>y\<rfloor>; r = y - of_int f
      in if r < 1 / 2 then f else if r > 1 / 2 then f + 1 else if even f then f else f + 1)"

fun bit_length :: "nat \<Rightarrow> nat" where
  "bit_length n = (if n = 0 then 0 else Suc (bit_length (n div 2)))"

declare bit_length.simps [simp del]

definition double_pos :: "rat \<Rightarrow> rat" where
  "double_pos x =
     (let (p, q) = quotient_of x;
          d = int (bit_length (nat p)) - int (bit_length (nat q));
          e = (if x < 2 powi d then d - 1 else d);
          ulp = 2 powi (max (e - 52) (- 1074))
      in ulp * of_int (round_even (x / ulp)))"

definition double :: "rat \<Rightarrow> rat" where
  "double x = (if x = 0 then 0 else if x < 0 then - double_pos (- x) else double_pos x)"

definition double_of_size :: "u64 \<Rightarrow> rat" where
  "double_of_size n = double (of_nat (unat n))"

subsection \<open>The shard\<close>

abbreviation (input) lru_addr :: nat where
  "lru_addr \<equiv> 0"

record 'v LRUCacheShard =
  s_capacity :: u64
  s_usage :: u64
  s_lru_usage :: u64
  s_high_pri_pool_usage :: u64
  s_strict_capacity_limit :: bool
  s_high_pri_pool_ratio :: rat
  s_high_pri_pool_capacity :: rat
  s_heap :: "'v heap"
  s_lru_low_pri :: nat
  s_table :: LRUHandleTable
  s_deleter_calls :: "(bytes \<times> 'v) list"

text \<open>The constructor leaves four members uninitialised; their first values are arguments.\<close>

definition LRUCacheShard_init :: "u64 \<Rightarrow> bool \<Rightarrow> rat \<Rightarrow> rat \<Rightarrow> 'v LRUCacheShard option" where
  "LRUCacheShard_init capacity strict ratio pool_capacity = do {
     (H, t) \<leftarrow> LRUHandleTable_init
       \<lparr>hp_next = (\<lambda>_. None)(lru_addr := Some lru_addr),
        hp_prev = (\<lambda>_. None)(lru_addr := Some lru_addr),
        hp_next_hash = \<lambda>_. None, hp_handle = \<lambda>_. None\<rparr>;
     Some \<lparr>s_capacity = capacity, s_usage = 0, s_lru_usage = 0, s_high_pri_pool_usage = 0,
           s_strict_capacity_limit = strict, s_high_pri_pool_ratio = ratio,
           s_high_pri_pool_capacity = pool_capacity, s_heap = H, s_lru_low_pri = lru_addr,
           s_table = t, s_deleter_calls = []\<rparr>
   }"

text \<open>Access to the links of an allocated entry or of the dummy head.\<close>

definition has_links :: "'v heap \<Rightarrow> nat \<Rightarrow> bool" where
  "has_links H a \<longleftrightarrow> a = lru_addr \<or> hp_handle H a \<noteq> None"

definition set_next :: "nat \<Rightarrow> nat option \<Rightarrow> 'v heap \<Rightarrow> 'v heap option" where
  "set_next a p H = (if has_links H a then Some (H\<lparr>hp_next := (hp_next H)(a := p)\<rparr>) else None)"

definition set_prev :: "nat \<Rightarrow> nat option \<Rightarrow> 'v heap \<Rightarrow> 'v heap option" where
  "set_prev a p H = (if has_links H a then Some (H\<lparr>hp_prev := (hp_prev H)(a := p)\<rparr>) else None)"

text \<open>\<open>Unref\<close>: whether the last reference is gone.\<close>

definition Unref :: "nat \<Rightarrow> 'v LRUCacheShard \<Rightarrow> (bool \<times> 'v LRUCacheShard) option" where
  "Unref e s = do {
     c \<leftarrow> hp_handle (s_heap s) e;
     if \<not> h_refs c > 0 then None
     else do {
       H \<leftarrow> update_handle e (\<lambda>c. c\<lparr>h_refs := h_refs c - 1\<rparr>) (s_heap s);
       Some (h_refs c - 1 = 0, s\<lparr>s_heap := H\<rparr>)
     }
   }"

definition LRU_Remove :: "nat \<Rightarrow> 'v LRUCacheShard \<Rightarrow> 'v LRUCacheShard option" where
  "LRU_Remove e s = do {
     let H = s_heap s;
     c \<leftarrow> hp_handle H e;
     n \<leftarrow> hp_next H e;
     p \<leftarrow> hp_prev H e;
     let s = (if s_lru_low_pri s = e then s\<lparr>s_lru_low_pri := p\<rparr> else s);
     H \<leftarrow> set_prev n (hp_prev H e) H;
     p \<leftarrow> hp_prev H e;
     H \<leftarrow> set_next p (hp_next H e) H;
     H \<leftarrow> set_next e None H;
     H \<leftarrow> set_prev e None H;
     let s = s\<lparr>s_heap := H, s_lru_usage := s_lru_usage s - h_charge c\<rparr>;
     if InHighPriPool c then
       (if \<not> s_high_pri_pool_usage s \<ge> h_charge c then None
        else Some (s\<lparr>s_high_pri_pool_usage := s_high_pri_pool_usage s - h_charge c\<rparr>))
     else Some s
   }"

partial_function (option) MaintainPoolSize :: "'v LRUCacheShard \<Rightarrow> 'v LRUCacheShard option" where
  "MaintainPoolSize s =
     (if double_of_size (s_high_pri_pool_usage s) > s_high_pri_pool_capacity s then do {
        e \<leftarrow> hp_next (s_heap s) (s_lru_low_pri s);
        if e = lru_addr then None
        else do {
          c \<leftarrow> hp_handle (s_heap s) e;
          H \<leftarrow> update_handle e (SetInHighPriPool False) (s_heap s);
          MaintainPoolSize (s\<lparr>s_lru_low_pri := e, s_heap := H,
            s_high_pri_pool_usage := s_high_pri_pool_usage s - h_charge c\<rparr>)
        }
      }
      else Some s)"

definition LRU_Insert :: "nat \<Rightarrow> 'v LRUCacheShard \<Rightarrow> 'v LRUCacheShard option" where
  "LRU_Insert e s = do {
     let H = s_heap s;
     c \<leftarrow> hp_handle H e;
     if hp_next H e \<noteq> None \<or> hp_prev H e \<noteq> None then None
     else do {
       s \<leftarrow> (if s_high_pri_pool_ratio s > 0 \<and> IsHighPri c then do {
               H \<leftarrow> set_next e (Some lru_addr) H;
               H \<leftarrow> set_prev e (hp_prev H lru_addr) H;
               p \<leftarrow> hp_prev H e;
               H \<leftarrow> set_next p (Some e) H;
               n \<leftarrow> hp_next H e;
               H \<leftarrow> set_prev n (Some e) H;
               H \<leftarrow> update_handle e (SetInHighPriPool True) H;
               MaintainPoolSize (s\<lparr>s_heap := H, s_high_pri_pool_usage := s_high_pri_pool_usage s + h_charge c\<rparr>)
             }
             else do {
               H \<leftarrow> set_next e (hp_next H (s_lru_low_pri s)) H;
               H \<leftarrow> set_prev e (Some (s_lru_low_pri s)) H;
               p \<leftarrow> hp_prev H e;
               H \<leftarrow> set_next p (Some e) H;
               n \<leftarrow> hp_next H e;
               H \<leftarrow> set_prev n (Some e) H;
               H \<leftarrow> update_handle e (SetInHighPriPool False) H;
               Some (s\<lparr>s_heap := H, s_lru_low_pri := e\<rparr>)
             });
       Some (s\<lparr>s_lru_usage := s_lru_usage s + h_charge c\<rparr>)
     }
   }"

text \<open>The calls \<open>table_.Remove(e->key(), e->hash)\<close> and \<open>e->SetInCache(b)\<close>.\<close>

definition table_Remove :: "nat \<Rightarrow> 'v LRUCacheShard \<Rightarrow> 'v LRUCacheShard option" where
  "table_Remove e s = do {
     key \<leftarrow> LRUHandle_key (s_heap s) e;
     c \<leftarrow> hp_handle (s_heap s) e;
     (_, H, t) \<leftarrow> LRUHandleTable_Remove key (h_hash c) (s_heap s) (s_table s);
     Some (s\<lparr>s_heap := H, s_table := t\<rparr>)
   }"

definition set_in_cache :: "nat \<Rightarrow> bool \<Rightarrow> 'v LRUCacheShard \<Rightarrow> 'v LRUCacheShard option" where
  "set_in_cache e b s = do {
     H \<leftarrow> update_handle e (SetInCache b) (s_heap s);
     Some (s\<lparr>s_heap := H\<rparr>)
   }"

text \<open>The body of the two eviction loops, on the oldest entry.\<close>

definition evict_oldest :: "nat \<Rightarrow> 'v LRUCacheShard \<Rightarrow> 'v LRUCacheShard option" where
  "evict_oldest old s = do {
     c \<leftarrow> hp_handle (s_heap s) old;
     if \<not> InCache c \<or> h_refs c \<noteq> 1 then None
     else do {
       s \<leftarrow> LRU_Remove old s;
       s \<leftarrow> table_Remove old s;
       s \<leftarrow> set_in_cache old False s;
       (_, s) \<leftarrow> Unref old s;
       Some (s\<lparr>s_usage := s_usage s - h_charge c\<rparr>)
     }
   }"

partial_function (option) EvictFromLRU ::
    "u64 \<Rightarrow> nat list \<Rightarrow> 'v LRUCacheShard \<Rightarrow> (nat list \<times> 'v LRUCacheShard) option" where
  "EvictFromLRU charge deleted s =
     (if s_usage s + charge > s_capacity s \<and> hp_next (s_heap s) lru_addr \<noteq> Some lru_addr then do {
        old \<leftarrow> hp_next (s_heap s) lru_addr;
        s \<leftarrow> evict_oldest old s;
        EvictFromLRU charge (deleted @ [old]) s
      }
      else Some (deleted, s))"

partial_function (option) EraseUnRef_loop ::
    "nat list \<Rightarrow> 'v LRUCacheShard \<Rightarrow> (nat list \<times> 'v LRUCacheShard) option" where
  "EraseUnRef_loop deleted s =
     (if hp_next (s_heap s) lru_addr \<noteq> Some lru_addr then do {
        old \<leftarrow> hp_next (s_heap s) lru_addr;
        s \<leftarrow> evict_oldest old s;
        EraseUnRef_loop (deleted @ [old]) s
      }
      else Some (deleted, s))"

definition Shard_Free :: "nat \<Rightarrow> 'v LRUCacheShard \<Rightarrow> 'v LRUCacheShard option" where
  "Shard_Free e s = do {
     (calls, H) \<leftarrow> LRUHandle_Free e (s_heap s);
     Some (s\<lparr>s_heap := H, s_deleter_calls := s_deleter_calls s @ calls\<rparr>)
   }"

fun free_all :: "nat list \<Rightarrow> 'v LRUCacheShard \<Rightarrow> 'v LRUCacheShard option" where
  "free_all [] s = Some s"
| "free_all (e # es) s = do { s \<leftarrow> Shard_Free e s; free_all es s }"

definition EraseUnRefEntries :: "'v LRUCacheShard \<Rightarrow> 'v LRUCacheShard option" where
  "EraseUnRefEntries s = do {
     (last_reference_list, s) \<leftarrow> EraseUnRef_loop [] s;
     free_all last_reference_list s
   }"

definition SetCapacity :: "u64 \<Rightarrow> 'v LRUCacheShard \<Rightarrow> 'v LRUCacheShard option" where
  "SetCapacity capacity s = do {
     let s = s\<lparr>s_capacity := capacity,
               s_high_pri_pool_capacity := double (double_of_size capacity * s_high_pri_pool_ratio s)\<rparr>;
     (last_reference_list, s) \<leftarrow> EvictFromLRU 0 [] s;
     free_all last_reference_list s
   }"

definition SetStrictCapacityLimit :: "bool \<Rightarrow> 'v LRUCacheShard \<Rightarrow> 'v LRUCacheShard" where
  "SetStrictCapacityLimit strict_capacity_limit s =
     s\<lparr>s_strict_capacity_limit := strict_capacity_limit\<rparr>"

definition Shard_Lookup :: "bytes \<Rightarrow> u32 \<Rightarrow> 'v LRUCacheShard \<Rightarrow> (nat option \<times> 'v LRUCacheShard) option" where
  "Shard_Lookup key hash s = do {
     r \<leftarrow> LRUHandleTable_Lookup (s_heap s) (s_table s) key hash;
     case r of
       None \<Rightarrow> Some (None, s)
     | Some e \<Rightarrow> do {
         c \<leftarrow> hp_handle (s_heap s) e;
         if \<not> InCache c then None
         else do {
           s \<leftarrow> (if h_refs c = 1 then LRU_Remove e s else Some s);
           H \<leftarrow> update_handle e (\<lambda>c. c\<lparr>h_refs := h_refs c + 1\<rparr>) (s_heap s);
           Some (Some e, s\<lparr>s_heap := H\<rparr>)
         }
       }
   }"

definition SetHighPriorityPoolRatio :: "rat \<Rightarrow> 'v LRUCacheShard \<Rightarrow> 'v LRUCacheShard option" where
  "SetHighPriorityPoolRatio high_pri_pool_ratio s =
     MaintainPoolSize (s\<lparr>s_high_pri_pool_ratio := high_pri_pool_ratio,
       s_high_pri_pool_capacity := double (double_of_size (s_capacity s) * high_pri_pool_ratio)\<rparr>)"

definition Shard_Release :: "nat option \<Rightarrow> 'v LRUCacheShard \<Rightarrow> 'v LRUCacheShard option" where
  "Shard_Release handle s =
     (case handle of
        None \<Rightarrow> Some s
      | Some e \<Rightarrow> do {
          (last_reference, s) \<leftarrow> Unref e s;
          c \<leftarrow> hp_handle (s_heap s) e;
          let s = (if last_reference then s\<lparr>s_usage := s_usage s - h_charge c\<rparr> else s);
          (last_reference, s) \<leftarrow>
            (if h_refs c = 1 \<and> InCache c then
               (if s_usage s > s_capacity s then
                  (if hp_next (s_heap s) lru_addr \<noteq> Some lru_addr then None
                   else do {
                     s \<leftarrow> table_Remove e s;
                     s \<leftarrow> set_in_cache e False s;
                     (_, s) \<leftarrow> Unref e s;
                     Some (True, s\<lparr>s_usage := s_usage s - h_charge c\<rparr>)
                   })
                else do { s \<leftarrow> LRU_Insert e s; Some (last_reference, s) })
             else Some (last_reference, s));
          if last_reference then Shard_Free e s else Some s
        })"

text \<open>
  \<open>Insert\<close>, with the address \<open>e\<close> of the new entry, the byte \<open>g\<close> found in its flags,
  whether the caller passed a deleter and whether it asked for a handle. The second result
  is what \<open>*handle\<close> is set to.
\<close>

definition new_handle :: "byte \<Rightarrow> bytes \<Rightarrow> u32 \<Rightarrow> 'v \<Rightarrow> u64 \<Rightarrow> bool \<Rightarrow> bool \<Rightarrow> Priority \<Rightarrow> 'v LRUHandle" where
  "new_handle g key hash value charge deleter handle priority =
     SetPriority priority (SetInCache True
       \<lparr>h_value = value, h_deleter = deleter, h_charge = charge,
        h_refs = (if handle then 2 else 1), h_flags = g, h_hash = hash, h_key = key\<rparr>)"

text \<open>What \<open>Insert\<close> does with the entry its own one replaced in the table.\<close>

definition replace_entry ::
    "nat option \<Rightarrow> nat list \<Rightarrow> 'v LRUCacheShard \<Rightarrow> (nat list \<times> 'v LRUCacheShard) option" where
  "replace_entry old last_reference_list s =
     (case old of
        None \<Rightarrow> Some (last_reference_list, s)
      | Some old \<Rightarrow> do {
          s \<leftarrow> set_in_cache old False s;
          (last, s) \<leftarrow> Unref old s;
          if last then do {
            c \<leftarrow> hp_handle (s_heap s) old;
            s \<leftarrow> LRU_Remove old (s\<lparr>s_usage := s_usage s - h_charge c\<rparr>);
            Some (last_reference_list @ [old], s)
          }
          else Some (last_reference_list, s)
        })"

definition Shard_Insert ::
    "nat \<Rightarrow> byte \<Rightarrow> bytes \<Rightarrow> u32 \<Rightarrow> 'v \<Rightarrow> u64 \<Rightarrow> bool \<Rightarrow> bool \<Rightarrow> Priority \<Rightarrow> 'v LRUCacheShard \<Rightarrow>
     (Status \<times> nat option \<times> 'v LRUCacheShard) option" where
  "Shard_Insert e g key hash value charge deleter handle priority s = do {
     let H = s_heap s;
     let s = s\<lparr>s_heap := H\<lparr>hp_handle := (hp_handle H)(e \<mapsto> new_handle g key hash value charge deleter handle priority),
               hp_next := (hp_next H)(e := None), hp_prev := (hp_prev H)(e := None)\<rparr>\<rparr>;
     (last_reference_list, s) \<leftarrow> EvictFromLRU charge [] s;
     (st, res, last_reference_list, s) \<leftarrow>
       (if s_usage s - s_lru_usage s + charge > s_capacity s \<and> (s_strict_capacity_limit s \<or> \<not> handle) then
          (if \<not> handle then Some (Status_OK, None, last_reference_list @ [e], s)
           else
             Some (Status_Incomplete (cstr ''Insert failed due to LRU cache being full.'') [], None,
                   last_reference_list, s\<lparr>s_heap := (s_heap s)\<lparr>hp_handle := (hp_handle (s_heap s))(e := None)\<rparr>\<rparr>))
        else do {
          (old, H, t) \<leftarrow> LRUHandleTable_Insert e (s_heap s) (s_table s);
          let s = s\<lparr>s_heap := H, s_table := t, s_usage := s_usage s + charge\<rparr>;
          (last_reference_list, s) \<leftarrow> replace_entry old last_reference_list s;
          if \<not> handle then do {
            s \<leftarrow> LRU_Insert e s;
            Some (Status_OK, None, last_reference_list, s)
          }
          else Some (Status_OK, Some e, last_reference_list, s)
        });
     s \<leftarrow> free_all last_reference_list s;
     Some (st, res, s)
   }"

definition Shard_Erase :: "bytes \<Rightarrow> u32 \<Rightarrow> 'v LRUCacheShard \<Rightarrow> 'v LRUCacheShard option" where
  "Shard_Erase key hash s = do {
     (e, H, t) \<leftarrow> LRUHandleTable_Remove key hash (s_heap s) (s_table s);
     let s = s\<lparr>s_heap := H, s_table := t\<rparr>;
     case e of
       None \<Rightarrow> Some s
     | Some e \<Rightarrow> do {
         (last_reference, s) \<leftarrow> Unref e s;
         c \<leftarrow> hp_handle (s_heap s) e;
         let s = (if last_reference then s\<lparr>s_usage := s_usage s - h_charge c\<rparr> else s);
         s \<leftarrow> (if last_reference \<and> InCache c then LRU_Remove e s else Some s);
         s \<leftarrow> set_in_cache e False s;
         if last_reference then Shard_Free e s else Some s
       }
   }"

definition Shard_GetUsage :: "'v LRUCacheShard \<Rightarrow> u64" where
  "Shard_GetUsage s = s_usage s"

definition Shard_GetPinnedUsage :: "'v LRUCacheShard \<Rightarrow> u64 option" where
  "Shard_GetPinnedUsage s =
     (if \<not> s_usage s \<ge> s_lru_usage s then None else Some (s_usage s - s_lru_usage s))"

text \<open>The arguments of the calls of the callback.\<close>

definition Shard_ApplyToAllCacheEntries :: "'v LRUCacheShard \<Rightarrow> ('v \<times> u64) list option" where
  "Shard_ApplyToAllCacheEntries s = do {
     (_, calls) \<leftarrow> Table_ApplyToAllCacheEntries fst
       (\<lambda>h (H, calls). do { c \<leftarrow> hp_handle H h; Some (H, calls @ [(h_value c, h_charge c)]) })
       (s_table s) (s_heap s, []);
     Some calls
   }"

definition LRUCacheShard_destroy :: "'v LRUCacheShard \<Rightarrow> 'v LRUCacheShard option" where
  "LRUCacheShard_destroy s = do {
     (calls, H) \<leftarrow> LRUHandleTable_destroy (s_table s) (s_heap s);
     Some (s\<lparr>s_heap := H, s_deleter_calls := s_deleter_calls s @ calls\<rparr>)
   }"

subsection \<open>Doubles are not negative where the exact value is not\<close>

lemma round_even_nonneg: "0 \<le> y \<Longrightarrow> 0 \<le> round_even y"
  by (auto simp: round_even_def Let_def)

lemma double_nonneg: "0 \<le> x \<Longrightarrow> 0 \<le> double x"
  by (auto simp: double_def double_pos_def Let_def split_beta intro!: mult_nonneg_nonneg round_even_nonneg)

lemma double_of_size_nonneg: "0 \<le> double_of_size n"
  unfolding double_of_size_def by (rule double_nonneg) (rule of_nat_0_le_iff)

lemma double_of_size_0 [simp]: "double_of_size 0 = 0"
  by (simp add: double_of_size_def double_def)

subsection \<open>Views of the heap and the invariant\<close>

definition allocated :: "'v heap \<Rightarrow> nat set" where
  "allocated H = dom (hp_handle H)"

definition incache :: "'v heap \<Rightarrow> nat \<Rightarrow> bool" where
  "incache H a = (case hp_handle H a of None \<Rightarrow> False | Some c \<Rightarrow> InCache c)"

definition pool :: "'v heap \<Rightarrow> nat \<Rightarrow> bool" where
  "pool H a = (case hp_handle H a of None \<Rightarrow> False | Some c \<Rightarrow> InHighPriPool c)"

definition refs_of :: "'v heap \<Rightarrow> nat \<Rightarrow> nat" where
  "refs_of H a = (case hp_handle H a of None \<Rightarrow> 0 | Some c \<Rightarrow> unat (h_refs c))"

definition charge_of :: "'v heap \<Rightarrow> nat \<Rightarrow> nat" where
  "charge_of H a = (case hp_handle H a of None \<Rightarrow> 0 | Some c \<Rightarrow> unat (h_charge c))"

lemmas view_defs = allocated_def incache_def pool_def refs_of_def charge_of_def

lemma view_links [simp]:
  "allocated (H\<lparr>hp_next := N\<rparr>) = allocated H" "allocated (H\<lparr>hp_prev := P\<rparr>) = allocated H"
  "allocated (H\<lparr>hp_next_hash := nh\<rparr>) = allocated H"
  "incache (H\<lparr>hp_next := N\<rparr>) = incache H" "incache (H\<lparr>hp_prev := P\<rparr>) = incache H"
  "incache (H\<lparr>hp_next_hash := nh\<rparr>) = incache H"
  "pool (H\<lparr>hp_next := N\<rparr>) = pool H" "pool (H\<lparr>hp_prev := P\<rparr>) = pool H"
  "pool (H\<lparr>hp_next_hash := nh\<rparr>) = pool H"
  "refs_of (H\<lparr>hp_next := N\<rparr>) = refs_of H" "refs_of (H\<lparr>hp_prev := P\<rparr>) = refs_of H"
  "refs_of (H\<lparr>hp_next_hash := nh\<rparr>) = refs_of H"
  "charge_of (H\<lparr>hp_next := N\<rparr>) = charge_of H" "charge_of (H\<lparr>hp_prev := P\<rparr>) = charge_of H"
  "charge_of (H\<lparr>hp_next_hash := nh\<rparr>) = charge_of H"
  by (simp_all add: view_defs fun_eq_iff)

lemma view_links_keys [simp]:
  "key_of (H\<lparr>hp_next := N\<rparr>) = key_of H" "key_of (H\<lparr>hp_prev := P\<rparr>) = key_of H"
  "hash_of (H\<lparr>hp_next := N\<rparr>) = hash_of H" "hash_of (H\<lparr>hp_prev := P\<rparr>) = hash_of H"
  by (simp_all add: key_of_def hash_of_def fun_eq_iff)

lemma view_upd:
  "allocated (H\<lparr>hp_handle := (hp_handle H)(e \<mapsto> c)\<rparr>) = insert e (allocated H)"
  "incache (H\<lparr>hp_handle := (hp_handle H)(e \<mapsto> c)\<rparr>) = (incache H)(e := InCache c)"
  "pool (H\<lparr>hp_handle := (hp_handle H)(e \<mapsto> c)\<rparr>) = (pool H)(e := InHighPriPool c)"
  "refs_of (H\<lparr>hp_handle := (hp_handle H)(e \<mapsto> c)\<rparr>) = (refs_of H)(e := unat (h_refs c))"
  "charge_of (H\<lparr>hp_handle := (hp_handle H)(e \<mapsto> c)\<rparr>) = (charge_of H)(e := unat (h_charge c))"
  "key_of (H\<lparr>hp_handle := (hp_handle H)(e \<mapsto> c)\<rparr>) = (key_of H)(e := h_key c)"
  "hash_of (H\<lparr>hp_handle := (hp_handle H)(e \<mapsto> c)\<rparr>) = (hash_of H)(e := h_hash c)"
  by (auto simp: view_defs key_of_def hash_of_def fun_eq_iff)

lemma view_at:
  assumes "hp_handle H e = Some c"
  shows "e \<in> allocated H" "incache H e \<longleftrightarrow> InCache c" "pool H e \<longleftrightarrow> InHighPriPool c"
    "refs_of H e = unat (h_refs c)" "charge_of H e = unat (h_charge c)" "key_of H e = h_key c" "hash_of H e = h_hash c"
  using assms by (auto simp: view_defs key_of_def hash_of_def)

text \<open>The ring: low-priority entries, then high-priority ones; entries outside it are unlinked.\<close>

definition ring_ok :: "'v heap \<Rightarrow> nat \<Rightarrow> nat list \<Rightarrow> nat list \<Rightarrow> bool" where
  "ring_ok H low lows highs \<longleftrightarrow>
     dl (hp_next H) (hp_prev H) lru_addr (lows @ highs) lru_addr \<and> distinct (lows @ highs) \<and>
     lru_addr \<notin> allocated H \<and> set (lows @ highs) \<subseteq> allocated H \<and> low = last (lru_addr # lows) \<and>
     (\<forall>e\<in>set highs. pool H e) \<and> (\<forall>e\<in>set lows. \<not> pool H e) \<and>
     (\<forall>e\<in>allocated H - set (lows @ highs). hp_next H e = None \<and> hp_prev H e = None)"

text \<open>
  The books: \<open>held\<close> counts the handles that clients hold, \<open>out\<close> are entries that are taken out
  of the cache and about to be freed, or not yet in it.
\<close>

definition cached :: "nat set \<Rightarrow> 'v heap \<Rightarrow> nat set" where
  "cached out H = {a. a \<notin> out \<and> incache H a}"

definition books :: "nat set \<Rightarrow> nat multiset \<Rightarrow> nat list \<Rightarrow> nat list \<Rightarrow> 'v LRUCacheShard \<Rightarrow> bool" where
  "books out held lows highs s \<longleftrightarrow>
     (let H = s_heap s in
        finite (allocated H) \<and> out \<subseteq> allocated H \<and> set_mset held \<subseteq> allocated H - out \<and>
        set (lows @ highs) = {a \<in> cached out H. a \<notin># held} \<and>
        (\<forall>a\<in>allocated H - out. refs_of H a = (if incache H a then 1 else 0) + count held a \<and> refs_of H a \<noteq> 0) \<and>
        unat (s_usage s) = sum (charge_of H) (allocated H - out) \<and>
        unat (s_lru_usage s) = sum (charge_of H) (set (lows @ highs)) \<and>
        unat (s_high_pri_pool_usage s) = sum (charge_of H) (set highs) \<and>
        0 \<le> s_high_pri_pool_capacity s)"

definition shard_rep :: "nat set \<Rightarrow> nat multiset \<Rightarrow> nat list \<Rightarrow> nat list \<Rightarrow> 'v LRUCacheShard \<Rightarrow> bool" where
  "shard_rep out held lows highs s \<longleftrightarrow>
     table_rep (s_heap s) (s_table s) (cached out (s_heap s)) \<and>
     ring_ok (s_heap s) (s_lru_low_pri s) lows highs \<and> books out held lows highs s"

definition shard_inv :: "nat multiset \<Rightarrow> 'v LRUCacheShard \<Rightarrow> bool" where
  "shard_inv held s \<longleftrightarrow>
     (\<exists>lows highs. shard_rep {} held lows highs s \<and> (s_usage s > s_capacity s \<longrightarrow> lows @ highs = []))"

lemma table_rep_cong:
  assumes "table_rep H t E" and "hp_next_hash H' = hp_next_hash H"
    and "\<And>e. e \<in> E \<Longrightarrow> entry_ok H' e" and "\<And>e. e \<in> E \<Longrightarrow> key_of H' e = key_of H e"
    and "\<And>e. e \<in> E \<Longrightarrow> hash_of H' e = hash_of H e"
  shows "table_rep H' t E"
proof -
  have "{e \<in> E. bucket_of len (hash_of H' e) = i} = {e \<in> E. bucket_of len (hash_of H e) = i}" for len i
    using assms(5) by auto
  moreover have "inj_on (\<lambda>e. (key_of H' e, hash_of H' e)) E \<longleftrightarrow> inj_on (\<lambda>e. (key_of H e, hash_of H e)) E"
    by (rule inj_on_cong) (use assms(4,5) in auto)
  ultimately show ?thesis using assms(1-3) by (simp add: table_rep_def chains_def)
qed

lemma dl_no_self: "dl N P a xs z \<Longrightarrow> distinct (a # xs) \<Longrightarrow> z \<notin> set xs \<Longrightarrow> e \<in> set xs \<Longrightarrow> N e \<noteq> Some e"
  by (induction xs arbitrary: a) (auto dest: dl_first split: if_splits simp: hd_append)

lemma ring_no_self:
  assumes "ring_ok H low lows highs" and "e \<in> allocated H"
  shows "hp_next H e \<noteq> Some e"
proof (cases "e \<in> set (lows @ highs)")
  case True
  then show ?thesis
    using assms dl_no_self [of "hp_next H" "hp_prev H" lru_addr "lows @ highs" lru_addr e]
    by (auto simp: ring_ok_def)
next
  case False
  then show ?thesis using assms by (simp add: ring_ok_def)
qed

lemma cached_entry_ok: "ring_ok H low lows highs \<Longrightarrow> e \<in> cached out H \<Longrightarrow> entry_ok H e"
  using ring_no_self [of H low lows highs e]
  by (auto simp: cached_def incache_def entry_ok_def allocated_def split: option.splits)

text \<open>Updates of different fields commute; these rules put them in the order of the records.\<close>

lemma heap_order:
  "H\<lparr>hp_prev := P, hp_next := N\<rparr> = H\<lparr>hp_next := N, hp_prev := P\<rparr>"
  "H\<lparr>hp_next_hash := nh, hp_next := N\<rparr> = H\<lparr>hp_next := N, hp_next_hash := nh\<rparr>"
  "H\<lparr>hp_handle := h, hp_next := N\<rparr> = H\<lparr>hp_next := N, hp_handle := h\<rparr>"
  "H\<lparr>hp_next_hash := nh, hp_prev := P\<rparr> = H\<lparr>hp_prev := P, hp_next_hash := nh\<rparr>"
  "H\<lparr>hp_handle := h, hp_prev := P\<rparr> = H\<lparr>hp_prev := P, hp_handle := h\<rparr>"
  "H\<lparr>hp_handle := h, hp_next_hash := nh\<rparr> = H\<lparr>hp_next_hash := nh, hp_handle := h\<rparr>"
  for H :: "'v heap"
  by simp_all

lemma shard_order:
  "s\<lparr>s_lru_usage := l, s_usage := u\<rparr> = s\<lparr>s_usage := u, s_lru_usage := l\<rparr>"
  "s\<lparr>s_high_pri_pool_usage := w, s_usage := u\<rparr> = s\<lparr>s_usage := u, s_high_pri_pool_usage := w\<rparr>"
  "s\<lparr>s_heap := H, s_usage := u\<rparr> = s\<lparr>s_usage := u, s_heap := H\<rparr>"
  "s\<lparr>s_lru_low_pri := q, s_usage := u\<rparr> = s\<lparr>s_usage := u, s_lru_low_pri := q\<rparr>"
  "s\<lparr>s_table := t, s_usage := u\<rparr> = s\<lparr>s_usage := u, s_table := t\<rparr>"
  "s\<lparr>s_high_pri_pool_usage := w, s_lru_usage := l\<rparr> = s\<lparr>s_lru_usage := l, s_high_pri_pool_usage := w\<rparr>"
  "s\<lparr>s_heap := H, s_lru_usage := l\<rparr> = s\<lparr>s_lru_usage := l, s_heap := H\<rparr>"
  "s\<lparr>s_lru_low_pri := q, s_lru_usage := l\<rparr> = s\<lparr>s_lru_usage := l, s_lru_low_pri := q\<rparr>"
  "s\<lparr>s_table := t, s_lru_usage := l\<rparr> = s\<lparr>s_lru_usage := l, s_table := t\<rparr>"
  "s\<lparr>s_heap := H, s_high_pri_pool_usage := w\<rparr> = s\<lparr>s_high_pri_pool_usage := w, s_heap := H\<rparr>"
  "s\<lparr>s_lru_low_pri := q, s_high_pri_pool_usage := w\<rparr> = s\<lparr>s_high_pri_pool_usage := w, s_lru_low_pri := q\<rparr>"
  "s\<lparr>s_table := t, s_high_pri_pool_usage := w\<rparr> = s\<lparr>s_high_pri_pool_usage := w, s_table := t\<rparr>"
  "s\<lparr>s_lru_low_pri := q, s_heap := H\<rparr> = s\<lparr>s_heap := H, s_lru_low_pri := q\<rparr>"
  "s\<lparr>s_table := t, s_heap := H\<rparr> = s\<lparr>s_heap := H, s_table := t\<rparr>"
  "s\<lparr>s_table := t, s_lru_low_pri := q\<rparr> = s\<lparr>s_lru_low_pri := q, s_table := t\<rparr>"
  for s :: "'v LRUCacheShard"
  by simp_all

lemma handle_order: "c\<lparr>h_flags := f, h_refs := r\<rparr> = c\<lparr>h_refs := r, h_flags := f\<rparr>"
  for c :: "'v LRUHandle"
  by simp

lemmas record_order = heap_order shard_order handle_order

subsection \<open>Operations on the ring\<close>

lemma has_links_frame [simp]:
  "has_links (H\<lparr>hp_next := N\<rparr>) = has_links H" "has_links (H\<lparr>hp_prev := P\<rparr>) = has_links H"
  by (simp_all add: has_links_def fun_eq_iff)

lemma last_removeAll:
  "distinct (a # xs) \<Longrightarrow> e \<noteq> a \<Longrightarrow>
     last (a # removeAll e xs) = (if last (a # xs) = e then last (a # takeWhile (\<lambda>x. x \<noteq> e) xs) else last (a # xs))"
proof (induction xs arbitrary: a)
  case (Cons x xs)
  show ?case
  proof (cases "x = e")
    case True
    with Cons.prems have "removeAll e xs = xs" by auto
    with True Cons.prems show ?thesis by (auto dest: last_in_set)
  next
    case False
    with Cons.IH [of x] Cons.prems show ?thesis by auto
  qed
qed simp

lemma LRU_Remove_ring:
  fixes s :: "'v LRUCacheShard"
  defines "H \<equiv> s_heap s"
  assumes ring: "ring_ok H (s_lru_low_pri s) lows highs" and e: "e \<in> set (lows @ highs)"
    and c: "hp_handle H e = Some c" and usage: "InHighPriPool c \<Longrightarrow> h_charge c \<le> s_high_pri_pool_usage s"
  obtains N P low where
    "LRU_Remove e s = Some (s\<lparr>s_heap := H\<lparr>hp_next := N, hp_prev := P\<rparr>, s_lru_low_pri := low,
       s_lru_usage := s_lru_usage s - h_charge c,
       s_high_pri_pool_usage :=
         (if InHighPriPool c then s_high_pri_pool_usage s - h_charge c else s_high_pri_pool_usage s)\<rparr>)"
    "ring_ok (H\<lparr>hp_next := N, hp_prev := P\<rparr>) low (removeAll e lows) (removeAll e highs)"
proof -
  obtain xs ys where split: "lows @ highs = xs @ e # ys" and "e \<notin> set xs"
    using split_list_first [OF e] by blast
  then have xs_def: "xs = takeWhile (\<lambda>x. x \<noteq> e) (lows @ highs)"
    unfolding split by (subst takeWhile_append2) auto
  let ?p = "last (lru_addr # xs)" let ?n = "hd (ys @ [lru_addr])"
  have r: "dl (hp_next H) (hp_prev H) lru_addr (xs @ e # ys) lru_addr" "distinct (lru_addr # xs @ e # ys)"
      "set (xs @ e # ys) \<subseteq> allocated H" "lru_addr \<notin> allocated H"
    using ring split by (auto simp: ring_ok_def simp del: dl.simps)
  have pn: "hp_prev H e = Some ?p" "hp_next H e = Some ?n"
    using r(1) dl_last [of _ _ lru_addr xs e] dl_first [of _ _ e ys lru_addr] by (auto simp: dl_append)
  have "?n \<in> insert lru_addr (set ys)" "?p \<in> insert lru_addr (set xs)" by (cases ys) auto
  then have neq: "?n \<noteq> e" "?p \<noteq> e" "has_links H ?n" "has_links H ?p" "has_links H e"
    using r(2,3) c by (auto simp: has_links_def allocated_def)
  define N where "N = (hp_next H)(?p := Some ?n, e := None)"
  define P where "P = (hp_prev H)(?n := Some ?p, e := None)"
  define low where "low = (if s_lru_low_pri s = e then ?p else s_lru_low_pri s)"
  have run: "LRU_Remove e s = Some (s\<lparr>s_heap := H\<lparr>hp_next := N, hp_prev := P\<rparr>, s_lru_low_pri := low,
       s_lru_usage := s_lru_usage s - h_charge c,
       s_high_pri_pool_usage :=
         (if InHighPriPool c then s_high_pri_pool_usage s - h_charge c else s_high_pri_pool_usage s)\<rparr>)"
    using c pn neq usage unfolding LRU_Remove_def H_def [symmetric] set_next_def set_prev_def
    by (auto simp: Let_def N_def P_def low_def)
  have del: "removeAll e lows @ removeAll e highs = xs @ ys"
    unfolding removeAll_append [symmetric] split using r(2) by simp
  have "dl N P lru_addr (xs @ ys) lru_addr"
    by (rule dl_unlink [OF r(1,2) _ N_def P_def]) (use r in auto)
  moreover have "low = last (lru_addr # removeAll e lows)"
  proof (cases "e \<in> set lows")
    case True
    then have xs: "xs = takeWhile (\<lambda>x. x \<noteq> e) lows" by (simp add: xs_def)
    have d: "distinct (lru_addr # lows)" "e \<noteq> lru_addr" using ring r(2) by (auto simp: ring_ok_def)
    have "s_lru_low_pri s = last (lru_addr # lows)" using ring by (simp add: ring_ok_def)
    then show ?thesis unfolding low_def last_removeAll [OF d] xs by (rule arg_cong)
  next
    case False
    then have "last (lru_addr # lows) \<noteq> e" using r(2) by (auto dest: last_in_set)
    with False ring show ?thesis by (simp add: ring_ok_def low_def)
  qed
  moreover have "N a = None \<and> P a = None" if a: "a \<in> allocated H - set (xs @ ys)" for a
  proof (cases "a = e")
    case False
    with a have "a \<notin> set (xs @ e # ys)" by auto
    moreover have "a \<noteq> lru_addr" using a r(4) by (metis DiffD1)
    ultimately have "a \<notin> insert lru_addr (set (xs @ e # ys))" by blast
    then have "N a = hp_next H a" "P a = hp_prev H a"
      using \<open>?n \<in> _\<close> \<open>?p \<in> _\<close> by (auto simp: N_def P_def)
    moreover have "a \<in> allocated H - set (lows @ highs)" using a False split by auto
    ultimately show ?thesis using ring by (simp add: ring_ok_def)
  qed (simp add: N_def P_def)
  ultimately have "ring_ok (H\<lparr>hp_next := N, hp_prev := P\<rparr>) low (removeAll e lows) (removeAll e highs)"
    using ring unfolding ring_ok_def del [symmetric] by (auto simp: distinct_removeAll simp del: dl.simps)
  with run show thesis by (rule that)
qed

text \<open>Two heaps that differ in the links and in the pool flags at most.\<close>

definition core :: "'v heap \<Rightarrow> nat \<Rightarrow> ('v LRUHandle \<times> bool) option" where
  "core H a = map_option (\<lambda>c. (c\<lparr>h_flags := 0\<rparr>, InCache c)) (hp_handle H a)"

definition relinked :: "'v heap \<Rightarrow> 'v heap \<Rightarrow> bool" where
  "relinked H H' \<longleftrightarrow> hp_next_hash H' = hp_next_hash H \<and> core H' = core H"

lemma relinked_refl [simp]: "relinked H H"
  by (simp add: relinked_def)

lemma relinked_trans: "relinked H H' \<Longrightarrow> relinked H' H'' \<Longrightarrow> relinked H H''"
  by (simp add: relinked_def)

lemma relinked_handle:
  assumes "relinked H H'" and "hp_handle H a = Some c"
  obtains c' where "hp_handle H' a = Some c'" "c'\<lparr>h_flags := 0\<rparr> = c\<lparr>h_flags := 0\<rparr>" "InCache c' = InCache c"
proof -
  have "core H' a = core H a" using assms(1) by (simp add: relinked_def)
  then show thesis using assms(2) that by (auto simp: core_def)
qed

lemma same_core_fields:
  assumes "c'\<lparr>h_flags := 0\<rparr> = c\<lparr>h_flags := 0\<rparr>"
  shows "h_value c' = h_value c" "h_deleter c' = h_deleter c" "h_charge c' = h_charge c" "h_refs c' = h_refs c"
    "h_hash c' = h_hash c" "h_key c' = h_key c"
  using assms by (cases c; cases c'; simp)+

lemma relinked_views:
  assumes "relinked H H'"
  shows "allocated H' = allocated H" "incache H' = incache H" "refs_of H' = refs_of H" "charge_of H' = charge_of H"
    "key_of H' = key_of H" "hash_of H' = hash_of H" "hp_next_hash H' = hp_next_hash H"
proof -
  have core: "core H' a = core H a" for a using assms by (simp add: relinked_def)
  show "hp_next_hash H' = hp_next_hash H" using assms by (simp add: relinked_def)
  have dom: "(hp_handle H' a = None) = (hp_handle H a = None)" for a
    using core [of a] by (cases "hp_handle H a"; cases "hp_handle H' a") (auto simp: core_def)
  then show "allocated H' = allocated H" by (simp add: allocated_def dom_def)
  have "incache H' a = incache H a \<and> refs_of H' a = refs_of H a \<and> charge_of H' a = charge_of H a \<and>
      key_of H' a = key_of H a \<and> hash_of H' a = hash_of H a" for a
  proof (cases "hp_handle H a")
    case None
    then show ?thesis using dom [of a] by (simp add: view_defs key_of_def hash_of_def)
  next
    case (Some c)
    with assms obtain c' where c': "hp_handle H' a = Some c'" "c'\<lparr>h_flags := 0\<rparr> = c\<lparr>h_flags := 0\<rparr>" "InCache c' = InCache c"
      by (rule relinked_handle)
    then show ?thesis using Some same_core_fields [OF c'(2)] by (simp add: view_defs key_of_def hash_of_def)
  qed
  then show "incache H' = incache H" "refs_of H' = refs_of H" "charge_of H' = charge_of H"
    "key_of H' = key_of H" "hash_of H' = hash_of H" by auto
qed

lemma relinked_links [simp]: "relinked H (H\<lparr>hp_next := N, hp_prev := P\<rparr>)"
  by (simp add: relinked_def core_def fun_eq_iff)

lemma relinked_pool:
  assumes "hp_handle H e = Some c"
  shows "relinked H (H\<lparr>hp_handle := (hp_handle H)(e \<mapsto> SetInHighPriPool b c)\<rparr>)"
proof -
  have "(SetInHighPriPool b c)\<lparr>h_flags := 0\<rparr> = c\<lparr>h_flags := 0\<rparr>"
    by (simp add: SetInHighPriPool_def)
  then show ?thesis using assms by (auto simp: relinked_def core_def fun_eq_iff)
qed

lemma MaintainPoolSize_ring:
  fixes s :: "'v LRUCacheShard"
  assumes "ring_ok (s_heap s) (s_lru_low_pri s) lows highs" and "0 \<le> s_high_pri_pool_capacity s"
    and "unat (s_high_pri_pool_usage s) = sum (charge_of (s_heap s)) (set highs)"
  shows "\<exists>H k usage. let low = last (lru_addr # lows @ take k highs) in
    MaintainPoolSize s = Some (s\<lparr>s_heap := H, s_lru_low_pri := low, s_high_pri_pool_usage := usage\<rparr>) \<and>
    relinked (s_heap s) H \<and> ring_ok H low (lows @ take k highs) (drop k highs) \<and>
    unat usage = sum (charge_of H) (set (drop k highs)) \<and> double_of_size usage \<le> s_high_pri_pool_capacity s"
  using assms
proof (induction highs arbitrary: s lows)
  case Nil
  then have "s_high_pri_pool_usage s = 0" by (simp add: unat_eq_zero)
  with Nil show ?case
    by (intro exI [of _ "s_heap s"] exI [of _ 0] exI [of _ "s_high_pri_pool_usage s"])
       (simp add: MaintainPoolSize.simps [of s] Let_def ring_ok_def)
next
  case (Cons e highs)
  let ?H = "s_heap s"
  show ?case
  proof (cases "double_of_size (s_high_pri_pool_usage s) > s_high_pri_pool_capacity s")
    case False
    with Cons.prems show ?thesis
      by (intro exI [of _ ?H] exI [of _ 0] exI [of _ "s_high_pri_pool_usage s"])
         (simp add: MaintainPoolSize.simps [of s] Let_def ring_ok_def)
  next
    case True
    have "e \<in> allocated ?H" and e: "e \<noteq> lru_addr" "e \<notin> set highs" "e \<notin> set lows"
      using Cons.prems(1) by (auto simp: ring_ok_def)
    then obtain c where c: "hp_handle ?H e = Some c" by (auto simp: allocated_def)
    have next_low: "hp_next ?H (s_lru_low_pri s) = Some e"
      using Cons.prems(1) dl_last [of "hp_next ?H" "hp_prev ?H" lru_addr lows e]
      by (auto simp: ring_ok_def dl_append simp del: dl.simps)
    let ?H' = "?H\<lparr>hp_handle := (hp_handle ?H)(e \<mapsto> SetInHighPriPool False c)\<rparr>"
    let ?u = "s_high_pri_pool_usage s - h_charge c"
    let ?s = "s\<lparr>s_lru_low_pri := e, s_heap := ?H', s_high_pri_pool_usage := ?u\<rparr>"
    have rel: "relinked ?H ?H'" using c by (rule relinked_pool)
    have le: "h_charge c \<le> s_high_pri_pool_usage s"
      using Cons.prems(3) e(2) view_at(5) [OF c] by (simp add: word_le_nat_alt)
    have sum: "unat ?u = sum (charge_of ?H') (set highs)"
      using Cons.prems(3) e(2) view_at(5) [OF c] le relinked_views(4) [OF rel] by (simp add: unat_sub_le)
    have pool: "pool ?H' = (pool ?H)(e := False)" by (simp add: view_upd)
    have "dl (hp_next ?H) (hp_prev ?H) lru_addr ((lows @ [e]) @ highs) lru_addr"
      using Cons.prems(1) by (simp add: ring_ok_def)
    then have "ring_ok ?H' e (lows @ [e]) highs"
      using Cons.prems(1) e unfolding ring_ok_def relinked_views(1) [OF rel] pool
      by (simp del: append_assoc dl.simps) blast
    with Cons.IH [of ?s "lows @ [e]"] Cons.prems(2) sum obtain H k usage where
      ih: "MaintainPoolSize ?s = Some (?s\<lparr>s_heap := H, s_lru_low_pri := last (lru_addr # (lows @ [e]) @ take k highs),
             s_high_pri_pool_usage := usage\<rparr>)"
        "relinked ?H' H" "ring_ok H (last (lru_addr # (lows @ [e]) @ take k highs)) ((lows @ [e]) @ take k highs) (drop k highs)"
        "unat usage = sum (charge_of H) (set (drop k highs))" "double_of_size usage \<le> s_high_pri_pool_capacity s"
      by (auto simp: Let_def)
    then show ?thesis
      using True next_low e(1) c relinked_trans [OF rel ih(2)]
      by (intro exI [of _ H] exI [of _ "Suc k"] exI [of _ usage])
         (simp add: MaintainPoolSize.simps [of s] Let_def update_handle_def)
  qed
qed

lemma ring_okI:
  assumes "dl (hp_next H) (hp_prev H) lru_addr (lows @ highs) lru_addr" "distinct (lows @ highs)"
    "lru_addr \<notin> allocated H" "set (lows @ highs) \<subseteq> allocated H" "low = last (lru_addr # lows)"
    "\<And>a. a \<in> set highs \<Longrightarrow> pool H a" "\<And>a. a \<in> set lows \<Longrightarrow> \<not> pool H a"
    "\<And>a. a \<in> allocated H - set (lows @ highs) \<Longrightarrow> hp_next H a = None \<and> hp_prev H a = None"
  shows "ring_ok H low lows highs"
  using assms by (simp add: ring_ok_def)

lemma ring_link:
  assumes ring: "ring_ok H low (xs1 @ ys1) (xs2 @ ys2)" and cut: "xs2 = [] \<or> ys1 = []"
    and e: "e \<in> allocated H" "e \<notin> set ((xs1 @ ys1) @ xs2 @ ys2)"
    and "N = (hp_next H)(e := Some (hd (ys1 @ ys2 @ [lru_addr])), last (lru_addr # xs1 @ xs2) := Some e)"
    and "P = (hp_prev H)(e := Some (last (lru_addr # xs1 @ xs2)), hd (ys1 @ ys2 @ [lru_addr]) := Some e)"
  shows "dl N P lru_addr (xs1 @ xs2 @ e # ys1 @ ys2) lru_addr \<and>
    (\<forall>a\<in>allocated H - insert e (set ((xs1 @ ys1) @ xs2 @ ys2)). N a = None \<and> P a = None)"
proof -
  have same: "(xs1 @ ys1) @ xs2 @ ys2 = (xs1 @ xs2) @ ys1 @ ys2" using cut by auto
  have r: "dl (hp_next H) (hp_prev H) lru_addr ((xs1 @ xs2) @ ys1 @ ys2) lru_addr"
      "distinct (lru_addr # (xs1 @ xs2) @ ys1 @ ys2)" "lru_addr \<notin> allocated H"
    using ring unfolding ring_ok_def same by auto
  have e0: "e \<noteq> lru_addr" using e(1) r(3) by metis
  have "dl N P lru_addr ((xs1 @ xs2) @ e # ys1 @ ys2) lru_addr"
    by (rule dl_link [OF r(1,2)]) (use r(2) e e0 assms(5,6) in auto)
  moreover have "N a = None \<and> P a = None"
    if a: "a \<in> allocated H - insert e (set ((xs1 @ ys1) @ xs2 @ ys2))" for a
  proof -
    have "a \<noteq> lru_addr" using a r(3) by (metis DiffD1)
    moreover have "last (lru_addr # xs1 @ xs2) \<in> insert lru_addr (set (xs1 @ xs2))"
      using last_in_set [of "lru_addr # xs1 @ xs2"] by simp
    moreover have "hd (ys1 @ ys2 @ [lru_addr]) \<in> insert lru_addr (set (ys1 @ ys2))"
      by (cases ys1; cases ys2) auto
    ultimately have "a \<noteq> last (lru_addr # xs1 @ xs2)" "a \<noteq> hd (ys1 @ ys2 @ [lru_addr])" using a by auto
    then have "N a = hp_next H a" "P a = hp_prev H a" using a assms(5,6) by auto
    then show ?thesis using ring a by (simp add: ring_ok_def)
  qed
  ultimately show ?thesis by simp
qed

text \<open>
  Where \<open>LRU_Insert\<close> puts an entry: a high-priority one at the young end of the ring, unless the
  pool is disabled, any other one at the young end of the low-priority part.
\<close>

definition linked_last :: "bool \<Rightarrow> nat \<Rightarrow> nat list \<Rightarrow> nat list \<Rightarrow> nat list \<Rightarrow> nat list \<Rightarrow> bool" where
  "linked_last high e lows highs lows' highs' \<longleftrightarrow>
     (if high then lows' @ highs' = lows @ highs @ [e] else lows' = lows @ [e] \<and> highs' = highs)"

lemma linked_last_set:
  assumes "linked_last high e lows highs lows' highs'"
  shows "set (lows' @ highs') = insert e (set (lows @ highs))"
proof (cases high)
  case True
  with assms have "lows' @ highs' = lows @ highs @ [e]" by (simp add: linked_last_def)
  then show ?thesis by (simp only: set_append) auto
qed (use assms in \<open>auto simp: linked_last_def\<close>)

lemma LRU_Insert_ring:
  fixes s :: "'v LRUCacheShard"
  defines "H \<equiv> s_heap s"
  assumes ring: "ring_ok H (s_lru_low_pri s) lows highs" and c: "hp_handle H e = Some c" and e: "e \<notin> set (lows @ highs)"
    and high: "unat (s_high_pri_pool_usage s) = sum (charge_of H) (set highs)"
    and room: "sum (charge_of H) (set highs) + unat (h_charge c) < 2 ^ 64"
    and cap: "0 \<le> s_high_pri_pool_capacity s"
  obtains H' low usage lows' highs' where
    "LRU_Insert e s = Some (s\<lparr>s_heap := H', s_lru_low_pri := low, s_high_pri_pool_usage := usage,
       s_lru_usage := s_lru_usage s + h_charge c\<rparr>)"
    "relinked H H'" "ring_ok H' low lows' highs'" "unat usage = sum (charge_of H') (set highs')"
    "linked_last (s_high_pri_pool_ratio s > 0 \<and> IsHighPri c) e lows highs lows' highs'"
proof -
  have eA: "e \<in> allocated H" using c by (rule view_at)
  have r: "dl (hp_next H) (hp_prev H) lru_addr (lows @ highs) lru_addr" "lru_addr \<notin> allocated H"
      "s_lru_low_pri s = last (lru_addr # lows)" "distinct (lows @ highs)" "set (lows @ highs) \<subseteq> allocated H"
    using ring by (simp_all add: ring_ok_def)
  have e0: "e \<noteq> lru_addr" using eA r(2) by metis
  have null: "hp_next H e = None" "hp_prev H e = None" using ring eA e by (simp_all add: ring_ok_def)
  have links: "has_links H a" if "a \<in> insert e (insert lru_addr (set (lows @ highs)))" for a
    using that r(5) eA by (auto simp: has_links_def allocated_def)
  let ?c = "\<lambda>b. SetInHighPriPool b c"
  let ?upd = "\<lambda>N P b. H\<lparr>hp_next := N, hp_prev := P, hp_handle := (hp_handle H)(e \<mapsto> ?c b)\<rparr>"
  have rel: "relinked H (?upd N P b)" for N P b
    using relinked_trans [OF relinked_links [of H P N] relinked_pool [of _ e c b]] c by simp
  have pool: "pool (?upd N P b) = (pool H)(e := b)" for N P b
    by (auto simp: pool_def fun_eq_iff)
  show thesis
  proof (cases "s_high_pri_pool_ratio s > 0 \<and> IsHighPri c")
    case True
    let ?p = "last (lru_addr # lows @ highs)"
    define N where "N = (hp_next H)(e := Some lru_addr, ?p := Some e)"
    define P where "P = (hp_prev H)(e := Some ?p, lru_addr := Some e)"
    have p_in: "?p \<in> insert lru_addr (set (lows @ highs))"
      using last_in_set [of "lru_addr # lows @ highs"] by simp
    have p: "hp_prev H lru_addr = Some ?p" "?p \<in> insert lru_addr (set (lows @ highs))" "?p \<noteq> e"
      using dl_last [OF r(1)] p_in e e0 by (simp, simp, metis insert_iff)
    let ?s = "s\<lparr>s_heap := ?upd N P True, s_high_pri_pool_usage := s_high_pri_pool_usage s + h_charge c\<rparr>"
    have run: "LRU_Insert e s = do { s \<leftarrow> MaintainPoolSize ?s; Some (s\<lparr>s_lru_usage := s_lru_usage s + h_charge c\<rparr>) }"
      using True c null p e0 links [of e] links [of lru_addr] links [of ?p]
      unfolding LRU_Insert_def H_def [symmetric] set_next_def set_prev_def
      by (simp add: Let_def update_handle_def N_def P_def)
    have "dl N P lru_addr (lows @ highs @ [e]) lru_addr \<and>
        (\<forall>a\<in>allocated H - insert e (set (lows @ highs)). N a = None \<and> P a = None)"
      using ring_link [of H "s_lru_low_pri s" lows "[]" highs "[]" e N P] ring eA e N_def P_def by simp
    moreover have "pool H a" if "a \<in> set highs" for a using that ring by (simp add: ring_ok_def)
    moreover have "\<not> pool H a" if "a \<in> set lows" for a using that ring by (simp add: ring_ok_def)
    ultimately have "ring_ok (?upd N P True) (s_lru_low_pri s) lows (highs @ [e])"
      by (intro ring_okI) (use r e eA in \<open>auto simp: pool relinked_views(1) [OF rel]\<close>)
    moreover have "unat (s_high_pri_pool_usage s + h_charge c) = sum (charge_of (?upd N P True)) (set (highs @ [e]))"
    proof -
      have "sum (charge_of H) (set (highs @ [e])) = unat (h_charge c) + sum (charge_of H) (set highs)"
        using e view_at(5) [OF c] by simp
      then show ?thesis
        using unat_add_small [of "s_high_pri_pool_usage s" "h_charge c"] high room
        unfolding relinked_views(4) [OF rel] by simp
    qed
    ultimately obtain H' k usage where m:
      "MaintainPoolSize ?s = Some (?s\<lparr>s_heap := H', s_lru_low_pri := last (lru_addr # lows @ take k (highs @ [e])),
         s_high_pri_pool_usage := usage\<rparr>)"
      "relinked (?upd N P True) H'"
      "ring_ok H' (last (lru_addr # lows @ take k (highs @ [e]))) (lows @ take k (highs @ [e])) (drop k (highs @ [e]))"
      "unat usage = sum (charge_of H') (set (drop k (highs @ [e])))"
      using MaintainPoolSize_ring [of ?s lows "highs @ [e]"] cap by (auto simp: Let_def simp del: take_append drop_append)
    show thesis
    proof (rule that)
      show "LRU_Insert e s = Some (s\<lparr>s_heap := H', s_lru_low_pri := last (lru_addr # lows @ take k (highs @ [e])),
          s_high_pri_pool_usage := usage, s_lru_usage := s_lru_usage s + h_charge c\<rparr>)"
        by (simp add: run m(1))
      show "relinked H H'" by (rule relinked_trans [OF rel m(2)])
      show "linked_last (s_high_pri_pool_ratio s > 0 \<and> IsHighPri c) e lows highs (lows @ take k (highs @ [e])) (drop k (highs @ [e]))"
        using True unfolding linked_last_def append_assoc append_take_drop_id by simp
    qed (fact m(3,4))+
  next
    case False
    let ?p = "last (lru_addr # lows)" let ?n = "hd (highs @ [lru_addr])"
    define N where "N = (hp_next H)(e := Some ?n, ?p := Some e)"
    define P where "P = (hp_prev H)(e := Some ?p, ?n := Some e)"
    have n: "hp_next H ?p = Some ?n"
      using r(1) dl_last [of "hp_next H" "hp_prev H" lru_addr lows] by (cases highs) (auto simp: dl_append)
    have pn: "?p \<in> insert lru_addr (set lows)" "?n \<in> insert lru_addr (set highs)"
      by auto (cases highs; simp)
    then have neq: "?p \<noteq> e" "?n \<noteq> e" using e e0 by auto
    have run: "LRU_Insert e s = Some (s\<lparr>s_heap := ?upd N P False, s_lru_low_pri := e,
        s_lru_usage := s_lru_usage s + h_charge c\<rparr>)"
    proof -
      have l: "has_links H ?p" "has_links H ?n" "has_links H e" by (rule links; use pn in auto)+
      show ?thesis
        using False c null n neq l r(3)
        unfolding LRU_Insert_def H_def [symmetric] set_next_def set_prev_def
        by (cases "s_high_pri_pool_ratio s > 0") (simp_all add: Let_def update_handle_def N_def P_def)
    qed
    have "dl N P lru_addr (lows @ e # highs) lru_addr \<and>
        (\<forall>a\<in>allocated H - insert e (set (lows @ highs)). N a = None \<and> P a = None)"
      using ring_link [of H "s_lru_low_pri s" lows "[]" "[]" highs e N P] ring eA e N_def P_def by simp
    moreover have "pool H a" if "a \<in> set highs" for a using that ring by (simp add: ring_ok_def)
    moreover have "\<not> pool H a" if "a \<in> set lows" for a using that ring by (simp add: ring_ok_def)
    ultimately have ring': "ring_ok (?upd N P False) e (lows @ [e]) highs"
      by (intro ring_okI) (use r e eA in \<open>auto simp: pool relinked_views(1) [OF rel]\<close>)
    show thesis
    proof (rule that)
      show "LRU_Insert e s = Some (s\<lparr>s_heap := ?upd N P False, s_lru_low_pri := e,
          s_high_pri_pool_usage := s_high_pri_pool_usage s, s_lru_usage := s_lru_usage s + h_charge c\<rparr>)"
        by (simp add: run)
      show "unat (s_high_pri_pool_usage s) = sum (charge_of (?upd N P False)) (set highs)"
        using high relinked_views(4) [OF rel] by simp
      show "linked_last (s_high_pri_pool_ratio s > 0 \<and> IsHighPri c) e lows highs (lows @ [e]) highs"
        using False by (auto simp: linked_last_def)
    qed (fact rel, fact ring')
  qed
qed

subsection \<open>Taking entries out of the cache\<close>

definition params_kept :: "'v LRUCacheShard \<Rightarrow> 'v LRUCacheShard \<Rightarrow> bool" where
  "params_kept s s' \<longleftrightarrow> s_capacity s' = s_capacity s \<and> s_strict_capacity_limit s' = s_strict_capacity_limit s \<and>
     s_high_pri_pool_ratio s' = s_high_pri_pool_ratio s \<and> s_high_pri_pool_capacity s' = s_high_pri_pool_capacity s \<and>
     s_deleter_calls s' = s_deleter_calls s"

lemma params_kept_trans: "params_kept s s' \<Longrightarrow> params_kept s' s'' \<Longrightarrow> params_kept s s''"
  by (simp add: params_kept_def)

lemma sum_minus_one: "finite A \<Longrightarrow> a \<in> A \<Longrightarrow> sum f (A - {a}) = sum f A - f a" for f :: "'a \<Rightarrow> nat"
  by (simp add: sum_diff1_nat)

lemma sum_ge_one: "finite A \<Longrightarrow> a \<in> A \<Longrightarrow> f a \<le> sum f A" for f :: "'a \<Rightarrow> nat"
  by (simp add: member_le_sum)

lemma booksD:
  assumes "books out held lows highs s"
  shows "finite (allocated (s_heap s))" "out \<subseteq> allocated (s_heap s)" "set_mset held \<subseteq> allocated (s_heap s) - out"
    "set (lows @ highs) = {a \<in> cached out (s_heap s). a \<notin># held}"
    "\<And>a. a \<in> allocated (s_heap s) - out \<Longrightarrow>
       refs_of (s_heap s) a = (if incache (s_heap s) a then 1 else 0) + count held a \<and> refs_of (s_heap s) a \<noteq> 0"
    "unat (s_usage s) = sum (charge_of (s_heap s)) (allocated (s_heap s) - out)"
    "unat (s_lru_usage s) = sum (charge_of (s_heap s)) (set (lows @ highs))"
    "unat (s_high_pri_pool_usage s) = sum (charge_of (s_heap s)) (set highs)"
    "0 \<le> s_high_pri_pool_capacity s"
  using assms unfolding books_def Let_def by blast+

lemma ring_entry:
  assumes rep: "shard_rep out held lows highs s" and e: "e \<in> set (lows @ highs)"
  obtains c where "hp_handle (s_heap s) e = Some c" "InCache c" "h_refs c = 1" "e \<notin> out" "e \<notin># held"
    "e \<in> cached out (s_heap s)" "InHighPriPool c \<longleftrightarrow> e \<in> set highs"
    "h_charge c \<le> s_usage s" "h_charge c \<le> s_lru_usage s" "InHighPriPool c \<Longrightarrow> h_charge c \<le> s_high_pri_pool_usage s"
proof -
  let ?H = "s_heap s"
  have b: "books out held lows highs s" and r: "ring_ok ?H (s_lru_low_pri s) lows highs"
    using rep by (simp_all add: shard_rep_def)
  have ec: "e \<in> cached out ?H" "e \<notin># held" using booksD(4) [OF b] e by auto
  then obtain c where c: "hp_handle ?H e = Some c" "InCache c" "e \<notin> out"
    by (auto simp: cached_def incache_def split: option.splits)
  have A: "e \<in> allocated ?H - out" using view_at(1) [OF c(1)] c(3) by simp
  have "count held e = 0" using ec(2) by (simp add: not_in_iff)
  then have "refs_of ?H e = 1" using booksD(5) [OF b A] view_at(2) [OF c(1)] c(2) by simp
  then have "unat (h_refs c) = 1" using view_at(4) [OF c(1)] by simp
  then have refs: "h_refs c = 1" by (metis unat_1 word_unat_eq_iff)
  have hi: "InHighPriPool c \<longleftrightarrow> e \<in> set highs" using r e view_at(3) [OF c(1)] by (auto simp: ring_ok_def)
  have ch: "unat (h_charge c) = charge_of ?H e" using view_at(5) [OF c(1)] by simp
  have "finite (allocated ?H - out)" using booksD(1) [OF b] by simp
  then have "h_charge c \<le> s_usage s"
    using sum_ge_one [OF _ A, of "charge_of ?H"] booksD(6) [OF b] by (simp add: word_le_nat_alt ch)
  moreover have "h_charge c \<le> s_lru_usage s"
    unfolding word_le_nat_alt ch booksD(7) [OF b] by (rule sum_ge_one [OF _ e]) simp
  moreover have "h_charge c \<le> s_high_pri_pool_usage s" if "InHighPriPool c"
    unfolding word_le_nat_alt ch booksD(8) [OF b] by (rule sum_ge_one) (use that hi in auto)
  ultimately show thesis using that [OF c(1,2) refs c(3) ec(2,1) hi] by blast
qed

lemma uncache:
  fixes s :: "'v LRUCacheShard"
  defines "H \<equiv> s_heap s"
  assumes t: "table_rep H (s_table s) E" and e: "e \<in> E" and c: "hp_handle H e = Some c" "h_refs c = 1"
  obtains nh t' where
    "\<And>f. table_Remove e s \<bind> (\<lambda>s. set_in_cache e False s \<bind> (\<lambda>s. Unref e s \<bind> f)) =
       f (True, s\<lparr>s_table := t',
         s_heap := H\<lparr>hp_next_hash := nh, hp_handle := (hp_handle H)(e \<mapsto> (SetInCache False c)\<lparr>h_refs := 0\<rparr>)\<rparr>\<rparr>)"
    "table_rep (H\<lparr>hp_next_hash := nh, hp_handle := (hp_handle H)(e \<mapsto> (SetInCache False c)\<lparr>h_refs := 0\<rparr>)\<rparr>) t' (E - {e})"
proof -
  from Remove_rep [OF t, of "h_key c" "h_hash c"] obtain r nh t' where rm:
    "LRUHandleTable_Remove (h_key c) (h_hash c) H (s_table s) = Some (r, H\<lparr>hp_next_hash := nh\<rparr>, t')"
    "\<And>a. r = Some a \<longleftrightarrow> a \<in> E \<and> key_of H a = h_key c \<and> hash_of H a = h_hash c"
    "table_rep (H\<lparr>hp_next_hash := nh\<rparr>) t' (E - set_option r)"
    by blast
  have r: "r = Some e" using rm(2) [of e] e view_at(6,7) [OF c(1)] by simp
  have key: "LRUHandle_key H e = Some (h_key c)"
    using t e view_at(6) [OF c(1)] by (simp add: table_rep_def LRUHandle_key_eq)
  have "table_rep (H\<lparr>hp_next_hash := nh, hp_handle := (hp_handle H)(e \<mapsto> (SetInCache False c)\<lparr>h_refs := 0\<rparr>)\<rparr>) t' (E - {e})"
    by (rule table_rep_cong [of "H\<lparr>hp_next_hash := nh\<rparr>"])
       (use rm(3) r t in \<open>auto simp: entry_ok_def table_rep_def key_of_def hash_of_def\<close>)
  moreover have "table_Remove e s \<bind> (\<lambda>s. set_in_cache e False s \<bind> (\<lambda>s. Unref e s \<bind> f)) =
       f (True, s\<lparr>s_table := t',
         s_heap := H\<lparr>hp_next_hash := nh, hp_handle := (hp_handle H)(e \<mapsto> (SetInCache False c)\<lparr>h_refs := 0\<rparr>)\<rparr>\<rparr>)" for f :: "_ \<Rightarrow> 'b option"
    using rm(1) key c by (simp add: table_Remove_def set_in_cache_def Unref_def update_handle_def H_def [symmetric])
  ultimately show thesis using that by blast
qed

lemma ring_ok_cong:
  "hp_next H' = hp_next H \<Longrightarrow> hp_prev H' = hp_prev H \<Longrightarrow> allocated H' = allocated H \<Longrightarrow> pool H' = pool H \<Longrightarrow>
   ring_ok H' low lows highs \<longleftrightarrow> ring_ok H low lows highs"
  by (simp add: ring_ok_def)

text \<open>Changing the other fields of an allocated entry.\<close>

lemma view_replace:
  assumes "hp_handle H e = Some c" and "InHighPriPool c' = InHighPriPool c" and "h_charge c' = h_charge c"
    and "H' = H\<lparr>hp_next_hash := nh, hp_handle := (hp_handle H)(e \<mapsto> c')\<rparr>"
  shows "allocated H' = allocated H" "pool H' = pool H" "charge_of H' = charge_of H"
    "incache H' = (incache H)(e := InCache c')" "refs_of H' = (refs_of H)(e := unat (h_refs c'))"
    "hp_next H' = hp_next H" "hp_prev H' = hp_prev H"
  using assms by (auto simp: view_defs fun_eq_iff)

lemma table_rep_ring:
  assumes "table_rep H t (cached out H)" and "ring_ok H' low lows highs" and "relinked H H'"
  shows "table_rep H' t (cached out H')"
proof -
  have "cached out H' = cached out H" by (simp add: cached_def relinked_views(2) [OF assms(3)])
  with assms(1) show ?thesis
    by (auto intro!: table_rep_cong [of H t] cached_entry_ok [OF assms(2)] simp: relinked_views [OF assms(3)])
qed

text \<open>The books when one entry changes, and when it is taken off them.\<close>

lemma books_change:
  assumes b: "books out held lows highs s" and e: "e \<in> allocated (s_heap s)"
    and v: "allocated (s_heap s') = allocated (s_heap s)" "charge_of (s_heap s') = charge_of (s_heap s)"
    and others: "\<And>a. a \<noteq> e \<Longrightarrow> incache (s_heap s') a = incache (s_heap s) a"
      "\<And>a. a \<noteq> e \<Longrightarrow> refs_of (s_heap s') a = refs_of (s_heap s) a"
      "\<And>a. a \<noteq> e \<Longrightarrow> count held' a = count held a" "\<And>a. a \<noteq> e \<Longrightarrow> a \<in> out' \<longleftrightarrow> a \<in> out"
      "\<And>a. a \<noteq> e \<Longrightarrow> a \<in> set (lows' @ highs') \<longleftrightarrow> a \<in> set (lows @ highs)"
    and this_out: "e \<in> out' \<Longrightarrow> e \<notin># held' \<and> e \<notin> set (lows' @ highs')"
    and this_in: "e \<notin> out' \<Longrightarrow> refs_of (s_heap s') e = (if incache (s_heap s') e then 1 else 0) + count held' e \<and>
      refs_of (s_heap s') e \<noteq> 0 \<and> (e \<in> set (lows' @ highs') \<longleftrightarrow> incache (s_heap s') e \<and> e \<notin># held')"
    and sums: "unat (s_usage s') = sum (charge_of (s_heap s)) (allocated (s_heap s) - out')"
      "unat (s_lru_usage s') = sum (charge_of (s_heap s)) (set (lows' @ highs'))"
      "unat (s_high_pri_pool_usage s') = sum (charge_of (s_heap s)) (set highs')"
    and cap: "0 \<le> s_high_pri_pool_capacity s'"
  shows "books out' held' lows' highs' s'"
  unfolding books_def Let_def
proof (intro conjI)
  note bD = booksD [OF b]
  have in_held: "a \<in># held' \<longleftrightarrow> a \<in># held" if "a \<noteq> e" for a
    using others(3) [OF that] by (simp flip: count_greater_zero_iff)
  show "finite (allocated (s_heap s'))" using bD(1) v(1) by simp
  show "out' \<subseteq> allocated (s_heap s')"
  proof
    fix a
    assume "a \<in> out'"
    then show "a \<in> allocated (s_heap s')" using others(4) [of a] bD(2) e v(1) by (cases "a = e") auto
  qed
  show "set_mset held' \<subseteq> allocated (s_heap s') - out'"
  proof
    fix a
    assume a: "a \<in># held'"
    then show "a \<in> allocated (s_heap s') - out'"
      using in_held [of a] others(4) [of a] bD(3) e v(1) this_out by (cases "a = e") auto
  qed
  show "set (lows' @ highs') = {a \<in> cached out' (s_heap s'). a \<notin># held'}"
  proof (rule set_eqI)
    fix a
    show "a \<in> set (lows' @ highs') \<longleftrightarrow> a \<in> {a \<in> cached out' (s_heap s'). a \<notin># held'}"
    proof (cases "a = e")
      case True
      then show ?thesis using this_out this_in by (cases "e \<in> out'") (simp_all add: cached_def)
    next
      case False
      have "a \<in> set (lows @ highs) \<longleftrightarrow> a \<in> cached out (s_heap s) \<and> a \<notin># held" unfolding bD(4) by simp
      then show ?thesis using others(1,4,5) [OF False] in_held [OF False] by (simp add: cached_def)
    qed
  qed
  show "\<forall>a\<in>allocated (s_heap s') - out'.
      refs_of (s_heap s') a = (if incache (s_heap s') a then 1 else 0) + count held' a \<and> refs_of (s_heap s') a \<noteq> 0"
  proof
    fix a
    assume a: "a \<in> allocated (s_heap s') - out'"
    show "refs_of (s_heap s') a = (if incache (s_heap s') a then 1 else 0) + count held' a \<and> refs_of (s_heap s') a \<noteq> 0"
    proof (cases "a = e")
      case True
      then have "e \<notin> out'" using a by simp
      from this_in [OF this] show ?thesis unfolding True by blast
    next
      case False
      then have "a \<in> allocated (s_heap s) - out" using a others(4) v(1) by auto
      from bD(5) [OF this] show ?thesis unfolding others(1-3) [OF False] .
    qed
  qed
qed (use sums cap v in simp_all)

lemma books_out:
  assumes b: "books out held lows highs s" and e: "e \<in> allocated (s_heap s) - out"
    and held: "e \<notin># held'" "\<And>a. a \<noteq> e \<Longrightarrow> count held' a = count held a"
    and v: "allocated (s_heap s') = allocated (s_heap s)" "charge_of (s_heap s') = charge_of (s_heap s)"
      "\<And>a. a \<noteq> e \<Longrightarrow> incache (s_heap s') a = incache (s_heap s) a"
      "\<And>a. a \<noteq> e \<Longrightarrow> refs_of (s_heap s') a = refs_of (s_heap s) a"
    and u: "unat (s_usage s') = unat (s_usage s) - charge_of (s_heap s) e"
      "unat (s_lru_usage s') = unat (s_lru_usage s) - (if e \<in> set (lows @ highs) then charge_of (s_heap s) e else 0)"
      "unat (s_high_pri_pool_usage s') =
         unat (s_high_pri_pool_usage s) - (if e \<in> set highs then charge_of (s_heap s) e else 0)"
      "s_high_pri_pool_capacity s' = s_high_pri_pool_capacity s"
  shows "books (insert e out) held' (removeAll e lows) (removeAll e highs) s'"
proof (rule books_change [OF b _ v])
  note bD = booksD [OF b]
  have A: "allocated (s_heap s) - insert e out = (allocated (s_heap s) - out) - {e}" by auto
  show "unat (s_usage s') = sum (charge_of (s_heap s)) (allocated (s_heap s) - insert e out)"
    using sum_minus_one [OF _ e, of "charge_of (s_heap s)"] bD(1,6) u(1) unfolding A by simp
  have R: "set (removeAll e lows @ removeAll e highs) = set (lows @ highs) - {e}" by auto
  show "unat (s_lru_usage s') = sum (charge_of (s_heap s)) (set (removeAll e lows @ removeAll e highs))"
    using sum_minus_one [of "set (lows @ highs)" e "charge_of (s_heap s)"] bD(7) u(2)
    unfolding R by (cases "e \<in> set (lows @ highs)") simp_all
  show "unat (s_high_pri_pool_usage s') = sum (charge_of (s_heap s)) (set (removeAll e highs))"
    using sum_minus_one [of "set highs" e "charge_of (s_heap s)"] bD(8) u(3)
    by (cases "e \<in> set highs") simp_all
qed (use e held booksD(9) [OF b] u(4) in auto)

lemma evict_entry:
  fixes s :: "'v LRUCacheShard"
  assumes rep: "shard_rep out held lows highs s" and e: "e \<in> set (lows @ highs)"
  obtains c s' where "hp_handle (s_heap s) e = Some c" "evict_oldest e s = Some s'"
    "shard_rep (insert e out) held (removeAll e lows) (removeAll e highs) s'" "params_kept s s'"
    "s_usage s' = s_usage s - h_charge c" "h_charge c \<le> s_usage s"
    "hp_handle (s_heap s') = (hp_handle (s_heap s))(e \<mapsto> (SetInCache False c)\<lparr>h_refs := 0\<rparr>)"
proof -
  define H where "H = s_heap s"
  from ring_entry [OF rep e] obtain c where c: "hp_handle H e = Some c" "InCache c" "h_refs c = 1" "e \<notin> out"
      "e \<notin># held" "e \<in> cached out H" "InHighPriPool c \<longleftrightarrow> e \<in> set highs" "h_charge c \<le> s_usage s"
      "h_charge c \<le> s_lru_usage s" "InHighPriPool c \<Longrightarrow> h_charge c \<le> s_high_pri_pool_usage s"
    unfolding H_def by blast
  have r: "ring_ok H (s_lru_low_pri s) lows highs" and b: "books out held lows highs s"
      and t: "table_rep H (s_table s) (cached out H)"
    using rep by (simp_all add: shard_rep_def H_def)
  define hu where "hu = (if InHighPriPool c then s_high_pri_pool_usage s - h_charge c else s_high_pri_pool_usage s)"
  from LRU_Remove_ring [of s lows highs e c] r e c obtain N P low where rm:
    "LRU_Remove e s = Some (s\<lparr>s_heap := H\<lparr>hp_next := N, hp_prev := P\<rparr>, s_lru_low_pri := low,
       s_lru_usage := s_lru_usage s - h_charge c, s_high_pri_pool_usage := hu\<rparr>)"
    "ring_ok (H\<lparr>hp_next := N, hp_prev := P\<rparr>) low (removeAll e lows) (removeAll e highs)"
    unfolding H_def hu_def by blast
  let ?H1 = "H\<lparr>hp_next := N, hp_prev := P\<rparr>"
  define s1 where "s1 = s\<lparr>s_heap := ?H1, s_lru_low_pri := low, s_lru_usage := s_lru_usage s - h_charge c,
       s_high_pri_pool_usage := hu\<rparr>"
  let ?c = "(SetInCache False c)\<lparr>h_refs := 0\<rparr>"
  have E: "cached out ?H1 = cached out H" by (simp add: cached_def)
  have "table_rep ?H1 (s_table s1) (cached out H)"
    using table_rep_ring [OF t rm(2) relinked_links] by (simp add: s1_def E)
  with uncache [of s1 "cached out H" e c] c obtain nh t' where un:
    "\<And>f :: _ \<Rightarrow> 'v LRUCacheShard option.
       table_Remove e s1 \<bind> (\<lambda>s. set_in_cache e False s \<bind> (\<lambda>s. Unref e s \<bind> f)) =
       f (True, s1\<lparr>s_table := t', s_heap := ?H1\<lparr>hp_next_hash := nh, hp_handle := (hp_handle H)(e \<mapsto> ?c)\<rparr>\<rparr>)"
    "table_rep (?H1\<lparr>hp_next_hash := nh, hp_handle := (hp_handle H)(e \<mapsto> ?c)\<rparr>) t' (cached out H - {e})"
    by (auto simp: s1_def)
  define H' where "H' = ?H1\<lparr>hp_next_hash := nh, hp_handle := (hp_handle H)(e \<mapsto> ?c)\<rparr>"
  define s' where "s' = s1\<lparr>s_table := t', s_heap := H', s_usage := s_usage s - h_charge c\<rparr>"
  have run: "evict_oldest e s = Some s'"
    using c(1-3) rm(1) un(1) unfolding evict_oldest_def H_def [symmetric]
    by (simp add: s1_def [symmetric] s'_def H'_def) (simp add: s1_def)
  have v: "allocated H' = allocated H" "pool H' = pool ?H1" "charge_of H' = charge_of H"
      "incache H' = (incache H)(e := False)" "refs_of H' = (refs_of H)(e := 0)"
      "hp_next H' = hp_next ?H1" "hp_prev H' = hp_prev ?H1"
    using view_replace [of ?H1 e c ?c H' nh] c(1) H'_def by simp_all
  have h': "s_heap s' = H'" by (simp add: s'_def)
  have ch: "unat (h_charge c) = charge_of H e" using view_at(5) [OF c(1)] by simp
  have "books (insert e out) held (removeAll e lows) (removeAll e highs) s'"
    by (rule books_out [OF b _ c(5)])
       (use view_at(1) [OF c(1)] c(4,7-10) e v
        in \<open>simp_all add: h' H_def [symmetric] s'_def s1_def hu_def unat_sub_le ch\<close>)
  moreover have "ring_ok H' low (removeAll e lows) (removeAll e highs)"
    using rm(2) ring_ok_cong [of H' ?H1] v by simp
  moreover have "cached (insert e out) H' = cached out H - {e}" using v(4) by (auto simp: cached_def)
  ultimately have "shard_rep (insert e out) held (removeAll e lows) (removeAll e highs) s'"
    using un(2) by (simp add: shard_rep_def s'_def s1_def H'_def [symmetric])
  moreover have "params_kept s s'" by (simp add: params_kept_def s'_def s1_def)
  moreover have "hp_handle H' = (hp_handle H)(e \<mapsto> ?c)" by (simp add: H'_def)
  ultimately show thesis using that [of c s'] run c(1,8) by (simp add: H_def s'_def)
qed

definition entry_charge :: "'v heap \<Rightarrow> nat \<Rightarrow> u64" where
  "entry_charge H a = h_charge (the (hp_handle H a))"

text \<open>\<open>k\<close> is the least number of entries to take from the front of \<open>R\<close> so that \<open>charge\<close> fits.\<close>

definition evict_count :: "'v LRUCacheShard \<Rightarrow> u64 \<Rightarrow> nat list \<Rightarrow> nat \<Rightarrow> bool" where
  "evict_count s charge R k \<longleftrightarrow> k \<le> length R \<and>
     (\<forall>j<k. s_usage s - sum_list (map (entry_charge (s_heap s)) (take j R)) + charge > s_capacity s) \<and>
     (s_usage s - sum_list (map (entry_charge (s_heap s)) (take k R)) + charge \<le> s_capacity s \<or> k = length R)"

lemma evict_count_unique: "evict_count s charge R k \<Longrightarrow> evict_count s charge R l \<Longrightarrow> k = l"
  unfolding evict_count_def by (metis leD less_le_not_le nat_neq_iff)

text \<open>
  A run of evictions from the front of the ring: \<open>es\<close> went out, \<open>rest\<close> is still in the ring,
  and the entries that went out are ready to be freed.
\<close>

definition evicted ::
    "nat set \<Rightarrow> nat multiset \<Rightarrow> nat list \<Rightarrow> nat list \<Rightarrow> 'v LRUCacheShard \<Rightarrow> 'v LRUCacheShard \<Rightarrow> bool" where
  "evicted out held es rest s s' \<longleftrightarrow>
     (\<exists>lows highs. shard_rep (out \<union> set es) held lows highs s' \<and> lows @ highs = rest) \<and> params_kept s s' \<and>
     s_usage s' = s_usage s - sum_list (map (entry_charge (s_heap s)) es) \<and> s_usage s' \<le> s_usage s \<and>
     (\<forall>a. hp_handle (s_heap s') a =
        (if a \<in> set es then map_option (\<lambda>c. (SetInCache False c)\<lparr>h_refs := 0\<rparr>) (hp_handle (s_heap s) a)
         else hp_handle (s_heap s) a))"

lemma evicted_refl:
  "shard_rep out held lows highs s \<Longrightarrow> evicted out held [] (lows @ highs) s s"
  by (auto simp: evicted_def params_kept_def)

lemma ring_first:
  assumes "shard_rep out held lows highs s"
  shows "hp_next (s_heap s) lru_addr = Some (hd ((lows @ highs) @ [lru_addr]))" "lru_addr \<notin> set (lows @ highs)"
    "distinct (lows @ highs)"
  using assms dl_first [of "hp_next (s_heap s)" "hp_prev (s_heap s)" lru_addr "lows @ highs" lru_addr]
  by (auto simp: shard_rep_def ring_ok_def simp del: dl.simps)

lemma evict_step:
  assumes rep: "shard_rep out held lows highs s" and R: "lows @ highs = e # rest"
  obtains s1 lows' highs' where "evict_oldest e s = Some s1" "shard_rep (insert e out) held lows' highs' s1"
    "lows' @ highs' = rest" "params_kept s s1"
    "\<And>es rest' s2. evicted (insert e out) held es rest' s1 s2 \<Longrightarrow> e \<notin> set es \<Longrightarrow> evicted out held (e # es) rest' s s2"
    "s_usage s1 = s_usage s - entry_charge (s_heap s) e"
    "\<And>a. a \<noteq> e \<Longrightarrow> entry_charge (s_heap s1) a = entry_charge (s_heap s) a"
proof -
  have e: "e \<in> set (lows @ highs)" using R by simp
  from evict_entry [OF rep e] obtain c s1 where ev:
    "hp_handle (s_heap s) e = Some c" "evict_oldest e s = Some s1"
    "shard_rep (insert e out) held (removeAll e lows) (removeAll e highs) s1" "params_kept s s1"
    "s_usage s1 = s_usage s - h_charge c" "h_charge c \<le> s_usage s"
    "hp_handle (s_heap s1) = (hp_handle (s_heap s))(e \<mapsto> (SetInCache False c)\<lparr>h_refs := 0\<rparr>)"
    by blast
  have ch: "entry_charge (s_heap s) e = h_charge c" using ev(1) by (simp add: entry_charge_def)
  have frame: "entry_charge (s_heap s1) a = entry_charge (s_heap s) a" if "a \<noteq> e" for a
    using that ev(7) by (simp add: entry_charge_def)
  have rest: "removeAll e lows @ removeAll e highs = rest"
    using ring_first(3) [OF rep] unfolding removeAll_append [symmetric] R by simp
  have le: "s_usage s1 \<le> s_usage s" using ev(5,6) by (simp add: word_sub_le)
  have "evicted out held (e # es) rest' s s2"
    if es: "evicted (insert e out) held es rest' s1 s2" "e \<notin> set es" for es rest' s2
  proof -
    have "sum_list (map (entry_charge (s_heap s1)) es) = sum_list (map (entry_charge (s_heap s)) es)"
      by (intro arg_cong [of _ _ sum_list] map_cong refl) (use es(2) frame in metis)
    then show ?thesis
      using es ev(1,4,5,7) ch le params_kept_trans unfolding evicted_def
      by (auto simp: diff_diff_eq intro: order_trans)
  qed
  with that [OF ev(2,3) rest ev(4)] ch ev(5) frame show thesis by simp
qed

lemma EvictFromLRU_rep:
  assumes "shard_rep out held lows highs s" and "lows @ highs = R"
  shows "\<exists>k s'. EvictFromLRU charge deleted s = Some (deleted @ take k R, s') \<and> evicted out held (take k R) (drop k R) s s' \<and>
    (s_usage s' + charge \<le> s_capacity s \<or> drop k R = []) \<and> k \<le> length R \<and>
    (\<forall>j<k. s_usage s - sum_list (map (entry_charge (s_heap s)) (take j R)) + charge > s_capacity s)"
  using assms
proof (induction R arbitrary: out lows highs s deleted)
  case Nil
  then have "hp_next (s_heap s) lru_addr = Some lru_addr" using ring_first(1) [OF Nil.prems(1)] by simp
  with Nil show ?case
    using evicted_refl [OF Nil.prems(1)] by (simp add: EvictFromLRU.simps [of charge deleted s])
next
  case (Cons e R)
  show ?case
  proof (cases "s_usage s + charge > s_capacity s")
    case False
    with Cons.prems show ?thesis
      using evicted_refl [OF Cons.prems(1)]
      by (intro exI [of _ 0] exI [of _ s]) (simp add: EvictFromLRU.simps [of charge deleted s])
  next
    case True
    have nx: "hp_next (s_heap s) lru_addr = Some e" "e \<noteq> lru_addr" "e \<notin> set R"
      using ring_first [OF Cons.prems(1)] unfolding Cons.prems(2) by auto
    from evict_step [OF Cons.prems] obtain s1 lows' highs' where one:
      "evict_oldest e s = Some s1" "shard_rep (insert e out) held lows' highs' s1" "lows' @ highs' = R" "params_kept s s1"
      "\<And>es rest' s2. evicted (insert e out) held es rest' s1 s2 \<Longrightarrow> e \<notin> set es \<Longrightarrow> evicted out held (e # es) rest' s s2"
      "s_usage s1 = s_usage s - entry_charge (s_heap s) e"
      "\<And>a. a \<noteq> e \<Longrightarrow> entry_charge (s_heap s1) a = entry_charge (s_heap s) a"
      by blast
    from Cons.IH [OF one(2,3), of "deleted @ [e]"] obtain k s' where ih:
      "EvictFromLRU charge (deleted @ [e]) s1 = Some ((deleted @ [e]) @ take k R, s')"
      "evicted (insert e out) held (take k R) (drop k R) s1 s'"
      "s_usage s' + charge \<le> s_capacity s1 \<or> drop k R = []" "k \<le> length R"
      "\<forall>j<k. s_usage s1 - sum_list (map (entry_charge (s_heap s1)) (take j R)) + charge > s_capacity s1"
      by blast
    have cap: "s_capacity s1 = s_capacity s" using one(4) by (simp add: params_kept_def)
    have sums: "sum_list (map (entry_charge (s_heap s1)) (take j R)) = sum_list (map (entry_charge (s_heap s)) (take j R))" for j
      by (intro arg_cong [of _ _ sum_list] map_cong refl one(7)) (use nx(3) in \<open>auto dest: in_set_takeD\<close>)
    have "s_usage s - sum_list (map (entry_charge (s_heap s)) (take j (e # R))) + charge > s_capacity s"
      if "j < Suc k" for j
    proof (cases j)
      case 0
      then show ?thesis using True by simp
    next
      case (Suc i)
      then have "s_usage s1 - sum_list (map (entry_charge (s_heap s1)) (take i R)) + charge > s_capacity s1"
        using ih(5) that by simp
      then show ?thesis using Suc cap one(6) sums [of i] by (simp add: diff_diff_eq)
    qed
    moreover have "evicted out held (e # take k R) (drop k R) s s'"
      using one(5) [OF ih(2)] nx(3) by (meson in_set_takeD)
    moreover have "EvictFromLRU charge deleted s = Some (deleted @ e # take k R, s')"
      using True nx one(1) ih(1) by (simp add: EvictFromLRU.simps [of charge deleted s])
    ultimately show ?thesis
      using ih(3,4) cap by (intro exI [of _ "Suc k"] exI [of _ s']) auto
  qed
qed

lemma EraseUnRef_rep:
  assumes "shard_rep out held lows highs s" and "lows @ highs = R"
  shows "\<exists>s'. EraseUnRef_loop deleted s = Some (deleted @ R, s') \<and> evicted out held R [] s s'"
  using assms
proof (induction R arbitrary: out lows highs s deleted)
  case Nil
  then have "hp_next (s_heap s) lru_addr = Some lru_addr" using ring_first(1) [OF Nil.prems(1)] by simp
  with Nil show ?case
    using evicted_refl [OF Nil.prems(1)] by (simp add: EraseUnRef_loop.simps [of deleted s])
next
  case (Cons e R)
  have nx: "hp_next (s_heap s) lru_addr = Some e" "e \<noteq> lru_addr" "e \<notin> set R"
    using ring_first [OF Cons.prems(1)] unfolding Cons.prems(2) by auto
  from evict_step [OF Cons.prems] obtain s1 lows' highs' where one:
    "evict_oldest e s = Some s1" "shard_rep (insert e out) held lows' highs' s1" "lows' @ highs' = R"
    "\<And>es rest' s2. evicted (insert e out) held es rest' s1 s2 \<Longrightarrow> e \<notin> set es \<Longrightarrow> evicted out held (e # es) rest' s s2"
    by metis
  from Cons.IH [OF one(2,3), of "deleted @ [e]"] obtain s' where
    "EraseUnRef_loop (deleted @ [e]) s1 = Some ((deleted @ [e]) @ R, s')" "evicted (insert e out) held R [] s1 s'"
    by blast
  with one nx show ?case by (simp add: EraseUnRef_loop.simps [of deleted s])
qed

subsection \<open>Freeing\<close>

definition free_ok :: "'v LRUHandle \<Rightarrow> bool" where
  "free_ok c \<longleftrightarrow> h_refs c = 1 \<and> InCache c \<or> h_refs c = 0 \<and> \<not> InCache c"

definition deleter_call :: "'v LRUHandle \<Rightarrow> (bytes \<times> 'v) list" where
  "deleter_call c = (if h_deleter c then [(h_key c, h_value c)] else [])"

definition deleter_calls :: "'v heap \<Rightarrow> nat list \<Rightarrow> (bytes \<times> 'v) list" where
  "deleter_calls H es = concat (map (\<lambda>e. deleter_call (the (hp_handle H e))) es)"

definition without :: "nat set \<Rightarrow> (nat \<Rightarrow> 'v LRUHandle option) \<Rightarrow> nat \<Rightarrow> 'v LRUHandle option" where
  "without es h a = (if a \<in> es then None else h a)"

lemma view_free:
  "allocated (H\<lparr>hp_handle := without es (hp_handle H)\<rparr>) = allocated H - es"
  "incache (H\<lparr>hp_handle := without es (hp_handle H)\<rparr>) a \<longleftrightarrow> a \<notin> es \<and> incache H a"
  "pool (H\<lparr>hp_handle := without es (hp_handle H)\<rparr>) a \<longleftrightarrow> a \<notin> es \<and> pool H a"
  "refs_of (H\<lparr>hp_handle := without es (hp_handle H)\<rparr>) a = (if a \<in> es then 0 else refs_of H a)"
  "charge_of (H\<lparr>hp_handle := without es (hp_handle H)\<rparr>) a = (if a \<in> es then 0 else charge_of H a)"
  "a \<notin> es \<Longrightarrow> key_of (H\<lparr>hp_handle := without es (hp_handle H)\<rparr>) a = key_of H a"
  "a \<notin> es \<Longrightarrow> hash_of (H\<lparr>hp_handle := without es (hp_handle H)\<rparr>) a = hash_of H a"
  by (auto simp: view_defs key_of_def hash_of_def without_def split: if_splits)

text \<open>Deallocating entries that are off the books keeps the representation.\<close>

lemma shard_rep_free:
  assumes rep: "shard_rep out held lows highs s" and es: "es \<subseteq> out"
    and h: "s_heap s' = (s_heap s)\<lparr>hp_handle := without es (hp_handle (s_heap s))\<rparr>"
    and same: "s_usage s' = s_usage s" "s_lru_usage s' = s_lru_usage s"
      "s_high_pri_pool_usage s' = s_high_pri_pool_usage s" "s_high_pri_pool_capacity s' = s_high_pri_pool_capacity s"
      "s_lru_low_pri s' = s_lru_low_pri s" "s_table s' = s_table s"
  shows "shard_rep (out - es) held lows highs s'"
proof -
  let ?H = "s_heap s"
  have b: "books out held lows highs s" and r: "ring_ok ?H (s_lru_low_pri s) lows highs"
      and t: "table_rep ?H (s_table s) (cached out ?H)"
    using rep by (simp_all add: shard_rep_def)
  note bD = booksD [OF b]
  have A: "allocated (s_heap s') - (out - es) = allocated ?H - out" using es bD(2) unfolding h view_free by auto
  have C: "cached (out - es) (s_heap s') = cached out ?H"
    using es unfolding cached_def h by (auto simp: view_free(2))
  have R: "set (lows @ highs) \<inter> es = {}" using bD(4) es by (auto simp: cached_def)
  have "ring_ok (s_heap s') (s_lru_low_pri s) lows highs"
    by (rule ring_okI) (use r R in \<open>auto simp: h view_free ring_ok_def simp del: dl.simps\<close>)
  moreover have "table_rep (s_heap s') (s_table s) (cached out ?H)"
  proof (rule table_rep_cong [OF t])
    fix a
    assume a: "a \<in> cached out ?H"
    then have "a \<notin> es" using es by (auto simp: cached_def)
    then show "key_of (s_heap s') a = key_of ?H a" "hash_of (s_heap s') a = hash_of ?H a" by (simp_all add: h view_free)
    from a t have "entry_ok ?H a" by (simp add: table_rep_def)
    with \<open>a \<notin> es\<close> show "entry_ok (s_heap s') a" by (simp add: entry_ok_def h without_def)
  qed (simp add: h)
  moreover have "books (out - es) held lows highs s'"
    unfolding books_def Let_def same A C
  proof (intro conjI)
    show "finite (allocated (s_heap s'))" "out - es \<subseteq> allocated (s_heap s')"
      using bD(1,2) by (auto simp: h view_free)
    show "\<forall>a\<in>allocated ?H - out. refs_of (s_heap s') a = (if incache (s_heap s') a then 1 else 0) + count held a \<and>
        refs_of (s_heap s') a \<noteq> 0"
    proof
      fix a
      assume a: "a \<in> allocated ?H - out"
      then have "a \<notin> es" using es by auto
      with bD(5) [OF a] show "refs_of (s_heap s') a = (if incache (s_heap s') a then 1 else 0) + count held a \<and>
          refs_of (s_heap s') a \<noteq> 0"
        by (auto simp only: h view_free if_False simp_thms)
    qed
    have sums: "sum (charge_of (s_heap s')) X = sum (charge_of ?H) X" if "X \<inter> es = {}" for X
      using that by (intro sum.cong refl) (auto simp: h view_free)
    have "(allocated ?H - out) \<inter> es = {}" "set highs \<inter> es = {}" using es R by auto
    from this [THEN sums] sums [OF R] show "unat (s_usage s) = sum (charge_of (s_heap s')) (allocated ?H - out)"
      "unat (s_lru_usage s) = sum (charge_of (s_heap s')) (set (lows @ highs))"
      "unat (s_high_pri_pool_usage s) = sum (charge_of (s_heap s')) (set highs)"
      using bD(6-8) by simp_all
  qed (use bD(3,4,9) in auto)
  ultimately show ?thesis by (simp add: shard_rep_def same C)
qed

lemma Shard_Free_eq:
  assumes "hp_handle (s_heap s) e = Some c" "free_ok c" "hp_next (s_heap s) e \<noteq> Some e"
  shows "Shard_Free e s = Some (s\<lparr>s_heap := (s_heap s)\<lparr>hp_handle := without {e} (hp_handle (s_heap s))\<rparr>,
    s_deleter_calls := s_deleter_calls s @ deleter_call c\<rparr>)"
proof -
  have "without {e} (hp_handle (s_heap s)) = (hp_handle (s_heap s))(e := None)"
    by (auto simp: without_def)
  then show ?thesis using assms
    by (auto simp: Shard_Free_def LRUHandle_Free_def LRUHandle_key_def free_ok_def deleter_call_def)
qed

lemma free_all_eq:
  assumes "\<And>e. e \<in> set es \<Longrightarrow> \<exists>c. hp_handle (s_heap s) e = Some c \<and> free_ok c \<and> hp_next (s_heap s) e \<noteq> Some e"
    and "distinct es"
  shows "free_all es s = Some (s\<lparr>s_heap := (s_heap s)\<lparr>hp_handle := without (set es) (hp_handle (s_heap s))\<rparr>,
    s_deleter_calls := s_deleter_calls s @ deleter_calls (s_heap s) es\<rparr>)"
  using assms
proof (induction es arbitrary: s)
  case Nil
  then show ?case by (simp add: without_def [abs_def] deleter_calls_def)
next
  case (Cons e es)
  obtain c where c: "hp_handle (s_heap s) e = Some c" "free_ok c" "hp_next (s_heap s) e \<noteq> Some e"
    using Cons.prems(1) [of e] by auto
  let ?s = "s\<lparr>s_heap := (s_heap s)\<lparr>hp_handle := without {e} (hp_handle (s_heap s))\<rparr>,
    s_deleter_calls := s_deleter_calls s @ deleter_call c\<rparr>"
  have "free_all es ?s = Some (?s\<lparr>s_heap := (s_heap ?s)\<lparr>hp_handle := without (set es) (hp_handle (s_heap ?s))\<rparr>,
      s_deleter_calls := s_deleter_calls ?s @ deleter_calls (s_heap ?s) es\<rparr>)"
    by (rule Cons.IH) (use Cons.prems in \<open>auto simp: without_def\<close>)
  moreover have "without (set es) (without {e} h) = without (set (e # es)) h" for h :: "nat \<Rightarrow> 'a LRUHandle option"
    by (auto simp: without_def)
  moreover have "deleter_calls (s_heap ?s) es = deleter_calls (s_heap s) es"
    unfolding deleter_calls_def using Cons.prems(2)
    by (intro arg_cong [of _ _ concat] map_cong refl) (auto simp: without_def)
  ultimately show ?case using Shard_Free_eq [OF c] c(1) by (simp add: deleter_calls_def)
qed

end
