(* ===== verification/LruInvariant.thy ===== *)
theory LruInvariant
  imports LruCache
begin

text \<open>
  The operations of \<open>LRUCacheShard\<close> keep the invariant \<open>shard_inv\<close> and do what the header of
  \<open>lru_cache.h\<close> promises. Each law says that the operation returns, which is its memory
  safety, and gives the new state as far as a client can see it: the entries in the table,
  the counters, the calls of the deleter, and the handles the client holds.
\<close>

subsection \<open>Entries on the books\<close>

lemma sum_insert_one: "finite A \<Longrightarrow> a \<notin> A \<Longrightarrow> sum f (insert a A) = f a + sum f A" for f :: "'a \<Rightarrow> nat"
  by simp

lemma usage_bound:
  assumes "books out held lows highs s" and "X \<subseteq> allocated (s_heap s) - out"
  shows "sum (charge_of (s_heap s)) X \<le> unat (s_usage s)"
  unfolding booksD(6) [OF assms(1)] using assms(2) booksD(1) [OF assms(1)]
  by (intro sum_mono2) auto

lemma shard_repD:
  assumes "shard_rep out held lows highs s"
  shows "table_rep (s_heap s) (s_table s) (cached out (s_heap s))" "ring_ok (s_heap s) (s_lru_low_pri s) lows highs"
    "books out held lows highs s"
  using assms by (simp_all add: shard_rep_def)

lemma books_same:
  assumes "books out held lows highs s" and "allocated (s_heap s') = allocated (s_heap s)" "incache (s_heap s') = incache (s_heap s)"
    "refs_of (s_heap s') = refs_of (s_heap s)" "charge_of (s_heap s') = charge_of (s_heap s)" "s_usage s' = s_usage s"
    "s_lru_usage s' = s_lru_usage s" "s_high_pri_pool_usage s' = s_high_pri_pool_usage s" "0 \<le> s_high_pri_pool_capacity s'"
  shows "books out held lows highs s'"
  using assms(1,9) unfolding books_def Let_def cached_def assms(2-8) by blast

lemma shard_rep_next_hash:
  assumes "shard_rep out held lows highs s" and "table_rep ((s_heap s)\<lparr>hp_next_hash := nh\<rparr>) t (cached out (s_heap s))"
  shows "shard_rep out held lows highs (s\<lparr>s_heap := (s_heap s)\<lparr>hp_next_hash := nh\<rparr>, s_table := t\<rparr>)"
  unfolding shard_rep_def
proof (intro conjI)
  show "books out held lows highs (s\<lparr>s_heap := (s_heap s)\<lparr>hp_next_hash := nh\<rparr>, s_table := t\<rparr>)"
    by (rule books_same [OF shard_repD(3) [OF assms(1)]])
       (simp_all add: booksD(9) [OF shard_repD(3) [OF assms(1)]])
qed (use assms shard_repD(2) [OF assms(1)] ring_ok_cong [of "(s_heap s)\<lparr>hp_next_hash := nh\<rparr>" "s_heap s"]
     in \<open>simp_all add: cached_def\<close>)

lemma shard_invI:
  "shard_rep {} held lows highs s \<Longrightarrow> (s_usage s > s_capacity s \<Longrightarrow> lows @ highs = []) \<Longrightarrow> shard_inv held s"
  unfolding shard_inv_def by blast

lemma shard_invE:
  assumes "shard_inv held s"
  obtains lows highs where "shard_rep {} held lows highs s" "s_usage s > s_capacity s \<Longrightarrow> lows @ highs = []"
  using assms unfolding shard_inv_def by blast

lemma live_entry:
  assumes b: "books out held lows highs s" and c: "hp_handle (s_heap s) e = Some c" and e: "e \<notin> out"
  shows "unat (h_refs c) = (if InCache c then 1 else 0) + count held e" "h_refs c \<noteq> 0"
    "e \<in> set (lows @ highs) \<longleftrightarrow> InCache c \<and> e \<notin># held" "h_charge c \<le> s_usage s"
proof -
  have A: "e \<in> allocated (s_heap s) - out" using view_at(1) [OF c] e by simp
  show "e \<in> set (lows @ highs) \<longleftrightarrow> InCache c \<and> e \<notin># held"
    unfolding booksD(4) [OF b] using e view_at(2) [OF c] by (simp add: cached_def)
  show "h_charge c \<le> s_usage s"
    using usage_bound [OF b, of "{e}"] A view_at(5) [OF c] by (simp add: word_le_nat_alt)
  show "unat (h_refs c) = (if InCache c then 1 else 0) + count held e" "h_refs c \<noteq> 0"
    using booksD(5) [OF b A] view_at(2,4) [OF c] by (auto simp: unat_eq_zero)
qed

text \<open>Freeing a list of entries that are off the books.\<close>

lemma free_all_rep:
  assumes rep: "shard_rep out held lows highs s" and es: "set es \<subseteq> out" "distinct es"
    and ok: "\<And>e. e \<in> set es \<Longrightarrow> \<exists>c. hp_handle (s_heap s) e = Some c \<and> free_ok c"
  shows "\<exists>s'. free_all es s = Some s' \<and> shard_rep (out - set es) held lows highs s' \<and>
    s' = s\<lparr>s_heap := (s_heap s)\<lparr>hp_handle := without (set es) (hp_handle (s_heap s))\<rparr>,
           s_deleter_calls := s_deleter_calls s @ deleter_calls (s_heap s) es\<rparr>"
proof -
  have "hp_next (s_heap s) e \<noteq> Some e" if "e \<in> set es" for e
    by (rule ring_no_self [OF shard_repD(2) [OF rep]]) (use ok [OF that] in \<open>auto simp: allocated_def\<close>)
  with ok have "free_all es s = Some (s\<lparr>s_heap := (s_heap s)\<lparr>hp_handle := without (set es) (hp_handle (s_heap s))\<rparr>,
      s_deleter_calls := s_deleter_calls s @ deleter_calls (s_heap s) es\<rparr>)"
    by (intro free_all_eq es(2)) blast
  then show ?thesis
    using shard_rep_free [OF rep es(1), of "s\<lparr>s_heap := (s_heap s)\<lparr>hp_handle := without (set es) (hp_handle (s_heap s))\<rparr>,
           s_deleter_calls := s_deleter_calls s @ deleter_calls (s_heap s) es\<rparr>"]
    by simp
qed

lemma evicted_free:
  assumes rep: "shard_rep out held lows highs s" and ev: "evicted out held es rest s s1"
    and es: "distinct es" "set es \<subseteq> set (lows @ highs)"
  obtains s2 lows2 highs2 where "free_all es s1 = Some s2" "shard_rep out held lows2 highs2 s2" "lows2 @ highs2 = rest"
    "hp_handle (s_heap s2) = without (set es) (hp_handle (s_heap s))"
    "s2 = s1\<lparr>s_heap := s_heap s2, s_deleter_calls := s_deleter_calls s @ deleter_calls (s_heap s) es\<rparr>"
proof -
  from ev obtain lows1 highs1 where rep1: "shard_rep (out \<union> set es) held lows1 highs1 s1" "lows1 @ highs1 = rest"
    by (auto simp: evicted_def)
  have h1: "hp_handle (s_heap s1) a = (if a \<in> set es then map_option (\<lambda>c. (SetInCache False c)\<lparr>h_refs := 0\<rparr>) (hp_handle (s_heap s) a)
         else hp_handle (s_heap s) a)" for a
    using ev by (simp add: evicted_def)
  have ent: "\<exists>c. hp_handle (s_heap s) e = Some c \<and> e \<notin> out" if "e \<in> set es" for e
    using es(2) that ring_entry [OF rep, of e] by blast
  have "\<exists>c. hp_handle (s_heap s1) e = Some c \<and> free_ok c" if "e \<in> set es" for e
    using ent [OF that] that by (auto simp: h1 free_ok_def)
  with free_all_rep [OF rep1(1) _ es(1)] obtain s2 where s2: "free_all es s1 = Some s2"
      "shard_rep (out \<union> set es - set es) held lows1 highs1 s2"
      "s2 = s1\<lparr>s_heap := (s_heap s1)\<lparr>hp_handle := without (set es) (hp_handle (s_heap s1))\<rparr>,
           s_deleter_calls := s_deleter_calls s1 @ deleter_calls (s_heap s1) es\<rparr>"
    by blast
  have o: "out \<union> set es - set es = out" using ent by blast
  have w: "without (set es) (hp_handle (s_heap s1)) = without (set es) (hp_handle (s_heap s))"
    by (auto simp: without_def h1)
  have "deleter_calls (s_heap s1) es = deleter_calls (s_heap s) es"
    unfolding deleter_calls_def
  proof (intro arg_cong [of _ _ concat] map_cong refl)
    fix e
    assume "e \<in> set es"
    with ent [OF this] show "deleter_call (the (hp_handle (s_heap s1) e)) = deleter_call (the (hp_handle (s_heap s) e))"
      by (auto simp: h1 deleter_call_def)
  qed
  moreover have "s_deleter_calls s1 = s_deleter_calls s" using ev by (simp add: evicted_def params_kept_def)
  ultimately show thesis using that [OF s2(1) _ rep1(2)] s2(2,3) o w by simp
qed

subsection \<open>The constructor and the setters\<close>

lemma LRUCacheShard_init_inv:
  assumes "0 \<le> pool_capacity"
  obtains s where "LRUCacheShard_init capacity strict ratio pool_capacity = Some s" "shard_inv {#} s"
    "allocated (s_heap s) = {}" "s_usage s = 0" "s_deleter_calls s = []"
proof -
  let ?H = "\<lparr>hp_next = (\<lambda>_. None)(lru_addr := Some lru_addr), hp_prev = (\<lambda>_. None)(lru_addr := Some lru_addr),
        hp_next_hash = \<lambda>_. None, hp_handle = \<lambda>_. None\<rparr> :: 'a heap"
  obtain nh t where init: "LRUHandleTable_init ?H = Some (?H\<lparr>hp_next_hash := nh\<rparr>, t)"
      "table_rep (?H\<lparr>hp_next_hash := nh\<rparr>) t {}"
    by (rule LRUHandleTable_init_rep)
  let ?s = "\<lparr>s_capacity = capacity, s_usage = 0, s_lru_usage = 0, s_high_pri_pool_usage = 0,
           s_strict_capacity_limit = strict, s_high_pri_pool_ratio = ratio,
           s_high_pri_pool_capacity = pool_capacity, s_heap = ?H\<lparr>hp_next_hash := nh\<rparr>, s_lru_low_pri = lru_addr,
           s_table = t, s_deleter_calls = []\<rparr>"
  have a: "allocated (s_heap ?s) = {}" "incache (s_heap ?s) = (\<lambda>_. False)"
    by (auto simp: allocated_def incache_def)
  then have "books {} {#} [] [] ?s" using assms by (simp add: books_def cached_def)
  moreover have "ring_ok (s_heap ?s) (s_lru_low_pri ?s) [] []" using a by (simp add: ring_ok_def)
  moreover have "table_rep (s_heap ?s) (s_table ?s) (cached {} (s_heap ?s))"
    using init(2) a by (simp add: cached_def)
  ultimately have "shard_inv {#} ?s" unfolding shard_inv_def shard_rep_def by fastforce
  with init(1) a show thesis by (intro that [of ?s]) (simp_all add: LRUCacheShard_init_def)
qed

lemma shard_rep_same:
  assumes "shard_rep out held lows highs s" and "s_heap s' = s_heap s" "s_table s' = s_table s"
    "s_lru_low_pri s' = s_lru_low_pri s" "s_usage s' = s_usage s" "s_lru_usage s' = s_lru_usage s"
    "s_high_pri_pool_usage s' = s_high_pri_pool_usage s" "0 \<le> s_high_pri_pool_capacity s'"
  shows "shard_rep out held lows highs s'"
  using assms(1,8) unfolding shard_rep_def books_def Let_def assms(2-7) by blast

lemma SetStrictCapacityLimit_inv: "shard_inv held s \<Longrightarrow> shard_inv held (SetStrictCapacityLimit strict s)"
proof -
  assume "shard_inv held s"
  then obtain lows highs where rep: "shard_rep {} held lows highs s" "s_usage s > s_capacity s \<longrightarrow> lows @ highs = []"
    by (auto simp: shard_inv_def)
  have "shard_rep {} held lows highs (SetStrictCapacityLimit strict s)"
    by (rule shard_rep_same [OF rep(1)])
       (use booksD(9) [OF shard_repD(3) [OF rep(1)]] in \<open>simp_all add: SetStrictCapacityLimit_def\<close>)
  with rep(2) show ?thesis by (auto simp: shard_inv_def SetStrictCapacityLimit_def)
qed

lemma SetCapacity_law:
  assumes rep: "shard_rep {} held lows highs s" and ratio: "0 \<le> s_high_pri_pool_ratio s"
  obtains s' k where "SetCapacity cap s = Some s'" "shard_inv held s'" "s_capacity s' = cap"
    "s_usage s' \<le> cap \<or> s_lru_usage s' = 0"
    "hp_handle (s_heap s') = without (set (take k (lows @ highs))) (hp_handle (s_heap s))"
    "set (take k (lows @ highs)) \<inter> set_mset held = {}"
    "s_deleter_calls s' = s_deleter_calls s @ deleter_calls (s_heap s) (take k (lows @ highs))"
    "evict_count (s\<lparr>s_capacity := cap\<rparr>) 0 (lows @ highs) k"
    "s_high_pri_pool_ratio s' = s_high_pri_pool_ratio s"
proof -
  define s0 where "s0 = s\<lparr>s_capacity := cap,
     s_high_pri_pool_capacity := double (double_of_size cap * s_high_pri_pool_ratio s)\<rparr>"
  have "0 \<le> double (double_of_size cap * s_high_pri_pool_ratio s)"
    by (intro double_nonneg mult_nonneg_nonneg double_of_size_nonneg ratio)
  then have rep0: "shard_rep {} held lows highs s0" by (intro shard_rep_same [OF rep]) (simp_all add: s0_def)
  define R where "R = lows @ highs"
  from EvictFromLRU_rep [OF rep0 R_def [symmetric], of 0 "[]"] obtain k s1 where ev:
    "EvictFromLRU 0 [] s0 = Some (take k R, s1)" "evicted {} held (take k R) (drop k R) s0 s1"
    "s_usage s1 \<le> s_capacity s0 \<or> drop k R = []" "k \<le> length R"
    "\<forall>j<k. s_usage s0 - sum_list (map (entry_charge (s_heap s0)) (take j R)) > s_capacity s0"
    unfolding append_Nil add_0_right by blast
  have d: "distinct (take k R)" "set (take k R) \<subseteq> set (lows @ highs)"
    using ring_first(3) [OF rep0] by (auto simp: R_def simp del: take_append set_append dest: in_set_takeD)
  from evicted_free [OF rep0 ev(2) d] obtain s2 lows2 highs2 where s2: "free_all (take k R) s1 = Some s2"
      "shard_rep {} held lows2 highs2 s2" "lows2 @ highs2 = drop k R"
      "hp_handle (s_heap s2) = without (set (take k R)) (hp_handle (s_heap s0))"
      "s2 = s1\<lparr>s_heap := s_heap s2, s_deleter_calls := s_deleter_calls s0 @ deleter_calls (s_heap s0) (take k R)\<rparr>"
    by blast
  have par: "s_capacity s1 = cap" "s_high_pri_pool_ratio s1 = s_high_pri_pool_ratio s"
    using ev(2) by (simp_all add: evicted_def params_kept_def s0_def)
  have f: "s_usage s2 = s_usage s1" "s_capacity s2 = s_capacity s1" "s_high_pri_pool_ratio s2 = s_high_pri_pool_ratio s1"
      "s_deleter_calls s2 = s_deleter_calls s0 @ deleter_calls (s_heap s0) (take k R)"
    by (subst s2(5), simp)+
  have "s_lru_usage s2 = 0" if "drop k R = []"
    using that booksD(7) [OF shard_repD(3) [OF s2(2)]] s2(3) by (simp add: unat_eq_zero)
  moreover have "shard_inv held s2"
    by (rule shard_invI [OF s2(2)]) (use ev(3) f par s2(3) in \<open>auto simp: s0_def not_less\<close>)
  moreover have "set (take k R) \<inter> set_mset held = {}"
    using d(2) ring_entry [OF rep0] by blast
  moreover have "SetCapacity cap s = Some s2"
    using ev(1) s2(1) by (simp add: SetCapacity_def s0_def)
  moreover have "evict_count (s\<lparr>s_capacity := cap\<rparr>) 0 R k"
    using ev(2-5) by (auto simp: evict_count_def evicted_def s0_def)
  ultimately show thesis using that [of s2 k, folded R_def] s2(4) f par ev(3) by (auto simp: s0_def)
qed

lemma EraseUnRefEntries_law:
  assumes inv: "shard_inv held s"
  obtains s' R where "EraseUnRefEntries s = Some s'" "shard_inv held s'" "s_lru_usage s' = 0"
    "hp_handle (s_heap s') = without (set R) (hp_handle (s_heap s))" "set R = {a. incache (s_heap s) a \<and> a \<notin># held}"
    "s_deleter_calls s' = s_deleter_calls s @ deleter_calls (s_heap s) R" "distinct R"
    "s_high_pri_pool_ratio s' = s_high_pri_pool_ratio s" "s_usage s' \<le> s_usage s"
proof -
  from inv obtain lows highs where rep: "shard_rep {} held lows highs s" by (auto simp: shard_inv_def)
  define R where "R = lows @ highs"
  from EraseUnRef_rep [OF rep R_def [symmetric], of "[]"] obtain s1 where ev:
    "EraseUnRef_loop [] s = Some (R, s1)" "evicted {} held R [] s s1"
    by auto
  have d: "distinct R" "set R \<subseteq> set (lows @ highs)" using ring_first(3) [OF rep] by (simp_all add: R_def)
  from evicted_free [OF rep ev(2) d] obtain s2 lows2 highs2 where s2: "free_all R s1 = Some s2"
      "shard_rep {} held lows2 highs2 s2" "lows2 @ highs2 = []"
      "hp_handle (s_heap s2) = without (set R) (hp_handle (s_heap s))"
      "s2 = s1\<lparr>s_heap := s_heap s2, s_deleter_calls := s_deleter_calls s @ deleter_calls (s_heap s) R\<rparr>"
    by blast
  have "s_usage s1 \<le> s_usage s" "s_high_pri_pool_ratio s1 = s_high_pri_pool_ratio s"
    using ev(2) unfolding evicted_def params_kept_def by blast+
  then have f: "s_high_pri_pool_ratio s2 = s_high_pri_pool_ratio s" "s_usage s2 \<le> s_usage s"
      "s_deleter_calls s2 = s_deleter_calls s @ deleter_calls (s_heap s) R"
    by (subst s2(5), simp)+
  have "shard_inv held s2" unfolding shard_inv_def using s2(2,3) by blast
  moreover have "s_lru_usage s2 = 0"
    using booksD(7) [OF shard_repD(3) [OF s2(2)]] s2(3) by (simp add: unat_eq_zero)
  moreover have "set R = {a. incache (s_heap s) a \<and> a \<notin># held}"
    using booksD(4) [OF shard_repD(3) [OF rep]] by (simp add: R_def cached_def)
  ultimately show thesis using that [of s2 R] ev(1) s2(1,4) f d(1) by (simp add: EraseUnRefEntries_def)
qed

lemma shard_rep_relinked:
  assumes rep: "shard_rep out held lows highs s" and rel: "relinked (s_heap s) (s_heap s')"
    and ring: "ring_ok (s_heap s') (s_lru_low_pri s') lows' highs'" "set (lows' @ highs') = set (lows @ highs)"
    and same: "s_table s' = s_table s" "s_usage s' = s_usage s" "s_lru_usage s' = s_lru_usage s"
    and high: "unat (s_high_pri_pool_usage s') = sum (charge_of (s_heap s')) (set highs')" "0 \<le> s_high_pri_pool_capacity s'"
  shows "shard_rep out held lows' highs' s'"
  unfolding shard_rep_def
proof (intro conjI)
  show "table_rep (s_heap s') (s_table s') (cached out (s_heap s'))"
    unfolding same(1) by (rule table_rep_ring [OF shard_repD(1) [OF rep] ring(1) rel])
  have C: "cached out (s_heap s') = cached out (s_heap s)" by (simp add: cached_def relinked_views(2) [OF rel])
  show "books out held lows' highs' s'"
    using shard_repD(3) [OF rep] high
    unfolding books_def Let_def C ring(2) same(2,3) relinked_views(1-4) [OF rel] by blast
qed (fact ring(1))

lemma SetHighPriorityPoolRatio_law:
  assumes inv: "shard_inv held s" and ratio: "0 \<le> ratio"
  obtains s' where "SetHighPriorityPoolRatio ratio s = Some s'" "shard_inv held s'" "s_high_pri_pool_ratio s' = ratio"
    "double_of_size (s_high_pri_pool_usage s') \<le> s_high_pri_pool_capacity s'" "core (s_heap s') = core (s_heap s)"
    "s_usage s' = s_usage s" "s_deleter_calls s' = s_deleter_calls s" "s_capacity s' = s_capacity s"
proof -
  from inv obtain lows highs where rep: "shard_rep {} held lows highs s" "s_usage s > s_capacity s \<longrightarrow> lows @ highs = []"
    by (auto simp: shard_inv_def)
  define s0 where "s0 = s\<lparr>s_high_pri_pool_ratio := ratio,
     s_high_pri_pool_capacity := double (double_of_size (s_capacity s) * ratio)\<rparr>"
  have nn: "0 \<le> double (double_of_size (s_capacity s) * ratio)"
    by (intro double_nonneg mult_nonneg_nonneg double_of_size_nonneg ratio)
  then have rep0: "shard_rep {} held lows highs s0" by (intro shard_rep_same [OF rep(1)]) (simp_all add: s0_def)
  from MaintainPoolSize_ring [OF shard_repD(2) [OF rep0]] booksD(8,9) [OF shard_repD(3) [OF rep0]]
  obtain H k usage low where m: "MaintainPoolSize s0 = Some (s0\<lparr>s_heap := H, s_lru_low_pri := low, s_high_pri_pool_usage := usage\<rparr>)"
    "relinked (s_heap s0) H" "ring_ok H low (lows @ take k highs) (drop k highs)"
    "unat usage = sum (charge_of H) (set (drop k highs))" "double_of_size usage \<le> s_high_pri_pool_capacity s0"
    unfolding Let_def by blast
  let ?s = "s0\<lparr>s_heap := H, s_lru_low_pri := low, s_high_pri_pool_usage := usage\<rparr>"
  have R: "(lows @ take k highs) @ drop k highs = lows @ highs" by simp
  have "shard_rep {} held (lows @ take k highs) (drop k highs) ?s"
    by (rule shard_rep_relinked [OF rep0]) (use m R nn in \<open>simp_all add: s0_def del: set_append\<close>)
  then have "shard_inv held ?s"
    by (rule shard_invI) (use rep(2) R in \<open>simp add: s0_def del: append_assoc\<close>)
  then show thesis
    using m by (intro that [of ?s]) (simp_all add: SetHighPriorityPoolRatio_def s0_def relinked_def)
qed

subsection \<open>Lookup\<close>

text \<open>What a client can see of an entry.\<close>

definition entry_view :: "'v heap \<Rightarrow> nat \<Rightarrow> (bytes \<times> u32 \<times> 'v \<times> u64 \<times> bool \<times> bool) option" where
  "entry_view H a = map_option (\<lambda>c. (h_key c, h_hash c, h_value c, h_charge c, h_deleter c, InCache c)) (hp_handle H a)"

lemma relinked_entry_view:
  assumes "relinked H H'"
  shows "entry_view H' = entry_view H"
proof
  fix a
  show "entry_view H' a = entry_view H a"
  proof (cases "hp_handle H a")
    case None
    then have "hp_handle H' a = None" using relinked_views(1) [OF assms] by (metis allocated_def domIff)
    with None show ?thesis by (simp add: entry_view_def)
  next
    case (Some c)
    then obtain c' where "hp_handle H' a = Some c'" "c'\<lparr>h_flags := 0\<rparr> = c\<lparr>h_flags := 0\<rparr>" "InCache c' = InCache c"
      using relinked_handle [OF assms] by metis
    with Some same_core_fields [of c' c] show ?thesis by (simp add: entry_view_def)
  qed
qed

lemma LRU_Remove_rep:
  fixes s :: "'v LRUCacheShard"
  assumes rep: "shard_rep out held lows highs s" and e: "e \<in> set (lows @ highs)" and c: "hp_handle (s_heap s) e = Some c"
    and s0: "ring_ok (s_heap s0) (s_lru_low_pri s0) lows highs" "hp_handle (s_heap s0) e = Some c0"
      "InHighPriPool c0 = InHighPriPool c" "h_charge c0 = h_charge c" "s_lru_usage s0 = s_lru_usage s"
      "s_high_pri_pool_usage s0 = s_high_pri_pool_usage s"
  obtains N P low lru high where
    "LRU_Remove e s0 = Some (s0\<lparr>s_heap := (s_heap s0)\<lparr>hp_next := N, hp_prev := P\<rparr>, s_lru_low_pri := low,
       s_lru_usage := lru, s_high_pri_pool_usage := high\<rparr>)"
    "ring_ok ((s_heap s0)\<lparr>hp_next := N, hp_prev := P\<rparr>) low (removeAll e lows) (removeAll e highs)"
    "unat lru = unat (s_lru_usage s) - charge_of (s_heap s) e"
    "unat high = unat (s_high_pri_pool_usage s) - (if e \<in> set highs then charge_of (s_heap s) e else 0)"
proof -
  from ring_entry [OF rep e] c have ce: "InHighPriPool c \<longleftrightarrow> e \<in> set highs" "h_charge c \<le> s_lru_usage s"
      "InHighPriPool c \<Longrightarrow> h_charge c \<le> s_high_pri_pool_usage s"
    by auto
  define high where "high = (if InHighPriPool c then s_high_pri_pool_usage s - h_charge c else s_high_pri_pool_usage s)"
  from LRU_Remove_ring [of s0 lows highs e c0] s0 e ce(3) obtain N P low where rm:
    "LRU_Remove e s0 = Some (s0\<lparr>s_heap := (s_heap s0)\<lparr>hp_next := N, hp_prev := P\<rparr>, s_lru_low_pri := low,
       s_lru_usage := s_lru_usage s - h_charge c, s_high_pri_pool_usage := high\<rparr>)"
    "ring_ok ((s_heap s0)\<lparr>hp_next := N, hp_prev := P\<rparr>) low (removeAll e lows) (removeAll e highs)"
    unfolding s0(3-6) high_def by blast
  have "unat (s_lru_usage s - h_charge c) = unat (s_lru_usage s) - charge_of (s_heap s) e"
    using ce(2) view_at(5) [OF c] by (simp add: unat_sub_le)
  moreover have "unat high = unat (s_high_pri_pool_usage s) - (if e \<in> set highs then charge_of (s_heap s) e else 0)"
    using ce(1,3) view_at(5) [OF c] by (cases "e \<in> set highs") (simp_all add: high_def unat_sub_le)
  ultimately show thesis using that [OF rm] by simp
qed

text \<open>The sums over the ring without one of its entries.\<close>

lemma ring_sums:
  assumes "books out held lows highs s"
  shows "e \<in> set (lows @ highs) \<Longrightarrow> unat (s_lru_usage s) - charge_of (s_heap s) e
      = sum (charge_of (s_heap s)) (set (removeAll e lows @ removeAll e highs))"
    "unat (s_high_pri_pool_usage s) - (if e \<in> set highs then charge_of (s_heap s) e else 0)
      = sum (charge_of (s_heap s)) (set (removeAll e highs))"
proof -
  have R: "set (removeAll e lows @ removeAll e highs) = set (lows @ highs) - {e}" by auto
  show "e \<in> set (lows @ highs) \<Longrightarrow> unat (s_lru_usage s) - charge_of (s_heap s) e
      = sum (charge_of (s_heap s)) (set (removeAll e lows @ removeAll e highs))"
    unfolding R booksD(7) [OF assms] by (subst sum_minus_one) auto
  show "unat (s_high_pri_pool_usage s) - (if e \<in> set highs then charge_of (s_heap s) e else 0)
      = sum (charge_of (s_heap s)) (set (removeAll e highs))"
    using sum_minus_one [of "set highs" e "charge_of (s_heap s)"] booksD(8) [OF assms]
    by (cases "e \<in> set highs") simp_all
qed

lemma shard_rep_replace:
  assumes rep: "shard_rep out held lows highs s" and c: "hp_handle (s_heap s) e = Some c"
    and H': "s_heap s' = (s_heap s)\<lparr>hp_next := N, hp_prev := P, hp_handle := (hp_handle (s_heap s))(e \<mapsto> c')\<rparr>"
    and c': "h_charge c' = h_charge c" "h_key c' = h_key c" "h_hash c' = h_hash c" "InHighPriPool c' = InHighPriPool c"
      "InCache c' = InCache c"
    and ring: "ring_ok ((s_heap s)\<lparr>hp_next := N, hp_prev := P\<rparr>) (s_lru_low_pri s') lows' highs'"
    and books: "books out held' lows' highs' s'" and t: "s_table s' = s_table s"
  shows "shard_rep out held' lows' highs' s'"
proof -
  let ?H1 = "(s_heap s)\<lparr>hp_next := N, hp_prev := P\<rparr>"
  have v: "allocated (s_heap s') = allocated (s_heap s)" "pool (s_heap s') = pool (s_heap s)"
      "incache (s_heap s') = incache (s_heap s)" "key_of (s_heap s') = key_of (s_heap s)"
      "hash_of (s_heap s') = hash_of (s_heap s)"
    using c c' unfolding H' by (auto simp: view_defs key_of_def hash_of_def fun_eq_iff)
  have ring': "ring_ok (s_heap s') (s_lru_low_pri s') lows' highs'"
    using ring ring_ok_cong [of "s_heap s'" ?H1] v by (simp add: H')
  have C: "cached out (s_heap s') = cached out (s_heap s)" by (simp add: cached_def v)
  have "table_rep (s_heap s') (s_table s) (cached out (s_heap s'))"
    unfolding C by (rule table_rep_cong [OF shard_repD(1) [OF rep]])
      (use cached_entry_ok [OF ring', of _ out] C v in \<open>auto simp: H'\<close>)
  then show ?thesis using ring' books by (simp add: shard_rep_def t)
qed

lemma count_add_other: "a \<noteq> e \<Longrightarrow> count (add_mset e M) a = count M a"
  by simp

lemma Shard_Lookup_law:
  fixes s :: "'v LRUCacheShard"
  assumes inv: "shard_inv held s" and room: "size held < 2 ^ 32 - 2"
  obtains r s' where "Shard_Lookup key hash s = Some (r, s')"
    "\<And>e. r = Some e \<longleftrightarrow> incache (s_heap s) e \<and> key_of (s_heap s) e = key \<and> hash_of (s_heap s) e = hash"
    "shard_inv (case r of None \<Rightarrow> held | Some e \<Rightarrow> add_mset e held) s'"
    "entry_view (s_heap s') = entry_view (s_heap s)"
    "s_usage s' = s_usage s" "s_deleter_calls s' = s_deleter_calls s" "s_high_pri_pool_ratio s' = s_high_pri_pool_ratio s"
    "s_capacity s' = s_capacity s"
proof -
  note result = that
  from inv obtain lows highs where rep: "shard_rep {} held lows highs s" and full: "s_usage s > s_capacity s \<Longrightarrow> lows @ highs = []"
    by (rule shard_invE) blast
  let ?H = "s_heap s"
  from Lookup_rep [OF shard_repD(1) [OF rep], of key hash] obtain r where r:
    "LRUHandleTable_Lookup ?H (s_table s) key hash = Some r"
    "\<And>e. r = Some e \<longleftrightarrow> incache ?H e \<and> key_of ?H e = key \<and> hash_of ?H e = hash"
    by (auto simp: cached_def)
  show thesis
  proof (cases r)
    case None
    then show thesis using r inv by (intro result [of None s]) (auto simp: Shard_Lookup_def)
  next
    case (Some e)
    have b: "books {} held lows highs s" by (rule shard_repD(3) [OF rep])
    have inc: "incache ?H e" using r(2) Some by blast
    then have A: "e \<in> allocated ?H - {}" by (auto simp: incache_def allocated_def split: option.splits)
    then obtain c where c1: "hp_handle ?H e = Some c" by (auto simp: allocated_def)
    note c = c1 live_entry [OF b c1, simplified]
    have IC: "InCache c" using inc view_at(2) [OF c(1)] by simp
    have one: "h_refs c = 1 \<longleftrightarrow> e \<in> set (lows @ highs)"
      using c(2,4) IC by (auto simp: word_unat_eq_iff not_in_iff)
    have "count held e \<le> size held" by (rule count_le_size)
    then have refs: "unat (h_refs c + 1) = 1 + (count held e + 1)"
      using c(2) IC room by (simp add: unat_word_ariths)
    let ?c = "c\<lparr>h_refs := h_refs c + 1\<rparr>"
    have fin: thesis if run: "(if h_refs c = 1 then LRU_Remove e s else Some s)
          = Some (s\<lparr>s_heap := ?H\<lparr>hp_next := N, hp_prev := P\<rparr>, s_lru_low_pri := low,
              s_lru_usage := lru, s_high_pri_pool_usage := high\<rparr>)"
        and ring: "ring_ok (?H\<lparr>hp_next := N, hp_prev := P\<rparr>) low (removeAll e lows) (removeAll e highs)"
        and sums: "unat lru = sum (charge_of ?H) (set (removeAll e lows @ removeAll e highs))"
          "unat high = sum (charge_of ?H) (set (removeAll e highs))" for N P low lru high
    proof -
      define s' where "s' = s\<lparr>s_heap := ?H\<lparr>hp_next := N, hp_prev := P, hp_handle := (hp_handle ?H)(e \<mapsto> ?c)\<rparr>,
        s_lru_low_pri := low, s_lru_usage := lru, s_high_pri_pool_usage := high\<rparr>"
      have v: "allocated (s_heap s') = allocated ?H" "charge_of (s_heap s') = charge_of ?H"
          "incache (s_heap s') = incache ?H" "refs_of (s_heap s') = (refs_of ?H)(e := 1 + (count held e + 1))"
        using c(1) refs by (auto simp: s'_def view_defs fun_eq_iff)
      have "books {} (add_mset e held) (removeAll e lows) (removeAll e highs) s'"
        by (rule books_change [OF b _ v(1,2)])
           (use A inc v sums booksD(6,9) [OF b] in \<open>auto simp: s'_def\<close>)
      then have rep': "shard_rep {} (add_mset e held) (removeAll e lows) (removeAll e highs) s'"
        by (intro shard_rep_replace [OF rep c(1), where c' = ?c and N = N and P = P])
           (use ring in \<open>simp_all add: s'_def\<close>)
      have "shard_inv (add_mset e held) s'"
        by (rule shard_invI [OF rep']) (use full in \<open>simp add: s'_def\<close>)
      moreover have "Shard_Lookup key hash s = Some (Some e, s')"
        using r(1) Some c(1) IC run by (simp add: Shard_Lookup_def update_handle_def s'_def)
      ultimately show thesis
        using r(2) Some c(1) by (intro result [of "Some e" s']) (auto simp: s'_def entry_view_def fun_eq_iff)
    qed
    show thesis
    proof (cases "e \<in> set (lows @ highs)")
      case True
      obtain N P low lru high where rm:
        "LRU_Remove e s = Some (s\<lparr>s_heap := ?H\<lparr>hp_next := N, hp_prev := P\<rparr>, s_lru_low_pri := low,
           s_lru_usage := lru, s_high_pri_pool_usage := high\<rparr>)"
        "ring_ok (?H\<lparr>hp_next := N, hp_prev := P\<rparr>) low (removeAll e lows) (removeAll e highs)"
        "unat lru = unat (s_lru_usage s) - charge_of ?H e"
        "unat high = unat (s_high_pri_pool_usage s) - (if e \<in> set highs then charge_of ?H e else 0)"
        by (rule LRU_Remove_rep [OF rep True c(1) shard_repD(2) [OF rep] c(1) refl refl refl refl])
      show thesis
        by (rule fin [OF _ rm(2)]) (use one True rm ring_sums [OF b, of e] in simp_all)
    next
      case False
      then have "removeAll e lows = lows" "removeAll e highs = highs" by simp_all
      then show thesis
        using False one fin [where N = "hp_next ?H" and P = "hp_prev ?H" and low = "s_lru_low_pri s" and lru = "s_lru_usage s"
            and high = "s_high_pri_pool_usage s"]
          shard_repD(2) [OF rep] booksD(7,8) [OF b]
        by simp
    qed
  qed
qed

subsection \<open>Release\<close>

lemma Unref_eq:
  assumes "hp_handle (s_heap s) e = Some c" "h_refs c \<noteq> 0"
  shows "Unref e s = Some (h_refs c - 1 = 0,
    s\<lparr>s_heap := (s_heap s)\<lparr>hp_handle := (hp_handle (s_heap s))(e \<mapsto> c\<lparr>h_refs := h_refs c - 1\<rparr>)\<rparr>\<rparr>)"
  using assms by (simp add: Unref_def update_handle_def word_neq_0_conv)

lemma count_minus_other: "a \<noteq> e \<Longrightarrow> count (M - {#e#}) a = count M a"
  by simp

text \<open>An entry that is off the books is freed last.\<close>

lemma Shard_Free_rep:
  assumes rep: "shard_rep {e} held lows highs s" and c: "hp_handle (s_heap s) e = Some c" "free_ok c"
    and full: "s_usage s > s_capacity s \<Longrightarrow> lows @ highs = []"
  obtains s' where "Shard_Free e s = Some s'" "shard_inv held s'"
    "s_heap s' = (s_heap s)\<lparr>hp_handle := without {e} (hp_handle (s_heap s))\<rparr>"
    "s_deleter_calls s' = s_deleter_calls s @ deleter_call c" "s_usage s' = s_usage s" "s_capacity s' = s_capacity s"
    "s_high_pri_pool_ratio s' = s_high_pri_pool_ratio s"
proof -
  have "hp_next (s_heap s) e \<noteq> Some e"
    by (rule ring_no_self [OF shard_repD(2) [OF rep]]) (use c in \<open>auto simp: allocated_def\<close>)
  from Shard_Free_eq [OF c this]
  have run: "Shard_Free e s = Some (s\<lparr>s_heap := (s_heap s)\<lparr>hp_handle := without {e} (hp_handle (s_heap s))\<rparr>,
      s_deleter_calls := s_deleter_calls s @ deleter_call c\<rparr>)" .
  have "shard_rep ({e} - {e}) held lows highs (s\<lparr>s_heap := (s_heap s)\<lparr>hp_handle := without {e} (hp_handle (s_heap s))\<rparr>,
      s_deleter_calls := s_deleter_calls s @ deleter_call c\<rparr>)"
    by (rule shard_rep_free [OF rep]) simp_all
  then have "shard_inv held (s\<lparr>s_heap := (s_heap s)\<lparr>hp_handle := without {e} (hp_handle (s_heap s))\<rparr>,
      s_deleter_calls := s_deleter_calls s @ deleter_call c\<rparr>)"
    by (intro shard_invI [where lows = lows and highs = highs]) (use full in simp_all)
  from that [OF run this] show thesis by simp
qed

lemma Release_last:
  fixes s :: "'v LRUCacheShard"
  assumes inv: "shard_inv held s" and held: "e \<in># held" and c: "hp_handle (s_heap s) e = Some c" "h_refs c = 1"
  obtains s' where "Shard_Release (Some e) s = Some s'" "shard_inv (held - {#e#}) s'"
    "entry_view (s_heap s') = (entry_view (s_heap s))(e := None)"
    "s_deleter_calls s' = s_deleter_calls s @ deleter_call c" "s_usage s' \<le> s_usage s" "s_capacity s' = s_capacity s"
    "s_high_pri_pool_ratio s' = s_high_pri_pool_ratio s" "count held e = 1" "\<not> InCache c"
proof -
  from inv obtain lows highs where rep: "shard_rep {} held lows highs s" and full: "s_usage s > s_capacity s \<Longrightarrow> lows @ highs = []"
    by (rule shard_invE) blast
  let ?H = "s_heap s"
  have b: "books {} held lows highs s" by (rule shard_repD(3) [OF rep])
  have A: "e \<in> allocated ?H - {}" using view_at(1) [OF c(1)] by simp
  have l: "unat (h_refs c) = (if InCache c then 1 else 0) + count held e"
      "e \<in> set (lows @ highs) \<longleftrightarrow> InCache c \<and> e \<notin># held" "h_charge c \<le> s_usage s" "unat (h_charge c) = charge_of ?H e"
    using live_entry [OF b c(1)] view_at(5) [OF c(1)] by auto
  have "count held e \<ge> 1" using held by (simp add: Suc_le_eq)
  with l(1) c(2) have cnt: "count held e = 1" "\<not> InCache c" by (auto split: if_splits)
  have nr: "e \<notin> set (lows @ highs)" using l(2) cnt(2) by simp
  define c1 where "c1 = c\<lparr>h_refs := 0\<rparr>"
  define s1 where "s1 = s\<lparr>s_heap := ?H\<lparr>hp_handle := (hp_handle ?H)(e \<mapsto> c1)\<rparr>, s_usage := s_usage s - h_charge c\<rparr>"
  have v: "allocated (s_heap s1) = allocated ?H" "pool (s_heap s1) = pool ?H" "charge_of (s_heap s1) = charge_of ?H"
      "incache (s_heap s1) = incache ?H" "refs_of (s_heap s1) = (refs_of ?H)(e := 0)"
      "key_of (s_heap s1) = key_of ?H" "hash_of (s_heap s1) = hash_of ?H"
    using c(1) by (auto simp: s1_def c1_def view_defs key_of_def hash_of_def fun_eq_iff)
  have "books (insert e {}) (held - {#e#}) (removeAll e lows) (removeAll e highs) s1"
    by (rule books_out [OF b A]) (use cnt nr v l(3,4) in \<open>auto simp: not_in_iff s1_def unat_sub_le\<close>)
  then have b1: "books {e} (held - {#e#}) lows highs s1" using nr by simp
  have r1: "ring_ok (s_heap s1) (s_lru_low_pri s1) lows highs"
    using shard_repD(2) [OF rep] ring_ok_cong [of "s_heap s1" ?H] v by (simp add: s1_def)
  have C: "cached {e} (s_heap s1) = cached {} ?H"
    using view_at(2) [OF c(1)] cnt(2) by (auto simp: cached_def v)
  have "table_rep (s_heap s1) (s_table s1) (cached {e} (s_heap s1))"
    unfolding C by (rule table_rep_cong [of ?H])
      (use shard_repD(1) [OF rep] cached_entry_ok [OF r1, of _ "{e}"] C v in \<open>auto simp: s1_def\<close>)
  with b1 r1 have rep1: "shard_rep {e} (held - {#e#}) lows highs s1" by (simp add: shard_rep_def)
  have le: "s_usage s1 \<le> s_usage s" using l(3) by (simp add: s1_def word_sub_le)
  have f1: "free_ok c1" using cnt(2) by (simp add: free_ok_def c1_def)
  obtain s' where s': "Shard_Free e s1 = Some s'" "shard_inv (held - {#e#}) s'"
      "s_heap s' = (s_heap s1)\<lparr>hp_handle := without {e} (hp_handle (s_heap s1))\<rparr>"
      "s_deleter_calls s' = s_deleter_calls s1 @ deleter_call c1" "s_usage s' = s_usage s1" "s_capacity s' = s_capacity s1"
      "s_high_pri_pool_ratio s' = s_high_pri_pool_ratio s1"
    by (rule Shard_Free_rep [OF rep1 _ f1]) (use le full in \<open>auto simp: s1_def\<close>)
  have "Shard_Release (Some e) s = Some s'"
    using Unref_eq [OF c(1)] c(2) s'(1) by (simp add: Shard_Release_def s1_def c1_def)
  with s' le cnt show thesis
    by (intro that [of s']) (auto simp: s1_def c1_def deleter_call_def entry_view_def without_def fun_eq_iff)
qed

lemma shard_rep_refs:
  assumes "shard_rep out held lows highs s" and "hp_handle (s_heap s) e = Some c"
    and "books out held' lows highs (s\<lparr>s_heap := (s_heap s)\<lparr>hp_handle := (hp_handle (s_heap s))(e \<mapsto> c\<lparr>h_refs := n\<rparr>)\<rparr>\<rparr>)"
  shows "shard_rep out held' lows highs (s\<lparr>s_heap := (s_heap s)\<lparr>hp_handle := (hp_handle (s_heap s))(e \<mapsto> c\<lparr>h_refs := n\<rparr>)\<rparr>\<rparr>)"
  by (rule shard_rep_replace [OF assms(1,2), where N = "hp_next (s_heap s)" and P = "hp_prev (s_heap s)"
        and c' = "c\<lparr>h_refs := n\<rparr>"])
     (use assms shard_repD(2) [OF assms(1)] in simp_all)

lemma refs_views:
  assumes "hp_handle H e = Some c" and "H' = H\<lparr>hp_handle := (hp_handle H)(e \<mapsto> c\<lparr>h_refs := n\<rparr>)\<rparr>"
  shows "allocated H' = allocated H" "pool H' = pool H" "charge_of H' = charge_of H" "incache H' = incache H"
    "refs_of H' = (refs_of H)(e := unat n)" "key_of H' = key_of H" "hash_of H' = hash_of H"
    "entry_view H' = entry_view H" "cached out H' = cached out H" "hp_next H' = hp_next H" "hp_prev H' = hp_prev H"
    "hp_next_hash H' = hp_next_hash H"
  using assms by (auto simp: view_defs key_of_def hash_of_def entry_view_def cached_def fun_eq_iff)

lemma Release_more:
  assumes rep: "shard_rep {} held lows highs s" and full: "s_usage s > s_capacity s \<Longrightarrow> lows @ highs = []"
    and held: "e \<in># held" and c: "hp_handle (s_heap s) e = Some c" "h_refs c \<noteq> 1" "\<not> (h_refs c = 2 \<and> InCache c)"
  obtains s' where "Shard_Release (Some e) s = Some s'" "shard_inv (held - {#e#}) s'"
    "entry_view (s_heap s') = entry_view (s_heap s)" "params_kept s s'" "s_usage s' = s_usage s" "count held e \<noteq> 1"
proof -
  have b: "books {} held lows highs s" by (rule shard_repD(3) [OF rep])
  note l = live_entry [OF b c(1), simplified]
  have pos: "count held e \<ge> 1" using held by (simp add: Suc_le_eq)
  have cnt: "count held e \<ge> 2"
  proof (rule ccontr)
    assume "\<not> count held e \<ge> 2"
    with pos have "count held e = 1" by linarith
    with l(1) have "unat (h_refs c) = (if InCache c then 2 else 1)" by simp
    then have "h_refs c = (if InCache c then 2 else 1)"
      by (auto simp: word_unat_eq_iff split: if_splits)
    with c(2,3) show False by (auto split: if_splits)
  qed
  have ur: "unat (h_refs c - 1) = unat (h_refs c) - 1" using l(2) by (simp add: unat_minus_one)
  have ne: "h_refs c - 1 \<noteq> 0" "\<not> (h_refs c - 1 = 1 \<and> InCache c)"
    using c(2,3) by (auto simp: diff_eq_eq)
  let ?s = "s\<lparr>s_heap := (s_heap s)\<lparr>hp_handle := (hp_handle (s_heap s))(e \<mapsto> c\<lparr>h_refs := h_refs c - 1\<rparr>)\<rparr>\<rparr>"
  note v = refs_views [OF c(1), of "s_heap ?s" "h_refs c - 1", simplified]
  have "books {} (held - {#e#}) lows highs ?s"
    by (rule books_change [OF b view_at(1) [OF c(1)]])
       (use v l ur cnt booksD(6-9) [OF b] view_at(2) [OF c(1)] in \<open>auto simp: not_in_iff\<close>)
  from shard_rep_refs [OF rep c(1) this] have "shard_inv (held - {#e#}) ?s"
    by (rule shard_invI) (use full in simp)
  moreover have "Shard_Release (Some e) s = Some ?s"
    using Unref_eq [OF c(1) l(2)] ne c(3) by (cases "InCache c") (simp_all add: Shard_Release_def)
  ultimately show thesis using v(8) cnt by (intro that [of ?s]) (simp_all add: params_kept_def)
qed

lemma Release_to_lru:
  fixes s :: "'v LRUCacheShard"
  assumes rep: "shard_rep {} held lows highs s" and fits: "\<not> s_usage s > s_capacity s"
    and held: "e \<in># held" and c: "hp_handle (s_heap s) e = Some c" "h_refs c = 2" "InCache c"
  obtains s' where "Shard_Release (Some e) s = Some s'" "shard_inv (held - {#e#}) s'"
    "entry_view (s_heap s') = entry_view (s_heap s)" "params_kept s s'" "s_usage s' = s_usage s"
proof -
  let ?H = "s_heap s"
  have b: "books {} held lows highs s" by (rule shard_repD(3) [OF rep])
  note l = live_entry [OF b c(1), simplified]
  have cnt: "count held e = 1" using l(1) c(2,3) by simp
  have nr: "e \<notin> set (lows @ highs)" using l(3) held by simp
  have A: "e \<in> allocated ?H" by (rule view_at(1) [OF c(1)])
  have ch: "unat (h_charge c) = charge_of ?H e" using view_at(5) [OF c(1)] by simp
  define c1 where "c1 = c\<lparr>h_refs := 1\<rparr>"
  define H1 where "H1 = ?H\<lparr>hp_handle := (hp_handle ?H)(e \<mapsto> c1)\<rparr>"
  define s1 where "s1 = s\<lparr>s_heap := H1\<rparr>"
  note v = refs_views [OF c(1) H1_def [unfolded c1_def]]
  have r1: "ring_ok H1 (s_lru_low_pri s) lows highs"
    using shard_repD(2) [OF rep] ring_ok_cong [of H1 ?H] v by simp
  have sub: "set (lows @ highs) \<subseteq> allocated ?H" using shard_repD(2) [OF rep] by (simp add: ring_ok_def)
  have bound: "sum (charge_of ?H) X + unat (h_charge c) < 2 ^ 64" if "X \<subseteq> set (lows @ highs)" for X
  proof -
    have "finite X" using that by (rule finite_subset) simp
    then have "sum (charge_of ?H) X + unat (h_charge c) = sum (charge_of ?H) (insert e X)"
      using nr that ch by (subst sum_insert_one) (auto simp: subset_iff)
    also have "\<dots> \<le> unat (s_usage s)" using that sub A by (intro usage_bound [OF b]) auto
    also have "\<dots> < 2 ^ 64" using unsigned_less [of "s_usage s", where 'a = nat] by simp
    finally show ?thesis .
  qed
  obtain H' low usage lows' highs' where ins:
    "LRU_Insert e s1 = Some (s1\<lparr>s_heap := H', s_lru_low_pri := low, s_high_pri_pool_usage := usage,
       s_lru_usage := s_lru_usage s1 + h_charge c1\<rparr>)"
    "relinked H1 H'" "ring_ok H' low lows' highs'" "unat usage = sum (charge_of H') (set highs')"
    "linked_last (s_high_pri_pool_ratio s1 > 0 \<and> IsHighPri c1) e lows highs lows' highs'"
    by (rule LRU_Insert_ring [of s1 lows highs e c1])
       (use r1 nr v bound [of "set highs"] booksD(8,9) [OF b]
        in \<open>auto simp: s1_def H1_def [symmetric] c1_def, auto simp: H1_def c1_def\<close>)
  define s' where "s' = s1\<lparr>s_heap := H', s_lru_low_pri := low, s_high_pri_pool_usage := usage,
       s_lru_usage := s_lru_usage s1 + h_charge c1\<rparr>"
  have R: "set (lows' @ highs') = insert e (set (lows @ highs))"
    by (rule linked_last_set [OF ins(5)])
  have v': "allocated H' = allocated ?H" "charge_of H' = charge_of ?H" "incache H' = incache ?H"
      "refs_of H' = (refs_of ?H)(e := 1)" "cached {} H' = cached {} ?H"
    using v relinked_views [OF ins(2)] by (simp_all add: cached_def)
  have "unat (s_lru_usage s + h_charge c) = sum (charge_of ?H) (insert e (set (lows @ highs)))"
    using unat_add_small [of "s_lru_usage s" "h_charge c"] bound [OF subset_refl] booksD(7) [OF b] nr ch by simp
  then have "books {} (held - {#e#}) lows' highs' s'"
    by (intro books_change [OF b A])
       (use v' R nr ins(4) cnt c(3) view_at(2) [OF c(1)] booksD(6,9) [OF b]
        in \<open>auto simp: s'_def s1_def c1_def not_in_iff simp del: set_append\<close>)
  moreover have "table_rep H' (s_table s) (cached {} H')"
  proof (rule table_rep_ring [OF _ ins(3,2)])
    show "table_rep H1 (s_table s) (cached {} H1)"
      by (rule table_rep_cong [of ?H])
         (use shard_repD(1) [OF rep] cached_entry_ok [OF r1, of _ "{}"] v in auto)
  qed
  ultimately have "shard_rep {} (held - {#e#}) lows' highs' s'"
    using ins(3) by (simp add: shard_rep_def s'_def s1_def)
  then have "shard_inv (held - {#e#}) s'"
    by (rule shard_invI) (use fits in \<open>simp add: s'_def s1_def\<close>)
  moreover have "Shard_Release (Some e) s = Some s'"
    using Unref_eq [OF c(1)] c fits ins(1)
    by (simp add: Shard_Release_def s'_def s1_def H1_def c1_def)
  moreover have "entry_view H' = entry_view ?H" using relinked_entry_view [OF ins(2)] v(8) by simp
  ultimately show thesis by (intro that [of s']) (simp_all add: s'_def s1_def params_kept_def)
qed

lemma Release_full:
  fixes s :: "'v LRUCacheShard"
  assumes rep: "shard_rep {} held lows highs s" and full: "s_usage s > s_capacity s" "lows @ highs = []"
    and held: "e \<in># held" and c: "hp_handle (s_heap s) e = Some c" "h_refs c = 2" "InCache c"
  obtains s' where "Shard_Release (Some e) s = Some s'" "shard_inv (held - {#e#}) s'"
    "entry_view (s_heap s') = (entry_view (s_heap s))(e := None)"
    "s_deleter_calls s' = s_deleter_calls s @ deleter_call c" "s_usage s' \<le> s_usage s" "s_capacity s' = s_capacity s"
    "s_high_pri_pool_ratio s' = s_high_pri_pool_ratio s"
proof -
  let ?H = "s_heap s"
  have b: "books {} held lows highs s" by (rule shard_repD(3) [OF rep])
  note l = live_entry [OF b c(1), simplified]
  have cnt: "count held e = 1" using l(1) c(2,3) by simp
  have A: "e \<in> allocated ?H - {}" using view_at(1) [OF c(1)] by simp
  have ch: "unat (h_charge c) = charge_of ?H e" using view_at(5) [OF c(1)] by simp
  define c1 where "c1 = c\<lparr>h_refs := 1\<rparr>"
  define H1 where "H1 = ?H\<lparr>hp_handle := (hp_handle ?H)(e \<mapsto> c1)\<rparr>"
  define s1 where "s1 = s\<lparr>s_heap := H1\<rparr>"
  note v = refs_views [OF c(1) H1_def [unfolded c1_def]]
  have r1: "ring_ok H1 (s_lru_low_pri s) lows highs"
    using shard_repD(2) [OF rep] ring_ok_cong [of H1 ?H] v by simp
  have t1: "table_rep H1 (s_table s) (cached {} ?H)"
    by (rule table_rep_cong [OF shard_repD(1) [OF rep]]) (use cached_entry_ok [OF r1, of _ "{}"] v in auto)
  have e: "e \<in> cached {} ?H" using view_at(2) [OF c(1)] c(3) by (simp add: cached_def)
  let ?c = "(SetInCache False c1)\<lparr>h_refs := 0\<rparr>"
  from uncache [of s1 "cached {} ?H" e c1] t1 e obtain nh t' where un:
    "\<And>f :: _ \<Rightarrow> (bool \<times> 'v LRUCacheShard) option.
       table_Remove e s1 \<bind> (\<lambda>s. set_in_cache e False s \<bind> (\<lambda>s. Unref e s \<bind> f)) =
       f (True, s1\<lparr>s_table := t', s_heap := H1\<lparr>hp_next_hash := nh, hp_handle := (hp_handle H1)(e \<mapsto> ?c)\<rparr>\<rparr>)"
    "table_rep (H1\<lparr>hp_next_hash := nh, hp_handle := (hp_handle H1)(e \<mapsto> ?c)\<rparr>) t' (cached {} ?H - {e})"
    by (auto simp: s1_def H1_def c1_def)
  define H2 where "H2 = H1\<lparr>hp_next_hash := nh, hp_handle := (hp_handle H1)(e \<mapsto> ?c)\<rparr>"
  define s2 where "s2 = s1\<lparr>s_table := t', s_heap := H2, s_usage := s_usage s - h_charge c\<rparr>"
  have v2: "allocated H2 = allocated H1" "pool H2 = pool H1" "charge_of H2 = charge_of H1"
      "incache H2 = (incache H1)(e := False)" "refs_of H2 = (refs_of H1)(e := 0)" "hp_next H2 = hp_next H1" "hp_prev H2 = hp_prev H1"
    using view_replace [of H1 e c1 ?c H2 nh] H2_def by (simp_all add: H1_def c1_def)
  have nr: "lows = []" "highs = []" using full(2) by simp_all
  have "books (insert e {}) (held - {#e#}) (removeAll e lows) (removeAll e highs) s2"
    by (rule books_out [OF b A])
       (use cnt nr v v2 l(4) ch booksD(7,8) [OF b] in \<open>auto simp: not_in_iff s2_def s1_def unat_sub_le\<close>)
  then have b2: "books {e} (held - {#e#}) [] [] s2" using nr by simp
  have "ring_ok H2 (s_lru_low_pri s) [] []" using r1 nr ring_ok_cong [of H2 H1] v2 by simp
  moreover have "cached {e} H2 = cached {} ?H - {e}" using v2(4) v(4) by (auto simp: cached_def)
  ultimately have rep2: "shard_rep {e} (held - {#e#}) [] [] s2"
    using b2 un(2) by (simp add: shard_rep_def s2_def s1_def H2_def [symmetric])
  have f2: "free_ok ?c" by (simp add: free_ok_def)
  obtain s' where s': "Shard_Free e s2 = Some s'" "shard_inv (held - {#e#}) s'"
      "s_heap s' = (s_heap s2)\<lparr>hp_handle := without {e} (hp_handle (s_heap s2))\<rparr>"
      "s_deleter_calls s' = s_deleter_calls s2 @ deleter_call ?c" "s_usage s' = s_usage s2" "s_capacity s' = s_capacity s2"
      "s_high_pri_pool_ratio s' = s_high_pri_pool_ratio s2"
    by (rule Shard_Free_rep [OF rep2 _ f2]) (auto simp: s2_def H2_def)
  have "hp_next ?H 0 = Some 0" using ring_first(1) [OF rep] full(2) by simp
  then have "Shard_Release (Some e) s = Some s'"
    using Unref_eq [OF c(1)] c(2,3) full(1) s'(1) un(1)
    unfolding Shard_Release_def
    by (simp add: s1_def [unfolded H1_def c1_def, symmetric] H1_def [unfolded c1_def, symmetric])
       (simp add: s2_def s1_def H2_def H1_def c1_def)
  moreover have "s_usage s2 \<le> s_usage s" using l(4) by (simp add: s2_def word_sub_le)
  ultimately show thesis using s'
    by (intro that [of s'])
       (auto simp: s2_def s1_def H2_def H1_def c1_def deleter_call_def entry_view_def without_def fun_eq_iff)
qed

text \<open>
  \<open>Release\<close> of a handle the client holds: the entry is freed exactly if this was the last
  handle and the entry had been erased or replaced, or the cache is over its capacity.
\<close>

lemma Shard_Release_law:
  assumes inv: "shard_inv held s" and held: "e \<in># held"
  obtains s' c where "Shard_Release (Some e) s = Some s'" "shard_inv (held - {#e#}) s'" "hp_handle (s_heap s) e = Some c"
    "if count held e = 1 \<and> (\<not> InCache c \<or> s_usage s > s_capacity s)
     then entry_view (s_heap s') = (entry_view (s_heap s))(e := None) \<and> s_deleter_calls s' = s_deleter_calls s @ deleter_call c
     else entry_view (s_heap s') = entry_view (s_heap s) \<and> s_deleter_calls s' = s_deleter_calls s"
    "s_usage s' \<le> s_usage s" "s_capacity s' = s_capacity s" "s_high_pri_pool_ratio s' = s_high_pri_pool_ratio s"
proof -
  from inv obtain lows highs where rep: "shard_rep {} held lows highs s" and full: "s_usage s > s_capacity s \<Longrightarrow> lows @ highs = []"
    by (rule shard_invE) blast
  have b: "books {} held lows highs s" by (rule shard_repD(3) [OF rep])
  obtain c where c: "hp_handle (s_heap s) e = Some c"
    using booksD(3) [OF b] held by (auto simp: allocated_def)
  note l = live_entry [OF b c, simplified]
  consider "h_refs c = 1" | "h_refs c \<noteq> 1" "\<not> (h_refs c = 2 \<and> InCache c)"
    | "h_refs c = 2" "InCache c" "\<not> s_usage s > s_capacity s" | "h_refs c = 2" "InCache c" "s_usage s > s_capacity s"
    by blast
  then show thesis
  proof cases
    case 1
    show thesis by (rule Release_last [OF inv held c 1]) (rule that [OF _ _ c], assumption, assumption, simp_all)
  next
    case 2
    show thesis
      by (rule Release_more [OF rep full held c 2], assumption) (rule that [OF _ _ c], assumption, assumption, simp_all add: params_kept_def)
  next
    case 3
    show thesis
      by (rule Release_to_lru [OF rep 3(3) held c 3(1,2)]) (rule that [OF _ _ c], assumption, assumption, use 3 in \<open>simp_all add: params_kept_def\<close>)
  next
    case 4
    have cnt: "count held e = 1" using l(1) 4(1,2) by simp
    show thesis
      by (rule Release_full [OF rep 4(3) full [OF 4(3)] held c 4(1,2)]) (rule that [OF _ _ c], assumption, assumption, use 4 cnt in simp_all)
  qed
qed

subsection \<open>Erase\<close>

text \<open>
  Entry \<open>e\<close> has just left the table and loses the table's reference: off the books when
  nobody holds it, otherwise kept for its holders.
\<close>

lemma detach_books:
  assumes b: "books out held lows highs s" and c: "hp_handle (s_heap s) e = Some c" "InCache c" "e \<notin> out" "e \<in># held"
    and v: "allocated (s_heap s') = allocated (s_heap s)" "charge_of (s_heap s') = charge_of (s_heap s)"
      "incache (s_heap s') = (incache (s_heap s))(e := False)" "refs_of (s_heap s') = (refs_of (s_heap s))(e := unat (h_refs c - 1))"
    and u: "s_usage s' = s_usage s" "s_lru_usage s' = s_lru_usage s" "s_high_pri_pool_usage s' = s_high_pri_pool_usage s"
      "s_high_pri_pool_capacity s' = s_high_pri_pool_capacity s"
  shows "books out held lows highs s'"
proof (rule books_change [OF b view_at(1) [OF c(1)] v(1,2)])
  note l = live_entry [OF b c(1,3)]
  have "unat (h_refs c - 1) = count held e" using l(1,2) c(2) by (simp add: unat_minus_one)
  then show "refs_of (s_heap s') e = (if incache (s_heap s') e then 1 else 0) + count held e \<and>
      refs_of (s_heap s') e \<noteq> 0 \<and> (e \<in> set (lows @ highs) \<longleftrightarrow> incache (s_heap s') e \<and> e \<notin># held)"
    using l(3) c(4) by (simp add: v)
qed (use v u c booksD(6-9) [OF b] in auto)

lemma table_rep_heap:
  assumes "table_rep H t E" and "hp_next_hash H' = hp_next_hash H" and "\<And>a. a \<in> E \<Longrightarrow> hp_next H' a \<noteq> Some a"
    and "\<And>a. a \<in> E \<Longrightarrow> hp_handle H' a \<noteq> None" and "key_of H' = key_of H" "hash_of H' = hash_of H"
  shows "table_rep H' t E"
  by (rule table_rep_cong [OF assms(1,2)]) (use assms in \<open>auto simp: entry_ok_def\<close>)

text \<open>The final form of the entry: flag cleared, one reference less.\<close>

definition detached :: "'v LRUHandle \<Rightarrow> 'v LRUHandle" where
  "detached c = (SetInCache False c)\<lparr>h_refs := h_refs c - 1\<rparr>"

lemma detached_simps [simp]:
  "h_value (detached c) = h_value c" "h_deleter (detached c) = h_deleter c" "h_charge (detached c) = h_charge c"
  "h_refs (detached c) = h_refs c - 1" "h_hash (detached c) = h_hash c" "h_key (detached c) = h_key c"
  "\<not> InCache (detached c)" "InHighPriPool (detached c) = InHighPriPool c"
  by (simp_all add: detached_def)

lemma detach_rep:
  fixes s :: "'v LRUCacheShard"
  assumes rep: "shard_rep out held lows highs s" and c: "hp_handle (s_heap s) e = Some c" "InCache c" "e \<notin> out"
    and t: "table_rep ((s_heap s)\<lparr>hp_next_hash := nh\<rparr>) t (cached out (s_heap s) - {e})"
    and H': "s_heap s' = (s_heap s)\<lparr>hp_next_hash := nh, hp_next := N, hp_prev := P, hp_handle := (hp_handle (s_heap s))(e \<mapsto> detached c)\<rparr>"
    and ring: "ring_ok ((s_heap s)\<lparr>hp_next := N, hp_prev := P\<rparr>) (s_lru_low_pri s') lows' highs'"
    and s': "s_table s' = t" "books out' held lows' highs' s'" "out' = out \<or> out' = insert e out"
  shows "shard_rep out' held lows' highs' s'"
proof -
  let ?H1 = "(s_heap s)\<lparr>hp_next := N, hp_prev := P\<rparr>"
  have v: "allocated (s_heap s') = allocated (s_heap s)" "pool (s_heap s') = pool (s_heap s)"
      "incache (s_heap s') = (incache (s_heap s))(e := False)" "key_of (s_heap s') = key_of (s_heap s)"
      "hash_of (s_heap s') = hash_of (s_heap s)"
    using c(1) unfolding H' by (auto simp: view_defs key_of_def hash_of_def fun_eq_iff)
  have ring': "ring_ok (s_heap s') (s_lru_low_pri s') lows' highs'"
    using ring ring_ok_cong [of "s_heap s'" ?H1] v by (simp add: H')
  have C: "cached out' (s_heap s') = cached out (s_heap s) - {e}" using s'(3) by (auto simp: cached_def v)
  have "table_rep (s_heap s') t (cached out (s_heap s) - {e})"
    by (rule table_rep_cong [OF t])
       (use cached_entry_ok [OF ring', of _ out'] C v in \<open>auto simp: H'\<close>)
  then show ?thesis using ring' s' C by (simp add: shard_rep_def)
qed

lemma detached_views:
  assumes "hp_handle H e = Some c" and "hp_handle H' = (hp_handle H)(e \<mapsto> detached c)"
  shows "allocated H' = allocated H" "charge_of H' = charge_of H" "incache H' = (incache H)(e := False)"
    "refs_of H' = (refs_of H)(e := unat (h_refs c - 1))" "pool H' = pool H"
    "entry_view H' = (entry_view H)(e := Some (h_key c, h_hash c, h_value c, h_charge c, h_deleter c, False))"
  using assms by (auto simp: view_defs entry_view_def fun_eq_iff dom_def split: if_splits)

lemma Erase_held:
  fixes s :: "'v LRUCacheShard"
  assumes rep: "shard_rep {} held lows highs s" and full: "s_usage s > s_capacity s \<Longrightarrow> lows @ highs = []"
    and rm: "LRUHandleTable_Remove key hash (s_heap s) (s_table s) = Some (Some e, (s_heap s)\<lparr>hp_next_hash := nh\<rparr>, t)"
      "table_rep ((s_heap s)\<lparr>hp_next_hash := nh\<rparr>) t (cached {} (s_heap s) - {e})"
    and c: "hp_handle (s_heap s) e = Some c" "InCache c" "e \<in># held"
  obtains s' where "Shard_Erase key hash s = Some s'" "shard_inv held s'" "params_kept s s'" "s_usage s' = s_usage s"
    "entry_view (s_heap s') =
       (entry_view (s_heap s))(e := Some (h_key c, h_hash c, h_value c, h_charge c, h_deleter c, False))"
proof -
  let ?H = "s_heap s"
  have b: "books {} held lows highs s" by (rule shard_repD(3) [OF rep])
  note l = live_entry [OF b c(1), simplified]
  have "h_refs c \<noteq> 1"
  proof
    assume "h_refs c = 1"
    then have "count held e = 0" using l(1) c(2) by simp
    then show False using c(3) by (simp add: not_in_iff [symmetric])
  qed
  define s' where "s' = s\<lparr>s_heap := ?H\<lparr>hp_next_hash := nh, hp_handle := (hp_handle ?H)(e \<mapsto> detached c)\<rparr>, s_table := t\<rparr>"
  note v = detached_views [of ?H e c "s_heap s'"]
  have "books {} held lows highs s'"
    by (rule detach_books [OF b c(1,2) _ c(3)]) (use v c(1) in \<open>simp_all add: s'_def\<close>)
  then have "shard_rep {} held lows highs s'"
    by (intro detach_rep [OF rep c(1,2) _ rm(2), where N = "hp_next ?H" and P = "hp_prev ?H"])
       (use shard_repD(2) [OF rep] in \<open>simp_all add: s'_def\<close>)
  then have "shard_inv held s'" by (rule shard_invI) (use full in \<open>simp add: s'_def\<close>)
  moreover have "Shard_Erase key hash s = Some s'"
    using rm(1) Unref_eq [of "s\<lparr>s_heap := ?H\<lparr>hp_next_hash := nh\<rparr>, s_table := t\<rparr>" e c] c(1) l(2) \<open>h_refs c \<noteq> 1\<close>
    by (simp add: Shard_Erase_def set_in_cache_def update_handle_def s'_def detached_def SetInCache_def record_order)
  ultimately show thesis using v(6) c(1)
    by (intro that [of s']) (simp_all add: s'_def params_kept_def)
qed

lemma Erase_free:
  fixes s :: "'v LRUCacheShard"
  assumes rep: "shard_rep {} held lows highs s" and full: "s_usage s > s_capacity s \<Longrightarrow> lows @ highs = []"
    and tr: "LRUHandleTable_Remove key hash (s_heap s) (s_table s) = Some (Some e, (s_heap s)\<lparr>hp_next_hash := nh\<rparr>, t)"
      "table_rep ((s_heap s)\<lparr>hp_next_hash := nh\<rparr>) t (cached {} (s_heap s) - {e})"
    and c: "hp_handle (s_heap s) e = Some c" "InCache c" "e \<notin># held"
  obtains s' where "Shard_Erase key hash s = Some s'" "shard_inv held s'"
    "s_deleter_calls s' = s_deleter_calls s @ deleter_call c" "s_usage s' \<le> s_usage s" "s_capacity s' = s_capacity s"
    "s_high_pri_pool_ratio s' = s_high_pri_pool_ratio s" "entry_view (s_heap s') = (entry_view (s_heap s))(e := None)"
proof -
  let ?H = "s_heap s"
  have b: "books {} held lows highs s" by (rule shard_repD(3) [OF rep])
  note l = live_entry [OF b c(1), simplified]
  have last: "h_refs c = 1" using l(1) c(2,3) by (auto simp: word_unat_eq_iff not_in_iff)
  have ring: "e \<in> set (lows @ highs)" using l(3) c(2,3) by simp
  have A: "e \<in> allocated ?H - {}" using view_at(1) [OF c(1)] by simp
  let ?c1 = "c\<lparr>h_refs := 0\<rparr>"
  define s1 where "s1 = s\<lparr>s_heap := ?H\<lparr>hp_next_hash := nh, hp_handle := (hp_handle ?H)(e \<mapsto> ?c1)\<rparr>,
    s_table := t, s_usage := s_usage s - h_charge c\<rparr>"
  have same: "allocated ((s_heap s1)\<lparr>hp_next := N, hp_prev := P\<rparr>) = allocated ?H"
      "pool ((s_heap s1)\<lparr>hp_next := N, hp_prev := P\<rparr>) = pool ?H" for N P
    using c(1) by (auto simp: s1_def view_defs fun_eq_iff)
  have "ring_ok (s_heap s1) (s_lru_low_pri s1) lows highs"
    using shard_repD(2) [OF rep] ring_ok_cong [of "s_heap s1" ?H] same [of "hp_next ?H" "hp_prev ?H"] by (simp add: s1_def)
  then obtain N P low lru high where rm:
    "LRU_Remove e s1 = Some (s1\<lparr>s_heap := (s_heap s1)\<lparr>hp_next := N, hp_prev := P\<rparr>, s_lru_low_pri := low,
       s_lru_usage := lru, s_high_pri_pool_usage := high\<rparr>)"
    "ring_ok ((s_heap s1)\<lparr>hp_next := N, hp_prev := P\<rparr>) low (removeAll e lows) (removeAll e highs)"
    "unat lru = unat (s_lru_usage s) - charge_of ?H e"
    "unat high = unat (s_high_pri_pool_usage s) - (if e \<in> set highs then charge_of ?H e else 0)"
    by (rule LRU_Remove_rep [OF rep ring c(1), of s1 ?c1]) (simp_all add: s1_def)
  define s2 where "s2 = s\<lparr>s_heap := ?H\<lparr>hp_next_hash := nh, hp_next := N, hp_prev := P,
      hp_handle := (hp_handle ?H)(e \<mapsto> detached c)\<rparr>, s_table := t, s_usage := s_usage s - h_charge c,
      s_lru_low_pri := low, s_lru_usage := lru, s_high_pri_pool_usage := high\<rparr>"
  note v = detached_views [of ?H e c "s_heap s2"]
  have ub: "unat (s_usage s2) = unat (s_usage s) - charge_of ?H e"
    using l(4) view_at(5) [OF c(1)] by (simp add: s2_def unat_sub_le)
  have le: "s_usage s2 \<le> s_usage s" using l(4) by (simp add: s2_def word_sub_le)
  have "books (insert e {}) held (removeAll e lows) (removeAll e highs) s2"
    by (rule books_out [OF b A c(3)]) (use v c(1) ub rm(3,4) ring in \<open>simp_all add: s2_def\<close>)
  moreover have "ring_ok (?H\<lparr>hp_next := N, hp_prev := P\<rparr>) low (removeAll e lows) (removeAll e highs)"
    using rm(2) same ring_ok_cong [of "(s_heap s1)\<lparr>hp_next := N, hp_prev := P\<rparr>" "?H\<lparr>hp_next := N, hp_prev := P\<rparr>"] by simp
  ultimately have rep2: "shard_rep {e} held (removeAll e lows) (removeAll e highs) s2"
    by (intro detach_rep [OF rep c(1,2) _ tr(2), where N = N and P = P]) (simp_all add: s2_def)
  have ok: "free_ok (detached c)" using last by (simp add: free_ok_def)
  obtain s' where s': "Shard_Free e s2 = Some s'" "shard_inv held s'"
      "s_heap s' = (s_heap s2)\<lparr>hp_handle := without {e} (hp_handle (s_heap s2))\<rparr>"
      "s_deleter_calls s' = s_deleter_calls s2 @ deleter_call (detached c)" "s_usage s' = s_usage s2"
      "s_capacity s' = s_capacity s2" "s_high_pri_pool_ratio s' = s_high_pri_pool_ratio s2"
    by (rule Shard_Free_rep [OF rep2 _ ok]) (use full le ring in \<open>auto simp: s2_def\<close>)
  have "Shard_Erase key hash s = Some s'"
    using tr(1) Unref_eq [of "s\<lparr>s_heap := ?H\<lparr>hp_next_hash := nh\<rparr>, s_table := t\<rparr>" e c] last rm(1) c s'(1)
    unfolding Shard_Erase_def
    by (simp add: s1_def set_in_cache_def update_handle_def s2_def detached_def SetInCache_def record_order)
  with le s' show thesis
    by (intro that [of s']) (auto simp: s2_def deleter_call_def entry_view_def without_def fun_eq_iff)
qed

text \<open>
  \<open>Erase\<close>: an entry that somebody holds leaves the table and lives on for its holders; one
  that nobody holds is freed.
\<close>

lemma Shard_Erase_law:
  fixes s :: "'v LRUCacheShard"
  assumes inv: "shard_inv held s"
  obtains s' r where "Shard_Erase key hash s = Some s'" "shard_inv held s'"
    "\<And>e. r = Some e \<longleftrightarrow> incache (s_heap s) e \<and> key_of (s_heap s) e = key \<and> hash_of (s_heap s) e = hash"
    "case r of None \<Rightarrow> entry_view (s_heap s') = entry_view (s_heap s) \<and> s_deleter_calls s' = s_deleter_calls s
     | Some e \<Rightarrow> (\<exists>c. hp_handle (s_heap s) e = Some c \<and>
         (if e \<in># held
          then entry_view (s_heap s') =
              (entry_view (s_heap s))(e := Some (h_key c, h_hash c, h_value c, h_charge c, h_deleter c, False)) \<and>
            s_deleter_calls s' = s_deleter_calls s
          else entry_view (s_heap s') = (entry_view (s_heap s))(e := None) \<and>
            s_deleter_calls s' = s_deleter_calls s @ deleter_call c))"
    "s_usage s' \<le> s_usage s" "s_capacity s' = s_capacity s" "s_high_pri_pool_ratio s' = s_high_pri_pool_ratio s"
proof -
  from inv obtain lows highs where rep: "shard_rep {} held lows highs s" and full: "s_usage s > s_capacity s \<Longrightarrow> lows @ highs = []"
    by (rule shard_invE) blast
  let ?H = "s_heap s"
  from Remove_rep [OF shard_repD(1) [OF rep], of key hash] obtain r nh t where r:
    "LRUHandleTable_Remove key hash ?H (s_table s) = Some (r, ?H\<lparr>hp_next_hash := nh\<rparr>, t)"
    "\<And>e. r = Some e \<longleftrightarrow> incache ?H e \<and> key_of ?H e = key \<and> hash_of ?H e = hash"
    "table_rep (?H\<lparr>hp_next_hash := nh\<rparr>) t (cached {} ?H - set_option r)"
    by (auto simp: cached_def)
  show thesis
  proof (cases r)
    case None
    let ?s = "s\<lparr>s_heap := ?H\<lparr>hp_next_hash := nh\<rparr>, s_table := t\<rparr>"
    have "shard_rep {} held lows highs ?s"
      by (rule shard_rep_next_hash [OF rep]) (use r(3) None in simp)
    then have "shard_inv held ?s" by (rule shard_invI) (use full in simp)
    then show thesis using r None
      by (intro that [of ?s None]) (auto simp: Shard_Erase_def entry_view_def fun_eq_iff)
  next
    case (Some e)
    then obtain c where c: "hp_handle ?H e = Some c" "InCache c"
      using r(2) by (auto simp: incache_def split: option.splits)
    have tr: "LRUHandleTable_Remove key hash ?H (s_table s) = Some (Some e, ?H\<lparr>hp_next_hash := nh\<rparr>, t)"
        "table_rep (?H\<lparr>hp_next_hash := nh\<rparr>) t (cached {} ?H - {e})"
      using r(1,3) Some by simp_all
    show thesis
    proof (cases "e \<in># held")
      case True
      show thesis
        by (rule Erase_held [OF rep full tr c True], assumption, rule that [of _ "Some e"], assumption, assumption)
           (use r(2) Some c True in \<open>auto simp: params_kept_def\<close>)
    next
      case False
      show thesis
        by (rule Erase_free [OF rep full tr c False], assumption, rule that [of _ "Some e"], assumption, assumption)
           (use r(2) Some c False in auto)
    qed
  qed
qed

end
