(* ===== verification/LruInsert.thy ===== *)
theory LruInsert
  imports LruInvariant
begin

text \<open>
  \<open>LRUCacheShard::Insert\<close>. Between the insertion into the table and the end of the critical
  section the new entry is in the table but neither held nor in the ring, and its charge is
  already counted: the state is \<open>pending\<close>.
\<close>

subsection \<open>The new entry\<close>

lemma new_handle_simps [simp]:
  "h_value (new_handle g key hash value charge deleter handle priority) = value"
  "h_deleter (new_handle g key hash value charge deleter handle priority) = deleter"
  "h_charge (new_handle g key hash value charge deleter handle priority) = charge"
  "h_refs (new_handle g key hash value charge deleter handle priority) = (if handle then 2 else 1)"
  "h_hash (new_handle g key hash value charge deleter handle priority) = hash"
  "h_key (new_handle g key hash value charge deleter handle priority) = key"
  "InCache (new_handle g key hash value charge deleter handle priority)"
  "IsHighPri (new_handle g key hash value charge deleter handle priority) \<longleftrightarrow> priority = HIGH"
  by (simp_all add: new_handle_def)

definition alloc :: "nat \<Rightarrow> 'v LRUHandle \<Rightarrow> 'v LRUCacheShard \<Rightarrow> 'v LRUCacheShard" where
  "alloc e c s = s\<lparr>s_heap := (s_heap s)\<lparr>hp_handle := (hp_handle (s_heap s))(e \<mapsto> c),
     hp_next := (hp_next (s_heap s))(e := None), hp_prev := (hp_prev (s_heap s))(e := None)\<rparr>\<rparr>"

lemma alloc_simps [simp]:
  "s_capacity (alloc e c s) = s_capacity s" "s_usage (alloc e c s) = s_usage s"
  "s_lru_usage (alloc e c s) = s_lru_usage s" "s_high_pri_pool_usage (alloc e c s) = s_high_pri_pool_usage s"
  "s_strict_capacity_limit (alloc e c s) = s_strict_capacity_limit s"
  "s_high_pri_pool_ratio (alloc e c s) = s_high_pri_pool_ratio s"
  "s_high_pri_pool_capacity (alloc e c s) = s_high_pri_pool_capacity s"
  "s_lru_low_pri (alloc e c s) = s_lru_low_pri s" "s_table (alloc e c s) = s_table s"
  "s_deleter_calls (alloc e c s) = s_deleter_calls s"
  "hp_handle (s_heap (alloc e c s)) = (hp_handle (s_heap s))(e \<mapsto> c)"
  "hp_next (s_heap (alloc e c s)) = (hp_next (s_heap s))(e := None)"
  "hp_prev (s_heap (alloc e c s)) = (hp_prev (s_heap s))(e := None)"
  "hp_next_hash (s_heap (alloc e c s)) = hp_next_hash (s_heap s)"
  by (simp_all add: alloc_def)

lemma alloc_views:
  "allocated (s_heap (alloc e c s)) = insert e (allocated (s_heap s))"
  "a \<noteq> e \<Longrightarrow> incache (s_heap (alloc e c s)) a = incache (s_heap s) a"
  "a \<noteq> e \<Longrightarrow> pool (s_heap (alloc e c s)) a = pool (s_heap s) a"
  "a \<noteq> e \<Longrightarrow> refs_of (s_heap (alloc e c s)) a = refs_of (s_heap s) a"
  "a \<noteq> e \<Longrightarrow> charge_of (s_heap (alloc e c s)) a = charge_of (s_heap s) a"
  "a \<noteq> e \<Longrightarrow> key_of (s_heap (alloc e c s)) a = key_of (s_heap s) a"
  "a \<noteq> e \<Longrightarrow> hash_of (s_heap (alloc e c s)) a = hash_of (s_heap s) a"
  by (simp_all add: view_defs key_of_def hash_of_def)

text \<open>Entries of the table stay well-formed as long as the ring is.\<close>

lemma table_rep_alloc:
  assumes "table_rep H t E" and "ring_ok H' low lows highs" and "hp_next_hash H' = hp_next_hash H" and "E \<subseteq> allocated H'"
    and "\<And>a. a \<in> E \<Longrightarrow> key_of H' a = key_of H a" and "\<And>a. a \<in> E \<Longrightarrow> hash_of H' a = hash_of H a"
  shows "table_rep H' t E"
proof (rule table_rep_cong [OF assms(1,3)])
  fix a
  assume "a \<in> E"
  then have "a \<in> allocated H'" using assms(4) by blast
  then show "entry_ok H' a" using ring_no_self [OF assms(2)] by (auto simp: entry_ok_def allocated_def)
qed (use assms in auto)

lemma alloc_rep:
  assumes rep: "shard_rep {} held lows highs s" and e: "e \<notin> allocated (s_heap s)" "e \<noteq> lru_addr"
  shows "shard_rep {e} held lows highs (alloc e c s)"
proof -
  let ?H = "s_heap s" let ?H' = "s_heap (alloc e c s)"
  have r: "ring_ok ?H (s_lru_low_pri s) lows highs" and b: "books {} held lows highs s"
    by (rule shard_repD [OF rep])+
  have eR: "e \<notin> set (lows @ highs)" using r e(1) by (auto simp: ring_ok_def)
  have "dl (hp_next ?H') (hp_prev ?H') lru_addr (lows @ highs) lru_addr \<longleftrightarrow>
      dl (hp_next ?H) (hp_prev ?H) lru_addr (lows @ highs) lru_addr"
    by (rule dl_frame) (use eR e(2) in auto)
  then have ring: "ring_ok ?H' (s_lru_low_pri s) lows highs"
    using r e eR by (intro ring_okI) (auto simp: ring_ok_def alloc_views simp del: dl.simps, (metis alloc_views(3))+)
  have C: "cached {e} ?H' = cached {} ?H"
    using e(1) alloc_views(2) [of _ e c s] by (auto simp: cached_def allocated_def incache_def split: option.splits)
  have sub: "cached {} ?H \<subseteq> allocated ?H"
    by (auto simp: cached_def incache_def allocated_def split: option.splits)
  have ne: "a \<noteq> e" if "a \<in> allocated ?H" for a using that e(1) by blast
  have "table_rep ?H' (s_table s) (cached {} ?H)"
    by (rule table_rep_alloc [OF shard_repD(1) [OF rep] ring])
       (use sub ne in \<open>auto simp: alloc_views intro!: alloc_views\<close>)
  moreover have "books {e} held lows highs (alloc e c s)"
    unfolding books_def Let_def C
  proof (intro conjI)
    have A: "allocated ?H' - {e} = allocated ?H - {}" using e(1) by (auto simp: alloc_views)
    have sums: "sum (charge_of ?H') X = sum (charge_of ?H) X" if "X \<subseteq> allocated ?H" for X
      using that ne by (intro sum.cong refl alloc_views) blast
    have sR: "set (lows @ highs) \<subseteq> allocated ?H" "set highs \<subseteq> allocated ?H" using r by (auto simp: ring_ok_def)
    show "unat (s_usage (alloc e c s)) = sum (charge_of ?H') (allocated ?H' - {e})"
      unfolding A using booksD(6) [OF b] sums by simp
    show "unat (s_lru_usage (alloc e c s)) = sum (charge_of ?H') (set (lows @ highs))"
      "unat (s_high_pri_pool_usage (alloc e c s)) = sum (charge_of ?H') (set highs)"
      using booksD(7,8) [OF b] sums sR by simp_all
    show "set_mset held \<subseteq> allocated ?H' - {e}" unfolding A by (rule booksD(3) [OF b])
    show "\<forall>a\<in>allocated ?H' - {e}. refs_of ?H' a = (if incache ?H' a then 1 else 0) + count held a \<and> refs_of ?H' a \<noteq> 0"
      unfolding A
    proof
      fix a
      assume a: "a \<in> allocated ?H - {}"
      then have "a \<noteq> e" using ne by blast
      from booksD(5) [OF b a] show "refs_of ?H' a = (if incache ?H' a then 1 else 0) + count held a \<and> refs_of ?H' a \<noteq> 0"
        unfolding alloc_views(2,4) [OF \<open>a \<noteq> e\<close>] .
    qed
  qed (use booksD(1,4,9) [OF b] in \<open>simp_all add: alloc_views\<close>)
  ultimately show ?thesis using ring by (simp add: shard_rep_def C)
qed

subsection \<open>Into the table\<close>

definition pending :: "nat \<Rightarrow> nat set \<Rightarrow> nat multiset \<Rightarrow> nat list \<Rightarrow> nat list \<Rightarrow> 'v LRUCacheShard \<Rightarrow> bool" where
  "pending e out held lows highs s \<longleftrightarrow> e \<in> out \<and>
     table_rep (s_heap s) (s_table s) (insert e (cached out (s_heap s))) \<and>
     ring_ok (s_heap s) (s_lru_low_pri s) lows highs \<and>
     (\<exists>c. hp_handle (s_heap s) e = Some c \<and> InCache c \<and>
        books out held lows highs (s\<lparr>s_usage := s_usage s - h_charge c\<rparr>))"

lemma pendingI:
  assumes "e \<in> out" "table_rep (s_heap s) (s_table s) (insert e (cached out (s_heap s)))"
    "ring_ok (s_heap s) (s_lru_low_pri s) lows highs" "hp_handle (s_heap s) e = Some c" "InCache c"
    "books out held lows highs (s\<lparr>s_usage := s_usage s - h_charge c\<rparr>)"
  shows "pending e out held lows highs s"
  using assms by (auto simp: pending_def)

lemma pendingD:
  assumes "pending e out held lows highs s" and "hp_handle (s_heap s) e = Some c"
  shows "e \<in> out" "table_rep (s_heap s) (s_table s) (insert e (cached out (s_heap s)))"
    "ring_ok (s_heap s) (s_lru_low_pri s) lows highs" "InCache c"
    "books out held lows highs (s\<lparr>s_usage := s_usage s - h_charge c\<rparr>)"
  using assms by (auto simp: pending_def)

text \<open>The state after \<open>table_.Insert(e)\<close> and \<open>usage_ += e->charge\<close>.\<close>

definition tabled :: "(nat \<Rightarrow> nat option) \<Rightarrow> LRUHandleTable \<Rightarrow> u64 \<Rightarrow> 'v LRUCacheShard \<Rightarrow> 'v LRUCacheShard" where
  "tabled nh t charge s =
     s\<lparr>s_heap := (s_heap s)\<lparr>hp_next_hash := nh\<rparr>, s_table := t, s_usage := s_usage s + charge\<rparr>"

lemma replace_none:
  assumes rep: "shard_rep out held lows highs s" and e: "e \<in> out" "hp_handle (s_heap s) e = Some c" "InCache c"
    and t: "table_rep ((s_heap s)\<lparr>hp_next_hash := nh\<rparr>) t (insert e (cached out (s_heap s)))"
  shows "pending e out held lows highs (tabled nh t (h_charge c) s)"
proof (rule pendingI [of _ _ _ _ _ c])
  show "books out held lows highs (tabled nh t (h_charge c) s\<lparr>s_usage := s_usage (tabled nh t (h_charge c) s) - h_charge c\<rparr>)"
    by (rule books_same [OF shard_repD(3) [OF rep]]) (use booksD(9) [OF shard_repD(3) [OF rep]] in \<open>simp_all add: tabled_def\<close>)
  show "ring_ok (s_heap (tabled nh t (h_charge c) s)) (s_lru_low_pri (tabled nh t (h_charge c) s)) lows highs"
    using shard_repD(2) [OF rep] ring_ok_cong [of "s_heap (tabled nh t (h_charge c) s)" "s_heap s"] by (simp add: tabled_def)
qed (use e t in \<open>simp_all add: tabled_def cached_def\<close>)

text \<open>An entry with the same key leaves the table; \<open>N\<close> and \<open>P\<close> are the links after it left the ring, if it was there.\<close>

lemma replace_old:
  assumes rep: "shard_rep out held lows highs s" and e: "e \<in> out" "hp_handle (s_heap s) e = Some c" "InCache c"
    and a: "hp_handle (s_heap s) a = Some d" "InCache d" "a \<notin> out"
    and t: "table_rep ((s_heap s)\<lparr>hp_next_hash := nh\<rparr>) t (insert e (cached out (s_heap s) - {a}))"
    and s': "s_heap s' = (s_heap s)\<lparr>hp_next_hash := nh, hp_next := N, hp_prev := P, hp_handle := (hp_handle (s_heap s))(a \<mapsto> detached d)\<rparr>"
      "s_table s' = t" "out' = out \<or> out' = insert a out"
    and ring: "ring_ok ((s_heap s)\<lparr>hp_next := N, hp_prev := P\<rparr>) (s_lru_low_pri s') lows' highs'"
    and b: "books out' held lows' highs' (s'\<lparr>s_usage := s_usage s' - h_charge c\<rparr>)"
  shows "pending e out' held lows' highs' s'"
proof -
  let ?H1 = "(s_heap s)\<lparr>hp_next := N, hp_prev := P\<rparr>"
  have v: "allocated (s_heap s') = allocated (s_heap s)" "pool (s_heap s') = pool (s_heap s)"
      "incache (s_heap s') = (incache (s_heap s))(a := False)" "key_of (s_heap s') = key_of (s_heap s)"
      "hash_of (s_heap s') = hash_of (s_heap s)"
    using a(1) unfolding s'(1) by (auto simp: view_defs key_of_def hash_of_def fun_eq_iff)
  have ring': "ring_ok (s_heap s') (s_lru_low_pri s') lows' highs'"
    using ring ring_ok_cong [of "s_heap s'" ?H1] v by (simp add: s'(1))
  have C: "cached out' (s_heap s') = cached out (s_heap s) - {a}" using s'(3) by (auto simp: cached_def v)
  have sub: "insert e (cached out (s_heap s) - {a}) \<subseteq> allocated (s_heap s')"
    unfolding v(1) using view_at(1) [OF e(2)] by (auto simp: cached_def incache_def allocated_def split: option.splits)
  have "table_rep (s_heap s') t (insert e (cached out (s_heap s) - {a}))"
    by (rule table_rep_alloc [OF t ring' _ sub]) (simp add: s'(1), simp_all add: v)
  moreover have "a \<noteq> e" using e(1) a(3) by blast
  ultimately show ?thesis using ring' e s' b C by (intro pendingI [of _ _ _ _ _ c]) auto
qed

lemma replace_entry_held:
  fixes s :: "'v LRUCacheShard"
  assumes rep: "shard_rep out held lows highs s" and e: "e \<in> out" "hp_handle (s_heap s) e = Some c" "InCache c"
    and a: "hp_handle (s_heap s) a = Some d" "InCache d" "a \<notin> out" "a \<in># held"
    and t: "table_rep ((s_heap s)\<lparr>hp_next_hash := nh\<rparr>) t (insert e (cached out (s_heap s) - {a}))"
  obtains s' where "replace_entry (Some a) lrl (tabled nh t (h_charge c) s) = Some (lrl, s')"
    "pending e out held lows highs s'" "hp_handle (s_heap s') = (hp_handle (s_heap s))(a \<mapsto> detached d)"
    "params_kept s s'" "s_usage s' = s_usage s + h_charge c"
proof -
  let ?H = "s_heap s"
  have b: "books out held lows highs s" by (rule shard_repD(3) [OF rep])
  note l = live_entry [OF b a(1,3)]
  have "h_refs d \<noteq> 1"
  proof
    assume "h_refs d = 1"
    then have "count held a = 0" using l(1) a(2) by simp
    then show False using a(4) by (simp add: not_in_iff [symmetric])
  qed
  define s' where "s' = s\<lparr>s_heap := ?H\<lparr>hp_next_hash := nh, hp_handle := (hp_handle ?H)(a \<mapsto> detached d)\<rparr>,
    s_table := t, s_usage := s_usage s + h_charge c\<rparr>"
  have run: "replace_entry (Some a) lrl (tabled nh t (h_charge c) s) = Some (lrl, s')"
    using a(1) l(2) \<open>h_refs d \<noteq> 1\<close>
    by (simp add: replace_entry_def tabled_def set_in_cache_def update_handle_def Unref_def word_neq_0_conv s'_def
        detached_def SetInCache_def record_order)
  note v = detached_views [of ?H a d "s_heap s'"]
  have "books out held lows highs (s'\<lparr>s_usage := s_usage s' - h_charge c\<rparr>)"
    by (rule detach_books [OF b a]) (use v a(1) in \<open>simp_all add: s'_def\<close>)
  then have "pending e out held lows highs s'"
    by (intro replace_old [OF rep e a(1-3) t, where N = "hp_next ?H" and P = "hp_prev ?H"])
       (use shard_repD(2) [OF rep] in \<open>simp_all add: s'_def\<close>)
  with run show thesis by (rule that) (simp_all add: s'_def params_kept_def)
qed

lemma replace_entry_free:
  fixes s :: "'v LRUCacheShard"
  assumes rep: "shard_rep out held lows highs s" and e: "e \<in> out" "hp_handle (s_heap s) e = Some c" "InCache c"
    and a: "hp_handle (s_heap s) a = Some d" "InCache d" "a \<notin> out" "a \<notin># held"
    and t: "table_rep ((s_heap s)\<lparr>hp_next_hash := nh\<rparr>) t (insert e (cached out (s_heap s) - {a}))"
  obtains s' where "replace_entry (Some a) lrl (tabled nh t (h_charge c) s) = Some (lrl @ [a], s')"
    "pending e (insert a out) held (removeAll a lows) (removeAll a highs) s'"
    "hp_handle (s_heap s') = (hp_handle (s_heap s))(a \<mapsto> detached d)"
    "params_kept s s'" "s_usage s' = s_usage s + h_charge c - h_charge d" "h_refs d = 1" "h_charge d \<le> s_usage s"
proof -
  let ?H = "s_heap s"
  have b: "books out held lows highs s" by (rule shard_repD(3) [OF rep])
  note l = live_entry [OF b a(1,3)]
  have last: "h_refs d = 1" using l(1) a(2,4) by (auto simp: word_unat_eq_iff not_in_iff)
  have ring: "a \<in> set (lows @ highs)" using l(3) a(2,4) by simp
  have A: "a \<in> allocated ?H - out" using view_at(1) [OF a(1)] a(3) by simp
  define s1 where "s1 = s\<lparr>s_heap := ?H\<lparr>hp_next_hash := nh, hp_handle := (hp_handle ?H)(a \<mapsto> detached d)\<rparr>,
    s_table := t, s_usage := s_usage s + h_charge c - h_charge d\<rparr>"
  have same: "allocated ((s_heap s1)\<lparr>hp_next := N, hp_prev := P\<rparr>) = allocated ?H"
      "pool ((s_heap s1)\<lparr>hp_next := N, hp_prev := P\<rparr>) = pool ?H" for N P
    using a(1) by (auto simp: s1_def view_defs fun_eq_iff)
  have "ring_ok (s_heap s1) (s_lru_low_pri s1) lows highs"
    using shard_repD(2) [OF rep] ring_ok_cong [of "s_heap s1" ?H] same [of "hp_next ?H" "hp_prev ?H"] by (simp add: s1_def)
  then obtain N P low lru high where rm:
    "LRU_Remove a s1 = Some (s1\<lparr>s_heap := (s_heap s1)\<lparr>hp_next := N, hp_prev := P\<rparr>, s_lru_low_pri := low,
       s_lru_usage := lru, s_high_pri_pool_usage := high\<rparr>)"
    "ring_ok ((s_heap s1)\<lparr>hp_next := N, hp_prev := P\<rparr>) low (removeAll a lows) (removeAll a highs)"
    "unat lru = unat (s_lru_usage s) - charge_of ?H a"
    "unat high = unat (s_high_pri_pool_usage s) - (if a \<in> set highs then charge_of ?H a else 0)"
    by (rule LRU_Remove_rep [OF rep ring a(1), of s1 "detached d"]) (simp_all add: s1_def)
  define s' where "s' = s\<lparr>s_heap := ?H\<lparr>hp_next_hash := nh, hp_next := N, hp_prev := P,
      hp_handle := (hp_handle ?H)(a \<mapsto> detached d)\<rparr>, s_table := t, s_usage := s_usage s + h_charge c - h_charge d,
      s_lru_low_pri := low, s_lru_usage := lru, s_high_pri_pool_usage := high\<rparr>"
  have run: "replace_entry (Some a) lrl (tabled nh t (h_charge c) s) = Some (lrl @ [a], s')"
    using a(1) last rm(1)
    by (simp add: replace_entry_def tabled_def set_in_cache_def update_handle_def Unref_def s'_def s1_def
        detached_def SetInCache_def record_order)
  note v = detached_views [of ?H a d "s_heap s'"]
  have "unat (s_usage s - h_charge d) = unat (s_usage s) - charge_of ?H a"
    using l(4) view_at(5) [OF a(1)] by (simp add: unat_sub_le)
  then have "books (insert a out) held (removeAll a lows) (removeAll a highs) (s'\<lparr>s_usage := s_usage s' - h_charge c\<rparr>)"
    by (intro books_out [OF b A a(4)]) (use v a(1) rm(3,4) ring in \<open>simp_all add: s'_def\<close>)
  moreover have "ring_ok (?H\<lparr>hp_next := N, hp_prev := P\<rparr>) low (removeAll a lows) (removeAll a highs)"
    using rm(2) same ring_ok_cong [of "(s_heap s1)\<lparr>hp_next := N, hp_prev := P\<rparr>" "?H\<lparr>hp_next := N, hp_prev := P\<rparr>"] by simp
  ultimately have "pending e (insert a out) held (removeAll a lows) (removeAll a highs) s'"
    by (intro replace_old [OF rep e a(1-3) t, where N = N and P = P]) (simp_all add: s'_def)
  with run show thesis by (rule that) (use last l(4) in \<open>simp_all add: s'_def params_kept_def\<close>)
qed

subsection \<open>To the client or to the ring\<close>

lemma pending_usage:
  assumes p: "pending e out held lows highs s" and c: "hp_handle (s_heap s) e = Some c" and le: "h_charge c \<le> s_usage s"
  shows "unat (s_usage s) = sum (charge_of (s_heap s)) (allocated (s_heap s) - (out - {e}))"
proof -
  note b = pendingD(5) [OF p c]
  have A: "allocated (s_heap s) - (out - {e}) = insert e (allocated (s_heap s) - out)"
    using view_at(1) [OF c] by auto
  have "unat (s_usage s - h_charge c) = sum (charge_of (s_heap s)) (allocated (s_heap s) - out)"
    using booksD(6) [OF b] by simp
  then show ?thesis
    unfolding A using pendingD(1) [OF p c] booksD(1) [OF b] view_at(5) [OF c] le
    by (subst sum_insert_one) (auto simp: unat_sub_le word_le_nat_alt)
qed

lemma pending_frame:
  assumes p: "pending e out held lows highs s" and c: "hp_handle (s_heap s) e = Some c"
  shows "cached (out - {e}) (s_heap s) = insert e (cached out (s_heap s))" "e \<notin># held" "e \<notin> set (lows @ highs)"
    "e \<in> allocated (s_heap s)" "incache (s_heap s) e"
proof -
  note b = pendingD(5) [OF p c]
  show i: "incache (s_heap s) e" using view_at(2) [OF c] pendingD(4) [OF p c] by simp
  show "cached (out - {e}) (s_heap s) = insert e (cached out (s_heap s))" using i by (auto simp: cached_def)
  show "e \<notin># held" using booksD(3) [OF b] pendingD(1) [OF p c] by auto
  show "e \<notin> set (lows @ highs)" unfolding booksD(4) [OF b] using pendingD(1) [OF p c] by (simp add: cached_def)
  show "e \<in> allocated (s_heap s)" by (rule view_at(1) [OF c])
qed

lemma admit_held:
  assumes p: "pending e out held lows highs s" and c: "hp_handle (s_heap s) e = Some c" "h_refs c = 2"
    and le: "h_charge c \<le> s_usage s"
  shows "shard_rep (out - {e}) (add_mset e held) lows highs s"
proof -
  note b = pendingD(5) [OF p c(1)] and f = pending_frame [OF p c(1)]
  have "books (out - {e}) (add_mset e held) lows highs s"
    by (rule books_change [OF b, of e])
       (use f pending_usage [OF p c(1) le] booksD(7-9) [OF b] view_at(4) [OF c(1)] c(2)
        in \<open>auto simp: not_in_iff\<close>)
  with pendingD(2,3) [OF p c(1)] f(1) show ?thesis by (simp add: shard_rep_def)
qed

lemma admit_lru:
  fixes s :: "'v LRUCacheShard"
  assumes p: "pending e out held lows highs s" and c: "hp_handle (s_heap s) e = Some c" "h_refs c = 1"
    and le: "h_charge c \<le> s_usage s"
  obtains s' lows' highs' where "LRU_Insert e s = Some s'" "shard_rep (out - {e}) held lows' highs' s'"
    "relinked (s_heap s) (s_heap s')" "params_kept s s'" "s_usage s' = s_usage s"
    "linked_last (s_high_pri_pool_ratio s > 0 \<and> IsHighPri c) e lows highs lows' highs'"
proof -
  let ?H = "s_heap s"
  note b = pendingD(5) [OF p c(1)] and f = pending_frame [OF p c(1)]
  have ch: "unat (h_charge c) = charge_of ?H e" using view_at(5) [OF c(1)] by simp
  have sub: "set (lows @ highs) \<subseteq> allocated ?H - out"
    unfolding booksD(4) [OF b] by (auto simp: cached_def incache_def allocated_def split: option.splits)
  have bound: "sum (charge_of ?H) X + unat (h_charge c) < 2 ^ 64" if "X \<subseteq> set (lows @ highs)" for X
  proof -
    have X: "finite X" "e \<notin> X" using that f(3) by (auto intro: finite_subset)
    then have "sum (charge_of ?H) X + unat (h_charge c) = sum (charge_of ?H) (insert e X)" by (simp add: ch)
    also have "\<dots> \<le> unat (s_usage s)" unfolding pending_usage [OF p c(1) le]
      by (rule sum_mono2) (use booksD(1) [OF b] that sub f(4) in auto)
    also have "\<dots> < 2 ^ 64" using unsigned_less [of "s_usage s", where 'a = nat] by simp
    finally show ?thesis .
  qed
  obtain H' low usage lows' highs' where ins:
    "LRU_Insert e s = Some (s\<lparr>s_heap := H', s_lru_low_pri := low, s_high_pri_pool_usage := usage,
       s_lru_usage := s_lru_usage s + h_charge c\<rparr>)"
    "relinked ?H H'" "ring_ok H' low lows' highs'" "unat usage = sum (charge_of H') (set highs')"
    "linked_last (s_high_pri_pool_ratio s > 0 \<and> IsHighPri c) e lows highs lows' highs'"
    by (rule LRU_Insert_ring [OF pendingD(3) [OF p c(1)] c(1) f(3)])
       (use bound [of "set highs"] booksD(8,9) [OF b] in auto)
  define s' where "s' = s\<lparr>s_heap := H', s_lru_low_pri := low, s_high_pri_pool_usage := usage,
       s_lru_usage := s_lru_usage s + h_charge c\<rparr>"
  have R: "set (lows' @ highs') = insert e (set (lows @ highs))"
    by (rule linked_last_set [OF ins(5)])
  note v = relinked_views [OF ins(2)]
  have "unat (s_lru_usage s + h_charge c) = sum (charge_of ?H) (insert e (set (lows @ highs)))"
    using unat_add_small [of "s_lru_usage s" "h_charge c"] bound [OF subset_refl] booksD(7) [OF b] f(3) ch by simp
  then have "books (out - {e}) held lows' highs' s'"
    by (intro books_change [OF b, of e])
       (use f v R ins(4) pending_usage [OF p c(1) le] booksD(9) [OF b] view_at(4) [OF c(1)] c(2)
        in \<open>auto simp: s'_def not_in_iff simp del: set_append\<close>)
  moreover have "table_rep H' (s_table s) (cached (out - {e}) H')"
    by (rule table_rep_ring [OF _ ins(3,2)]) (use pendingD(2) [OF p c(1)] f(1) in simp)
  ultimately have "shard_rep (out - {e}) held lows' highs' s'"
    using ins(3) by (simp add: shard_rep_def s'_def)
  with ins(1,2,5) show thesis by (intro that [of s']) (simp_all add: s'_def params_kept_def)
qed

subsection \<open>Evicting for the new entry\<close>

lemma pinned_sum:
  assumes b: "books out held lows highs s"
  shows "s_lru_usage s \<le> s_usage s"
    "unat (s_usage s - s_lru_usage s) = sum (charge_of (s_heap s)) (allocated (s_heap s) - out - set (lows @ highs))"
proof -
  have sub: "set (lows @ highs) \<subseteq> allocated (s_heap s) - out"
    unfolding booksD(4) [OF b] by (auto simp: cached_def incache_def allocated_def split: option.splits)
  show le: "s_lru_usage s \<le> s_usage s"
    unfolding word_le_nat_alt booksD(7) [OF b] by (rule usage_bound [OF b sub])
  have fin: "finite (set (lows @ highs))" by simp
  show "unat (s_usage s - s_lru_usage s) = sum (charge_of (s_heap s)) (allocated (s_heap s) - out - set (lows @ highs))"
    unfolding unat_sub_le [OF le] booksD(6,7) [OF b] sum_diff_nat [OF fin sub] ..
qed

definition room_for :: "u64 \<Rightarrow> bool \<Rightarrow> 'v LRUCacheShard \<Rightarrow> bool" where
  "room_for charge handle s \<longleftrightarrow>
     \<not> (s_usage s - s_lru_usage s + charge > s_capacity s \<and> (s_strict_capacity_limit s \<or> \<not> handle))"

lemma alloc_evict:
  fixes s :: "'v LRUCacheShard"
  assumes rep: "shard_rep {} held lows highs s" and e: "e \<notin> allocated (s_heap s)" "e \<noteq> lru_addr"
    and bound: "unat (s_usage s) + unat charge < 2 ^ 64"
  obtains k s1 lows1 highs1 where "EvictFromLRU charge [] (alloc e c s) = Some (take k (lows @ highs), s1)"
    "shard_rep (insert e (set (take k (lows @ highs)))) held lows1 highs1 s1" "lows1 @ highs1 = drop k (lows @ highs)"
    "params_kept s s1" "evict_count s charge (lows @ highs) k" "s_usage s1 \<le> s_usage s"
    "s_usage s1 + charge \<le> s_capacity s \<or> lows1 @ highs1 = []" "room_for charge handle s1 = room_for charge handle s"
    "unat (s_usage s1 + charge) = unat (s_usage s1) + unat charge"
    "hp_handle (s_heap s1) = (\<lambda>a. if a = e then Some c else if a \<in> set (take k (lows @ highs))
        then map_option (\<lambda>c. (SetInCache False c)\<lparr>h_refs := 0\<rparr>) (hp_handle (s_heap s) a) else hp_handle (s_heap s) a)"
proof -
  define R where "R = lows @ highs"
  define s0 where "s0 = alloc e c s"
  have rep0: "shard_rep {e} held lows highs s0" unfolding s0_def by (rule alloc_rep [OF rep e])
  from EvictFromLRU_rep [OF rep0 R_def [symmetric], of charge "[]"] obtain k s1 where ev:
    "EvictFromLRU charge [] s0 = Some (take k R, s1)" "evicted {e} held (take k R) (drop k R) s0 s1"
    "s_usage s1 + charge \<le> s_capacity s0 \<or> drop k R = []" "k \<le> length R"
    "\<forall>j<k. s_usage s0 - sum_list (map (entry_charge (s_heap s0)) (take j R)) + charge > s_capacity s0"
    unfolding append_Nil by blast
  from ev(2) obtain lows1 highs1 where rep1: "shard_rep ({e} \<union> set (take k R)) held lows1 highs1 s1" "lows1 @ highs1 = drop k R"
    by (auto simp: evicted_def)
  have eR: "e \<notin> set R" using shard_repD(2) [OF rep] e(1) by (auto simp: R_def ring_ok_def)
  have sums: "sum_list (map (entry_charge (s_heap s0)) (take j R)) = sum_list (map (entry_charge (s_heap s)) (take j R))" for j
    by (intro arg_cong [of _ _ sum_list] map_cong refl)
       (use eR in \<open>auto simp: entry_charge_def s0_def dest: in_set_takeD\<close>)
  have par: "params_kept s s1" "s_usage s1 \<le> s_usage s"
      and u: "s_usage s1 = s_usage s - sum_list (map (entry_charge (s_heap s)) (take k R))"
    using ev(2) unfolding evicted_def sums by (auto simp: params_kept_def s0_def)
  have hh: "hp_handle (s_heap s1) a = (if a = e then Some c else if a \<in> set (take k R)
        then map_option (\<lambda>c. (SetInCache False c)\<lparr>h_refs := 0\<rparr>) (hp_handle (s_heap s) a) else hp_handle (s_heap s) a)" for a
    using ev(2) eR unfolding evicted_def by (auto simp: s0_def dest: in_set_takeD)
  have "evict_count s charge R k"
    using ev(3,4,5) unfolding evict_count_def sums u by (auto simp: s0_def)
  moreover have "s_usage s1 - s_lru_usage s1 = s_usage s - s_lru_usage s"
  proof -
    note b = shard_repD(3) [OF rep] and b1 = shard_repD(3) [OF rep1(1)]
    have A: "allocated (s_heap s1) - ({e} \<union> set (take k R)) - set (lows1 @ highs1) = allocated (s_heap s) - {} - set (lows @ highs)"
    proof -
      have "set R = set (take k R) \<union> set (drop k R)" by (metis append_take_drop_id set_append)
      moreover have "a \<in> allocated (s_heap s1) \<longleftrightarrow> a = e \<or> a \<in> allocated (s_heap s)" for a by (simp add: allocated_def hh dom_def)
      then have "allocated (s_heap s1) = insert e (allocated (s_heap s))" by blast
      ultimately show ?thesis unfolding rep1(2) R_def [symmetric] using e(1) by blast
    qed
    have "charge_of (s_heap s1) a = charge_of (s_heap s) a" if "a \<in> allocated (s_heap s)" for a
      using that e(1) by (auto simp: charge_of_def hh split: option.splits)
    then have "unat (s_usage s1 - s_lru_usage s1) = unat (s_usage s - s_lru_usage s)"
      unfolding pinned_sum(2) [OF b] pinned_sum(2) [OF b1] A by (intro sum.cong) auto
    then show ?thesis by (simp add: word_unat_eq_iff)
  qed
  then have "room_for charge handle s1 = room_for charge handle s"
    using par(1) by (simp add: room_for_def params_kept_def)
  moreover have "unat (s_usage s1 + charge) = unat (s_usage s1) + unat charge"
    using bound par(2) unat_add_small [of "s_usage s1" charge] by (simp add: word_le_nat_alt)
  moreover have "hp_handle (s_heap s1) = (\<lambda>a. if a = e then Some c else if a \<in> set (take k R)
        then map_option (\<lambda>c. (SetInCache False c)\<lparr>h_refs := 0\<rparr>) (hp_handle (s_heap s) a) else hp_handle (s_heap s) a)"
    using hh by (rule ext)
  ultimately show thesis
    using that [of k s1 lows1 highs1, folded R_def s0_def] ev(1,3) rep1 par by (simp add: s0_def)
qed

subsection \<open>Insert\<close>

lemma Shard_Insert_unfold:
  fixes s :: "'v LRUCacheShard"
  defines "c \<equiv> \<lambda>g key hash value charge deleter handle priority. new_handle g key hash value charge deleter handle priority"
  assumes ev: "EvictFromLRU charge [] (alloc e (c g key hash value charge deleter handle priority) s) = Some (es, s1)"
  shows "\<not> room_for charge handle s1 \<Longrightarrow> \<not> handle \<Longrightarrow> Shard_Insert e g key hash value charge deleter handle priority s
      = do { s \<leftarrow> free_all (es @ [e]) s1; Some (Status_OK, None, s) }"
    "\<not> room_for charge handle s1 \<Longrightarrow> handle \<Longrightarrow> Shard_Insert e g key hash value charge deleter handle priority s
      = do { s \<leftarrow> free_all es (s1\<lparr>s_heap := (s_heap s1)\<lparr>hp_handle := without {e} (hp_handle (s_heap s1))\<rparr>\<rparr>);
             Some (Status_Incomplete (cstr ''Insert failed due to LRU cache being full.'') [], None, s) }"
    "room_for charge handle s1 \<Longrightarrow> LRUHandleTable_Insert e (s_heap s1) (s_table s1) = Some (old, (s_heap s1)\<lparr>hp_next_hash := nh\<rparr>, t) \<Longrightarrow>
      replace_entry old es (tabled nh t charge s1) = Some (lr, s2) \<Longrightarrow>
      Shard_Insert e g key hash value charge deleter handle priority s
      = (if handle then do { s \<leftarrow> free_all lr s2; Some (Status_OK, Some e, s) }
         else do { s \<leftarrow> LRU_Insert e s2; s \<leftarrow> free_all lr s; Some (Status_OK, None, s) })"
proof -
  have w: "without {e} h = h(e := None)" for h :: "nat \<Rightarrow> 'v LRUHandle option"
    by (auto simp: without_def)
  note ev' = ev [unfolded c_def alloc_def]
  show "\<not> room_for charge handle s1 \<Longrightarrow> \<not> handle \<Longrightarrow> Shard_Insert e g key hash value charge deleter handle priority s
      = do { s \<leftarrow> free_all (es @ [e]) s1; Some (Status_OK, None, s) }"
    using ev' by (simp add: Shard_Insert_def room_for_def)
  show "\<not> room_for charge handle s1 \<Longrightarrow> handle \<Longrightarrow> Shard_Insert e g key hash value charge deleter handle priority s
      = do { s \<leftarrow> free_all es (s1\<lparr>s_heap := (s_heap s1)\<lparr>hp_handle := without {e} (hp_handle (s_heap s1))\<rparr>\<rparr>);
             Some (Status_Incomplete (cstr ''Insert failed due to LRU cache being full.'') [], None, s) }"
    using ev' by (simp add: Shard_Insert_def room_for_def w)
  show "room_for charge handle s1 \<Longrightarrow> LRUHandleTable_Insert e (s_heap s1) (s_table s1) = Some (old, (s_heap s1)\<lparr>hp_next_hash := nh\<rparr>, t) \<Longrightarrow>
      replace_entry old es (tabled nh t charge s1) = Some (lr, s2) \<Longrightarrow>
      Shard_Insert e g key hash value charge deleter handle priority s
      = (if handle then do { s \<leftarrow> free_all lr s2; Some (Status_OK, Some e, s) }
         else do { s \<leftarrow> LRU_Insert e s2; s \<leftarrow> free_all lr s; Some (Status_OK, None, s) })"
    using ev' by (auto simp: Shard_Insert_def room_for_def tabled_def)
qed

lemma entry_view_cong: "hp_handle H' = hp_handle H \<Longrightarrow> entry_view H' = entry_view H"
  by (simp add: entry_view_def fun_eq_iff)

lemma entry_view_without: "entry_view (H\<lparr>hp_handle := without es h\<rparr>) a = (if a \<in> es then None else entry_view (H\<lparr>hp_handle := h\<rparr>) a)"
  by (simp add: entry_view_def without_def)

lemma deleter_calls_append: "deleter_calls H (xs @ ys) = deleter_calls H xs @ deleter_calls H ys"
  by (simp add: deleter_calls_def)

lemma deleter_calls_cong:
  assumes "\<And>a. a \<in> set es \<Longrightarrow> deleter_call (the (hp_handle H' a)) = deleter_call (the (hp_handle H a))"
  shows "deleter_calls H' es = deleter_calls H es"
  unfolding deleter_calls_def by (intro arg_cong [of _ _ concat] map_cong refl assms)

text \<open>Evicted entries are ready to be freed, and the deleter gets what they held.\<close>

lemma evicted_entries:
  assumes hh: "hp_handle H' = (\<lambda>a. if a = e then Some c else if a \<in> set es
        then map_option (\<lambda>c. (SetInCache False c)\<lparr>h_refs := 0\<rparr>) (hp_handle H a) else hp_handle H a)"
    and es: "set es \<subseteq> allocated H" "e \<notin> set es"
  shows "a \<in> set es \<Longrightarrow> \<exists>d. hp_handle H' a = Some d \<and> free_ok d" "deleter_calls H' es = deleter_calls H es"
proof -
  have ent: "\<exists>d. hp_handle H a = Some d \<and> hp_handle H' a = Some ((SetInCache False d)\<lparr>h_refs := 0\<rparr>)" if "a \<in> set es" for a
  proof -
    have "a \<in> allocated H" "a \<noteq> e" using that es by auto
    then obtain d where "hp_handle H a = Some d" by (auto simp: allocated_def)
    with \<open>a \<noteq> e\<close> that show ?thesis by (simp add: hh)
  qed
  show "a \<in> set es \<Longrightarrow> \<exists>d. hp_handle H' a = Some d \<and> free_ok d" using ent [of a] by (auto simp: free_ok_def)
  show "deleter_calls H' es = deleter_calls H es"
  proof (rule deleter_calls_cong)
    fix a
    assume "a \<in> set es"
    from ent [OF this] show "deleter_call (the (hp_handle H' a)) = deleter_call (the (hp_handle H a))"
      by (auto simp: deleter_call_def)
  qed
qed

text \<open>The end of the function: the entries off the books are freed.\<close>

lemma free_end:
  fixes s :: "'v LRUCacheShard"
  assumes rep: "shard_rep (set es) held lows highs s" and es: "distinct es"
    and ok: "\<And>a. a \<in> set es \<Longrightarrow> \<exists>d. hp_handle (s_heap s) a = Some d \<and> free_ok d"
    and full: "s_usage s > s_capacity s \<Longrightarrow> lows @ highs = []"
  obtains s' where "free_all es s = Some s'" "shard_rep {} held lows highs s'" "shard_inv held s'"
    "entry_view (s_heap s') = (\<lambda>a. if a \<in> set es then None else entry_view (s_heap s) a)"
    "s_deleter_calls s' = s_deleter_calls s @ deleter_calls (s_heap s) es" "s_usage s' = s_usage s"
    "s_capacity s' = s_capacity s" "s_high_pri_pool_ratio s' = s_high_pri_pool_ratio s"
proof -
  from free_all_rep [OF rep subset_refl es ok] obtain s' where s': "free_all es s = Some s'"
      "shard_rep {} held lows highs s'"
      "s' = s\<lparr>s_heap := (s_heap s)\<lparr>hp_handle := without (set es) (hp_handle (s_heap s))\<rparr>,
         s_deleter_calls := s_deleter_calls s @ deleter_calls (s_heap s) es\<rparr>"
    by auto
  have "shard_inv held s'" by (rule shard_invI [OF s'(2)]) (use full in \<open>simp add: s'(3)\<close>)
  from that [OF s'(1,2) this] show thesis by (simp add: s'(3) entry_view_without fun_eq_iff)
qed

lemma Insert_reject:
  fixes s :: "'v LRUCacheShard"
  assumes rep: "shard_rep {} held lows highs s" and e: "e \<notin> allocated (s_heap s)" "e \<noteq> lru_addr"
    and bound: "unat (s_usage s) + unat charge < 2 ^ 64" and full: "\<not> room_for charge handle s"
  obtains k s' where "Shard_Insert e g key hash value charge deleter handle priority s =
      Some (if handle then Status_Incomplete (cstr ''Insert failed due to LRU cache being full.'') [] else Status_OK, None, s')"
    "shard_inv held s'" "evict_count s charge (lows @ highs) k"
    "\<And>a. entry_view (s_heap s') a = (if a \<in> set (take k (lows @ highs)) then None else entry_view (s_heap s) a)"
    "s_deleter_calls s' = s_deleter_calls s @ deleter_calls (s_heap s) (take k (lows @ highs)) @
       (if handle \<or> \<not> deleter then [] else [(key, value)])"
    "s_usage s' \<le> s_usage s" "s_capacity s' = s_capacity s" "s_high_pri_pool_ratio s' = s_high_pri_pool_ratio s"
proof -
  define R where "R = lows @ highs"
  define c where "c = new_handle g key hash value charge deleter handle priority"
  obtain k s1 lows1 highs1 where ev: "EvictFromLRU charge [] (alloc e c s) = Some (take k R, s1)"
    "shard_rep (insert e (set (take k R))) held lows1 highs1 s1" "lows1 @ highs1 = drop k R"
    "params_kept s s1" "evict_count s charge R k" "s_usage s1 \<le> s_usage s"
    "s_usage s1 + charge \<le> s_capacity s \<or> lows1 @ highs1 = []" "room_for charge handle s1 = room_for charge handle s"
    "unat (s_usage s1 + charge) = unat (s_usage s1) + unat charge"
    and hh: "hp_handle (s_heap s1) = (\<lambda>a. if a = e then Some c else if a \<in> set (take k R)
        then map_option (\<lambda>c. (SetInCache False c)\<lparr>h_refs := 0\<rparr>) (hp_handle (s_heap s) a) else hp_handle (s_heap s) a)"
    by (rule alloc_evict [OF rep e bound, where c = c and handle = handle, folded R_def])
  have RA: "a \<in> allocated (s_heap s)" "a \<noteq> e" if "a \<in> set (take k R)" for a
    using shard_repD(2) [OF rep] e(1) that in_set_takeD [OF that] by (auto simp: R_def ring_ok_def)
  have sub: "set (take k R) \<subseteq> allocated (s_heap s)" "e \<notin> set (take k R)" using RA by blast+
  note ok = evicted_entries(1) [OF hh sub] and calls = evicted_entries(2) [OF hh sub]
  have d: "distinct (take k R)" using ring_first(3) [OF rep] by (simp add: R_def del: take_append)
  have v: "entry_view (s_heap s1) a = (if a = e then Some (key, hash, value, charge, deleter, True) else entry_view (s_heap s) a)"
    if "a \<notin> set (take k R)" for a using that by (simp add: entry_view_def hh c_def)
  have v0: "entry_view (s_heap s) e = None" using e(1) by (simp add: entry_view_def allocated_def domIff)
  have fits: "s_usage s1 > s_capacity s1 \<Longrightarrow> lows1 @ highs1 = []"
    using ev(4,7,9) by (auto simp: params_kept_def word_less_nat_alt word_le_nat_alt)
  note full1 = full [folded ev(8)] and un = Shard_Insert_unfold [OF ev(1) [unfolded c_def]]
  note par = ev(4) [unfolded params_kept_def]
  show thesis
  proof (cases handle)
    case True
    define s2 where "s2 = s1\<lparr>s_heap := (s_heap s1)\<lparr>hp_handle := without {e} (hp_handle (s_heap s1))\<rparr>\<rparr>"
    have "shard_rep (insert e (set (take k R)) - {e}) held lows1 highs1 s2"
      by (rule shard_rep_free [OF ev(2)]) (simp_all add: s2_def)
    moreover have "insert e (set (take k R)) - {e} = set (take k R)" using RA(2) by blast
    ultimately have rep2: "shard_rep (set (take k R)) held lows1 highs1 s2" by simp
    have calls2: "deleter_calls (s_heap s2) (take k R) = deleter_calls (s_heap s1) (take k R)"
      by (rule deleter_calls_cong) (use RA(2) in \<open>auto simp: s2_def without_def\<close>)
    obtain s' where s': "free_all (take k R) s2 = Some s'" "shard_rep {} held lows1 highs1 s'" "shard_inv held s'"
        "entry_view (s_heap s') = (\<lambda>a. if a \<in> set (take k R) then None else entry_view (s_heap s2) a)"
        "s_deleter_calls s' = s_deleter_calls s2 @ deleter_calls (s_heap s2) (take k R)" "s_usage s' = s_usage s2"
        "s_capacity s' = s_capacity s2" "s_high_pri_pool_ratio s' = s_high_pri_pool_ratio s2"
      by (rule free_end [OF rep2 d]) (use ok RA(2) fits in \<open>auto simp: s2_def without_def\<close>)
    have run: "Shard_Insert e g key hash value charge deleter handle priority s =
      Some (Status_Incomplete (cstr ''Insert failed due to LRU cache being full.'') [], None, s')"
      using un(2) [OF full1 True] s'(1) by (simp add: s2_def)
    have view: "entry_view (s_heap s') a = (if a \<in> set (take k R) then None else entry_view (s_heap s) a)" for a
      unfolding s'(4) using v [of a] v0 by (simp add: s2_def entry_view_without)
    show thesis
      by (rule that [OF _ s'(3) ev(5) [unfolded R_def] view [unfolded R_def]])
         (use run True s'(5-8) calls calls2 par ev(6) R_def in \<open>simp_all add: s2_def del: take_append\<close>)
  next
    case False
    have nd: "distinct (take k R @ [e])" using d RA(2) by auto
    have rep2: "shard_rep (set (take k R @ [e])) held lows1 highs1 s1" using ev(2) by simp
    have ok2: "\<exists>d. hp_handle (s_heap s1) a = Some d \<and> free_ok d" if "a \<in> set (take k R @ [e])" for a
      using that ok [of a] sub(2) False by (cases "a = e") (simp_all add: hh c_def free_ok_def)
    obtain s' where s': "free_all (take k R @ [e]) s1 = Some s'" "shard_rep {} held lows1 highs1 s'" "shard_inv held s'"
        "entry_view (s_heap s') = (\<lambda>a. if a \<in> set (take k R @ [e]) then None else entry_view (s_heap s1) a)"
        "s_deleter_calls s' = s_deleter_calls s1 @ deleter_calls (s_heap s1) (take k R @ [e])" "s_usage s' = s_usage s1"
        "s_capacity s' = s_capacity s1" "s_high_pri_pool_ratio s' = s_high_pri_pool_ratio s1"
      by (rule free_end [OF rep2 nd ok2 fits])
    have run: "Shard_Insert e g key hash value charge deleter handle priority s = Some (Status_OK, None, s')"
      using un(1) [OF full1 False] s'(1) by simp
    have view: "entry_view (s_heap s') a = (if a \<in> set (take k R) then None else entry_view (s_heap s) a)" for a
      unfolding s'(4) using v [of a] v0 by simp
    have "deleter_calls (s_heap s1) [e] = (if deleter then [(key, value)] else [])"
      by (simp add: deleter_calls_def hh c_def deleter_call_def)
    then show thesis
      by (intro that [OF _ s'(3) ev(5) [unfolded R_def] view [unfolded R_def]])
         (use run False s'(5-8) calls par ev(6) R_def in \<open>simp_all add: deleter_calls_append del: take_append\<close>)
  qed
qed

lemma relinked_calls:
  assumes rel: "relinked H H'"
  shows "hp_handle H a = Some d \<Longrightarrow> free_ok d \<Longrightarrow> \<exists>d. hp_handle H' a = Some d \<and> free_ok d"
    "set es \<subseteq> allocated H \<Longrightarrow> deleter_calls H' es = deleter_calls H es"
proof -
  have ent: "\<exists>d'. hp_handle H' a = Some d' \<and> free_ok d' = free_ok d \<and> deleter_call d' = deleter_call d"
    if h: "hp_handle H a = Some d" for a d
  proof -
    obtain d' where d': "hp_handle H' a = Some d'" "d'\<lparr>h_flags := 0\<rparr> = d\<lparr>h_flags := 0\<rparr>" "InCache d' = InCache d"
      using relinked_handle [OF rel h] by blast
    with same_core_fields [OF d'(2)] show ?thesis by (simp add: free_ok_def deleter_call_def)
  qed
  show "hp_handle H a = Some d \<Longrightarrow> free_ok d \<Longrightarrow> \<exists>d. hp_handle H' a = Some d \<and> free_ok d" using ent by blast
  show "deleter_calls H' es = deleter_calls H es" if "set es \<subseteq> allocated H"
  proof (rule deleter_calls_cong)
    fix a
    assume "a \<in> set es"
    then obtain d where "hp_handle H a = Some d" using \<open>set es \<subseteq> allocated H\<close> by (auto simp: allocated_def)
    with ent [OF this] show "deleter_call (the (hp_handle H' a)) = deleter_call (the (hp_handle H a))" by auto
  qed
qed

text \<open>The entry that was replaced, as far as it is freed at once.\<close>

definition dropped :: "nat option \<Rightarrow> nat multiset \<Rightarrow> nat list" where
  "dropped r held = (case r of None \<Rightarrow> [] | Some a \<Rightarrow> if a \<in># held then [] else [a])"

lemma table_insert:
  fixes s :: "'v LRUCacheShard"
  assumes rep: "shard_rep out held lows highs s" and e: "e \<in> out" "hp_handle (s_heap s) e = Some c" "InCache c"
    and room: "3 * (card (cached out (s_heap s)) + 1) \<le> 2 ^ 32"
  obtains r nh t s2 lows2 highs2 where
    "LRUHandleTable_Insert e (s_heap s) (s_table s) = Some (r, (s_heap s)\<lparr>hp_next_hash := nh\<rparr>, t)"
    "\<forall>a. r = Some a \<longleftrightarrow> a \<notin> out \<and> incache (s_heap s) a \<and> key_of (s_heap s) a = h_key c \<and> hash_of (s_heap s) a = h_hash c"
    "replace_entry r lrl (tabled nh t (h_charge c) s) = Some (lrl @ dropped r held, s2)"
    "pending e (out \<union> set (dropped r held)) held lows2 highs2 s2" "lows2 @ highs2 = filter (\<lambda>a. r \<noteq> Some a) (lows @ highs)"
    "hp_handle (s_heap s2) = (\<lambda>a. if r = Some a then map_option detached (hp_handle (s_heap s) a) else hp_handle (s_heap s) a)"
    "params_kept s s2" "\<exists>d. s_usage s2 = s_usage s + h_charge c - d \<and> d \<le> s_usage s"
    "\<forall>a\<in>set (dropped r held). \<exists>d. hp_handle (s_heap s) a = Some d \<and> h_refs d = 1"
proof -
  let ?H = "s_heap s"
  note result = that
  have nc: "e \<notin> cached out ?H" using e(1) by (simp add: cached_def)
  have nx: "hp_next ?H e \<noteq> Some e" by (rule ring_no_self [OF shard_repD(2) [OF rep] view_at(1) [OF e(2)]])
  from Insert_rep [OF shard_repD(1) [OF rep] nc e(2) nx room] obtain r nh t where ins:
    "LRUHandleTable_Insert e ?H (s_table s) = Some (r, ?H\<lparr>hp_next_hash := nh\<rparr>, t)"
    "\<And>a. r = Some a \<longleftrightarrow> a \<in> cached out ?H \<and> key_of ?H a = h_key c \<and> hash_of ?H a = h_hash c"
    "table_rep (?H\<lparr>hp_next_hash := nh\<rparr>) t (insert e (cached out ?H - set_option r))"
    by blast
  have r: "\<forall>a. r = Some a \<longleftrightarrow> a \<notin> out \<and> incache ?H a \<and> key_of ?H a = h_key c \<and> hash_of ?H a = h_hash c"
    using ins(2) by (auto simp: cached_def)
  show thesis
  proof (cases r)
    case None
    have "pending e out held lows highs (tabled nh t (h_charge c) s)"
      by (rule replace_none [OF rep e]) (use ins(3) None in simp)
    with None show thesis
      by (intro result [OF ins(1) r, of "tabled nh t (h_charge c) s" lows highs])
         (auto simp: dropped_def replace_entry_def tabled_def params_kept_def intro: exI [of _ 0])
  next
    case (Some a)
    then have a0: "a \<notin> out" "incache ?H a" using r by auto
    then obtain d where a: "hp_handle ?H a = Some d" "InCache d" "a \<notin> out"
      by (auto simp: incache_def split: option.splits)
    have t: "table_rep (?H\<lparr>hp_next_hash := nh\<rparr>) t (insert e (cached out ?H - {a}))" using ins(3) Some by simp
    have nr: "filter (\<lambda>b. r \<noteq> Some b) xs = removeAll a xs" for xs by (induction xs) (auto simp: Some)
    show thesis
    proof (cases "a \<in># held")
      case True
      from replace_entry_held [OF rep e a True t] obtain s2 where s2:
        "replace_entry (Some a) lrl (tabled nh t (h_charge c) s) = Some (lrl, s2)" "pending e out held lows highs s2"
        "hp_handle (s_heap s2) = (hp_handle ?H)(a \<mapsto> detached d)" "params_kept s s2" "s_usage s2 = s_usage s + h_charge c"
        by blast
      have "a \<notin> set (lows @ highs)" using live_entry(3) [OF shard_repD(3) [OF rep] a(1,3)] True by simp
      then have "lows @ highs = filter (\<lambda>a. r \<noteq> Some a) (lows @ highs)" unfolding nr by simp
      then show thesis
        by (rule result [OF ins(1) r, of s2 lows highs, rotated 2])
           (use s2 Some True a(1) in \<open>auto simp: dropped_def fun_eq_iff intro: exI [of _ 0]\<close>)
    next
      case False
      from replace_entry_free [OF rep e a False t] obtain s2 where s2:
        "replace_entry (Some a) lrl (tabled nh t (h_charge c) s) = Some (lrl @ [a], s2)"
        "pending e (insert a out) held (removeAll a lows) (removeAll a highs) s2"
        "hp_handle (s_heap s2) = (hp_handle ?H)(a \<mapsto> detached d)" "params_kept s s2"
        "s_usage s2 = s_usage s + h_charge c - h_charge d" "h_refs d = 1" "h_charge d \<le> s_usage s"
        by blast
      have "removeAll a lows @ removeAll a highs = filter (\<lambda>a. r \<noteq> Some a) (lows @ highs)" unfolding nr by simp
      then show thesis
        by (rule result [OF ins(1) r, of s2 "removeAll a lows" "removeAll a highs", rotated 2])
           (use s2 Some False a(1) in \<open>auto simp: dropped_def fun_eq_iff\<close>)
    qed
  qed
qed

text \<open>
  The first half of an accepted \<open>Insert\<close>: from the eviction to the point where the entry it
  replaces is dealt with. \<open>es\<close> are the entries that are freed at the end.
\<close>

lemma Insert_prepare:
  fixes s :: "'v LRUCacheShard"
  assumes rep: "shard_rep {} held lows highs s" and e: "e \<notin> allocated (s_heap s)" "e \<noteq> lru_addr"
    and bound: "unat (s_usage s) + unat charge < 2 ^ 64" and room: "room_for charge handle s"
    and few: "3 * (card (cached {} (s_heap s)) + 1) \<le> 2 ^ 32"
    and c: "c = new_handle g key hash value charge deleter handle priority"
  obtains k r es s2 lows2 highs2 where
    "Shard_Insert e g key hash value charge deleter handle priority s
      = (if handle then do { s \<leftarrow> free_all es s2; Some (Status_OK, Some e, s) }
         else do { s \<leftarrow> LRU_Insert e s2; s \<leftarrow> free_all es s; Some (Status_OK, None, s) })"
    "pending e (insert e (set es)) held lows2 highs2 s2" "hp_handle (s_heap s2) e = Some c"
    "es = take k (lows @ highs) @ dropped r held" "distinct es" "set es \<subseteq> allocated (s_heap s)"
    "evict_count s charge (lows @ highs) k"
    "\<forall>a. r = Some a \<longleftrightarrow> a \<notin> set (take k (lows @ highs)) \<and> incache (s_heap s) a \<and> key_of (s_heap s) a = key \<and> hash_of (s_heap s) a = hash"
    "lows2 @ highs2 = filter (\<lambda>a. r \<noteq> Some a) (drop k (lows @ highs))" "params_kept s s2"
    "unat (s_usage s2) \<le> unat (s_usage s) + unat charge" "charge \<le> s_usage s2"
    "s_usage s2 > s_capacity s2 \<Longrightarrow> handle \<and> \<not> s_strict_capacity_limit s \<and> lows2 @ highs2 = []"
    "\<forall>a\<in>set es. \<exists>d. hp_handle (s_heap s2) a = Some d \<and> free_ok d"
    "deleter_calls (s_heap s2) es = deleter_calls (s_heap s) es"
    "\<forall>a. a \<notin> set es \<longrightarrow> entry_view (s_heap s2) a = (if a = e then Some (key, hash, value, charge, deleter, True)
       else if r = Some a then map_option (\<lambda>(k, h, v, c, d, _). (k, h, v, c, d, False)) (entry_view (s_heap s) a)
       else entry_view (s_heap s) a)"
proof -
  note result = that
  define R where "R = lows @ highs"
  obtain k s1 lows1 highs1 where ev: "EvictFromLRU charge [] (alloc e c s) = Some (take k R, s1)"
    "shard_rep (insert e (set (take k R))) held lows1 highs1 s1" "lows1 @ highs1 = drop k R"
    "params_kept s s1" "evict_count s charge R k" "s_usage s1 \<le> s_usage s"
    "s_usage s1 + charge \<le> s_capacity s \<or> lows1 @ highs1 = []" "room_for charge handle s1 = room_for charge handle s"
    "unat (s_usage s1 + charge) = unat (s_usage s1) + unat charge"
    and hh: "hp_handle (s_heap s1) = (\<lambda>a. if a = e then Some c else if a \<in> set (take k R)
        then map_option (\<lambda>c. (SetInCache False c)\<lparr>h_refs := 0\<rparr>) (hp_handle (s_heap s) a) else hp_handle (s_heap s) a)"
    by (rule alloc_evict [OF rep e bound, where c = c and handle = handle, folded R_def])
  let ?out = "insert e (set (take k R))"
  have RA: "set R \<subseteq> allocated (s_heap s)" using shard_repD(2) [OF rep] by (simp add: R_def ring_ok_def)
  have sub: "set (take k R) \<subseteq> allocated (s_heap s)" "e \<notin> set (take k R)"
    using RA e(1) set_take_subset [of k R] by blast+
  have ce: "hp_handle (s_heap s1) e = Some c" "InCache c" by (simp_all add: hh c)
  have "cached ?out (s_heap s1) \<subseteq> cached {} (s_heap s)"
    by (auto simp: cached_def incache_def hh)
  moreover have "finite (cached {} (s_heap s))" using shard_repD(1) [OF rep] by (simp add: table_rep_def)
  ultimately have few1: "3 * (card (cached ?out (s_heap s1)) + 1) \<le> 2 ^ 32"
    using few card_mono by (meson add_le_mono1 le_trans mult_le_mono2)
  obtain r nh t s2 lows2 highs2 where ti:
    "LRUHandleTable_Insert e (s_heap s1) (s_table s1) = Some (r, (s_heap s1)\<lparr>hp_next_hash := nh\<rparr>, t)"
    "\<forall>a. r = Some a \<longleftrightarrow> a \<notin> ?out \<and> incache (s_heap s1) a \<and> key_of (s_heap s1) a = h_key c \<and> hash_of (s_heap s1) a = h_hash c"
    "replace_entry r (take k R) (tabled nh t (h_charge c) s1) = Some (take k R @ dropped r held, s2)"
    "pending e (?out \<union> set (dropped r held)) held lows2 highs2 s2" "lows2 @ highs2 = filter (\<lambda>a. r \<noteq> Some a) (lows1 @ highs1)"
    "hp_handle (s_heap s2) = (\<lambda>a. if r = Some a then map_option detached (hp_handle (s_heap s1) a) else hp_handle (s_heap s1) a)"
    "params_kept s1 s2" "\<exists>d. s_usage s2 = s_usage s1 + h_charge c - d \<and> d \<le> s_usage s1"
    "\<forall>a\<in>set (dropped r held). \<exists>d. hp_handle (s_heap s1) a = Some d \<and> h_refs d = 1"
    by (rule table_insert [OF ev(2) _ ce few1, of "take k R"]) auto
  have r: "\<forall>a. r = Some a \<longleftrightarrow> a \<notin> set (take k R) \<and> incache (s_heap s) a \<and> key_of (s_heap s) a = key \<and> hash_of (s_heap s) a = hash"
  proof
    fix a
    have "a \<noteq> e" if "incache (s_heap s) a"
      using that e(1) by (auto simp: incache_def allocated_def split: option.splits)
    then show "r = Some a \<longleftrightarrow> a \<notin> set (take k R) \<and> incache (s_heap s) a \<and> key_of (s_heap s) a = key \<and> hash_of (s_heap s) a = hash"
      using ti(2) by (auto simp: incache_def key_of_def hash_of_def hh c)
  qed
  define es where "es = take k R @ dropped r held"
  have old: "a \<notin> ?out" "a \<in> allocated (s_heap s)" if "r = Some a" for a
    using that ti(2) by (auto simp: incache_def allocated_def hh split: option.splits if_splits)
  have dr: "r = Some a" if "a \<in> set (dropped r held)" for a
    using that by (auto simp: dropped_def split: option.splits if_splits)
  have out: "?out \<union> set (dropped r held) - {e} = set es"
    using sub(2) dr old(1) by (auto simp: es_def)
  have "distinct (take k R)" using ring_first(3) [OF rep] by (simp only: R_def [symmetric] distinct_take)
  moreover have "distinct (dropped r held)" by (simp add: dropped_def split: option.split)
  moreover have "set (take k R) \<inter> set (dropped r held) = {}" using dr old(1) by auto
  ultimately have d: "distinct es" by (simp add: es_def)
  have esA: "set es \<subseteq> allocated (s_heap s)" using sub(1) dr old(2) by (auto simp: es_def)
  have h2: "hp_handle (s_heap s2) e = Some c" using ti(6) ce old(1) by auto
  have ch: "h_charge c = charge" by (simp add: c)
  obtain x where x: "s_usage s2 = s_usage s1 + charge - x" "x \<le> s_usage s1" using ti(8) unfolding ch by blast
  then have "x \<le> s_usage s1 + charge" using ev(9) by (simp add: word_le_nat_alt)
  then have "unat (s_usage s2) = unat (s_usage s1) + unat charge - unat x" by (simp add: x(1) unat_sub_le ev(9))
  then have u: "unat (s_usage s2) \<le> unat (s_usage s1) + unat charge" "charge \<le> s_usage s2"
    using x(2) by (simp_all add: word_le_nat_alt)
  have fits: "lows1 @ highs1 = [] \<and> handle \<and> \<not> s_strict_capacity_limit s" if over: "s_usage s2 > s_capacity s2"
  proof -
    have big: "\<not> s_usage s1 + charge \<le> s_capacity s"
      using over ev(4,9) ti(7) u(1) by (auto simp: params_kept_def word_less_nat_alt word_le_nat_alt)
    then have none: "lows1 @ highs1 = []" using ev(7) by blast
    then have "s_lru_usage s1 = 0" using booksD(7) [OF shard_repD(3) [OF ev(2)]] by (simp add: unat_eq_zero)
    then show ?thesis using room [folded ev(8)] big none ev(4) by (auto simp: room_for_def params_kept_def not_less)
  qed
  have ok: "\<exists>d. hp_handle (s_heap s2) a = Some d \<and> free_ok d" if "a \<in> set es" for a
  proof (cases "a \<in> set (take k R)")
    case True
    then have "r \<noteq> Some a" using old(1) by blast
    with evicted_entries(1) [OF hh sub True] show ?thesis by (simp add: ti(6))
  next
    case False
    with that have a: "a \<in> set (dropped r held)" by (simp add: es_def)
    then obtain d where d: "hp_handle (s_heap s1) a = Some d" "h_refs d = 1" using ti(9) by blast
    then show ?thesis using dr [OF a] by (simp add: ti(6) free_ok_def)
  qed
  have calls: "deleter_calls (s_heap s2) es = deleter_calls (s_heap s) es"
  proof -
    have "deleter_calls (s_heap s2) es = deleter_calls (s_heap s1) es"
    proof (rule deleter_calls_cong)
      fix a
      assume "a \<in> set es"
      with ok obtain d where "hp_handle (s_heap s2) a = Some d" by blast
      then show "deleter_call (the (hp_handle (s_heap s2) a)) = deleter_call (the (hp_handle (s_heap s1) a))"
        by (auto simp: ti(6) deleter_call_def split: if_splits)
    qed
    moreover have "deleter_calls (s_heap s1) (dropped r held) = deleter_calls (s_heap s) (dropped r held)"
      by (rule deleter_calls_cong) (use dr old(1) in \<open>auto simp: hh\<close>)
    ultimately show ?thesis
      using evicted_entries(2) [OF hh sub] by (simp add: es_def deleter_calls_append)
  qed
  have view: "entry_view (s_heap s2) a = (if a = e then Some (key, hash, value, charge, deleter, True)
       else if r = Some a then map_option (\<lambda>(k, h, v, c, d, _). (k, h, v, c, d, False)) (entry_view (s_heap s) a)
       else entry_view (s_heap s) a)" if "a \<notin> set es" for a
    using that old(1) [of a] ce
    by (cases "hp_handle (s_heap s) a") (auto simp: entry_view_def ti(6) hh es_def c)
  have un: "Shard_Insert e g key hash value charge deleter handle priority s
      = (if handle then do { s \<leftarrow> free_all es s2; Some (Status_OK, Some e, s) }
         else do { s \<leftarrow> LRU_Insert e s2; s \<leftarrow> free_all es s; Some (Status_OK, None, s) })"
    unfolding es_def
    by (rule Shard_Insert_unfold(3) [OF ev(1) [unfolded c] _ ti(1) ti(3) [unfolded ch]]) (use room ev(8) in simp)
  have out': "?out \<union> set (dropped r held) = insert e (set es)" by (auto simp: es_def)
  show thesis
  proof (rule result [OF un ti(4) [unfolded out'] h2 es_def [unfolded R_def] d esA ev(5) [unfolded R_def] r [unfolded R_def]])
    show "lows2 @ highs2 = filter (\<lambda>a. r \<noteq> Some a) (drop k (lows @ highs))" using ti(5) ev(3) by (simp only: R_def)
    show "params_kept s s2" by (rule params_kept_trans [OF ev(4) ti(7)])
    show "unat (s_usage s2) \<le> unat (s_usage s) + unat charge" using u(1) ev(6) by (simp add: word_le_nat_alt)
    show "s_usage s2 > s_capacity s2 \<Longrightarrow> handle \<and> \<not> s_strict_capacity_limit s \<and> lows2 @ highs2 = []"
      using fits ti(5) by simp
  qed (use u(2) ok calls view in blast)+
qed

lemma Insert_accept:
  fixes s :: "'v LRUCacheShard"
  assumes rep: "shard_rep {} held lows highs s" and e: "e \<notin> allocated (s_heap s)" "e \<noteq> lru_addr"
    and bound: "unat (s_usage s) + unat charge < 2 ^ 64" and room: "room_for charge handle s"
    and few: "3 * (card (cached {} (s_heap s)) + 1) \<le> 2 ^ 32"
  obtains k r s' lows' highs' where
    "Shard_Insert e g key hash value charge deleter handle priority s = Some (Status_OK, if handle then Some e else None, s')"
    "shard_rep {} (if handle then add_mset e held else held) lows' highs' s'" "s_usage s' > s_capacity s' \<Longrightarrow> lows' @ highs' = []"
    "evict_count s charge (lows @ highs) k"
    "\<forall>a. r = Some a \<longleftrightarrow> a \<notin> set (take k (lows @ highs)) \<and> incache (s_heap s) a \<and> key_of (s_heap s) a = key \<and> hash_of (s_heap s) a = hash"
    "entry_view (s_heap s') = (\<lambda>a. if a = e then Some (key, hash, value, charge, deleter, True)
       else if a \<in> set (take k (lows @ highs) @ dropped r held) then None
       else if r = Some a then map_option (\<lambda>(k, h, v, c, d, _). (k, h, v, c, d, False)) (entry_view (s_heap s) a)
       else entry_view (s_heap s) a)"
    "s_deleter_calls s' = s_deleter_calls s @ deleter_calls (s_heap s) (take k (lows @ highs) @ dropped r held)"
    "unat (s_usage s') \<le> unat (s_usage s) + unat charge" "s_capacity s' = s_capacity s"
    "s_high_pri_pool_ratio s' = s_high_pri_pool_ratio s"
    "handle \<and> \<not> s_strict_capacity_limit s \<or> s_usage s' \<le> s_capacity s'"
    "if handle then lows' @ highs' = filter (\<lambda>a. r \<noteq> Some a) (drop k (lows @ highs))
     else \<exists>lows2 highs2. lows2 @ highs2 = filter (\<lambda>a. r \<noteq> Some a) (drop k (lows @ highs)) \<and>
       linked_last (s_high_pri_pool_ratio s > 0 \<and> priority = HIGH) e lows2 highs2 lows' highs'"
proof -
  note result = that
  define R where "R = lows @ highs"
  define c where "c = new_handle g key hash value charge deleter handle priority"
  obtain k r es s2 lows2 highs2 where p:
    "Shard_Insert e g key hash value charge deleter handle priority s
      = (if handle then do { s \<leftarrow> free_all es s2; Some (Status_OK, Some e, s) }
         else do { s \<leftarrow> LRU_Insert e s2; s \<leftarrow> free_all es s; Some (Status_OK, None, s) })"
    "pending e (insert e (set es)) held lows2 highs2 s2" "hp_handle (s_heap s2) e = Some c"
    "es = take k (lows @ highs) @ dropped r held" "distinct es" "set es \<subseteq> allocated (s_heap s)"
    "evict_count s charge (lows @ highs) k"
    "\<forall>a. r = Some a \<longleftrightarrow> a \<notin> set (take k (lows @ highs)) \<and> incache (s_heap s) a \<and> key_of (s_heap s) a = key \<and> hash_of (s_heap s) a = hash"
    "lows2 @ highs2 = filter (\<lambda>a. r \<noteq> Some a) (drop k (lows @ highs))" "params_kept s s2"
    "unat (s_usage s2) \<le> unat (s_usage s) + unat charge" "charge \<le> s_usage s2"
    "s_usage s2 > s_capacity s2 \<Longrightarrow> handle \<and> \<not> s_strict_capacity_limit s \<and> lows2 @ highs2 = []"
    "\<forall>a\<in>set es. \<exists>d. hp_handle (s_heap s2) a = Some d \<and> free_ok d"
    "deleter_calls (s_heap s2) es = deleter_calls (s_heap s) es"
    "\<forall>a. a \<notin> set es \<longrightarrow> entry_view (s_heap s2) a = (if a = e then Some (key, hash, value, charge, deleter, True)
       else if r = Some a then map_option (\<lambda>(k, h, v, c, d, _). (k, h, v, c, d, False)) (entry_view (s_heap s) a)
       else entry_view (s_heap s) a)"
    by (rule Insert_prepare [OF rep e bound room few c_def]) (rule that; assumption)
  have fin: thesis
    if s3: "shard_rep (set es) (if handle then add_mset e held else held) lows3 highs3 s3" "relinked (s_heap s2) (s_heap s3)"
        "params_kept s2 s3" "s_usage s3 = s_usage s2" "s_usage s2 > s_capacity s2 \<Longrightarrow> lows3 @ highs3 = []"
      and run: "\<And>s'. free_all es s3 = Some s' \<Longrightarrow> Shard_Insert e g key hash value charge deleter handle priority s =
        Some (Status_OK, if handle then Some e else None, s')"
      and ring: "if handle then lows3 @ highs3 = filter (\<lambda>a. r \<noteq> Some a) (drop k R)
        else \<exists>lows2 highs2. lows2 @ highs2 = filter (\<lambda>a. r \<noteq> Some a) (drop k R) \<and>
          linked_last (s_high_pri_pool_ratio s > 0 \<and> priority = HIGH) e lows2 highs2 lows3 highs3" for s3 lows3 highs3
  proof -
    have ok3: "\<exists>d. hp_handle (s_heap s3) a = Some d \<and> free_ok d" if "a \<in> set es" for a
      using p(14) that relinked_calls(1) [OF s3(2)] by blast
    have "set es \<subseteq> allocated (s_heap s2)" using p(14) by (auto simp: allocated_def)
    then have calls3: "deleter_calls (s_heap s3) es = deleter_calls (s_heap s) es"
      using relinked_calls(2) [OF s3(2)] p(15) by simp
    have fits3: "s_usage s3 > s_capacity s3 \<Longrightarrow> lows3 @ highs3 = []" using s3(3-5) by (simp add: params_kept_def)
    obtain s' where s': "free_all es s3 = Some s'" "shard_rep {} (if handle then add_mset e held else held) lows3 highs3 s'"
        "shard_inv (if handle then add_mset e held else held) s'"
        "entry_view (s_heap s') = (\<lambda>a. if a \<in> set es then None else entry_view (s_heap s3) a)"
        "s_deleter_calls s' = s_deleter_calls s3 @ deleter_calls (s_heap s3) es" "s_usage s' = s_usage s3"
        "s_capacity s' = s_capacity s3" "s_high_pri_pool_ratio s' = s_high_pri_pool_ratio s3"
      by (rule free_end [OF s3(1) p(5) ok3 fits3])
    have par: "params_kept s s3" by (rule params_kept_trans [OF p(10) s3(3)])
    have ees: "e \<notin> set es" using p(6) e(1) by blast
    have view': "entry_view (s_heap s') = (\<lambda>a. if a = e then Some (key, hash, value, charge, deleter, True)
       else if a \<in> set (take k R @ dropped r held) then None
       else if r = Some a then map_option (\<lambda>(k, h, v, c, d, _). (k, h, v, c, d, False)) (entry_view (s_heap s) a)
       else entry_view (s_heap s) a)"
      unfolding s'(4) relinked_entry_view [OF s3(2)] p(4) [folded R_def, symmetric] using p(16) ees by (auto simp: fun_eq_iff)
    show thesis
    proof (rule result [OF run [OF s'(1)] s'(2) _ p(7,8) view' [unfolded R_def] _ _ _ _ _ ring [unfolded R_def]])
      show "s_usage s' > s_capacity s' \<Longrightarrow> lows3 @ highs3 = []" using fits3 s'(6,7) by simp
      show "s_deleter_calls s' = s_deleter_calls s @ deleter_calls (s_heap s) (take k (lows @ highs) @ dropped r held)"
        using s'(5) calls3 par by (simp add: p(4) params_kept_def)
      show "unat (s_usage s') \<le> unat (s_usage s) + unat charge"
        using s'(6) s3(4) p(11) by simp
      show "s_capacity s' = s_capacity s" "s_high_pri_pool_ratio s' = s_high_pri_pool_ratio s"
        using s'(7,8) par by (simp_all add: params_kept_def)
      show "handle \<and> \<not> s_strict_capacity_limit s \<or> s_usage s' \<le> s_capacity s'"
        using p(13) s'(6,7) s3(3,4) by (cases "s_capacity s2 < s_usage s2") (simp_all add: params_kept_def not_less)
    qed
  qed
  have "e \<notin> set es" using p(6) e(1) by blast
  then have out: "insert e (set es) - {e} = set es" by auto
  have ch: "h_charge c \<le> s_usage s2" using p(12) by (simp add: c_def)
  show thesis
  proof (cases handle)
    case True
    have "shard_rep (set es) (add_mset e held) lows2 highs2 s2"
      using admit_held [OF p(2,3) _ ch] True unfolding out by (simp add: c_def)
    then show thesis
      by (intro fin [of lows2 highs2 s2]) (use True p(1,9,13) in \<open>simp_all add: params_kept_def R_def\<close>)
  next
    case False
    obtain s3 lows3 highs3 where s3: "LRU_Insert e s2 = Some s3" "shard_rep (set es) held lows3 highs3 s3"
        "relinked (s_heap s2) (s_heap s3)" "params_kept s2 s3" "s_usage s3 = s_usage s2"
        "linked_last (s_high_pri_pool_ratio s2 > 0 \<and> IsHighPri c) e lows2 highs2 lows3 highs3"
      by (rule admit_lru [OF p(2,3) _ ch, unfolded out]) (use False in \<open>simp_all add: c_def\<close>)
    have "s_high_pri_pool_ratio s2 = s_high_pri_pool_ratio s" "IsHighPri c \<longleftrightarrow> priority = HIGH"
      using p(10) by (simp_all add: params_kept_def c_def)
    with s3(6) p(9) have ring: "\<exists>lows2 highs2. lows2 @ highs2 = filter (\<lambda>a. r \<noteq> Some a) (drop k R) \<and>
          linked_last (s_high_pri_pool_ratio s > 0 \<and> priority = HIGH) e lows2 highs2 lows3 highs3"
      unfolding R_def by (intro exI [of _ lows2] exI [of _ highs2]) simp
    show thesis
      by (rule fin [of lows3 highs3 s3]) (use False p(1,13) s3 ring in simp_all)
  qed
qed

end
