(* ===== verification/LruClient.thy ===== *)
theory LruClient
  imports LruInsert
begin

text \<open>
  A client of one shard: any sequence of operations in which only handles that are held are
  released, memory for a new entry is fresh, and the counters do not overflow. Every state
  such a client reaches satisfies the invariant, and every operation returns in it.
\<close>

subsection \<open>The operations as a client calls them\<close>

datatype 'v shard_op =
    OpInsert nat byte bytes u32 'v u64 bool bool Priority
  | OpLookup bytes u32
  | OpRelease nat
  | OpErase bytes u32
  | OpSetCapacity u64
  | OpSetStrictCapacityLimit bool
  | OpSetHighPriorityPoolRatio rat
  | OpEraseUnRefEntries

text \<open>The handles that are held change with the results.\<close>

fun shard_run :: "'v shard_op \<Rightarrow> nat multiset \<times> 'v LRUCacheShard \<Rightarrow> (nat multiset \<times> 'v LRUCacheShard) option" where
  "shard_run (OpInsert e g key hash value charge deleter handle priority) (held, s) = do {
     (_, r, s) \<leftarrow> Shard_Insert e g key hash value charge deleter handle priority s;
     Some (case r of None \<Rightarrow> held | Some a \<Rightarrow> add_mset a held, s)
   }"
| "shard_run (OpLookup key hash) (held, s) = do {
     (r, s) \<leftarrow> Shard_Lookup key hash s;
     Some (case r of None \<Rightarrow> held | Some a \<Rightarrow> add_mset a held, s)
   }"
| "shard_run (OpRelease e) (held, s) = do { s \<leftarrow> Shard_Release (Some e) s; Some (held - {#e#}, s) }"
| "shard_run (OpErase key hash) (held, s) = do { s \<leftarrow> Shard_Erase key hash s; Some (held, s) }"
| "shard_run (OpSetCapacity capacity) (held, s) = do { s \<leftarrow> SetCapacity capacity s; Some (held, s) }"
| "shard_run (OpSetStrictCapacityLimit strict) (held, s) = Some (held, SetStrictCapacityLimit strict s)"
| "shard_run (OpSetHighPriorityPoolRatio ratio) (held, s) =
     do { s \<leftarrow> SetHighPriorityPoolRatio ratio s; Some (held, s) }"
| "shard_run OpEraseUnRefEntries (held, s) = do { s \<leftarrow> EraseUnRefEntries s; Some (held, s) }"

definition entries :: "'v LRUCacheShard \<Rightarrow> nat set" where
  "entries s = {a. incache (s_heap s) a}"

fun client_ok :: "'v shard_op \<Rightarrow> nat multiset \<times> 'v LRUCacheShard \<Rightarrow> bool" where
  "client_ok (OpInsert e g key hash value charge deleter handle priority) (held, s) \<longleftrightarrow>
     hp_handle (s_heap s) e = None \<and> e \<noteq> lru_addr \<and> unat (s_usage s) + unat charge < 2 ^ 64 \<and>
     3 * (card (entries s) + 1) \<le> 2 ^ 32"
| "client_ok (OpLookup key hash) (held, s) \<longleftrightarrow> size held < 2 ^ 32 - 2"
| "client_ok (OpRelease e) (held, s) \<longleftrightarrow> e \<in># held"
| "client_ok (OpSetHighPriorityPoolRatio ratio) (held, s) \<longleftrightarrow> 0 \<le> ratio"
| "client_ok _ _ \<longleftrightarrow> True"

inductive shard_step :: "nat multiset \<times> 'v LRUCacheShard \<Rightarrow> nat multiset \<times> 'v LRUCacheShard \<Rightarrow> bool" where
  step: "client_ok op x \<Longrightarrow> shard_run op x = Some y \<Longrightarrow> shard_step x y"

inductive_cases shard_stepE: "shard_step x y"

inductive reachable :: "nat multiset \<times> 'v LRUCacheShard \<Rightarrow> bool" where
  reach_init: "LRUCacheShard_init capacity strict ratio pool_capacity = Some s \<Longrightarrow> 0 \<le> ratio \<Longrightarrow> 0 \<le> pool_capacity \<Longrightarrow>
    reachable ({#}, s)"
| reach_step: "reachable x \<Longrightarrow> shard_step x y \<Longrightarrow> reachable y"

definition client_inv :: "nat multiset \<times> 'v LRUCacheShard \<Rightarrow> bool" where
  "client_inv x \<longleftrightarrow> shard_inv (fst x) (snd x) \<and> 0 \<le> s_high_pri_pool_ratio (snd x)"

subsection \<open>Insert under the invariant\<close>

lemma entries_cached: "cached {} (s_heap s) = entries s"
  by (simp add: cached_def entries_def)

lemma Shard_Insert_inv:
  fixes s :: "'v LRUCacheShard"
  assumes inv: "shard_inv held s" and e: "hp_handle (s_heap s) e = None" "e \<noteq> lru_addr"
    and bound: "unat (s_usage s) + unat charge < 2 ^ 64" and few: "3 * (card (entries s) + 1) \<le> 2 ^ 32"
  obtains st r s' where "Shard_Insert e g key hash value charge deleter handle priority s = Some (st, r, s')"
    "shard_inv (case r of None \<Rightarrow> held | Some a \<Rightarrow> add_mset a held) s'"
    "s_high_pri_pool_ratio s' = s_high_pri_pool_ratio s"
proof -
  from inv obtain lows highs where rep: "shard_rep {} held lows highs s" by (auto elim: shard_invE)
  have e': "e \<notin> allocated (s_heap s)" using e(1) by (simp add: allocated_def domIff)
  show thesis
  proof (cases "room_for charge handle s")
    case True
    note few' = few [folded entries_cached]
    show thesis
    proof (rule Insert_accept [OF rep e' e(2) bound True few', of g key hash "value" deleter priority])
      fix k r s' lows' highs'
      assume run: "Shard_Insert e g key hash value charge deleter handle priority s =
          Some (Status_OK, if handle then Some e else None, s')"
        and "shard_rep {} (if handle then add_mset e held else held) lows' highs' s'"
        and "s_capacity s' < s_usage s' \<Longrightarrow> lows' @ highs' = []" and ratio: "s_high_pri_pool_ratio s' = s_high_pri_pool_ratio s"
      then have "shard_inv (if handle then add_mset e held else held) s'" by (intro shard_invI)
      then show thesis using ratio by (intro that [OF run]) (cases handle; simp)+
    qed
  next
    case False
    show thesis
      by (rule Insert_reject [OF rep e' e(2) bound False, of g key hash "value" deleter priority]) (rule that, assumption, simp_all)
  qed
qed

lemma client_step:
  assumes "client_inv x" and "client_ok op x"
  shows "\<exists>y. shard_run op x = Some y \<and> client_inv y"
proof -
  obtain held s where x: "x = (held, s)" by (cases x)
  with assms have inv: "shard_inv held s" and ratio: "0 \<le> s_high_pri_pool_ratio s" and ok: "client_ok op (held, s)"
    by (simp_all add: client_inv_def)
  show ?thesis
  proof (cases op)
    case (OpInsert e g key hash "value" charge deleter handle priority)
    with ok have i: "hp_handle (s_heap s) e = None" "e \<noteq> lru_addr" "unat (s_usage s) + unat charge < 2 ^ 64"
        "3 * (card (entries s) + 1) \<le> 2 ^ 32" by simp_all
    from Shard_Insert_inv [OF inv i] obtain st r s' where
      "Shard_Insert e g key hash value charge deleter handle priority s = Some (st, r, s')"
      "shard_inv (case r of None \<Rightarrow> held | Some a \<Rightarrow> add_mset a held) s'" "s_high_pri_pool_ratio s' = s_high_pri_pool_ratio s"
      by blast
    then show ?thesis using ratio x OpInsert by (simp add: client_inv_def)
  next
    case (OpLookup key hash)
    with ok have "size held < 2 ^ 32 - 2" by simp
    from Shard_Lookup_law [OF inv this, of key hash] obtain r s' where
      "Shard_Lookup key hash s = Some (r, s')" "shard_inv (case r of None \<Rightarrow> held | Some e \<Rightarrow> add_mset e held) s'"
      "s_high_pri_pool_ratio s' = s_high_pri_pool_ratio s" by metis
    then show ?thesis using ratio x OpLookup by (simp add: client_inv_def)
  next
    case (OpRelease e)
    with ok have "e \<in># held" by simp
    from Shard_Release_law [OF inv this] obtain s' where
      "Shard_Release (Some e) s = Some s'" "shard_inv (held - {#e#}) s'" "s_high_pri_pool_ratio s' = s_high_pri_pool_ratio s"
      by metis
    then show ?thesis using ratio x OpRelease by (simp add: client_inv_def)
  next
    case (OpErase key hash)
    from Shard_Erase_law [OF inv, of key hash] obtain s' where
      "Shard_Erase key hash s = Some s'" "shard_inv held s'" "s_high_pri_pool_ratio s' = s_high_pri_pool_ratio s"
      by metis
    then show ?thesis using ratio x OpErase by (simp add: client_inv_def)
  next
    case (OpSetCapacity capacity)
    from inv obtain lows highs where rep: "shard_rep {} held lows highs s" by (auto elim: shard_invE)
    from SetCapacity_law [OF rep ratio, of capacity] obtain s' where
      "SetCapacity capacity s = Some s'" "shard_inv held s'" "s_high_pri_pool_ratio s' = s_high_pri_pool_ratio s"
      by metis
    then show ?thesis using ratio x OpSetCapacity by (simp add: client_inv_def)
  next
    case (OpSetStrictCapacityLimit strict)
    then show ?thesis using ratio x SetStrictCapacityLimit_inv [OF inv]
      by (simp add: client_inv_def SetStrictCapacityLimit_def)
  next
    case (OpSetHighPriorityPoolRatio r)
    with ok have "0 \<le> r" by simp
    from SetHighPriorityPoolRatio_law [OF inv this] obtain s' where
      "SetHighPriorityPoolRatio r s = Some s'" "shard_inv held s'" "s_high_pri_pool_ratio s' = r"
      by metis
    then show ?thesis using \<open>0 \<le> r\<close> x OpSetHighPriorityPoolRatio by (simp add: client_inv_def)
  next
    case OpEraseUnRefEntries
    from EraseUnRefEntries_law [OF inv] obtain s' where
      "EraseUnRefEntries s = Some s'" "shard_inv held s'" "s_high_pri_pool_ratio s' = s_high_pri_pool_ratio s"
      by metis
    then show ?thesis using ratio x OpEraseUnRefEntries by (simp add: client_inv_def)
  qed
qed

lemma reachable_inv: "reachable x \<Longrightarrow> client_inv x"
proof (induction rule: reachable.induct)
  case (reach_init capacity strict ratio pool_capacity s)
  obtain s0 :: "'a LRUCacheShard" where s0: "LRUCacheShard_init capacity strict ratio pool_capacity = Some s0" "shard_inv {#} s0"
    by (rule LRUCacheShard_init_inv [OF reach_init(3), of capacity strict ratio])
  with reach_init(1) have "s0 = s" by simp
  moreover have "s_high_pri_pool_ratio s = ratio"
    using reach_init(1) by (auto simp: LRUCacheShard_init_def bind_eq_Some_conv)
  ultimately show ?case using s0(2) reach_init(2) by (simp add: client_inv_def)
next
  case (reach_step x y)
  from reach_step.hyps(2) obtain op where "client_ok op x" "shard_run op x = Some y" by (rule shard_stepE)
  with client_step [OF reach_step.IH] show ?case by (metis option.inject)
qed

subsection \<open>The loop over the table\<close>

text \<open>\<open>I s es\<close>: in state \<open>s\<close>, the entries \<open>es\<close> are still to be visited.\<close>

lemma Apply_chain_law:
  assumes "path nh p es" and "I s (es @ rest)"
    and I: "\<And>s e es. I s (e # es) \<Longrightarrow> hp_next_hash (heap_of s) = nh \<and> (\<exists>c. hp_handle (heap_of s) e = Some c \<and> InCache c) \<and>
      (\<exists>s'. func e s = Some s' \<and> I s' es)"
  shows "\<exists>s'. Apply_chain heap_of func p s = Some s' \<and> I s' rest"
  using assms(1,2)
proof (induction es arbitrary: p s)
  case Nil
  then show ?case by (simp add: Apply_chain.simps)
next
  case (Cons e es)
  from I [of s e "es @ rest"] Cons.prems(2) obtain c s1 where one: "hp_next_hash (heap_of s) = nh"
      "hp_handle (heap_of s) e = Some c" "InCache c" "func e s = Some s1" "I s1 (es @ rest)"
    by auto
  from Cons.IH [OF _ one(5), of "nh e"] Cons.prems(1) obtain s' where "Apply_chain heap_of func (nh e) s1 = Some s'" "I s' rest"
    by auto
  with one Cons.prems(1) show ?case by (simp add: Apply_chain.simps [of heap_of func "Some e" s])
qed

lemma Apply_buckets_law:
  assumes "list_all2 (path nh) ps ess" and "I s (concat ess)"
    and I: "\<And>s e es. I s (e # es) \<Longrightarrow> hp_next_hash (heap_of s) = nh \<and> (\<exists>c. hp_handle (heap_of s) e = Some c \<and> InCache c) \<and>
      (\<exists>s'. func e s = Some s' \<and> I s' es)"
  shows "\<exists>s'. Apply_buckets heap_of func ps s = Some s' \<and> I s' []"
  using assms(1,2)
proof (induction ps ess arbitrary: s rule: list_all2_induct)
  case Nil
  then show ?case by simp
next
  case (Cons p ps es ess)
  from Cons.prems have "I s (es @ concat ess)" by simp
  from Apply_chain_law [where I = I and heap_of = heap_of and func = func, OF Cons.hyps(1) this I] obtain s1 where s1: "Apply_chain heap_of func p s = Some s1" "I s1 (concat ess)"
    by blast
  from Cons.IH [OF s1(2)] s1(1) show ?case by auto
qed

text \<open>The buckets of a represented table visit every entry once.\<close>

lemma table_entries:
  assumes "table_rep H t E"
  obtains ess where "list_all2 (path (hp_next_hash H)) (t_list t) ess" "set (concat ess) = E" "distinct (concat ess)"
proof -
  let ?n = "length (t_list t)" let ?b = "\<lambda>e. bucket_of (t_length t) (hash_of H e)"
  have rep: "chains H (hp_next_hash H) (t_length t) (t_list t) E" "?n = unat (t_length t)" "t_length t \<noteq> 0"
    using assms by (simp_all add: table_rep_def)
  define f where "f i = (SOME es. path (hp_next_hash H) (t_list t ! i) es \<and> distinct es \<and> set es = {e \<in> E. ?b e = i})" for i
  have f: "path (hp_next_hash H) (t_list t ! i) (f i) \<and> distinct (f i) \<and> set (f i) = {e \<in> E. ?b e = i}" if "i < ?n" for i
    unfolding f_def by (rule someI_ex) (use rep(1) that in \<open>auto simp: chains_def\<close>)
  show thesis
  proof (rule that [of "map f [0..<?n]"])
    show "list_all2 (path (hp_next_hash H)) (t_list t) (map f [0..<?n])"
      using f by (simp add: list_all2_conv_all_nth)
    have "?b e < ?n" for e using bucket_of_less [OF rep(3)] rep(2) by simp
    then show "set (concat (map f [0..<?n])) = E" using f by auto
    show "distinct (concat (map f [0..<?n]))" by (rule distinct_concat_map) (use f in auto)
  qed
qed

lemma ApplyToAll_law:
  assumes inv: "shard_inv held s"
  obtains es where "Shard_ApplyToAllCacheEntries s =
      Some (map (\<lambda>e. (h_value (the (hp_handle (s_heap s) e)), h_charge (the (hp_handle (s_heap s) e)))) es)"
    "set es = entries s" "distinct es"
proof -
  let ?H = "s_heap s"
  let ?f = "\<lambda>e. (h_value (the (hp_handle ?H e)), h_charge (the (hp_handle ?H e)))"
  let ?func = "\<lambda>h (H, calls). do { c \<leftarrow> hp_handle H h; Some (H, calls @ [(h_value c, h_charge c)]) }"
  from inv obtain lows highs where "shard_rep {} held lows highs s" by (auto elim: shard_invE)
  then have "table_rep ?H (s_table s) (entries s)" using shard_repD(1) entries_cached by metis
  then obtain ess where ess: "list_all2 (path (hp_next_hash ?H)) (t_list (s_table s)) ess"
      "set (concat ess) = entries s" "distinct (concat ess)"
    by (rule table_entries)
  define I where "I = (\<lambda>(H, calls) rem. H = ?H \<and> (\<exists>pre. concat ess = pre @ rem \<and> calls = map ?f pre))"
  have "I (?H, []) (concat ess)" by (simp add: I_def)
  moreover have "hp_next_hash (fst x) = hp_next_hash ?H \<and> (\<exists>c. hp_handle (fst x) e = Some c \<and> InCache c) \<and>
      (\<exists>y. ?func e x = Some y \<and> I y es)" if xI: "I x (e # es)" for x e es
  proof -
    from xI obtain pre where x: "x = (?H, map ?f pre)" "concat ess = pre @ e # es" by (auto simp: I_def)
    have "e \<in> set (concat ess)" by (simp add: x(2))
    then obtain c where c: "hp_handle ?H e = Some c" "InCache c"
      unfolding ess(2) by (auto simp: entries_def incache_def split: option.splits)
    have "I (?H, map ?f (pre @ [e])) es" unfolding I_def using x(2) by auto
    with c x(1) show ?thesis by simp
  qed
  ultimately obtain y where y: "Apply_buckets fst ?func (t_list (s_table s)) (?H, []) = Some y" "I y []"
    using Apply_buckets_law [where I = I and heap_of = fst and func = ?func, OF ess(1), of "(?H, [])"] by blast
  then have "Shard_ApplyToAllCacheEntries s = Some (map ?f (concat ess))"
    by (auto simp: Shard_ApplyToAllCacheEntries_def Table_ApplyToAllCacheEntries_def I_def)
  then show thesis using ess(2,3) by (rule that)
qed

lemma destroy_law:
  assumes inv: "shard_inv held s"
  obtains s' es where "LRUCacheShard_destroy s = Some s'" "distinct es" "set es = {a \<in> entries s. a \<notin># held}"
    "hp_handle (s_heap s') = without (set es) (hp_handle (s_heap s))"
    "s_deleter_calls s' = s_deleter_calls s @ deleter_calls (s_heap s) es"
proof -
  let ?H = "s_heap s"
  from inv obtain lows highs where rep: "shard_rep {} held lows highs s" by (auto elim: shard_invE)
  then have "table_rep ?H (s_table s) (entries s)" using shard_repD(1) entries_cached by metis
  then obtain ess where ess: "list_all2 (path (hp_next_hash ?H)) (t_list (s_table s)) ess"
      "set (concat ess) = entries s" "distinct (concat ess)"
    by (rule table_entries)
  let ?free = "filter (\<lambda>a. a \<notin># held)"
  define st where "st pre = ([] @ deleter_calls ?H (?free pre), ?H\<lparr>hp_handle := without (set (?free pre)) (hp_handle ?H)\<rparr>)" for pre
  define I where "I x rem \<longleftrightarrow> (\<exists>pre. concat ess = pre @ rem \<and> x = st pre)" for x rem
  have "I ([], ?H) (concat ess)" by (simp add: I_def st_def deleter_calls_def without_def [abs_def])
  moreover have "hp_next_hash (snd x) = hp_next_hash ?H \<and> (\<exists>c. hp_handle (snd x) e = Some c \<and> InCache c) \<and>
      (\<exists>y. free_if_last e x = Some y \<and> I y es)" if xI: "I x (e # es)" for x e es
  proof -
    from xI obtain pre where x: "x = st pre" "concat ess = pre @ e # es" by (auto simp: I_def)
    have e: "e \<in> entries s" "e \<notin> set pre" using ess(2,3) x(2) by auto
    then obtain c where c: "hp_handle ?H e = Some c" "InCache c"
      by (auto simp: entries_def incache_def split: option.splits)
    have nx: "hp_next ?H e \<noteq> Some e" by (rule ring_no_self [OF shard_repD(2) [OF rep] view_at(1) [OF c(1)]])
    have "unat (h_refs c) = 1 + count held e" using live_entry(1) [OF shard_repD(3) [OF rep] c(1)] c(2) by simp
    then have last: "h_refs c = 1 \<longleftrightarrow> e \<notin># held" by (auto simp: word_unat_eq_iff not_in_iff)
    have wo: "(without A h)(e := None) = without (insert e A) h" for A and h :: "nat \<Rightarrow> 'a LRUHandle option"
      by (auto simp: without_def)
    have "free_if_last e x = Some (st (pre @ [e]))"
      using c e(2) nx last
      by (auto simp: free_if_last_def x(1) st_def LRUHandle_Free_def LRUHandle_key_def without_def wo
          deleter_calls_def deleter_call_def)
    moreover have "I (st (pre @ [e])) es" unfolding I_def using x(2) by auto
    ultimately show ?thesis using c e(2) x(1) by (auto simp: st_def without_def)
  qed
  ultimately obtain y where "Apply_buckets snd free_if_last (t_list (s_table s)) ([], ?H) = Some y" "I y []"
    using Apply_buckets_law [where I = I and heap_of = snd and func = free_if_last, OF ess(1), of "([], ?H)"] by blast
  then have run: "LRUCacheShard_destroy s = Some (s\<lparr>s_heap := snd (st (concat ess)), s_deleter_calls := s_deleter_calls s @ fst (st (concat ess))\<rparr>)"
    by (auto simp: LRUCacheShard_destroy_def LRUHandleTable_destroy_def Table_ApplyToAllCacheEntries_def I_def case_prod_beta)
  show thesis
    by (rule that [OF run, of "?free (concat ess)"]) (use ess in \<open>auto simp: st_def\<close>)
qed

end
