(* ===== verification/LruContents.thy ===== *)
theory LruContents
  imports LruClient
begin

text \<open>
  What a shard holds, seen from outside: a partial map from a key with its hash to a value
  with its charge. Every operation of the shard is given by what it does to this map.
\<close>

subsection \<open>The contents of a shard\<close>

definition contents :: "'v LRUCacheShard \<Rightarrow> bytes \<times> u32 \<Rightarrow> ('v \<times> u64) option" where
  "contents s = (\<lambda>(key, hash).
     case LRUHandleTable_Lookup (s_heap s) (s_table s) key hash of
       Some (Some e) \<Rightarrow> map_option (\<lambda>c. (h_value c, h_charge c)) (hp_handle (s_heap s) e)
     | _ \<Rightarrow> None)"

text \<open>The ring from the oldest entry to the youngest.\<close>

definition lru_ring :: "'v LRUCacheShard \<Rightarrow> nat list \<Rightarrow> bool" where
  "lru_ring s R \<longleftrightarrow> dl (hp_next (s_heap s)) (hp_prev (s_heap s)) lru_addr R lru_addr"

definition kh_of :: "'v LRUCacheShard \<Rightarrow> nat \<Rightarrow> bytes \<times> u32" where
  "kh_of s e = (key_of (s_heap s) e, hash_of (s_heap s) e)"

lemma shard_rep_ring: "shard_rep out held lows highs s \<Longrightarrow> lru_ring s (lows @ highs)"
  by (drule shard_repD(2)) (simp add: lru_ring_def ring_ok_def)

lemma entry_view_iff:
  "entry_view H a = Some (k, h, v, c, d, True) \<longleftrightarrow>
     (\<exists>x. hp_handle H a = Some x \<and> h_key x = k \<and> h_hash x = h \<and> h_value x = v \<and> h_charge x = c \<and> h_deleter x = d \<and> InCache x)"
  by (auto simp: entry_view_def)

lemma contents_iff:
  assumes inv: "shard_inv held s"
  shows "contents s (k, h) = Some (v, c) \<longleftrightarrow> (\<exists>a d. entry_view (s_heap s) a = Some (k, h, v, c, d, True))"
proof -
  let ?H = "s_heap s"
  from inv obtain lows highs where rep: "shard_rep {} held lows highs s" by (auto elim: shard_invE)
  from Lookup_rep [OF shard_repD(1) [OF rep], of k h] obtain r where r:
    "LRUHandleTable_Lookup ?H (s_table s) k h = Some r"
    "\<And>e. r = Some e \<longleftrightarrow> incache ?H e \<and> key_of ?H e = k \<and> hash_of ?H e = h"
    by (auto simp: cached_def)
  have "(\<exists>d. entry_view ?H a = Some (k, h, v, c, d, True)) \<longleftrightarrow>
      r = Some a \<and> map_option (\<lambda>x. (h_value x, h_charge x)) (hp_handle ?H a) = Some (v, c)" for a
    unfolding entry_view_iff r(2) by (cases "hp_handle ?H a") (auto simp: incache_def key_of_def hash_of_def)
  then show ?thesis using r(1) by (cases r) (auto simp: contents_def)
qed

lemma contents_cong:
  assumes "shard_inv held s" and "shard_inv held' s'"
    and "\<And>v c. (\<exists>a d. entry_view (s_heap s') a = Some (k, h, v, c, d, True)) \<longleftrightarrow>
      (\<exists>a d. entry_view (s_heap s) a = Some (k, h, v, c, d, True))"
  shows "contents s' (k, h) = contents s (k, h)"
proof -
  have "contents s' (k, h) = Some vc \<longleftrightarrow> contents s (k, h) = Some vc" for vc
    using contents_iff [OF assms(1), of k h "fst vc" "snd vc"] contents_iff [OF assms(2), of k h "fst vc" "snd vc"]
      assms(3) [of "fst vc" "snd vc"]
    by simp
  then show ?thesis by (metis not_None_eq)
qed

lemma contents_view:
  assumes "shard_inv held s" "shard_inv held' s'" "entry_view (s_heap s') = entry_view (s_heap s)"
  shows "contents s' = contents s"
  using contents_cong [OF assms(1,2)] assms(3) by auto

lemma contents_None:
  assumes "shard_inv held s"
  shows "contents s (k, h) = None \<longleftrightarrow> (\<forall>a. incache (s_heap s) a \<longrightarrow> kh_of s a \<noteq> (k, h))"
proof -
  have "contents s (k, h) \<noteq> None \<longleftrightarrow> (\<exists>v c a d. entry_view (s_heap s) a = Some (k, h, v, c, d, True))"
    using contents_iff [OF assms] by (metis not_None_eq surj_pair)
  also have "\<dots> \<longleftrightarrow> (\<exists>a. incache (s_heap s) a \<and> kh_of s a = (k, h))"
    unfolding entry_view_iff by (auto simp: incache_def kh_of_def key_of_def hash_of_def split: option.splits)
  finally show ?thesis by blast
qed

text \<open>An entry that is cached determines the contents at its key.\<close>

lemma contents_entry:
  assumes "shard_inv held s" and "hp_handle (s_heap s) a = Some c" "InCache c"
  shows "contents s (h_key c, h_hash c) = Some (h_value c, h_charge c)"
  unfolding contents_iff [OF assms(1)] entry_view_iff using assms(2,3) by (intro exI [of _ a] exI) simp

subsection \<open>The operations on the contents\<close>

lemma Lookup_contents:
  fixes s :: "'v LRUCacheShard"
  assumes inv: "shard_inv held s" and room: "size held < 2 ^ 32 - 2"
  shows "\<exists>r s'. Shard_Lookup key hash s = Some (r, s') \<and> contents s' = contents s \<and>
    shard_inv (case r of None \<Rightarrow> held | Some e \<Rightarrow> add_mset e held) s' \<and>
    (case r of None \<Rightarrow> contents s (key, hash) = None
     | Some e \<Rightarrow> \<exists>c. hp_handle (s_heap s') e = Some c \<and> contents s (key, hash) = Some (h_value c, h_charge c))"
proof -
  from Shard_Lookup_law [OF inv room, of key hash] obtain r s' where l: "Shard_Lookup key hash s = Some (r, s')"
    "\<And>e. r = Some e \<longleftrightarrow> incache (s_heap s) e \<and> key_of (s_heap s) e = key \<and> hash_of (s_heap s) e = hash"
    "shard_inv (case r of None \<Rightarrow> held | Some e \<Rightarrow> add_mset e held) s'"
    "entry_view (s_heap s') = entry_view (s_heap s)"
    by metis
  have same: "contents s' = contents s" by (rule contents_view [OF inv l(3,4)])
  show ?thesis
  proof (cases r)
    case None
    then have "contents s (key, hash) = None" using contents_None [OF inv] l(2) by (simp add: kh_of_def)
    with l same None show ?thesis by auto
  next
    case (Some e)
    then have "incache (s_heap s) e" "key_of (s_heap s) e = key" "hash_of (s_heap s) e = hash" using l(2) by auto
    then obtain d where d: "hp_handle (s_heap s) e = Some d" "InCache d" "h_key d = key" "h_hash d = hash"
      by (auto simp: incache_def key_of_def hash_of_def split: option.splits)
    then have "entry_view (s_heap s') e = Some (key, hash, h_value d, h_charge d, h_deleter d, True)"
      unfolding l(4) by (simp add: entry_view_def)
    then obtain c where c: "hp_handle (s_heap s') e = Some c" "h_value c = h_value d" "h_charge c = h_charge d"
      unfolding entry_view_iff by blast
    then show ?thesis using contents_entry [OF inv d(1,2)] d(3,4) l(1,3) same Some by auto
  qed
qed

text \<open>Entries go, one entry may come: the two shapes of a change.\<close>

lemma kh_unique:
  assumes inv: "shard_inv held s" and "incache (s_heap s) a" "incache (s_heap s) b" "kh_of s a = kh_of s b"
  shows "a = b"
proof -
  from inv obtain lows highs where "shard_rep {} held lows highs s" by (auto elim: shard_invE)
  from shard_repD(1) [OF this] have "inj_on (\<lambda>e. (key_of (s_heap s) e, hash_of (s_heap s) e)) (cached {} (s_heap s))"
    by (simp add: table_rep_def)
  then show ?thesis using assms(2-4) by (auto simp: inj_on_def cached_def kh_of_def)
qed

lemma view_kh: "entry_view (s_heap s) a = Some (k, h, v, c, d, True) \<Longrightarrow> incache (s_heap s) a \<and> kh_of s a = (k, h)"
  by (auto simp: entry_view_iff incache_def kh_of_def key_of_def hash_of_def)

lemma contents_drop_at:
  assumes inv: "shard_inv held s" "shard_inv held' s'" and D: "D \<subseteq> entries s"
    and view: "\<And>a v c d. entry_view (s_heap s') a = Some (k, h, v, c, d, True) \<longleftrightarrow>
      a \<notin> D \<and> entry_view (s_heap s) a = Some (k, h, v, c, d, True)"
  shows "contents s' (k, h) = (if (k, h) \<in> kh_of s ` D then None else contents s (k, h))"
proof (cases "(k, h) \<in> kh_of s ` D")
  case True
  then obtain b where b: "b \<in> D" "kh_of s b = (k, h)" by auto
  have "contents s' (k, h) \<noteq> Some (v, c)" for v c
  proof
    assume "contents s' (k, h) = Some (v, c)"
    then obtain a d where a: "a \<notin> D" "entry_view (s_heap s) a = Some (k, h, v, c, d, True)"
      unfolding contents_iff [OF inv(2)] view by blast
    have "a = b"
      by (rule kh_unique [OF inv(1)]) (use view_kh [OF a(2)] b D in \<open>auto simp: entries_def\<close>)
    with a(1) b(1) show False by simp
  qed
  then have "contents s' (k, h) = None" by (cases "contents s' (k, h)") auto
  with True show ?thesis by simp
next
  case False
  have "contents s' (k, h) = contents s (k, h)"
  proof (rule contents_cong [OF inv])
    fix v c
    show "(\<exists>a d. entry_view (s_heap s') a = Some (k, h, v, c, d, True)) \<longleftrightarrow>
        (\<exists>a d. entry_view (s_heap s) a = Some (k, h, v, c, d, True))"
      unfolding view using False view_kh [of s _ k h v c] by (metis imageI)
  qed
  with False show ?thesis by simp
qed

lemma contents_drop:
  assumes inv: "shard_inv held s" "shard_inv held' s'" and D: "D \<subseteq> entries s"
    and view: "\<And>a k h v c d. entry_view (s_heap s') a = Some (k, h, v, c, d, True) \<longleftrightarrow>
      a \<notin> D \<and> entry_view (s_heap s) a = Some (k, h, v, c, d, True)"
  shows "contents s' = (\<lambda>x. if x \<in> kh_of s ` D then None else contents s x)"
proof
  fix x :: "bytes \<times> u32"
  show "contents s' x = (if x \<in> kh_of s ` D then None else contents s x)"
    using contents_drop_at [OF inv D view, of "fst x" "snd x"] by simp
qed

lemma contents_add:
  assumes inv: "shard_inv held s" "shard_inv held' s'" and D: "D \<subseteq> entries s"
    and view: "\<And>a k h v c d. entry_view (s_heap s') a = Some (k, h, v, c, d, True) \<longleftrightarrow>
      (if a = e then (k, h, v, c, d) = (key, hash, value, charge, deleter)
       else a \<notin> D \<and> entry_view (s_heap s) a = Some (k, h, v, c, d, True))"
    and e: "entry_view (s_heap s) e = None"
  shows "contents s' = (\<lambda>x. if x = (key, hash) then Some (value, charge) else if x \<in> kh_of s ` D then None else contents s x)"
proof
  fix x :: "bytes \<times> u32"
  obtain k h where x: "x = (k, h)" by (cases x)
  show "contents s' x = (if x = (key, hash) then Some (value, charge) else if x \<in> kh_of s ` D then None else contents s x)"
  proof (cases "x = (key, hash)")
    case True
    have "entry_view (s_heap s') e = Some (key, hash, value, charge, deleter, True)" by (simp add: view)
    then have "contents s' (key, hash) = Some (value, charge)" unfolding contents_iff [OF inv(2)] by blast
    with True show ?thesis by simp
  next
    case False
    have "entry_view (s_heap s') a = Some (k, h, v, c, d, True) \<longleftrightarrow> a \<notin> D \<and> entry_view (s_heap s) a = Some (k, h, v, c, d, True)"
      for a v c d using view [of a k h v c d] False x e by auto
    from contents_drop_at [OF inv D this] show ?thesis using False x by auto
  qed
qed

lemma Erase_contents:
  assumes inv: "shard_inv held s"
  shows "\<exists>s'. Shard_Erase key hash s = Some s' \<and> contents s' = (contents s)((key, hash) := None) \<and> shard_inv held s'"
proof -
  let ?H = "s_heap s"
  obtain s' r where l: "Shard_Erase key hash s = Some s'" "shard_inv held s'"
    "\<forall>e. r = Some e \<longleftrightarrow> incache ?H e \<and> key_of ?H e = key \<and> hash_of ?H e = hash"
    "case r of None \<Rightarrow> entry_view (s_heap s') = entry_view ?H \<and> s_deleter_calls s' = s_deleter_calls s
     | Some e \<Rightarrow> (\<exists>c. hp_handle ?H e = Some c \<and>
         (if e \<in># held
          then entry_view (s_heap s') = (entry_view ?H)(e := Some (h_key c, h_hash c, h_value c, h_charge c, h_deleter c, False)) \<and>
            s_deleter_calls s' = s_deleter_calls s
          else entry_view (s_heap s') = (entry_view ?H)(e := None) \<and>
            s_deleter_calls s' = s_deleter_calls s @ deleter_call c))"
    by (rule Shard_Erase_law [OF inv, of key hash]) (rule that, assumption, assumption, blast, assumption)
  have "entry_view (s_heap s') a = Some (k, h, v, c, d, True) \<longleftrightarrow>
      a \<notin> set_option r \<and> entry_view ?H a = Some (k, h, v, c, d, True)" for a k h v c d
    using l(4) by (auto split: option.splits if_splits)
  moreover have "set_option r \<subseteq> entries s" using l(3) by (auto simp: entries_def)
  ultimately have "contents s' = (\<lambda>x. if x \<in> kh_of s ` set_option r then None else contents s x)"
    by (intro contents_drop [OF inv l(2)])
  moreover have "kh_of s ` set_option r \<subseteq> {(key, hash)}" using l(3) by (auto simp: kh_of_def)
  moreover have "contents s (key, hash) = None" if "r = None"
    using that contents_None [OF inv] l(3) by (auto simp: kh_of_def)
  ultimately have "contents s' = (contents s)((key, hash) := None)"
    by (cases r) (auto simp: fun_eq_iff split: if_splits)
  with l(1,2) show ?thesis by auto
qed

lemma take_entries:
  assumes "shard_rep {} held lows highs s"
  shows "set (take k (lows @ highs)) \<subseteq> entries s"
proof -
  have "set (lows @ highs) \<subseteq> entries s"
    unfolding booksD(4) [OF shard_repD(3) [OF assms]] by (auto simp: cached_def entries_def)
  then show ?thesis using set_take_subset [of k "lows @ highs"] by blast
qed

lemma view_None: "hp_handle (s_heap s) e = None \<Longrightarrow> entry_view (s_heap s) e = None"
  by (simp add: entry_view_def)

lemma Insert_contents:
  fixes s :: "'v LRUCacheShard"
  assumes inv: "shard_inv held s" and e: "hp_handle (s_heap s) e = None" "e \<noteq> lru_addr"
    and bound: "unat (s_usage s) + unat charge < 2 ^ 64" and few: "3 * (card (entries s) + 1) \<le> 2 ^ 32"
  shows "\<exists>R k s'. lru_ring s R \<and> evict_count s charge R k \<and>
    (if room_for charge handle s
     then Shard_Insert e g key hash value charge deleter handle priority s = Some (Status_OK, if handle then Some e else None, s') \<and>
       shard_inv (if handle then add_mset e held else held) s' \<and>
       contents s' = (\<lambda>x. if x = (key, hash) then Some (value, charge)
         else if x \<in> kh_of s ` set (take k R) then None else contents s x)
     else Shard_Insert e g key hash value charge deleter handle priority s =
         Some (if handle then Status_Incomplete (cstr ''Insert failed due to LRU cache being full.'') [] else Status_OK, None, s') \<and>
       shard_inv held s' \<and> contents s' = (\<lambda>x. if x \<in> kh_of s ` set (take k R) then None else contents s x))"
proof -
  from inv obtain lows highs where rep: "shard_rep {} held lows highs s" by (auto elim: shard_invE)
  note ring = shard_rep_ring [OF rep] and D = take_entries [OF rep]
  have e': "e \<notin> allocated (s_heap s)" using e(1) by (simp add: allocated_def domIff)
  show ?thesis
  proof (cases "room_for charge handle s")
    case True
    obtain k r s' lows' highs' where i:
      "Shard_Insert e g key hash value charge deleter handle priority s = Some (Status_OK, if handle then Some e else None, s')"
      "shard_rep {} (if handle then add_mset e held else held) lows' highs' s'" "s_usage s' > s_capacity s' \<Longrightarrow> lows' @ highs' = []"
      "evict_count s charge (lows @ highs) k"
      "\<forall>a. r = Some a \<longleftrightarrow> a \<notin> set (take k (lows @ highs)) \<and> incache (s_heap s) a \<and> key_of (s_heap s) a = key \<and> hash_of (s_heap s) a = hash"
      "entry_view (s_heap s') = (\<lambda>a. if a = e then Some (key, hash, value, charge, deleter, True)
         else if a \<in> set (take k (lows @ highs) @ dropped r held) then None
         else if r = Some a then map_option (\<lambda>(k, h, v, c, d, _). (k, h, v, c, d, False)) (entry_view (s_heap s) a)
         else entry_view (s_heap s) a)"
      by (rule Insert_accept [OF rep e' e(2) bound True few [folded entries_cached], of g key hash "value" deleter priority])
        (rule that; assumption)
    define es where "es = take k (lows @ highs)"
    have inv': "shard_inv (if handle then add_mset e held else held) s'" by (rule shard_invI [OF i(2,3)])
    let ?D = "set es \<union> set_option r"
    have "set (dropped r held) \<subseteq> set_option r" by (auto simp: dropped_def split: option.splits if_splits)
    then have view: "entry_view (s_heap s') a = Some (k, h, v, c, d, True) \<longleftrightarrow>
        (if a = e then (k, h, v, c, d) = (key, hash, value, charge, deleter)
         else a \<notin> ?D \<and> entry_view (s_heap s) a = Some (k, h, v, c, d, True))" for a k h v c d
      unfolding i(6) es_def [symmetric] by auto
    have "?D \<subseteq> entries s" using D i(5) by (auto simp: es_def entries_def)
    then have "contents s' = (\<lambda>x. if x = (key, hash) then Some (value, charge) else if x \<in> kh_of s ` ?D then None else contents s x)"
      by (rule contents_add [OF inv inv' _ view view_None [OF e(1)]])
    moreover have "kh_of s ` ?D \<subseteq> insert (key, hash) (kh_of s ` set es)" "kh_of s ` set es \<subseteq> kh_of s ` ?D"
      using i(5) by (auto simp: kh_of_def)
    ultimately have "contents s' = (\<lambda>x. if x = (key, hash) then Some (value, charge) else if x \<in> kh_of s ` set es then None else contents s x)"
      by (auto simp: fun_eq_iff)
    with i(1,4) inv' ring True show ?thesis unfolding es_def by (intro exI [of _ "lows @ highs"] exI [of _ k] exI [of _ s']) simp
  next
    case False
    obtain k s' where i: "Shard_Insert e g key hash value charge deleter handle priority s =
        Some (if handle then Status_Incomplete (cstr ''Insert failed due to LRU cache being full.'') [] else Status_OK, None, s')"
      "shard_inv held s'" "evict_count s charge (lows @ highs) k"
      "\<forall>a. entry_view (s_heap s') a = (if a \<in> set (take k (lows @ highs)) then None else entry_view (s_heap s) a)"
      by (rule Insert_reject [OF rep e' e(2) bound False, of g key hash "value" deleter priority])
        (rule that, assumption, assumption, assumption, blast)
    have "contents s' = (\<lambda>x. if x \<in> kh_of s ` set (take k (lows @ highs)) then None else contents s x)"
      by (rule contents_drop [OF inv i(2) D]) (simp only: i(4), simp)
    with i(1,2,3) ring False show ?thesis by (intro exI [of _ "lows @ highs"] exI [of _ k] exI [of _ s']) simp
  qed
qed

lemma Release_contents:
  assumes inv: "shard_inv held s" and held: "e \<in># held"
  shows "\<exists>s'. Shard_Release (Some e) s = Some s' \<and> shard_inv (held - {#e#}) s' \<and>
    contents s' = (if count held e = 1 \<and> incache (s_heap s) e \<and> s_usage s > s_capacity s
      then (contents s)(kh_of s e := None) else contents s)"
proof -
  let ?H = "s_heap s"
  obtain s' c where l: "Shard_Release (Some e) s = Some s'" "shard_inv (held - {#e#}) s'" "hp_handle ?H e = Some c"
    "if count held e = 1 \<and> (\<not> InCache c \<or> s_usage s > s_capacity s)
     then entry_view (s_heap s') = (entry_view ?H)(e := None) \<and> s_deleter_calls s' = s_deleter_calls s @ deleter_call c
     else entry_view (s_heap s') = entry_view ?H \<and> s_deleter_calls s' = s_deleter_calls s"
    by (rule Shard_Release_law [OF inv held]) (rule that; assumption)
  have ic: "incache ?H e \<longleftrightarrow> InCache c" by (rule view_at(2) [OF l(3)])
  have ve: "entry_view ?H e = Some (h_key c, h_hash c, h_value c, h_charge c, h_deleter c, InCache c)"
    using l(3) by (simp add: entry_view_def)
  let ?drop = "count held e = 1 \<and> InCache c \<and> s_usage s > s_capacity s"
  let ?D = "if ?drop then {e} else {}"
  have "entry_view (s_heap s') a = Some (k, h, v, cc, d, True) \<longleftrightarrow> a \<notin> ?D \<and> entry_view ?H a = Some (k, h, v, cc, d, True)"
    for a k h v cc d using ve l(4) by (auto split: if_splits)
  moreover have "?D \<subseteq> entries s" using ic by (auto simp: entries_def)
  ultimately have "contents s' = (\<lambda>x. if x \<in> kh_of s ` ?D then None else contents s x)"
    by (intro contents_drop [OF inv l(2)])
  then have "contents s' = (if count held e = 1 \<and> incache ?H e \<and> s_usage s > s_capacity s
      then (contents s)(kh_of s e := None) else contents s)"
    unfolding ic by (auto simp: fun_eq_iff)
  with l(1,2) show ?thesis by blast
qed

lemma SetCapacity_contents:
  assumes inv: "shard_inv held s" and ratio: "0 \<le> s_high_pri_pool_ratio s"
  shows "\<exists>R k s'. lru_ring s R \<and> SetCapacity capacity s = Some s' \<and> shard_inv held s' \<and> s_capacity s' = capacity \<and>
    contents s' = (\<lambda>x. if x \<in> kh_of s ` set (take k R) then None else contents s x) \<and>
    evict_count (s\<lparr>s_capacity := capacity\<rparr>) 0 R k"
proof -
  from inv obtain lows highs where rep: "shard_rep {} held lows highs s" by (auto elim: shard_invE)
  obtain s' k where l: "SetCapacity capacity s = Some s'" "shard_inv held s'" "s_capacity s' = capacity"
      "hp_handle (s_heap s') = without (set (take k (lows @ highs))) (hp_handle (s_heap s))"
      "evict_count (s\<lparr>s_capacity := capacity\<rparr>) 0 (lows @ highs) k"
    by (rule SetCapacity_law [OF rep ratio, of capacity]) (rule that; assumption)
  have "contents s' = (\<lambda>x. if x \<in> kh_of s ` set (take k (lows @ highs)) then None else contents s x)"
    by (rule contents_drop [OF inv l(2) take_entries [OF rep]]) (simp add: entry_view_def l(4) without_def del: take_append)
  with l shard_rep_ring [OF rep] show ?thesis by blast
qed

end
