(* ===== verification/LruProps.thy ===== *)
theory LruProps
  imports LruContents
begin

text \<open>
  The theorems about one shard of the LRU cache, for every state a client can reach.
\<close>

lemma reachable_shard: "reachable (held, s) \<Longrightarrow> shard_inv held s \<and> 0 \<le> s_high_pri_pool_ratio s"
  by (drule reachable_inv) (simp add: client_inv_def)

lemma client_ok_insert:
  "client_ok (OpInsert e g key hash value charge deleter handle priority) (held, s) \<Longrightarrow>
   hp_handle (s_heap s) e = None \<and> e \<noteq> lru_addr \<and> unat (s_usage s) + unat charge < 2 ^ 64 \<and> 3 * (card (entries s) + 1) \<le> 2 ^ 32"
  by simp

text \<open>A new shard, to apply the theorems to.\<close>

definition fresh_shard :: "nat LRUCacheShard" where
  "fresh_shard = the (LRUCacheShard_init 10 True 0 0)"

lemma fresh_shard:
  "reachable ({#}, fresh_shard)" "hp_handle (s_heap fresh_shard) a = None" "s_usage fresh_shard = 0"
  "s_capacity fresh_shard = 10" "s_strict_capacity_limit fresh_shard" "entries fresh_shard = {}"
  "allocated (s_heap fresh_shard) = {}" "s_lru_usage fresh_shard = 0"
proof -
  obtain s :: "nat LRUCacheShard" where s: "LRUCacheShard_init 10 True 0 0 = Some s" "allocated (s_heap s) = {}" "s_usage s = 0"
    by (rule LRUCacheShard_init_inv [of 0 10 True 0]) simp_all
  then have f: "fresh_shard = s" by (simp add: fresh_shard_def)
  show "reachable ({#}, fresh_shard)" using s(1) unfolding f by (rule reach_init) simp_all
  show "allocated (s_heap fresh_shard) = {}" "s_usage fresh_shard = 0" using s by (simp_all add: f)
  then show "hp_handle (s_heap fresh_shard) a = None" "entries fresh_shard = {}"
    by (auto simp: allocated_def entries_def incache_def dom_def split: option.splits)
  show "s_capacity fresh_shard = 10" "s_strict_capacity_limit fresh_shard" "s_lru_usage fresh_shard = 0"
    using s(1) unfolding f by (auto simp: LRUCacheShard_init_def bind_eq_Some_conv)
qed

text \<open>A shard with one entry, whose handle the client holds.\<close>

definition one_shard :: "nat LRUCacheShard" where
  "one_shard = snd (the (shard_run (OpInsert 1 0 [7] 5 9 3 True True LOW) ({#}, fresh_shard)))"

lemma one_shard: "reachable ({#1#}, one_shard)" "s_usage one_shard \<le> s_capacity one_shard"
proof -
  let ?op = "OpInsert 1 0 [7] 5 (9 :: nat) 3 True True LOW"
  have room: "room_for 3 True fresh_shard" by (simp add: room_for_def fresh_shard word_less_nat_alt)
  have ok: "client_ok ?op ({#}, fresh_shard)" by (simp add: fresh_shard)
  from reachable_shard [OF fresh_shard(1)] obtain lows highs where rep: "shard_rep {} {#} lows highs fresh_shard"
    by (auto elim: shard_invE)
  obtain s' where s': "Shard_Insert 1 0 [7] 5 9 3 True True LOW fresh_shard = Some (Status_OK, Some 1, s')"
      "s_usage s' \<le> s_capacity s'"
    by (rule Insert_accept [OF rep _ _ _ room, of 1 0 "[7]" 5 9 True LOW])
       (auto simp: fresh_shard entries_cached)
  then have run: "shard_run ?op ({#}, fresh_shard) = Some ({#1#}, s')" by simp
  then have "one_shard = s'" by (simp add: one_shard_def)
  with run s'(2) show "reachable ({#1#}, one_shard)" "s_usage one_shard \<le> s_capacity one_shard"
    using reach_step [OF fresh_shard(1) step [OF ok run]] by simp_all
qed

text \<open>
  C21. In every state that a client of an LRU cache shard can reach, every operation it may
  call returns: no assertion of \<open>lru_cache.cc\<close> fails, no null or freed pointer is followed,
  nothing is freed twice, and the loops over the ring and the hash chains end.
\<close>

theorem lru_operations_return:
  assumes "reachable (held, s)" and "client_ok op (held, s)"
  shows "\<exists>held' s'. shard_run op (held, s) = Some (held', s')"
  using client_step [OF reachable_inv [OF assms(1)] assms(2)] by (metis surj_pair)

theorem lru_operations_return_witness:
  "reachable ({#}, fresh_shard) \<and> client_ok (OpInsert 1 0 [7] 5 (9 :: nat) 3 True True LOW) ({#}, fresh_shard) \<and>
   (\<exists>held' s'. shard_run (OpInsert 1 0 [7] 5 9 3 True True LOW) ({#}, fresh_shard) = Some (held', s'))"
  using lru_operations_return [of "{#}" fresh_shard "OpInsert 1 0 [7] 5 9 3 True True LOW"] by (simp add: fresh_shard)

text \<open>
  C22. The books of a shard, in every reachable state: \<open>usage_\<close> is the sum of the charges of all
  entries in memory, \<open>lru_usage_\<close> that of the entries in the table that no client holds,
  every reference count is the number of handles clients hold plus one for the table, an
  entry exists only as long as somebody refers to it, and if the shard is over its capacity,
  every entry is held.
\<close>

theorem lru_books:
  assumes "reachable (held, s)"
  shows "unat (s_usage s) = sum (charge_of (s_heap s)) (allocated (s_heap s)) \<and>
    unat (s_lru_usage s) = sum (charge_of (s_heap s)) {a \<in> entries s. a \<notin># held} \<and>
    (\<forall>a\<in>allocated (s_heap s). refs_of (s_heap s) a = (if a \<in> entries s then 1 else 0) + count held a \<and> refs_of (s_heap s) a > 0) \<and>
    (s_usage s > s_capacity s \<longrightarrow> entries s \<subseteq> set_mset held)"
proof -
  from reachable_shard [OF assms] obtain lows highs where rep: "shard_rep {} held lows highs s"
      and full: "s_usage s > s_capacity s \<Longrightarrow> lows @ highs = []"
    by (auto elim: shard_invE)
  note b = booksD [OF shard_repD(3) [OF rep]]
  have R: "set (lows @ highs) = {a \<in> entries s. a \<notin># held}" using b(4) by (simp add: entries_cached)
  have "refs_of (s_heap s) a = (if a \<in> entries s then 1 else 0) + count held a \<and> refs_of (s_heap s) a > 0"
    if "a \<in> allocated (s_heap s)" for a
    using b(5) [of a] that unfolding entries_def mem_Collect_eq neq0_conv Diff_empty by blast
  moreover have "entries s \<subseteq> set_mset held" if "s_usage s > s_capacity s" using full [OF that] R by auto
  ultimately show ?thesis using b(6,7) unfolding R Diff_empty by blast
qed

theorem lru_books_witness:
  "reachable ({#}, fresh_shard) \<and> unat (s_usage fresh_shard) = sum (charge_of (s_heap fresh_shard)) (allocated (s_heap fresh_shard))"
  using lru_books [OF fresh_shard(1)] fresh_shard(1) by simp

text \<open>
  C23. \<open>Insert\<close>, completely. The least number of entries is taken from the old end of the ring so
  that the new charge fits, or all of them. If the charge then fits beside the entries in
  use, or the limit is not strict and the caller wants a handle, the key holds the new value
  from now on, the evicted keys are gone, and all other keys hold what they held before. If
  not, the call with a handle fails with \<open>Incomplete\<close>, the call without one reports success
  as if the entry had been evicted at once, and only the evicted keys are gone.
\<close>

theorem lru_insert_refines:
  assumes "reachable (held, s)" and "client_ok (OpInsert e g key hash value charge deleter handle priority) (held, s)"
  shows "\<exists>R k s'. lru_ring s R \<and> evict_count s charge R k \<and>
    (if room_for charge handle s
     then Shard_Insert e g key hash value charge deleter handle priority s = Some (Status_OK, if handle then Some e else None, s') \<and>
       contents s' = (\<lambda>x. if x = (key, hash) then Some (value, charge)
         else if x \<in> kh_of s ` set (take k R) then None else contents s x)
     else Shard_Insert e g key hash value charge deleter handle priority s =
         Some (if handle then Status_Incomplete (cstr ''Insert failed due to LRU cache being full.'') [] else Status_OK, None, s') \<and>
       contents s' = (\<lambda>x. if x \<in> kh_of s ` set (take k R) then None else contents s x))"
proof -
  have c: "hp_handle (s_heap s) e = None" "e \<noteq> lru_addr" "unat (s_usage s) + unat charge < 2 ^ 64" "3 * (card (entries s) + 1) \<le> 2 ^ 32"
    using client_ok_insert [OF assms(2)] by blast+
  show ?thesis
    using Insert_contents [OF conjunct1 [OF reachable_shard [OF assms(1)]] c, of handle g key hash "value" deleter priority]
    by (auto split: if_splits)
qed

theorem lru_insert_refines_witness:
  "reachable ({#}, fresh_shard) \<and> client_ok (OpInsert 1 0 [7] 5 (9 :: nat) 3 True True LOW) ({#}, fresh_shard) \<and>
   (\<exists>s'. Shard_Insert 1 0 [7] 5 9 3 True True LOW fresh_shard = Some (Status_OK, Some 1, s') \<and> contents s' ([7], 5) = Some (9, 3))"
proof -
  have "room_for 3 True fresh_shard" by (simp add: room_for_def fresh_shard word_less_nat_alt)
  then show ?thesis
    using lru_insert_refines [of "{#}" fresh_shard 1 0 "[7]" 5 9 3 True True LOW] by (auto simp: fresh_shard)
qed

text \<open>
  C24. \<open>Lookup\<close> finds a key exactly if the shard holds it. The handle it returns is that of the
  value and charge stored last under this key; the contents stay as they are.
\<close>

theorem lru_lookup_refines:
  assumes "reachable (held, s)" and "client_ok (OpLookup key hash) (held, s)"
  shows "\<exists>r s'. Shard_Lookup key hash s = Some (r, s') \<and> contents s' = contents s \<and>
    (case r of None \<Rightarrow> contents s (key, hash) = None
     | Some e \<Rightarrow> \<exists>c. hp_handle (s_heap s') e = Some c \<and> contents s (key, hash) = Some (h_value c, h_charge c))"
  using Lookup_contents [OF conjunct1 [OF reachable_shard [OF assms(1)]], of key hash] assms(2) by auto

theorem lru_lookup_refines_witness:
  "reachable ({#}, fresh_shard) \<and> client_ok (OpLookup [7] 5) ({#}, fresh_shard) \<and>
   (\<exists>r s'. Shard_Lookup [7] 5 fresh_shard = Some (r, s') \<and> contents s' = contents fresh_shard)"
  using lru_lookup_refines [of "{#}" fresh_shard "[7]" 5] by (auto simp: fresh_shard)

text \<open>
  C25. \<open>Erase\<close> removes the key and nothing else.
\<close>

theorem lru_erase_refines:
  assumes "reachable (held, s)"
  shows "\<exists>s'. Shard_Erase key hash s = Some s' \<and> contents s' = (contents s)((key, hash) := None)"
  using Erase_contents [OF conjunct1 [OF reachable_shard [OF assms]], of key hash] by blast

theorem lru_erase_refines_witness:
  "reachable ({#}, fresh_shard) \<and> (\<exists>s'. Shard_Erase [7] 5 fresh_shard = Some s' \<and> contents s' = (contents fresh_shard)(([7], 5) := None))"
  using lru_erase_refines [OF fresh_shard(1), of "[7]" 5] fresh_shard(1) by simp

text \<open>
  C26. \<open>Release\<close> of a held handle leaves the contents as they are, unless it was the last handle of
  a cached entry while the shard is over its capacity: that entry is dropped.
\<close>

theorem lru_release_refines:
  assumes "reachable (held, s)" and "e \<in># held"
  shows "\<exists>s'. Shard_Release (Some e) s = Some s' \<and>
       contents s' = (if count held e = 1 \<and> e \<in> entries s \<and> s_usage s > s_capacity s
         then (contents s)(kh_of s e := None) else contents s)"
  using Release_contents [OF conjunct1 [OF reachable_shard [OF assms(1)]] assms(2)]
  unfolding entries_def mem_Collect_eq by blast

theorem lru_release_refines_witness:
  "reachable ({#1#}, one_shard) \<and> (\<exists>s'. Shard_Release (Some 1) one_shard = Some s' \<and> contents s' = contents one_shard)"
  using lru_release_refines [OF one_shard(1), of 1] one_shard(1) leD [OF one_shard(2)] by simp

text \<open>
  The strict limit holds: in a shard with \<open>strict_capacity_limit\<close> whose usage is within its
  capacity, the usage is within it after any \<open>Insert\<close> too.
\<close>

lemma lru_strict_limit:
  assumes "reachable (held, s)" and "client_ok (OpInsert e g key hash value charge deleter handle priority) (held, s)"
    and "s_strict_capacity_limit s" and "s_usage s \<le> s_capacity s"
  shows "\<exists>st r s'. Shard_Insert e g key hash value charge deleter handle priority s = Some (st, r, s') \<and>
    s_usage s' \<le> s_capacity s \<and> s_capacity s' = s_capacity s"
proof -
  from reachable_shard [OF assms(1)] obtain lows highs where rep: "shard_rep {} held lows highs s" by (auto elim: shard_invE)
  have c: "e \<notin> allocated (s_heap s)" "e \<noteq> lru_addr" "unat (s_usage s) + unat charge < 2 ^ 64" "3 * (card (cached {} (s_heap s)) + 1) \<le> 2 ^ 32"
    using client_ok_insert [OF assms(2)] by (auto simp: allocated_def entries_cached)
  show ?thesis
  proof (cases "room_for charge handle s")
    case True
    show ?thesis
      by (rule Insert_accept [OF rep c(1-3) True c(4), of g key hash "value" deleter priority]) (use assms(3) in auto)
  next
    case False
    show ?thesis
      by (rule Insert_reject [OF rep c(1-3) False, of g key hash "value" deleter priority]) (use assms(4) in fastforce)
  qed
qed

text \<open>
  C27. No leak and no double delete: when every handle has been released, destroying the shard
  frees every entry that is left, and the deleter is called once for each of them that has
  one, with its key and value.
\<close>

theorem lru_destroy_frees_all:
  assumes "reachable ({#}, s)"
  shows "\<exists>s' es. LRUCacheShard_destroy s = Some s' \<and> allocated (s_heap s') = {} \<and>
    set es = allocated (s_heap s) \<and> distinct es \<and>
    s_deleter_calls s' = s_deleter_calls s @ deleter_calls (s_heap s) es"
proof -
  note inv = conjunct1 [OF reachable_shard [OF assms]]
  then obtain lows highs where rep: "shard_rep {} {#} lows highs s" by (auto elim: shard_invE)
  have A: "allocated (s_heap s) = entries s"
  proof (intro equalityI subsetI)
    fix a
    assume "a \<in> allocated (s_heap s)"
    then show "a \<in> entries s" using booksD(5) [OF shard_repD(3) [OF rep], of a] by (auto simp: entries_def split: if_splits)
  qed (auto simp: entries_def allocated_def incache_def split: option.splits)
  obtain s' es where d: "LRUCacheShard_destroy s = Some s'" "distinct es" "set es = {a \<in> entries s. a \<notin># {#}}"
    "hp_handle (s_heap s') = without (set es) (hp_handle (s_heap s))"
    "s_deleter_calls s' = s_deleter_calls s @ deleter_calls (s_heap s) es"
    by (rule destroy_law [OF inv]) (rule that; assumption)
  have es: "set es = allocated (s_heap s)" using d(3) A by simp
  then have "allocated (s_heap s') = {}" by (auto simp: allocated_def d(4) without_def)
  with d es show ?thesis by blast
qed

theorem lru_destroy_frees_all_witness:
  "reachable ({#}, fresh_shard) \<and> (\<exists>s'. LRUCacheShard_destroy fresh_shard = Some s' \<and> allocated (s_heap s') = {})"
  using lru_destroy_frees_all [OF fresh_shard(1)] fresh_shard(1) by blast

end
