(* ===== verification/KeyHash.thy ===== *)
theory KeyHash
  imports Coding
begin

text \<open>
  \<open>rutil/hash.cc\<close> and \<open>include/rocksutil/hash.h\<close>: the hash of a key, after MurmurHash. The
  bytes that do not fill a word are added as signed numbers, as the comment in the source
  explains.
\<close>

definition hash_m :: u32 where
  "hash_m = 0xc6a4a793"

fun Hash_words :: "bytes \<Rightarrow> u32 \<Rightarrow> bytes \<times> u32" where
  "Hash_words (b0 # b1 # b2 # b3 # data) h =
     (let h = (h + DecodeFixed32 [b0, b1, b2, b3]) * hash_m
      in Hash_words data (h XOR drop_bit 16 h))"
| "Hash_words data h = (data, h)"

text \<open>The rest, at most three bytes, each read as a \<open>signed char\<close>; the cases fall through.\<close>

definition Hash_rest :: "bytes \<Rightarrow> u32 \<Rightarrow> u32" where
  "Hash_rest data h =
     (if data = [] then h
      else (let h = (if length data \<ge> 3 then h + push_bit 16 (scast (data ! 2)) else h);
                h = (if length data \<ge> 2 then h + push_bit 8 (scast (data ! 1)) else h);
                h = (h + scast (data ! 0)) * hash_m
            in h XOR drop_bit 24 h))"

definition Hash :: "bytes \<Rightarrow> u32 \<Rightarrow> u32" where
  "Hash data seed =
     (let h = ucast (ucast seed XOR (of_nat (length data) * ucast hash_m :: u64));
          (rest, h) = Hash_words data h
      in Hash_rest rest h)"

definition BloomHash :: "bytes \<Rightarrow> u32" where
  "BloomHash key = Hash key 0xbc9f1d34"

definition GetSliceHash :: "bytes \<Rightarrow> u32" where
  "GetSliceHash s = Hash s 397"

definition HashSlice :: "bytes \<Rightarrow> u32" where
  "HashSlice s = Hash s 0"

end
