(* ===== verification/ShardedCache.thy ===== *)
theory ShardedCache
  imports LruProps KeyHash
begin

text \<open>
  \<open>rutil/sharded_cache.h\<close>, \<open>rutil/sharded_cache.cc\<close> and the class \<open>LRUCache\<close> of
  \<open>rutil/lru_cache.cc\<close>: a cache made of \<open>2 ^ num_shard_bits\<close> shards, chosen by the high bits of
  the hash of the key. \<open>ShardedCache\<close> calls its shards through the virtual methods of
  \<open>CacheShard\<close>; the record \<open>CacheShard\<close> is that table of methods, and the locale \<open>cache_shard\<close>
  the contract that every implementation has to keep. What \<open>ShardedCache\<close> does is proved from
  the contract and interpreted for the LRU shard.

  Shards keep their entries in heaps of their own, of which a handle is an address; the
  addresses of different shards are different, as one allocator hands them out.
\<close>

subsection \<open>The interface of a shard\<close>

record ('s, 'v) CacheShard =
  v_Insert :: "nat \<Rightarrow> byte \<Rightarrow> bytes \<Rightarrow> u32 \<Rightarrow> 'v \<Rightarrow> u64 \<Rightarrow> bool \<Rightarrow> bool \<Rightarrow> Priority \<Rightarrow> 's \<Rightarrow> (Status \<times> nat option \<times> 's) option"
  v_Lookup :: "bytes \<Rightarrow> u32 \<Rightarrow> 's \<Rightarrow> (nat option \<times> 's) option"
  v_Release :: "nat option \<Rightarrow> 's \<Rightarrow> 's option"
  v_Erase :: "bytes \<Rightarrow> u32 \<Rightarrow> 's \<Rightarrow> 's option"
  v_SetCapacity :: "u64 \<Rightarrow> 's \<Rightarrow> 's option"
  v_SetStrictCapacityLimit :: "bool \<Rightarrow> 's \<Rightarrow> 's"
  v_GetUsage :: "'s \<Rightarrow> u64"
  v_GetPinnedUsage :: "'s \<Rightarrow> u64 option"
  v_ApplyToAllCacheEntries :: "'s \<Rightarrow> ('v \<times> u64) list option"
  v_EraseUnRefEntries :: "'s \<Rightarrow> 's option"

subsection \<open>The sharded cache\<close>

record 's ShardedCache =
  sc_num_shard_bits :: int
  sc_capacity :: u64
  sc_strict_capacity_limit :: bool
  sc_last_id :: u64
  sc_shards :: "'s list"

definition ShardedCache_init :: "u64 \<Rightarrow> int \<Rightarrow> bool \<Rightarrow> 's ShardedCache" where
  "ShardedCache_init capacity num_shard_bits strict_capacity_limit =
     \<lparr>sc_num_shard_bits = num_shard_bits, sc_capacity = capacity,
      sc_strict_capacity_limit = strict_capacity_limit, sc_last_id = 1, sc_shards = []\<rparr>"

text \<open>\<open>1 << num_shard_bits\<close> as an \<open>int\<close>: undefined for a negative or too large number of bits.\<close>

definition num_shards :: "int \<Rightarrow> nat option" where
  "num_shards num_shard_bits = (if 0 \<le> num_shard_bits \<and> num_shard_bits < 31 then Some (2 ^ nat num_shard_bits) else None)"

definition GetShard :: "nat \<Rightarrow> 's ShardedCache \<Rightarrow> 's option" where
  "GetShard i c = (if i < length (sc_shards c) then Some (sc_shards c ! i) else None)"

definition Shard :: "int \<Rightarrow> u32 \<Rightarrow> nat" where
  "Shard num_shard_bits hash = (if num_shard_bits > 0 then unat (drop_bit (nat (32 - num_shard_bits)) hash) else 0)"

text \<open>A call of a method of one shard, and the loops over the first \<open>n\<close> shards.\<close>

definition set_shard :: "nat \<Rightarrow> 's \<Rightarrow> 's ShardedCache \<Rightarrow> 's ShardedCache" where
  "set_shard i s c = c\<lparr>sc_shards := (sc_shards c)[i := s]\<rparr>"

fun for_shards :: "('s \<Rightarrow> 's option) \<Rightarrow> nat \<Rightarrow> 's ShardedCache \<Rightarrow> 's ShardedCache option" where
  "for_shards f 0 c = Some c"
| "for_shards f (Suc n) c = do {
     c \<leftarrow> for_shards f n c;
     s \<leftarrow> GetShard n c;
     s \<leftarrow> f s;
     Some (set_shard n s c)
   }"

fun sum_shards :: "('s \<Rightarrow> u64 option) \<Rightarrow> nat \<Rightarrow> 's ShardedCache \<Rightarrow> u64 option" where
  "sum_shards f 0 c = Some 0"
| "sum_shards f (Suc n) c = do {
     usage \<leftarrow> sum_shards f n c;
     s \<leftarrow> GetShard n c;
     u \<leftarrow> f s;
     Some (usage + u)
   }"

definition per_shard :: "u64 \<Rightarrow> nat \<Rightarrow> u64" where
  "per_shard capacity n = (capacity + (of_nat n - 1)) div of_nat n"

definition Sharded_SetCapacity :: "('s, 'v) CacheShard \<Rightarrow> u64 \<Rightarrow> 's ShardedCache \<Rightarrow> 's ShardedCache option" where
  "Sharded_SetCapacity vt capacity c = do {
     n \<leftarrow> num_shards (sc_num_shard_bits c);
     c \<leftarrow> for_shards (v_SetCapacity vt (per_shard capacity n)) n c;
     Some (c\<lparr>sc_capacity := capacity\<rparr>)
   }"

definition Sharded_SetStrictCapacityLimit :: "('s, 'v) CacheShard \<Rightarrow> bool \<Rightarrow> 's ShardedCache \<Rightarrow> 's ShardedCache option" where
  "Sharded_SetStrictCapacityLimit vt strict c = do {
     n \<leftarrow> num_shards (sc_num_shard_bits c);
     c \<leftarrow> for_shards (\<lambda>s. Some (v_SetStrictCapacityLimit vt strict s)) n c;
     Some (c\<lparr>sc_strict_capacity_limit := strict\<rparr>)
   }"

definition Sharded_Insert ::
    "('s, 'v) CacheShard \<Rightarrow> nat \<Rightarrow> byte \<Rightarrow> bytes \<Rightarrow> 'v \<Rightarrow> u64 \<Rightarrow> bool \<Rightarrow> bool \<Rightarrow> Priority \<Rightarrow> 's ShardedCache \<Rightarrow>
     (Status \<times> nat option \<times> 's ShardedCache) option" where
  "Sharded_Insert vt e g key value charge deleter handle priority c = do {
     let hash = HashSlice key;
     let i = Shard (sc_num_shard_bits c) hash;
     s \<leftarrow> GetShard i c;
     (st, r, s) \<leftarrow> v_Insert vt e g key hash value charge deleter handle priority s;
     Some (st, r, set_shard i s c)
   }"

definition Sharded_Lookup :: "('s, 'v) CacheShard \<Rightarrow> bytes \<Rightarrow> 's ShardedCache \<Rightarrow> (nat option \<times> 's ShardedCache) option" where
  "Sharded_Lookup vt key c = do {
     let hash = HashSlice key;
     let i = Shard (sc_num_shard_bits c) hash;
     s \<leftarrow> GetShard i c;
     (r, s) \<leftarrow> v_Lookup vt key hash s;
     Some (r, set_shard i s c)
   }"

text \<open>\<open>GetHash\<close> is virtual too; it follows the pointer it is given.\<close>

definition Sharded_Release ::
    "('s, 'v) CacheShard \<Rightarrow> ('s ShardedCache \<Rightarrow> nat option \<Rightarrow> u32 option) \<Rightarrow> nat option \<Rightarrow> 's ShardedCache \<Rightarrow> 's ShardedCache option" where
  "Sharded_Release vt GetHash handle c = do {
     hash \<leftarrow> GetHash c handle;
     let i = Shard (sc_num_shard_bits c) hash;
     s \<leftarrow> GetShard i c;
     s \<leftarrow> v_Release vt handle s;
     Some (set_shard i s c)
   }"

definition Sharded_Erase :: "('s, 'v) CacheShard \<Rightarrow> bytes \<Rightarrow> 's ShardedCache \<Rightarrow> 's ShardedCache option" where
  "Sharded_Erase vt key c = do {
     let hash = HashSlice key;
     let i = Shard (sc_num_shard_bits c) hash;
     s \<leftarrow> GetShard i c;
     s \<leftarrow> v_Erase vt key hash s;
     Some (set_shard i s c)
   }"

definition NewId :: "'s ShardedCache \<Rightarrow> u64 \<times> 's ShardedCache" where
  "NewId c = (sc_last_id c, c\<lparr>sc_last_id := sc_last_id c + 1\<rparr>)"

definition GetCapacity :: "'s ShardedCache \<Rightarrow> u64" where
  "GetCapacity c = sc_capacity c"

definition HasStrictCapacityLimit :: "'s ShardedCache \<Rightarrow> bool" where
  "HasStrictCapacityLimit c = sc_strict_capacity_limit c"

definition Sharded_GetUsage :: "('s, 'v) CacheShard \<Rightarrow> 's ShardedCache \<Rightarrow> u64 option" where
  "Sharded_GetUsage vt c = do {
     n \<leftarrow> num_shards (sc_num_shard_bits c);
     sum_shards (\<lambda>s. Some (v_GetUsage vt s)) n c
   }"

definition Sharded_GetPinnedUsage :: "('s, 'v) CacheShard \<Rightarrow> 's ShardedCache \<Rightarrow> u64 option" where
  "Sharded_GetPinnedUsage vt c = do {
     n \<leftarrow> num_shards (sc_num_shard_bits c);
     sum_shards (v_GetPinnedUsage vt) n c
   }"

definition Sharded_GetHandleUsage :: "('s ShardedCache \<Rightarrow> nat option \<Rightarrow> u64 option) \<Rightarrow> 's ShardedCache \<Rightarrow> nat option \<Rightarrow> u64 option" where
  "Sharded_GetHandleUsage GetCharge c handle = GetCharge c handle"

fun apply_shards :: "('s \<Rightarrow> 'a list option) \<Rightarrow> nat \<Rightarrow> 's ShardedCache \<Rightarrow> 'a list option" where
  "apply_shards f 0 c = Some []"
| "apply_shards f (Suc n) c = do {
     calls \<leftarrow> apply_shards f n c;
     s \<leftarrow> GetShard n c;
     new_calls \<leftarrow> f s;
     Some (calls @ new_calls)
   }"

definition Sharded_ApplyToAllCacheEntries :: "('s, 'v) CacheShard \<Rightarrow> 's ShardedCache \<Rightarrow> ('v \<times> u64) list option" where
  "Sharded_ApplyToAllCacheEntries vt c = do {
     n \<leftarrow> num_shards (sc_num_shard_bits c);
     apply_shards (v_ApplyToAllCacheEntries vt) n c
   }"

definition Sharded_EraseUnRefEntries :: "('s, 'v) CacheShard \<Rightarrow> 's ShardedCache \<Rightarrow> 's ShardedCache option" where
  "Sharded_EraseUnRefEntries vt c = do {
     n \<leftarrow> num_shards (sc_num_shard_bits c);
     for_shards (v_EraseUnRefEntries vt) n c
   }"

subsection \<open>The LRU cache\<close>

definition LRU_shard :: "('v LRUCacheShard, 'v) CacheShard" where
  "LRU_shard =
     \<lparr>v_Insert = Shard_Insert, v_Lookup = Shard_Lookup, v_Release = Shard_Release, v_Erase = Shard_Erase,
      v_SetCapacity = SetCapacity, v_SetStrictCapacityLimit = SetStrictCapacityLimit, v_GetUsage = Shard_GetUsage,
      v_GetPinnedUsage = Shard_GetPinnedUsage, v_ApplyToAllCacheEntries = Shard_ApplyToAllCacheEntries,
      v_EraseUnRefEntries = EraseUnRefEntries\<rparr>"

text \<open>
  The constructor. \<open>new LRUCacheShard[n]\<close> leaves members of every shard uninitialised; \<open>junk\<close>
  says what the \<open>i\<close>-th one finds there.
\<close>

fun new_shards :: "(nat \<Rightarrow> u64 \<times> bool \<times> rat \<times> rat) \<Rightarrow> nat \<Rightarrow> 'v LRUCacheShard list option" where
  "new_shards junk 0 = Some []"
| "new_shards junk (Suc n) = do {
     ss \<leftarrow> new_shards junk n;
     s \<leftarrow> (case junk n of (capacity, strict, ratio, pool_capacity) \<Rightarrow> LRUCacheShard_init capacity strict ratio pool_capacity);
     Some (ss @ [s])
   }"

definition LRUCache_init ::
    "(nat \<Rightarrow> u64 \<times> bool \<times> rat \<times> rat) \<Rightarrow> u64 \<Rightarrow> int \<Rightarrow> bool \<Rightarrow> rat \<Rightarrow> 'v LRUCacheShard ShardedCache option" where
  "LRUCache_init junk capacity num_shard_bits strict_capacity_limit high_pri_pool_ratio = do {
     let c = ShardedCache_init capacity num_shard_bits strict_capacity_limit;
     n \<leftarrow> num_shards num_shard_bits;
     ss \<leftarrow> new_shards junk n;
     c \<leftarrow> Sharded_SetCapacity LRU_shard capacity (c\<lparr>sc_shards := ss\<rparr>);
     c \<leftarrow> Sharded_SetStrictCapacityLimit LRU_shard strict_capacity_limit c;
     for_shards (SetHighPriorityPoolRatio high_pri_pool_ratio) n c
   }"

text \<open>The entry a handle points to: the memory of all shards is one address space.\<close>

definition handle_entry :: "'v LRUCacheShard ShardedCache \<Rightarrow> nat option \<Rightarrow> 'v LRUHandle option" where
  "handle_entry c handle = do {
     e \<leftarrow> handle;
     s \<leftarrow> List.find (\<lambda>s. hp_handle (s_heap s) e \<noteq> None) (sc_shards c);
     hp_handle (s_heap s) e
   }"

definition LRUCache_Value :: "'v LRUCacheShard ShardedCache \<Rightarrow> nat option \<Rightarrow> 'v option" where
  "LRUCache_Value c handle = map_option h_value (handle_entry c handle)"

definition LRUCache_GetCharge :: "'v LRUCacheShard ShardedCache \<Rightarrow> nat option \<Rightarrow> u64 option" where
  "LRUCache_GetCharge c handle = map_option h_charge (handle_entry c handle)"

definition LRUCache_GetHash :: "'v LRUCacheShard ShardedCache \<Rightarrow> nat option \<Rightarrow> u32 option" where
  "LRUCache_GetHash c handle = map_option h_hash (handle_entry c handle)"

definition LRUCache_DisownData :: "'v LRUCacheShard ShardedCache \<Rightarrow> 'v LRUCacheShard ShardedCache" where
  "LRUCache_DisownData c = c\<lparr>sc_shards := []\<rparr>"

fun destroy_shards :: "'v LRUCacheShard list \<Rightarrow> 'v LRUCacheShard list option" where
  "destroy_shards [] = Some []"
| "destroy_shards (s # ss) = do {
     ss \<leftarrow> destroy_shards ss;
     s \<leftarrow> LRUCacheShard_destroy s;
     Some (s # ss)
   }"

definition LRUCache_destroy :: "'v LRUCacheShard ShardedCache \<Rightarrow> 'v LRUCacheShard ShardedCache option" where
  "LRUCache_destroy c = do { ss \<leftarrow> destroy_shards (sc_shards c); Some (c\<lparr>sc_shards := ss\<rparr>) }"

text \<open>\<open>NewLRUCache\<close>: the inner option is the null pointer.\<close>

definition NewLRUCache ::
    "(nat \<Rightarrow> u64 \<times> bool \<times> rat \<times> rat) \<Rightarrow> u64 \<Rightarrow> int \<Rightarrow> bool \<Rightarrow> rat \<Rightarrow> 'v LRUCacheShard ShardedCache option option" where
  "NewLRUCache junk capacity num_shard_bits strict_capacity_limit high_pri_pool_ratio =
     (if num_shard_bits \<ge> 20 then Some None
      else if high_pri_pool_ratio < 0 \<or> high_pri_pool_ratio > 1 then Some None
      else map_option Some (LRUCache_init junk capacity num_shard_bits strict_capacity_limit high_pri_pool_ratio))"

subsection \<open>Choosing a shard\<close>

lemma num_shards_less: "b < 20 \<Longrightarrow> 0 \<le> b \<Longrightarrow> num_shards b = Some (2 ^ nat b)"
  by (simp add: num_shards_def)

lemma Shard_less:
  assumes "0 \<le> b" "b < 20"
  shows "Shard b hash < 2 ^ nat b"
proof (cases "b = 0")
  case False
  with assms obtain n where n: "b = int n" "0 < n" "n < 20" by (metis zero_less_imp_eq_int of_nat_less_numeral_iff order_le_imp_less_or_eq)
  have "unat (drop_bit (32 - n) hash) = unat hash div 2 ^ (32 - n)" by (subst unat_drop_bit_eq) (rule drop_bit_eq_div)
  also have "\<dots> < 2 ^ n"
  proof (rule less_mult_imp_div_less)
    have "unat hash < 2 ^ 32" using unsigned_less [of hash, where 'a = nat] by simp
    also have "(2 ^ 32 :: nat) = 2 ^ n * 2 ^ (32 - n)" using n(3) by (simp flip: power_add)
    finally show "unat hash < 2 ^ n * 2 ^ (32 - n)" .
  qed
  finally show ?thesis using n by (simp add: Shard_def nat_diff_distrib)
qed (simp add: Shard_def)

lemma GetShard_set [simp]:
  "GetShard i (set_shard j s c) = (if i = j \<and> i < length (sc_shards c) then Some s else GetShard i c)"
  by (auto simp: GetShard_def set_shard_def)

lemma set_shard_frame [simp]:
  "sc_num_shard_bits (set_shard j s c) = sc_num_shard_bits c" "sc_capacity (set_shard j s c) = sc_capacity c"
  "sc_strict_capacity_limit (set_shard j s c) = sc_strict_capacity_limit c" "sc_last_id (set_shard j s c) = sc_last_id c"
  "length (sc_shards (set_shard j s c)) = length (sc_shards c)"
  by (simp_all add: set_shard_def)

text \<open>A loop over the shards applies the function to each of the first \<open>n\<close> once.\<close>

lemma for_shards_law:
  assumes "n \<le> length (sc_shards c)" and "\<And>i. i < n \<Longrightarrow> f (sc_shards c ! i) = Some (g i)"
  shows "for_shards f n c = Some (c\<lparr>sc_shards := map g [0..<n] @ drop n (sc_shards c)\<rparr>)"
  using assms
proof (induction n)
  case (Suc n)
  let ?c = "c\<lparr>sc_shards := map g [0..<n] @ drop n (sc_shards c)\<rparr>"
  have ih: "for_shards f n c = Some ?c" using Suc by simp
  have "GetShard n ?c = Some (sc_shards c ! n)" using Suc.prems(1) by (simp add: GetShard_def nth_append)
  moreover have "(map g [0..<n] @ drop n (sc_shards c))[n := g n] = map g [0..<Suc n] @ drop (Suc n) (sc_shards c)"
    using Suc.prems(1) by (simp add: list_update_append Cons_nth_drop_Suc [symmetric])
  ultimately show ?case using ih Suc.prems(2) by (simp add: set_shard_def)
qed simp

lemma sum_shards_law:
  assumes "n \<le> length (sc_shards c)" and "\<And>i. i < n \<Longrightarrow> f (sc_shards c ! i) = Some (g i)"
  shows "sum_shards f n c = Some (\<Sum>i<n. g i)"
  using assms by (induction n) (auto simp: GetShard_def)

lemma apply_shards_law:
  assumes "n \<le> length (sc_shards c)" and "\<And>i. i < n \<Longrightarrow> f (sc_shards c ! i) = Some (g i)"
  shows "apply_shards f n c = Some (concat (map g [0..<n]))"
  using assms by (induction n) (auto simp: GetShard_def)

subsection \<open>The contract of a shard and what the sharded cache makes of it\<close>

text \<open>The shards are all there and in order; what the cache as a whole holds.\<close>

definition whole :: "(nat multiset \<Rightarrow> 's \<Rightarrow> bool) \<Rightarrow> nat multiset list \<Rightarrow> 's ShardedCache \<Rightarrow> bool" where
  "whole ok helds c \<longleftrightarrow> 0 \<le> sc_num_shard_bits c \<and> sc_num_shard_bits c < 20 \<and>
     length (sc_shards c) = 2 ^ nat (sc_num_shard_bits c) \<and> length helds = length (sc_shards c) \<and>
     (\<forall>i<length (sc_shards c). ok (helds ! i) (sc_shards c ! i))"

definition holds :: "('s \<Rightarrow> bytes \<times> u32 \<Rightarrow> ('v \<times> u64) option) \<Rightarrow> 's ShardedCache \<Rightarrow> bytes \<Rightarrow> ('v \<times> u64) option" where
  "holds content c key = content (sc_shards c ! Shard (sc_num_shard_bits c) (HashSlice key)) (key, HashSlice key)"

text \<open>
  \<open>inv held s\<close> is the invariant of a shard whose client holds the handles \<open>held\<close>; \<open>fits\<close> says
  that a new entry can be added without overflow at an address that is free.
\<close>

locale cache_shard =
  fixes vt :: "('s, 'v) CacheShard"
    and inv :: "nat multiset \<Rightarrow> 's \<Rightarrow> bool"
    and content :: "'s \<Rightarrow> bytes \<times> u32 \<Rightarrow> ('v \<times> u64) option"
    and entry :: "'s \<Rightarrow> nat \<Rightarrow> ('v \<times> u64) option"
    and fits :: "nat \<Rightarrow> u64 \<Rightarrow> 's \<Rightarrow> bool"
  assumes lookup: "inv held s \<Longrightarrow> size held < 2 ^ 32 - 2 \<Longrightarrow>
      \<exists>r s'. v_Lookup vt key hash s = Some (r, s') \<and> content s' = content s \<and>
        inv (case r of None \<Rightarrow> held | Some e \<Rightarrow> add_mset e held) s' \<and>
        content s (key, hash) = (case r of None \<Rightarrow> None | Some e \<Rightarrow> entry s' e) \<and>
        (case r of None \<Rightarrow> True | Some e \<Rightarrow> entry s' e \<noteq> None)"
    and erase: "inv held s \<Longrightarrow>
      \<exists>s'. v_Erase vt key hash s = Some s' \<and> content s' = (content s)((key, hash) := None) \<and> inv held s'"
    and insert: "inv held s \<Longrightarrow> fits e charge s \<Longrightarrow>
      \<exists>st r s'. v_Insert vt e g key hash value charge deleter handle priority s = Some (st, r, s') \<and>
        inv (case r of None \<Rightarrow> held | Some a \<Rightarrow> add_mset a held) s' \<and>
        (r \<noteq> None \<longrightarrow> content s' (key, hash) = Some (value, charge)) \<and>
        (\<forall>x. x \<noteq> (key, hash) \<longrightarrow> content s' x = content s x \<or> content s' x = None)"
begin

lemma whole_shard:
  assumes "whole inv helds c"
  shows "Shard (sc_num_shard_bits c) hash < length (sc_shards c)"
    "GetShard (Shard (sc_num_shard_bits c) hash) c = Some (sc_shards c ! Shard (sc_num_shard_bits c) hash)"
    "inv (helds ! Shard (sc_num_shard_bits c) hash) (sc_shards c ! Shard (sc_num_shard_bits c) hash)"
  using assms Shard_less [of "sc_num_shard_bits c" hash] by (simp_all add: whole_def GetShard_def)

text \<open>A change in the shard of one key.\<close>

lemma whole_set:
  assumes "whole inv helds c" and "inv held s'" and "i < length (sc_shards c)"
  shows "whole inv (helds[i := held]) (set_shard i s' c)"
  using assms by (auto simp: whole_def set_shard_def nth_list_update)

lemma holds_set:
  assumes "i < length (sc_shards c)" and "i = Shard (sc_num_shard_bits c) (HashSlice key)"
  shows "holds content (set_shard i s' c) key = content s' (key, HashSlice key)"
    "\<And>k. (content s' (k, HashSlice k) = content (sc_shards c ! i) (k, HashSlice k)) \<Longrightarrow> holds content (set_shard i s' c) k = holds content c k"
    "\<And>k. content s' (k, HashSlice k) = content (sc_shards c ! i) (k, HashSlice k) \<or> content s' (k, HashSlice k) = None \<Longrightarrow>
      holds content (set_shard i s' c) k = holds content c k \<or> holds content (set_shard i s' c) k = None"
  using assms by (auto simp: holds_def set_shard_def nth_list_update)

lemma sharded_lookup:
  assumes w: "whole inv helds c" and room: "size (helds ! Shard (sc_num_shard_bits c) (HashSlice key)) < 2 ^ 32 - 2"
  shows "\<exists>r c' helds'. Sharded_Lookup vt key c = Some (r, c') \<and> whole inv helds' c' \<and> holds content c' = holds content c \<and>
    holds content c key = (case r of None \<Rightarrow> None | Some e \<Rightarrow> entry (sc_shards c' ! Shard (sc_num_shard_bits c) (HashSlice key)) e) \<and>
    (r = None \<longleftrightarrow> holds content c key = None)"
proof -
  define i where "i = Shard (sc_num_shard_bits c) (HashSlice key)"
  note ws = whole_shard [OF w, of "HashSlice key", folded i_def]
  from lookup [OF ws(3) room [folded i_def], of key "HashSlice key"] obtain r s' where l:
    "v_Lookup vt key (HashSlice key) (sc_shards c ! i) = Some (r, s')" "content s' = content (sc_shards c ! i)"
    "inv (case r of None \<Rightarrow> helds ! i | Some e \<Rightarrow> add_mset e (helds ! i)) s'"
    "content (sc_shards c ! i) (key, HashSlice key) = (case r of None \<Rightarrow> None | Some e \<Rightarrow> entry s' e)"
    "case r of None \<Rightarrow> True | Some e \<Rightarrow> entry s' e \<noteq> None"
    by blast
  have run: "Sharded_Lookup vt key c = Some (r, set_shard i s' c)"
    using l(1) ws(2) by (simp add: Sharded_Lookup_def i_def [symmetric])
  have at: "sc_shards (set_shard i s' c) ! i = s'" using ws(1) by (simp add: set_shard_def)
  have same: "holds content (set_shard i s' c) k = holds content c k" for k by (rule holds_set(2) [OF ws(1) i_def]) (simp add: l(2))
  have "holds content c key = (case r of None \<Rightarrow> None | Some e \<Rightarrow> entry s' e)" using l(4) by (simp add: holds_def i_def [symmetric])
  with run whole_set [OF w l(3) ws(1)] same l(5) show ?thesis
    unfolding i_def [symmetric] by (intro exI [of _ r] exI [of _ "set_shard i s' c"]
        exI [of _ "helds[i := (case r of None \<Rightarrow> helds ! i | Some e \<Rightarrow> add_mset e (helds ! i))]"]) (auto simp: at fun_eq_iff split: option.splits)
qed

lemma sharded_erase:
  assumes w: "whole inv helds c"
  shows "\<exists>c'. Sharded_Erase vt key c = Some c' \<and> whole inv helds c' \<and> holds content c' = (holds content c)(key := None)"
proof -
  define i where "i = Shard (sc_num_shard_bits c) (HashSlice key)"
  note ws = whole_shard [OF w, of "HashSlice key", folded i_def]
  from erase [OF ws(3), of key "HashSlice key"] obtain s' where l: "v_Erase vt key (HashSlice key) (sc_shards c ! i) = Some s'"
    "content s' = (content (sc_shards c ! i))((key, HashSlice key) := None)" "inv (helds ! i) s'"
    by blast
  have "Sharded_Erase vt key c = Some (set_shard i s' c)"
    using l(1) ws(2) by (simp add: Sharded_Erase_def i_def [symmetric])
  moreover have "holds content (set_shard i s' c) = (holds content c)(key := None)"
    using holds_set [OF ws(1) i_def, of s'] l(2) by (auto simp: fun_eq_iff)
  ultimately show ?thesis using whole_set [OF w l(3) ws(1)] by auto
qed

lemma sharded_insert:
  assumes w: "whole inv helds c" and f: "fits e charge (sc_shards c ! Shard (sc_num_shard_bits c) (HashSlice key))"
  shows "\<exists>st r c'. Sharded_Insert vt e g key value charge deleter handle priority c = Some (st, r, c') \<and>
    (let i = Shard (sc_num_shard_bits c) (HashSlice key)
     in whole inv (helds[i := (case r of None \<Rightarrow> helds ! i | Some a \<Rightarrow> add_mset a (helds ! i))]) c') \<and> sc_num_shard_bits c' = sc_num_shard_bits c \<and>
    (r \<noteq> None \<longrightarrow> holds content c' key = Some (value, charge)) \<and>
    (\<forall>k. k \<noteq> key \<longrightarrow> holds content c' k = holds content c k \<or> holds content c' k = None)"
proof -
  define i where "i = Shard (sc_num_shard_bits c) (HashSlice key)"
  note ws = whole_shard [OF w, of "HashSlice key", folded i_def]
  from insert [OF ws(3) f [folded i_def], of g key "HashSlice key" "value" deleter handle priority] obtain st r s' where l:
    "v_Insert vt e g key (HashSlice key) value charge deleter handle priority (sc_shards c ! i) = Some (st, r, s')"
    "inv (case r of None \<Rightarrow> helds ! i | Some a \<Rightarrow> add_mset a (helds ! i)) s'"
    "r \<noteq> None \<longrightarrow> content s' (key, HashSlice key) = Some (value, charge)"
    "\<forall>x. x \<noteq> (key, HashSlice key) \<longrightarrow> content s' x = content (sc_shards c ! i) x \<or> content s' x = None"
    by blast
  have "Sharded_Insert vt e g key value charge deleter handle priority c = Some (st, r, set_shard i s' c)"
    using l(1) ws(2) by (simp add: Sharded_Insert_def i_def [symmetric])
  moreover have "r \<noteq> None \<longrightarrow> holds content (set_shard i s' c) key = Some (value, charge)"
    using holds_set(1) [OF ws(1) i_def] l(3) by simp
  moreover have "holds content (set_shard i s' c) k = holds content c k \<or> holds content (set_shard i s' c) k = None" if "k \<noteq> key" for k
    by (rule holds_set(3) [OF ws(1) i_def]) (use l(4) that in simp)
  ultimately show ?thesis using whole_set [OF w l(2) ws(1)] unfolding i_def [symmetric] Let_def
    by (intro exI [of _ st] exI [of _ r] exI [of _ "set_shard i s' c"]) simp
qed

end

subsection \<open>The LRU shard keeps the contract\<close>

definition lru_inv :: "nat multiset \<Rightarrow> 'v LRUCacheShard \<Rightarrow> bool" where
  "lru_inv held s \<longleftrightarrow> shard_inv held s \<and> 0 \<le> s_high_pri_pool_ratio s"

definition lru_entry :: "'v LRUCacheShard \<Rightarrow> nat \<Rightarrow> ('v \<times> u64) option" where
  "lru_entry s e = map_option (\<lambda>c. (h_value c, h_charge c)) (hp_handle (s_heap s) e)"

definition lru_fits :: "nat \<Rightarrow> u64 \<Rightarrow> 'v LRUCacheShard \<Rightarrow> bool" where
  "lru_fits e charge s \<longleftrightarrow> hp_handle (s_heap s) e = None \<and> e \<noteq> lru_addr \<and>
     unat (s_usage s) + unat charge < 2 ^ 64 \<and> 3 * (card (entries s) + 1) \<le> 2 ^ 32"

lemma lru_keeps_ratio:
  assumes "lru_inv held s" and "client_ok op (held, s)" and "shard_run op (held, s) = Some (held', s')"
  shows "lru_inv held' s'"
  using client_step [of "(held, s)" op] assms by (simp add: client_inv_def lru_inv_def)

interpretation lru: cache_shard LRU_shard lru_inv contents lru_entry lru_fits
proof unfold_locales
  fix held key hash and s :: "'v LRUCacheShard"
  assume inv: "lru_inv held s" and room: "size held < 2 ^ 32 - 2"
  from Lookup_contents [OF conjunct1 [OF inv [unfolded lru_inv_def]] room, of key hash] obtain r s' where l:
    "Shard_Lookup key hash s = Some (r, s')" "contents s' = contents s"
    "case r of None \<Rightarrow> contents s (key, hash) = None
     | Some e \<Rightarrow> \<exists>c. hp_handle (s_heap s') e = Some c \<and> contents s (key, hash) = Some (h_value c, h_charge c)"
    by blast
  have "lru_inv (case r of None \<Rightarrow> held | Some e \<Rightarrow> add_mset e held) s'"
    by (rule lru_keeps_ratio [OF inv, of "OpLookup key hash"]) (use l(1) room in simp_all)
  with l show "\<exists>r s'. v_Lookup LRU_shard key hash s = Some (r, s') \<and> contents s' = contents s \<and>
      lru_inv (case r of None \<Rightarrow> held | Some e \<Rightarrow> add_mset e held) s' \<and>
      contents s (key, hash) = (case r of None \<Rightarrow> None | Some e \<Rightarrow> lru_entry s' e) \<and>
      (case r of None \<Rightarrow> True | Some e \<Rightarrow> lru_entry s' e \<noteq> None)"
    by (auto simp: LRU_shard_def lru_entry_def split: option.splits)
next
  fix held key hash and s :: "'v LRUCacheShard"
  assume inv: "lru_inv held s"
  from Erase_contents [OF conjunct1 [OF inv [unfolded lru_inv_def]], of key hash] obtain s' where l:
    "Shard_Erase key hash s = Some s'" "contents s' = (contents s)((key, hash) := None)" by blast
  moreover have "lru_inv held s'"
    by (rule lru_keeps_ratio [OF inv, of "OpErase key hash"]) (use l(1) in simp_all)
  ultimately show "\<exists>s'. v_Erase LRU_shard key hash s = Some s' \<and> contents s' = (contents s)((key, hash) := None) \<and> lru_inv held s'"
    by (simp add: LRU_shard_def)
next
  fix held e charge g key hash "value" deleter handle priority and s :: "'v LRUCacheShard"
  assume inv: "lru_inv held s" and fits: "lru_fits e charge s"
  then have f: "hp_handle (s_heap s) e = None" "e \<noteq> lru_addr" "unat (s_usage s) + unat charge < 2 ^ 64"
      "3 * (card (entries s) + 1) \<le> 2 ^ 32"
    by (simp_all add: lru_fits_def)
  from Insert_contents [OF conjunct1 [OF inv [unfolded lru_inv_def]] f, of handle g key hash "value" deleter priority]
  obtain st r s' where l: "Shard_Insert e g key hash value charge deleter handle priority s = Some (st, r, s')"
      "r \<noteq> None \<longrightarrow> contents s' (key, hash) = Some (value, charge)"
      "\<forall>x. x \<noteq> (key, hash) \<longrightarrow> contents s' x = contents s x \<or> contents s' x = None"
    by (auto split: if_splits)
  have "lru_inv (case r of None \<Rightarrow> held | Some a \<Rightarrow> add_mset a held) s'"
    by (rule lru_keeps_ratio [OF inv, of "OpInsert e g key hash value charge deleter handle priority"]) (use l(1) f in simp_all)
  with l show "\<exists>st r s'. v_Insert LRU_shard e g key hash value charge deleter handle priority s = Some (st, r, s') \<and>
      lru_inv (case r of None \<Rightarrow> held | Some a \<Rightarrow> add_mset a held) s' \<and>
      (r \<noteq> None \<longrightarrow> contents s' (key, hash) = Some (value, charge)) \<and>
      (\<forall>x. x \<noteq> (key, hash) \<longrightarrow> contents s' x = contents s x \<or> contents s' x = None)"
    by (auto simp: LRU_shard_def)
qed

subsection \<open>The constructor\<close>

lemma init_any:
  assumes "LRUCacheShard_init capacity strict ratio pc = Some (s :: 'v LRUCacheShard)"
  shows "LRUCacheShard_init capacity' strict' ratio' pc' = Some (s\<lparr>s_capacity := capacity', s_strict_capacity_limit := strict',
    s_high_pri_pool_ratio := ratio', s_high_pri_pool_capacity := pc'\<rparr>)"
    "s_usage s = 0" "s_high_pri_pool_usage s = 0"
  using assms by (auto simp: LRUCacheShard_init_def bind_eq_Some_conv)

text \<open>
  What the constructor leaves uninitialised does not matter: setting capacity, limit and
  ratio makes a shard as if it had been created with them.
\<close>

lemma configure_shard:
  fixes s :: "'v LRUCacheShard"
  assumes init: "LRUCacheShard_init capacity strict ratio pc = Some s" and ratio: "0 \<le> r"
  obtains s1 s2 s3 where "SetCapacity cap s = Some s1" "SetStrictCapacityLimit limit s1 = s2" "SetHighPriorityPoolRatio r s2 = Some s3"
    "LRUCacheShard_init cap limit r (double (double_of_size cap * r)) = Some s3"
proof -
  note a = init_any [OF init]
  let ?s1 = "s\<lparr>s_capacity := cap, s_high_pri_pool_capacity := double (double_of_size cap * s_high_pri_pool_ratio s)\<rparr>"
  let ?s2 = "?s1\<lparr>s_strict_capacity_limit := limit\<rparr>"
  let ?s3 = "?s2\<lparr>s_high_pri_pool_ratio := r, s_high_pri_pool_capacity := double (double_of_size cap * r)\<rparr>"
  have nn: "0 \<le> double (double_of_size cap * r)"
    by (intro double_nonneg mult_nonneg_nonneg double_of_size_nonneg ratio)
  have "SetCapacity cap s = Some ?s1"
    using a(2) by (simp add: SetCapacity_def EvictFromLRU.simps [of 0 "[]"])
  moreover have "SetStrictCapacityLimit limit ?s1 = ?s2" by (simp add: SetStrictCapacityLimit_def)
  moreover have "SetHighPriorityPoolRatio r ?s2 = Some ?s3"
    using a(3) nn by (simp add: SetHighPriorityPoolRatio_def MaintainPoolSize.simps [of "_ :: 'v LRUCacheShard"] not_less)
  moreover have "LRUCacheShard_init cap limit r (double (double_of_size cap * r)) = Some ?s3"
    unfolding a(1) by simp
  ultimately show thesis by (rule that)
qed

lemma new_shards_law:
  "\<exists>ss :: 'v LRUCacheShard list. new_shards junk n = Some ss \<and> length ss = n \<and>
     (\<forall>i<n. \<exists>a b c d. LRUCacheShard_init a b c d = Some (ss ! i))"
proof (induction n)
  case (Suc n)
  obtain a b c d where j: "junk n = (a, b, c, d)" by (cases "junk n")
  obtain s0 :: "'v LRUCacheShard" where "LRUCacheShard_init a b c 0 = Some s0"
    by (rule LRUCacheShard_init_inv [of 0 a b c]) simp_all
  from init_any(1) [OF this, of a b c d] obtain s :: "'v LRUCacheShard" where s: "LRUCacheShard_init a b c d = Some s" by blast
  from Suc obtain ss :: "'v LRUCacheShard list" where ss: "new_shards junk n = Some ss" "length ss = n"
      "\<forall>i<n. \<exists>a b c d. LRUCacheShard_init a b c d = Some (ss ! i)" by blast
  have "\<exists>a b c d. LRUCacheShard_init a b c d = Some ((ss @ [s]) ! i)" if "i < Suc n" for i
    using that ss(2,3) s by (cases "i = n") (auto simp: nth_append)
  with ss s j show ?case by auto
qed simp

lemma LRUCache_init_law:
  assumes b: "0 \<le> bits" "bits < 20" and ratio: "0 \<le> ratio"
  obtains c :: "'v LRUCacheShard ShardedCache" where "LRUCache_init junk capacity bits strict ratio = Some c"
    "sc_num_shard_bits c = bits" "sc_capacity c = capacity" "sc_strict_capacity_limit c = strict" "length (sc_shards c) = 2 ^ nat bits"
    "\<And>i. i < 2 ^ nat bits \<Longrightarrow> \<exists>pc\<ge>0. LRUCacheShard_init (per_shard capacity (2 ^ nat bits)) strict ratio pc = Some (sc_shards c ! i)"
proof -
  define n :: nat where "n = 2 ^ nat bits"
  define cap where "cap = per_shard capacity n"
  define pc where "pc = double (double_of_size cap * ratio)"
  have n: "num_shards bits = Some n" using num_shards_less [OF b(2,1)] by (simp add: n_def)
  from new_shards_law [of junk n] obtain ss :: "'v LRUCacheShard list" where ss: "new_shards junk n = Some ss" "length ss = n"
      "\<forall>i<n. \<exists>a b c d. LRUCacheShard_init a b c d = Some (ss ! i)" by blast
  have "\<exists>s1 s3. SetCapacity cap (ss ! i) = Some s1 \<and> SetHighPriorityPoolRatio ratio (SetStrictCapacityLimit strict s1) = Some s3 \<and>
      LRUCacheShard_init cap strict ratio pc = Some s3" if "i < n" for i
    using ss(3) that configure_shard [OF _ ratio, of _ _ _ _ "ss ! i" cap strict] unfolding pc_def by metis
  then obtain f1 f3 where f: "SetCapacity cap (ss ! i) = Some (f1 i)"
      "SetHighPriorityPoolRatio ratio (SetStrictCapacityLimit strict (f1 i)) = Some (f3 i)"
      "LRUCacheShard_init cap strict ratio pc = Some (f3 i)" if "i < n" for i by metis
  let ?c0 = "(ShardedCache_init capacity bits strict)\<lparr>sc_shards := ss\<rparr> :: 'v LRUCacheShard ShardedCache"
  let ?c1 = "?c0\<lparr>sc_shards := map f1 [0..<n]\<rparr>" let ?c2 = "?c0\<lparr>sc_shards := map (\<lambda>i. SetStrictCapacityLimit strict (f1 i)) [0..<n]\<rparr>"
  let ?c3 = "?c0\<lparr>sc_shards := map f3 [0..<n]\<rparr>"
  have "for_shards (SetCapacity cap) n ?c0 = Some ?c1"
    using for_shards_law [of n ?c0 "SetCapacity cap" f1] f(1) ss(2) by simp
  then have 1: "Sharded_SetCapacity LRU_shard capacity ?c0 = Some ?c1"
    using n by (simp add: Sharded_SetCapacity_def LRU_shard_def cap_def ShardedCache_init_def)
  have "for_shards (\<lambda>s. Some (SetStrictCapacityLimit strict s)) n ?c1 = Some ?c2"
    using for_shards_law [of n ?c1 "\<lambda>s. Some (SetStrictCapacityLimit strict s)" "\<lambda>i. SetStrictCapacityLimit strict (f1 i)"] by simp
  then have 2: "Sharded_SetStrictCapacityLimit LRU_shard strict ?c1 = Some ?c2"
    using n by (simp add: Sharded_SetStrictCapacityLimit_def LRU_shard_def ShardedCache_init_def)
  have 3: "for_shards (SetHighPriorityPoolRatio ratio) n ?c2 = Some ?c3"
    using for_shards_law [of n ?c2 "SetHighPriorityPoolRatio ratio" f3] f(2) by simp
  have run: "LRUCache_init junk capacity bits strict ratio = Some ?c3"
    using n ss(1) 1 2 3 by (simp add: LRUCache_init_def)
  have "0 \<le> pc" unfolding pc_def by (intro double_nonneg mult_nonneg_nonneg double_of_size_nonneg ratio)
  then show thesis
    by (intro that [OF run]) (use f(3) in \<open>auto simp: ShardedCache_init_def n_def cap_def\<close>)
qed

lemma fresh_contents:
  fixes s :: "'v LRUCacheShard"
  assumes "LRUCacheShard_init capacity strict ratio pc = Some s" "0 \<le> ratio" "0 \<le> pc"
  shows "lru_inv {#} s" "contents s x = None" "s_usage s = 0" "hp_handle (s_heap s) a = None" "entries s = {}" "s_capacity s = capacity"
proof -
  have r: "reachable ({#}, s)" by (rule reach_init [OF assms])
  obtain s' :: "'v LRUCacheShard" where s': "LRUCacheShard_init capacity strict ratio pc = Some s'" "allocated (s_heap s') = {}"
    by (rule LRUCacheShard_init_inv [OF assms(3), of capacity strict ratio])
  then have A: "allocated (s_heap s) = {}" using assms(1) by simp
  show "lru_inv {#} s" using reachable_shard [OF r] by (simp add: lru_inv_def)
  show "hp_handle (s_heap s) a = None" for a using A by (auto simp: allocated_def dom_def)
  then show e: "entries s = {}" by (auto simp: entries_def incache_def)
  show "contents s x = None"
    using contents_None [OF conjunct1 [OF reachable_shard [OF r]], of "fst x" "snd x"] e by (simp add: entries_def)
  show "s_usage s = 0" "s_capacity s = capacity" using assms(1) by (auto simp: LRUCacheShard_init_def bind_eq_Some_conv)
qed

lemma NewLRUCache_law:
  assumes b: "0 \<le> bits" "bits < 20" and ratio: "0 \<le> ratio" "ratio \<le> 1"
  obtains c :: "'v LRUCacheShard ShardedCache" where "NewLRUCache junk capacity bits strict ratio = Some (Some c)"
    "whole lru_inv (replicate (2 ^ nat bits) {#}) c" "holds contents c = (\<lambda>_. None)" "sc_num_shard_bits c = bits"
    "GetCapacity c = capacity" "HasStrictCapacityLimit c = strict"
    "\<forall>s\<in>set (sc_shards c). s_capacity s = per_shard capacity (2 ^ nat bits) \<and> s_usage s = 0 \<and> (\<forall>a. hp_handle (s_heap s) a = None) \<and> entries s = {}"
proof -
  obtain c :: "'v LRUCacheShard ShardedCache" where c: "LRUCache_init junk capacity bits strict ratio = Some c"
    "sc_num_shard_bits c = bits" "sc_capacity c = capacity" "sc_strict_capacity_limit c = strict" "length (sc_shards c) = 2 ^ nat bits"
    "\<forall>i<2 ^ nat bits. \<exists>pc\<ge>0. LRUCacheShard_init (per_shard capacity (2 ^ nat bits)) strict ratio pc = Some (sc_shards c ! i)"
    by (rule LRUCache_init_law [OF b ratio(1), of junk capacity strict]) (rule that; blast)
  have f: "lru_inv {#} s \<and> contents s x = None \<and> s_usage s = 0 \<and> (\<forall>a. hp_handle (s_heap s) a = None) \<and> entries s = {} \<and>
      s_capacity s = per_shard capacity (2 ^ nat bits)" if "s \<in> set (sc_shards c)" for s x
  proof -
    from that obtain i where "i < 2 ^ nat bits" "s = sc_shards c ! i" using c(5) by (metis in_set_conv_nth)
    with c(6) obtain pc where "0 \<le> pc" "LRUCacheShard_init (per_shard capacity (2 ^ nat bits)) strict ratio pc = Some s" by blast
    from fresh_contents [OF this(2) ratio(1) this(1)] show ?thesis by blast
  qed
  have "whole lru_inv (replicate (2 ^ nat bits) {#}) c" using f c(2,5) b by (simp add: whole_def)
  moreover have "holds contents c = (\<lambda>_. None)"
  proof
    fix key
    have "sc_shards c ! Shard bits (HashSlice key) \<in> set (sc_shards c)" using Shard_less [OF b] c(5) by simp
    then show "holds contents c key = None" using f c(2) by (simp add: holds_def)
  qed
  ultimately show thesis
    using b(2) ratio c(1-4) f by (intro that [of c]) (simp_all add: NewLRUCache_def GetCapacity_def HasStrictCapacityLimit_def not_less)
qed

lemma shard_count_le: "0 \<le> bits \<Longrightarrow> bits < 20 \<Longrightarrow> (2 :: nat) ^ nat bits \<le> 2 ^ 19"
  by (rule power_increasing) auto

lemma per_shard_unat:
  assumes "0 < n" "n \<le> 2 ^ 19"
  shows "unat (per_shard capacity n) = (unat (capacity + (of_nat n - 1)) div n)"
    "unat (of_nat n - 1 :: u64) = n - 1"
proof -
  have n: "unat (of_nat n :: u64) = n" using assms(2) by (subst unat_of_nat) simp
  show "unat (per_shard capacity n) = (unat (capacity + (of_nat n - 1)) div n)" by (simp add: per_shard_def unat_div n)
  have "(1 :: u64) \<le> of_nat n" using assms(1) by (simp add: word_le_nat_alt n)
  then show "unat (of_nat n - 1 :: u64) = n - 1" by (simp add: unat_sub_le n)
qed

text \<open>Rounding up the part of every shard.\<close>

lemma per_shard_bounds:
  assumes n: "0 < n" "n \<le> 2 ^ 19" and "unat capacity + n \<le> 2 ^ 64"
  shows "unat capacity \<le> n * unat (per_shard capacity n)" "n * unat (per_shard capacity n) < unat capacity + n"
proof -
  note p = per_shard_unat [OF n]
  have "unat (capacity + (of_nat n - 1)) = unat capacity + (n - 1)"
    using assms(3) p(2) n(1) by (subst unat_add_small) (simp_all add: word_simps)
  then have "unat (per_shard capacity n) = (unat capacity + (n - 1)) div n" using p(1) by simp
  then have "n * unat (per_shard capacity n) + (unat capacity + (n - 1)) mod n = unat capacity + (n - 1)" by simp
  moreover have "(unat capacity + (n - 1)) mod n < n" using n(1) by simp
  ultimately show "unat capacity \<le> n * unat (per_shard capacity n)" "n * unat (per_shard capacity n) < unat capacity + n"
    using n(1) by linarith+
qed

text \<open>What \<open>SetCapacity\<close> makes of one shard.\<close>

definition shard_capacity_set :: "nat multiset \<Rightarrow> u64 \<Rightarrow> 'v LRUCacheShard \<Rightarrow> 'v LRUCacheShard \<Rightarrow> bool" where
  "shard_capacity_set held cap s s' \<longleftrightarrow> lru_inv held s' \<and> s_capacity s' = cap \<and> (s_usage s' \<le> cap \<or> s_lru_usage s' = 0) \<and>
     (\<forall>x. contents s' x = contents s x \<or> contents s' x = None)"

lemma SetCapacity_shard:
  assumes "lru_inv held s"
  shows "\<exists>s'. SetCapacity cap s = Some s' \<and> shard_capacity_set held cap s s'"
proof -
  have inv: "shard_inv held s" "0 \<le> s_high_pri_pool_ratio s" using assms by (simp_all add: lru_inv_def)
  then obtain lows highs where rep: "shard_rep {} held lows highs s" by (auto elim: shard_invE)
  obtain s' where l: "SetCapacity cap s = Some s'" "shard_inv held s'" "s_capacity s' = cap"
      "s_usage s' \<le> cap \<or> s_lru_usage s' = 0" "s_high_pri_pool_ratio s' = s_high_pri_pool_ratio s"
    by (rule SetCapacity_law [OF rep inv(2), of cap]) (rule that; assumption)
  from SetCapacity_contents [OF inv, of cap] l(1) have "\<forall>x. contents s' x = contents s x \<or> contents s' x = None"
    by (auto split: if_splits)
  with l inv(2) show ?thesis by (auto simp: shard_capacity_set_def lru_inv_def)
qed

text \<open>A cache of two shards, to apply the theorems to.\<close>

definition demo_cache :: "nat LRUCacheShard ShardedCache" where
  "demo_cache = the (the (NewLRUCache (\<lambda>_. (0, False, 0, 0)) 100 1 False 0))"

lemma demo_cache:
  "whole lru_inv [{#}, {#}] demo_cache"
  "lru_fits 1 3 (sc_shards demo_cache ! Shard (sc_num_shard_bits demo_cache) (HashSlice key))"
  "size ([{#}, {#}] ! Shard (sc_num_shard_bits demo_cache) (HashSlice key)) = 0"
  "room_for 3 True (sc_shards demo_cache ! Shard (sc_num_shard_bits demo_cache) (HashSlice key))"
proof -
  have one: "(0 :: int) \<le> 1" "(1 :: int) < 20" and r: "(0 :: rat) \<le> 0" "(0 :: rat) \<le> 1" by simp_all
  obtain c :: "nat LRUCacheShard ShardedCache" where c: "NewLRUCache (\<lambda>_. (0, False, 0, 0)) 100 1 False 0 = Some (Some c)"
    "whole lru_inv (replicate (2 ^ nat 1) {#}) c" "sc_num_shard_bits c = 1" "HasStrictCapacityLimit c = False"
    "\<forall>s\<in>set (sc_shards c). s_capacity s = per_shard 100 (2 ^ nat 1) \<and> s_usage s = 0 \<and> (\<forall>a. hp_handle (s_heap s) a = None) \<and> entries s = {}"
    by (rule NewLRUCache_law [OF one r, of "\<lambda>_. (0, False, 0, 0)" 100 False]) (rule that; assumption)
  then have d: "demo_cache = c" by (simp add: demo_cache_def)
  show w: "whole lru_inv [{#}, {#}] demo_cache" using c(2) d by (simp add: numeral_2_eq_2)
  let ?i = "Shard (sc_num_shard_bits demo_cache) (HashSlice key)"
  note ws = lru.whole_shard [OF w, of "HashSlice key"]
  then have mem: "sc_shards demo_cache ! ?i \<in> set (sc_shards c)" by (simp add: d)
  with c(5) show "lru_fits 1 3 (sc_shards demo_cache ! ?i)" by (simp add: lru_fits_def)
  have "?i < 2" using Shard_less [OF one] by (simp add: d c(3))
  then show "size ([{#}, {#}] ! ?i) = 0" by (auto simp: less_2_cases_iff)
  have "shard_inv ([{#}, {#}] ! ?i) (sc_shards demo_cache ! ?i)" using ws(3) by (simp add: lru_inv_def)
  then obtain lows highs where "shard_rep {} ([{#}, {#}] ! ?i) lows highs (sc_shards demo_cache ! ?i)" by (auto elim: shard_invE)
  from pinned_sum(1) [OF shard_repD(3) [OF this]] c(5) mem have "s_lru_usage (sc_shards demo_cache ! ?i) = 0" by simp
  with c(5) mem show "room_for 3 True (sc_shards demo_cache ! ?i)"
    by (simp add: room_for_def per_shard_def word_less_nat_alt)
qed

lemma demo_insert: "\<exists>c1. Sharded_Insert LRU_shard 1 0 key (9 :: nat) 3 True True LOW demo_cache = Some (Status_OK, Some 1, c1)"
proof -
  let ?i = "Shard (sc_num_shard_bits demo_cache) (HashSlice key)"
  note ws = lru.whole_shard [OF demo_cache(1), of "HashSlice key"] and f = demo_cache(2) [of key, unfolded lru_fits_def]
  have "shard_inv ([{#}, {#}] ! ?i) (sc_shards demo_cache ! ?i)" using ws(3) by (simp add: lru_inv_def)
  from Insert_contents [OF this, of 1 3 True 0 key "HashSlice key" 9 True LOW] f demo_cache(4) [of key]
  obtain s' where "Shard_Insert 1 0 key (HashSlice key) 9 3 True True LOW (sc_shards demo_cache ! ?i) = Some (Status_OK, Some 1, s')"
    by auto
  then show ?thesis using ws(2) by (simp add: Sharded_Insert_def LRU_shard_def)
qed

subsection \<open>Properties\<close>

text \<open>
  \<open>NewLRUCache\<close> refuses 20 or more shard bits and a pool ratio outside of 0 to 1 with a null
  pointer, and otherwise (for a number of bits that is not negative) makes an empty cache
  with \<open>2 ^ num_shard_bits\<close> shards, whatever was in the memory of the shards, which their
  constructor leaves partly uninitialised.
\<close>

lemma new_lru_cache:
  fixes ratio :: rat and junk :: "nat \<Rightarrow> u64 \<times> bool \<times> rat \<times> rat"
  assumes "0 \<le> bits"
  shows "if bits < 20 \<and> 0 \<le> ratio \<and> ratio \<le> 1
    then \<exists>c :: 'v LRUCacheShard ShardedCache. NewLRUCache junk capacity bits strict ratio = Some (Some c) \<and>
      length (sc_shards c) = 2 ^ nat bits \<and> holds contents c = (\<lambda>_. None) \<and> GetCapacity c = capacity \<and>
      HasStrictCapacityLimit c = strict \<and> (\<exists>helds. whole lru_inv helds c)
    else (NewLRUCache junk capacity bits strict ratio :: 'v LRUCacheShard ShardedCache option option) = Some None"
proof (cases "bits < 20 \<and> 0 \<le> ratio \<and> ratio \<le> 1")
  case True
  then have b: "bits < 20" "0 \<le> ratio" "ratio \<le> 1" by auto
  obtain c :: "'v LRUCacheShard ShardedCache" where c: "NewLRUCache junk capacity bits strict ratio = Some (Some c)"
    "whole lru_inv (replicate (2 ^ nat bits) {#}) c" "holds contents c = (\<lambda>_. None)" "sc_num_shard_bits c = bits"
    "GetCapacity c = capacity" "HasStrictCapacityLimit c = strict"
    by (rule NewLRUCache_law [OF assms b, of junk capacity strict]) (rule that; assumption)
  have "length (sc_shards c) = 2 ^ nat bits" using c(2) unfolding whole_def c(4) by blast
  with True c show ?thesis unfolding if_P [OF True] by blast
next
  case False
  then show ?thesis by (auto simp: NewLRUCache_def not_less)
qed

text \<open>
  C29. \<open>ShardedCache::SetCapacity\<close> reaches every shard, whatever the cache holds: it returns, all
  shards have the same capacity afterwards, together at least the capacity asked for and less
  than one unit per shard more; every shard has evicted down to its part of the capacity or has
  no entry left that is not in use; and no key got another value, though some may have been
  evicted. The condition is that the capacity and the number of shards together do not exceed
  \<open>2 ^ 64\<close>: beyond, the rounding up wraps around.
\<close>

theorem shard_capacity_bounds:
  assumes "whole lru_inv helds c" and "unat capacity + length (sc_shards c) \<le> 2 ^ 64"
  shows "\<exists>c'. Sharded_SetCapacity LRU_shard capacity c = Some c' \<and> whole lru_inv helds c' \<and> GetCapacity c' = capacity \<and>
    length (sc_shards c') = length (sc_shards c) \<and>
    (\<forall>s\<in>set (sc_shards c'). \<forall>t\<in>set (sc_shards c'). s_capacity s = s_capacity t) \<and>
    unat capacity \<le> (\<Sum>s\<leftarrow>sc_shards c'. unat (s_capacity s)) \<and>
    (\<Sum>s\<leftarrow>sc_shards c'. unat (s_capacity s)) < unat capacity + length (sc_shards c) \<and>
    (\<forall>s\<in>set (sc_shards c'). s_usage s \<le> s_capacity s \<or> s_lru_usage s = 0) \<and>
    (\<forall>key. holds contents c' key = holds contents c key \<or> holds contents c' key = None)"
proof -
  define n where "n = length (sc_shards c)"
  define cap where "cap = per_shard capacity n"
  have w: "0 \<le> sc_num_shard_bits c" "sc_num_shard_bits c < 20" "n = 2 ^ nat (sc_num_shard_bits c)"
    "length helds = n" "\<And>i. i < n \<Longrightarrow> lru_inv (helds ! i) (sc_shards c ! i)"
    using assms(1) by (auto simp: whole_def n_def)
  have n: "0 < n" "n \<le> 2 ^ 19" using shard_count_le [OF w(1,2)] w(3) by simp_all
  have "\<exists>s'. SetCapacity cap (sc_shards c ! i) = Some s' \<and> shard_capacity_set (helds ! i) cap (sc_shards c ! i) s'" if "i < n" for i
    by (rule SetCapacity_shard [OF w(5) [OF that]])
  then obtain f where f: "SetCapacity cap (sc_shards c ! i) = Some (f i)"
      "shard_capacity_set (helds ! i) cap (sc_shards c ! i) (f i)" if "i < n" for i by metis
  define c' where "c' = c\<lparr>sc_shards := map f [0..<n], sc_capacity := capacity\<rparr>"
  have "for_shards (SetCapacity cap) n c = Some (c\<lparr>sc_shards := map f [0..<n]\<rparr>)"
    using for_shards_law [of n c "SetCapacity cap" f] f(1) by (simp add: n_def)
  then have run: "Sharded_SetCapacity LRU_shard capacity c = Some c'"
    using num_shards_less [OF w(2,1)] w(3) by (simp add: Sharded_SetCapacity_def LRU_shard_def cap_def c'_def)
  have sh: "\<And>i. i < n \<Longrightarrow> sc_shards c' ! i = f i" "length (sc_shards c') = n" "sc_num_shard_bits c' = sc_num_shard_bits c"
    by (simp_all add: c'_def)
  have mem: "\<exists>i<n. s = f i" if "s \<in> set (sc_shards c')" for s using that by (auto simp: c'_def)
  have caps: "s_capacity s = cap" "s_usage s \<le> s_capacity s \<or> s_lru_usage s = 0" if "s \<in> set (sc_shards c')" for s
    using mem [OF that] f(2) by (auto simp: shard_capacity_set_def)
  have "map (\<lambda>s. unat (s_capacity s)) (sc_shards c') = replicate n (unat cap)"
    using caps(1) sh(2) by (simp add: map_replicate_const cong: map_cong)
  then have total: "(\<Sum>s\<leftarrow>sc_shards c'. unat (s_capacity s)) = n * unat cap" by (simp add: sum_list_replicate)
  have "whole lru_inv helds c'" using w f(2) sh by (simp add: whole_def shard_capacity_set_def)
  moreover have "holds contents c' key = holds contents c key \<or> holds contents c' key = None" for key
    using f(2) [of "Shard (sc_num_shard_bits c) (HashSlice key)"] Shard_less [OF w(1,2), of "HashSlice key"] sh w(3)
    by (simp add: holds_def shard_capacity_set_def)
  moreover have "GetCapacity c' = capacity" by (simp add: GetCapacity_def c'_def)
  ultimately show ?thesis
    using run sh(2) caps per_shard_bounds [OF n, of capacity] assms(2) total
    unfolding cap_def n_def by (intro exI [of _ c']) simp
qed

theorem shard_capacity_bounds_witness:
  "\<exists>c'. Sharded_SetCapacity LRU_shard 1001 demo_cache = Some c' \<and> length (sc_shards c') = 2 \<and>
     1001 \<le> (\<Sum>s\<leftarrow>sc_shards c'. unat (s_capacity s)) \<and> (\<Sum>s\<leftarrow>sc_shards c'. unat (s_capacity s)) < 1003"
proof -
  have l: "length (sc_shards demo_cache) = 2" using demo_cache(1) by (simp add: whole_def)
  with shard_capacity_bounds [OF demo_cache(1), of 1001] show ?thesis by auto
qed

text \<open>
  An unlimited cache holds nothing: \<open>capacity + (num_shards - 1)\<close> wraps around. With more than
  one shard and a capacity of \<open>SIZE_MAX\<close> every shard has the capacity 0.
\<close>

lemma shard_capacity_wraps:
  assumes "0 < bits" and "bits < 20" and "0 \<le> ratio" and "ratio \<le> 1"
  shows "\<exists>c :: 'v LRUCacheShard ShardedCache. NewLRUCache junk (- 1) bits strict ratio = Some (Some c) \<and>
    GetCapacity c = - 1 \<and> (\<forall>s\<in>set (sc_shards c). s_capacity s = 0)"
proof -
  define n :: nat where "n = 2 ^ nat bits"
  have n: "2 \<le> n" "n \<le> 2 ^ 19"
    using assms(1,2) shard_count_le [of bits] self_le_power [of "2 :: nat" "nat bits"] by (simp_all add: n_def)
  have "(- 1 + (of_nat n - 1) :: u64) = of_nat (n - 2)" using n(1) by simp
  then have "unat (- 1 + (of_nat n - 1) :: u64) = n - 2" using n(2) by (simp add: unat_of_nat)
  then have "unat (per_shard (- 1) n) = 0" using per_shard_unat(1) [of n "- 1"] n by simp
  then have "per_shard (- 1) n = 0" by (simp add: unat_eq_zero)
  then have zero: "per_shard (- 1) (2 ^ nat bits) = 0" by (simp only: n_def)
  have b: "0 \<le> bits" using assms(1) by simp
  obtain c :: "'v LRUCacheShard ShardedCache" where "NewLRUCache junk (- 1) bits strict ratio = Some (Some c)" "GetCapacity c = - 1"
    "\<forall>s\<in>set (sc_shards c). s_capacity s = per_shard (- 1) (2 ^ nat bits) \<and> s_usage s = 0 \<and> (\<forall>a. hp_handle (s_heap s) a = None) \<and> entries s = {}"
    by (rule NewLRUCache_law [OF b assms(2-4), of junk "- 1" strict]) (rule that; assumption)
  with zero show ?thesis by auto
qed

text \<open>
  C28. The sharded cache is a map from keys to values: after an \<open>Insert\<close> that returned a handle,
  \<open>Lookup\<close> finds the key with the value and charge inserted; no other key was changed, except
  that it may have been evicted.
\<close>

theorem sharded_insert_lookup:
  assumes "whole lru_inv helds c" and "lru_fits e charge (sc_shards c ! Shard (sc_num_shard_bits c) (HashSlice key))"
    and "size (helds ! Shard (sc_num_shard_bits c) (HashSlice key)) < 2 ^ 32 - 3"
    and "Sharded_Insert LRU_shard e g key value charge deleter handle priority c = Some (st, Some a, c1)"
  shows "(\<exists>b c2. Sharded_Lookup LRU_shard key c1 = Some (Some b, c2) \<and>
        lru_entry (sc_shards c2 ! Shard (sc_num_shard_bits c1) (HashSlice key)) b = Some (value, charge)) \<and>
    (\<forall>k. k \<noteq> key \<longrightarrow> holds contents c1 k = holds contents c k \<or> holds contents c1 k = None)"
proof -
  let ?i = "Shard (sc_num_shard_bits c) (HashSlice key)"
  from lru.sharded_insert [OF assms(1,2), of g "value" deleter handle priority] assms(4) have i:
    "whole lru_inv (helds[?i := add_mset a (helds ! ?i)]) c1" "holds contents c1 key = Some (value, charge)"
    "sc_num_shard_bits c1 = sc_num_shard_bits c"
    "\<forall>k. k \<noteq> key \<longrightarrow> holds contents c1 k = holds contents c k \<or> holds contents c1 k = None"
    by (simp_all add: Let_def)
  have "?i < length helds" using lru.whole_shard(1) [OF assms(1), of "HashSlice key"] assms(1) by (simp add: whole_def)
  then have "size (helds[?i := add_mset a (helds ! ?i)] ! Shard (sc_num_shard_bits c1) (HashSlice key)) < 2 ^ 32 - 2"
    using assms(3) i(3) by simp
  from lru.sharded_lookup [OF i(1) this] i(2,4) show ?thesis by (auto split: option.splits)
qed

theorem sharded_insert_lookup_witness:
  "\<exists>c1. Sharded_Insert LRU_shard 1 0 [7] 9 3 True True LOW demo_cache = Some (Status_OK, Some 1, c1) \<and>
    (\<exists>b c2. Sharded_Lookup LRU_shard [7] c1 = Some (Some b, c2) \<and>
       lru_entry (sc_shards c2 ! Shard (sc_num_shard_bits c1) (HashSlice [7])) b = Some (9, 3))"
proof -
  obtain c1 where run: "Sharded_Insert LRU_shard 1 0 [7] 9 3 True True LOW demo_cache = Some (Status_OK, Some 1, c1)"
    using demo_insert by blast
  have "size ([{#}, {#}] ! Shard (sc_num_shard_bits demo_cache) (HashSlice [7])) < 2 ^ 32 - 3"
    by (subst demo_cache(3)) simp
  from sharded_insert_lookup [OF demo_cache(1) demo_cache(2) this run] run show ?thesis by blast
qed

text \<open>
  \<open>ShardedCache::Erase\<close> removes the key from the cache and changes no other key.
\<close>

lemma sharded_erase_exact:
  assumes "whole lru_inv helds c"
  shows "\<exists>c'. Sharded_Erase LRU_shard key c = Some c' \<and> whole lru_inv helds c' \<and>
    holds contents c' = (holds contents c)(key := None)"
  by (rule lru.sharded_erase [OF assms])

text \<open>
  \<open>Release\<close> of a null pointer is accepted by the shard and is undefined behaviour in the cache,
  which reads the hash of the handle first.
\<close>

lemma release_null: "Shard_Release None s = Some s" "Sharded_Release LRU_shard LRUCache_GetHash None c = None"
  by (simp_all add: Shard_Release_def Sharded_Release_def LRUCache_GetHash_def handle_entry_def)

end
