(* ===== verification/RandomGen.thy ===== *)
theory RandomGen
  imports Prelude
begin

text \<open>
  \<open>rutil/random.h\<close>, the class \<open>Random\<close>: the multiplicative generator of Lehmer with the modulus
  \<open>2 ^ 31 - 1\<close>, reduced without a division. \<open>Uniform\<close>, \<open>OneIn\<close> and \<open>Skewed\<close> fail (\<open>None\<close>) where
  the C++ code divides by zero or shifts out of range. \<open>Random64\<close> only passes the calls on to
  the standard library.

  Shown: \<open>Next\<close> is the modular product and never leaves the range from 1 to \<open>M - 1\<close>, for every
  seed but \<open>M\<close>, which \<open>GoodSeed\<close> lets through and where the generator is stuck.
\<close>

definition M :: u32 where
  "M = 2147483647"

definition A :: u64 where
  "A = 16807"

definition GoodSeed :: "u32 \<Rightarrow> u32" where
  "GoodSeed s = (if s AND M \<noteq> 0 then s AND M else 1)"

record Random =
  seed :: u32

definition Random_init :: "u32 \<Rightarrow> Random" where
  "Random_init s = \<lparr>seed = GoodSeed s\<rparr>"

definition Reset :: "u32 \<Rightarrow> Random \<Rightarrow> Random" where
  "Reset s r = r\<lparr>seed := GoodSeed s\<rparr>"

definition Next :: "Random \<Rightarrow> u32 \<times> Random" where
  "Next r =
     (let product = ucast (seed r) * A;
          seed' = ucast (drop_bit 31 product + (product AND ucast M)) :: u32;
          seed' = (if seed' > M then seed' - M else seed')
      in (seed', r\<lparr>seed := seed'\<rparr>))"

text \<open>\<open>n\<close> is an \<open>int\<close>, which the \<open>%\<close> operator converts to \<open>unsigned\<close>.\<close>

definition Uniform :: "int \<Rightarrow> Random \<Rightarrow> (u32 \<times> Random) option" where
  "Uniform n r =
     (let (x, r) = Next r in if (of_int n :: u32) = 0 then None else Some (x mod of_int n, r))"

definition OneIn :: "int \<Rightarrow> Random \<Rightarrow> (bool \<times> Random) option" where
  "OneIn n r =
     (let (x, r) = Next r in if (of_int n :: u32) = 0 then None else Some (x mod of_int n = 0, r))"

definition Skewed :: "int \<Rightarrow> Random \<Rightarrow> (u32 \<times> Random) option" where
  "Skewed max_log r =
     (case Uniform (max_log + 1) r of
        None \<Rightarrow> None
      | Some (k, r) \<Rightarrow> if unat k < 31 then Uniform (2 ^ unat k) r else None)"

subsection \<open>The reduction\<close>

lemma M_nat: "unat M = 2147483647"
  by (simp add: M_def)

lemma M_mask: "M = mask 31" "ucast M = (mask 31 :: u64)"
  by (simp_all add: M_def mask_numeral)

lemma lehmer_step:
  fixes p :: nat
  assumes "p < 2 ^ 46" and "0 < p"
  defines "t \<equiv> p div 2 ^ 31 + p mod 2 ^ 31"
  shows "0 < t" "t < 2 ^ 31 + 2 ^ 15" "t mod (2 ^ 31 - 1) = p mod (2 ^ 31 - 1)"
proof -
  have "p = (p div 2 ^ 31) * 2 ^ 31 + p mod 2 ^ 31" by simp
  also have "\<dots> = t + (p div 2 ^ 31) * (2 ^ 31 - 1)" by (simp add: t_def algebra_simps)
  finally show "t mod (2 ^ 31 - 1) = p mod (2 ^ 31 - 1)" by (metis mod_mult_self1)
  show "0 < t" using assms(2) div_mult_mod_eq [of p "2 ^ 31"] by (cases "p div 2 ^ 31 = 0") (auto simp: t_def)
  have "p div 2 ^ 31 < 2 ^ 15" using assms(1) by (simp add: less_mult_imp_div_less)
  moreover have "p mod 2 ^ 31 < 2 ^ 31" by simp
  ultimately show "t < 2 ^ 31 + 2 ^ 15" by (simp add: t_def)
qed

lemma Next_seed:
  assumes "0 < unat (seed r)" "unat (seed r) \<le> 2147483647"
  shows "let t = (unat (seed r) * 16807) div 2 ^ 31 + (unat (seed r) * 16807) mod 2 ^ 31
    in unat (fst (Next r)) = (if t > 2147483647 then t - 2147483647 else t)" "seed (snd (Next r)) = fst (Next r)"
proof -
  let ?s = "unat (seed r)"
  define product where "product = (ucast (seed r) * A :: u64)"
  have p: "unat product = ?s * 16807"
  proof -
    have "?s * 16807 < 2 ^ 64" using assms(2) by simp
    then show ?thesis by (simp add: product_def A_def unat_word_ariths unat_ucast_up)
  qed
  define t where "t = ?s * 16807 div 2 ^ 31 + ?s * 16807 mod 2 ^ 31"
  have t: "t < 2 ^ 31 + 2 ^ 15" unfolding t_def by (rule lehmer_step(2)) (use assms in auto)
  have "unat (drop_bit 31 product) = ?s * 16807 div 2 ^ 31" by (subst unat_drop_bit_eq) (simp add: p drop_bit_eq_div)
  moreover have "unat (product AND ucast M) = ?s * 16807 mod 2 ^ 31"
    unfolding M_mask(2) take_bit_eq_mask [symmetric] by (simp add: unsigned_take_bit_eq) (simp add: take_bit_eq_mod p)
  ultimately have sum: "unat (drop_bit 31 product + (product AND ucast M)) = t"
    using t unat_add_small [of "drop_bit 31 product" "product AND ucast M"] by (simp add: t_def)
  define s' :: u32 where "s' = ucast (drop_bit 31 product + (product AND ucast M))"
  have s': "unat s' = t" using t by (simp add: s'_def unsigned_ucast_eq sum take_bit_nat_eq_self)
  have gt: "s' > M \<longleftrightarrow> t > 2147483647" by (simp add: word_less_nat_alt s' M_nat)
  have "unat (if s' > M then s' - M else s') = (if t > 2147483647 then t - 2147483647 else t)"
    using gt s' by (simp add: unat_sub_le order_less_imp_le M_nat)
  moreover have run: "fst (Next r) = (if s' > M then s' - M else s')"
    by (simp add: Next_def Let_def product_def s'_def)
  ultimately show "let t = ?s * 16807 div 2 ^ 31 + ?s * 16807 mod 2 ^ 31
      in unat (fst (Next r)) = (if t > 2147483647 then t - 2147483647 else t)"
    unfolding Let_def t_def [symmetric] run by simp
  show "seed (snd (Next r)) = fst (Next r)" by (simp add: Next_def Let_def)
qed

text \<open>The seeds the generator works with.\<close>

definition seed_ok :: "Random \<Rightarrow> bool" where
  "seed_ok r \<longleftrightarrow> 0 < unat (seed r) \<and> unat (seed r) < 2147483647"

lemma GoodSeed_range: "0 < unat (GoodSeed s)" "unat (GoodSeed s) \<le> 2147483647" "GoodSeed s = M \<longleftrightarrow> s AND M = M"
proof -
  have "s AND M = take_bit 31 s" by (simp add: M_mask(1) take_bit_eq_mask)
  then have "unat (s AND M) = unat s mod 2 ^ 31" by (simp only: unsigned_take_bit_eq) (rule take_bit_eq_mod)
  then have "unat (s AND M) < 2 ^ 31" by simp
  then show "0 < unat (GoodSeed s)" "unat (GoodSeed s) \<le> 2147483647"
    by (auto simp: GoodSeed_def unat_gt_0)
  show "GoodSeed s = M \<longleftrightarrow> s AND M = M" by (auto simp: GoodSeed_def M_def)
qed

lemma Next_mod:
  assumes "seed_ok r"
  shows "unat (fst (Next r)) = (unat (seed r) * 16807) mod 2147483647" "seed_ok (snd (Next r))"
proof -
  define p where "p = unat (seed r) * 16807"
  define t where "t = p div 2 ^ 31 + p mod 2 ^ 31"
  have p: "p < 2 ^ 46" "0 < p" using assms by (simp_all add: p_def seed_ok_def)
  have t: "0 < t" "t < 2 ^ 31 + 2 ^ 15" "t mod 2147483647 = p mod 2147483647"
    using lehmer_step [OF p] by (simp_all add: t_def)
  have "coprime (2147483647 :: nat) 16807" by (simp add: coprime_iff_gcd_eq_1 gcd_non_0_nat)
  then have "\<not> 2147483647 dvd p"
    using assms by (auto simp: p_def seed_ok_def coprime_dvd_mult_left_iff dest: dvd_imp_le)
  then have "t mod 2147483647 \<noteq> 0" unfolding t(3) by (simp add: dvd_eq_mod_eq_0)
  then have "t \<noteq> 2147483647" by auto
  then have t_red: "(if t > 2147483647 then t - 2147483647 else t) = t mod 2147483647"
    using t(2) by (auto simp: mod_if le_mod_geq)
  have "unat (fst (Next r)) = (if t > 2147483647 then t - 2147483647 else t)"
    using Next_seed(1) [of r] assms by (simp add: seed_ok_def Let_def t_def p_def)
  then show n: "unat (fst (Next r)) = (unat (seed r) * 16807) mod 2147483647"
    unfolding t_red t(3) by (simp add: p_def)
  have "seed (snd (Next r)) = fst (Next r)" using Next_seed(2) [of r] assms by (simp add: seed_ok_def)
  then show "seed_ok (snd (Next r))"
    using n \<open>t mod 2147483647 \<noteq> 0\<close> unfolding seed_ok_def t(3) p_def by simp
qed

lemma Next_stuck: "seed r = M \<Longrightarrow> fst (Next r) = M"
  by (simp add: Next_def M_def A_def)

fun Nexts :: "nat \<Rightarrow> Random \<Rightarrow> u32 list" where
  "Nexts 0 r = []"
| "Nexts (Suc n) r = (let (x, r) = Next r in x # Nexts n r)"

lemma Nexts_length [simp]: "length (Nexts n r) = n"
  by (induction n arbitrary: r) (simp_all add: split_beta)

text \<open>
  The seed the comment forbids is accepted: \<open>GoodSeed\<close> maps \<open>2 ^ 31 - 1\<close> to itself, and a
  generator with this seed returns the same number for ever.
\<close>

lemma random_stuck:
  assumes "s AND M = M" and "i < n"
  shows "Nexts n (Random_init s) ! i = M"
proof -
  have "Nexts n r ! i = M" if "seed r = M" "i < n" for r i
    using that
  proof (induction n arbitrary: r i)
    case (Suc n)
    then have "seed (snd (Next r)) = M" using Next_stuck [of r] by (simp add: Next_def Let_def)
    then show ?case using Suc Next_stuck [of r] by (cases i) (simp_all add: split_beta)
  qed simp
  then show ?thesis using assms GoodSeed_range(3) by (simp add: Random_init_def)
qed

subsection \<open>Properties\<close>

text \<open>
  C34. The shift-and-add reduction of \<open>Random::Next\<close> computes the Lehmer generator: from a seed
  whose low 31 bits are not all ones, the \<open>i\<close>-th number is \<open>seed * 16807 ^ i\<close> modulo
  \<open>2 ^ 31 - 1\<close>, and it is never 0 and never \<open>kMaxNext\<close>.
\<close>

theorem random_next_lehmer:
  assumes "s AND M \<noteq> M" and "i < n"
  shows "unat (Nexts n (Random_init s) ! i) = (unat (GoodSeed s) * 16807 ^ Suc i) mod 2147483647 \<and>
    0 < unat (Nexts n (Random_init s) ! i) \<and> Nexts n (Random_init s) ! i < M"
proof -
  have "unat (Nexts n r ! i) = (unat (seed r) * 16807 ^ Suc i) mod 2147483647 \<and> 0 < unat (Nexts n r ! i) \<and> Nexts n r ! i < M"
    if "seed_ok r" "i < n" for r i
    using that
  proof (induction n arbitrary: r i)
    case (Suc n)
    note nx = Next_mod [OF Suc.prems(1)]
    have sd: "seed (snd (Next r)) = fst (Next r)" using Next_seed(2) [of r] Suc.prems(1) by (simp add: seed_ok_def)
    show ?case
    proof (cases i)
      case 0
      then show ?thesis using nx sd by (simp add: split_beta seed_ok_def word_less_nat_alt M_nat)
    next
      case (Suc j)
      have "(fst (Next r), j) = (seed (snd (Next r)), j)" by (simp add: sd)
      with Suc.IH [OF nx(2), of j] Suc.prems(2) Suc nx(1) sd show ?thesis
        by (simp add: split_beta mod_mult_left_eq mult.assoc mult.commute [of 16807])
    qed
  qed simp
  note all = this
  have ok: "seed_ok (Random_init s)"
  proof -
    have "GoodSeed s \<noteq> M" using assms(1) GoodSeed_range(3) by simp
    then have "unat (GoodSeed s) \<noteq> 2147483647" using M_nat by (metis word_unat_eq_iff)
    then show ?thesis using GoodSeed_range(1,2) [of s] by (simp add: seed_ok_def Random_init_def)
  qed
  have "seed (Random_init s) = GoodSeed s" by (simp add: Random_init_def)
  with all [OF ok assms(2)] show ?thesis by simp
qed

theorem random_next_lehmer_witness:
  "(301 :: u32) AND M \<noteq> M \<and> unat (Nexts 3 (Random_init 301) ! 2) = (unat (GoodSeed 301) * 16807 ^ 3) mod 2147483647"
  using random_next_lehmer [of 301 2 3] by (simp add: M_def numeral_3_eq_3)

end
