(* ===== verification/ThreadPool.thy ===== *)
theory ThreadPool
  imports Prelude "HOL-Library.Monad_Syntax" "HOL-Library.Multiset" "HOL-Library.Sublist"
begin

text \<open>
  \<open>rutil/threadpool_imp.h\<close> and \<open>rutil/threadpool_imp.cc\<close>. The state is the pool object together
  with the threads it started. All members are accessed with \<open>mu_\<close> held, so the code between
  two releases of the mutex is one step; threads and clients interleave at the releases.

  \<^item> A thread is on its way to the mutex (\<open>Locking\<close>), blocked in \<open>pthread_cond_wait\<close>
    (\<open>Waiting\<close>), calling the function of an item without the mutex (\<open>Calling\<close>), or has left
    \<open>BGThread\<close> (\<open>Exited\<close>).
  \<^item> \<open>pthread_cond_signal\<close> wakes any nonempty set of waiting threads, a waiting thread may also
    wake up by itself, and \<open>pthread_create\<close> returns any identifier no thread has.
  \<^item> \<open>None\<close> is an abort, a failed assertion, or an access to an empty container; for the
    join it is waiting. Mutex and condition calls on initialised objects do not fail.

  The fields \<open>accepted\<close>, \<open>taken\<close>, \<open>removed\<close> and \<open>unsched_calls\<close> record what happened to the items;
  the code does not read them. The pool's \<open>Env\<close> and priority are labels for its members and
  are left out.

  Shown: no wake-up is lost, so a queued item is taken by a thread that is awake, and a pool
  with too many threads shrinks; items are taken in the order they came and none is lost or
  run twice; after \<open>JoinAllThreads\<close> has set its flag all threads leave.
\<close>

type_synonym pthread_t = nat

record BGItem =
  bg_arg :: nat
  bg_function :: nat
  bg_tag :: nat
  bg_unschedFunction :: "nat option"

record ThreadPoolImpl =
  total_threads_limit :: int
  bgthreads :: "pthread_t list"
  bg_queue :: "BGItem list"
  queue_len :: u32
  exit_all_threads :: bool
  low_io_priority :: bool

datatype thread_pc = Locking | Waiting | Calling nat nat | Exited

record bg_thread =
  th_id :: nat
  th_pc :: thread_pc
  th_low_io :: bool
  th_detached :: bool
  th_name :: string

record pool_state =
  tp :: ThreadPoolImpl
  threads :: "pthread_t \<rightharpoonup> bg_thread"
  accepted :: "BGItem list"
  taken :: "BGItem list"
  removed :: "BGItem list"
  unsched_calls :: "(nat \<times> nat) list"

abbreviation update_tp :: "(ThreadPoolImpl \<Rightarrow> ThreadPoolImpl) \<Rightarrow> pool_state \<Rightarrow> pool_state" where
  "update_tp f s \<equiv> s\<lparr>tp := f (tp s)\<rparr>"

text \<open>\<open>static_cast<int>\<close> of a \<open>size_t\<close>.\<close>

definition int_cast :: "nat \<Rightarrow> int" where
  "int_cast n = sint (of_nat n :: u32)"

definition HasExcessiveThread :: "ThreadPoolImpl \<Rightarrow> bool" where
  "HasExcessiveThread p \<longleftrightarrow> int_cast (length (bgthreads p)) > total_threads_limit p"

definition IsLastExcessiveThread :: "nat \<Rightarrow> ThreadPoolImpl \<Rightarrow> bool" where
  "IsLastExcessiveThread thread_id p \<longleftrightarrow> HasExcessiveThread p \<and> Suc thread_id = length (bgthreads p)"

definition IsExcessiveThread :: "nat \<Rightarrow> ThreadPoolImpl \<Rightarrow> bool" where
  "IsExcessiveThread thread_id p \<longleftrightarrow> int_cast thread_id \<ge> total_threads_limit p"

definition GetQueueLen :: "pool_state \<Rightarrow> u32" where
  "GetQueueLen s = queue_len (tp s)"

text \<open>A failed call aborts the process.\<close>

definition PthreadCall :: "int \<Rightarrow> pool_state \<Rightarrow> pool_state option" where
  "PthreadCall result s = (if result \<noteq> 0 then None else Some s)"

definition set_pc :: "pthread_t \<Rightarrow> thread_pc \<Rightarrow> pool_state \<Rightarrow> pool_state" where
  "set_pc t pc s = s\<lparr>threads := (threads s)(t := map_option (th_pc_update (\<lambda>_. pc)) (threads s t))\<rparr>"

definition waiting :: "pool_state \<Rightarrow> pthread_t \<Rightarrow> bool" where
  "waiting s t \<longleftrightarrow> (case threads s t of Some th \<Rightarrow> th_pc th = Waiting | None \<Rightarrow> False)"

definition wake :: "(pthread_t \<Rightarrow> bool) \<Rightarrow> pool_state \<Rightarrow> pool_state" where
  "wake W s = s\<lparr>threads := \<lambda>t.
     if W t \<and> waiting s t then map_option (th_pc_update (\<lambda>_. Locking)) (threads s t) else threads s t\<rparr>"

definition ConditionSignal :: "pthread_t list \<Rightarrow> pool_state \<Rightarrow> pool_state" where
  "ConditionSignal ws s = wake (\<lambda>t. t \<in> set ws) s"

definition ConditionSignalAll :: "pool_state \<Rightarrow> pool_state" where
  "ConditionSignalAll s = wake (\<lambda>_. True) s"

definition WakeUpAllThreads :: "pool_state \<Rightarrow> pool_state" where
  "WakeUpAllThreads s = ConditionSignalAll s"

definition ThreadDetach :: "pthread_t \<Rightarrow> pool_state \<Rightarrow> pool_state" where
  "ThreadDetach t s = s\<lparr>threads := (threads s)(t := map_option (th_detached_update (\<lambda>_. True)) (threads s t))\<rparr>"

definition ThreadPoolImpl_init :: pool_state where
  "ThreadPoolImpl_init =
     \<lparr>tp = \<lparr>total_threads_limit = 1, bgthreads = [], bg_queue = [], queue_len = 0,
            exit_all_threads = False, low_io_priority = False\<rparr>,
      threads = Map.empty, accepted = [], taken = [], removed = [], unsched_calls = []\<rparr>"

definition ThreadPoolImpl_destroy :: "pool_state \<Rightarrow> unit option" where
  "ThreadPoolImpl_destroy s = (if length (bgthreads (tp s)) = 0 then Some () else None)"

subsection \<open>The thread function\<close>

text \<open>\<open>BGThreadWrapper\<close> enters \<open>BGThread\<close> with the id; the name is cut to the 16 bytes of its buffer.\<close>

definition BGThreadWrapper :: "nat \<Rightarrow> bg_thread" where
  "BGThreadWrapper thread_id =
     \<lparr>th_id = thread_id, th_pc = Locking, th_low_io = False, th_detached = False,
      th_name = take 15 (''rocksutil:bg'' @ decimal thread_id)\<rparr>"

text \<open>The condition of the inner loop: wait for work or for the end.\<close>

definition must_wait :: "nat \<Rightarrow> ThreadPoolImpl \<Rightarrow> bool" where
  "must_wait thread_id p \<longleftrightarrow>
     \<not> exit_all_threads p \<and> \<not> IsLastExcessiveThread thread_id p \<and> (bg_queue p = [] \<or> IsExcessiveThread thread_id p)"

text \<open>\<open>BGThread\<close> from the moment it has the mutex to the moment it gives it up.\<close>

definition BGThread_locked :: "pthread_t \<Rightarrow> pool_state \<Rightarrow> pool_state option" where
  "BGThread_locked t s = do {
     th \<leftarrow> threads s t;
     if must_wait (th_id th) (tp s) then Some (set_pc t Waiting s)
     else if exit_all_threads (tp s) then Some (set_pc t Exited s)
     else if IsLastExcessiveThread (th_id th) (tp s) then
       if bgthreads (tp s) = [] then None
       else
         let s = ThreadDetach (last (bgthreads (tp s))) s;
             s = update_tp (bgthreads_update butlast) s;
             s = (if HasExcessiveThread (tp s) then WakeUpAllThreads s else s)
         in Some (set_pc t Exited s)
     else
       (case bg_queue (tp s) of
          [] \<Rightarrow> None
        | item # rest \<Rightarrow>
            let s = update_tp (\<lambda>p. p\<lparr>bg_queue := rest, queue_len := of_nat (length rest)\<rparr>) s;
                s = s\<lparr>taken := taken s @ [item]\<rparr>;
                decrease_io_priority = (th_low_io th \<noteq> low_io_priority (tp s));
                th = (if decrease_io_priority then th\<lparr>th_low_io := True\<rparr> else th);
                s = s\<lparr>threads := (threads s)(t \<mapsto> th)\<rparr>
            in Some (set_pc t (Calling (bg_function item) (bg_arg item)) s))
   }"

text \<open>The function of the item has returned.\<close>

definition BGThread_returned :: "pthread_t \<Rightarrow> pool_state \<Rightarrow> pool_state" where
  "BGThread_returned t s = set_pc t Locking s"

subsection \<open>The operations of the clients\<close>

text \<open>The thread created with the id \<open>n\<close> is \<open>fst (create n)\<close>, the result of \<open>pthread_create\<close> is
  \<open>snd (create n)\<close>.\<close>

partial_function (option) StartBGThreads :: "(nat \<Rightarrow> pthread_t \<times> int) \<Rightarrow> pool_state \<Rightarrow> pool_state option" where
  "StartBGThreads create s =
     (if int_cast (length (bgthreads (tp s))) < total_threads_limit (tp s) then do {
        let n = length (bgthreads (tp s));
        s \<leftarrow> PthreadCall (snd (create n)) s;
        let s = s\<lparr>threads := (threads s)(fst (create n) \<mapsto> BGThreadWrapper n)\<rparr>;
        StartBGThreads create (update_tp (bgthreads_update (\<lambda>ths. ths @ [fst (create n)])) s)
      }
      else Some s)"

definition SetBackgroundThreadsInternal ::
    "(nat \<Rightarrow> pthread_t \<times> int) \<Rightarrow> int \<Rightarrow> bool \<Rightarrow> pool_state \<Rightarrow> pool_state option" where
  "SetBackgroundThreadsInternal create num allow_reduce s =
     (if exit_all_threads (tp s) then Some s
      else if num > total_threads_limit (tp s) \<or> num < total_threads_limit (tp s) \<and> allow_reduce then
        let s = update_tp (total_threads_limit_update (\<lambda>_. max 1 num)) s;
            s = WakeUpAllThreads s
        in StartBGThreads create s
      else Some s)"

definition IncBackgroundThreadsIfNeeded :: "(nat \<Rightarrow> pthread_t \<times> int) \<Rightarrow> int \<Rightarrow> pool_state \<Rightarrow> pool_state option" where
  "IncBackgroundThreadsIfNeeded create num s = SetBackgroundThreadsInternal create num False s"

definition SetBackgroundThreads :: "(nat \<Rightarrow> pthread_t \<times> int) \<Rightarrow> int \<Rightarrow> pool_state \<Rightarrow> pool_state option" where
  "SetBackgroundThreads create num s = SetBackgroundThreadsInternal create num True s"

definition LowerIOPriority :: "pool_state \<Rightarrow> pool_state" where
  "LowerIOPriority s = update_tp (low_io_priority_update (\<lambda>_. True)) s"

definition Schedule :: "(nat \<Rightarrow> pthread_t \<times> int) \<Rightarrow> pthread_t list \<Rightarrow> BGItem \<Rightarrow> pool_state \<Rightarrow> pool_state option" where
  "Schedule create ws item s =
     (if exit_all_threads (tp s) then Some s
      else do {
        s \<leftarrow> StartBGThreads create s;
        let s = update_tp (bg_queue_update (\<lambda>q. q @ [item])) s;
        let s = update_tp (\<lambda>p. p\<lparr>queue_len := of_nat (length (bg_queue p))\<rparr>) s;
        let s = s\<lparr>accepted := accepted s @ [item]\<rparr>;
        if \<not> HasExcessiveThread (tp s) then Some (ConditionSignal ws s) else Some (WakeUpAllThreads s)
      })"

text \<open>The loop of \<open>UnSchedule\<close>: the items that stay, those that are erased, and the calls of their
  functions.\<close>

fun unschedule_loop :: "nat \<Rightarrow> BGItem list \<Rightarrow> BGItem list \<times> BGItem list \<times> (nat \<times> nat) list" where
  "unschedule_loop tag [] = ([], [], [])"
| "unschedule_loop tag (it # q) =
     (let (kept, erased, calls) = unschedule_loop tag q
      in if tag = bg_tag it then
           (kept, it # erased, (case bg_unschedFunction it of None \<Rightarrow> calls | Some f \<Rightarrow> (f, bg_arg it) # calls))
         else (it # kept, erased, calls))"

definition UnSchedule :: "nat \<Rightarrow> pool_state \<Rightarrow> nat \<times> pool_state" where
  "UnSchedule tag s =
     (let (kept, erased, calls) = unschedule_loop tag (bg_queue (tp s));
          s = update_tp (\<lambda>p. p\<lparr>bg_queue := kept, queue_len := of_nat (length kept)\<rparr>) s
      in (length erased, s\<lparr>removed := removed s @ erased, unsched_calls := unsched_calls s @ calls\<rparr>))"

text \<open>\<open>JoinAllThreads\<close> up to the release of the mutex, and the loop that joins the threads, which
  returns once all of them have exited.\<close>

definition JoinAllThreads_signal :: "pool_state \<Rightarrow> pool_state option" where
  "JoinAllThreads_signal s =
     (if exit_all_threads (tp s) then None
      else Some (ConditionSignalAll (update_tp (exit_all_threads_update (\<lambda>_. True)) s)))"

fun join_loop :: "pthread_t list \<Rightarrow> pool_state \<Rightarrow> pool_state option" where
  "join_loop [] s = Some s"
| "join_loop (t # ts) s = do {
     th \<leftarrow> threads s t;
     if th_pc th = Exited \<and> \<not> th_detached th then join_loop ts (s\<lparr>threads := (threads s)(t := None)\<rparr>) else None
   }"

definition JoinAllThreads_join :: "pool_state \<Rightarrow> pool_state option" where
  "JoinAllThreads_join s = do {
     s \<leftarrow> join_loop (bgthreads (tp s)) s;
     Some (update_tp (bgthreads_update (\<lambda>_. [])) s)
   }"

definition NewThreadPool :: "(nat \<Rightarrow> pthread_t \<times> int) \<Rightarrow> int \<Rightarrow> pool_state option" where
  "NewThreadPool create num_threads = SetBackgroundThreads create num_threads ThreadPoolImpl_init"

subsection \<open>Interleavings\<close>

inductive worker_step :: "pool_state \<Rightarrow> pool_state \<Rightarrow> bool" where
  locked: "threads s t = Some th \<Longrightarrow> th_pc th = Locking \<Longrightarrow> BGThread_locked t s = Some s' \<Longrightarrow> worker_step s s'"
| returned: "threads s t = Some th \<Longrightarrow> th_pc th = Calling f a \<Longrightarrow> worker_step s (BGThread_returned t s)"
| spurious: "waiting s t \<Longrightarrow> worker_step s (wake ((=) t) s)"

text \<open>What \<open>pthread_create\<close> and \<open>pthread_cond_signal\<close> may do: a new thread has an identifier that
  is not in use, and a signal wakes at least one thread if any is waiting.\<close>

definition free_thread :: "pool_state \<Rightarrow> pthread_t \<Rightarrow> bool" where
  "free_thread s t \<longleftrightarrow> (case threads s t of None \<Rightarrow> True | Some th \<Rightarrow> th_pc th = Exited \<and> th_detached th)"

definition fresh_threads :: "(nat \<Rightarrow> pthread_t \<times> int) \<Rightarrow> pool_state \<Rightarrow> bool" where
  "fresh_threads create s \<longleftrightarrow> inj (fst \<circ> create) \<and> (\<forall>n \<ge> length (bgthreads (tp s)). free_thread s (fst (create n)))"

definition signal_ok :: "pthread_t list \<Rightarrow> pool_state \<Rightarrow> bool" where
  "signal_ok ws s \<longleftrightarrow> (\<exists>t \<in> set ws. waiting s t) \<or> (\<forall>t. \<not> waiting s t)"

inductive pool_step :: "pool_state \<Rightarrow> pool_state \<Rightarrow> bool" where
  worker: "worker_step s s' \<Longrightarrow> pool_step s s'"
| set_threads: "fresh_threads create s \<Longrightarrow> num < 2 ^ 31 \<Longrightarrow> SetBackgroundThreads create num s = Some s' \<Longrightarrow> pool_step s s'"
| inc_threads: "fresh_threads create s \<Longrightarrow> num < 2 ^ 31 \<Longrightarrow> IncBackgroundThreadsIfNeeded create num s = Some s' \<Longrightarrow>
    pool_step s s'"
| schedule: "fresh_threads create s \<Longrightarrow> signal_ok ws s \<Longrightarrow> Schedule create ws item s = Some s' \<Longrightarrow> pool_step s s'"
| unschedule: "pool_step s (snd (UnSchedule tag s))"
| lower_io: "pool_step s (LowerIOPriority s)"
| join_signal: "JoinAllThreads_signal s = Some s' \<Longrightarrow> pool_step s s'"
| join: "exit_all_threads (tp s) \<Longrightarrow> JoinAllThreads_join s = Some s' \<Longrightarrow> pool_step s s'"

abbreviation pool_reachable :: "pool_state \<Rightarrow> bool" where
  "pool_reachable \<equiv> pool_step\<^sup>*\<^sup>* ThreadPoolImpl_init"

subsection \<open>The invariant\<close>

definition threads_inv :: "pool_state \<Rightarrow> bool" where
  "threads_inv s \<longleftrightarrow>
     1 \<le> total_threads_limit (tp s) \<and> total_threads_limit (tp s) < 2 ^ 31 \<and>
     length (bgthreads (tp s)) < 2 ^ 31 \<and> distinct (bgthreads (tp s)) \<and>
     (\<forall>i < length (bgthreads (tp s)). \<exists>th. threads s (bgthreads (tp s) ! i) = Some th \<and> th_id th = i \<and>
        \<not> th_detached th \<and> (\<not> exit_all_threads (tp s) \<longrightarrow> th_pc th \<noteq> Exited)) \<and>
     (\<forall>t th. threads s t = Some th \<longrightarrow> th_pc th \<noteq> Exited \<longrightarrow> t \<in> set (bgthreads (tp s)))"

definition wake_inv :: "pool_state \<Rightarrow> bool" where
  "wake_inv s \<longleftrightarrow>
     (if exit_all_threads (tp s) then \<forall>t. \<not> waiting s t
      else (bg_queue (tp s) \<noteq> [] \<longrightarrow>
              (\<exists>i < length (bgthreads (tp s)). int i < total_threads_limit (tp s) \<and> \<not> waiting s (bgthreads (tp s) ! i))) \<and>
           (total_threads_limit (tp s) < int (length (bgthreads (tp s))) \<longrightarrow> \<not> waiting s (last (bgthreads (tp s)))))"

definition items_inv :: "pool_state \<Rightarrow> bool" where
  "items_inv s \<longleftrightarrow>
     queue_len (tp s) = of_nat (length (bg_queue (tp s))) \<and>
     subseq (taken s @ bg_queue (tp s)) (accepted s) \<and>
     mset (accepted s) = mset (taken s) + mset (bg_queue (tp s)) + mset (removed s)"

definition pool_inv :: "pool_state \<Rightarrow> bool" where
  "pool_inv s \<longleftrightarrow> threads_inv s \<and> wake_inv s \<and> items_inv s"

lemma int_cast_small: "n < 2 ^ 31 \<Longrightarrow> int_cast n = int n"
  by (simp add: int_cast_def signed_of_nat signed_take_bit_int_eq_self)

lemma threads_inv_limit [simp]:
  assumes "threads_inv s"
  shows "HasExcessiveThread (tp s) \<longleftrightarrow> total_threads_limit (tp s) < int (length (bgthreads (tp s)))"
    "int_cast (length (bgthreads (tp s))) = int (length (bgthreads (tp s)))"
    "n \<le> length (bgthreads (tp s)) \<Longrightarrow> IsExcessiveThread n (tp s) \<longleftrightarrow> total_threads_limit (tp s) \<le> int n"
    "n \<le> length (bgthreads (tp s)) \<Longrightarrow> int_cast n = int n"
  using assms by (simp_all add: threads_inv_def HasExcessiveThread_def IsExcessiveThread_def int_cast_small)

text \<open>A thread of the pool is known by its position.\<close>

lemma bg_thread_at:
  assumes "threads_inv s" "i < length (bgthreads (tp s))"
  obtains th where "threads s (bgthreads (tp s) ! i) = Some th" "th_id th = i" "\<not> th_detached th"
    "\<not> exit_all_threads (tp s) \<longrightarrow> th_pc th \<noteq> Exited"
  using assms unfolding threads_inv_def by blast

lemma live_thread:
  assumes "threads_inv s" "threads s t = Some th" "th_pc th \<noteq> Exited"
  shows "th_id th < length (bgthreads (tp s))" "bgthreads (tp s) ! th_id th = t" "\<not> th_detached th"
proof -
  have "t \<in> set (bgthreads (tp s))" using assms by (auto simp: threads_inv_def)
  then obtain i where i: "i < length (bgthreads (tp s))" "bgthreads (tp s) ! i = t" by (auto simp: in_set_conv_nth)
  obtain th' where "threads s t = Some th'" "th_id th' = i" "\<not> th_detached th'"
    using bg_thread_at [OF assms(1) i(1)] i(2) by metis
  with assms(2) i show "th_id th < length (bgthreads (tp s))" "bgthreads (tp s) ! th_id th = t" "\<not> th_detached th" by auto
qed

subsection \<open>Waking and changing threads\<close>

lemma wake_frame [simp]:
  "tp (wake W s) = tp s" "accepted (wake W s) = accepted s" "taken (wake W s) = taken s"
  "removed (wake W s) = removed s" "unsched_calls (wake W s) = unsched_calls s"
  by (simp_all add: wake_def)

lemma set_pc_frame [simp]:
  "tp (set_pc t pc s) = tp s" "accepted (set_pc t pc s) = accepted s" "taken (set_pc t pc s) = taken s"
  "removed (set_pc t pc s) = removed s" "unsched_calls (set_pc t pc s) = unsched_calls s"
  by (simp_all add: set_pc_def)

lemma threads_wake:
  "threads (wake W s) t = map_option (\<lambda>th. if W t \<and> th_pc th = Waiting then th\<lparr>th_pc := Locking\<rparr> else th) (threads s t)"
  by (cases "threads s t") (simp_all add: wake_def waiting_def)

lemma threads_set_pc:
  "threads (set_pc t pc s) t' = (if t' = t then map_option (th_pc_update (\<lambda>_. pc)) (threads s t) else threads s t')"
  by (simp add: set_pc_def)

lemma waiting_wake [simp]: "waiting (wake W s) t \<longleftrightarrow> waiting s t \<and> \<not> W t"
  by (cases "threads s t") (auto simp: waiting_def threads_wake)

lemma waiting_set_pc: "waiting (set_pc t pc s) t' \<longleftrightarrow> (if t' = t then pc = Waiting \<and> threads s t \<noteq> None else waiting s t')"
  by (cases "threads s t") (auto simp: waiting_def threads_set_pc)

lemma set_pc_wake: "set_pc t Exited (wake W s) = wake W (set_pc t Exited s)"
proof -
  have "threads (set_pc t Exited (wake W s)) t' = threads (wake W (set_pc t Exited s)) t'" for t'
    by (cases "threads s t'") (auto simp: threads_set_pc threads_wake)
  then have "threads (set_pc t Exited (wake W s)) = threads (wake W (set_pc t Exited s))" ..
  then show ?thesis by (intro pool_state.equality) simp_all
qed

lemma threads_inv_mono:
  assumes "threads_inv s" "bgthreads (tp s') = bgthreads (tp s)"
    "1 \<le> total_threads_limit (tp s')" "total_threads_limit (tp s') < 2 ^ 31"
    and "exit_all_threads (tp s) \<Longrightarrow> exit_all_threads (tp s')"
    and "\<And>t. rel_option (\<lambda>th th'. th_id th' = th_id th \<and> th_detached th' = th_detached th \<and>
      (th_pc th' = Exited \<longrightarrow> th_pc th = Exited \<or> exit_all_threads (tp s')) \<and> (th_pc th = Exited \<longrightarrow> th_pc th' = Exited)) (threads s t) (threads s' t)"
  shows "threads_inv s'"
proof -
  have th: "\<exists>th'. threads s' t = Some th' \<and> th_id th' = th_id th \<and> th_detached th' = th_detached th \<and>
      (th_pc th' = Exited \<longrightarrow> th_pc th = Exited \<or> exit_all_threads (tp s'))" if "threads s t = Some th" for t th
    using assms(6) [of t] that by (auto simp: option_rel_Some1)
  have old: "\<exists>th. threads s t = Some th \<and> (th_pc th = Exited \<longrightarrow> th_pc th' = Exited)" if "threads s' t = Some th'" for t th'
    using assms(6) [of t] that by (auto simp: option_rel_Some2)
  have "\<exists>th. threads s' (bgthreads (tp s) ! i) = Some th \<and> th_id th = i \<and> \<not> th_detached th \<and>
      (\<not> exit_all_threads (tp s') \<longrightarrow> th_pc th \<noteq> Exited)" if "i < length (bgthreads (tp s))" for i
    using bg_thread_at [OF assms(1) that] th assms(5) by metis
  moreover have "t \<in> set (bgthreads (tp s))" if "threads s' t = Some th" "th_pc th \<noteq> Exited" for t th
    using old [OF that(1)] that(2) assms(1) unfolding threads_inv_def by metis
  ultimately show ?thesis using assms(1-4) unfolding threads_inv_def by simp
qed

lemma threads_inv_wake: 
  assumes "threads_inv s"
  shows "threads_inv (wake W s)"
  using assms
  by (rule threads_inv_mono)
    (use assms in \<open>auto simp: threads_wake option.rel_map threads_inv_def intro!: option.rel_refl\<close>)

lemma threads_inv_set_pc:
  assumes "threads_inv s" "threads s t = Some th" "th_pc th \<noteq> Exited" "pc = Exited \<Longrightarrow> exit_all_threads (tp s)"
  shows "threads_inv (set_pc t pc s)"
  using assms(1)
  by (rule threads_inv_mono) (use assms in \<open>auto simp: threads_set_pc threads_inv_def intro!: option.rel_refl\<close>)

text \<open>The clients' operations on the queue and the flags leave the threads alone.\<close>

lemma threads_inv_tp:
  assumes "threads_inv s" "threads s' = threads s" "bgthreads (tp s') = bgthreads (tp s)"
    "total_threads_limit (tp s') = total_threads_limit (tp s)" "exit_all_threads (tp s) \<Longrightarrow> exit_all_threads (tp s')"
  shows "threads_inv s'"
  using assms(1)
  by (rule threads_inv_mono) (use assms in \<open>auto simp: threads_inv_def intro!: option.rel_refl\<close>)

lemma waiting_cong: "threads s' = threads s \<Longrightarrow> waiting s' = waiting s"
  by (simp add: waiting_def fun_eq_iff)

text \<open>Waking everybody establishes what a wake-up is needed for.\<close>

lemma wake_inv_all:
  assumes "threads_inv s" "bg_queue (tp s) \<noteq> [] \<longrightarrow> bgthreads (tp s) \<noteq> []"
  shows "wake_inv (wake (\<lambda>_. True) s)"
  using assms by (auto simp: wake_inv_def threads_inv_def intro!: exI [of _ 0])

lemma wake_inv_wake: "wake_inv s \<Longrightarrow> wake_inv (wake W s)"
  by (auto simp: wake_inv_def)

lemma queued_has_thread:
  assumes "wake_inv s" "\<not> exit_all_threads (tp s)" "bg_queue (tp s) \<noteq> []"
  shows "bgthreads (tp s) \<noteq> []"
  using assms by (auto simp: wake_inv_def)

subsection \<open>A thread's turn\<close>

lemma wait_inv:
  assumes inv: "threads_inv s" "wake_inv s" and th: "threads s t = Some th" "th_pc th \<noteq> Exited"
    and wait: "must_wait (th_id th) (tp s)"
  shows "wake_inv (set_pc t Waiting s)"
proof -
  note live = live_thread [OF inv(1) th]
  have d: "distinct (bgthreads (tp s))" and x: "\<not> exit_all_threads (tp s)"
    using inv(1) wait by (simp_all add: threads_inv_def must_wait_def)
  have other: "waiting (set_pc t Waiting s) (bgthreads (tp s) ! i) = waiting s (bgthreads (tp s) ! i)"
    if "i < length (bgthreads (tp s))" "i \<noteq> th_id th" for i
    using that live d by (auto simp: waiting_set_pc nth_eq_iff_index_eq)
  have "\<exists>i < length (bgthreads (tp s)). int i < total_threads_limit (tp s) \<and>
      \<not> waiting (set_pc t Waiting s) (bgthreads (tp s) ! i)" if q: "bg_queue (tp s) \<noteq> []"
  proof -
    have "IsExcessiveThread (th_id th) (tp s)" using wait q by (simp add: must_wait_def)
    then have "total_threads_limit (tp s) \<le> int (th_id th)" using inv(1) live(1) by simp
    then show ?thesis using inv(2) q x other unfolding wake_inv_def by (metis order_less_irrefl order_less_le_trans)
  qed
  moreover have "\<not> waiting (set_pc t Waiting s) (last (bgthreads (tp s)))"
    if e: "total_threads_limit (tp s) < int (length (bgthreads (tp s)))"
  proof -
    have "Suc (th_id th) \<noteq> length (bgthreads (tp s))"
      using wait e inv(1) by (simp add: must_wait_def IsLastExcessiveThread_def)
    moreover have "last (bgthreads (tp s)) = bgthreads (tp s) ! (length (bgthreads (tp s)) - 1)"
      using live(1) by (intro last_conv_nth) auto
    ultimately show ?thesis using other [of "length (bgthreads (tp s)) - 1"] inv(2) x e live(1)
      by (simp add: wake_inv_def)
  qed
  ultimately show ?thesis using x by (simp add: wake_inv_def)
qed

text \<open>The thread that ends itself is the last of the pool.\<close>

definition shrink :: "pthread_t \<Rightarrow> pool_state \<Rightarrow> pool_state" where
  "shrink t s = set_pc t Exited (update_tp (bgthreads_update butlast) (ThreadDetach t s))"

lemma shrink_inv:
  assumes inv: "threads_inv s" and th: "threads s t = Some th" "th_pc th \<noteq> Exited"
    and l: "t = last (bgthreads (tp s))" "2 \<le> length (bgthreads (tp s))"
  shows "threads_inv (shrink t s)"
proof -
  let ?b = "bgthreads (tp s)"
  have d: "distinct ?b" "1 \<le> total_threads_limit (tp s)" "total_threads_limit (tp s) < 2 ^ 31" "length ?b < 2 ^ 31"
    using inv by (simp_all add: threads_inv_def)
  have b: "?b = butlast ?b @ [t]" using l by (metis append_butlast_last_id list.size(3) not_numeral_le_zero)
  have t: "t \<notin> set (butlast ?b)" using d(1) b by (metis distinct_append disjoint_iff list.set_intros(1))
  have threads: "threads (shrink t s) t' = (if t' = t then Some (th\<lparr>th_detached := True, th_pc := Exited\<rparr>) else threads s t')" for t'
    using th by (auto simp: shrink_def threads_set_pc ThreadDetach_def)
  have tps: "tp (shrink t s) = (tp s)\<lparr>bgthreads := butlast ?b\<rparr>" by (simp add: shrink_def ThreadDetach_def)
  have "\<exists>th. threads (shrink t s) (butlast ?b ! i) = Some th \<and> th_id th = i \<and> \<not> th_detached th \<and>
      (\<not> exit_all_threads (tp s) \<longrightarrow> th_pc th \<noteq> Exited)" if "i < length (butlast ?b)" for i
  proof -
    have "butlast ?b ! i \<noteq> t" using t that nth_mem by metis
    moreover have "butlast ?b ! i = ?b ! i" using that by (simp add: nth_butlast)
    ultimately show ?thesis using bg_thread_at [OF inv, of i] that threads by (metis (no_types, lifting) length_butlast less_diff_conv add_lessD1)
  qed
  moreover have "t' \<in> set (butlast ?b)" if "threads (shrink t s) t' = Some th'" "th_pc th' \<noteq> Exited" for t' th'
  proof -
    have "t' \<noteq> t" "threads s t' = Some th'" using that by (auto simp: threads split: if_splits)
    then have "t' \<in> set ?b" using inv that(2) by (auto simp: threads_inv_def)
    then show ?thesis using b \<open>t' \<noteq> t\<close> by (metis rotate1.simps(2) set_ConsD set_rotate1)
  qed
  ultimately show ?thesis using d unfolding threads_inv_def tps by (simp add: distinct_butlast)
qed

lemma excess_inv:
  assumes i: "threads_inv s" "wake_inv s" "items_inv s" and th: "threads s t = Some th" "th_pc th \<noteq> Exited"
    and last: "\<not> exit_all_threads (tp s)" "IsLastExcessiveThread (th_id th) (tp s)"
  defines "s' \<equiv> if HasExcessiveThread (tp (shrink t s)) then wake (\<lambda>_. True) (shrink t s) else shrink t s"
  shows "pool_inv s'" "t = last (bgthreads (tp s))" "bgthreads (tp s) \<noteq> []"
proof -
  let ?b = "bgthreads (tp s)"
  note live = live_thread [OF i(1) th]
  have e: "total_threads_limit (tp s) < int (length ?b)" "Suc (th_id th) = length ?b"
    using last(2) i(1) by (simp_all add: IsLastExcessiveThread_def)
  have two: "2 \<le> length ?b" using e i(1) by (simp add: threads_inv_def)
  then show b: "?b \<noteq> []" by auto
  show t: "t = last ?b" using live(2) e(2) [symmetric] b by (simp add: last_conv_nth)
  have ti: "threads_inv (shrink t s)" by (rule shrink_inv [OF i(1) th t two])
  have tps: "tp (shrink t s) = (tp s)\<lparr>bgthreads := butlast ?b\<rparr>" by (simp add: shrink_def ThreadDetach_def)
  have items: "items_inv (shrink t s)"
    using i(3) unfolding items_inv_def tps by (simp add: shrink_def ThreadDetach_def)
  have w: "waiting (shrink t s) t' \<longleftrightarrow> t' \<noteq> t \<and> waiting s t'" for t'
    by (cases "threads s t") (simp_all add: shrink_def waiting_def threads_set_pc ThreadDetach_def)
  show "pool_inv s'"
  proof (cases "HasExcessiveThread (tp (shrink t s))")
    case True
    have "butlast ?b \<noteq> []" using two by (cases ?b rule: rev_cases) auto
    then have "wake_inv s'" using True wake_inv_all [OF ti] by (simp add: s'_def tps)
    then show ?thesis using True threads_inv_wake [OF ti] items by (simp add: s'_def pool_inv_def items_inv_def)
  next
    case False
    then have short: "\<not> total_threads_limit (tp s) < int (length (butlast ?b))" unfolding threads_inv_limit(1) [OF ti] by (simp add: tps)
    have "\<exists>j < length (butlast ?b). int j < total_threads_limit (tp s) \<and> \<not> waiting (shrink t s) (butlast ?b ! j)"
      if q: "bg_queue (tp s) \<noteq> []"
    proof -
      obtain j where j: "j < length ?b" "int j < total_threads_limit (tp s)" "\<not> waiting s (?b ! j)"
        using i(2) q last(1) by (auto simp: wake_inv_def)
      have "j < length (butlast ?b)" using j(2) e(1) by simp
      with j show ?thesis by (auto simp: w nth_butlast intro!: exI [of _ j])
    qed
    then have "wake_inv (shrink t s)" using short last(1) by (simp add: wake_inv_def tps)
    then show ?thesis using False ti items by (simp add: s'_def pool_inv_def)
  qed
qed

text \<open>Taking the first item.\<close>

definition take_item :: "pthread_t \<Rightarrow> bg_thread \<Rightarrow> BGItem \<Rightarrow> BGItem list \<Rightarrow> pool_state \<Rightarrow> pool_state" where
  "take_item t th item rest s = set_pc t (Calling (bg_function item) (bg_arg item))
     (s\<lparr>tp := (tp s)\<lparr>bg_queue := rest, queue_len := of_nat (length rest)\<rparr>, taken := taken s @ [item],
        threads := (threads s)(t \<mapsto> (if th_low_io th \<noteq> low_io_priority (tp s) then th\<lparr>th_low_io := True\<rparr> else th))\<rparr>)"

lemma take_item_inv:
  assumes i: "threads_inv s" "wake_inv s" "items_inv s" and th: "threads s t = Some th" "th_pc th \<noteq> Exited"
    and q: "bg_queue (tp s) = item # rest" and id: "int (th_id th) < total_threads_limit (tp s)"
    and run: "\<not> exit_all_threads (tp s)"
  shows "pool_inv (take_item t th item rest s)"
proof -
  let ?s = "take_item t th item rest s"
  note live = live_thread [OF i(1) th]
  have th': "threads ?s t' = (if t' = t then Some (th\<lparr>th_pc := Calling (bg_function item) (bg_arg item),
      th_low_io := th_low_io th \<or> low_io_priority (tp s)\<rparr>) else threads s t')" for t'
    using th by (auto simp: take_item_def threads_set_pc)
  have tps: "tp ?s = (tp s)\<lparr>bg_queue := rest, queue_len := of_nat (length rest)\<rparr>" by (simp add: take_item_def)
  have "threads_inv ?s"
    using i(1)
    by (rule threads_inv_mono) (use i(1) th in \<open>auto simp: th' tps threads_inv_def intro!: option.rel_refl\<close>)
  moreover have "wake_inv ?s"
  proof -
    have w: "waiting ?s t' \<longleftrightarrow> t' \<noteq> t \<and> waiting s t'" for t' by (auto simp: waiting_def th')
    have "\<exists>j < length (bgthreads (tp s)). int j < total_threads_limit (tp s) \<and> \<not> waiting ?s (bgthreads (tp s) ! j)"
      using live(1,2) id w by blast
    then show ?thesis using i(2) run by (simp add: wake_inv_def tps w)
  qed
  moreover have "items_inv ?s"
    using i(3) q by (simp add: items_inv_def tps) (simp add: take_item_def)
  ultimately show ?thesis by (simp add: pool_inv_def)
qed

lemma BGThread_locked_excess:
  assumes "threads s t = Some th" "\<not> exit_all_threads (tp s)" "IsLastExcessiveThread (th_id th) (tp s)"
    "t = last (bgthreads (tp s))" "bgthreads (tp s) \<noteq> []"
  shows "BGThread_locked t s = Some (if HasExcessiveThread (tp (shrink t s)) then wake (\<lambda>_. True) (shrink t s) else shrink t s)"
  using assms(1-3,5) assms(4) [symmetric]
  by (simp add: BGThread_locked_def must_wait_def shrink_def Let_def WakeUpAllThreads_def ConditionSignalAll_def set_pc_wake
      if_distrib [of "set_pc t Exited"])

lemma BGThread_locked_inv:
  assumes inv: "pool_inv s" and th: "threads s t = Some th" "th_pc th = Locking"
  shows "\<exists>s'. BGThread_locked t s = Some s' \<and> pool_inv s'"
proof -
  have i: "threads_inv s" "wake_inv s" "items_inv s" using inv by (simp_all add: pool_inv_def)
  have ne: "th_pc th \<noteq> Exited" using th by simp
  note live = live_thread [OF i(1) th(1) ne]
  consider (wait) "must_wait (th_id th) (tp s)"
    | (stop) "\<not> must_wait (th_id th) (tp s)" "exit_all_threads (tp s)"
    | (excess) "\<not> must_wait (th_id th) (tp s)" "\<not> exit_all_threads (tp s)" "IsLastExcessiveThread (th_id th) (tp s)"
    | (work) "\<not> must_wait (th_id th) (tp s)" "\<not> exit_all_threads (tp s)" "\<not> IsLastExcessiveThread (th_id th) (tp s)"
    by blast
  then show ?thesis
  proof cases
    case wait
    then have "BGThread_locked t s = Some (set_pc t Waiting s)" by (simp add: BGThread_locked_def th)
    moreover have "pool_inv (set_pc t Waiting s)"
      using wait_inv [OF i(1,2) th(1) ne wait] threads_inv_set_pc [OF i(1) th(1) ne, of Waiting] i(3)
      by (simp add: pool_inv_def items_inv_def)
    ultimately show ?thesis by simp
  next
    case stop
    then have "BGThread_locked t s = Some (set_pc t Exited s)" by (simp add: BGThread_locked_def th)
    moreover have "pool_inv (set_pc t Exited s)"
      using stop threads_inv_set_pc [OF i(1) th(1) ne, of Exited] i(2,3)
      by (simp add: pool_inv_def items_inv_def wake_inv_def waiting_set_pc)
    ultimately show ?thesis by simp
  next
    case excess
    note x = excess_inv [OF i th(1) ne excess(2,3)]
    show ?thesis using BGThread_locked_excess [OF th(1) excess(2,3) x(2,3)] x(1) by blast
  next
    case work
    then obtain item rest where q: "bg_queue (tp s) = item # rest" by (cases "bg_queue (tp s)") (auto simp: must_wait_def)
    have "int (th_id th) < total_threads_limit (tp s)" using work q i(1) live(1) by (simp add: must_wait_def)
    then have "pool_inv (take_item t th item rest s)" by (rule take_item_inv [OF i th(1) ne q _ work(2)])
    moreover have "BGThread_locked t s = Some (take_item t th item rest s)"
      using work q by (simp add: BGThread_locked_def th(1) Let_def take_item_def)
    ultimately show ?thesis by blast
  qed
qed

subsection \<open>The clients' turns\<close>

definition same_items :: "pool_state \<Rightarrow> pool_state \<Rightarrow> bool" where
  "same_items s s' \<longleftrightarrow> bg_queue (tp s') = bg_queue (tp s) \<and> queue_len (tp s') = queue_len (tp s) \<and>
     accepted s' = accepted s \<and> taken s' = taken s \<and> removed s' = removed s"

lemma items_inv_same: "items_inv s \<Longrightarrow> same_items s s' \<Longrightarrow> items_inv s'"
  by (simp add: items_inv_def same_items_def)

lemma same_items_trans: "same_items s s' \<Longrightarrow> same_items s' s'' \<Longrightarrow> same_items s s''"
  by (simp add: same_items_def)

lemma same_items_wake [simp]: "same_items s (wake W s)" "same_items s s"
  by (simp_all add: same_items_def)

text \<open>One round of the loop of \<open>StartBGThreads\<close>.\<close>

definition start_one :: "(nat \<Rightarrow> pthread_t \<times> int) \<Rightarrow> pool_state \<Rightarrow> pool_state" where
  "start_one create s = s\<lparr>threads := (threads s)(fst (create (length (bgthreads (tp s)))) \<mapsto> BGThreadWrapper (length (bgthreads (tp s)))),
     tp := bgthreads_update (\<lambda>ths. ths @ [fst (create (length (bgthreads (tp s))))]) (tp s)\<rparr>"

lemma start_one_inv:
  assumes inv: "threads_inv s" "wake_inv s" and room: "int (length (bgthreads (tp s))) < total_threads_limit (tp s)"
    and fresh: "fresh_threads create s"
  shows "threads_inv (start_one create s)" "wake_inv (start_one create s)" "fresh_threads create (start_one create s)"
    "waiting (start_one create s) = waiting s"
proof -
  let ?b = "bgthreads (tp s)" and ?s = "start_one create s" and ?n = "length (bgthreads (tp s))"
  define t where "t = fst (create ?n)"
  have tps: "tp ?s = (tp s)\<lparr>bgthreads := ?b @ [t]\<rparr>" by (simp add: start_one_def t_def)
  have ths: "threads ?s = (threads s)(t \<mapsto> BGThreadWrapper ?n)" by (simp add: start_one_def t_def)
  have free: "free_thread s t" using fresh by (simp add: fresh_threads_def t_def)
  have new: "t \<notin> set ?b"
  proof
    assume "t \<in> set ?b"
    then obtain i where i: "i < ?n" "?b ! i = t" by (auto simp: in_set_conv_nth)
    obtain th where "threads s (?b ! i) = Some th" "\<not> th_detached th" using bg_thread_at [OF inv(1) i(1)] .
    then show False using i(2) free by (simp add: free_thread_def)
  qed
  have nw: "\<not> waiting s t" using free by (auto simp: free_thread_def waiting_def split: option.splits)
  show w: "waiting ?s = waiting s" using nw by (auto simp: waiting_def ths BGThreadWrapper_def fun_eq_iff)
  have "\<exists>th. threads ?s ((?b @ [t]) ! i) = Some th \<and> th_id th = i \<and> \<not> th_detached th \<and>
      (\<not> exit_all_threads (tp s) \<longrightarrow> th_pc th \<noteq> Exited)" if "i < length (?b @ [t])" for i
  proof (cases "i < ?n")
    case True
    then have "?b ! i \<noteq> t" using new nth_mem by metis
    moreover obtain th where "threads s (?b ! i) = Some th" "th_id th = i" "\<not> th_detached th"
      "\<not> exit_all_threads (tp s) \<longrightarrow> th_pc th \<noteq> Exited" using bg_thread_at [OF inv(1) True] .
    ultimately show ?thesis using True by (simp add: ths nth_append)
  next
    case False
    then show ?thesis using that by (simp add: ths BGThreadWrapper_def nth_append)
  qed
  moreover have "t' \<in> set (?b @ [t])" if "threads ?s t' = Some th'" "th_pc th' \<noteq> Exited" for t' th'
    using that inv(1) by (auto simp: ths threads_inv_def split: if_splits)
  ultimately show "threads_inv ?s" using inv(1) room new unfolding threads_inv_def tps by simp
  have "\<exists>i < length (?b @ [t]). int i < total_threads_limit (tp s) \<and> \<not> waiting s ((?b @ [t]) ! i)"
    using room nw by (intro exI [of _ ?n]) simp
  moreover have "\<not> waiting s (last (?b @ [t]))" using nw by simp
  ultimately show "wake_inv ?s" using inv(2) unfolding wake_inv_def w tps by simp
  have "free_thread ?s (fst (create n))" if "n \<ge> Suc ?n" for n
  proof -
    have "n \<noteq> ?n" using that by simp
    then have "fst (create n) \<noteq> t" using fresh by (metis comp_apply fresh_threads_def injD t_def)
    then show ?thesis using fresh that by (simp add: fresh_threads_def free_thread_def ths)
  qed
  then show "fresh_threads create ?s" using fresh by (simp add: fresh_threads_def tps)
qed

lemma StartBGThreads_inv:
  assumes "threads_inv s" "wake_inv s" "fresh_threads create s"
  shows "case StartBGThreads create s of
      None \<Rightarrow> \<exists>n. snd (create n) \<noteq> 0
    | Some s' \<Rightarrow> threads_inv s' \<and> wake_inv s' \<and> same_items s s' \<and> waiting s' = waiting s \<and>
        total_threads_limit (tp s') \<le> int (length (bgthreads (tp s'))) \<and>
        total_threads_limit (tp s') = total_threads_limit (tp s) \<and> exit_all_threads (tp s') = exit_all_threads (tp s)"
  using assms
proof (induction "nat (total_threads_limit (tp s)) - length (bgthreads (tp s))" arbitrary: s rule: less_induct)
  case less
  show ?case
  proof (cases "int (length (bgthreads (tp s))) < total_threads_limit (tp s)")
    case False
    then show ?thesis using less.prems by (subst StartBGThreads.simps) simp
  next
    case True
    let ?s = "start_one create s"
    note one = start_one_inv [OF less.prems(1,2) True less.prems(3)]
    have run: "StartBGThreads create s = (if snd (create (length (bgthreads (tp s)))) \<noteq> 0 then None else StartBGThreads create ?s)"
      using True less.prems(1) by (subst StartBGThreads.simps) (simp add: PthreadCall_def start_one_def Let_def)
    have tps: "total_threads_limit (tp ?s) = total_threads_limit (tp s)" "exit_all_threads (tp ?s) = exit_all_threads (tp s)"
      "length (bgthreads (tp ?s)) = Suc (length (bgthreads (tp s)))" "same_items s ?s"
      by (simp_all add: start_one_def same_items_def)
    show ?thesis
    proof (cases "snd (create (length (bgthreads (tp s)))) = 0")
      case ok: True
      have "nat (total_threads_limit (tp ?s)) - length (bgthreads (tp ?s)) < nat (total_threads_limit (tp s)) - length (bgthreads (tp s))"
        using True tps by simp
      from less.hyps [OF this one(1-3)] show ?thesis
        using run ok tps one(4) by (auto split: option.splits intro: same_items_trans)
    qed (auto simp: run)
  qed
qed

lemma StartBGThreads_Some:
  assumes "threads_inv s" "wake_inv s" "fresh_threads create s" "StartBGThreads create s = Some s'"
  shows "threads_inv s'" "wake_inv s'" "same_items s s'" "waiting s' = waiting s"
    "total_threads_limit (tp s') \<le> int (length (bgthreads (tp s')))" "exit_all_threads (tp s') = exit_all_threads (tp s)"
  using StartBGThreads_inv [OF assms(1-3)] assms(4) by simp_all

lemma SetBackgroundThreadsInternal_inv:
  assumes inv: "pool_inv s" and fresh: "fresh_threads create s" "num < 2 ^ 31"
    and run: "SetBackgroundThreadsInternal create num allow_reduce s = Some s'"
  shows "pool_inv s'"
proof (cases "exit_all_threads (tp s) \<or> \<not> (num > total_threads_limit (tp s) \<or> num < total_threads_limit (tp s) \<and> allow_reduce)")
  case True
  then show ?thesis using run inv by (auto simp: SetBackgroundThreadsInternal_def split: if_splits)
next
  case False
  have i: "threads_inv s" "wake_inv s" "items_inv s" using inv by (simp_all add: pool_inv_def)
  define s1 where "s1 = update_tp (total_threads_limit_update (\<lambda>_. max 1 num)) s"
  have run': "StartBGThreads create (wake (\<lambda>_. True) s1) = Some s'"
    using run False by (auto simp: SetBackgroundThreadsInternal_def s1_def Let_def WakeUpAllThreads_def ConditionSignalAll_def)
  have t1: "threads_inv s1"
    using i(1) by (rule threads_inv_mono) (use fresh(2) in \<open>auto simp: s1_def intro!: option.rel_refl\<close>)
  have "wake_inv (wake (\<lambda>_. True) s1)"
    using queued_has_thread [OF i(2)] False by (intro wake_inv_all [OF t1]) (auto simp: s1_def)
  moreover have "fresh_threads create (wake (\<lambda>_. True) s1)"
  proof -
    have "free_thread (wake (\<lambda>_. True) s1) t" if "free_thread s t" for t
      using that by (auto simp: free_thread_def threads_wake s1_def split: option.splits)
    then show ?thesis using fresh(1) by (auto simp: fresh_threads_def s1_def)
  qed
  ultimately have "threads_inv s'" "wake_inv s'" "same_items (wake (\<lambda>_. True) s1) s'"
    using StartBGThreads_Some [OF threads_inv_wake [OF t1] _ _ run'] by blast+
  moreover have "items_inv (wake (\<lambda>_. True) s1)" using i(3) by (simp add: items_inv_def s1_def)
  ultimately show ?thesis using items_inv_same by (simp add: pool_inv_def)
qed

lemma Schedule_inv:
  assumes inv: "pool_inv s" and fresh: "fresh_threads create s" "signal_ok ws s" and run: "Schedule create ws item s = Some s'"
  shows "pool_inv s'"
proof (cases "exit_all_threads (tp s)")
  case True
  then show ?thesis using run inv by (simp add: Schedule_def)
next
  case False
  have i: "threads_inv s" "wake_inv s" "items_inv s" using inv by (simp_all add: pool_inv_def)
  obtain s1 where s1: "StartBGThreads create s = Some s1" using run False by (auto simp: Schedule_def split: bind_splits)
  note 1 = StartBGThreads_Some [OF i(1,2) fresh(1) s1]
  define s2 where "s2 = s1\<lparr>tp := (bg_queue_update (\<lambda>q. q @ [item]) (tp s1))\<lparr>queue_len := of_nat (length (bg_queue (tp s1) @ [item]))\<rparr>,
    accepted := accepted s1 @ [item]\<rparr>"
  have s': "s' = (if \<not> HasExcessiveThread (tp s2) then wake (\<lambda>t. t \<in> set ws) s2 else wake (\<lambda>_. True) s2)"
    using run False by (auto simp: Schedule_def s1 s2_def Let_def ConditionSignal_def WakeUpAllThreads_def ConditionSignalAll_def split: if_splits)
  have t2: "threads_inv s2" by (rule threads_inv_tp [OF 1(1)]) (simp_all add: s2_def)
  have "items_inv s1" using items_inv_same [OF i(3) 1(3)] .
  then have it2: "items_inv s2" by (simp add: items_inv_def s2_def) (metis append_assoc subseq_append)
  have w2: "waiting s2 = waiting s" using 1(4) waiting_cong [of s2 s1] by (simp add: s2_def)
  have ne: "bgthreads (tp s2) \<noteq> []" using 1(1,5) by (auto simp: s2_def threads_inv_def)
  have "wake_inv s'"
  proof (cases "HasExcessiveThread (tp s2)")
    case True
    then show ?thesis using ne by (simp add: s' wake_inv_all [OF t2])
  next
    case fits: False
    then have n: "int (length (bgthreads (tp s2))) = total_threads_limit (tp s2)"
      using 1(5) unfolding threads_inv_limit(1) [OF t2] by (simp add: s2_def)
    have "\<exists>j < length (bgthreads (tp s2)). \<not> (waiting s (bgthreads (tp s2) ! j) \<and> bgthreads (tp s2) ! j \<notin> set ws)"
    proof (cases "\<exists>t \<in> set ws. waiting s t")
      case True
      then obtain t where t: "t \<in> set ws" "waiting s2 t" by (auto simp: w2)
      then obtain th where th: "threads s2 t = Some th" "th_pc th = Waiting" by (auto simp: waiting_def split: option.splits)
      have "th_id th < length (bgthreads (tp s2))" "bgthreads (tp s2) ! th_id th = t"
        using live_thread [OF t2 th(1)] th(2) by simp_all
      then show ?thesis using t(1) by blast
    next
      case no: False
      then show ?thesis using fresh(2) ne by (auto simp: signal_ok_def)
    qed
    moreover have "\<not> exit_all_threads (tp s2)" using 1(6) False by (simp add: s2_def)
    ultimately show ?thesis using fits n [symmetric] by (auto simp: s' wake_inv_def w2)
  qed
  moreover have "threads_inv s'" using threads_inv_wake [OF t2] by (simp add: s')
  moreover have "items_inv s'" using items_inv_same [OF it2] by (simp add: s')
  ultimately show ?thesis by (simp add: pool_inv_def)
qed

lemma unschedule_loop_items:
  assumes "unschedule_loop tag q = (kept, erased, calls)"
  shows "subseq kept q" "mset q = mset kept + mset erased" "kept = filter (\<lambda>it. bg_tag it \<noteq> tag) q"
    "erased = filter (\<lambda>it. bg_tag it = tag) q"
  using assms
  by (induction q arbitrary: kept erased calls) (auto split: prod.splits if_splits intro: subseq_Cons')

lemma UnSchedule_inv:
  assumes "pool_inv s"
  shows "pool_inv (snd (UnSchedule tag s))"
proof -
  obtain kept erased calls where u: "unschedule_loop tag (bg_queue (tp s)) = (kept, erased, calls)"
    by (metis prod_cases3)
  note k = unschedule_loop_items [OF u]
  let ?s = "snd (UnSchedule tag s)"
  have tps: "tp ?s = (tp s)\<lparr>bg_queue := kept, queue_len := of_nat (length kept)\<rparr>" "threads ?s = threads s"
    "removed ?s = removed s @ erased" "accepted ?s = accepted s" "taken ?s = taken s"
    by (simp_all add: UnSchedule_def u)
  have i: "threads_inv s" "wake_inv s" "items_inv s" using assms by (simp_all add: pool_inv_def)
  have "threads_inv ?s" by (rule threads_inv_tp [OF i(1)]) (simp_all add: tps)
  moreover have "wake_inv ?s"
    using i(2) k(1) waiting_cong [OF tps(2)] unfolding wake_inv_def tps by (auto simp: tps)
  moreover have "subseq (taken s @ kept) (accepted s)"
    using k(1) i(3) by (meson items_inv_def subseq_append_iff subseq_order.trans subseq_order.refl list_emb_append_mono)
  then have "items_inv ?s" using i(3) k(2) by (simp add: items_inv_def tps)
  ultimately show ?thesis by (simp add: pool_inv_def)
qed

lemma JoinAllThreads_signal_inv:
  assumes "pool_inv s" "JoinAllThreads_signal s = Some s'"
  shows "pool_inv s'"
proof -
  let ?s = "update_tp (exit_all_threads_update (\<lambda>_. True)) s"
  have s': "s' = wake (\<lambda>_. True) ?s" using assms(2) by (auto simp: JoinAllThreads_signal_def ConditionSignalAll_def split: if_splits)
  have i: "threads_inv s" "items_inv s" using assms(1) by (simp_all add: pool_inv_def)
  have "threads_inv ?s" by (rule threads_inv_tp [OF i(1)]) simp_all
  then have "threads_inv s'" unfolding s' by (rule threads_inv_wake)
  moreover have "wake_inv s'" by (simp add: wake_inv_def s')
  moreover have "items_inv s'" using i(2) by (simp add: items_inv_def s')
  ultimately show ?thesis by (simp add: pool_inv_def)
qed

lemma join_loop_threads:
  assumes "join_loop ts s = Some s'"
  shows "s' = s\<lparr>threads := (threads s) |` (- set ts)\<rparr>"
  using assms
proof (induction ts arbitrary: s)
  case (Cons t ts)
  then have "s' = s\<lparr>threads := (threads s)(t := None) |` (- set ts)\<rparr>" by (fastforce split: bind_splits if_splits)
  moreover have "(threads s)(t := None) |` (- set ts) = (threads s) |` (- set (t # ts))" by (auto simp: restrict_map_def fun_eq_iff)
  ultimately show ?case by simp
qed (simp add: restrict_map_def)

lemma JoinAllThreads_join_inv:
  assumes "pool_inv s" "exit_all_threads (tp s)" "JoinAllThreads_join s = Some s'"
  shows "pool_inv s'"
proof -
  let ?b = "set (bgthreads (tp s))"
  have s': "s' = s\<lparr>threads := (threads s) |` (- ?b), tp := (tp s)\<lparr>bgthreads := []\<rparr>\<rparr>"
    using assms(3) by (auto simp: JoinAllThreads_join_def dest!: join_loop_threads split: bind_splits)
  have i: "threads_inv s" "wake_inv s" "items_inv s" using assms(1) by (simp_all add: pool_inv_def)
  have none: "threads s' t = Some th \<Longrightarrow> th_pc th = Exited" for t th
    using i(1) by (auto simp: s' threads_inv_def restrict_map_def split: if_splits)
  then have "threads_inv s'" using i(1) by (auto simp: threads_inv_def s')
  moreover have "wake_inv s'" using none assms(2) by (auto simp: wake_inv_def waiting_def s' split: option.splits)
  moreover have "items_inv s'" using i(3) by (simp add: items_inv_def s')
  ultimately show ?thesis by (simp add: pool_inv_def)
qed

lemma worker_step_inv: "worker_step s s' \<Longrightarrow> pool_inv s \<Longrightarrow> pool_inv s'"
proof (induction rule: worker_step.induct)
  case (locked s t th s')
  then show ?case using BGThread_locked_inv by (metis option.inject)
next
  case (returned s t th f a)
  then have i: "threads_inv s" "wake_inv s" "items_inv s" by (simp_all add: pool_inv_def)
  have "threads_inv (set_pc t Locking s)" using threads_inv_set_pc [OF i(1) returned(1), of Locking] returned(2) by simp
  moreover have "\<not> waiting s t" using returned(1,2) by (simp add: waiting_def)
  then have "wake_inv (set_pc t Locking s)" using i(2) by (auto simp: wake_inv_def waiting_set_pc)
  ultimately show ?case using i(3) by (simp add: BGThread_returned_def pool_inv_def items_inv_def)
next
  case (spurious s t)
  then show ?case
    using threads_inv_wake [of s] wake_inv_wake [of s] items_inv_same [of s] by (simp add: pool_inv_def)
qed

lemma pool_step_inv: "pool_step s s' \<Longrightarrow> pool_inv s \<Longrightarrow> pool_inv s'"
proof (induction rule: pool_step.induct)
  case (lower_io s)
  have "waiting (LowerIOPriority s) = waiting s" by (rule waiting_cong) (simp add: LowerIOPriority_def)
  moreover have "threads_inv (LowerIOPriority s)"
    by (rule threads_inv_tp [of s]) (use lower_io in \<open>simp_all add: pool_inv_def LowerIOPriority_def\<close>)
  ultimately show ?case using lower_io by (simp add: pool_inv_def wake_inv_def items_inv_def) (simp add: LowerIOPriority_def)
qed (auto simp: SetBackgroundThreads_def IncBackgroundThreadsIfNeeded_def intro: worker_step_inv UnSchedule_inv
  JoinAllThreads_signal_inv JoinAllThreads_join_inv Schedule_inv SetBackgroundThreadsInternal_inv)

lemma pool_init_inv: "pool_inv ThreadPoolImpl_init"
  by (simp add: pool_inv_def threads_inv_def wake_inv_def items_inv_def ThreadPoolImpl_init_def)

interpretation pool: step_system ThreadPoolImpl_init pool_step pool_inv
  by unfold_locales (auto intro: pool_init_inv pool_step_inv)

subsection \<open>Progress\<close>

text \<open>A thread that is awake finishes the call it is in, if any, and gets the mutex.\<close>

definition thread_turn :: "pthread_t \<Rightarrow> pool_state \<Rightarrow> pool_state \<Rightarrow> bool" where
  "thread_turn t s s' \<longleftrightarrow> (\<exists>th. threads s t = Some th \<and>
     (th_pc th = Locking \<and> BGThread_locked t s = Some s' \<or>
      (\<exists>f a. th_pc th = Calling f a) \<and> BGThread_locked t (BGThread_returned t s) = Some s'))"

lemma thread_turn_locked:
  assumes "pool_inv s" "i < length (bgthreads (tp s))" "\<not> exit_all_threads (tp s)" "\<not> waiting s (bgthreads (tp s) ! i)"
  obtains th s1 where "threads s1 (bgthreads (tp s) ! i) = Some th" "th_pc th = Locking" "th_id th = i" "pool_inv s1"
    "tp s1 = tp s" "taken s1 = taken s"
    "\<forall>s'. BGThread_locked (bgthreads (tp s) ! i) s1 = Some s' \<longrightarrow> thread_turn (bgthreads (tp s) ! i) s s'"
proof -
  let ?t = "bgthreads (tp s) ! i"
  note result = that
  obtain th where th: "threads s ?t = Some th" "th_id th = i" "th_pc th \<noteq> Exited"
    using bg_thread_at [of s i] assms by (auto simp: pool_inv_def)
  have "th_pc th \<noteq> Waiting" using th assms(4) by (simp add: waiting_def)
  with th(3) consider (lock) "th_pc th = Locking" | (call) f a where "th_pc th = Calling f a" by (cases "th_pc th") auto
  then show ?thesis
  proof cases
    case lock
    with th assms(1) show ?thesis by (intro result [of s th]) (auto simp: thread_turn_def)
  next
    case call
    have "pool_inv (BGThread_returned ?t s)" using worker_step_inv [OF returned [OF th(1) call] assms(1)] .
    with th call show ?thesis
      by (intro result [of "BGThread_returned ?t s" "th\<lparr>th_pc := Locking\<rparr>"])
        (auto simp: thread_turn_def BGThread_returned_def threads_set_pc)
  qed
qed

lemma queued_item_taken:
  assumes inv: "pool_inv s" and run: "\<not> exit_all_threads (tp s)" and q: "bg_queue (tp s) = item # rest"
  shows "\<exists>t s'. thread_turn t s s' \<and> taken s' = taken s @ [item] \<and> bg_queue (tp s') = rest"
proof -
  obtain i where i: "i < length (bgthreads (tp s))" "int i < total_threads_limit (tp s)" "\<not> waiting s (bgthreads (tp s) ! i)"
    using inv run q by (auto simp: pool_inv_def wake_inv_def)
  let ?t = "bgthreads (tp s) ! i"
  obtain th s1 where th: "threads s1 ?t = Some th" "th_pc th = Locking" "th_id th = i" "pool_inv s1" "tp s1 = tp s" "taken s1 = taken s"
    and turn: "\<forall>s'. BGThread_locked ?t s1 = Some s' \<longrightarrow> thread_turn ?t s s'"
    by (rule thread_turn_locked [OF inv i(1) run i(3)]) (rule that; assumption)
  have t: "threads_inv s1" using th(4) by (simp add: pool_inv_def)
  have ne: "\<not> IsExcessiveThread i (tp s)" "\<not> IsLastExcessiveThread i (tp s)"
    using threads_inv_limit(1,3) [OF t] i th(5) by (auto simp: IsLastExcessiveThread_def)
  have "BGThread_locked ?t s1 = Some (take_item ?t th item rest s1)"
    using run q ne th by (simp add: BGThread_locked_def Let_def take_item_def must_wait_def)
  with turn show ?thesis by (auto simp: take_item_def th(5,6) intro!: exI [of _ ?t])
qed

lemma excess_thread_leaves:
  assumes inv: "pool_inv s" and run: "\<not> exit_all_threads (tp s)"
    and big: "total_threads_limit (tp s) < int (length (bgthreads (tp s)))"
  shows "\<exists>s'. thread_turn (last (bgthreads (tp s))) s s' \<and> bgthreads (tp s') = butlast (bgthreads (tp s))"
proof -
  let ?n = "length (bgthreads (tp s)) - 1"
  have "bgthreads (tp s) \<noteq> []" using inv big by (auto simp: pool_inv_def threads_inv_def)
  then have n: "?n < length (bgthreads (tp s))" "bgthreads (tp s) ! ?n = last (bgthreads (tp s))"
    by (simp_all add: last_conv_nth)
  have "\<not> waiting s (bgthreads (tp s) ! ?n)" using inv run big n by (simp add: pool_inv_def wake_inv_def)
  then obtain th s1 where th: "threads s1 (bgthreads (tp s) ! ?n) = Some th" "th_pc th = Locking" "th_id th = ?n" "pool_inv s1"
      "tp s1 = tp s" "taken s1 = taken s"
    and turn: "\<forall>s'. BGThread_locked (bgthreads (tp s) ! ?n) s1 = Some s' \<longrightarrow> thread_turn (bgthreads (tp s) ! ?n) s s'"
    by (rule thread_turn_locked [OF inv n(1) run]) (rule that; assumption)
  have t: "threads_inv s1" using th(4) by (simp add: pool_inv_def)
  have l: "IsLastExcessiveThread ?n (tp s)"
    using threads_inv_limit(1) [OF t] th(5) big n(1) by (auto simp: IsLastExcessiveThread_def)
  have "BGThread_locked (last (bgthreads (tp s))) s1 = Some (if HasExcessiveThread (tp (shrink (last (bgthreads (tp s))) s1))
      then wake (\<lambda>_. True) (shrink (last (bgthreads (tp s))) s1) else shrink (last (bgthreads (tp s))) s1)"
    using th(1) n(2) run l th(3,5) \<open>bgthreads (tp s) \<noteq> []\<close> by (intro BGThread_locked_excess [where th = th]) simp_all
  then show ?thesis using turn n(2) th(5) by (auto simp: shrink_def ThreadDetach_def)
qed

subsection \<open>Joining\<close>

definition turns_left :: "pool_state \<Rightarrow> pthread_t \<Rightarrow> nat" where
  "turns_left s t = (case threads s t of
     None \<Rightarrow> 0
   | Some th \<Rightarrow> (case th_pc th of Locking \<Rightarrow> 1 | Calling _ _ \<Rightarrow> 2 | Waiting \<Rightarrow> 0 | Exited \<Rightarrow> 0))"

lemma exit_step:
  assumes inv: "pool_inv s" and exit: "exit_all_threads (tp s)" and step: "worker_step s s'"
  shows "tp s' = tp s \<and> taken s' = taken s \<and>
    sum (turns_left s') (set (bgthreads (tp s))) < sum (turns_left s) (set (bgthreads (tp s)))"
proof -
  have less: "sum (turns_left (set_pc t pc s)) (set (bgthreads (tp s))) < sum (turns_left s) (set (bgthreads (tp s)))"
    if "threads s t = Some th" "th_pc th \<noteq> Exited" "turns_left (set_pc t pc s) t < turns_left s t" for t th pc
  proof (rule sum_strict_mono_ex1)
    show "\<forall>x \<in> set (bgthreads (tp s)). turns_left (set_pc t pc s) x \<le> turns_left s x"
      using that(3) by (auto simp: turns_left_def threads_set_pc)
    have "t \<in> set (bgthreads (tp s))" using inv that(1,2) by (auto simp: pool_inv_def threads_inv_def)
    then show "\<exists>x \<in> set (bgthreads (tp s)). turns_left (set_pc t pc s) x < turns_left s x" using that(3) by blast
  qed simp
  from step show ?thesis
  proof cases
    case (locked t th)
    then have "s' = set_pc t Exited s" using exit by (simp add: BGThread_locked_def must_wait_def)
    then show ?thesis using less [of t th Exited] locked by (simp add: turns_left_def threads_set_pc)
  next
    case (returned t th f a)
    then show ?thesis using less [of t th Locking] by (simp add: BGThread_returned_def turns_left_def threads_set_pc)
  next
    case (spurious t)
    then show ?thesis using inv exit by (simp add: pool_inv_def wake_inv_def)
  qed
qed

lemma exit_run:
  assumes "(worker_step ^^ n) s s'" "pool_inv s" "exit_all_threads (tp s)"
  shows "tp s' = tp s \<and> taken s' = taken s \<and> pool_inv s' \<and>
    n + sum (turns_left s') (set (bgthreads (tp s))) \<le> sum (turns_left s) (set (bgthreads (tp s)))"
  using assms
proof (induction n arbitrary: s)
  case (Suc n)
  then obtain s1 where s1: "worker_step s s1" "(worker_step ^^ n) s1 s'" using relpowp_Suc_D2 [OF Suc.prems(1)] by blast
  note e = exit_step [OF Suc.prems(2,3) s1(1)]
  have "pool_inv s1" using worker_step_inv [OF s1(1) Suc.prems(2)] .
  then show ?case using Suc.IH [OF s1(2)] e Suc.prems(3) by simp
qed simp

lemma join_loop_returns:
  assumes "\<forall>t \<in> set ts. \<exists>th. threads s t = Some th \<and> th_pc th = Exited \<and> \<not> th_detached th" "distinct ts"
  shows "\<exists>s'. join_loop ts s = Some s'"
  using assms
proof (induction ts arbitrary: s)
  case (Cons t ts)
  then obtain th where th: "threads s t = Some th" "th_pc th = Exited" "\<not> th_detached th" by auto
  have "\<exists>s'. join_loop ts (s\<lparr>threads := (threads s)(t := None)\<rparr>) = Some s'"
    using Cons.prems by (intro Cons.IH) auto
  then show ?case using th by simp
qed simp

lemma stuck_joins:
  assumes inv: "pool_inv s" and exit: "exit_all_threads (tp s)" and stuck: "\<And>s'. \<not> worker_step s s'"
  shows "\<exists>s'. JoinAllThreads_join s = Some s' \<and> ThreadPoolImpl_destroy s' = Some ()"
proof -
  have t: "threads_inv s" using inv by (simp add: pool_inv_def)
  have "\<exists>th. threads s t = Some th \<and> th_pc th = Exited \<and> \<not> th_detached th" if tb: "t \<in> set (bgthreads (tp s))" for t
  proof -
    from tb obtain i where "i < length (bgthreads (tp s))" "bgthreads (tp s) ! i = t" by (auto simp: in_set_conv_nth)
    then obtain th where th: "threads s t = Some th" "\<not> th_detached th" using bg_thread_at [OF t] by metis
    have "th_pc th = Exited"
    proof (cases "th_pc th")
      case Locking
      then show ?thesis using stuck locked BGThread_locked_inv [OF inv th(1)] th(1) by blast
    next
      case (Calling f a)
      then show ?thesis using stuck returned th(1) by blast
    next
      case Waiting
      then show ?thesis using inv exit th(1) by (auto simp: pool_inv_def wake_inv_def waiting_def split: option.splits)
    qed
    with th show ?thesis by blast
  qed
  then obtain s' where "join_loop (bgthreads (tp s)) s = Some s'" using join_loop_returns t by (metis threads_inv_def)
  then show ?thesis by (simp add: JoinAllThreads_join_def ThreadPoolImpl_destroy_def)
qed

subsection \<open>Properties\<close>

text \<open>
  C36. No wake-up is lost. In every state a pool can reach, a thread that gets the mutex runs to
  its release without a failure; while \<open>JoinAllThreads\<close> has not been called, a queued item is
  taken by some thread once that has finished the call it may be in, without waiting for any
  signal; and if there are more threads than the limit, the last of them leaves in the same way.
\<close>

theorem no_lost_wakeup:
  assumes "pool_reachable s"
  shows "(\<forall>t th. threads s t = Some th \<and> th_pc th = Locking \<longrightarrow> (\<exists>s'. BGThread_locked t s = Some s')) \<and>
    (\<not> exit_all_threads (tp s) \<longrightarrow>
      (\<forall>item rest. bg_queue (tp s) = item # rest \<longrightarrow>
        (\<exists>t s'. thread_turn t s s' \<and> taken s' = taken s @ [item] \<and> bg_queue (tp s') = rest)) \<and>
      (total_threads_limit (tp s) < int (length (bgthreads (tp s))) \<longrightarrow>
        (\<exists>s'. thread_turn (last (bgthreads (tp s))) s s' \<and> bgthreads (tp s') = butlast (bgthreads (tp s)))))"
proof -
  have inv: "pool_inv s" using pool.reachable_invariant [OF assms] .
  show ?thesis
    using BGThread_locked_inv [OF inv] queued_item_taken [OF inv] excess_thread_leaves [OF inv] by blast
qed

text \<open>A pool of one thread, with one item that has just been scheduled.\<close>

definition demo_item :: BGItem where
  "demo_item = \<lparr>bg_arg = 7, bg_function = 1, bg_tag = 0, bg_unschedFunction = None\<rparr>"

definition demo_pool :: pool_state where
  "demo_pool = the (Schedule (\<lambda>n. (n, 0)) [] demo_item ThreadPoolImpl_init)"

lemma demo_start: "StartBGThreads (\<lambda>n. (n, 0)) ThreadPoolImpl_init = Some (start_one (\<lambda>n. (n, 0)) ThreadPoolImpl_init)"
  by (subst StartBGThreads.simps, subst StartBGThreads.simps)
    (simp add: ThreadPoolImpl_init_def int_cast_def PthreadCall_def start_one_def)

lemma demo_running: "\<not> exit_all_threads (tp ThreadPoolImpl_init)"
  by (simp add: ThreadPoolImpl_init_def)

lemma demo_schedule: "Schedule (\<lambda>n. (n, 0)) [] demo_item ThreadPoolImpl_init = Some demo_pool"
  by (simp add: demo_pool_def Schedule_def demo_start demo_running Let_def)

lemma demo_fields:
  "bg_queue (tp demo_pool) = [demo_item]" "\<not> exit_all_threads (tp demo_pool)" "taken demo_pool = []" "accepted demo_pool = [demo_item]"
  "bgthreads (tp demo_pool) = [0]" "total_threads_limit (tp demo_pool) = 1" "removed demo_pool = []"
  by (simp_all add: demo_pool_def Schedule_def demo_start demo_running Let_def
      ConditionSignal_def WakeUpAllThreads_def ConditionSignalAll_def)
    (simp_all add: start_one_def ThreadPoolImpl_init_def)

lemma demo_threads: "threads demo_pool t = (if t = 0 then Some (BGThreadWrapper 0) else None)"
proof -
  have "th_pc (BGThreadWrapper 0) = Locking" by (simp add: BGThreadWrapper_def)
  then show ?thesis
    by (cases "t = 0") (simp_all add: demo_pool_def Schedule_def demo_start demo_running Let_def ConditionSignal_def
        WakeUpAllThreads_def ConditionSignalAll_def threads_wake, auto simp: start_one_def ThreadPoolImpl_init_def)
qed

lemma demo_reachable: "pool_reachable demo_pool"
proof -
  have "pool_step ThreadPoolImpl_init demo_pool"
    by (rule schedule [OF _ _ demo_schedule])
      (simp_all add: fresh_threads_def signal_ok_def free_thread_def waiting_def ThreadPoolImpl_init_def inj_def)
  then show ?thesis by (rule r_into_rtranclp)
qed

theorem no_lost_wakeup_witness:
  "pool_reachable demo_pool \<and> (\<exists>t s'. thread_turn t demo_pool s' \<and> taken s' = [demo_item] \<and> bg_queue (tp s') = [])"
  using no_lost_wakeup [OF demo_reachable] demo_reachable by (simp add: demo_fields)

text \<open>
  C37. What becomes of the items. In every state a pool can reach, each item accepted by
  \<open>Schedule\<close> has been taken by a thread once, has been removed by \<open>UnSchedule\<close> once, or is still in
  the queue; the items are taken in the order they were scheduled; and \<open>GetQueueLen\<close> is the
  number of queued items, modulo \<open>2 ^ 32\<close>.
\<close>

theorem items_in_order:
  assumes "pool_reachable s"
  shows "mset (accepted s) = mset (taken s) + mset (bg_queue (tp s)) + mset (removed s) \<and>
    subseq (taken s @ bg_queue (tp s)) (accepted s) \<and> GetQueueLen s = of_nat (length (bg_queue (tp s)))"
  using pool.reachable_invariant [OF assms] by (simp add: pool_inv_def items_inv_def GetQueueLen_def)

theorem items_in_order_witness: "pool_reachable demo_pool \<and> GetQueueLen demo_pool = 1"
  using items_in_order [OF demo_reachable] demo_reachable by (simp add: demo_fields)

text \<open>
  C38. After \<open>JoinAllThreads\<close> has set its flag, the threads leave: at most two steps of each thread
  follow, the return from a call and the end, none of them takes another item, and when no
  thread can run any more the join returns and the assertion of the destructor holds.
\<close>

theorem join_all_threads:
  assumes "pool_reachable s" and "exit_all_threads (tp s)" and "(worker_step ^^ n) s s'"
  shows "n \<le> 2 * length (bgthreads (tp s)) \<and> taken s' = taken s \<and>
    ((\<nexists>s''. worker_step s' s'') \<longrightarrow> (\<exists>s''. JoinAllThreads_join s' = Some s'' \<and> ThreadPoolImpl_destroy s'' = Some ()))"
proof -
  have inv: "pool_inv s" using pool.reachable_invariant [OF assms(1)] .
  note run = exit_run [OF assms(3) inv assms(2)]
  have "sum (turns_left s) (set (bgthreads (tp s))) \<le> of_nat (card (set (bgthreads (tp s)))) * 2"
    by (rule sum_bounded_above) (auto simp: turns_left_def split: option.split thread_pc.split)
  then have "n \<le> 2 * length (bgthreads (tp s))" using run card_length [of "bgthreads (tp s)"] by simp
  then show ?thesis using run stuck_joins [of s'] assms(2) by auto
qed

definition demo_join :: pool_state where
  "demo_join = the (JoinAllThreads_signal demo_pool)"

definition demo_left :: pool_state where
  "demo_left = set_pc 0 Exited demo_join"

lemma demo_join_run:
  "pool_reachable demo_join" "exit_all_threads (tp demo_join)" "(worker_step ^^ 1) demo_join demo_left" "\<not> worker_step demo_left s"
proof -
  have j: "JoinAllThreads_signal demo_pool = Some demo_join"
    by (simp add: demo_join_def JoinAllThreads_signal_def demo_fields)
  show "pool_reachable demo_join" using demo_reachable join_signal [OF j] by (rule rtranclp.rtrancl_into_rtrancl)
  show x: "exit_all_threads (tp demo_join)" by (simp add: demo_join_def JoinAllThreads_signal_def demo_fields ConditionSignalAll_def)
  have th: "threads demo_join = [0 \<mapsto> BGThreadWrapper 0]"
    by (auto simp: demo_join_def JoinAllThreads_signal_def ConditionSignalAll_def threads_wake demo_fields demo_threads
      BGThreadWrapper_def)
  have "BGThread_locked 0 demo_join = Some demo_left"
    using x by (simp add: BGThread_locked_def th must_wait_def demo_left_def)
  then show "(worker_step ^^ 1) demo_join demo_left" using locked [of demo_join 0] by (auto simp: th BGThreadWrapper_def)
  have "threads demo_left t = Some th \<Longrightarrow> th_pc th = Exited" for t th
    by (auto simp: demo_left_def threads_set_pc th split: if_splits)
  then show "\<not> worker_step demo_left s" by (auto elim!: worker_step.cases simp: waiting_def split: option.splits)
qed

theorem join_all_threads_witness:
  "\<exists>s. JoinAllThreads_join demo_left = Some s \<and> ThreadPoolImpl_destroy s = Some ()"
  using join_all_threads [OF demo_join_run(1-3)] demo_join_run(4) by blast

end
