(* ===== verification/Autovector.thy ===== *)
theory Autovector
  imports Prelude "HOL-Library.Monad_Syntax"
begin

text \<open>
  \<open>rutil/autovector.h\<close>: a vector whose first \<open>kSize\<close> items live in an array inside of the object
  and whose other items live in a \<open>std::vector\<close>. \<open>None\<close> is a failed assertion or an access out
  of range. The array is never uninitialised memory to the proofs: its first values are an
  argument of the constructor. Of the capacity of the \<open>std::vector\<close> only matters whether it
  is zero.

  Iterators are a vector (by its address) and an index of type \<open>size_t\<close>, with its wrap-around.

  Shown: the operations are those of a list, for every sequence of them, where the items that
  \<open>resize\<close> makes available can be anything until they are written, and a loop from
  \<open>begin\<close> to \<open>end\<close> visits the items in their order.
\<close>

record 'a autovector =
  av_num_stack_items :: nat
  av_values :: "'a list"
  av_vect :: "'a list"
  av_vect_allocated :: bool

text \<open>The length of the array is \<open>kSize\<close>.\<close>

definition kSize :: "'a autovector \<Rightarrow> nat" where
  "kSize v = length (av_values v)"

definition autovector_init :: "'a list \<Rightarrow> 'a autovector" where
  "autovector_init junk = \<lparr>av_num_stack_items = 0, av_values = junk, av_vect = [], av_vect_allocated = False\<rparr>"

definition only_in_stack :: "'a autovector \<Rightarrow> bool" where
  "only_in_stack v \<longleftrightarrow> \<not> av_vect_allocated v"

definition av_size :: "'a autovector \<Rightarrow> nat" where
  "av_size v = av_num_stack_items v + length (av_vect v)"

text \<open>\<open>std::vector::resize\<close> fills up with default values.\<close>

definition vector_resize :: "nat \<Rightarrow> 'a \<Rightarrow> 'a list \<Rightarrow> 'a list" where
  "vector_resize n d xs = take n xs @ replicate (n - length xs) d"

definition av_resize :: "nat \<Rightarrow> 'a \<Rightarrow> 'a autovector \<Rightarrow> 'a autovector" where
  "av_resize n d v =
     (if n > kSize v then
        v\<lparr>av_vect := vector_resize (n - kSize v) d (av_vect v), av_vect_allocated := True, av_num_stack_items := kSize v\<rparr>
      else v\<lparr>av_vect := [], av_num_stack_items := n\<rparr>)"

definition av_empty :: "'a autovector \<Rightarrow> bool" where
  "av_empty v \<longleftrightarrow> av_size v = 0"

definition av_nth :: "'a autovector \<Rightarrow> nat \<Rightarrow> 'a option" where
  "av_nth v n =
     (if \<not> n < av_size v then None
      else if n < kSize v then Some (av_values v ! n)
      else if n - kSize v < length (av_vect v) then Some (av_vect v ! (n - kSize v)) else None)"

definition av_set :: "'a autovector \<Rightarrow> nat \<Rightarrow> 'a \<Rightarrow> 'a autovector option" where
  "av_set v n x =
     (if \<not> n < av_size v then None
      else if n < kSize v then Some (v\<lparr>av_values := (av_values v)[n := x]\<rparr>)
      else if n - kSize v < length (av_vect v) then Some (v\<lparr>av_vect := (av_vect v)[n - kSize v := x]\<rparr>) else None)"

definition av_at :: "'a autovector \<Rightarrow> nat \<Rightarrow> 'a option" where
  "av_at v n = (if \<not> n < av_size v then None else av_nth v n)"

definition push_back :: "'a \<Rightarrow> 'a autovector \<Rightarrow> 'a autovector" where
  "push_back item v =
     (if av_num_stack_items v < kSize v then
        v\<lparr>av_values := (av_values v)[av_num_stack_items v := item], av_num_stack_items := av_num_stack_items v + 1\<rparr>
      else v\<lparr>av_vect := av_vect v @ [item], av_vect_allocated := True\<rparr>)"

definition emplace_back :: "('b \<Rightarrow> 'a) \<Rightarrow> 'b \<Rightarrow> 'a autovector \<Rightarrow> 'a autovector" where
  "emplace_back construct args v = push_back (construct args) v"

definition autovector_list :: "'a list \<Rightarrow> 'a list \<Rightarrow> 'a autovector" where
  "autovector_list junk init_list = fold push_back init_list (autovector_init junk)"

definition pop_back :: "'a autovector \<Rightarrow> 'a autovector option" where
  "pop_back v =
     (if av_empty v then None
      else if av_vect v \<noteq> [] then Some (v\<lparr>av_vect := butlast (av_vect v)\<rparr>)
      else Some (v\<lparr>av_num_stack_items := av_num_stack_items v - 1\<rparr>))"

definition av_clear :: "'a autovector \<Rightarrow> 'a autovector" where
  "av_clear v = v\<lparr>av_num_stack_items := 0, av_vect := []\<rparr>"

definition av_assign :: "'a autovector \<Rightarrow> 'a autovector \<Rightarrow> 'a autovector" where
  "av_assign other v =
     v\<lparr>av_vect := av_vect other, av_vect_allocated := av_vect_allocated v \<or> av_vect other \<noteq> [],
       av_num_stack_items := av_num_stack_items other,
       av_values := take (av_num_stack_items other) (av_values other) @ drop (av_num_stack_items other) (av_values v)\<rparr>"

subsection \<open>Iterators\<close>

record iterator_impl =
  it_vect :: nat
  it_index :: u64

definition it_inc :: "iterator_impl \<Rightarrow> iterator_impl" where
  "it_inc i = i\<lparr>it_index := it_index i + 1\<rparr>"

definition it_post_inc :: "iterator_impl \<Rightarrow> iterator_impl \<times> iterator_impl" where
  "it_post_inc i = (i, i\<lparr>it_index := it_index i + 1\<rparr>)"

definition it_dec :: "iterator_impl \<Rightarrow> iterator_impl" where
  "it_dec i = i\<lparr>it_index := it_index i - 1\<rparr>"

definition it_post_dec :: "iterator_impl \<Rightarrow> iterator_impl \<times> iterator_impl" where
  "it_post_dec i = (i, i\<lparr>it_index := it_index i - 1\<rparr>)"

definition it_minus :: "iterator_impl \<Rightarrow> int \<Rightarrow> iterator_impl" where
  "it_minus i len = \<lparr>it_vect = it_vect i, it_index = it_index i - of_int len\<rparr>"

definition it_diff :: "iterator_impl \<Rightarrow> iterator_impl \<Rightarrow> int option" where
  "it_diff i other = (if it_vect i \<noteq> it_vect other then None else Some (sint (it_index i - it_index other)))"

definition it_plus :: "iterator_impl \<Rightarrow> int \<Rightarrow> iterator_impl" where
  "it_plus i len = \<lparr>it_vect = it_vect i, it_index = it_index i + of_int len\<rparr>"

definition it_plus_assign :: "iterator_impl \<Rightarrow> int \<Rightarrow> iterator_impl" where
  "it_plus_assign i len = i\<lparr>it_index := it_index i + of_int len\<rparr>"

definition it_minus_assign :: "iterator_impl \<Rightarrow> int \<Rightarrow> iterator_impl" where
  "it_minus_assign i len = i\<lparr>it_index := it_index i - of_int len\<rparr>"

definition it_deref :: "(nat \<Rightarrow> 'a autovector option) \<Rightarrow> iterator_impl \<Rightarrow> 'a option" where
  "it_deref mem i = do {
     v \<leftarrow> mem (it_vect i);
     if \<not> av_size v \<ge> unat (it_index i) then None else av_nth v (unat (it_index i))
   }"

definition it_eq :: "iterator_impl \<Rightarrow> iterator_impl \<Rightarrow> bool option" where
  "it_eq i other = (if it_vect i \<noteq> it_vect other then None else Some (it_index i = it_index other))"

definition it_neq :: "iterator_impl \<Rightarrow> iterator_impl \<Rightarrow> bool option" where
  "it_neq i other = map_option Not (it_eq i other)"

definition it_greater :: "iterator_impl \<Rightarrow> iterator_impl \<Rightarrow> bool option" where
  "it_greater i other = (if it_vect i \<noteq> it_vect other then None else Some (it_index i > it_index other))"

definition it_less :: "iterator_impl \<Rightarrow> iterator_impl \<Rightarrow> bool option" where
  "it_less i other = (if it_vect i \<noteq> it_vect other then None else Some (it_index i < it_index other))"

definition it_greater_eq :: "iterator_impl \<Rightarrow> iterator_impl \<Rightarrow> bool option" where
  "it_greater_eq i other = (if it_vect i \<noteq> it_vect other then None else Some (it_index i \<ge> it_index other))"

definition it_less_eq :: "iterator_impl \<Rightarrow> iterator_impl \<Rightarrow> bool option" where
  "it_less_eq i other = (if it_vect i \<noteq> it_vect other then None else Some (it_index i \<le> it_index other))"

definition av_begin :: "nat \<Rightarrow> iterator_impl" where
  "av_begin a = \<lparr>it_vect = a, it_index = 0\<rparr>"

definition av_end :: "(nat \<Rightarrow> 'a autovector option) \<Rightarrow> nat \<Rightarrow> iterator_impl option" where
  "av_end mem a = do { v \<leftarrow> mem a; Some \<lparr>it_vect = a, it_index = of_nat (av_size v)\<rparr> }"

definition av_front :: "(nat \<Rightarrow> 'a autovector option) \<Rightarrow> nat \<Rightarrow> 'a option" where
  "av_front mem a = do { v \<leftarrow> mem a; if av_empty v then None else it_deref mem (av_begin a) }"

definition av_back :: "(nat \<Rightarrow> 'a autovector option) \<Rightarrow> nat \<Rightarrow> 'a option" where
  "av_back mem a = do { v \<leftarrow> mem a; if av_empty v then None else do { i \<leftarrow> av_end mem a; it_deref mem (it_minus i 1) } }"

text \<open>
  A reverse iterator holds the iterator behind its item: \<open>rbegin\<close> is the end, \<open>*r\<close> the item in
  front of it and \<open>++r\<close> goes back. A range-based \<open>for\<close> loop, in both directions.
\<close>

definition rit_deref :: "(nat \<Rightarrow> 'a autovector option) \<Rightarrow> iterator_impl \<Rightarrow> 'a option" where
  "rit_deref mem i = it_deref mem (it_dec i)"

partial_function (option) for_each ::
    "(nat \<Rightarrow> 'a autovector option) \<Rightarrow> iterator_impl \<Rightarrow> iterator_impl \<Rightarrow> 'a list option" where
  "for_each mem i e = do {
     go \<leftarrow> it_neq i e;
     if go then do {
       x \<leftarrow> it_deref mem i;
       xs \<leftarrow> for_each mem (it_inc i) e;
       Some (x # xs)
     }
     else Some []
   }"

partial_function (option) rfor_each ::
    "(nat \<Rightarrow> 'a autovector option) \<Rightarrow> iterator_impl \<Rightarrow> iterator_impl \<Rightarrow> 'a list option" where
  "rfor_each mem i e = do {
     go \<leftarrow> it_neq i e;
     if go then do {
       x \<leftarrow> rit_deref mem i;
       xs \<leftarrow> rfor_each mem (it_dec i) e;
       Some (x # xs)
     }
     else Some []
   }"

subsection \<open>The list an autovector stands for\<close>

definition items :: "'a autovector \<Rightarrow> 'a list" where
  "items v = take (av_num_stack_items v) (av_values v) @ av_vect v"

definition av_ok :: "'a autovector \<Rightarrow> bool" where
  "av_ok v \<longleftrightarrow> av_num_stack_items v \<le> kSize v \<and> (av_vect v \<noteq> [] \<longrightarrow> av_num_stack_items v = kSize v)"

lemma av_size_items [simp]: "av_ok v \<Longrightarrow> av_size v = length (items v)"
  by (auto simp: av_ok_def av_size_def items_def kSize_def)

lemma av_init_items: "av_ok (autovector_init junk)" "items (autovector_init junk) = []"
  by (auto simp: autovector_init_def av_ok_def items_def)

lemma push_back_items:
  assumes "av_ok v"
  shows "av_ok (push_back x v)" "items (push_back x v) = items v @ [x]" "kSize (push_back x v) = kSize v"
  using assms
  by (auto simp: push_back_def av_ok_def items_def kSize_def take_Suc_conv_app_nth take_update_swap list_update_append min_def)

lemma pop_back_items:
  assumes "av_ok v"
  shows "items v = [] \<Longrightarrow> pop_back v = None"
    "items v \<noteq> [] \<Longrightarrow> \<exists>v'. pop_back v = Some v' \<and> av_ok v' \<and> items v' = butlast (items v) \<and> kSize v' = kSize v"
proof -
  show "items v = [] \<Longrightarrow> pop_back v = None" using assms by (simp add: pop_back_def av_empty_def)
  assume ne: "items v \<noteq> []"
  show "\<exists>v'. pop_back v = Some v' \<and> av_ok v' \<and> items v' = butlast (items v) \<and> kSize v' = kSize v"
  proof (cases "av_vect v = []")
    case True
    then have "butlast (take (av_num_stack_items v) (av_values v)) = take (av_num_stack_items v - 1) (av_values v)"
      using assms by (intro butlast_take) (simp add: av_ok_def kSize_def)
    with True ne assms show ?thesis by (auto simp: pop_back_def av_empty_def av_ok_def items_def kSize_def)
  next
    case False
    with assms show ?thesis by (auto simp: pop_back_def av_empty_def av_size_def av_ok_def items_def kSize_def butlast_append)
  qed
qed

lemma av_nth_items: "av_ok v \<Longrightarrow> av_nth v n = (if n < length (items v) then Some (items v ! n) else None)"
  by (auto simp: av_nth_def av_ok_def items_def kSize_def nth_append av_size_def not_less min_def split: if_splits)

lemma av_set_items:
  assumes "av_ok v"
    and n: "n < length (items v)"
  shows "\<exists>v'. av_set v n x = Some v' \<and> av_ok v' \<and> items v' = (items v)[n := x] \<and> kSize v' = kSize v"
proof (cases "n < kSize v")
  case True
  then have "n < av_num_stack_items v" using n assms(1) by (cases "av_vect v = []") (auto simp: av_ok_def items_def kSize_def)
  then have "items (v\<lparr>av_values := (av_values v)[n := x]\<rparr>) = (items v)[n := x]"
    using True by (simp add: items_def kSize_def list_update_append take_update_swap)
  with True n assms(1) show ?thesis by (auto simp: av_set_def av_ok_def kSize_def)
next
  case False
  then have "av_num_stack_items v = kSize v" using n assms(1) by (auto simp: av_ok_def items_def kSize_def)
  then have "items (v\<lparr>av_vect := (av_vect v)[n - kSize v := x]\<rparr>) = (items v)[n := x]" "n - kSize v < length (av_vect v)"
    using False n by (auto simp: items_def kSize_def list_update_append)
  with False n assms(1) show ?thesis by (auto simp: av_set_def av_ok_def kSize_def)
qed

lemma av_clear_items: "av_ok (av_clear v)" "items (av_clear v) = []" "kSize (av_clear v) = kSize v"
  by (simp_all add: av_clear_def av_ok_def items_def kSize_def)

lemma av_assign_items:
  assumes "av_ok w" "kSize w = kSize v"
  shows "av_ok (av_assign w v)" "items (av_assign w v) = items w" "kSize (av_assign w v) = kSize v"
  using assms by (auto simp: av_assign_def av_ok_def items_def kSize_def min_def)

lemma av_resize_items:
  assumes "av_ok v"
  shows "av_ok (av_resize n d v)" "length (items (av_resize n d v)) = n" "kSize (av_resize n d v) = kSize v"
    "\<And>i. i < n \<Longrightarrow> i < length (items v) \<Longrightarrow> items (av_resize n d v) ! i = items v ! i"
  using assms
  by (auto simp: av_resize_def av_ok_def items_def kSize_def vector_resize_def nth_append min_def split: if_splits)

subsection \<open>Sequences of operations\<close>

datatype 'a av_op = Push 'a | Pop | Set nat 'a | Clear | Assign "'a list" | Resize nat 'a

text \<open>
  \<open>Assign\<close> takes a list, from which another autovector with the same array length is built;
  \<open>Resize\<close> takes the default value of the items as well.
\<close>

fun av_step :: "'a av_op \<Rightarrow> 'a autovector \<Rightarrow> 'a autovector option" where
  "av_step (Push x) v = Some (push_back x v)"
| "av_step Pop v = pop_back v"
| "av_step (Set n x) v = av_set v n x"
| "av_step Clear v = Some (av_clear v)"
| "av_step (Assign xs) v = Some (av_assign (autovector_list (av_values v) xs) v)"
| "av_step (Resize n d) v = Some (av_resize n d v)"

text \<open>
  The same operations on a list. As the comment of \<open>resize\<close> has it, nothing is promised about
  the items that \<open>resize\<close> makes available: they are \<open>None\<close> until they are written. \<open>shows_as\<close>
  says that a list of items is as promised.
\<close>

fun list_step :: "'a av_op \<Rightarrow> 'a option list \<Rightarrow> 'a option list option" where
  "list_step (Push x) xs = Some (xs @ [Some x])"
| "list_step Pop xs = (if xs = [] then None else Some (butlast xs))"
| "list_step (Set n x) xs = (if n < length xs then Some (xs[n := Some x]) else None)"
| "list_step Clear xs = Some []"
| "list_step (Assign ys) xs = Some (map Some ys)"
| "list_step (Resize n d) xs = Some (take n xs @ replicate (n - length xs) None)"

definition shows_as :: "'a option list \<Rightarrow> 'a list \<Rightarrow> bool" where
  "shows_as ys xs = list_all2 (\<lambda>y x. y = None \<or> y = Some x) ys xs"

lemma shows_as_iff: "shows_as ys xs \<longleftrightarrow> length ys = length xs \<and> (\<forall>i<length xs. \<forall>y. ys ! i = Some y \<longrightarrow> xs ! i = y)"
  unfolding shows_as_def list_all2_conv_all_nth by (auto simp: not_None_eq) (metis not_None_eq)

lemma shows_as_known [simp]: "shows_as (map Some ys) xs \<longleftrightarrow> xs = ys"
  by (auto simp: shows_as_def list_all2_map1 list.rel_eq)

lemma shows_as_ops:
  assumes "shows_as ys xs"
  shows "shows_as (ys @ [Some x]) (xs @ [x])" "shows_as (butlast ys) (butlast xs)" "shows_as (ys[n := Some x]) (xs[n := x])"
  using assms by (auto simp: shows_as_iff nth_append nth_butlast) (metis list_update_beyond not_le nth_list_update option.inject)

fun run_ops :: "('op \<Rightarrow> 's \<Rightarrow> 's option) \<Rightarrow> 'op list \<Rightarrow> 's \<Rightarrow> 's option" where
  "run_ops step [] s = Some s"
| "run_ops step (op # ops) s = do { s \<leftarrow> step op s; run_ops step ops s }"

lemma autovector_list_items: "av_ok (autovector_list junk xs) \<and> items (autovector_list junk xs) = xs \<and> kSize (autovector_list junk xs) = length junk"
proof -
  have "av_ok (fold push_back xs v) \<and> items (fold push_back xs v) = items v @ xs \<and> kSize (fold push_back xs v) = kSize v"
    if "av_ok v" for v using that by (induction xs arbitrary: v) (auto simp: push_back_items)
  from this [OF av_init_items(1), of junk] show ?thesis
    by (simp add: autovector_list_def av_init_items) (simp add: kSize_def autovector_init_def)
qed

lemma av_step_refines:
  assumes "av_ok v" and sh: "shows_as ys (items v)"
  shows "case list_step op ys of None \<Rightarrow> av_step op v = None
    | Some zs \<Rightarrow> \<exists>v'. av_step op v = Some v' \<and> av_ok v' \<and> shows_as zs (items v') \<and> kSize v' = kSize v"
proof -
  have len: "length ys = length (items v)" using sh by (simp add: shows_as_iff)
  show ?thesis
  proof (cases op)
    case (Push x)
    with assms(1) shows_as_ops(1) [OF sh] show ?thesis by (simp add: push_back_items)
  next
    case Pop
    have "ys = [] \<longleftrightarrow> items v = []" using len by auto
    with Pop pop_back_items [OF assms(1)] shows_as_ops(2) [OF sh] show ?thesis by auto
  next
    case (Set n x)
    show ?thesis
    proof (cases "n < length (items v)")
      case True
      with av_set_items [OF assms(1) True, of x] shows_as_ops(3) [OF sh] Set len show ?thesis by auto
    next
      case False
      with assms Set len show ?thesis by (simp add: av_set_def)
    qed
  next
    case (Assign xs)
    then show ?thesis
      using autovector_list_items [of "av_values v" xs] av_assign_items [of "autovector_list (av_values v) xs" v]
      by (auto simp: kSize_def)
  next
    case (Resize n d)
    with av_resize_items [OF assms(1), where n = n and d = d] sh show ?thesis by (auto simp: shows_as_iff nth_append)
  qed (simp add: av_clear_items shows_as_def)
qed

lemma run_ops_refines:
  assumes "av_ok v" and "shows_as ys (items v)"
  shows "case run_ops list_step ops ys of None \<Rightarrow> run_ops av_step ops v = None
    | Some zs \<Rightarrow> \<exists>v'. run_ops av_step ops v = Some v' \<and> av_ok v' \<and> shows_as zs (items v') \<and> kSize v' = kSize v"
  using assms
proof (induction ops arbitrary: v ys)
  case (Cons op ops)
  show ?case
  proof (cases "list_step op ys")
    case None
    with av_step_refines [OF Cons.prems, of op] show ?thesis by simp
  next
    case (Some zs)
    with av_step_refines [OF Cons.prems, of op] obtain v1 where
      v1: "av_step op v = Some v1" "av_ok v1" "shows_as zs (items v1)" "kSize v1 = kSize v" by auto
    from Cons.IH [OF v1(2,3)] v1 Some show ?thesis by (auto split: option.splits)
  qed
qed simp

lemma for_each_items:
  assumes "mem a = Some v" "av_ok v" "length (items v) < 2 ^ 64" "n \<le> length (items v)"
  shows "for_each mem \<lparr>it_vect = a, it_index = of_nat n\<rparr> \<lparr>it_vect = a, it_index = of_nat (length (items v))\<rparr> = Some (drop n (items v))"
    (is "for_each mem (?it n) ?e = _")
  using assms(4)
proof (induction "length (items v) - n" arbitrary: n)
  case 0
  then show ?case by (simp add: for_each.simps it_neq_def it_eq_def)
next
  case (Suc k)
  have n: "unat (of_nat n :: u64) = n" "unat (of_nat (length (items v)) :: u64) = length (items v)"
    using Suc.prems assms(3) by (auto simp: unat_of_nat)
  then have ne: "(of_nat n :: u64) \<noteq> of_nat (length (items v))" using Suc.hyps(2) by (metis diff_self_eq_0 nat.distinct(1))
  have "it_inc (?it n) = ?it (Suc n)" by (simp add: it_inc_def)
  moreover have "for_each mem (?it (Suc n)) ?e = Some (drop (Suc n) (items v))" by (rule Suc.hyps(1)) (use Suc.hyps(2) in auto)
  moreover have "it_deref mem (?it n) = Some (items v ! n)"
    using assms(1,2) n Suc.hyps(2) by (simp add: it_deref_def av_nth_items)
  ultimately show ?case using ne Suc.hyps(2)
    by (subst for_each.simps) (simp add: it_neq_def it_eq_def Cons_nth_drop_Suc)
qed

lemma rfor_each_items:
  assumes "mem a = Some v" "av_ok v" "length (items v) < 2 ^ 64" "n \<le> length (items v)"
  shows "rfor_each mem \<lparr>it_vect = a, it_index = of_nat n\<rparr> \<lparr>it_vect = a, it_index = 0\<rparr> = Some (rev (take n (items v)))"
    (is "rfor_each mem (?it n) ?e = _")
  using assms(4)
proof (induction n)
  case 0
  then show ?case by (simp add: rfor_each.simps it_neq_def it_eq_def)
next
  case (Suc n)
  have n: "unat (of_nat n :: u64) = n" "unat (of_nat (Suc n) :: u64) = Suc n"
    using Suc.prems assms(3) by (auto simp: unat_of_nat simp del: of_nat_Suc)
  then have ne: "(of_nat (Suc n) :: u64) \<noteq> 0" by (metis nat.distinct(1) unat_0)
  have "it_dec (?it (Suc n)) = ?it n" by (simp add: it_dec_def)
  moreover have "it_deref mem (?it n) = Some (items v ! n)"
    using assms(1,2) n Suc.prems by (simp add: it_deref_def av_nth_items)
  moreover have "rfor_each mem (?it n) ?e = Some (rev (take n (items v)))" using Suc by simp
  ultimately show ?case using ne Suc.prems
    by (subst rfor_each.simps) (simp add: it_neq_def it_eq_def rit_deref_def take_Suc_conv_app_nth del: of_nat_Suc)
qed

subsection \<open>Properties\<close>

text \<open>
  C35. An autovector is a list: for every array length, every sequence of \<open>push_back\<close>,
  \<open>pop_back\<close>, assignments to items, \<open>clear\<close>, \<open>assign\<close> and \<open>resize\<close> on a new one behaves as on a
  list, failing an assertion exactly where the list has no such item; afterwards indexing,
  \<open>size\<close>, and loops over the items, forwards and backwards, give the items of the list, where
  an item that \<open>resize\<close> made available and nothing wrote can be anything. The list has to be
  shorter than \<open>2 ^ 64\<close>.
\<close>

theorem autovector_refines_list:
  assumes "\<And>ys. run_ops list_step ops [] = Some ys \<Longrightarrow> length ys < 2 ^ 64"
  shows "case run_ops list_step ops [] of
      None \<Rightarrow> run_ops av_step ops (autovector_init junk) = None
    | Some ys \<Rightarrow> \<exists>v xs. run_ops av_step ops (autovector_init junk) = Some v \<and> shows_as ys xs \<and> av_size v = length xs \<and>
        (\<forall>n. av_nth v n = (if n < length xs then Some (xs ! n) else None)) \<and>
        (\<forall>mem a. mem a = Some v \<longrightarrow> (\<exists>e. av_end mem a = Some e \<and>
           for_each mem (av_begin a) e = Some xs \<and> rfor_each mem e (av_begin a) = Some (rev xs)))"
proof -
  have "shows_as [] (items (autovector_init junk))" by (simp add: av_init_items shows_as_def)
  note run = run_ops_refines [OF av_init_items(1) this, of ops]
  show ?thesis
  proof (cases "run_ops list_step ops []")
    case None
    then show ?thesis using run by simp
  next
    case (Some ys)
    with run obtain v where
      v: "run_ops av_step ops (autovector_init junk) = Some v" "av_ok v" "shows_as ys (items v)" by auto
    have len: "length (items v) < 2 ^ 64" using assms [OF Some] v(3) by (simp add: shows_as_iff)
    have "\<exists>e. av_end mem a = Some e \<and> for_each mem (av_begin a) e = Some (items v) \<and>
        rfor_each mem e (av_begin a) = Some (rev (items v))" if "mem a = Some v" for mem a
      using for_each_items [of mem a v 0] rfor_each_items [of mem a v "length (items v)"] that v(2) len
      by (simp add: av_end_def av_begin_def)
    with Some v show ?thesis by (auto simp: av_nth_items)
  qed
qed

theorem autovector_refines_list_witness:
  "\<exists>v x. run_ops av_step [Push 1, Push 2, Push 3, Pop, Push 4, Set 0 7, Resize 4 9] (autovector_init [0, 0 :: nat]) = Some v \<and>
     (\<forall>mem a. mem a = Some v \<longrightarrow> (\<exists>e. av_end mem a = Some e \<and>
        for_each mem (av_begin a) e = Some [7, 2, 4, x] \<and> rfor_each mem e (av_begin a) = Some (rev [7, 2, 4, x])))"
proof -
  let ?ops = "[Push 1, Push 2, Push 3, Pop, Push 4, Set 0 7, Resize 4 9] :: nat av_op list"
  have list: "run_ops list_step ?ops [] = Some [Some 7, Some 2, Some 4, None]" by (simp add: numeral_eq_Suc)
  have len: "length ys < 2 ^ 64" if "Some [Some 7, Some 2, Some 4, None] = Some ys" for ys :: "nat option list"
    using that by (auto simp only: option.inject) simp
  obtain v xs where v: "run_ops av_step ?ops (autovector_init [0, 0]) = Some v" "shows_as [Some 7, Some 2, Some 4, None] xs"
    "\<forall>mem a. mem a = Some v \<longrightarrow> (\<exists>e. av_end mem a = Some e \<and>
       for_each mem (av_begin a) e = Some xs \<and> rfor_each mem e (av_begin a) = Some (rev xs))"
    by (rule exE [OF autovector_refines_list [of ?ops "[0, 0]", unfolded list option.case]], rule len, assumption, elim exE conjE)
      (rule that; assumption)
  from v(2) obtain x where "xs = [7, 2, 4, x]" by (auto simp: shows_as_def list_all2_Cons1)
  with v(1,3) show ?thesis by (intro exI [of _ v] exI [of _ x] conjI) simp_all
qed

end
