(* ===== verification/ThreadLocal.thy ===== *)
theory ThreadLocal
  imports Prelude DoublyLinked Autovector "HOL-Library.Multiset"
begin

text \<open>
  \<open>include/rocksutil/thread_local.h\<close> and \<open>rutil/thread_local.cc\<close>. The singleton \<open>StaticMeta\<close>
  hands out ids to the instances of \<open>ThreadLocalPtr\<close> and chains the \<open>ThreadData\<close> of all threads
  that used one. The state holds the members of the singleton, the heap of \<open>ThreadData\<close> (its
  fields as partial maps from addresses; the dummy \<open>head_\<close> has the address 0), and for every
  thread its \<open>tls_\<close> and its value of \<open>pthread_key_\<close>. Addresses, threads and functions are
  numbers, and a \<open>void*\<close> is an option, with \<open>None\<close> the null pointer.

  \<open>None\<close> as a result is an abort or an access to memory that is not allocated. Operations are
  steps: everything but the one atomic access to the thread's own entry happens with the mutex
  held, and growing the vector of entries is not visible. The calls of the
  \<open>UnrefHandler\<close>s are recorded in \<open>unref_calls\<close>.

  Shown: the instances are a table of pointers indexed by threads and ids; a new instance is
  null in all threads although ids are used again; destroying an instance and ending a thread
  call the handler once for each pointer.
\<close>

type_synonym void_ptr = "nat option"

record StaticMeta =
  next_instance_id :: u32
  free_instance_ids :: "u32 autovector"
  td_next :: "nat \<rightharpoonup> nat"
  td_prev :: "nat \<rightharpoonup> nat"
  td_entries :: "nat \<rightharpoonup> void_ptr list"
  handler_map :: "u32 \<rightharpoonup> nat option"
  tls :: "nat \<rightharpoonup> nat"
  pthread_key :: "nat \<rightharpoonup> nat"
  unref_calls :: "(nat \<times> nat) list"

abbreviation head_addr :: nat where
  "head_addr \<equiv> 0"

definition StaticMeta_init :: "u32 list \<Rightarrow> StaticMeta" where
  "StaticMeta_init junk =
     \<lparr>next_instance_id = 0, free_instance_ids = autovector_init junk,
      td_next = [head_addr \<mapsto> head_addr], td_prev = [head_addr \<mapsto> head_addr], td_entries = [head_addr \<mapsto> []],
      handler_map = Map.empty, tls = Map.empty, pthread_key = Map.empty, unref_calls = []\<rparr>"

text \<open>Writing a field of an allocated \<open>ThreadData\<close>.\<close>

definition set_next :: "nat \<Rightarrow> nat \<Rightarrow> StaticMeta \<Rightarrow> StaticMeta option" where
  "set_next a v m = (if td_next m a = None then None else Some (m\<lparr>td_next := (td_next m)(a \<mapsto> v)\<rparr>))"

definition set_prev :: "nat \<Rightarrow> nat \<Rightarrow> StaticMeta \<Rightarrow> StaticMeta option" where
  "set_prev a v m = (if td_prev m a = None then None else Some (m\<lparr>td_prev := (td_prev m)(a \<mapsto> v)\<rparr>))"

text \<open>\<open>new\<close> and \<open>delete\<close>. The links of a new \<open>ThreadData\<close> are not initialised; they point to itself here
  and are set before they are read.\<close>

definition new_ThreadData :: "nat \<Rightarrow> StaticMeta \<Rightarrow> StaticMeta" where
  "new_ThreadData a m = m\<lparr>td_next := (td_next m)(a \<mapsto> a), td_prev := (td_prev m)(a \<mapsto> a), td_entries := (td_entries m)(a \<mapsto> [])\<rparr>"

definition delete_ThreadData :: "nat \<Rightarrow> StaticMeta \<Rightarrow> StaticMeta" where
  "delete_ThreadData a m = m\<lparr>td_next := (td_next m)(a := None), td_prev := (td_prev m)(a := None), td_entries := (td_entries m)(a := None)\<rparr>"

definition AddThreadData :: "nat \<Rightarrow> StaticMeta \<Rightarrow> StaticMeta option" where
  "AddThreadData d m = do {
     m \<leftarrow> set_next d head_addr m;
     p \<leftarrow> td_prev m head_addr;
     m \<leftarrow> set_prev d p m;
     p \<leftarrow> td_prev m head_addr;
     m \<leftarrow> set_next p d m;
     set_prev head_addr d m
   }"

definition RemoveThreadData :: "nat \<Rightarrow> StaticMeta \<Rightarrow> StaticMeta option" where
  "RemoveThreadData d m = do {
     n \<leftarrow> td_next m d;
     p \<leftarrow> td_prev m d;
     m \<leftarrow> set_prev n p m;
     p \<leftarrow> td_prev m d;
     n \<leftarrow> td_next m d;
     m \<leftarrow> set_next p n m;
     m \<leftarrow> set_prev d d m;
     set_next d d m
   }"

definition GetHandler :: "u32 \<Rightarrow> StaticMeta \<Rightarrow> nat option" where
  "GetHandler k m = (case handler_map m k of None \<Rightarrow> None | Some h \<Rightarrow> h)"

definition SetHandler :: "u32 \<Rightarrow> nat option \<Rightarrow> StaticMeta \<Rightarrow> StaticMeta" where
  "SetHandler k handler m = m\<lparr>handler_map := (handler_map m)(k \<mapsto> handler)\<rparr>"

text \<open>\<open>unref(raw)\<close> if there is a handler.\<close>

definition call_unref :: "nat option \<Rightarrow> nat \<Rightarrow> StaticMeta \<Rightarrow> StaticMeta" where
  "call_unref unref raw m = (case unref of None \<Rightarrow> m | Some h \<Rightarrow> m\<lparr>unref_calls := unref_calls m @ [(h, raw)]\<rparr>)"

fun exit_loop :: "u32 \<Rightarrow> void_ptr list \<Rightarrow> StaticMeta \<Rightarrow> StaticMeta" where
  "exit_loop k [] m = m"
| "exit_loop k (e # es) m =
     (let m = (case e of None \<Rightarrow> m | Some raw \<Rightarrow> call_unref (GetHandler k m) raw m)
      in exit_loop (k + 1) es m)"

text \<open>The destructor of the key, called when the thread \<open>t\<close> ends with the value \<open>ptr\<close> of the key.\<close>

definition OnThreadExit :: "nat \<Rightarrow> nat \<Rightarrow> StaticMeta \<Rightarrow> StaticMeta option" where
  "OnThreadExit t ptr m = do {
     let m = m\<lparr>pthread_key := (pthread_key m)(t := None)\<rparr>;
     m \<leftarrow> RemoveThreadData ptr m;
     es \<leftarrow> td_entries m ptr;
     let m = exit_loop 0 es m;
     Some (delete_ThreadData ptr m)
   }"

text \<open>The end of a thread: the destructor runs if the key has a value, and the thread's variables go.\<close>

definition thread_exit :: "nat \<Rightarrow> StaticMeta \<Rightarrow> StaticMeta option" where
  "thread_exit t m = do {
     m \<leftarrow> (case pthread_key m t of None \<Rightarrow> Some m | Some ptr \<Rightarrow> OnThreadExit t ptr m);
     Some (m\<lparr>tls := (tls m)(t := None)\<rparr>)
   }"

text \<open>\<open>os\<close> is the address \<open>new\<close> returns and the result of \<open>pthread_setspecific\<close>.\<close>

definition GetThreadLocal :: "nat \<Rightarrow> nat \<times> int \<Rightarrow> StaticMeta \<Rightarrow> (nat \<times> StaticMeta) option" where
  "GetThreadLocal t os m =
     (case tls m t of
        Some d \<Rightarrow> Some (d, m)
      | None \<Rightarrow> do {
          let a = fst os;
          let m = new_ThreadData a m;
          let m = m\<lparr>tls := (tls m)(t \<mapsto> a)\<rparr>;
          m \<leftarrow> AddThreadData a m;
          if snd os \<noteq> 0 then None else Some (a, m\<lparr>pthread_key := (pthread_key m)(t \<mapsto> a)\<rparr>)
        })"

definition Meta_Get :: "nat \<Rightarrow> nat \<times> int \<Rightarrow> u32 \<Rightarrow> StaticMeta \<Rightarrow> (void_ptr \<times> StaticMeta) option" where
  "Meta_Get t os k m = do {
     (d, m) \<leftarrow> GetThreadLocal t os m;
     es \<leftarrow> td_entries m d;
     if unat k \<ge> length es then Some (None, m) else Some (es ! unat k, m)
   }"

text \<open>The entries of the current thread, made long enough for \<open>k\<close>; \<open>k + 1\<close> is computed in 32 bits.\<close>

definition own_entries :: "nat \<Rightarrow> nat \<times> int \<Rightarrow> u32 \<Rightarrow> StaticMeta \<Rightarrow> (nat \<times> void_ptr list \<times> StaticMeta) option" where
  "own_entries t os k m = do {
     (d, m) \<leftarrow> GetThreadLocal t os m;
     es \<leftarrow> td_entries m d;
     let es = (if unat k \<ge> length es then vector_resize (unat (k + 1)) None es else es);
     if unat k < length es then Some (d, es, m\<lparr>td_entries := (td_entries m)(d \<mapsto> es)\<rparr>) else None
   }"

definition Meta_Reset :: "nat \<Rightarrow> nat \<times> int \<Rightarrow> u32 \<Rightarrow> void_ptr \<Rightarrow> StaticMeta \<Rightarrow> StaticMeta option" where
  "Meta_Reset t os k ptr m = do {
     (d, es, m) \<leftarrow> own_entries t os k m;
     Some (m\<lparr>td_entries := (td_entries m)(d \<mapsto> es[unat k := ptr])\<rparr>)
   }"

definition Meta_Swap :: "nat \<Rightarrow> nat \<times> int \<Rightarrow> u32 \<Rightarrow> void_ptr \<Rightarrow> StaticMeta \<Rightarrow> (void_ptr \<times> StaticMeta) option" where
  "Meta_Swap t os k ptr m = do {
     (d, es, m) \<leftarrow> own_entries t os k m;
     Some (es ! unat k, m\<lparr>td_entries := (td_entries m)(d \<mapsto> es[unat k := ptr])\<rparr>)
   }"

text \<open>The result is the value returned and the new value of \<open>expected\<close>.\<close>

definition Meta_CompareAndSwap ::
    "nat \<Rightarrow> nat \<times> int \<Rightarrow> u32 \<Rightarrow> void_ptr \<Rightarrow> void_ptr \<Rightarrow> StaticMeta \<Rightarrow> (bool \<times> void_ptr \<times> StaticMeta) option" where
  "Meta_CompareAndSwap t os k ptr expected m = do {
     (d, es, m) \<leftarrow> own_entries t os k m;
     if es ! unat k = expected then Some (True, expected, m\<lparr>td_entries := (td_entries m)(d \<mapsto> es[unat k := ptr])\<rparr>)
     else Some (False, es ! unat k, m)
   }"

partial_function (option) Scrape_loop ::
    "nat \<Rightarrow> u32 \<Rightarrow> void_ptr \<Rightarrow> nat autovector \<Rightarrow> StaticMeta \<Rightarrow> (nat autovector \<times> StaticMeta) option" where
  "Scrape_loop t k replacement ptrs m =
     (if t = head_addr then Some (ptrs, m)
      else do {
        es \<leftarrow> td_entries m t;
        let (ptrs, m) =
          (if unat k < length es then
             (case es ! unat k of None \<Rightarrow> ptrs | Some ptr \<Rightarrow> push_back ptr ptrs,
              m\<lparr>td_entries := (td_entries m)(t \<mapsto> es[unat k := replacement])\<rparr>)
           else (ptrs, m));
        n \<leftarrow> td_next m t;
        Scrape_loop n k replacement ptrs m
      })"

definition Meta_Scrape :: "u32 \<Rightarrow> nat autovector \<Rightarrow> void_ptr \<Rightarrow> StaticMeta \<Rightarrow> (nat autovector \<times> StaticMeta) option" where
  "Meta_Scrape k ptrs replacement m = do {
     t \<leftarrow> td_next m head_addr;
     Scrape_loop t k replacement ptrs m
   }"

partial_function (option) Fold_loop :: "nat \<Rightarrow> u32 \<Rightarrow> (nat \<Rightarrow> 'r \<Rightarrow> 'r) \<Rightarrow> 'r \<Rightarrow> StaticMeta \<Rightarrow> 'r option" where
  "Fold_loop t k func res m =
     (if t = head_addr then Some res
      else do {
        es \<leftarrow> td_entries m t;
        let res = (if unat k < length es then (case es ! unat k of None \<Rightarrow> res | Some ptr \<Rightarrow> func ptr res) else res);
        n \<leftarrow> td_next m t;
        Fold_loop n k func res m
      })"

definition Meta_Fold :: "u32 \<Rightarrow> (nat \<Rightarrow> 'r \<Rightarrow> 'r) \<Rightarrow> 'r \<Rightarrow> StaticMeta \<Rightarrow> 'r option" where
  "Meta_Fold k func res m = do {
     t \<leftarrow> td_next m head_addr;
     Fold_loop t k func res m
   }"

definition free_back :: "StaticMeta \<Rightarrow> u32 option" where
  "free_back m = av_back (\<lambda>_. Some (free_instance_ids m)) 0"

definition GetId :: "StaticMeta \<Rightarrow> (u32 \<times> StaticMeta) option" where
  "GetId m =
     (if av_empty (free_instance_ids m) then
        Some (next_instance_id m, m\<lparr>next_instance_id := next_instance_id m + 1\<rparr>)
      else do {
        k \<leftarrow> free_back m;
        v \<leftarrow> pop_back (free_instance_ids m);
        Some (k, m\<lparr>free_instance_ids := v\<rparr>)
      })"

definition PeekId :: "StaticMeta \<Rightarrow> u32 option" where
  "PeekId m = (if \<not> av_empty (free_instance_ids m) then free_back m else Some (next_instance_id m))"

partial_function (option) Reclaim_loop :: "nat \<Rightarrow> u32 \<Rightarrow> nat option \<Rightarrow> StaticMeta \<Rightarrow> StaticMeta option" where
  "Reclaim_loop t k unref m =
     (if t = head_addr then Some m
      else do {
        es \<leftarrow> td_entries m t;
        let m =
          (if unat k < length es then
             (let m = m\<lparr>td_entries := (td_entries m)(t \<mapsto> es[unat k := None])\<rparr>
              in case es ! unat k of None \<Rightarrow> m | Some ptr \<Rightarrow> call_unref unref ptr m)
           else m);
        n \<leftarrow> td_next m t;
        Reclaim_loop n k unref m
      })"

definition ReclaimId :: "u32 \<Rightarrow> StaticMeta \<Rightarrow> StaticMeta option" where
  "ReclaimId k m = do {
     let unref = GetHandler k m;
     t \<leftarrow> td_next m head_addr;
     m \<leftarrow> Reclaim_loop t k unref m;
     let m = m\<lparr>handler_map := (handler_map m)(k \<mapsto> None)\<rparr>;
     Some (m\<lparr>free_instance_ids := push_back k (free_instance_ids m)\<rparr>)
   }"

text \<open>An instance is its id; the methods of the instance pass their arguments on.\<close>

definition ThreadLocalPtr_init :: "nat option \<Rightarrow> StaticMeta \<Rightarrow> (u32 \<times> StaticMeta) option" where
  "ThreadLocalPtr_init handler m = do {
     (k, m) \<leftarrow> GetId m;
     Some (k, if handler \<noteq> None then SetHandler k handler m else m)
   }"

definition ThreadLocalPtr_destroy :: "u32 \<Rightarrow> StaticMeta \<Rightarrow> StaticMeta option" where
  "ThreadLocalPtr_destroy k m = ReclaimId k m"

definition ThreadLocalPtr_Get :: "nat \<Rightarrow> nat \<times> int \<Rightarrow> u32 \<Rightarrow> StaticMeta \<Rightarrow> (void_ptr \<times> StaticMeta) option" where
  "ThreadLocalPtr_Get t os k m = Meta_Get t os k m"

definition ThreadLocalPtr_Reset :: "nat \<Rightarrow> nat \<times> int \<Rightarrow> u32 \<Rightarrow> void_ptr \<Rightarrow> StaticMeta \<Rightarrow> StaticMeta option" where
  "ThreadLocalPtr_Reset t os k ptr m = Meta_Reset t os k ptr m"

definition ThreadLocalPtr_Swap :: "nat \<Rightarrow> nat \<times> int \<Rightarrow> u32 \<Rightarrow> void_ptr \<Rightarrow> StaticMeta \<Rightarrow> (void_ptr \<times> StaticMeta) option" where
  "ThreadLocalPtr_Swap t os k ptr m = Meta_Swap t os k ptr m"

definition ThreadLocalPtr_CompareAndSwap ::
    "nat \<Rightarrow> nat \<times> int \<Rightarrow> u32 \<Rightarrow> void_ptr \<Rightarrow> void_ptr \<Rightarrow> StaticMeta \<Rightarrow> (bool \<times> void_ptr \<times> StaticMeta) option" where
  "ThreadLocalPtr_CompareAndSwap t os k ptr expected m = Meta_CompareAndSwap t os k ptr expected m"

definition ThreadLocalPtr_Scrape :: "u32 \<Rightarrow> nat autovector \<Rightarrow> void_ptr \<Rightarrow> StaticMeta \<Rightarrow> (nat autovector \<times> StaticMeta) option" where
  "ThreadLocalPtr_Scrape k ptrs replacement m = Meta_Scrape k ptrs replacement m"

definition ThreadLocalPtr_Fold :: "u32 \<Rightarrow> (nat \<Rightarrow> 'r \<Rightarrow> 'r) \<Rightarrow> 'r \<Rightarrow> StaticMeta \<Rightarrow> 'r option" where
  "ThreadLocalPtr_Fold k func res m = Meta_Fold k func res m"

subsection \<open>The chain\<close>

lemma AddThreadData_ring:
  assumes ring: "dl (td_next m) (td_prev m) 0 ts 0" "distinct (0 # ts)" and a: "a \<notin> set (0 # ts)" "td_next m a \<noteq> None" "td_prev m a \<noteq> None"
  shows "\<exists>N P. AddThreadData a m = Some (m\<lparr>td_next := N, td_prev := P\<rparr>) \<and> dl N P 0 (ts @ [a]) 0 \<and>
    dom N = dom (td_next m) \<and> dom P = dom (td_prev m)"
proof -
  let ?l = "last (0 # ts)"
  note last = dl_last [OF ring(1)]
  have l: "?l \<noteq> a" using a(1) last_in_set [of "0 # ts"] by (metis list.distinct(1))
  let ?N = "(td_next m)(a := Some (hd ([] @ [0])), ?l := Some a)" and ?P = "(td_prev m)(a := Some ?l, hd ([] @ [0]) := Some a)"
  have "dl ?N ?P 0 (ts @ a # []) 0" by (rule dl_link [where ys = "[]"]) (use ring a in auto)
  moreover have "AddThreadData a m = Some (m\<lparr>td_next := ?N, td_prev := ?P\<rparr>)"
    using last a l by (auto simp: AddThreadData_def set_next_def set_prev_def)
  moreover have "dom ?N = dom (td_next m)" "dom ?P = dom (td_prev m)" using last a by auto
  ultimately show ?thesis by blast
qed

lemma RemoveThreadData_ring:
  assumes ring: "dl (td_next m) (td_prev m) 0 (xs @ d # ys) 0" "distinct (0 # xs @ d # ys)"
  shows "\<exists>N P. RemoveThreadData d m = Some (m\<lparr>td_next := N, td_prev := P\<rparr>) \<and> dl (N(d := None)) (P(d := None)) 0 (xs @ ys) 0 \<and>
    dom N = dom (td_next m) \<and> dom P = dom (td_prev m)"
proof -
  let ?p = "last (0 # xs)" and ?n = "hd (ys @ [0])"
  have sp: "dl (td_next m) (td_prev m) 0 xs d" "dl (td_next m) (td_prev m) d ys 0" using ring(1) by (simp_all add: dl_append)
  have links: "td_prev m d = Some ?p" "td_next m ?p = Some d" "td_next m d = Some ?n" "td_prev m ?n = Some d"
    using dl_last [OF sp(1)] dl_first [OF sp(2)] by auto
  have pn: "?p \<noteq> d" "?n \<noteq> d"
    using ring(2) last_in_set [of "0 # xs"] by (force, cases ys) auto
  let ?N = "(td_next m)(?p := Some ?n, d := Some d)" and ?P = "(td_prev m)(?n := Some ?p, d := Some d)"
  have "RemoveThreadData d m = Some (m\<lparr>td_next := ?N, td_prev := ?P\<rparr>)"
    using links pn by (auto simp: RemoveThreadData_def set_next_def set_prev_def)
  moreover have "dl ((td_next m)(?p := Some ?n, d := None)) ((td_prev m)(?n := Some ?p, d := None)) 0 (xs @ ys) 0"
    by (rule dl_unlink [OF ring]) (use ring(2) in auto)
  then have "dl (?N(d := None)) (?P(d := None)) 0 (xs @ ys) 0" by simp
  moreover have "dom ?N = dom (td_next m)" "dom ?P = dom (td_prev m)" using links by auto
  ultimately show ?thesis by blast
qed

subsection \<open>The table of pointers\<close>

definition entry :: "StaticMeta \<Rightarrow> nat \<Rightarrow> u32 \<Rightarrow> void_ptr" where
  "entry m a k = (case td_entries m a of None \<Rightarrow> None | Some es \<Rightarrow> if unat k < length es then es ! unat k else None)"

definition tl_value :: "StaticMeta \<Rightarrow> nat \<Rightarrow> u32 \<Rightarrow> void_ptr" where
  "tl_value m t k = (case tls m t of None \<Rightarrow> None | Some a \<Rightarrow> entry m a k)"

lemma entry_cong: "td_entries m' = td_entries m \<Longrightarrow> entry m' = entry m"
  by (simp add: entry_def fun_eq_iff)

lemma tl_value_cong: "td_entries m' = td_entries m \<Longrightarrow> tls m' = tls m \<Longrightarrow> tl_value m' = tl_value m"
  using entry_cong [of m' m] by (intro ext) (simp add: tl_value_def split: option.split)

text \<open>The instances that exist are those with an id that was handed out and not returned.\<close>

definition tl_live :: "StaticMeta \<Rightarrow> u32 set" where
  "tl_live m = {k. k < next_instance_id m} - set (items (free_instance_ids m))"

definition chain_inv :: "StaticMeta \<Rightarrow> nat list \<Rightarrow> bool" where
  "chain_inv m ts \<longleftrightarrow> dl (td_next m) (td_prev m) 0 ts 0 \<and> distinct (0 # ts) \<and>
     dom (td_next m) = set (0 # ts) \<and> dom (td_prev m) = set (0 # ts) \<and> dom (td_entries m) = set (0 # ts) \<and>
     td_entries m 0 = Some [] \<and> inj_on (tls m) (dom (tls m)) \<and> ran (tls m) = set ts \<and> pthread_key m = tls m"

definition ids_inv :: "StaticMeta \<Rightarrow> bool" where
  "ids_inv m \<longleftrightarrow> av_ok (free_instance_ids m) \<and> distinct (items (free_instance_ids m)) \<and>
     (\<forall>k \<in> set (items (free_instance_ids m)). k < next_instance_id m) \<and>
     (\<forall>a es. td_entries m a = Some es \<longrightarrow> length es \<le> unat (next_instance_id m)) \<and>
     (\<forall>k. k \<notin> tl_live m \<longrightarrow> GetHandler k m = None \<and> (\<forall>a. entry m a k = None))"

definition tl_inv :: "StaticMeta \<Rightarrow> bool" where
  "tl_inv m \<longleftrightarrow> (\<exists>ts. chain_inv m ts) \<and> ids_inv m"

lemma tl_init_inv: "tl_inv (StaticMeta_init junk)"
proof -
  have "chain_inv (StaticMeta_init junk) []" by (simp add: chain_inv_def StaticMeta_init_def)
  moreover have "ids_inv (StaticMeta_init junk)"
    by (auto simp: ids_inv_def StaticMeta_init_def av_init_items GetHandler_def entry_def)
  ultimately show ?thesis by (auto simp: tl_inv_def)
qed

text \<open>The parts of the state the accesses of a thread leave alone.\<close>

definition tl_frame :: "StaticMeta \<Rightarrow> StaticMeta \<Rightarrow> bool" where
  "tl_frame m m' \<longleftrightarrow> next_instance_id m' = next_instance_id m \<and> free_instance_ids m' = free_instance_ids m \<and>
     handler_map m' = handler_map m \<and> unref_calls m' = unref_calls m"

lemma tl_frame_live: "tl_frame m m' \<Longrightarrow> tl_live m' = tl_live m" "tl_frame m m' \<Longrightarrow> GetHandler k m' = GetHandler k m"
  by (simp_all add: tl_frame_def tl_live_def GetHandler_def)

lemma tl_frame_trans: "tl_frame m m' \<Longrightarrow> tl_frame m' m'' \<Longrightarrow> tl_frame m m''"
  by (simp add: tl_frame_def)

lemma ids_inv_frame:
  assumes "ids_inv m" "tl_frame m m'" "\<And>a es. td_entries m' a = Some es \<Longrightarrow> length es \<le> unat (next_instance_id m)"
    "\<And>k a. k \<notin> tl_live m \<Longrightarrow> entry m' a k = None"
  shows "ids_inv m'"
  using assms tl_frame_live [OF assms(2)] unfolding ids_inv_def by (simp add: tl_frame_def)

lemma tls_in_chain:
  assumes "chain_inv m ts" "tls m t = Some d"
  shows "d \<in> set ts" "d \<noteq> 0"
proof -
  show "d \<in> set ts" using assms(1) ranI [of "tls m", OF assms(2)] by (simp add: chain_inv_def)
  then show "d \<noteq> 0" using assms(1) unfolding chain_inv_def by (metis distinct.simps(2))
qed

lemma chain_inv_store:
  assumes "chain_inv m ts" "tls m t = Some d"
  shows "chain_inv (m\<lparr>td_entries := (td_entries m)(d \<mapsto> es)\<rparr>) ts"
  using assms(1) tls_in_chain [OF assms] by (auto simp: chain_inv_def)

lemma tls_allocated:
  assumes "tl_inv m" "tls m t = Some a"
  shows "a \<in> dom (td_entries m)"
proof -
  obtain ts where "chain_inv m ts" using assms(1) by (auto simp: tl_inv_def)
  moreover have "a \<in> ran (tls m)" using assms(2) by (rule ranI)
  ultimately show ?thesis unfolding chain_inv_def by simp
qed

lemma GetThreadLocal_law:
  assumes inv: "tl_inv m" and os: "fst os \<notin> dom (td_entries m)" "snd os = 0"
  shows "\<exists>a m'. GetThreadLocal t os m = Some (a, m') \<and> tl_inv m' \<and> tls m' t = Some a \<and> a \<in> dom (td_entries m') \<and>
    tl_value m' = tl_value m \<and> tl_frame m m'"
proof (cases "tls m t")
  case (Some a)
  with tls_allocated [OF inv Some] inv show ?thesis by (auto simp: GetThreadLocal_def tl_frame_def)
next
  case None
  obtain ts where ch: "chain_inv m ts" and ids: "ids_inv m" using inv by (auto simp: tl_inv_def)
  let ?a = "fst os"
  let ?m = "(new_ThreadData ?a m)\<lparr>tls := (tls m)(t \<mapsto> ?a)\<rparr>"
  have a: "?a \<notin> set (0 # ts)" using ch os(1) by (simp add: chain_inv_def)
  have "dl (td_next ?m) (td_prev ?m) 0 ts 0 = dl (td_next m) (td_prev m) 0 ts 0"
    by (rule dl_frame) (use a in \<open>auto simp: new_ThreadData_def\<close>)
  then obtain N P where add: "AddThreadData ?a ?m = Some (?m\<lparr>td_next := N, td_prev := P\<rparr>)" "dl N P 0 (ts @ [?a]) 0"
      "dom N = dom (td_next ?m)" "dom P = dom (td_prev ?m)"
    using AddThreadData_ring [of ?m ts ?a] ch a by (auto simp: chain_inv_def new_ThreadData_def)
  define m' where "m' = ?m\<lparr>td_next := N, td_prev := P, pthread_key := (pthread_key m)(t \<mapsto> ?a)\<rparr>"
  have run: "GetThreadLocal t os m = Some (?a, m')"
    using None add(1) os(2) by (simp add: GetThreadLocal_def m'_def new_ThreadData_def Let_def)
  have e: "td_entries m' = (td_entries m)(?a \<mapsto> [])" by (simp add: m'_def new_ThreadData_def)
  have fr: "tl_frame m m'" by (simp add: m'_def tl_frame_def new_ThreadData_def)
  have tls': "tls m' = (tls m)(t \<mapsto> ?a)" by (simp add: m'_def)
  have "?a \<notin> ran (tls m)" using ch a by (simp add: chain_inv_def)
  then have "inj_on (tls m') (dom (tls m'))"
    using ch None by (auto simp: chain_inv_def m'_def inj_on_def ran_def split: if_splits)
  moreover have "ran (tls m') = insert ?a (ran (tls m))" using None by (simp add: m'_def)
  ultimately have inj: "inj_on (tls m') (dom (tls m'))" "ran (tls m') = insert ?a (ran (tls m))" by blast+
  have "chain_inv m' (ts @ [?a])"
    using ch add(2-4) a inj by (auto simp: chain_inv_def m'_def new_ThreadData_def)
  moreover have ent: "entry m' a k = entry m a k" for a k using os(1) by (auto simp: entry_def e split: option.splits)
  then have "ids_inv m'"
    by (intro ids_inv_frame [OF ids fr]) (use ids in \<open>auto simp: ids_inv_def e split: if_splits\<close>)
  moreover have "tl_value m' = tl_value m"
  proof (intro ext)
    fix t' k
    have "entry m ?a k = None" using os(1) by (auto simp: entry_def split: option.splits)
    then show "tl_value m' t' k = tl_value m t' k" using None by (cases "tls m t'") (auto simp: tl_value_def tls' ent)
  qed
  moreover have "tls m' t = Some ?a" by (simp add: m'_def)
  ultimately show ?thesis using run fr e by (auto simp: tl_inv_def)
qed

text \<open>Storing into one's own entry.\<close>

lemma store_law:
  fixes p :: void_ptr
  assumes inv: "tl_inv m" and d: "tls m t = Some d" "td_entries m d = Some es" and k: "unat k < length es" "k \<in> tl_live m"
  defines "m' \<equiv> m\<lparr>td_entries := (td_entries m)(d \<mapsto> es[unat k := p])\<rparr>"
  shows "tl_inv m'" "tl_value m' = (tl_value m)(t := (tl_value m t)(k := p))" "tl_frame m m'"
proof -
  obtain ts where ch: "chain_inv m ts" and ids: "ids_inv m" using inv by (auto simp: tl_inv_def)
  show fr: "tl_frame m m'" by (simp add: m'_def tl_frame_def)
  have ent: "entry m' a k' = (if a = d \<and> k' = k then p else entry m a k')" for a k'
    using d(2) k(1) by (auto simp: entry_def m'_def nth_list_update word_unat_eq_iff)
  have "chain_inv m' ts" unfolding m'_def by (rule chain_inv_store [OF ch d(1)])
  moreover have "length es \<le> unat (next_instance_id m)" using ids d(2) by (simp add: ids_inv_def)
  then have "ids_inv m'"
    by (intro ids_inv_frame [OF ids fr]) (use ids k(2) in \<open>auto simp: ids_inv_def ent, auto simp: m'_def split: if_splits\<close>)
  ultimately show "tl_inv m'" by (auto simp: tl_inv_def)
  have inj: "inj_on (tls m) (dom (tls m))" using ch by (simp add: chain_inv_def)
  have one: "t' = t" if "tls m t' = Some d" for t' by (rule inj_onD [OF inj]) (use d(1) that in auto)
  have "tls m' = tls m" by (simp add: m'_def)
  then have "tl_value m' t' k' = (if t' = t \<and> k' = k then p else tl_value m t' k')" for t' k'
    using d(1) one [of t'] by (cases "tls m t'") (auto simp: tl_value_def ent)
  then show "tl_value m' = (tl_value m)(t := (tl_value m t)(k := p))" by (simp add: fun_eq_iff)
qed

lemma own_entries_law:
  assumes inv: "tl_inv m" and os: "fst os \<notin> dom (td_entries m)" "snd os = 0" and k: "k \<in> tl_live m"
  shows "\<exists>d es m'. own_entries t os k m = Some (d, es, m') \<and> tl_inv m' \<and> tls m' t = Some d \<and> td_entries m' d = Some es \<and>
    unat k < length es \<and> es ! unat k = tl_value m t k \<and> tl_value m' = tl_value m \<and> tl_frame m m'"
proof -
  obtain d m1 where g: "GetThreadLocal t os m = Some (d, m1)" "tl_inv m1" "tls m1 t = Some d" "d \<in> dom (td_entries m1)"
    "tl_value m1 = tl_value m" "tl_frame m m1" using GetThreadLocal_law [OF inv os] by blast
  then obtain es where es: "td_entries m1 d = Some es" by auto
  obtain ts where ch: "chain_inv m1 ts" and ids: "ids_inv m1" using g(2) by (auto simp: tl_inv_def)
  define es' where "es' = (if unat k \<ge> length es then vector_resize (unat (k + 1)) None es else es)"
  define m' where "m' = m1\<lparr>td_entries := (td_entries m1)(d \<mapsto> es')\<rparr>"
  have lt: "k < next_instance_id m1" using k g(6) by (simp add: tl_live_def tl_frame_def)
  moreover have "unat (next_instance_id m1) < 2 ^ LENGTH(32)" by (rule unsigned_less)
  ultimately have k1: "unat (k + 1) = Suc (unat k)" using unat_add_small [of k 1] by (simp add: word_less_nat_alt)
  then have len: "unat k < length es'" "length es' \<le> unat (next_instance_id m1)"
    using ids es lt by (auto simp: es'_def vector_resize_def ids_inv_def word_less_nat_alt)
  have nth: "es' ! i = (if i < length es then es ! i else None)" if "i < length es'" for i
    using that k1 by (auto simp: es'_def vector_resize_def nth_append split: if_splits)
  have fr: "tl_frame m1 m'" by (simp add: m'_def tl_frame_def)
  have le: "length es \<le> length es'" by (simp add: es'_def vector_resize_def k1)
  have ent: "entry m' a k' = entry m1 a k'" for a k'
    using es le nth by (auto simp: entry_def m'_def)
  have val: "tl_value m' = tl_value m1" by (simp add: tl_value_def fun_eq_iff ent split: option.splits) (simp add: m'_def)
  have "chain_inv m' ts" unfolding m'_def by (rule chain_inv_store [OF ch g(3)])
  moreover have "ids_inv m'"
    by (intro ids_inv_frame [OF ids fr]) (use ids len(2) in \<open>auto simp: ids_inv_def ent, auto simp: m'_def split: if_splits\<close>)
  ultimately have "tl_inv m'" by (auto simp: tl_inv_def)
  moreover have "own_entries t os k m = Some (d, es', m')"
    using g(1) es len(1) by (simp add: own_entries_def es'_def m'_def Let_def)
  moreover have "es' ! unat k = tl_value m t k"
    using g(3,5) es nth [OF len(1)] by (simp add: tl_value_def entry_def flip: g(5))
  moreover have "tls m' t = Some d" "td_entries m' d = Some es'" "tl_value m' = tl_value m" using g(3,5) val by (simp_all add: m'_def)
  ultimately show ?thesis using len(1) tl_frame_trans [OF g(6) fr] by blast
qed

lemma Get_law:
  assumes "tl_inv m" "fst os \<notin> dom (td_entries m)" "snd os = 0"
  shows "\<exists>m'. ThreadLocalPtr_Get t os k m = Some (tl_value m t k, m') \<and> tl_inv m' \<and> tl_value m' = tl_value m \<and> tl_frame m m'"
proof -
  obtain d m' where g: "GetThreadLocal t os m = Some (d, m')" "tl_inv m'" "tls m' t = Some d" "d \<in> dom (td_entries m')"
    "tl_value m' = tl_value m" "tl_frame m m'" using GetThreadLocal_law [OF assms] by blast
  then obtain es where es: "td_entries m' d = Some es" by auto
  have "tl_value m t k = (if unat k \<ge> length es then None else es ! unat k)"
    unfolding g(5) [symmetric] using g(3) es by (simp add: tl_value_def entry_def)
  then show ?thesis using g es by (auto simp: ThreadLocalPtr_Get_def Meta_Get_def)
qed

lemma Reset_law:
  assumes "tl_inv m" "fst os \<notin> dom (td_entries m)" "snd os = 0" "k \<in> tl_live m"
  shows "\<exists>m'. ThreadLocalPtr_Reset t os k p m = Some m' \<and> tl_inv m' \<and>
    tl_value m' = (tl_value m)(t := (tl_value m t)(k := p)) \<and> tl_frame m m'"
proof -
  obtain d es m1 where o: "own_entries t os k m = Some (d, es, m1)" "tl_inv m1" "tls m1 t = Some d" "td_entries m1 d = Some es"
    "unat k < length es" "tl_value m1 = tl_value m" "tl_frame m m1" using own_entries_law [OF assms] by blast
  have k: "k \<in> tl_live m1" using assms(4) tl_frame_live(1) [OF o(7)] by simp
  note st = store_law [OF o(2-5) k, of p]
  show ?thesis using st(1,2) o(1,6) tl_frame_trans [OF o(7) st(3)] by (simp add: ThreadLocalPtr_Reset_def Meta_Reset_def)
qed

lemma Swap_law:
  assumes "tl_inv m" "fst os \<notin> dom (td_entries m)" "snd os = 0" "k \<in> tl_live m"
  shows "\<exists>m'. ThreadLocalPtr_Swap t os k p m = Some (tl_value m t k, m') \<and> tl_inv m' \<and>
    tl_value m' = (tl_value m)(t := (tl_value m t)(k := p)) \<and> tl_frame m m'"
proof -
  obtain d es m1 where o: "own_entries t os k m = Some (d, es, m1)" "tl_inv m1" "tls m1 t = Some d" "td_entries m1 d = Some es"
    "unat k < length es" "es ! unat k = tl_value m t k" "tl_value m1 = tl_value m" "tl_frame m m1"
    using own_entries_law [OF assms] by blast
  have k: "k \<in> tl_live m1" using assms(4) tl_frame_live(1) [OF o(8)] by simp
  note st = store_law [OF o(2-5) k, of p]
  show ?thesis using st(1,2) o(1,6,7) tl_frame_trans [OF o(8) st(3)] by (simp add: ThreadLocalPtr_Swap_def Meta_Swap_def)
qed

lemma CompareAndSwap_law:
  assumes "tl_inv m" "fst os \<notin> dom (td_entries m)" "snd os = 0" "k \<in> tl_live m"
  shows "\<exists>m'. ThreadLocalPtr_CompareAndSwap t os k p expected m = Some (tl_value m t k = expected, tl_value m t k, m') \<and> tl_inv m' \<and>
    tl_value m' = (if tl_value m t k = expected then (tl_value m)(t := (tl_value m t)(k := p)) else tl_value m) \<and> tl_frame m m'"
proof -
  obtain d es m1 where o: "own_entries t os k m = Some (d, es, m1)" "tl_inv m1" "tls m1 t = Some d" "td_entries m1 d = Some es"
    "unat k < length es" "es ! unat k = tl_value m t k" "tl_value m1 = tl_value m" "tl_frame m m1"
    using own_entries_law [OF assms] by blast
  have k: "k \<in> tl_live m1" using assms(4) tl_frame_live(1) [OF o(8)] by simp
  note st = store_law [OF o(2-5) k, of p]
  show ?thesis
  proof (cases "tl_value m t k = expected")
    case True
    then show ?thesis using st(1,2) o(1,6,7) tl_frame_trans [OF o(8) st(3)]
      by (simp add: ThreadLocalPtr_CompareAndSwap_def Meta_CompareAndSwap_def)
  next
    case False
    then show ?thesis using o by (simp add: ThreadLocalPtr_CompareAndSwap_def Meta_CompareAndSwap_def)
  qed
qed

subsection \<open>Loops over the chain\<close>

definition set_all :: "u32 \<Rightarrow> void_ptr \<Rightarrow> nat list \<Rightarrow> (nat \<rightharpoonup> void_ptr list) \<Rightarrow> (nat \<rightharpoonup> void_ptr list)" where
  "set_all k p ys E = (\<lambda>a. if a \<in> set ys then map_option (\<lambda>es. es[unat k := p]) (E a) else E a)"

text \<open>The pointers of an id in the order of the chain.\<close>

definition held :: "StaticMeta \<Rightarrow> u32 \<Rightarrow> nat list \<Rightarrow> nat list" where
  "held m k ys = List.map_filter (\<lambda>a. entry m a k) ys"

definition unref_all :: "nat option \<Rightarrow> nat list \<Rightarrow> (nat \<times> nat) list" where
  "unref_all unref ps = (case unref of None \<Rightarrow> [] | Some h \<Rightarrow> map (Pair h) ps)"

lemma held_Cons: "held m k (y # ys) = (case entry m y k of None \<Rightarrow> held m k ys | Some p \<Rightarrow> p # held m k ys)"
  by (simp add: held_def split: option.splits)

lemma held_Nil [simp]: "held m k [] = []"
  by (simp add: held_def)

lemma held_cong: "(\<And>a. a \<in> set ys \<Longrightarrow> td_entries m' a = td_entries m a) \<Longrightarrow> held m' k ys = held m k ys"
  by (induction ys) (auto simp: held_Cons entry_def split: option.splits)

lemma set_all_Cons:
  assumes "y \<notin> set ys" "E y = Some es"
  shows "set_all k p (y # ys) E = set_all k p ys (E(y \<mapsto> es[unat k := p]))"
  using assms by (auto simp: set_all_def fun_eq_iff)

lemma store_beyond:
  assumes "\<not> unat k < length es" "td_entries m y = Some es"
  shows "m\<lparr>td_entries := (td_entries m)(y \<mapsto> es[unat k := p])\<rparr> = m"
proof -
  have "(td_entries m)(y \<mapsto> es[unat k := p]) = td_entries m" using assms by (auto simp: list_update_beyond not_less)
  then show ?thesis by simp
qed

lemma Reclaim_loop_law:
  assumes "dl (td_next m) P x ys 0" "distinct (0 # ys)" "set ys \<subseteq> dom (td_entries m)"
  shows "Reclaim_loop (hd (ys @ [0])) k unref m =
    Some (m\<lparr>td_entries := set_all k None ys (td_entries m), unref_calls := unref_calls m @ unref_all unref (held m k ys)\<rparr>)"
  using assms
proof (induction ys arbitrary: x m)
  case Nil
  then show ?case by (subst Reclaim_loop.simps) (simp add: set_all_def unref_all_def split: option.split)
next
  case (Cons y ys)
  then obtain es where es: "td_entries m y = Some es" by auto
  have n: "td_next m y = Some (hd (ys @ [0]))" using Cons.prems(1) dl_first [of "td_next m" P y ys 0] by simp
  define m1 where "m1 = m\<lparr>td_entries := (td_entries m)(y \<mapsto> es[unat k := None]), unref_calls := unref_calls m @ unref_all unref (held m k [y])\<rparr>"
  have step: "Reclaim_loop y k unref m = Reclaim_loop (hd (ys @ [0])) k unref m1"
    using Cons.prems(2) es n
    by (subst Reclaim_loop.simps)
      (auto simp: m1_def held_Cons entry_def unref_all_def call_unref_def Let_def store_beyond split: option.splits)
  have "held m1 k ys = held m k ys" by (rule held_cong) (use Cons.prems(2) in \<open>auto simp: m1_def\<close>)
  moreover have "unref_all unref (held m k (y # ys)) = unref_all unref (held m k [y]) @ unref_all unref (held m k ys)"
    by (simp add: unref_all_def held_Cons split: option.splits)
  moreover have "set_all k None (y # ys) (td_entries m) = set_all k None ys (td_entries m1)"
    using set_all_Cons [of y ys "td_entries m" es] Cons.prems(2) es by (simp add: m1_def)
  moreover have "Reclaim_loop (hd (ys @ [0])) k unref m1 =
      Some (m1\<lparr>td_entries := set_all k None ys (td_entries m1), unref_calls := unref_calls m1 @ unref_all unref (held m1 k ys)\<rparr>)"
    using Cons.prems by (intro Cons.IH [where x = y]) (auto simp: m1_def)
  ultimately show ?case using step by (simp add: m1_def)
qed

lemma Scrape_loop_law:
  assumes "dl (td_next m) P x ys 0" "distinct (0 # ys)" "set ys \<subseteq> dom (td_entries m)" "av_ok ptrs"
  shows "\<exists>ptrs'. Scrape_loop (hd (ys @ [0])) k p ptrs m = Some (ptrs', m\<lparr>td_entries := set_all k p ys (td_entries m)\<rparr>) \<and>
    av_ok ptrs' \<and> items ptrs' = items ptrs @ held m k ys"
  using assms
proof (induction ys arbitrary: x m ptrs)
  case Nil
  then show ?case by (subst Scrape_loop.simps) (simp add: set_all_def)
next
  case (Cons y ys)
  then obtain es where es: "td_entries m y = Some es" by auto
  have n: "td_next m y = Some (hd (ys @ [0]))" using Cons.prems(1) dl_first [of "td_next m" P y ys 0] by simp
  define m1 where "m1 = m\<lparr>td_entries := (td_entries m)(y \<mapsto> es[unat k := p])\<rparr>"
  define ptrs1 where "ptrs1 = (case entry m y k of None \<Rightarrow> ptrs | Some q \<Rightarrow> push_back q ptrs)"
  have step: "Scrape_loop y k p ptrs m = Scrape_loop (hd (ys @ [0])) k p ptrs1 m1"
    using Cons.prems(2) es n
    by (subst Scrape_loop.simps) (auto simp: m1_def ptrs1_def entry_def Let_def store_beyond split: option.splits)
  have p1: "av_ok ptrs1" "items ptrs1 = items ptrs @ held m k [y]"
    using Cons.prems(4) push_back_items [of ptrs] by (auto simp: ptrs1_def held_Cons split: option.splits)
  have "held m1 k ys = held m k ys" by (rule held_cong) (use Cons.prems(2) in \<open>auto simp: m1_def\<close>)
  moreover have "held m k (y # ys) = held m k [y] @ held m k ys" by (simp add: held_Cons split: option.splits)
  moreover have "set_all k p (y # ys) (td_entries m) = set_all k p ys (td_entries m1)"
    using set_all_Cons [of y ys "td_entries m" es] Cons.prems(2) es by (simp add: m1_def)
  moreover have "\<exists>ptrs'. Scrape_loop (hd (ys @ [0])) k p ptrs1 m1 = Some (ptrs', m1\<lparr>td_entries := set_all k p ys (td_entries m1)\<rparr>) \<and>
      av_ok ptrs' \<and> items ptrs' = items ptrs1 @ held m1 k ys"
    using Cons.prems p1 by (intro Cons.IH [where x = y]) (auto simp: m1_def)
  ultimately show ?case using step p1 by (auto simp: m1_def)
qed

lemma Fold_loop_law:
  assumes "dl (td_next m) P x ys 0" "distinct (0 # ys)" "set ys \<subseteq> dom (td_entries m)"
  shows "Fold_loop (hd (ys @ [0])) k func res m = Some (fold func (held m k ys) res)"
  using assms
proof (induction ys arbitrary: x res)
  case Nil
  then show ?case by (subst Fold_loop.simps) simp
next
  case (Cons y ys)
  then obtain es where es: "td_entries m y = Some es" by auto
  have n: "td_next m y = Some (hd (ys @ [0]))" using Cons.prems(1) dl_first [of "td_next m" P y ys 0] by simp
  have "Fold_loop (hd (ys @ [0])) k func r m = Some (fold func (held m k ys) r)" for r
    using Cons.prems by (intro Cons.IH [where x = y]) auto
  then show ?case using Cons.prems(2) es n by (subst Fold_loop.simps) (auto simp: held_Cons entry_def Let_def split: option.splits)
qed

text \<open>A thread whose vector of entries reaches \<open>k\<close>; only those are set by \<open>Scrape\<close>.\<close>

definition tl_sized :: "StaticMeta \<Rightarrow> nat \<Rightarrow> u32 \<Rightarrow> bool" where
  "tl_sized m t k \<longleftrightarrow> (\<exists>a es. tls m t = Some a \<and> td_entries m a = Some es \<and> unat k < length es)"

lemma value_sized: "tl_value m t k \<noteq> None \<Longrightarrow> tl_sized m t k"
  by (auto simp: tl_value_def tl_sized_def entry_def split: option.splits if_splits)

lemma set_all_law:
  fixes p :: void_ptr
  assumes inv: "ids_inv m" "chain_inv m ts" and k: "k \<in> tl_live m"
  defines "m' \<equiv> m\<lparr>td_entries := set_all k p ts (td_entries m)\<rparr>"
  shows "chain_inv m' ts" "ids_inv m'" "tl_value m' t k' = (if k' = k \<and> tl_sized m t k then p else tl_value m t k')"
proof -
  show ch: "chain_inv m' ts" using inv(2) by (auto simp: chain_inv_def m'_def set_all_def dom_def)
  have ent: "entry m' a k' = (if k' = k \<and> a \<in> set ts \<and> (\<exists>es. td_entries m a = Some es \<and> unat k < length es) then p else entry m a k')" for a k'
    by (auto simp: entry_def m'_def set_all_def nth_list_update word_unat_eq_iff split: option.splits)
  have fr: "tl_frame m m'" by (simp add: tl_frame_def m'_def)
  show "ids_inv m'"
    by (intro ids_inv_frame [OF inv(1) fr])
      (use inv(1) k in \<open>auto simp: ids_inv_def ent, auto simp: m'_def set_all_def split: if_splits\<close>)
  have "tls m' = tls m" by (simp add: m'_def)
  moreover have "a \<in> set ts" if "tls m t = Some a" for a using inv(2) ranI [of "tls m", OF that] by (simp add: chain_inv_def)
  ultimately show "tl_value m' t k' = (if k' = k \<and> tl_sized m t k then p else tl_value m t k')"
    by (cases "tls m t") (auto simp: tl_value_def tl_sized_def ent)
qed

text \<open>The pointers in the chain are those of the threads.\<close>

lemma mset_map_filter:
  "distinct xs \<Longrightarrow> mset (List.map_filter f xs) = image_mset (\<lambda>x. the (f x)) (mset_set {x \<in> set xs. f x \<noteq> None})"
proof (induction xs)
  case (Cons x xs)
  have "{y \<in> set (x # xs). f y \<noteq> None} = (if f x = None then {} else {x}) \<union> {y \<in> set xs. f y \<noteq> None}" by auto
  then show ?case using Cons by (auto split: option.split)
qed simp

lemma mset_held:
  assumes "chain_inv m ts"
  shows "mset (held m k ts) = image_mset (\<lambda>t. the (tl_value m t k)) (mset_set {t. tl_value m t k \<noteq> None})"
proof -
  have d: "distinct ts" "ran (tls m) = set ts" "inj_on (tls m) (dom (tls m))" using assms by (simp_all add: chain_inv_def)
  let ?A = "{a \<in> set ts. entry m a k \<noteq> None}" and ?T = "{t. tl_value m t k \<noteq> None}" and ?f = "\<lambda>t. the (tls m t)"
  have T: "t \<in> dom (tls m)" "entry m (?f t) k = tl_value m t k" if "t \<in> ?T" for t
    using that by (auto simp: tl_value_def split: option.splits)
  have inj: "inj_on ?f ?T"
  proof (rule inj_onI)
    fix t u assume tu: "t \<in> ?T" "u \<in> ?T" "?f t = ?f u"
    then have "tls m t = tls m u" using T(1) [OF tu(1)] T(1) [OF tu(2)] by auto
    then show "t = u" using inj_onD [OF d(3)] T(1) tu by blast
  qed
  have img: "?f ` ?T = ?A"
  proof
    show "?f ` ?T \<subseteq> ?A" using T d(2) by (auto simp: tl_value_def split: option.splits intro: ranI)
    show "?A \<subseteq> ?f ` ?T"
    proof
      fix a assume a: "a \<in> ?A"
      then obtain t where t: "tls m t = Some a" using d(2) by (auto simp: ran_def)
      then have "t \<in> ?T" "a = ?f t" using a by (auto simp: tl_value_def)
      then show "a \<in> ?f ` ?T" by blast
    qed
  qed
  have "mset (held m k ts) = image_mset (\<lambda>a. the (entry m a k)) (mset_set (?f ` ?T))"
    unfolding held_def img by (rule mset_map_filter [OF d(1)])
  also have "\<dots> = image_mset (\<lambda>a. the (entry m a k)) (image_mset ?f (mset_set ?T))"
    unfolding image_mset_mset_set [OF inj] ..
  also have "\<dots> = image_mset (\<lambda>t. the (tl_value m t k)) (mset_set ?T)"
    unfolding image_mset.compositionality by (rule image_mset_cong) (use T in \<open>cases "finite ?T"; auto\<close>)
  finally show ?thesis .
qed

lemma Scrape_law:
  assumes inv: "tl_inv m" and k: "k \<in> tl_live m" and ptrs: "av_ok ptrs"
  shows "\<exists>ptrs' m'. ThreadLocalPtr_Scrape k ptrs p m = Some (ptrs', m') \<and> tl_inv m' \<and> tl_frame m m' \<and> av_ok ptrs' \<and>
    mset (items ptrs') = mset (items ptrs) + image_mset (\<lambda>t. the (tl_value m t k)) (mset_set {t. tl_value m t k \<noteq> None}) \<and>
    (\<forall>t k'. tl_value m' t k' = (if k' = k \<and> tl_sized m t k then p else tl_value m t k'))"
proof -
  obtain ts where ch: "chain_inv m ts" and ids: "ids_inv m" using inv by (auto simp: tl_inv_def)
  have r: "dl (td_next m) (td_prev m) 0 ts 0" "distinct (0 # ts)" "set ts \<subseteq> dom (td_entries m)"
    using ch unfolding chain_inv_def by auto
  obtain ptrs' where s: "Scrape_loop (hd (ts @ [0])) k p ptrs m = Some (ptrs', m\<lparr>td_entries := set_all k p ts (td_entries m)\<rparr>)"
    "av_ok ptrs'" "items ptrs' = items ptrs @ held m k ts" using Scrape_loop_law [OF r ptrs] by blast
  have "ThreadLocalPtr_Scrape k ptrs p m = Some (ptrs', m\<lparr>td_entries := set_all k p ts (td_entries m)\<rparr>)"
    using s(1) dl_first [OF r(1)] by (simp add: ThreadLocalPtr_Scrape_def Meta_Scrape_def)
  moreover have "mset (items ptrs') = mset (items ptrs) + image_mset (\<lambda>t. the (tl_value m t k)) (mset_set {t. tl_value m t k \<noteq> None})"
    by (simp add: s(3) mset_held [OF ch])
  moreover have "tl_frame m (m\<lparr>td_entries := set_all k p ts (td_entries m)\<rparr>)" by (simp add: tl_frame_def)
  ultimately show ?thesis using s(2) set_all_law [OF ids ch k, of p] unfolding tl_inv_def by blast
qed

lemma Fold_law:
  assumes inv: "tl_inv m"
  shows "\<exists>ps. ThreadLocalPtr_Fold k func res m = Some (fold func ps res) \<and>
    mset ps = image_mset (\<lambda>t. the (tl_value m t k)) (mset_set {t. tl_value m t k \<noteq> None})"
proof -
  obtain ts where ch: "chain_inv m ts" using inv by (auto simp: tl_inv_def)
  have r: "dl (td_next m) (td_prev m) 0 ts 0" "distinct (0 # ts)" "set ts \<subseteq> dom (td_entries m)"
    using ch unfolding chain_inv_def by auto
  have "ThreadLocalPtr_Fold k func res m = Some (fold func (held m k ts) res)"
    using Fold_loop_law [OF r] dl_first [OF r(1)] by (simp add: ThreadLocalPtr_Fold_def Meta_Fold_def)
  then show ?thesis using mset_held [OF ch] by blast
qed

subsection \<open>Instances\<close>

lemma av_back_items:
  assumes v: "av_ok v" "items v \<noteq> []" and len: "length (items v) < 2 ^ 64"
  shows "av_back (\<lambda>_. Some v) a = Some (last (items v))"
proof -
  let ?n = "length (items v)"
  have "unat (of_nat ?n :: u64) = ?n" using len by (simp add: unat_of_nat)
  then have "unat (of_nat ?n - 1 :: u64) = ?n - 1" using v(2) by (simp add: unat_sub_le word_le_nat_alt Suc_leI)
  then show ?thesis using v
    by (simp add: av_back_def av_empty_def av_end_def it_minus_def it_deref_def av_nth_items last_conv_nth)
qed

lemma free_ids_length:
  assumes "ids_inv m"
  shows "length (items (free_instance_ids m)) < 2 ^ 64"
proof -
  let ?xs = "items (free_instance_ids m)"
  have "unat ` set ?xs \<subseteq> {..< 2 ^ 32}"
    using unsigned_less [where 'b = 32 and 'a = nat] by auto
  then have "card (unat ` set ?xs) \<le> 2 ^ 32" using card_mono [of "{..< 2 ^ 32}" "unat ` set ?xs"] by simp
  moreover have "card (unat ` set ?xs) = length ?xs"
    using assms by (simp add: ids_inv_def card_image inj_on_def word_unat_eq_iff distinct_card)
  ultimately show ?thesis by simp
qed

text \<open>An id is available as long as fewer than \<open>2 ^ 32 - 1\<close> were handed out or one was returned.\<close>

definition id_available :: "StaticMeta \<Rightarrow> bool" where
  "id_available m \<longleftrightarrow> items (free_instance_ids m) \<noteq> [] \<or> next_instance_id m \<noteq> - 1"

lemma GetId_law:
  assumes inv: "tl_inv m" and room: "id_available m"
  shows "\<exists>k m'. GetId m = Some (k, m') \<and> PeekId m = Some k \<and> tl_inv m' \<and> k \<notin> tl_live m \<and> tl_live m' = insert k (tl_live m) \<and>
    tl_value m' = tl_value m \<and> handler_map m' = handler_map m \<and> unref_calls m' = unref_calls m"
proof -
  obtain ts where ch: "chain_inv m ts" and ids: "ids_inv m" using inv by (auto simp: tl_inv_def)
  let ?v = "free_instance_ids m"
  have ok: "av_ok ?v" and dist: "distinct (items ?v)" and less: "\<forall>k \<in> set (items ?v). k < next_instance_id m"
    using ids by (simp_all add: ids_inv_def)
  have ch': "chain_inv m' ts" "tl_value m' = tl_value m" "entry m' = entry m" 
    if "td_entries m' = td_entries m" "tls m' = tls m" "td_next m' = td_next m" "td_prev m' = td_prev m" "pthread_key m' = pthread_key m" for m'
    using ch that tl_value_cong [of m' m] entry_cong [of m' m] by (simp_all add: chain_inv_def)
  show ?thesis
  proof (cases "items ?v = []")
    case True
    define m' where "m' = m\<lparr>next_instance_id := next_instance_id m + 1\<rparr>"
    have n: "next_instance_id m \<noteq> - 1" using room True by (simp add: id_available_def)
    then have suc: "unat (next_instance_id m + 1) = Suc (unat (next_instance_id m))" by (metis unatSuc add.commute add_eq_0_iff2)
    then have live: "tl_live m' = insert (next_instance_id m) (tl_live m)" "next_instance_id m \<notin> tl_live m"
      using True by (auto simp: tl_live_def m'_def word_less_nat_alt word_unat_eq_iff)
    have "GetHandler k m' = GetHandler k m" for k by (simp add: GetHandler_def m'_def)
    then have "ids_inv m'"
      using ids live suc True ch'(3) [of m'] by (auto simp: ids_inv_def m'_def le_SucI)
    then show ?thesis using True ok live ch'(1,2) [of m']
      by (auto simp: GetId_def PeekId_def av_empty_def tl_inv_def m'_def)
  next
    case False
    let ?k = "last (items ?v)"
    obtain v where v: "pop_back ?v = Some v" "av_ok v" "items v = butlast (items ?v)" using pop_back_items(2) [OF ok False] by blast
    define m' where "m' = m\<lparr>free_instance_ids := v\<rparr>"
    have set: "set (items ?v) = insert ?k (set (items v))" "?k \<notin> set (items v)"
      using dist False by (cases "items ?v" rule: rev_cases; auto simp: v(3))+
    have k: "?k \<notin> tl_live m" "tl_live m' = insert ?k (tl_live m)"
      using set less by (auto simp: tl_live_def m'_def)
    have "GetHandler k m' = GetHandler k m" for k by (simp add: GetHandler_def m'_def)
    moreover have "entry m' = entry m" by (simp add: entry_def m'_def fun_eq_iff)
    ultimately have "ids_inv m'" using ids k v(2,3) set less dist
      by (auto simp: ids_inv_def m'_def distinct_butlast dest: in_set_butlastD)
    moreover have "free_back m = Some ?k" unfolding free_back_def by (rule av_back_items [OF ok False free_ids_length [OF ids]])
    ultimately show ?thesis using k ok False v(1) ch'(1,2) [of m']
      by (auto simp: GetId_def PeekId_def av_empty_def tl_inv_def m'_def)
  qed
qed

lemma instance_init_law:
  assumes inv: "tl_inv m" and room: "id_available m"
  shows "\<exists>k m'. ThreadLocalPtr_init handler m = Some (k, m') \<and> tl_inv m' \<and> k \<notin> tl_live m \<and> tl_live m' = insert k (tl_live m) \<and>
    tl_value m' = tl_value m \<and> (\<forall>t. tl_value m' t k = None) \<and> GetHandler k m' = handler \<and>
    (\<forall>k'. k' \<noteq> k \<longrightarrow> GetHandler k' m' = GetHandler k' m) \<and> unref_calls m' = unref_calls m"
proof -
  obtain k m1 where g: "GetId m = Some (k, m1)" "tl_inv m1" "k \<notin> tl_live m" "tl_live m1 = insert k (tl_live m)"
    "tl_value m1 = tl_value m" "handler_map m1 = handler_map m" "unref_calls m1 = unref_calls m"
    using GetId_law [OF assms] by blast
  define m' where "m' = (if handler \<noteq> None then SetHandler k handler m1 else m1)"
  have nov: "GetHandler k m = None" "tl_value m t k = None" for t
    using inv g(3) by (auto simp: tl_inv_def ids_inv_def tl_value_def split: option.splits)
  have h: "GetHandler k' m' = (if k' = k then handler else GetHandler k' m)" for k'
    using g(6) nov(1) by (auto simp: m'_def SetHandler_def GetHandler_def)
  have same: "td_entries m' = td_entries m1" "tls m' = tls m1" "tl_live m' = tl_live m1"
    by (simp_all add: m'_def SetHandler_def tl_live_def)
  have "entry m' = entry m1" "tl_value m' = tl_value m1" using entry_cong tl_value_cong same by blast+
  moreover have "ids_inv m1" "\<exists>ts. chain_inv m1 ts" using g(2) by (simp_all add: tl_inv_def)
  moreover have "chain_inv m' = chain_inv m1" by (simp add: chain_inv_def fun_eq_iff m'_def SetHandler_def)
  moreover have "ids_inv m'"
  proof -
    have ids: "free_instance_ids m' = free_instance_ids m1" "next_instance_id m' = next_instance_id m1" by (simp_all add: m'_def SetHandler_def)
    have "GetHandler k' m' = None \<and> (\<forall>a. entry m' a k' = None)" if "k' \<notin> tl_live m1" for k'
      using that h g(4,6) \<open>ids_inv m1\<close> \<open>entry m' = entry m1\<close> by (auto simp: ids_inv_def GetHandler_def)
    then show ?thesis using \<open>ids_inv m1\<close> unfolding ids_inv_def ids same by blast
  qed
  ultimately have "tl_inv m'" "tl_value m' = tl_value m1" by (simp_all add: tl_inv_def)
  moreover have "ThreadLocalPtr_init handler m = Some (k, m')" using g(1) by (simp add: ThreadLocalPtr_init_def m'_def)
  moreover have "unref_calls m' = unref_calls m" using g(7) by (simp add: m'_def SetHandler_def)
  ultimately show ?thesis using g(3,4,5) h nov(2) same(3) by (intro exI [of _ k] exI [of _ m']) simp
qed

lemma instance_destroy_law:
  assumes inv: "tl_inv m" and k: "k \<in> tl_live m"
  shows "\<exists>m'. ThreadLocalPtr_destroy k m = Some m' \<and> tl_inv m' \<and> tl_live m' = tl_live m - {k} \<and>
    (\<forall>t k'. tl_value m' t k' = (if k' = k then None else tl_value m t k')) \<and>
    (\<forall>k'. GetHandler k' m' = (if k' = k then None else GetHandler k' m)) \<and>
    mset (unref_calls m') = mset (unref_calls m) + (case GetHandler k m of None \<Rightarrow> {#}
      | Some h \<Rightarrow> image_mset (\<lambda>t. (h, the (tl_value m t k))) (mset_set {t. tl_value m t k \<noteq> None}))"
proof -
  obtain ts where ch: "chain_inv m ts" and ids: "ids_inv m" using inv by (auto simp: tl_inv_def)
  have r: "dl (td_next m) (td_prev m) 0 ts 0" "distinct (0 # ts)" "set ts \<subseteq> dom (td_entries m)"
    using ch unfolding chain_inv_def by auto
  define m1 where "m1 = m\<lparr>td_entries := set_all k None ts (td_entries m)\<rparr>"
  note all = set_all_law [OF ids ch k, of None, folded m1_def]
  define m' where "m' = m\<lparr>td_entries := set_all k None ts (td_entries m),
    unref_calls := unref_calls m @ unref_all (GetHandler k m) (held m k ts),
    handler_map := (handler_map m)(k \<mapsto> None), free_instance_ids := push_back k (free_instance_ids m)\<rparr>"
  have run: "ThreadLocalPtr_destroy k m = Some m'"
    using Reclaim_loop_law [OF r] dl_first [OF r(1)] by (simp add: ThreadLocalPtr_destroy_def ReclaimId_def Let_def m'_def)
  have same: "td_entries m' = td_entries m1" "tls m' = tls m1" by (simp_all add: m'_def m1_def)
  have ent: "entry m' = entry m1" and val: "tl_value m' = tl_value m1" using entry_cong tl_value_cong same by blast+
  have free: "av_ok (free_instance_ids m')" "items (free_instance_ids m') = items (free_instance_ids m) @ [k]"
    using ids push_back_items by (auto simp: m'_def ids_inv_def)
  have live: "tl_live m' = tl_live m - {k}" using free(2) by (auto simp: tl_live_def) (simp_all add: m'_def)
  have h: "GetHandler k' m' = (if k' = k then None else GetHandler k' m)" for k' by (simp add: GetHandler_def m'_def)
  have null: "tl_value m' t k' = (if k' = k then None else tl_value m t k')" for t k'
    unfolding val all(3) using value_sized [of m t k] by (cases "tl_value m t k") auto
  have "entry m1 a k = None" for a
    by (auto simp: entry_def m1_def set_all_def nth_list_update split: option.splits)
       (metis (no_types, lifting) ch chain_inv_def domI less_nat_zero_code option.inject set_ConsD list.size(3))
  moreover have next_id: "next_instance_id m' = next_instance_id m" "tl_live m1 = tl_live m" "GetHandler k' m1 = GetHandler k' m" for k'
    by (simp_all add: m'_def m1_def tl_live_def GetHandler_def)
  moreover have "k < next_instance_id m" "k \<notin> set (items (free_instance_ids m))" using k by (simp_all add: tl_live_def)
  moreover have "length es \<le> unat (next_instance_id m)" if "td_entries m1 a = Some es" for a es
    using all(2) that by (simp add: ids_inv_def) (simp add: m1_def)
  ultimately have "ids_inv m'" using ids all(2) free unfolding ids_inv_def live h ent same by auto
  moreover have "chain_inv m' ts" using all(1) by (simp add: chain_inv_def m1_def m'_def)
  moreover have "mset (unref_calls m') = mset (unref_calls m) + (case GetHandler k m of None \<Rightarrow> {#}
      | Some h \<Rightarrow> image_mset (\<lambda>t. (h, the (tl_value m t k))) (mset_set {t. tl_value m t k \<noteq> None}))"
    using mset_held [OF ch, of k] by (auto simp: m'_def unref_all_def image_mset.compositionality o_def split: option.splits)
  ultimately show ?thesis using run live null h by (auto simp: tl_inv_def)
qed

subsection \<open>The end of a thread\<close>

definition exit_call :: "StaticMeta \<Rightarrow> nat \<times> void_ptr \<Rightarrow> (nat \<times> nat) option" where
  "exit_call m = (\<lambda>(i, e). case e of None \<Rightarrow> None | Some raw \<Rightarrow> map_option (\<lambda>h. (h, raw)) (GetHandler (of_nat i) m))"

lemma exit_loop_law:
  "exit_loop (of_nat n) es m =
     m\<lparr>unref_calls := unref_calls m @ List.map_filter (exit_call m) (zip [n..<n + length es] es)\<rparr>"
proof (induction es arbitrary: n m)
  case (Cons e es)
  define m1 where "m1 = (case e of None \<Rightarrow> m | Some raw \<Rightarrow> call_unref (GetHandler (of_nat n) m) raw m)"
  have m1: "m1 = m\<lparr>unref_calls := unref_calls m @ List.map_filter (exit_call m) [(n, e)]\<rparr>"
    by (auto simp: m1_def exit_call_def call_unref_def split: option.split)
  have "exit_call m1 = exit_call m" by (simp add: exit_call_def GetHandler_def m1 fun_eq_iff split: option.split)
  moreover have "exit_loop (of_nat n) (e # es) m = exit_loop (of_nat (Suc n)) es m1" by (simp add: m1_def Let_def add.commute)
  moreover have "[n..<n + length (e # es)] = n # [Suc n..<Suc n + length es]" by (simp add: upt_conv_Cons del: upt_Suc)
  ultimately show ?case using Cons.IH [of "Suc n" m1] by (simp add: m1 split: option.split)
qed simp

lemma mset_exit:
  assumes ids: "ids_inv m" and a: "tls m t = Some a" "td_entries m a = Some es"
  shows "mset (List.map_filter (exit_call m) (zip [0..<length es] es)) =
    image_mset (\<lambda>k. (the (GetHandler k m), the (tl_value m t k))) (mset_set {k. tl_value m t k \<noteq> None \<and> GetHandler k m \<noteq> None})"
proof -
  let ?z = "zip [0..<length es] es" and ?K = "{k. tl_value m t k \<noteq> None \<and> GetHandler k m \<noteq> None}"
  let ?f = "\<lambda>k. (unat k, tl_value m t k)"
  have val: "tl_value m t k = (if unat k < length es then es ! unat k else None)" for k
    using a by (simp add: tl_value_def entry_def)
  have len: "length es < 2 ^ 32"
  proof -
    have "unat (next_instance_id m) < 2 ^ LENGTH(32)" by (rule unsigned_less)
    moreover have "length es \<le> unat (next_instance_id m)" using ids a(2) by (simp add: ids_inv_def)
    ultimately show ?thesis by simp
  qed
  have inj: "inj_on ?f ?K" by (auto simp: inj_on_def word_unat_eq_iff)
  have img: "?f ` ?K = {x \<in> set ?z. exit_call m x \<noteq> None}"
  proof
    have "(i, es ! i) \<in> set ?z" if "i < length es" for i using that by (force simp: set_zip)
    then show "?f ` ?K \<subseteq> {x \<in> set ?z. exit_call m x \<noteq> None}"
      by (auto simp: val exit_call_def split: if_splits option.splits)
    show "{x \<in> set ?z. exit_call m x \<noteq> None} \<subseteq> ?f ` ?K"
    proof
      fix x assume "x \<in> {x \<in> set ?z. exit_call m x \<noteq> None}"
      then obtain i where i: "i < length es" "x = (i, es ! i)" "exit_call m x \<noteq> None" by (auto simp: set_zip)
      have u: "unat (of_nat i :: u32) = i" using i(1) len by (simp add: unat_of_nat)
      have "of_nat i \<in> ?K" "x = ?f (of_nat i)"
        using i u by (auto simp: val exit_call_def split: option.splits)
      then show "x \<in> ?f ` ?K" by blast
    qed
  qed
  have "mset (List.map_filter (exit_call m) ?z) = image_mset (\<lambda>x. the (exit_call m x)) (mset_set (?f ` ?K))"
    unfolding img by (rule mset_map_filter) (simp add: distinct_zipI1)
  also have "\<dots> = image_mset (\<lambda>x. the (exit_call m x)) (image_mset ?f (mset_set ?K))"
    unfolding image_mset_mset_set [OF inj] ..
  also have "\<dots> = image_mset (\<lambda>k. (the (GetHandler k m), the (tl_value m t k))) (mset_set ?K)"
    unfolding image_mset.compositionality
    by (rule image_mset_cong) (cases "finite ?K"; auto simp: exit_call_def)
  finally show ?thesis .
qed

lemma thread_exit_law:
  assumes inv: "tl_inv m"
  shows "\<exists>m'. thread_exit t m = Some m' \<and> tl_inv m' \<and> tl_live m' = tl_live m \<and>
    (\<forall>t' k. tl_value m' t' k = (if t' = t then None else tl_value m t' k)) \<and> handler_map m' = handler_map m \<and>
    mset (unref_calls m') = mset (unref_calls m) +
      image_mset (\<lambda>k. (the (GetHandler k m), the (tl_value m t k))) (mset_set {k. tl_value m t k \<noteq> None \<and> GetHandler k m \<noteq> None})"
proof -
  obtain ts where ch: "chain_inv m ts" and ids: "ids_inv m" using inv by (auto simp: tl_inv_def)
  have key: "pthread_key m = tls m" using ch by (simp add: chain_inv_def)
  show ?thesis
  proof (cases "tls m t")
    case None
    then have "thread_exit t m = Some m" using key fun_upd_triv [of "tls m" t] by (simp add: thread_exit_def)
    moreover have "tl_value m t k = None" for k using None by (simp add: tl_value_def)
    ultimately show ?thesis using inv by auto
  next
    case (Some a)
    obtain xs ys where ts: "ts = xs @ a # ys" using tls_in_chain(1) [OF ch Some] by (metis split_list)
    obtain es where es: "td_entries m a = Some es" using tls_allocated [OF inv Some] by auto
    let ?m = "m\<lparr>pthread_key := (pthread_key m)(t := None)\<rparr>"
    have r: "dl (td_next ?m) (td_prev ?m) 0 (xs @ a # ys) 0" "distinct (0 # xs @ a # ys)"
      using ch by (simp_all add: chain_inv_def ts)
    obtain N P where rm: "RemoveThreadData a ?m = Some (?m\<lparr>td_next := N, td_prev := P\<rparr>)"
      "dl (N(a := None)) (P(a := None)) 0 (xs @ ys) 0" "dom N = dom (td_next m)" "dom P = dom (td_prev m)"
      using RemoveThreadData_ring [OF r] by auto
    define m' where "m' = m\<lparr>pthread_key := (pthread_key m)(t := None), td_next := N(a := None), td_prev := P(a := None),
      td_entries := (td_entries m)(a := None), tls := (tls m)(t := None),
      unref_calls := unref_calls m @ List.map_filter (exit_call m) (zip [0..<length es] es)\<rparr>"
    have ec: "exit_call (m\<lparr>pthread_key := f, td_next := N, td_prev := P\<rparr>) = exit_call m" for f
      by (simp add: exit_call_def GetHandler_def fun_eq_iff split: option.split)
    have run: "thread_exit t m = Some m'"
      using rm(1) es exit_loop_law [of 0 es "?m\<lparr>td_next := N, td_prev := P\<rparr>"]
      by (simp add: thread_exit_def key Some OnThreadExit_def Let_def delete_ThreadData_def m'_def ec)
    have inj: "inj_on (tls m) (dom (tls m))" using ch by (simp add: chain_inv_def)
    have one: "t' = t" if "tls m t' = Some a" for t' by (rule inj_onD [OF inj]) (use Some that in auto)
    have ent: "entry m' b k = (if b = a then None else entry m b k)" for b k by (simp add: entry_def m'_def)
    have tls': "tls m' = (tls m)(t := None)" by (simp add: m'_def)
    have val: "tl_value m' t' k = (if t' = t then None else tl_value m t' k)" for t' k
      using one [of t'] tls' by (cases "tls m t'") (auto simp: tl_value_def ent)
    have "ran (tls m') = set (xs @ ys)"
    proof -
      have "b \<in> ran ((tls m)(t := None)) \<longleftrightarrow> b \<in> ran (tls m) \<and> b \<noteq> a" for b
      proof
        assume "b \<in> ran ((tls m)(t := None))"
        then obtain u where "u \<noteq> t" "tls m u = Some b" by (auto simp: ran_def split: if_splits)
        then show "b \<in> ran (tls m) \<and> b \<noteq> a" using one [of u] ranI by metis
      next
        assume b: "b \<in> ran (tls m) \<and> b \<noteq> a"
        then obtain u where u: "tls m u = Some b" by (auto simp: ran_def)
        with b Some have "((tls m)(t := None)) u = Some b" by auto
        then show "b \<in> ran ((tls m)(t := None))" by (rule ranI)
      qed
      then have "ran (tls m') = ran (tls m) - {a}" by (auto simp: m'_def)
      moreover have "ran (tls m) = set (xs @ a # ys)" using ch by (simp add: chain_inv_def ts)
      ultimately show ?thesis using r(2) by auto
    qed
    moreover have "inj_on (tls m') (dom (tls m'))" using inj by (auto simp: m'_def inj_on_def)
    moreover have "dom (N(a := None)) = set (0 # xs @ ys)" "dom (P(a := None)) = set (0 # xs @ ys)"
      "dom ((td_entries m)(a := None)) = set (0 # xs @ ys)"
    proof -
      have d: "dom N = set (0 # xs @ a # ys)" "dom P = set (0 # xs @ a # ys)" "dom (td_entries m) = set (0 # xs @ a # ys)"
        using rm(3,4) ch by (simp_all add: chain_inv_def ts)
      have "set (0 # xs @ a # ys) - {a} = set (0 # xs @ ys)" using r(2) by auto
      then show "dom (N(a := None)) = set (0 # xs @ ys)" "dom (P(a := None)) = set (0 # xs @ ys)"
        "dom ((td_entries m)(a := None)) = set (0 # xs @ ys)" by (simp_all only: dom_fun_upd d refl if_True)
    qed
    moreover have "td_entries m 0 = Some []" "a \<noteq> 0" "distinct (0 # xs @ ys)"
      using ch r(2) by (auto simp: chain_inv_def)
    ultimately have "chain_inv m' (xs @ ys)"
      using rm(2) unfolding chain_inv_def by (simp add: m'_def key)
    moreover have "tl_live m' = tl_live m" by (simp add: tl_live_def m'_def)
    moreover have "ids_inv m'" using ids \<open>tl_live m' = tl_live m\<close> unfolding ids_inv_def ent
      by (auto simp: GetHandler_def m'_def split: if_splits)
    moreover have "mset (unref_calls m') = mset (unref_calls m) + image_mset (\<lambda>k. (the (GetHandler k m), the (tl_value m t k)))
        (mset_set {k. tl_value m t k \<noteq> None \<and> GetHandler k m \<noteq> None})"
      using mset_exit [OF ids Some es] by (simp add: m'_def)
    moreover have "handler_map m' = handler_map m" by (simp add: m'_def)
    ultimately show ?thesis using run val by (auto simp: tl_inv_def)
  qed
qed

subsection \<open>Sequences of operations\<close>

text \<open>What the allocator and \<open>pthread_setspecific\<close> may do without an abort.\<close>

definition os_ok :: "nat \<times> int \<Rightarrow> StaticMeta \<Rightarrow> bool" where
  "os_ok os m \<longleftrightarrow> fst os \<notin> dom (td_entries m) \<and> snd os = 0"

text \<open>Threads use instances that exist.\<close>

inductive tl_step :: "StaticMeta \<Rightarrow> StaticMeta \<Rightarrow> bool" where
  construct: "id_available m \<Longrightarrow> ThreadLocalPtr_init handler m = Some (k, m') \<Longrightarrow> tl_step m m'"
| destroy: "k \<in> tl_live m \<Longrightarrow> ThreadLocalPtr_destroy k m = Some m' \<Longrightarrow> tl_step m m'"
| get: "os_ok os m \<Longrightarrow> k \<in> tl_live m \<Longrightarrow> ThreadLocalPtr_Get t os k m = Some (p, m') \<Longrightarrow> tl_step m m'"
| reset: "os_ok os m \<Longrightarrow> k \<in> tl_live m \<Longrightarrow> ThreadLocalPtr_Reset t os k p m = Some m' \<Longrightarrow> tl_step m m'"
| swap: "os_ok os m \<Longrightarrow> k \<in> tl_live m \<Longrightarrow> ThreadLocalPtr_Swap t os k p m = Some (q, m') \<Longrightarrow> tl_step m m'"
| cas: "os_ok os m \<Longrightarrow> k \<in> tl_live m \<Longrightarrow> ThreadLocalPtr_CompareAndSwap t os k p e m = Some (b, q, m') \<Longrightarrow> tl_step m m'"
| scrape: "k \<in> tl_live m \<Longrightarrow> av_ok ptrs \<Longrightarrow> ThreadLocalPtr_Scrape k ptrs p m = Some (ptrs', m') \<Longrightarrow> tl_step m m'"
| thread_end: "thread_exit t m = Some m' \<Longrightarrow> tl_step m m'"

lemma tl_step_inv: "tl_step m m' \<Longrightarrow> tl_inv m \<Longrightarrow> tl_inv m'"
proof (induction rule: tl_step.induct)
  case (construct m handler k m')
  then show ?case using instance_init_law [of m handler] by auto
next
  case (destroy k m m')
  then show ?case using instance_destroy_law [of m k] by auto
next
  case (get os m k t p m')
  then show ?case using Get_law [of m os t k] by (auto simp: os_ok_def)
next
  case (reset os m k t p m')
  then show ?case using Reset_law [of m os k t p] by (auto simp: os_ok_def)
next
  case (swap os m k t p q m')
  then show ?case using Swap_law [of m os k t p] by (auto simp: os_ok_def)
next
  case (cas os m k t p e b q m')
  then show ?case using CompareAndSwap_law [of m os k t p e] by (auto simp: os_ok_def)
next
  case (scrape k m ptrs p ptrs' m')
  then show ?case using Scrape_law [of m k ptrs p] by auto
next
  case (thread_end t m m')
  then show ?case using thread_exit_law [of m t] by auto
qed

interpretation tl: step_system "StaticMeta_init junk" tl_step tl_inv for junk
  by unfold_locales (auto intro: tl_init_inv tl_step_inv)

abbreviation tl_reachable :: "u32 list \<Rightarrow> StaticMeta \<Rightarrow> bool" where
  "tl_reachable junk \<equiv> tl_step\<^sup>*\<^sup>* (StaticMeta_init junk)"

subsection \<open>Properties\<close>

text \<open>
  C39. The instances are a table of pointers. In every state that can be reached, an operation of a
  thread \<open>t\<close> on an existing instance \<open>k\<close> returns: \<open>Get\<close> reads the entry of \<open>t\<close> and \<open>k\<close>; \<open>Reset\<close> sets
  it; \<open>Swap\<close> sets it and returns what was there; \<open>CompareAndSwap\<close> sets it if the expected pointer was
  there and reports what was there. Nothing else in the table changes, and no handler is called.
\<close>

theorem thread_local_table:
  assumes "tl_reachable junk m" and "os_ok os m" and "k \<in> tl_live m"
  shows "(\<exists>m'. ThreadLocalPtr_Get t os k m = Some (tl_value m t k, m') \<and> tl_value m' = tl_value m \<and> unref_calls m' = unref_calls m) \<and>
    (\<exists>m'. ThreadLocalPtr_Reset t os k p m = Some m' \<and>
      tl_value m' = (tl_value m)(t := (tl_value m t)(k := p)) \<and> unref_calls m' = unref_calls m) \<and>
    (\<exists>m'. ThreadLocalPtr_Swap t os k p m = Some (tl_value m t k, m') \<and>
      tl_value m' = (tl_value m)(t := (tl_value m t)(k := p)) \<and> unref_calls m' = unref_calls m) \<and>
    (\<exists>m'. ThreadLocalPtr_CompareAndSwap t os k p e m = Some (tl_value m t k = e, tl_value m t k, m') \<and>
      tl_value m' = (if tl_value m t k = e then (tl_value m)(t := (tl_value m t)(k := p)) else tl_value m) \<and>
      unref_calls m' = unref_calls m)"
proof -
  have inv: "tl_inv m" using tl.reachable_invariant [OF assms(1)] .
  have os: "fst os \<notin> dom (td_entries m)" "snd os = 0" using assms(2) by (simp_all add: os_ok_def)
  show ?thesis
    using Get_law [OF inv os, of t k] Reset_law [OF inv os assms(3), of t p] Swap_law [OF inv os assms(3), of t p]
      CompareAndSwap_law [OF inv os assms(3), of t p e]
    unfolding tl_frame_def by blast
qed

text \<open>One instance with the handler 3, and a thread 5 that has stored a pointer in it.\<close>

definition demo_tl :: StaticMeta where
  "demo_tl = snd (the (ThreadLocalPtr_init (Some 3) (StaticMeta_init [])))"

definition demo_stored :: StaticMeta where
  "demo_stored = the (ThreadLocalPtr_Reset 5 (1, 0) 0 (Some 9) demo_tl)"

lemma demo_tl_state:
  "tl_reachable [] demo_tl" "os_ok (1, 0) demo_tl" "0 \<in> tl_live demo_tl" "GetHandler 0 demo_tl = Some 3" "unref_calls demo_tl = []"
proof -
  have s: "ThreadLocalPtr_init (Some 3) (StaticMeta_init []) = Some (0, demo_tl)"
    by (simp add: demo_tl_def ThreadLocalPtr_init_def GetId_def StaticMeta_init_def av_empty_def av_size_def autovector_init_def)
  have d: "demo_tl = (StaticMeta_init [])\<lparr>next_instance_id := 1, handler_map := [0 \<mapsto> Some 3]\<rparr>"
    using s by (simp add: ThreadLocalPtr_init_def GetId_def StaticMeta_init_def av_empty_def av_size_def autovector_init_def SetHandler_def)
  have "id_available (StaticMeta_init [])" by (simp add: id_available_def StaticMeta_init_def)
  then show "tl_reachable [] demo_tl" using construct s by blast
  show "os_ok (1, 0) demo_tl" "0 \<in> tl_live demo_tl" "GetHandler 0 demo_tl = Some 3" "unref_calls demo_tl = []"
    by (simp_all add: d StaticMeta_init_def os_ok_def tl_live_def GetHandler_def av_init_items)
qed

lemma demo_stored_state:
  "ThreadLocalPtr_Reset 5 (1, 0) 0 (Some 9) demo_tl = Some demo_stored" "tl_reachable [] demo_stored" "0 \<in> tl_live demo_stored"
  "GetHandler 0 demo_stored = Some 3" "tl_value demo_stored = (tl_value demo_tl)(5 := (tl_value demo_tl 5)(0 := Some 9))"
  "unref_calls demo_stored = []"
proof -
  have inv: "tl_inv demo_tl" using tl.reachable_invariant demo_tl_state(1) .
  obtain m' where m': "ThreadLocalPtr_Reset 5 (1, 0) 0 (Some 9) demo_tl = Some m'"
    "tl_value m' = (tl_value demo_tl)(5 := (tl_value demo_tl 5)(0 := Some 9))" "tl_frame demo_tl m'"
    using Reset_law [OF inv, of "(1, 0)" 0 5 "Some 9"] demo_tl_state(2,3) by (auto simp: os_ok_def)
  then show st: "ThreadLocalPtr_Reset 5 (1, 0) 0 (Some 9) demo_tl = Some demo_stored"
    "tl_value demo_stored = (tl_value demo_tl)(5 := (tl_value demo_tl 5)(0 := Some 9))" by (simp_all add: demo_stored_def)
  have fr: "tl_frame demo_tl demo_stored" using m'(1,3) by (simp add: demo_stored_def)
  show "tl_reachable [] demo_stored"
    using demo_tl_state(1) reset [OF demo_tl_state(2,3) st(1)] by (rule rtranclp.rtrancl_into_rtrancl)
  show "0 \<in> tl_live demo_stored" "GetHandler 0 demo_stored = Some 3" "unref_calls demo_stored = []"
    using tl_frame_live [OF fr] demo_tl_state fr by (simp_all add: tl_frame_def)
qed

theorem thread_local_table_witness:
  "tl_reachable [] demo_tl \<and> os_ok (1, 0) demo_tl \<and> 0 \<in> tl_live demo_tl \<and>
    (\<exists>m'. ThreadLocalPtr_Reset 5 (1, 0) 0 (Some 9) demo_tl = Some m' \<and> tl_value m' 5 0 = Some 9)"
  using thread_local_table [OF demo_tl_state(1-3), of 5 "Some 9" None] demo_tl_state(1-3) by auto

text \<open>
  C40. Pointers are released once. In every state that can be reached, the destruction of an
  instance calls its handler once for every thread that has a pointer there and leaves the
  instance's column null; the end of a thread calls the handlers, where an instance has one, once
  for every pointer of the thread and leaves its row null; all other entries stay. A new
  instance, which may get the id of a destroyed one, is null in all threads.
\<close>

theorem thread_local_release:
  assumes "tl_reachable junk m"
  shows "(k \<in> tl_live m \<longrightarrow> (\<exists>m'. ThreadLocalPtr_destroy k m = Some m' \<and> tl_live m' = tl_live m - {k} \<and>
      (\<forall>t k'. tl_value m' t k' = (if k' = k then None else tl_value m t k')) \<and>
      mset (unref_calls m') = mset (unref_calls m) + (case GetHandler k m of None \<Rightarrow> {#}
        | Some h \<Rightarrow> image_mset (\<lambda>t. (h, the (tl_value m t k))) (mset_set {t. tl_value m t k \<noteq> None})))) \<and>
    (\<exists>m'. thread_exit t m = Some m' \<and> tl_live m' = tl_live m \<and>
      (\<forall>t' k. tl_value m' t' k = (if t' = t then None else tl_value m t' k)) \<and>
      mset (unref_calls m') = mset (unref_calls m) + image_mset (\<lambda>k. (the (GetHandler k m), the (tl_value m t k)))
        (mset_set {k. tl_value m t k \<noteq> None \<and> GetHandler k m \<noteq> None})) \<and>
    (id_available m \<longrightarrow> (\<exists>k m'. ThreadLocalPtr_init handler m = Some (k, m') \<and> k \<notin> tl_live m \<and> tl_live m' = insert k (tl_live m) \<and>
      (\<forall>t. tl_value m' t k = None) \<and> tl_value m' = tl_value m \<and> GetHandler k m' = handler))"
proof -
  have inv: "tl_inv m" using tl.reachable_invariant [OF assms] .
  show ?thesis using instance_destroy_law [OF inv, of k] thread_exit_law [OF inv, of t] instance_init_law [OF inv, of handler] by blast
qed

theorem thread_local_release_witness:
  "tl_reachable [] demo_stored \<and> (\<exists>m'. ThreadLocalPtr_destroy 0 demo_stored = Some m' \<and> mset (unref_calls m') = {#(3, 9)#})"
proof -
  have "tl_value demo_tl t 0 = None" for t
    by (simp add: tl_value_def demo_tl_def ThreadLocalPtr_init_def GetId_def StaticMeta_init_def av_empty_def av_size_def autovector_init_def SetHandler_def)
  then have "{t. tl_value demo_stored t 0 \<noteq> None} = {5}" "tl_value demo_stored 5 0 = Some 9"
    by (auto simp: demo_stored_state(5))
  then have calls: "image_mset (\<lambda>t. (3, the (tl_value demo_stored t 0))) (mset_set {t. tl_value demo_stored t 0 \<noteq> None}) = {#(3 :: nat, 9)#}"
    by (simp only:) simp
  obtain m' where "ThreadLocalPtr_destroy 0 demo_stored = Some m'" "mset (unref_calls m') = {#(3, 9)#}"
    using thread_local_release [OF demo_stored_state(2), of 0, THEN conjunct1, rule_format, OF demo_stored_state(3)]
    unfolding demo_stored_state(4,6) option.case calls by auto
  with demo_stored_state(2) show ?thesis by blast
qed

end
