(* ===== verification/Spec2Isabelle.thy ===== *)
theory Spec2Isabelle
  imports Loggers StringUtil ShardedCache RandomGen ThreadPool ThreadLocal
begin

text \<open>
  A verification development for rocksutil, the utility library taken out of RocksDB: a write-ahead
  log, buffered file writers over POSIX files, an LRU cache, a thread pool, thread-local pointers, an
  info log, checksums, encodings and small containers.

  \<^bold>\<open>The parts of the program and how they interact.\<close> A client appends records to a \<open>log::Writer\<close>, which cuts them into
  fragments with checksummed headers (\<open>crc32c\<close>, \<open>coding\<close>) and appends these to a \<open>WritableFileWriter\<close>; this
  collects bytes in an \<open>AlignedBuffer\<close> and hands them to a \<open>WritableFile\<close>, implemented by the classes of
  \<open>io_posix\<close> over system calls. A \<open>log::Reader\<close> reads the fragments back through a \<open>SequentialFile\<close>. \<open>PosixEnv\<close>
  opens the files, keeps names, directories and locks; \<open>AutoRollLogger\<close> uses it to write and rename info
  logs. Beside these stand the sharded LRU cache over a hash table and an intrusive ring, the thread pool, the
  table of thread-local pointers, and \<open>Slice\<close>, \<open>Status\<close>, \<open>hash\<close>, \<open>random\<close>, \<open>autovector\<close>, \<open>string_util\<close>.

  \<^bold>\<open>Theories and sources.\<close>
  \<^item> \<open>Prelude\<close>: types (bytes and machine words), generic lemmas.
  \<^item> \<open>Slice\<close> (\<open>slice.h\<close>), \<open>Coding\<close> (\<open>coding.h\<close>, \<open>coding.cc\<close>), \<open>Status\<close> (\<open>status.h\<close>, \<open>status.cc\<close>, \<open>status_message.cc\<close>),
    \<open>Crc32c\<close> (\<open>crc32c.cc\<close>), \<open>KeyHash\<close> (\<open>hash.cc\<close>), \<open>RandomGen\<close> (\<open>random.h\<close>), \<open>StringUtil\<close> (\<open>string_util.cc\<close>),
    \<open>Autovector\<close> (\<open>autovector.h\<close>): one definition per function, on byte lists and words of the source's width.
  \<^item> \<open>Files\<close> (interfaces of \<open>env.h\<close>): function tables, defaults of \<open>WritableFile\<close>, and the contracts as locales.
    \<open>AlignedBuffer\<close>, \<open>FileWriter\<close> (\<open>file_reader_writer.cc\<close>), \<open>LogWriter\<close> (\<open>log_writer.cc\<close>) and \<open>LogReader\<close>
    (\<open>log_reader.cc\<close>) are proved against these contracts.
  \<^item> \<open>PosixFile\<close>, \<open>RandomAccess\<close>, \<open>DirectIO\<close>, \<open>MmapFile\<close> (\<open>io_posix.cc\<close>, \<open>io_posix.h\<close> and the read-ahead file of
    \<open>file_reader_writer.cc\<close>): the file classes over a kernel record with the bytes of the file, its offset, \<open>errno\<close> and a
    script of the outcomes of the coming calls (complete, short, failing with an error number). The contracts of
    \<open>Files\<close> are interpreted on them.
  \<^item> \<open>PosixEnv\<close> (\<open>env_posix.cc\<close>, \<open>env.cc\<close>) over a file system of names, inodes and locks; \<open>Loggers\<close> (\<open>env.cc\<close>,
    \<open>posix_logger.h\<close>, \<open>auto_roll_logger.cc\<close>) on top of it.
  \<^item> \<open>LruTable\<close>, \<open>LruCache\<close> (\<open>lru_cache.cc\<close>): handles in a heap, the hash table with its chains, the shard's
    operations. \<open>DoublyLinked\<close>, \<open>LruInvariant\<close>, \<open>LruInsert\<close>, \<open>LruContents\<close>, \<open>LruClient\<close>, \<open>LruProps\<close>: its invariant, the
    abstract contents and the properties. \<open>ShardedCache\<close> (\<open>sharded_cache.cc\<close>): the shards composed.
  \<^item> \<open>ThreadPool\<close> (\<open>threadpool_imp.cc\<close>), \<open>ThreadLocal\<close> (\<open>thread_local.cc\<close>): step relations over the threads.
  \<^item> this theory: the write-ahead log from the writer through the file to the reader.

  \<^bold>\<open>State and errors.\<close> Objects are records that operations take and return; pointers into shared structures (cache
  entries, thread data) are addresses of an explicit heap. A \<open>Status\<close> is returned as in the code. \<open>None\<close> stands for a
  failed assertion, an access outside of memory or a call that does not return; a theorem that an operation returns
  therefore also says that no assertion fails.

  \<^bold>\<open>What is shown.\<close>
  \<^item> Log: what was added is read back, on plain and on mapped files; a log cut off anywhere yields exactly
    its complete records; \<open>AddRecord\<close> always returns, after failed calls as well; \<open>ReadRecord\<close> returns on any bytes in
    all modes but one, in which it can loop, as long as the retries of interrupted reads end; when they do not, it does not
    return in any mode.
  \<^item> Writers and files: on success the file and the buffer hold exactly what was appended, whatever calls are
    short or interrupted; after \<open>Sync\<close> everything is in the file; reads return the bytes at their offset, read-ahead does not
    change what a client sees while no call fails, and where this breaks after errors or at the end of the file. The
    writer's direct-I/O path is proved against the contract of a positioned file (\<open>writer_Append_direct\<close>); the environment cannot
    reach it, as the constructor of \<open>PosixDirectIOWritableFile\<close> fails an assertion (\<open>direct_writes_assert\<close>).
  \<^item> Environment: a string written to a file comes back and nothing else changes; what file locks
    guarantee in one process and how they are lost; a rolling info log loses and overwrites nothing,
    and an info log has one line with the name of its level for every message that is not below the level of the logger.
  \<^item> Cache: every operation a client may call returns, the books (usage, reference counts) are right, and the
    operations act on an abstract list of entries; sharding keeps this key by key and splits the capacity evenly.
  \<^item> Threads: no wake-up is lost, items run in order, joining ends; the thread-local table refines a map by thread and
    instance, and destructors run once.
  \<^item> Encodings: varints, checksums and the optimised routines against their mathematical definitions.

  \<^bold>\<open>Bounds.\<close> Loops are total functions where they end on every input, and partial functions with value \<open>None\<close> for not
  returning where they may not; termination is then a theorem. No fuel is used. Sizes and offsets of files are
  below $2^{63}$, as \<open>off_t\<close> demands; the cache theorems assume $3 (n + 1) \le 2^{32}$ for $n$ entries, as the table's length is a
  32-bit number, sums of charges below $2^{64}$ and reference counts below $2^{32}$; thread limits are below
  $2^{31}$ and ids of thread-local instances below $2^{32} - 1$; a rolling log needs fewer than $2^{64}$ names in the file system.

  \<^bold>\<open>Not modelled.\<close> The wrappers of pthread mutexes and conditions (a section under a mutex is one step); \<open>EnvWrapper\<close> and
  \<open>WritableFileWrapper\<close>, which pass calls on; functions of \<open>PosixEnv\<close> that only ask the system (clock, host name, modification
  times) or pass on to the thread pools; \<open>Random64\<close>, which is \<open>std::mt19937_64\<close>; what \<open>vsnprintf\<close> prints, a parameter of the
  info log; version headers and examples. Timing, caching in the operating system and power failures are outside of
  the model of the kernel, except that a crash may cut a log off after any byte.
\<close>

section \<open>The write-ahead log, end to end\<close>

text \<open>The constructor of a writer on a POSIX file; its assertions never fail (\<open>posix_writer_created\<close>).\<close>

abbreviation posix_writer :: "PosixWritableFile \<Rightarrow> nat \<Rightarrow> nat \<Rightarrow> PosixWritableFile WritableFileWriter option" where
  "posix_writer \<equiv> WritableFileWriter_init PosixWritableFile_vt"

lemma posix_writer_created:
  assumes "pw_ok f"
  obtains d where "posix_writer f max_buffer bytes_per_sync = Some d" "buffered_inv pw_ok d"
    "buffered_contents pw_appended d = pw_appended f" "flushed_to pw_appended (buffered_contents pw_appended) d"
  using posix_writer_init [OF assms] by metis

text \<open>The bytes of the file a log writer writes to.\<close>

definition log_bytes :: "PosixWritableFile LogWriter \<Rightarrow> bytes" where
  "log_bytes w = pw_appended (the (w_file (lw_dest w)))"

text \<open>A reader starts at the end of an imaginary block, the writer at the start of a block.\<close>

lemma block_padding_start: "block_padding recycle kBlockSize = block_padding recycle 0"
  by (simp add: block_padding_def log_constants)

lemma record_image_start: "record_image recycle log_no b kBlockSize p = record_image recycle log_no b 0 p"
proof -
  have start: "block_start recycle kBlockSize = block_start recycle 0"
    by (auto simp: block_start_def log_constants)
  then have "fragment_room recycle kBlockSize = fragment_room recycle 0"
    by (simp add: fragment_room_def)
  with start show ?thesis by (subst (1 2) record_image.simps) (simp add: block_padding_start)
qed

lemma log_image_start:
  "fst (log_image recycle log_no kBlockSize ps) = fst (log_image recycle log_no 0 ps)"
  "complete_records recycle log_no kBlockSize m ps = complete_records recycle log_no 0 m ps"
  "cut_inside recycle log_no kBlockSize m ps = cut_inside recycle log_no 0 m ps"
  by (cases ps; simp add: record_image_start block_padding_start split: prod.splits)+

lemma posix_log_written:
  assumes "pw_ok f" and "pw_appended f = []"
    and "posix_writer f mb bps = Some d"
    and "AddRecords PosixWritableFile_vt ps (LogWriter_init d log_no recycle) = Some (s, w)"
    and "Status_ok s"
  shows "log_bytes w = fst (log_image recycle log_no 0 ps)"
  using posix_append.log_written [OF assms(1) posix_buffered_vt assms(2,3), of ps log_no recycle] assms(4,5)
  by (auto simp: log_bytes_def)

lemma reader_start:
  assumes "seq_clean g" and "seq_rest g = rest"
  shows "reader_at seq_rest seq_clean log_no kBlockSize rest (LogReader_init g rep checksum 0 log_no)"
  using assms by (simp add: reader_at_def LogReader_init_def)

lemma read_from_start:
  assumes "seq_clean g" and "seq_rest g = take m (fst (log_image recycle log_no 0 ps))"
    and "readable_number recycle log_no"
  shows "\<exists>r1 scr r2. ReadRecords PosixSequentialFile_vt mode (complete_records recycle log_no 0 m ps)
             (LogReader_init g (Some []) checksum 0 log_no) = Some (take (complete_records recycle log_no 0 m ps) ps, r1) \<and>
           ReadRecord PosixSequentialFile_vt mode [] [] r1 = Some (False, [], scr, r2) \<and>
           (mode \<noteq> kAbsoluteConsistency \<or> length (fst (log_image recycle log_no 0 ps)) \<le> m \<longrightarrow>
              r_reporter r2 = Some []) \<and>
           (mode = kAbsoluteConsistency \<and> cut_inside recycle log_no 0 m ps \<longrightarrow>
              (\<exists>calls. calls \<noteq> [] \<and> r_reporter r2 = Some calls))"
proof -
  let ?r = "LogReader_init g (Some []) checksum 0 log_no"
  have "reader_at seq_rest seq_clean log_no kBlockSize (take m (fst (log_image recycle log_no kBlockSize ps))) ?r"
    using reader_start [OF assms(1,2)] by (simp add: log_image_start)
  moreover have "r_reporter ?r = Some []" by (simp add: LogReader_init_def)
  ultimately show ?thesis
    using posix_seq.read_log [of log_no kBlockSize m recycle ps ?r mode] assms(3)
    by (simp add: log_image_start reported_def) blast
qed

lemma AddRecords_clean:
  assumes "pw_clean f"
  obtains d s w where "posix_writer f mb bps = Some d"
    "AddRecords PosixWritableFile_vt ps (LogWriter_init d log_no recycle) = Some (s, w)" "Status_ok s"
proof -
  from posix_clean.writer_init [OF assms posix_buffered_vt, of mb bps] obtain d where
    d: "posix_writer f mb bps = Some d" "buffered_inv pw_clean d" "flushed_to pw_appended (buffered_contents pw_appended) d"
    by metis
  let ?w = "LogWriter_init d log_no recycle"
  have "log_inv (buffered_inv pw_clean) ?w" by (rule log_inv_init) (rule d(2))
  moreover have "flushed_to pw_appended (buffered_contents pw_appended) (lw_dest ?w)"
    using d(3) by (simp add: LogWriter_init_def)
  ultimately show thesis using posix_clean.buffered.AddRecords_law [of ?w ps] that [OF d(1)] by auto
qed

text \<open>A newly opened, empty file, and a stream at the start of given bytes.\<close>

definition fresh_kernel :: "bytes \<Rightarrow> kernel" where
  "fresh_kernel d = \<lparr>k_data = d, k_pos = 0, k_open = True, k_append = False, k_errno = 0,
     k_script = [], k_strerror = \<lambda>_. []\<rparr>"

abbreviation fresh_file :: PosixWritableFile where
  "fresh_file \<equiv> PosixWritableFile_init [] (fresh_kernel []) True True"

abbreviation stream_of :: "bytes \<Rightarrow> PosixSequentialFile" where
  "stream_of d \<equiv> PosixSequentialFile_init [] (fresh_kernel d) [] True"

lemma fresh_file: "pw_clean fresh_file" "pw_ok fresh_file" "pw_appended fresh_file = []"
  by (simp_all add: pw_clean_def pw_ok_def kernel_ok_def pw_appended_def appended_def
      PosixWritableFile_init_def fresh_kernel_def)

lemma stream_of: "seq_clean (stream_of d)" "seq_ok (stream_of d)" "seq_rest (stream_of d) = d"
  by (simp_all add: seq_clean_def seq_ok_def seq_rest_def PosixSequentialFile_init_def fresh_kernel_def)

text \<open>
  C1. What was logged is what is read. Let records be added to a fresh log through
  \<open>log::Writer\<close>, \<open>WritableFileWriter\<close> and \<open>PosixWritableFile\<close>, with whatever short writes,
  interrupted calls and retries the system produces, and let every \<open>AddRecord\<close> report
  success. Then a \<open>log::Reader\<close> on the bytes of the file, in every recovery mode, with or
  without checksum verification, returns exactly these records in this order and then
  reports the end, and no corruption is ever reported. (For a recycled log the number must
  fit the 32 bits that are stored.)
\<close>

theorem wal_roundtrip:
  assumes "pw_ok f" and "pw_appended f = []"
    and "posix_writer f max_buffer bytes_per_sync = Some d"
    and "AddRecords PosixWritableFile_vt ps (LogWriter_init d log_no recycle) = Some (s, w)" and "Status_ok s"
    and "readable_number recycle log_no" and "seq_clean g" and "seq_rest g = log_bytes w"
  shows "\<exists>r1 scr r2. ReadRecords PosixSequentialFile_vt mode (length ps) (LogReader_init g (Some []) checksum 0 log_no)
             = Some (ps, r1) \<and>
           ReadRecord PosixSequentialFile_vt mode [] [] r1 = Some (False, [], scr, r2) \<and> r_reporter r2 = Some []"
proof -
  let ?img = "fst (log_image recycle log_no 0 ps)"
  have "seq_rest g = take (length ?img) ?img"
    using posix_log_written [OF assms(1-5)] assms(8) by simp
  from read_from_start [OF assms(7) this assms(6), of mode checksum] show ?thesis
    by (simp add: complete_records_all) blast
qed

theorem wal_roundtrip_witness:
  "\<exists>d w r1. posix_writer fresh_file 65536 0 = Some d \<and> AddRecords PosixWritableFile_vt [[1, 2, 3], []] (LogWriter_init d 7 True) = Some w \<and>
          ReadRecords PosixSequentialFile_vt kTolerateCorruptedTailRecords 2
            (LogReader_init (stream_of (log_bytes (snd w))) (Some []) True 0 7) = Some ([[1, 2, 3], []], r1)"
proof -
  obtain d s w where w: "posix_writer fresh_file 65536 0 = Some d"
      "AddRecords PosixWritableFile_vt [[1, 2, 3], []] (LogWriter_init d 7 True) = Some (s, w)" "Status_ok s"
    using AddRecords_clean [OF fresh_file(1)] by metis
  have "readable_number True 7" by (simp add: readable_number_def)
  from wal_roundtrip [OF fresh_file(2,3) w this stream_of(1,3)] w show ?thesis
    by (fastforce simp: numeral_2_eq_2)
qed

text \<open>
  C2. A log that ends anywhere. Let the file be cut off after any number \<open>m\<close> of bytes, as
  when the writing process died. The reader then returns exactly the records that are
  complete in those bytes, in order, and after them the end; outside the mode for absolute
  consistency it reports no corruption.
\<close>

theorem wal_crash_prefix:
  assumes "pw_ok f" and "pw_appended f = []"
    and "posix_writer f max_buffer bytes_per_sync = Some d"
    and "AddRecords PosixWritableFile_vt ps (LogWriter_init d log_no recycle) = Some (s, w)" and "Status_ok s"
    and "readable_number recycle log_no" and "seq_clean g" and "seq_rest g = take m (log_bytes w)"
    and "mode \<noteq> kAbsoluteConsistency"
  shows "\<exists>r1 scr r2. ReadRecords PosixSequentialFile_vt mode (complete_records recycle log_no 0 m ps)
               (LogReader_init g (Some []) checksum 0 log_no)
             = Some (take (complete_records recycle log_no 0 m ps) ps, r1) \<and>
           ReadRecord PosixSequentialFile_vt mode [] [] r1 = Some (False, [], scr, r2) \<and> r_reporter r2 = Some []"
proof -
  have "seq_rest g = take m (fst (log_image recycle log_no 0 ps))"
    using posix_log_written [OF assms(1-5)] assms(8) by simp
  from read_from_start [OF assms(7) this assms(6), of mode checksum] assms(9) show ?thesis by blast
qed

theorem wal_crash_prefix_witness:
  "\<exists>d w r1. posix_writer fresh_file 65536 0 = Some d \<and> AddRecords PosixWritableFile_vt [[1, 2, 3], [4]] (LogWriter_init d 0 False) = Some w \<and>
          ReadRecords PosixSequentialFile_vt kPointInTimeRecovery 1
            (LogReader_init (stream_of (take 12 (log_bytes (snd w)))) (Some []) True 0 0) = Some ([[1, 2, 3]], r1)"
proof -
  obtain d s w where w: "posix_writer fresh_file 65536 0 = Some d"
      "AddRecords PosixWritableFile_vt [[1, 2, 3], [4]] (LogWriter_init d 0 False) = Some (s, w)" "Status_ok s"
    using AddRecords_clean [OF fresh_file(1)] by metis
  have k: "complete_records False 0 0 12 [[1, 2, 3], [4]] = 1"
    by (simp add: record_image.simps fragment_room_def block_start_def block_padding_def log_constants
        length_physical_record fragment_type_def Let_def)
  have num: "readable_number False 0" by (simp add: readable_number_def)
  from wal_crash_prefix [OF fresh_file(2,3) w num stream_of(1,3), where m = 12 and mode = kPointInTimeRecovery
      and checksum = True] w k show ?thesis
    by fastforce
qed

text \<open>
  C4. Under absolute consistency a torn log does not pass unnoticed: when the file ends
  inside the bytes of a record, the reader, after the complete records, reports a corruption
  before it reports the end.
\<close>

theorem wal_absolute_detects:
  assumes "pw_ok f" and "pw_appended f = []"
    and "posix_writer f max_buffer bytes_per_sync = Some d"
    and "AddRecords PosixWritableFile_vt ps (LogWriter_init d log_no recycle) = Some (s, w)" and "Status_ok s"
    and "readable_number recycle log_no" and "seq_clean g" and "seq_rest g = take m (log_bytes w)"
    and "cut_inside recycle log_no 0 m ps"
  shows "\<exists>r1 scr r2 calls. ReadRecords PosixSequentialFile_vt kAbsoluteConsistency (complete_records recycle log_no 0 m ps)
               (LogReader_init g (Some []) checksum 0 log_no)
             = Some (take (complete_records recycle log_no 0 m ps) ps, r1) \<and>
           ReadRecord PosixSequentialFile_vt kAbsoluteConsistency [] [] r1 = Some (False, [], scr, r2) \<and>
           r_reporter r2 = Some calls \<and> calls \<noteq> []"
proof -
  have "seq_rest g = take m (fst (log_image recycle log_no 0 ps))"
    using posix_log_written [OF assms(1-5)] assms(8) by simp
  from read_from_start [OF assms(7) this assms(6), of kAbsoluteConsistency checksum] assms(9) show ?thesis
    by blast
qed

theorem wal_absolute_detects_witness:
  "\<exists>d w r1 scr r2 calls. posix_writer fresh_file 65536 0 = Some d \<and>
          AddRecords PosixWritableFile_vt [[1, 2, 3]] (LogWriter_init d 0 False) = Some w \<and>
          ReadRecords PosixSequentialFile_vt kAbsoluteConsistency 0
            (LogReader_init (stream_of (take 9 (log_bytes (snd w)))) (Some []) True 0 0) = Some ([], r1) \<and>
          ReadRecord PosixSequentialFile_vt kAbsoluteConsistency [] [] r1 = Some (False, [], scr, r2) \<and>
          r_reporter r2 = Some calls \<and> calls \<noteq> []"
proof -
  obtain d s w where w: "posix_writer fresh_file 65536 0 = Some d"
      "AddRecords PosixWritableFile_vt [[1, 2, 3]] (LogWriter_init d 0 False) = Some (s, w)" "Status_ok s"
    using AddRecords_clean [OF fresh_file(1)] by metis
  have k: "complete_records False 0 0 9 [[1, 2, 3]] = 0" "cut_inside False 0 0 9 [[1, 2, 3]]"
    by (simp_all add: record_image.simps fragment_room_def block_start_def block_padding_def log_constants
        length_physical_record fragment_type_def Let_def)
  have num: "readable_number False 0" by (simp add: readable_number_def)
  from wal_absolute_detects [OF fresh_file(2,3) w num stream_of(1,3) k(2), where checksum = True] w k(1)
  show ?thesis by fastforce
qed



text \<open>
  Logging makes progress: when no system call fails, adding any sequence of records of
  any size to a fresh log succeeds.
\<close>

lemma AddRecords_succeeds:
  assumes "pw_clean f"
  shows "\<exists>d s w. posix_writer f max_buffer bytes_per_sync = Some d \<and>
           AddRecords PosixWritableFile_vt ps (LogWriter_init d log_no recycle) = Some (s, w) \<and> Status_ok s"
  by (rule AddRecords_clean [OF assms]) blast

text \<open>
  C5. \<open>AddRecord\<close> always returns, in every well-formed state of the writer, also after calls
  that failed: whatever outcomes the script of system calls holds, none of its assertions
  fails, no loop runs forever, and the writer is well formed again whether the call succeeded
  or not. When it reports success everything it accepted is in the file, and the block
  offset is the one behind the record; if moreover everything accepted before the call was in
  the file (as it is in a fresh log and after every successful call), the file holds what it
  held before followed by exactly the image of the record, padding included.
\<close>

theorem AddRecord_total:
  assumes "log_inv (buffered_inv pw_ok) w"
  shows "\<exists>s w'. AddRecord PosixWritableFile_vt data w = Some (s, w') \<and> log_inv (buffered_inv pw_ok) w' \<and>
           (Status_ok s \<longrightarrow>
              flushed_to pw_appended (buffered_contents pw_appended) (lw_dest w') \<and>
              lw_block_offset w' =
                snd (record_image (lw_recycle_log_files w) (lw_log_number w) True (lw_block_offset w) data) \<and>
              (flushed_to pw_appended (buffered_contents pw_appended) (lw_dest w) \<longrightarrow>
                 log_bytes w' = log_bytes w @
                   fst (record_image (lw_recycle_log_files w) (lw_log_number w) True (lw_block_offset w) data)))"
proof -
  have empty: "buffered_contents pw_appended d = pw_appended (the (w_file d))"
    if "flushed_to pw_appended (buffered_contents pw_appended) d" for d
    using flushed_empty [OF that] by (simp add: buffered_contents_def)
  from posix_append.buffered.AddRecord_loop_law [OF assms refl refl refl, of data True] empty
  show ?thesis unfolding AddRecord_def log_bytes_def by fastforce
qed

theorem AddRecord_total_witness:
  "\<exists>d s w'. posix_writer fresh_file 65536 0 = Some d \<and>
     AddRecord PosixWritableFile_vt [1, 2, 3] (LogWriter_init d 1 True) = Some (s, w')"
proof -
  obtain d where d: "posix_writer fresh_file 65536 0 = Some d" "buffered_inv pw_ok d"
    using posix_writer_created [OF fresh_file(2)] by metis
  have "log_inv (buffered_inv pw_ok) (LogWriter_init d 1 True)" by (rule log_inv_init) (rule d(2))
  from AddRecord_total [OF this, of "[1, 2, 3]"] d(1) show ?thesis by blast
qed

text \<open>States of a reader in which the reads of its stream return.\<close>

definition reader_returns :: "PosixSequentialFile LogReader \<Rightarrow> bool" where
  "reader_returns r \<longleftrightarrow> r_eof r \<or> r_read_error r \<or> seq_ok (r_file r) \<or>
     (r_initial_offset r = 0 \<and> length (seq_rest (r_file r)) mod kBlockSize \<noteq> 0)"

text \<open>
  C6. \<open>ReadRecord\<close> returns, on any bytes whatsoever (a torn, overwritten or foreign file) and
  with any device errors, in every mode but the salvage mode, when the reader has seen the
  end of the file or an error; or no read of the stream is interrupted (\<open>EINTR\<close>), from
  any initial offset; or, with any interruptions, the log is read from its start and does not end at
  the end of a block, so that the retries of \<open>PosixSequentialFile::Read\<close> end. The reader is
  then in such a state again, so that the next call returns too.
\<close>

theorem ReadRecord_terminates:
  assumes "mode \<noteq> kSkipAnyCorruptedRecords" and "reader_returns r"
  shows "\<exists>found record scratch' r'. ReadRecord PosixSequentialFile_vt mode record0 scratch r
           = Some (found, record, scratch', r') \<and> reader_returns r'"
proof (cases "r_initial_offset r = 0")
  case True
  then have "reads_on seq_in_blocks r" using assms(2) by (auto simp: reader_returns_def reads_on_def seq_in_blocks_def)
  moreover have "\<not> r_last_record_offset r < r_initial_offset r" using True by simp
  ultimately obtain b rec scr r' where
    "ReadRecord PosixSequentialFile_vt mode record0 scratch r = Some (b, rec, scr, r')" "reads_on seq_in_blocks r'"
    using posix_log_stream.ReadRecord_returns [OF assms(1), of r] by metis
  moreover have "r_initial_offset r' = 0" using ReadRecord_initial_offset [OF calculation(1)] True by simp
  ultimately show ?thesis by (auto simp: reader_returns_def reads_on_def seq_in_blocks_def)
next
  case False
  with assms(2) have "reads_on seq_ok r" by (auto simp: reader_returns_def reads_on_def)
  from posix_stream.in_log_blocks.ReadRecord_returns [OF assms(1) this posix_stream.SkipToInitialBlock_sound [OF this]]
  show ?thesis by (fastforce simp: reader_returns_def reads_on_def)
qed

theorem ReadRecord_terminates_witness:
  "\<exists>found record scratch' r'. ReadRecord PosixSequentialFile_vt kPointInTimeRecovery [] []
     (LogReader_init (PosixSequentialFile_init [] (fresh_kernel (replicate 100 9)) [FreadFail 0 EINTR] True) None True 0 3)
       = Some (found, record, scratch', r')"
proof -
  have "reader_returns (LogReader_init
      (PosixSequentialFile_init [] (fresh_kernel (replicate 100 9)) [FreadFail 0 EINTR] True) None True 0 3)"
    by (simp add: reader_returns_def LogReader_init_def PosixSequentialFile_init_def fresh_kernel_def seq_rest_def kBlockSize_def)
  from ReadRecord_terminates [OF _ this, of kPointInTimeRecovery] show ?thesis by blast
qed



text \<open>
  C7. In the salvage mode \<open>kSkipAnyCorruptedRecords\<close> the reader does not return once it has
  a record of another log (a stale record of a recycled file) at the front of its buffer:
  the record is skipped without being consumed, over and over.
\<close>

theorem ReadRecord_salvage_diverges:
  assumes "old_record_front r" and "r_initial_offset r \<le> r_last_record_offset r"
  shows "ReadRecord svt kSkipAnyCorruptedRecords record0 scratch r = None"
proof (cases "ReadRecord svt kSkipAnyCorruptedRecords record0 scratch r")
  case (Some y)
  then have "ReadRecord_loop svt kSkipAnyCorruptedRecords [] False 0 [] r = Some y"
    using assms(2) by (simp add: ReadRecord_def not_less [symmetric])
  with salvage_loop_diverges [OF this refl] assms(1) show ?thesis by simp
qed

theorem ReadRecord_salvage_diverges_witness:
  "ReadRecord PosixSequentialFile_vt kSkipAnyCorruptedRecords [] []
     ((LogReader_init (stream_of []) None True 0 3)\<lparr>r_buffer := [0, 0, 0, 0, 0, 0, 5, 1, 0, 0, 0]\<rparr>) = None"
  by (rule ReadRecord_salvage_diverges)
     (simp_all add: old_record_front_def LogReader_init_def header_recyclable_def header_type_def
        type_code_def log_constants DecodeFixed32_eq)

text \<open>
  Log numbers of recycled logs beyond 32 bits: the writer stores the low 32 bits, the
  reader compares them with all 64 bits of its own number, so a log written under such a
  number reads as empty, however many records it holds, and without any report.
\<close>

lemma big_log_number_unreadable:
  assumes "pw_ok f" and "pw_appended f = []"
    and "posix_writer f max_buffer bytes_per_sync = Some d"
    and "AddRecords PosixWritableFile_vt (p # ps) (LogWriter_init d log_no True) = Some (s, w)" and "Status_ok s"
    and "\<not> log_no < 2 ^ 32" and "seq_clean g" and "seq_rest g = log_bytes w"
  shows "\<exists>r'. ReadRecord PosixSequentialFile_vt kTolerateCorruptedTailRecords [] []
            (LogReader_init g (Some []) checksum 0 log_no) = Some (False, [], [], r') \<and> r_reporter r' = Some []"
proof -
  obtain img bo where img: "record_image True log_no True 0 p = (img, bo)" by fastforce
  then have "seq_rest g = fst (record_image True log_no True 0 p) @ fst (log_image True log_no bo ps)"
    using posix_log_written [OF assms(1-5)] assms(8) by (simp split: prod.splits)
  from posix_seq.read_big_number [OF reader_start [OF assms(7) this] assms(6)] show ?thesis
    by (auto simp: LogReader_init_def)
qed

section \<open>Buffered and direct writing\<close>

text \<open>
  C8. \<open>WritableFileWriter::Append\<close> through the OS cache: for data of any size, any buffer
  sizes and any outcome of the system calls it returns, keeps the writer well formed, and
  when it reports success the bytes accepted so far (those in the file followed by those in
  the buffer) are the old ones followed by the new data, and \<open>filesize_\<close> has grown by its
  length.
\<close>

theorem writer_Append_buffered:
  assumes "buffered_inv pw_ok w"
  shows "\<exists>s w'. WFW_Append PosixWritableFile_vt data w = Some (s, w') \<and> buffered_inv pw_ok w' \<and>
           (Status_ok s \<longrightarrow>
              buffered_contents pw_appended w' = buffered_contents pw_appended w @ data \<and>
              w_filesize w' = w_filesize w + length data)"
  using posix_append.buffered.writer_Append_law [OF assms, of data] by blast

theorem writer_Append_buffered_witness:
  "\<exists>d s w'. posix_writer fresh_file 131072 4096 = Some d \<and>
     WFW_Append PosixWritableFile_vt (replicate 200000 1) d = Some (s, w') \<and>
     (Status_ok s \<longrightarrow> buffered_contents pw_appended w' = replicate 200000 1)"
proof -
  obtain d where d: "posix_writer fresh_file 131072 4096 = Some d" "buffered_inv pw_ok d"
      "buffered_contents pw_appended d = []"
    using posix_writer_created [OF fresh_file(2)] fresh_file(3) by metis
  from writer_Append_buffered [OF d(2), of "replicate 200000 1"] d(1) show ?thesis
    unfolding d(3) append_Nil by blast
qed

text \<open>
  Direct I/O, where only whole aligned pages are written and the last, partial page is kept in
  the buffer and written again: on a descriptor that honours offsets \<open>Append\<close> returns, and on
  success the file up to the next write offset followed by the buffer is the old contents
  followed by the data. \<open>PosixEnv\<close> opens no such descriptor: it always sets \<open>O_APPEND\<close>, and
  the constructor of its direct files fails an assertion (\<open>direct_writes_assert\<close>).
\<close>

lemma writer_Append_direct:
  assumes "unbuffered_inv 4096 pw_data direct_ok w"
  shows "\<exists>s w'. WFW_Append (PosixDirectIOWritableFile_vt True) data w = Some (s, w') \<and>
           unbuffered_inv 4096 pw_data direct_ok w' \<and>
           (Status_ok s \<longrightarrow>
              unbuffered_contents pw_data w' = unbuffered_contents pw_data w @ data \<and>
              w_filesize w' = w_filesize w + length data)"
  using posix_positioned.unbuffered.writer_Append_law [OF assms, of data] by blast

text \<open>
  C10. \<open>Sync\<close>: when it reports success, everything appended so far is in the file itself, the
  buffer is empty and no sync is pending; a failure of the flush or of the sync call is
  reported and leaves the writer well formed.
\<close>

theorem writer_Sync_posix:
  assumes "buffered_inv pw_ok w"
  shows "\<exists>s w'. WFW_Sync PosixWritableFile_vt use_fsync w = Some (s, w') \<and> buffered_inv pw_ok w' \<and>
           (Status_ok s \<longrightarrow>
              pw_appended (the (w_file w')) = buffered_contents pw_appended w \<and>
              ab_data (w_buf w') = [] \<and> \<not> w_pending_sync w')"
proof -
  from posix_append.buffered_Flush_law [OF assms] obtain s1 w1 where
    fl: "WFW_Flush PosixWritableFile_vt w = Some (s1, w1)" "buffered_inv pw_ok w1"
      "Status_ok s1 \<longrightarrow> pw_appended (the (w_file w1)) = buffered_contents pw_appended w \<and> ab_data (w_buf w1) = []"
    by blast
  from fl(2) obtain f where f: "w_file w1 = Some f" "pw_ok f"
    by (auto simp: buffered_inv_def wfw_base_def)
  obtain s2 f2 where sync: "checked sys_sync f = (s2, f2)" by (cases "checked sys_sync f")
  have "pw_ok f2 \<and> pw_appended f2 = pw_appended f"
    using posix_append.Sync_frame [OF f(2)] sync
    by (simp add: PosixWritableFile_vt_def PosixWritableFile_Sync_def)
  with fl f sync show ?thesis
    by (auto simp: WFW_Sync_def SyncInternal_def call_file_def PosixWritableFile_vt_def
        PosixWritableFile_Sync_def PosixWritableFile_Fsync_def buffered_inv_def wfw_base_def)
qed

theorem writer_Sync_posix_witness:
  "\<exists>d s w'. posix_writer fresh_file 65536 0 = Some d \<and> WFW_Sync PosixWritableFile_vt True d = Some (s, w')"
proof -
  obtain d where d: "posix_writer fresh_file 65536 0 = Some d" "buffered_inv pw_ok d"
    using posix_writer_created [OF fresh_file(2)] by metis
  from writer_Sync_posix [OF d(2), of True] d(1) show ?thesis by blast
qed

text \<open>
  Direct I/O as \<open>NewWritableFile\<close> opens it, with \<open>O_APPEND\<close>: on Linux the offset of a
  positioned write is then ignored, so rewriting the last partial page does not replace it
  but adds it once more at the end of the file.
\<close>

lemma direct_append_ignores_offset:
  assumes "k_open (pw_kernel f)" and "k_script (pw_kernel f) = []" and "k_append (pw_kernel f)"
    and "IsSectorAligned off" and "IsSectorAligned (Slice_size d)"
  shows "\<exists>f'. PosixDirectIOWritableFile_PositionedAppend True d off f = Some (Status_OK, f') \<and>
           pw_data f' = pw_data f @ d"
  using assms
  by (cases "d = []")
     (simp_all add: PosixDirectIOWritableFile_PositionedAppend_def PosixWritableFile_PositionedAppend_def
        pwrite_loop.simps [of "pw_filename f" d] pwrite_loop.simps [of "pw_filename f" "[]"]
        sys_pwrite_def transfer_clean Let_def pw_data_def write_at_def overwrite_def)

text \<open>
  After a successful \<open>PositionedAppend\<close> the size the file object keeps is the offset plus
  \<^emph>\<open>twice\<close> the length of the data, as the offset has already been advanced by the loop.
\<close>

lemma PositionedAppend_filesize:
  assumes "pw_ok f" and "off \<le> length (pw_data f)"
    and "PosixWritableFile_PositionedAppend d off f = (s, f')" and "Status_ok s"
  shows "PosixWritableFile_GetFileSize f' = off + 2 * length d \<and> pw_data f' = overwrite (pw_data f) off d"
proof -
  obtain s1 off1 k1 where loop: "pwrite_loop (pw_filename f) d off (pw_kernel f) = (s1, off1, k1)"
    by (cases "pwrite_loop (pw_filename f) d off (pw_kernel f)")
  have "kernel_ok (pw_kernel f)" "off \<le> length (k_data (pw_kernel f))"
    using assms(1,2) by (simp_all add: pw_ok_def pw_data_def)
  from pwrite_loop_law [OF this loop] assms(3,4) loop show ?thesis
    by (auto simp: PosixWritableFile_PositionedAppend_def PosixWritableFile_GetFileSize_def pw_data_def
        Slice_size_def Let_def split: if_splits)
qed

end
